(* ===== verification/OSC_Prelude.thy ===== *)
theory OSC_Prelude
  imports Main "HOL-Library.Word" "HOL-Library.Char_ord" "HOL-Library.List_Lexorder"
begin

text \<open>
  Shared ground of the development: the machine types, the exceptions the C++ code can raise,
  operations on the program state as state-and-exception functions, \<open>std::map\<close> as a list
  sorted by key, and the generic list lemmas of the component theories.
\<close>

named_theorems op_defs \<open>definitions of the state-and-exception combinators\<close>
named_theorems codec \<open>facts about printing and reading values\<close>

type_synonym u8 = "8 word"
type_synonym u32 = "32 word"
type_synonym u64 = "64 word"

section \<open>Exceptions and operations\<close>

text \<open>
  What a C++ call can end in besides a value. \<open>Undefined_behaviour\<close> stands for a step the
  language gives no meaning to (a null dereference, an index past the end, a read of an
  uninitialised member).
\<close>

datatype exn =
    System_error nat
  | Invalid_argument
  | Out_of_range
  | Runtime_error string
  | Undefined_behaviour

text \<open>
  An operation on a state \<open>'s\<close>: a value or an exception, together with the state it leaves.
  A write made before an exception is raised stays.
\<close>

type_synonym ('s, 'a) op = "'s \<Rightarrow> (exn + 'a) \<times> 's"

definition ret :: "'a \<Rightarrow> ('s, 'a) op" where
  "ret x s = (Inr x, s)"

definition throw :: "exn \<Rightarrow> ('s, 'a) op" where
  "throw e s = (Inl e, s)"

definition lift :: "exn + 'a \<Rightarrow> ('s, 'a) op" where
  "lift r s = (r, s)"

definition bindS :: "('s, 'a) op \<Rightarrow> ('a \<Rightarrow> ('s, 'b) op) \<Rightarrow> ('s, 'b) op" where
  "bindS m f s = (case m s of (Inl e, s') \<Rightarrow> (Inl e, s') | (Inr x, s') \<Rightarrow> f x s')"

definition getS :: "('s \<Rightarrow> 'a) \<Rightarrow> ('s, 'a) op" where
  "getS f s = (Inr (f s), s)"

definition modS :: "('s \<Rightarrow> 's) \<Rightarrow> ('s, unit) op" where
  "modS f s = (Inr (), f s)"

text \<open>A range-\<open>for\<close> loop whose body threads an accumulator.\<close>

fun foldS :: "('a \<Rightarrow> 'b \<Rightarrow> ('s, 'b) op) \<Rightarrow> 'a list \<Rightarrow> 'b \<Rightarrow> ('s, 'b) op" where
  "foldS f [] b = ret b"
| "foldS f (x # xs) b = bindS (f x b) (foldS f xs)"

lemmas [op_defs] = ret_def throw_def lift_def bindS_def getS_def modS_def

lemma bindS_ret [simp]: "bindS (ret x) f = f x"
  by (simp add: fun_eq_iff op_defs)

lemma bindS_throw [simp]: "bindS (throw e) f = throw e"
  by (simp add: fun_eq_iff op_defs)

lemma bindS_ret_right [simp]: "bindS m ret = m"
  by (auto simp: fun_eq_iff op_defs split: prod.splits sum.splits)

lemma bindS_assoc: "bindS (bindS m f) g = bindS m (\<lambda>x. bindS (f x) g)"
  by (auto simp: fun_eq_iff op_defs split: prod.splits sum.splits)

lemma lift_simps [simp]: "lift (Inr x) = ret x" "lift (Inl e) = throw e"
  by (simp_all add: fun_eq_iff op_defs)

lemma foldS_append: "foldS f (xs @ ys) b = bindS (foldS f xs b) (foldS f ys)"
proof (induction xs arbitrary: b)
  case (Cons x xs)
  then have "foldS f (xs @ ys) = (\<lambda>b. bindS (foldS f xs b) (foldS f ys))"
    by (simp add: fun_eq_iff)
  then show ?case by (simp add: bindS_assoc)
qed simp

section \<open>std::map as a list sorted by key\<close>

type_synonym ('k, 'v) std_map = "('k \<times> 'v) list"

fun map_at :: "('k, 'v) std_map \<Rightarrow> 'k \<Rightarrow> 'v option" where
  "map_at [] k = None"
| "map_at ((k', v) # m) k = (if k' = k then Some v else map_at m k)"

fun map_put :: "'k::linorder \<Rightarrow> 'v \<Rightarrow> ('k, 'v) std_map \<Rightarrow> ('k, 'v) std_map" where
  "map_put k v [] = [(k, v)]"
| "map_put k v ((k', v') # m) =
     (if k < k' then (k, v) # (k', v') # m
      else if k = k' then (k, v) # m
      else (k', v') # map_put k v m)"

fun map_erase :: "'k \<Rightarrow> ('k, 'v) std_map \<Rightarrow> ('k, 'v) std_map" where
  "map_erase k [] = []"
| "map_erase k ((k', v') # m) = (if k' = k then m else (k', v') # map_erase k m)"

definition map_ok :: "('k::linorder, 'v) std_map \<Rightarrow> bool" where
  "map_ok m \<longleftrightarrow> sorted_wrt (<) (map fst m)"

lemma map_ok_simps [simp]:
  "map_ok []" "map_ok ((k, v) # m) \<longleftrightarrow> (\<forall>k' \<in> fst ` set m. k < k') \<and> map_ok m"
  by (auto simp: map_ok_def)

lemma fst_map_put [simp]: "fst ` set (map_put k v m) = insert k (fst ` set m)"
  by (induction k v m rule: map_put.induct) auto

lemma set_map_erase: "set (map_erase k m) \<subseteq> set m"
  by (induction k m rule: map_erase.induct) auto

lemma map_at_None: "map_at m k = None \<longleftrightarrow> k \<notin> fst ` set m"
  by (induction m k rule: map_at.induct) auto

lemma map_at_Some_mem: "map_at m k = Some v \<Longrightarrow> (k, v) \<in> set m"
  by (induction m k rule: map_at.induct) (auto split: if_splits)

lemma map_ok_put: "map_ok m \<Longrightarrow> map_ok (map_put k v m)"
  by (induction k v m rule: map_put.induct) force+

lemma map_ok_erase: "map_ok m \<Longrightarrow> map_ok (map_erase k m)"
  by (induction k m rule: map_erase.induct) (use set_map_erase in fastforce)+

lemma map_at_put: "map_ok m \<Longrightarrow> map_at (map_put k v m) x = (if x = k then Some v else map_at m x)"
  by (induction k v m rule: map_put.induct) auto

lemma map_at_erase: "map_ok m \<Longrightarrow> map_at (map_erase k m) x = (if x = k then None else map_at m x)"
proof (induction k m rule: map_erase.induct)
  case (2 k k' v' m)
  then have "map_ok m" and "map_at m k' = None" by (auto simp: map_at_None)
  with 2 show ?case by auto
qed simp

text \<open>The contract of an ordered map, as its clients (the cart, the order) use it.\<close>

locale ordered_map =
  fixes emp :: "'m"
    and put :: "'k \<Rightarrow> 'v \<Rightarrow> 'm \<Rightarrow> 'm"
    and del :: "'k \<Rightarrow> 'm \<Rightarrow> 'm"
    and at :: "'m \<Rightarrow> 'k \<Rightarrow> 'v option"
    and ok :: "'m \<Rightarrow> bool"
  assumes ok_emp: "ok emp"
    and ok_put: "ok m \<Longrightarrow> ok (put k v m)"
    and ok_del: "ok m \<Longrightarrow> ok (del k m)"
    and at_emp: "at emp k = None"
    and at_put: "ok m \<Longrightarrow> at (put k v m) x = (if x = k then Some v else at m x)"
    and at_del: "ok m \<Longrightarrow> at (del k m) x = (if x = k then None else at m x)"
begin

lemma put_del_at: "ok m \<Longrightarrow> at (put k v (del k m)) = at (put k v m)"
  by (simp add: fun_eq_iff ok_del at_put at_del)

lemma ok_fold_put: "ok m \<Longrightarrow> ok (fold (\<lambda>(k, v). put k v) kvs m)"
  by (induction kvs arbitrary: m) (auto intro: ok_put)

lemma at_fold_put:
  "ok m \<Longrightarrow> distinct (map fst kvs) \<Longrightarrow>
   at (fold (\<lambda>(k, v). put k v) kvs m) x =
     (case map_of kvs x of None \<Rightarrow> at m x | Some v \<Rightarrow> Some v)"
proof (induction kvs arbitrary: m)
  case (Cons kv kvs)
  obtain k v where kv: "kv = (k, v)" by force
  with Cons.prems have "map_of kvs k = None" by (simp add: map_of_eq_None_iff)
  with kv Cons show ?case by (simp add: ok_put at_put split: option.split)
qed simp

end

interpretation std_map: ordered_map "[]" map_put map_erase map_at map_ok
  by unfold_locales (simp_all add: map_ok_put map_ok_erase map_at_put map_at_erase)

text \<open>
  Inserting the entries of a sorted list one by one, in its order, into the empty map rebuilds
  the list: what reading a stored cart back relies on.
\<close>

lemma map_put_last:
  "\<forall>k' \<in> fst ` set m. k' < k \<Longrightarrow> map_put k v m = m @ [(k, v)]"
  by (induction k v m rule: map_put.induct) auto

lemma map_erase_absent: "k \<notin> fst ` set m \<Longrightarrow> map_erase k m = m"
  by (induction k m rule: map_erase.induct) auto

lemma fold_map_put_sorted:
  "map_ok (m @ kvs) \<Longrightarrow> fold (\<lambda>(k, v). map_put k v) kvs m = m @ kvs"
proof (induction kvs arbitrary: m)
  case (Cons kv kvs)
  obtain k v where kv: "kv = (k, v)" by force
  from Cons.prems kv have "\<forall>k' \<in> fst ` set m. k' < k"
    by (auto simp: map_ok_def sorted_wrt_append)
  then have "map_put k v m = m @ [(k, v)]" by (rule map_put_last)
  then show ?case using Cons.IH[of "m @ [(k, v)]"] Cons.prems kv by simp
qed simp

lemma map_ok_at: "map_ok m \<Longrightarrow> (k, v) \<in> set m \<Longrightarrow> map_at m k = Some v"
  by (induction m k rule: map_at.induct) force+

section \<open>Words and lists\<close>

lemma unat_bound: "unat (w :: 'a::len word) < 2 ^ LENGTH('a)"
  by (rule unsigned_less)

lemma length_drop_dropWhile: "xs \<noteq> [] \<Longrightarrow> length (drop 1 (dropWhile P xs)) < length xs"
  using length_dropWhile_le[of P xs] by (cases xs) auto

lemma takeWhile_id: "\<forall>x \<in> set xs. P x \<Longrightarrow> takeWhile P xs = xs"
  by (induction xs) auto

lemma dropWhile_none: "\<forall>x \<in> set xs. P x \<Longrightarrow> dropWhile P xs = []"
  by (induction xs) auto

lemma takeWhile_neq: "d \<notin> set xs \<Longrightarrow> takeWhile (\<lambda>c. c \<noteq> d) xs = xs"
  by (induction xs) auto

lemma dropWhile_neq: "d \<notin> set xs \<Longrightarrow> dropWhile (\<lambda>c. c \<noteq> d) xs = []"
  by (induction xs) auto

lemma unat_ucast_mod: "unat (ucast (w :: 'a::len word) :: 'b::len word) = unat w mod 2 ^ LENGTH('b)"
  by (simp add: unsigned_ucast_eq unsigned_take_bit_eq take_bit_eq_mod)

lemma bits_below:
  fixes x :: "'a::len word"
  assumes "\<And>n. k \<le> n \<Longrightarrow> \<not> bit x n"
  shows "unat x < 2 ^ k"
proof -
  have "take_bit k x = x" using assms by (intro bit_eqI) (auto simp: bit_take_bit_iff intro: leI ccontr)
  then have "unat x = take_bit k (unat x)" by (metis unsigned_take_bit_eq)
  then show ?thesis by (metis take_bit_nat_less_exp)
qed

lemma bits_ge_not:
  fixes c :: "'a::len word"
  assumes "unat c < 2 ^ k" and "k \<le> n"
  shows "\<not> bit c n"
proof -
  have "unat c < 2 ^ n" using assms power_increasing[of k n "2 :: nat"] by linarith
  then have "\<not> bit (unat c) n" by (simp add: bit_iff_odd)
  then show ?thesis by (simp add: bit_unsigned_iff)
qed

lemma bit_u8_high: "8 \<le> n \<Longrightarrow> \<not> bit (b :: u8) n"
  using bit_imp_le_length[of b n] by auto

lemma ucast_32_64_32 [simp]: "ucast (ucast (w :: u32) :: u64) = w"
  by transfer simp

section \<open>Sizes in signed integers\<close>

text \<open>A size of C type \<open>gsize\<close> stored in a 32-bit \<open>gint\<close>: it keeps its low 32 bits.\<close>

definition gint_of :: "nat \<Rightarrow> int" where
  "gint_of n = sint (of_nat n :: u32)"

lemma gint_of_small: "n < 2147483648 \<Longrightarrow> gint_of n = int n"
  by (simp add: gint_of_def signed_of_nat signed_take_bit_int_eq_self)

lemma gint_of_negative:
  assumes "2147483648 \<le> n" and "n < 4294967296"
  shows "gint_of n < 0"
proof -
  have "n div 2147483648 = 1" using assms by (intro div_nat_eqI) simp_all
  then have "bit n 31" by (simp add: bit_iff_odd)
  then show ?thesis
    by (simp add: gint_of_def signed_of_nat signed_take_bit_negative_iff bit_of_nat_iff_bit)
qed

lemma gint_of_wraps: "gint_of (4294967296 * k) = 0"
  unfolding gint_of_def by (subst word_of_nat_eq_0_iff[THEN iffD2]) simp_all

lemma takeWhile_all: "\<forall>x \<in> set xs. P x \<Longrightarrow> takeWhile P (xs @ ys) = xs @ takeWhile P ys"
  by (induction xs) auto

lemma dropWhile_all: "\<forall>x \<in> set xs. P x \<Longrightarrow> dropWhile P (xs @ ys) = dropWhile P ys"
  by (induction xs) auto

lemma dropWhile_hd: "xs \<noteq> [] \<Longrightarrow> \<not> P (hd xs) \<Longrightarrow> dropWhile P xs = xs"
  by (cases xs) auto

end
