(* ===== verification/Cpp_Std.thy ===== *)
theory Cpp_Std
  imports OSC_Prelude
begin

text \<open>
  The parts of the C and C++ standard library the application computes with: \<open>to_string\<close> and
  \<open>stoul\<close> on unsigned integers, \<open>isspace\<close>, \<open>split\<close> of \<open>common.h\<close>, binary32 arithmetic with
  \<open>stof\<close> and the \<open>%f\<close> printing of \<open>to_string(float)\<close>, and \<open>strftime\<close>/\<open>strptime\<close> for the one
  format the program uses. The C locale is in force: the program never calls \<open>setlocale\<close>.
\<close>

section \<open>Characters\<close>

definition isspace :: "char \<Rightarrow> bool" where
  "isspace c \<longleftrightarrow> c \<in> {CHR '' '', CHR 0x09, CHR 0x0A, CHR 0x0B, CHR 0x0C, CHR 0x0D}"

definition isdigit :: "char \<Rightarrow> bool" where
  "isdigit c \<longleftrightarrow> 48 \<le> (of_char c :: nat) \<and> (of_char c :: nat) \<le> 57"

definition digit_val :: "char \<Rightarrow> nat" where
  "digit_val c = of_char c - 48"

definition digit_char :: "nat \<Rightarrow> char" where
  "digit_char n = char_of (48 + n)"

lemma of_char_digit [simp]: "n < 10 \<Longrightarrow> (of_char (digit_char n) :: nat) = 48 + n"
  by (simp add: digit_char_def of_char_of)

lemma isdigit_digit_char [simp]: "n < 10 \<Longrightarrow> isdigit (digit_char n)"
  by (simp add: isdigit_def)

lemma digit_val_digit_char [simp]: "n < 10 \<Longrightarrow> digit_val (digit_char n) = n"
  by (simp add: digit_val_def)

lemma isdigit_not_special [simp]:
  "isdigit c \<Longrightarrow> \<not> isspace c" "isdigit c \<Longrightarrow> c \<noteq> CHR ''-''" "isdigit c \<Longrightarrow> c \<noteq> CHR ''+''"
  "isdigit c \<Longrightarrow> c \<noteq> CHR '':''" "isdigit c \<Longrightarrow> c \<noteq> CHR 0x0A"
  by (auto simp: isdigit_def isspace_def)

lemma digit_char_eval:
  "digit_char 0 = CHR ''0''" "digit_char 1 = CHR ''1''" "digit_char (Suc 0) = CHR ''1''"
  "digit_char 2 = CHR ''2''" "digit_char 3 = CHR ''3''" "digit_char 4 = CHR ''4''"
  "digit_char 5 = CHR ''5''" "digit_char 6 = CHR ''6''" "digit_char 7 = CHR ''7''"
  "digit_char 8 = CHR ''8''" "digit_char 9 = CHR ''9''"
  by (simp_all add: digit_char_def char_of_def bit_Suc_0_iff)

section \<open>Unsigned integers in decimal\<close>

text \<open>\<open>to_string\<close> of an unsigned value prints its decimal digits without leading zeros.\<close>

fun show_nat :: "nat \<Rightarrow> string" where
  "show_nat n = (if n < 10 then [digit_char n] else show_nat (n div 10) @ [digit_char (n mod 10)])"

declare show_nat.simps [simp del]

definition read_dec :: "string \<Rightarrow> nat" where
  "read_dec ds = foldl (\<lambda>v c. 10 * v + digit_val c) 0 ds"

definition to_string :: "'a::len word \<Rightarrow> string" where
  "to_string w = show_nat (unat w)"

lemma show_nat_digits: "\<forall>c \<in> set (show_nat n). isdigit c"
proof (induction n rule: show_nat.induct)
  case (1 n)
  then show ?case by (cases "n < 10") (auto simp: show_nat.simps[of n])
qed

lemma show_nat_nonempty [simp]: "show_nat n \<noteq> []"
  by (subst show_nat.simps) simp

text \<open>Rules that evaluate on numerals only.\<close>

lemma show_nat_eval:
  "show_nat 0 = ''0''" "show_nat 1 = ''1''"
  "show_nat (numeral k) = (if numeral k < (10 :: nat) then [digit_char (numeral k)]
     else show_nat (numeral k div 10) @ [digit_char (numeral k mod 10)])"
  by (subst show_nat.simps, simp add: digit_char_def char_of_def bit_Suc_0_iff)+

lemma read_dec_snoc: "read_dec (ds @ [c]) = 10 * read_dec ds + digit_val c"
  by (simp add: read_dec_def)

lemma read_dec_append: "read_dec (xs @ ys) = read_dec xs * 10 ^ length ys + read_dec ys"
proof (induction ys rule: rev_induct)
  case (snoc y ys)
  then show ?case by (simp add: read_dec_snoc append_assoc[symmetric] algebra_simps del: append_assoc)
qed (simp add: read_dec_def)

lemma read_dec_zeros: "read_dec (replicate n (CHR ''0'') @ ds) = read_dec ds"
  by (induction n) (simp_all add: read_dec_def digit_val_def)

lemma length_show_nat: "n < 10 ^ Suc k \<Longrightarrow> length (show_nat n) \<le> Suc k"
proof (induction k arbitrary: n)
  case 0
  then show ?case by (simp add: show_nat.simps[of n])
next
  case (Suc k)
  show ?case
  proof (cases "n < 10")
    case False
    have "n div 10 < 10 ^ Suc k" using Suc.prems by (simp add: less_mult_imp_div_less)
    with Suc.IH False show ?thesis by (simp add: show_nat.simps[of n])
  qed (simp add: show_nat.simps[of n])
qed

lemma read_show_nat [codec]: "read_dec (show_nat n) = n"
proof (induction n rule: show_nat.induct)
  case (1 n)
  show ?case
  proof (cases "n < 10")
    case True
    then show ?thesis by (simp add: show_nat.simps[of n] read_dec_def)
  next
    case False
    with 1 show ?thesis by (simp add: show_nat.simps[of n] read_dec_snoc)
  qed
qed

lemma show_nat_inj: "show_nat m = show_nat n \<longleftrightarrow> m = n"
  by (metis read_show_nat)

lemma to_string_digits: "\<forall>c \<in> set (to_string w). isdigit c"
  by (simp add: to_string_def show_nat_digits)

lemma to_string_nonempty [simp]: "to_string w \<noteq> []"
  by (simp add: to_string_def)

lemma to_string_inj [simp]: "to_string v = to_string w \<longleftrightarrow> v = w"
  by (simp add: to_string_def show_nat_inj word_unat_eq_iff)

text \<open>
  \<open>stoul\<close> in base 10: leading white space, an optional sign, then digits. No digit raises
  \<open>invalid_argument\<close>; a value past \<open>ULONG_MAX\<close> raises \<open>out_of_range\<close>; a minus sign negates in
  64-bit arithmetic; what follows the digits is ignored.
\<close>

definition skip_sign :: "string \<Rightarrow> bool \<times> string" where
  "skip_sign s = (case s of
       [] \<Rightarrow> (False, [])
     | c # cs \<Rightarrow> if c = CHR ''-'' then (True, cs) else if c = CHR ''+'' then (False, cs)
                else (False, s))"

definition stoul :: "string \<Rightarrow> exn + u64" where
  "stoul s =
     (let (neg, s') = skip_sign (dropWhile isspace s);
          ds = takeWhile isdigit s';
          v = read_dec ds
      in if ds = [] then Inl Invalid_argument
         else if 2 ^ 64 \<le> v then Inl Out_of_range
         else Inr (if neg then - of_nat v else of_nat v))"

text \<open>\<open>(unsigned int)stoul(s)\<close>: the low 32 bits.\<close>

definition stoul_uint :: "string \<Rightarrow> exn + u32" where
  "stoul_uint s = (case stoul s of Inl e \<Rightarrow> Inl e | Inr w \<Rightarrow> Inr (ucast w))"

lemma stoul_digits:
  assumes "ds \<noteq> []" and "\<forall>c \<in> set ds. isdigit c" and "read_dec ds < 2 ^ 64"
    and "rest = [] \<or> \<not> isdigit (hd rest)"
  shows "stoul (ds @ rest) = Inr (of_nat (read_dec ds))"
proof -
  obtain c cs where ds: "ds = c # cs" using assms(1) by (cases ds) auto
  have tw: "takeWhile isdigit (ds @ rest) = ds"
    using assms(2,4) by (cases rest) (auto simp: takeWhile_all)
  have "dropWhile isspace (ds @ rest) = ds @ rest"
    using assms(2) ds by simp
  moreover have "skip_sign (ds @ rest) = (False, ds @ rest)"
    using assms(2) ds by (simp add: skip_sign_def)
  ultimately show ?thesis using tw assms(1,3) by (simp add: stoul_def)
qed

lemma stoul_to_string [codec]: "stoul (to_string (w :: u64)) = Inr w"
proof -
  have "read_dec (show_nat (unat w)) < 2 ^ 64"
    using unat_bound[of w] by (simp add: codec)
  then show ?thesis
    using stoul_digits[of "to_string w" "[]"] by (simp add: to_string_def show_nat_digits codec)
qed

lemma stoul_uint_to_string [codec]: "stoul_uint (to_string (w :: u32)) = Inr w"
proof -
  have *: "unat w < 2 ^ 64" using unat_bound[of w] by simp
  then have "stoul (to_string w) = Inr (of_nat (unat w))"
    using stoul_digits[of "to_string w" "[]"] by (simp add: to_string_def show_nat_digits codec)
  then show ?thesis by (simp add: stoul_uint_def)
qed

lemma stoul_no_digit:
  "s \<noteq> [] \<Longrightarrow> \<not> isspace (hd s) \<Longrightarrow> \<not> isdigit (hd s) \<Longrightarrow> hd s \<noteq> CHR ''-'' \<Longrightarrow> hd s \<noteq> CHR ''+'' \<Longrightarrow>
   stoul s = Inl Invalid_argument"
  by (cases s) (auto simp: stoul_def skip_sign_def)

section \<open>split (common.h)\<close>

text \<open>
  \<open>getline(ss, elem, delim)\<close> takes the characters up to the delimiter, which it drops. The loop
  of \<open>split\<close> ends when \<open>getline\<close> finds the stream at its end, and keeps the non-empty pieces.
\<close>

definition getline_delim :: "char \<Rightarrow> string \<Rightarrow> string \<times> string" where
  "getline_delim delim s =
     (takeWhile (\<lambda>c. c \<noteq> delim) s, drop 1 (dropWhile (\<lambda>c. c \<noteq> delim) s))"

function split :: "string \<Rightarrow> char \<Rightarrow> string list" where
  "split s delim =
     (if s = [] then []
      else let (elem, rest) = getline_delim delim s
           in if elem \<noteq> [] then elem # split rest delim else split rest delim)"
  by pat_completeness auto
termination
  by (relation "measure (\<lambda>(s, d). length s)")
    (auto simp: getline_delim_def simp del: drop_Suc_Cons intro: length_drop_dropWhile[simplified])

declare split.simps [simp del]

lemma split_Nil [simp]: "split [] d = []"
  by (simp add: split.simps)

lemma split_delim [simp]: "split (d # s) d = split s d"
  by (simp add: split.simps[of "d # s"] getline_delim_def)

lemma split_piece:
  "e \<noteq> [] \<Longrightarrow> d \<notin> set e \<Longrightarrow> split (e @ d # s) d = e # split s d"
  by (subst split.simps) (auto simp: getline_delim_def takeWhile_append dropWhile_append)

lemma split_last: "e \<noteq> [] \<Longrightarrow> d \<notin> set e \<Longrightarrow> split e d = [e]"
  by (subst split.simps) (auto simp: getline_delim_def takeWhile_neq dropWhile_neq)

text \<open>Every piece is non-empty and free of the delimiter, and no other character is lost.\<close>

lemma split_pieces: "e \<in> set (split s d) \<Longrightarrow> e \<noteq> [] \<and> d \<notin> set e"
proof (induction s d rule: split.induct)
  case (1 s d)
  then show ?case
    by (auto simp: split.simps[of s] getline_delim_def Let_def split: if_splits
        dest: set_takeWhileD)
qed

lemma split_concat: "concat (split s d) = filter (\<lambda>c. c \<noteq> d) s"
proof (induction s d rule: split.induct)
  case (1 s d)
  let ?P = "\<lambda>c. c \<noteq> d"
  have "filter ?P s = takeWhile ?P s @ filter ?P (drop 1 (dropWhile ?P s))"
    by (induction s) auto
  then show ?case using 1 by (auto simp: split.simps[of s] getline_delim_def Let_def)
qed

text \<open>The strings the program writes: pieces separated by one delimiter.\<close>

fun join :: "char \<Rightarrow> string list \<Rightarrow> string" where
  "join d [] = []"
| "join d [x] = x"
| "join d (x # xs) = x @ d # join d xs"

lemma split_join [codec]:
  "\<forall>x \<in> set xs. x \<noteq> [] \<and> d \<notin> set x \<Longrightarrow> split (join d xs) d = xs"
  by (induction d xs rule: join.induct) (auto simp: split_piece split_last)

end
