(* ===== verification/Cpp_Float.thy ===== *)
theory Cpp_Float
  imports Cpp_Std
begin

text \<open>
  The C++ type \<open>float\<close> as IEEE 754 binary32 with round-to-nearest-even. Every finite value is a
  multiple of \<open>2\<^sup>-\<^sup>1\<^sup>4\<^sup>9\<close>, the smallest subnormal, so a finite float is a sign and a natural
  number of such units; \<open>\<open>2\<^sup>1\<^sup>2\<^sup>8\<close>\<close> is \<open>2\<^sup>2\<^sup>7\<^sup>7\<close> units. NaN payloads are not distinguished.
\<close>

datatype f32 = Fin bool nat | Inf bool | NaN

fun bitlen :: "nat \<Rightarrow> nat" where
  "bitlen n = (if n = 0 then 0 else Suc (bitlen (n div 2)))"

declare bitlen.simps [simp del]

lemma bitlen_eval [simp]:
  "bitlen 0 = 0" "bitlen 1 = 1" "bitlen (Suc 0) = 1"
  "bitlen (numeral (num.Bit0 k)) = Suc (bitlen (numeral k))"
  "bitlen (numeral (num.Bit1 k)) = Suc (bitlen (numeral k))"
  by (subst bitlen.simps, simp)+

text \<open>The quotient rounded to the nearest integer, ties to even.\<close>

definition round_half_even :: "nat \<Rightarrow> nat \<Rightarrow> nat" where
  "round_half_even num den =
     (let q = num div den; r = num mod den
      in if den < 2 * r \<or> (den = 2 * r \<and> odd q) then Suc q else q)"

text \<open>
  The float nearest to \<open>num / den\<close> units: 24 significant bits, overflow to infinity.
\<close>

definition f32_round :: "bool \<Rightarrow> nat \<Rightarrow> nat \<Rightarrow> f32" where
  "f32_round s num den =
     (let u = 2 ^ (bitlen (num div den) - 24);
          n = round_half_even num (den * u) * u
      in if 2 ^ 277 \<le> n then Inf s else Fin s n)"

definition signed_units :: "bool \<Rightarrow> nat \<Rightarrow> int" where
  "signed_units s n = (if s then - int n else int n)"

fun f32_add :: "f32 \<Rightarrow> f32 \<Rightarrow> f32" where
  "f32_add (Fin s m) (Fin t n) =
     (let v = signed_units s m + signed_units t n
      in if v = 0 then Fin (s \<and> t) 0 else f32_round (v < 0) (nat \<bar>v\<bar>) 1)"
| "f32_add (Inf s) (Inf t) = (if s = t then Inf s else NaN)"
| "f32_add (Inf s) (Fin t n) = Inf s"
| "f32_add (Fin s m) (Inf t) = Inf t"
| "f32_add NaN y = NaN"
| "f32_add x NaN = NaN"

fun f32_mul :: "f32 \<Rightarrow> f32 \<Rightarrow> f32" where
  "f32_mul (Fin s m) (Fin t n) = f32_round (s \<noteq> t) (m * n) (2 ^ 149)"
| "f32_mul (Inf s) (Inf t) = Inf (s \<noteq> t)"
| "f32_mul (Inf s) (Fin t n) = (if n = 0 then NaN else Inf (s \<noteq> t))"
| "f32_mul (Fin s m) (Inf t) = (if m = 0 then NaN else Inf (s \<noteq> t))"
| "f32_mul NaN y = NaN"
| "f32_mul x NaN = NaN"

text \<open>\<open>float(u)\<close> of an unsigned integer.\<close>

definition f32_of_uint :: "u32 \<Rightarrow> f32" where
  "f32_of_uint w = f32_round False (unat w * 2 ^ 149) 1"

text \<open>\<open>to_string(float)\<close> prints with \<open>%f\<close>: six decimals of the exact value.\<close>

fun pad_left :: "nat \<Rightarrow> string \<Rightarrow> string" where
  "pad_left n s = replicate (n - length s) (CHR ''0'') @ s"

declare pad_left.simps [simp del]

lemma read_dec_pad [simp]: "read_dec (pad_left n ds) = read_dec ds"
  by (simp add: pad_left.simps read_dec_zeros)

fun f32_to_string :: "f32 \<Rightarrow> string" where
  "f32_to_string (Fin s n) =
     (let m = round_half_even (n * 10 ^ 6) (2 ^ 149)
      in (if s then ''-'' else []) @ show_nat (m div 10 ^ 6) @ ''.'' @
         pad_left 6 (show_nat (m mod 10 ^ 6)))"
| "f32_to_string (Inf s) = (if s then ''-inf'' else ''inf'')"
| "f32_to_string NaN = ''nan''"

section \<open>stof\<close>

definition lower :: "char \<Rightarrow> char" where
  "lower c = (let n = of_char c :: nat in if 65 \<le> n \<and> n \<le> 90 then char_of (n + 32) else c)"

definition prefix_ci :: "string \<Rightarrow> string \<Rightarrow> bool" where
  "prefix_ci p s \<longleftrightarrow> map lower (take (length p) s) = p"

definition isxdigit :: "char \<Rightarrow> bool" where
  "isxdigit c \<longleftrightarrow> isdigit c \<or> lower c \<in> set ''abcdef''"

definition xdigit_val :: "char \<Rightarrow> nat" where
  "xdigit_val c = (if isdigit c then digit_val c else of_char (lower c) - 87)"

definition read_base :: "nat \<Rightarrow> string \<Rightarrow> nat" where
  "read_base b ds = foldl (\<lambda>v c. b * v + xdigit_val c) 0 ds"

text \<open>
  A mantissa: digits, optionally a point and more digits. The result is its digits, how many
  of them follow the point, and the rest of the text; no digit at all is no mantissa.
\<close>

definition scan_mantissa :: "(char \<Rightarrow> bool) \<Rightarrow> string \<Rightarrow> (string \<times> nat \<times> string) option" where
  "scan_mantissa P s =
     (let ip = takeWhile P s; r = dropWhile P s;
          (fp, r') = (if r \<noteq> [] \<and> hd r = CHR ''.'' then (takeWhile P (tl r), dropWhile P (tl r))
                      else ([], r))
      in if ip @ fp = [] then None else Some (ip @ fp, length fp, r'))"

definition scan_exponent :: "char \<Rightarrow> string \<Rightarrow> int" where
  "scan_exponent e s =
     (case s of [] \<Rightarrow> 0
      | c # cs \<Rightarrow> if lower c \<noteq> e then 0
                 else let (neg, r) = skip_sign cs; ds = takeWhile isdigit r
                      in if neg then - int (read_dec ds) else int (read_dec ds))"

text \<open>Reading \<open>m * b\<^sup>e\<close>: a result past the range, or a tiny inexact one, sets \<open>ERANGE\<close>.\<close>

definition stof_scaled :: "bool \<Rightarrow> nat \<Rightarrow> nat \<Rightarrow> int \<Rightarrow> exn + f32" where
  "stof_scaled neg m b e =
     (let num = m * b ^ nat e * 2 ^ 149; den = b ^ nat (- e)
      in case f32_round neg num den of
           Fin s n \<Rightarrow> if m \<noteq> 0 \<and> n < 2 ^ 23 \<and> n * den \<noteq> num then Inl Out_of_range
                     else Inr (Fin s n)
         | r \<Rightarrow> Inl Out_of_range)"

definition stof :: "string \<Rightarrow> exn + f32" where
  "stof str =
     (let (neg, s) = skip_sign (dropWhile isspace str)
      in if prefix_ci ''inf'' s then Inr (Inf neg)
         else if prefix_ci ''nan'' s then Inr NaN
         else case (if prefix_ci ''0x'' s then scan_mantissa isxdigit (drop 2 s) else None) of
                Some (ds, k, r) \<Rightarrow>
                  stof_scaled neg (read_base 16 ds) 2 (scan_exponent (CHR ''p'') r - 4 * int k)
              | None \<Rightarrow>
                  (case scan_mantissa isdigit s of
                     Some (ds, k, r) \<Rightarrow>
                       stof_scaled neg (read_dec ds) 10 (scan_exponent (CHR ''e'') r - int k)
                   | None \<Rightarrow> Inl Invalid_argument))"

text \<open>A float that survives being printed and read back.\<close>

definition f32_stable :: "f32 \<Rightarrow> bool" where
  "f32_stable x \<longleftrightarrow> stof (f32_to_string x) = Inr x"

section \<open>Representable values\<close>

text \<open>Finite values have at most 24 significant bits: what every operation returns.\<close>

definition f32_units_ok :: "nat \<Rightarrow> bool" where
  "f32_units_ok n \<longleftrightarrow> n < 2 ^ 277 \<and> 2 ^ (bitlen n - 24) dvd n"

fun f32_wf :: "f32 \<Rightarrow> bool" where
  "f32_wf (Fin s n) = f32_units_ok n"
| "f32_wf (Inf s) = True"
| "f32_wf NaN = True"

lemma bitlen_le: "n < 2 ^ k \<Longrightarrow> bitlen n \<le> k"
proof (induction n arbitrary: k rule: bitlen.induct)
  case (1 n)
  show ?case
  proof (cases "n = 0")
    case False
    with "1.prems" obtain j where k: "k = Suc j" by (cases k) auto
    with False 1 have "bitlen (n div 2) \<le> j" by (simp add: less_mult_imp_div_less)
    with False k show ?thesis by (simp add: bitlen.simps[of n])
  qed simp
qed

lemma bitlen_less: "n < 2 ^ bitlen n"
proof (induction n rule: bitlen.induct)
  case (1 n)
  then show ?case by (cases "n = 0") (auto simp: bitlen.simps[of n])
qed

lemma round_half_even_exact: "0 < d \<Longrightarrow> round_half_even (q * d) d = q"
  by (simp add: round_half_even_def)

lemma round_half_even_le: "round_half_even num den \<le> Suc (num div den)"
  by (simp add: round_half_even_def Let_def)

lemma f32_round_exact:
  assumes "0 < den" and "f32_units_ok n"
  shows "f32_round s (n * den) den = Fin s n"
proof -
  let ?u = "2 ^ (bitlen n - 24) :: nat"
  from assms(2) obtain k where k: "n = ?u * k" by (auto simp: f32_units_ok_def)
  have eq: "n * den = k * (den * ?u)" by (subst k) simp
  have "round_half_even (n * den) (den * ?u) = k"
    unfolding eq by (rule round_half_even_exact) (simp add: assms(1))
  then show ?thesis using assms k by (simp add: f32_round_def Let_def f32_units_ok_def mult.commute)
qed

text \<open>Rounding keeps 24 bits even where it carries into the next power of two.\<close>

lemma f32_round_wf: "0 < den \<Longrightarrow> f32_wf (f32_round s num den)"
proof -
  assume den: "0 < den"
  define e where "e = bitlen (num div den) - 24"
  define q where "q = round_half_even num (den * 2 ^ e)"
  have "num div (den * 2 ^ e) < 2 ^ 24"
  proof -
    have "num div den < 2 ^ (e + 24)"
      using bitlen_less[of "num div den"] by (rule less_le_trans) (simp add: e_def)
    then have "num div den div 2 ^ e < 2 ^ 24"
      by (simp add: power_add less_mult_imp_div_less mult.commute)
    then show ?thesis by (simp add: div_mult2_eq)
  qed
  with round_half_even_le[of num "den * 2 ^ e"] have q: "q \<le> 2 ^ 24" by (simp add: q_def)
  have "2 ^ (bitlen (q * 2 ^ e) - 24) dvd q * 2 ^ e"
  proof (cases "q = 2 ^ 24")
    case True
    have "q * 2 ^ e < 2 ^ (e + 25)" using True by (simp add: power_add)
    then have "bitlen (q * 2 ^ e) - 24 \<le> e + 24" using bitlen_le by fastforce
    moreover have "q * 2 ^ e = 2 ^ (e + 24)" using True by (simp add: power_add)
    ultimately show ?thesis by (metis le_imp_power_dvd)
  next
    case False
    with q have "q * 2 ^ e < 2 ^ (e + 24)" by (simp add: power_add)
    then have "bitlen (q * 2 ^ e) - 24 \<le> e" using bitlen_le by fastforce
    then show ?thesis by (simp add: le_imp_power_dvd dvd_mult)
  qed
  then show "f32_wf (f32_round s num den)"
    by (simp add: f32_round_def Let_def f32_units_ok_def e_def q_def)
qed

lemma f32_add_wf: "f32_wf x \<Longrightarrow> f32_wf y \<Longrightarrow> f32_wf (f32_add x y)"
  by (induction x y rule: f32_add.induct)
    (auto simp: Let_def f32_round_wf[of 1] f32_units_ok_def simp del: One_nat_def)

lemma f32_mul_wf: "f32_wf x \<Longrightarrow> f32_wf y \<Longrightarrow> f32_wf (f32_mul x y)"
  by (induction x y rule: f32_mul.induct) (auto simp: f32_round_wf)

lemma f32_of_uint_wf: "f32_wf (f32_of_uint w)"
  by (simp add: f32_of_uint_def f32_round_wf)

section \<open>Printing and reading\<close>

lemma isdigit_not_letter:
  "isdigit c \<Longrightarrow> lower c = c" "isdigit c \<Longrightarrow> c \<noteq> CHR ''i''" "isdigit c \<Longrightarrow> c \<noteq> CHR ''n''"
  "isdigit c \<Longrightarrow> c \<noteq> CHR ''x''"
  by (auto simp: isdigit_def lower_def Let_def)

text \<open>Reading digits, a point and more digits, with no exponent.\<close>

lemma stof_decimal:
  assumes ip: "ip \<noteq> []" "\<forall>c \<in> set ip. isdigit c" and fp: "\<forall>c \<in> set fp. isdigit c"
  shows "stof ((if neg then ''-'' else []) @ ip @ ''.'' @ fp) =
    stof_scaled neg (read_dec (ip @ fp)) 10 (- int (length fp))"
proof -
  let ?t = "ip @ ''.'' @ fp"
  obtain c cs where c: "ip = c # cs" using ip(1) by (cases ip) auto
  have dot: "\<not> isdigit (CHR ''.'')" by (simp add: isdigit_def)
  have "\<not> isspace (CHR ''-'')" by (simp add: isspace_def)
  then have sign: "skip_sign (dropWhile isspace ((if neg then ''-'' else []) @ ?t)) = (neg, ?t)"
    using ip c by (cases neg) (auto simp: skip_sign_def)
  have nox: "\<not> prefix_ci ''inf'' ?t" "\<not> prefix_ci ''nan'' ?t"
    using ip c by (auto simp: prefix_ci_def isdigit_not_letter)
  have nohex: "\<not> prefix_ci ''0x'' ?t"
    using ip c by (cases cs) (auto simp: prefix_ci_def isdigit_not_letter, simp add: lower_def)
  have "scan_mantissa isdigit ?t = Some (ip @ fp, length fp, [])"
    using ip fp dot
    by (auto simp: scan_mantissa_def Let_def takeWhile_all dropWhile_all takeWhile_id dropWhile_none)
  then show ?thesis using sign nox nohex by (simp add: stof_def scan_exponent_def)
qed

lemma stof_print:
  "stof (f32_to_string (Fin s n)) = stof_scaled s (round_half_even (n * 10 ^ 6) (2 ^ 149)) 10 (- 6)"
proof -
  let ?m = "round_half_even (n * 10 ^ 6) (2 ^ 149)"
  let ?ip = "show_nat (?m div 10 ^ 6)" and ?fp = "pad_left 6 (show_nat (?m mod 10 ^ 6))"
  have "?m mod 10 ^ 6 < 10 ^ Suc 5" by simp
  then have len: "length ?fp = 6"
    using length_show_nat[of "?m mod 10 ^ 6" 5] by (simp add: pad_left.simps)
  have digs: "\<forall>c \<in> set ?fp. isdigit c"
    using show_nat_digits by (auto simp: isdigit_def pad_left.simps)
  have "read_dec (?ip @ ?fp) = ?m"
    using len by (simp add: read_dec_append codec)
  with stof_decimal[OF show_nat_nonempty show_nat_digits digs, of s "?m div 10 ^ 6"] len
  show ?thesis by (simp add: Let_def)
qed

text \<open>
  A price that six decimals print exactly (any number of quarters, say) is read back exactly.
\<close>

lemma f32_stable_exact:
  assumes ok: "f32_units_ok n" and ex: "2 ^ 149 dvd n * 10 ^ 6"
  shows "f32_stable (Fin s n)"
proof -
  from ex obtain m where m: "n * 10 ^ 6 = m * 2 ^ 149" by (metis dvdE mult.commute)
  then have "round_half_even (n * 10 ^ 6) (2 ^ 149) = m"
    by (metis round_half_even_exact zero_less_numeral zero_less_power)
  moreover have "f32_round s (m * 2 ^ 149) (10 ^ 6) = Fin s n"
  proof -
    have "f32_round s (n * 10 ^ 6) (10 ^ 6) = Fin s n"
      by (rule f32_round_exact[OF _ ok]) simp
    then show ?thesis by (simp only: m)
  qed
  moreover have "stof_scaled s m 10 (- 6) = Inr (Fin s n)"
    using calculation(2) m by (simp add: stof_scaled_def Let_def)
  ultimately show ?thesis
    by (simp add: f32_stable_def stof_print del: f32_to_string.simps power_numeral)
qed

end
