(* ===== verification/Cpp_Time.thy ===== *)
theory Cpp_Time
  imports Cpp_Std
begin

text \<open>
  \<open>struct tm\<close>, \<open>gmtime\<close>, and the two conversions the program applies to the structure, \<open>strftime\<close>
  and \<open>strptime\<close> with the format \<open>%a, %d %b %Y %H:%M:%S %z\<close>. The members \<open>tm_yday\<close> and \<open>tm_isdst\<close>
  belong to no conversion of that format: \<open>strptime\<close> is not bound to set them, and the structure
  the program gives it is not initialised. \<open>None\<close> stands for such an indeterminate member.
\<close>

record tm =
  tm_sec :: nat
  tm_min :: nat
  tm_hour :: nat
  tm_mday :: nat
  tm_mon :: nat
  tm_year :: int \<comment> \<open>years since 1900\<close>
  tm_wday :: nat
  tm_yday :: "nat option"
  tm_isdst :: "int option"
  tm_gmtoff :: int

section \<open>gmtime\<close>

definition leap_year :: "nat \<Rightarrow> bool" where
  "leap_year y \<longleftrightarrow> y mod 4 = 0 \<and> (y mod 100 \<noteq> 0 \<or> y mod 400 = 0)"

definition month_lengths :: "nat \<Rightarrow> nat list" where
  "month_lengths y = [31, if leap_year y then 29 else 28, 31, 30, 31, 30, 31, 31, 30, 31, 30, 31]"

definition year_length :: "nat \<Rightarrow> nat" where
  "year_length y = (if leap_year y then 366 else 365)"

text \<open>The year of a day counted from the first day of year \<open>y\<close>, and the day in it.\<close>

function year_of :: "nat \<Rightarrow> nat \<Rightarrow> nat \<times> nat" where
  "year_of y d = (if d < year_length y then (y, d) else year_of (Suc y) (d - year_length y))"
  by auto
termination by (relation "measure snd") (auto simp: year_length_def)

declare year_of.simps [simp del]

fun month_of :: "nat list \<Rightarrow> nat \<Rightarrow> nat \<times> nat" where
  "month_of [] d = (0, d)"
| "month_of (l # ls) d = (if d < l then (0, d) else let (m, r) = month_of ls (d - l) in (Suc m, r))"

text \<open>
  Seconds since the first of January 1970, a Thursday, as \<open>time\<close> returns them; the year of the clock
  is one that an \<open>int\<close> holds.
\<close>

definition gmtime :: "nat \<Rightarrow> tm" where
  "gmtime t =
     (let days = t div 86400; s = t mod 86400;
          (y, yd) = year_of 1970 days;
          (m, d) = month_of (month_lengths y) yd
      in \<lparr>tm_sec = s mod 60, tm_min = s div 60 mod 60, tm_hour = s div 3600, tm_mday = d + 1, tm_mon = m,
          tm_year = int y - 1900, tm_wday = (days + 4) mod 7, tm_yday = Some yd, tm_isdst = Some 0, tm_gmtoff = 0\<rparr>)"

definition wday_names :: "string list" where
  "wday_names = [''Sun'', ''Mon'', ''Tue'', ''Wed'', ''Thu'', ''Fri'', ''Sat'']"

definition wday_full :: "string list" where
  "wday_full = [''Sunday'', ''Monday'', ''Tuesday'', ''Wednesday'', ''Thursday'', ''Friday'', ''Saturday'']"

definition mon_names :: "string list" where
  "mon_names = [''Jan'', ''Feb'', ''Mar'', ''Apr'', ''May'', ''Jun'',
                ''Jul'', ''Aug'', ''Sep'', ''Oct'', ''Nov'', ''Dec'']"

definition mon_full :: "string list" where
  "mon_full = [''January'', ''February'', ''March'', ''April'', ''May'', ''June'',
               ''July'', ''August'', ''September'', ''October'', ''November'', ''December'']"

definition name_of :: "string list \<Rightarrow> nat \<Rightarrow> string" where
  "name_of ns i = (if i < length ns then ns ! i else ''?'')"

definition two_digits :: "nat \<Rightarrow> string" where
  "two_digits n = (if n < 10 then CHR ''0'' # show_nat n else show_nat n)"

definition strftime_z :: "int \<Rightarrow> string" where
  "strftime_z off =
     (let m = nat \<bar>off\<bar> div 60
      in (if off < 0 then CHR ''-'' else CHR ''+'') # two_digits (m div 60) @ two_digits (m mod 60))"

definition show_year :: "int \<Rightarrow> string" where
  "show_year y = (if y < 0 then CHR ''-'' # show_nat (nat (- y)) else show_nat (nat y))"

text \<open>
  \<open>%z\<close> gives no characters where \<open>tm_isdst\<close> does not let a zone be determined. No other conversion of
  the format looks at \<open>tm_yday\<close> or \<open>tm_isdst\<close>.
\<close>

definition strftime :: "tm \<Rightarrow> string" where
  "strftime t =
     name_of wday_names (tm_wday t) @ '', '' @ two_digits (tm_mday t) @ '' '' @
     name_of mon_names (tm_mon t) @ '' '' @ show_year (tm_year t + 1900) @ '' '' @
     two_digits (tm_hour t) @ '':'' @ two_digits (tm_min t) @ '':'' @ two_digits (tm_sec t) @ '' '' @
     (case tm_isdst t of None \<Rightarrow> [] | Some n \<Rightarrow> if n < 0 then [] else strftime_z (tm_gmtoff t))"

section \<open>strptime\<close>

text \<open>
  A number of at most \<open>k\<close> digits whose value stays within \<open>hi\<close>: reading stops before a digit
  that would exceed \<open>hi\<close>, and a value outside the range fails.
\<close>

fun scan_digits :: "nat \<Rightarrow> nat \<Rightarrow> nat \<Rightarrow> string \<Rightarrow> nat \<times> string" where
  "scan_digits 0 hi v s = (v, s)"
| "scan_digits (Suc k) hi v [] = (v, [])"
| "scan_digits (Suc k) hi v (c # s) =
     (if isdigit c \<and> v * 10 \<le> hi then scan_digits k hi (v * 10 + digit_val c) s else (v, c # s))"

definition get_number :: "nat \<Rightarrow> nat \<Rightarrow> nat \<Rightarrow> string \<Rightarrow> (nat \<times> string) option" where
  "get_number lo hi k s =
     (let s' = dropWhile (\<lambda>c. c = CHR '' '') s
      in if s' = [] \<or> \<not> isdigit (hd s') then None
         else let (v, r) = scan_digits (k - 1) hi (digit_val (hd s')) (tl s')
              in if v < lo \<or> hi < v then None else Some (v, r))"

definition lower_c :: "char \<Rightarrow> char" where
  "lower_c c = (let n = of_char c :: nat in if 65 \<le> n \<and> n \<le> 90 then char_of (n + 32) else c)"

definition match_ci :: "string \<Rightarrow> string \<Rightarrow> bool" where
  "match_ci p s \<longleftrightarrow> map lower_c (take (length p) s) = map lower_c p"

text \<open>The first name, full form before abbreviation, that starts the text.\<close>

fun get_name :: "nat \<Rightarrow> (string \<times> string) list \<Rightarrow> string \<Rightarrow> (nat \<times> string) option" where
  "get_name i [] s = None"
| "get_name i ((full, abbr) # ns) s =
     (if match_ci full s then Some (i, drop (length full) s)
      else if match_ci abbr s then Some (i, drop (length abbr) s)
      else get_name (Suc i) ns s)"

definition get_lit :: "char \<Rightarrow> string \<Rightarrow> string option" where
  "get_lit c s = (case s of [] \<Rightarrow> None | x # xs \<Rightarrow> if x = c then Some xs else None)"

definition skip_space :: "string \<Rightarrow> string" where
  "skip_space s = dropWhile isspace s"

definition get_zone :: "string \<Rightarrow> int option" where
  "get_zone s =
     (case dropWhile (\<lambda>c. c = CHR '' '') s of
        [] \<Rightarrow> None
      | c # r \<Rightarrow>
          if c = CHR ''Z'' then Some 0
          else if c \<noteq> CHR ''+'' \<and> c \<noteq> CHR ''-'' then None
          else let h = takeWhile isdigit (take 2 r);
                   r1 = drop (length h) r;
                   r2 = (if length h = 2 \<and> r1 \<noteq> [] \<and> hd r1 = CHR '':'' then tl r1 else r1);
                   m = (if length h = 2 then takeWhile isdigit (take 2 r2) else []);
                   v = (if length m = 2 then Some (read_dec (h @ m))
                        else if length h = 2 \<and> m = [] then Some (read_dec h * 100) else None)
               in case v of
                    None \<Rightarrow> None
                  | Some v \<Rightarrow>
                      if 1400 < v \<or> 60 \<le> v mod 100 then None
                      else Some ((if c = CHR ''-'' then -1 else 1) *
                             int ((v div 100) * 3600 + (v mod 100) * 60)))"

definition strptime :: "string \<Rightarrow> tm option" where
  "strptime s =
     Option.bind (get_name 0 (zip wday_full wday_names) s) (\<lambda>(wd, s).
     Option.bind (get_lit (CHR '','') s) (\<lambda>s.
     Option.bind (get_number 1 31 2 (skip_space s)) (\<lambda>(md, s).
     Option.bind (get_name 0 (zip mon_full mon_names) (skip_space s)) (\<lambda>(mo, s).
     Option.bind (get_number 0 9999 4 (skip_space s)) (\<lambda>(yr, s).
     Option.bind (get_number 0 23 2 (skip_space s)) (\<lambda>(ho, s).
     Option.bind (get_lit (CHR '':'') s) (\<lambda>s.
     Option.bind (get_number 0 59 2 s) (\<lambda>(mi, s).
     Option.bind (get_lit (CHR '':'') s) (\<lambda>s.
     Option.bind (get_number 0 61 2 s) (\<lambda>(se, s).
     Option.bind (get_zone (skip_space s)) (\<lambda>z.
       Some \<lparr>tm_sec = se, tm_min = mi, tm_hour = ho, tm_mday = md, tm_mon = mo,
             tm_year = int yr - 1900, tm_wday = wd, tm_yday = None, tm_isdst = None, tm_gmtoff = z\<rparr>)))))))))))"


section \<open>Round trip\<close>

text \<open>A broken-down UTC time as \<open>gmtime\<close> makes it, in a year of at most four digits.\<close>

definition tm_ok :: "tm \<Rightarrow> bool" where
  "tm_ok t \<longleftrightarrow> tm_sec t \<le> 61 \<and> tm_min t \<le> 59 \<and> tm_hour t \<le> 23 \<and> 1 \<le> tm_mday t \<and> tm_mday t \<le> 31 \<and>
     tm_mon t < 12 \<and> -1900 \<le> tm_year t \<and> tm_year t \<le> 8099 \<and> tm_wday t < 7 \<and> tm_isdst t = Some 0 \<and> tm_gmtoff t = 0"

lemma month_of_bounds: "d < sum_list ls \<Longrightarrow> month_of ls d = (m, r) \<Longrightarrow> m < length ls \<and> r < ls ! m"
  by (induction ls d arbitrary: m r rule: month_of.induct) (auto split: if_splits prod.splits)

lemma year_of_bounds:
  "year_of y d = (y', r) \<Longrightarrow> r < year_length y' \<and> y \<le> y' \<and> 365 * (y' - y) \<le> d"
proof (induction y d rule: year_of.induct)
  case (1 y d)
  show ?case
  proof (cases "d < year_length y")
    case True
    then show ?thesis using 1(2) by (simp add: year_of.simps[of y d])
  next
    case False
    then have "year_of (Suc y) (d - year_length y) = (y', r)" using 1(2) by (simp add: year_of.simps[of y d])
    moreover have "365 \<le> year_length y" by (simp add: year_length_def)
    ultimately have IH: "r < year_length y'" "Suc y \<le> y'" "365 * (y' - Suc y) \<le> d - year_length y"
      and "365 \<le> year_length y" using 1(1)[OF False] by simp_all
    moreover have "y' - y = Suc (y' - Suc y)" using IH(2) by simp
    ultimately show ?thesis using False by simp
  qed
qed

lemma sum_month_lengths: "sum_list (month_lengths y) = year_length y"
  by (simp add: month_lengths_def year_length_def)

lemma month_lengths_le: "m < 12 \<Longrightarrow> month_lengths y ! m \<le> 31"
proof -
  assume "m < 12"
  then have "month_lengths y ! m \<in> set (month_lengths y)" by (intro nth_mem) (simp add: month_lengths_def)
  then show ?thesis by (auto simp: month_lengths_def split: if_splits)
qed

text \<open>Up to the year 9994 a time of \<open>gmtime\<close> has a year of four digits.\<close>

lemma gmtime_ok:
  assumes "t < 253234080000"
  shows "tm_ok (gmtime t)"
proof -
  obtain y yd where y: "year_of 1970 (t div 86400) = (y, yd)" by force
  obtain m d where m: "month_of (month_lengths y) yd = (m, d)" by force
  note yb = year_of_bounds[OF y]
  have "yd < sum_list (month_lengths y)" using yb by (simp add: sum_month_lengths)
  from month_of_bounds[OF this m] have md: "m < 12" "d < month_lengths y ! m" by (simp_all add: month_lengths_def)
  then have d: "d < 31" using month_lengths_le[of m y] by simp
  have "t div 86400 < 2930950" by (rule less_mult_imp_div_less) (use assms in simp)
  then have "365 * (y - 1970) < 2930950" using yb by linarith
  then have y4: "1970 \<le> y" "y < 10000" using yb by linarith+
  have s: "t mod 86400 mod 60 < 60" "t mod 86400 div 60 mod 60 < 60" "t mod 86400 div 3600 < 24" "(t div 86400 + 4) mod 7 < 7"
    by (simp_all add: less_mult_imp_div_less)
  have t: "gmtime t = \<lparr>tm_sec = t mod 86400 mod 60, tm_min = t mod 86400 div 60 mod 60, tm_hour = t mod 86400 div 3600,
      tm_mday = d + 1, tm_mon = m, tm_year = int y - 1900, tm_wday = (t div 86400 + 4) mod 7, tm_yday = Some yd,
      tm_isdst = Some 0, tm_gmtoff = 0\<rparr>"
    unfolding gmtime_def Let_def y m prod.case ..
  show ?thesis unfolding t tm_ok_def tm.select_convs using s d y4 md(1) by (intro conjI) (linarith | rule refl)+
qed

text \<open>What is left of a structure after printing and reading.\<close>

definition tm_read :: "tm \<Rightarrow> tm" where
  "tm_read t = t\<lparr>tm_yday := None, tm_isdst := None\<rparr>"

lemma scan_digits_all:
  assumes "\<forall>c \<in> set ds. isdigit c" and "length ds \<le> k" and "rest = [] \<or> \<not> isdigit (hd rest)"
    and "foldl (\<lambda>v c. 10 * v + digit_val c) v ds \<le> hi"
  shows "scan_digits k hi v (ds @ rest) = (foldl (\<lambda>v c. 10 * v + digit_val c) v ds, rest)"
  using assms
proof (induction ds arbitrary: v k)
  case Nil
  then show ?case by (cases k; cases rest) auto
next
  case (Cons d ds)
  have mono: "w \<le> foldl (\<lambda>v c. 10 * v + digit_val c) w xs" for w xs
  proof (induction xs arbitrary: w)
    case (Cons x xs)
    show ?case using Cons[of "10 * w + digit_val x"] by simp
  qed simp
  from Cons.prems obtain k' where k: "k = Suc k'" by (cases k) auto
  have "v * 10 \<le> hi" using Cons.prems(4) mono[of "10 * v + digit_val d" ds] by simp
  then show ?case using Cons k by (simp add: mult.commute)
qed

lemma get_number_show:
  assumes "ds \<noteq> []" "\<forall>c \<in> set ds. isdigit c" "length ds \<le> k" "rest = [] \<or> \<not> isdigit (hd rest)"
    and "lo \<le> read_dec ds" "read_dec ds \<le> hi"
  shows "get_number lo hi k (ds @ rest) = Some (read_dec ds, rest)"
proof -
  obtain d ds' where ds: "ds = d # ds'" using assms(1) by (cases ds) auto
  have "d \<noteq> CHR '' ''" using assms(2) ds by (auto simp: isdigit_def)
  moreover have "scan_digits (k - 1) hi (digit_val d) (ds' @ rest) = (read_dec ds, rest)"
    using scan_digits_all[of ds' "k - 1" rest "digit_val d" hi] assms ds by (simp add: read_dec_def)
  ultimately show ?thesis using assms(2,5,6) ds by (simp add: get_number_def)
qed

lemma two_digits_number:
  assumes "lo \<le> n" "n \<le> hi" "hi < 100" "rest = [] \<or> \<not> isdigit (hd rest)"
  shows "get_number lo hi 2 (two_digits n @ rest) = Some (n, rest)"
proof -
  have val: "read_dec (two_digits n) = n"
    using read_dec_zeros[of 1 "show_nat n"] by (simp add: two_digits_def codec)
  have len: "length (two_digits n) \<le> 2"
    using assms length_show_nat[of n 0] length_show_nat[of n 1] by (auto simp: two_digits_def)
  have dig: "\<forall>c \<in> set (two_digits n). isdigit c"
    using show_nat_digits by (auto simp: two_digits_def isdigit_def)
  have ne: "two_digits n \<noteq> []" by (simp add: two_digits_def)
  show ?thesis using get_number_show[OF ne dig len assms(4)] val assms(1,2) by simp
qed

lemma year_number:
  assumes "y \<le> 9999" "rest = [] \<or> \<not> isdigit (hd rest)"
  shows "get_number 0 9999 4 (show_nat y @ rest) = Some (y, rest)"
  using get_number_show[of "show_nat y" 4 rest 0 9999] assms length_show_nat[of y 3]
  by (simp add: show_nat_digits codec)

lemma wday_name_read:
  assumes "i < 7"
  shows "get_name 0 (zip wday_full wday_names) (name_of wday_names i @ CHR '','' # rest) =
    Some (i, CHR '','' # rest)"
proof -
  have "i = 0 \<or> i = 1 \<or> i = 2 \<or> i = 3 \<or> i = 4 \<or> i = 5 \<or> i = 6" using assms by linarith
  then show ?thesis
    by (elim disjE) (simp_all add: wday_full_def wday_names_def name_of_def match_ci_def lower_c_def char_of_def)
qed

lemma mon_name_read:
  assumes "i < 12"
  shows "get_name 0 (zip mon_full mon_names) (name_of mon_names i @ CHR '' '' # rest) =
    Some (i, CHR '' '' # rest)"
proof -
  have "i = 0 \<or> i = 1 \<or> i = 2 \<or> i = 3 \<or> i = 4 \<or> i = 5 \<or> i = 6 \<or> i = 7 \<or> i = 8 \<or> i = 9 \<or>
      i = 10 \<or> i = 11" using assms by presburger
  then show ?thesis
    by (elim disjE) (simp_all add: mon_full_def mon_names_def name_of_def match_ci_def lower_c_def char_of_def)
qed

lemma skip_space_digits: "ds \<noteq> [] \<Longrightarrow> isdigit (hd ds) \<Longrightarrow> skip_space (CHR '' '' # ds @ r) = ds @ r"
  by (cases ds) (simp_all add: skip_space_def isspace_def[of "CHR '' ''"])

lemma skip_space_mon: "i < 12 \<Longrightarrow> skip_space (CHR '' '' # name_of mon_names i @ r) = name_of mon_names i @ r"
  by (auto simp: skip_space_def isspace_def name_of_def mon_names_def less_Suc_eq numeral_eq_Suc)

lemma hd_show_nat [simp]: "isdigit (hd (show_nat n))"
  using show_nat_digits[of n] hd_in_set[OF show_nat_nonempty[of n]] by blast

lemma hd_two_digits [simp]: "isdigit (hd (two_digits n))" "two_digits n \<noteq> []"
  by (simp_all add: two_digits_def isdigit_def[of "CHR ''0''"])

text \<open>The dates the program prints it reads back, in the members the format names.\<close>

lemma strptime_strftime [codec]:
  assumes "tm_ok t"
  shows "strptime (strftime t) = Some (tm_read t)"
proof -
  have zone: "get_zone (skip_space (CHR '' '' # strftime_z 0)) = Some 0"
    by (simp add: strftime_z_def two_digits_def show_nat_eval get_zone_def skip_space_def isspace_def
        isdigit_def Let_def read_dec_def digit_val_def)
  define y where "y = nat (tm_year t + 1900)"
  have y: "show_year (tm_year t + 1900) = show_nat y" "y \<le> 9999" "int y = tm_year t + 1900"
    using assms by (auto simp: tm_ok_def show_year_def y_def)
  show ?thesis
    using assms zone y
    by (simp add: tm_ok_def tm_read_def strftime_def strptime_def wday_name_read mon_name_read two_digits_number
        year_number skip_space_digits skip_space_mon get_lit_def isdigit_def[of "CHR '' ''"]
        isdigit_def[of "CHR '':''"])
qed

end
