(* ===== verification/Shop_Data.thy ===== *)
theory Shop_Data
  imports Cpp_Float Cpp_Time
begin

text \<open>
  The data classes of the application and their methods that touch no global state: products,
  shipping addresses, payment details, the cart as a map, transactions and users
  (\<open>product.h/.cpp\<close>, \<open>shippingaddress.h/.cpp\<close>, \<open>paymentinfo.h/.cpp\<close>, \<open>shoppingcart.h\<close>,
  \<open>transaction.h/.cpp\<close>, \<open>transactionhistory.h/.cpp\<close>, \<open>user.h/.cpp\<close>). A member the default
  constructor leaves uninitialised is an option, \<open>None\<close> while indeterminate.
\<close>

unbundle bit_operations_syntax

section \<open>Product\<close>

record product =
  p_UPC :: u64
  p_quantity :: u32
  p_price :: f32
  p_category :: string
  p_name :: string
  p_parts_set :: u32
  p_is_set :: bool

definition P_NAME_SET :: u32 where "P_NAME_SET = 1"

definition P_UPC_SET :: u32 where "P_UPC_SET = 2"

definition P_PRICE_SET :: u32 where "P_PRICE_SET = 4"

definition P_CATEGORY_SET :: u32 where "P_CATEGORY_SET = 8"

definition P_QUANTITY_SET :: u32 where "P_QUANTITY_SET = 16"

definition P_ALL_SET :: u32 where "P_ALL_SET = 31"

lemmas P_flags = P_NAME_SET_def P_UPC_SET_def P_PRICE_SET_def P_CATEGORY_SET_def
  P_QUANTITY_SET_def P_ALL_SET_def

definition Product_default :: product where
  "Product_default = \<lparr>p_UPC = 0, p_quantity = 0, p_price = Fin False 0,
     p_category = ''Uncategorized'', p_name = ''UNDEFINED'', p_parts_set = 0, p_is_set = False\<rparr>"

definition Product :: "u64 \<Rightarrow> string \<Rightarrow> f32 \<Rightarrow> string \<Rightarrow> u32 \<Rightarrow> product" where
  "Product new_upc new_name new_price new_category new_quantity =
     \<lparr>p_UPC = new_upc, p_quantity = new_quantity, p_price = new_price,
      p_category = new_category, p_name = new_name, p_parts_set = P_ALL_SET, p_is_set = True\<rparr>"

text \<open>The tail every setter shares: record the part, and note when all parts are there.\<close>

definition p_mark :: "u32 \<Rightarrow> product \<Rightarrow> product" where
  "p_mark flag p =
     (let ps = p_parts_set p OR flag
      in p\<lparr>p_parts_set := ps, p_is_set := (if ps = P_ALL_SET then True else p_is_set p)\<rparr>)"

definition setUPC :: "u64 \<Rightarrow> product \<Rightarrow> product" where
  "setUPC x p = p_mark P_UPC_SET (p\<lparr>p_UPC := x\<rparr>)"

definition setName :: "string \<Rightarrow> product \<Rightarrow> product" where
  "setName x p = p_mark P_NAME_SET (p\<lparr>p_name := x\<rparr>)"

definition setPrice :: "f32 \<Rightarrow> product \<Rightarrow> product" where
  "setPrice x p = p_mark P_PRICE_SET (p\<lparr>p_price := x\<rparr>)"

definition setCategory :: "string \<Rightarrow> product \<Rightarrow> product" where
  "setCategory x p = p_mark P_CATEGORY_SET (p\<lparr>p_category := x\<rparr>)"

text \<open>The assignments of \<open>setQuantity\<close>; its store of the product is in the storage theory.\<close>

definition set_quantity :: "u32 \<Rightarrow> product \<Rightarrow> product" where
  "set_quantity x p = p_mark P_QUANTITY_SET (p\<lparr>p_quantity := x\<rparr>)"

lemmas product_setters = setUPC_def setName_def setPrice_def setCategory_def set_quantity_def p_mark_def

text \<open>A product says it is set exactly when all five of its parts are.\<close>

definition product_ok :: "product \<Rightarrow> bool" where
  "product_ok p \<longleftrightarrow> p_is_set p = (p_parts_set p = P_ALL_SET) \<and> p_parts_set p AND P_ALL_SET = p_parts_set p"

section \<open>ShippingAddress\<close>

record shipping_address =
  shipping_name :: string
  street :: string
  city :: string
  state :: string
  zip :: "u32 option"
  country :: string
  s_is_set :: bool
  s_parts_set :: u32

definition S_NAME_SET :: u32 where "S_NAME_SET = 1"

definition S_STREET_SET :: u32 where "S_STREET_SET = 2"

definition S_CITY_SET :: u32 where "S_CITY_SET = 4"

definition S_STATE_SET :: u32 where "S_STATE_SET = 8"

definition S_ZIP_SET :: u32 where "S_ZIP_SET = 16"

definition S_COUNTRY_SET :: u32 where "S_COUNTRY_SET = 32"

definition S_ALL_SET :: u32 where "S_ALL_SET = 63"

lemmas S_flags = S_NAME_SET_def S_STREET_SET_def S_CITY_SET_def S_STATE_SET_def S_ZIP_SET_def
  S_COUNTRY_SET_def S_ALL_SET_def

definition ShippingAddress_default :: shipping_address where
  "ShippingAddress_default = \<lparr>shipping_name = [], street = [], city = [], state = [],
     zip = None, country = [], s_is_set = False, s_parts_set = 0\<rparr>"

definition ShippingAddress ::
  "string \<Rightarrow> string \<Rightarrow> string \<Rightarrow> string \<Rightarrow> u32 \<Rightarrow> string \<Rightarrow> shipping_address" where
  "ShippingAddress nm str cty st z cn = \<lparr>shipping_name = nm, street = str, city = cty, state = st,
     zip = Some z, country = cn, s_is_set = True, s_parts_set = S_ALL_SET\<rparr>"

definition s_mark :: "u32 \<Rightarrow> shipping_address \<Rightarrow> shipping_address" where
  "s_mark flag a =
     (let ps = s_parts_set a OR flag
      in a\<lparr>s_parts_set := ps, s_is_set := (if ps = S_ALL_SET then True else s_is_set a)\<rparr>)"

definition changeShippingName :: "string \<Rightarrow> shipping_address \<Rightarrow> shipping_address" where
  "changeShippingName x a = s_mark S_NAME_SET (a\<lparr>shipping_name := x\<rparr>)"

definition changeStreet :: "string \<Rightarrow> shipping_address \<Rightarrow> shipping_address" where
  "changeStreet x a = s_mark S_STREET_SET (a\<lparr>street := x\<rparr>)"

definition changeCity :: "string \<Rightarrow> shipping_address \<Rightarrow> shipping_address" where
  "changeCity x a = s_mark S_CITY_SET (a\<lparr>city := x\<rparr>)"

definition changeState :: "string \<Rightarrow> shipping_address \<Rightarrow> shipping_address" where
  "changeState x a = s_mark S_STATE_SET (a\<lparr>state := x\<rparr>)"

definition changeZip :: "u32 \<Rightarrow> shipping_address \<Rightarrow> shipping_address" where
  "changeZip x a = s_mark S_ZIP_SET (a\<lparr>zip := Some x\<rparr>)"

definition changeCountry :: "string \<Rightarrow> shipping_address \<Rightarrow> shipping_address" where
  "changeCountry x a = s_mark S_COUNTRY_SET (a\<lparr>country := x\<rparr>)"

lemmas address_setters = changeShippingName_def changeStreet_def changeCity_def changeState_def
  changeZip_def changeCountry_def s_mark_def

text \<open>
  The invariant of an address: complete exactly when it says so, and its postal code is
  initialised as soon as the postal-code part is recorded.
\<close>

definition address_ok :: "shipping_address \<Rightarrow> bool" where
  "address_ok a \<longleftrightarrow> s_is_set a = (s_parts_set a = S_ALL_SET) \<and>
     s_parts_set a AND S_ALL_SET = s_parts_set a \<and> (s_parts_set a AND S_ZIP_SET \<noteq> 0 \<longrightarrow> zip a \<noteq> None)"

section \<open>PaymentInfo\<close>

record payment_info =
  cc_num :: "u64 option"
  cc_exp :: string
  cc_cv2 :: "u32 option"
  pay_is_set :: bool

definition PaymentInfo_default :: payment_info where
  "PaymentInfo_default = \<lparr>cc_num = None, cc_exp = [], cc_cv2 = None, pay_is_set = False\<rparr>"

definition PaymentInfo :: "u64 \<Rightarrow> string \<Rightarrow> u32 \<Rightarrow> payment_info" where
  "PaymentInfo new_num new_exp new_cv2 =
     \<lparr>cc_num = Some new_num, cc_exp = new_exp, cc_cv2 = Some new_cv2, pay_is_set = True\<rparr>"

section \<open>ShoppingCart as a map\<close>

type_synonym cart = "(u64, product \<times> u32) std_map"

text \<open>
  \<open>addProduct(Product p, unsigned int qty)\<close> without its store: a zero quantity first deletes
  the entry, and then the assignment makes it again.
\<close>

definition cart_set :: "product \<Rightarrow> u32 \<Rightarrow> cart \<Rightarrow> cart" where
  "cart_set p qty c =
     (let c' = (if qty = 0 then map_erase (p_UPC p) c else c)
      in map_put (p_UPC p) (p, qty) c')"

definition checkCart :: "u64 \<Rightarrow> cart \<Rightarrow> bool" where
  "checkCart upc c = (case map_at c upc of Some (p, q) \<Rightarrow> 0 < q | None \<Rightarrow> False)"

definition getCount :: "u64 \<Rightarrow> cart \<Rightarrow> u32" where
  "getCount upc c = (case map_at c upc of Some (p, q) \<Rightarrow> q | None \<Rightarrow> 0)"

text \<open>Every entry sits under the UPC of its product.\<close>

definition cart_ok :: "cart \<Rightarrow> bool" where
  "cart_ok c \<longleftrightarrow> map_ok c \<and> (\<forall>(k, p, q) \<in> set c. p_UPC p = k)"

section \<open>Transaction, TransactionHistory, User\<close>

type_synonym uuid = "128 word"

record transaction =
  transaction_id :: uuid
  transaction_date :: "tm option"
  t_cart :: cart
  transaction_amount :: f32
  t_payment :: payment_info
  t_address :: shipping_address
  is_finalized :: bool

text \<open>The running total of the constructors: one product and one sum per cart entry.\<close>

definition cart_total :: "cart \<Rightarrow> f32" where
  "cart_total c = foldl (\<lambda>amt (k, p, q). f32_add amt (f32_mul (p_price p) (f32_of_uint q))) (Fin False 0) c"

definition Transaction :: "cart \<Rightarrow> uuid \<Rightarrow> transaction" where
  "Transaction c uid = \<lparr>transaction_id = uid, transaction_date = None, t_cart = c,
     transaction_amount = cart_total c, t_payment = PaymentInfo_default,
     t_address = ShippingAddress_default, is_finalized = False\<rparr>"

definition Transaction_pay :: "cart \<Rightarrow> payment_info \<Rightarrow> uuid \<Rightarrow> transaction" where
  "Transaction_pay c pay fresh = (Transaction c fresh)\<lparr>t_payment := pay\<rparr>"

definition setShoppingCart :: "cart \<Rightarrow> transaction \<Rightarrow> transaction" where
  "setShoppingCart c t = t\<lparr>t_cart := c\<rparr>"

definition setTransactionDate :: "tm option \<Rightarrow> transaction \<Rightarrow> transaction" where
  "setTransactionDate d t = t\<lparr>transaction_date := d\<rparr>"

definition setTransactionAmt :: "f32 \<Rightarrow> transaction \<Rightarrow> transaction" where
  "setTransactionAmt x t = t\<lparr>transaction_amount := x\<rparr>"

definition setPaymentInfo :: "payment_info \<Rightarrow> transaction \<Rightarrow> transaction" where
  "setPaymentInfo x t = t\<lparr>t_payment := x\<rparr>"

definition setShippingAddress :: "shipping_address \<Rightarrow> transaction \<Rightarrow> transaction" where
  "setShippingAddress x t = t\<lparr>t_address := x\<rparr>"

type_synonym transaction_history = "transaction list"

definition addTransaction :: "transaction \<Rightarrow> transaction_history \<Rightarrow> transaction_history" where
  "addTransaction t h = h @ [t]"

record user =
  user_name :: string
  u_address :: shipping_address
  u_payment :: payment_info
  u_history :: transaction_history
  u_cart :: cart
  u_is_set :: bool

definition User_default :: user where
  "User_default = \<lparr>user_name = [], u_address = ShippingAddress_default,
     u_payment = PaymentInfo_default, u_history = [], u_cart = [], u_is_set = False\<rparr>"

definition User :: "string \<Rightarrow> transaction_history \<Rightarrow> user" where
  "User nm h = User_default\<lparr>user_name := nm, u_history := h, u_is_set := True\<rparr>"

section \<open>Invariants of the data classes\<close>

lemma or_subset_mask:
  fixes a m f :: "'a::len word"
  assumes "a AND m = a" and "f AND m = f"
  shows "(a OR f) AND m = a OR f"
  using assms by (metis bit.conj_disj_distrib2)

lemma or_absorb_mask:
  fixes m f :: "'a::len word"
  assumes "f AND m = f"
  shows "m OR f = m"
  using assms by (auto simp: bit_eq_iff bit_simps)

lemma product_ok_default: "product_ok Product_default" "product_ok (Product u n pr c q)"
  by (simp_all add: product_ok_def Product_default_def Product_def P_flags)

lemma p_mark_ok:
  assumes "product_ok p" and f: "f AND P_ALL_SET = f" "f \<noteq> 0"
  shows "product_ok (p_mark f p)"
proof -
  have "p_parts_set p = P_ALL_SET \<Longrightarrow> p_parts_set p OR f = P_ALL_SET"
    using or_absorb_mask[OF f(1)] by simp
  then show ?thesis
    using assms or_subset_mask[of "p_parts_set p" P_ALL_SET f]
    by (auto simp: product_ok_def p_mark_def Let_def)
qed

lemma product_setters_ok:
  assumes "product_ok p"
  shows "product_ok (setUPC u p)" "product_ok (setName n p)" "product_ok (setPrice x p)"
    "product_ok (setCategory c p)" "product_ok (set_quantity q p)"
proof -
  have upd: "product_ok (p\<lparr>p_UPC := u\<rparr>)" "product_ok (p\<lparr>p_name := n\<rparr>)" "product_ok (p\<lparr>p_price := x\<rparr>)"
    "product_ok (p\<lparr>p_category := c\<rparr>)" "product_ok (p\<lparr>p_quantity := q\<rparr>)"
    using assms by (simp_all add: product_ok_def)
  show "product_ok (setUPC u p)" "product_ok (setName n p)" "product_ok (setPrice x p)"
    "product_ok (setCategory c p)" "product_ok (set_quantity q p)"
    by (simp_all add: setUPC_def setName_def setPrice_def setCategory_def set_quantity_def
        p_mark_ok upd P_flags)
qed

text \<open>Setting all five parts, in any state of the flags, completes a product.\<close>

lemma all_parts_complete:
  "p_parts_set p = 0 \<Longrightarrow>
   set_quantity q (setPrice x (setCategory c (setName n (setUPC u p)))) = Product u n x c q"
  by (simp add: product_setters Product_def P_flags Let_def)

lemma cart_ok_Nil [simp]: "cart_ok []"
  by (simp add: cart_ok_def)

lemma set_map_put: "set (map_put k v m) \<subseteq> insert (k, v) (set m)"
  by (induction k v m rule: map_put.induct) auto

lemma cart_ok_set: "cart_ok c \<Longrightarrow> cart_ok (cart_set p q c)"
  using set_map_put[of "p_UPC p" "(p, q)" "map_erase (p_UPC p) c"]
    set_map_put[of "p_UPC p" "(p, q)" c] set_map_erase[of "p_UPC p" c]
  by (auto simp: cart_ok_def cart_set_def Let_def std_map.ok_put std_map.ok_del)

lemma cart_ok_erase: "cart_ok c \<Longrightarrow> cart_ok (map_erase k c)"
  using set_map_erase[of k c] by (auto simp: cart_ok_def std_map.ok_del)

text \<open>The delete of a zero quantity is undone by the assignment that follows it.\<close>

lemma map_at_cart_set:
  "map_ok c \<Longrightarrow> map_at (cart_set p q c) = (map_at c)(p_UPC p \<mapsto> (p, q))"
  by (simp add: fun_eq_iff cart_set_def Let_def std_map.at_put std_map.at_del std_map.ok_del)

end
