(* ===== verification/Rocks.thy ===== *)
theory Rocks
  imports Cpp_Std
begin

text \<open>
  The part of RocksDB the storage layer calls: databases of column families, the two ways of
  opening them, write batches and point reads. A database is the list of its column families
  in creation order, each a map from keys to values; a path with no database is \<open>None\<close>. The
  file system is assumed not to fail: the only statuses are those the calls return on a healthy
  disk.
\<close>

type_synonym cf = "string \<rightharpoonup> string"
type_synonym rocks_db = "(string \<times> cf) list"

definition kDefault :: string where
  "kDefault = ''default''"

definition kInvalidArgument :: nat where
  "kInvalidArgument = 4"

definition kIOError :: nat where
  "kIOError = 5"

definition ListColumnFamilies :: "rocks_db option \<Rightarrow> string list" where
  "ListColumnFamilies dbo = (case dbo of None \<Rightarrow> [] | Some db \<Rightarrow> map fst db)"

definition open_missing :: "rocks_db \<Rightarrow> string \<Rightarrow> rocks_db" where
  "open_missing db name = (if map_of db name = None then db @ [(name, Map.empty)] else db)"

text \<open>
  \<open>DB::Open\<close> with \<open>create_if_missing\<close> and \<open>create_missing_column_families\<close>: every column family
  the database has must be named, and the named ones it lacks are created in order.
\<close>

definition DB_Open :: "string list \<Rightarrow> rocks_db option \<Rightarrow> nat + rocks_db" where
  "DB_Open names dbo =
     (if kDefault \<notin> set names then Inl kInvalidArgument
      else let db = (case dbo of None \<Rightarrow> [(kDefault, Map.empty)] | Some db \<Rightarrow> db)
           in if \<exists>n \<in> set (map fst db). n \<notin> set names then Inl kInvalidArgument
              else Inr (foldl open_missing db names))"

text \<open>\<open>DB::OpenForReadOnly\<close>: creates nothing, and a named column family must exist.\<close>

definition OpenForReadOnly :: "string list \<Rightarrow> rocks_db option \<Rightarrow> nat + rocks_db" where
  "OpenForReadOnly names dbo =
     (case dbo of
        None \<Rightarrow> Inl kIOError
      | Some db \<Rightarrow>
          if kDefault \<notin> set names then Inl kInvalidArgument
          else if \<exists>n \<in> set names. map_of db n = None then Inl kInvalidArgument
          else Inr db)"

text \<open>A write batch: the column family, key and value of each \<open>Put\<close>, applied in order.\<close>

type_synonym write_batch = "(string \<times> string \<times> string) list"

fun DB_Put :: "string \<Rightarrow> string \<Rightarrow> string \<Rightarrow> rocks_db \<Rightarrow> rocks_db" where
  "DB_Put n k v [] = []"
| "DB_Put n k v ((n', m) # db) = (if n' = n then (n', m(k \<mapsto> v)) # db else (n', m) # DB_Put n k v db)"

definition DB_Write :: "write_batch \<Rightarrow> rocks_db \<Rightarrow> rocks_db" where
  "DB_Write batch db = foldl (\<lambda>db (n, k, v). DB_Put n k v db) db batch"

definition DB_Get :: "rocks_db \<Rightarrow> string \<Rightarrow> string \<Rightarrow> string option" where
  "DB_Get db n k = (case map_of db n of None \<Rightarrow> None | Some m \<Rightarrow> m k)"

section \<open>Laws\<close>

lemma fst_DB_Put [simp]: "map fst (DB_Put n k v db) = map fst db"
  by (induction n k v db rule: DB_Put.induct) auto

lemma map_of_DB_Put:
  "map_of (DB_Put n k v db) n' =
     (if n' = n then map_option (\<lambda>m. m(k \<mapsto> v)) (map_of db n) else map_of db n')"
  by (induction n k v db rule: DB_Put.induct) (auto simp: fun_upd_def)

lemma DB_Get_Put:
  "n \<in> fst ` set db \<Longrightarrow>
   DB_Get (DB_Put n k v db) n' k' = (if n' = n \<and> k' = k then Some v else DB_Get db n' k')"
  by (auto simp: DB_Get_def map_of_DB_Put map_of_eq_None_iff split: option.splits)

lemma DB_Write_simps [simp]:
  "DB_Write [] db = db" "DB_Write ((n, k, v) # b) db = DB_Write b (DB_Put n k v db)"
  by (simp_all add: DB_Write_def)

lemma DB_Write_append: "DB_Write (b @ c) db = DB_Write c (DB_Write b db)"
  by (simp add: DB_Write_def)

lemma fst_DB_Write [simp]: "map fst (DB_Write b db) = map fst db"
  by (induction b arbitrary: db) (auto simp: prod.split_sel_asm)

lemma set_fst_DB_Write [simp]: "fst ` set (DB_Write b db) = fst ` set db"
  by (metis fst_DB_Write list.set_map)

text \<open>After a batch on one column family, a key holds the last value put, or what it held.\<close>

lemma DB_Get_Write:
  "n \<in> fst ` set db \<Longrightarrow>
   DB_Get (DB_Write (map (\<lambda>(k, v). (n, k, v)) kvs) db) n' k' =
     (if n' = n then (case map_of (rev kvs) k' of Some v \<Rightarrow> Some v | None \<Rightarrow> DB_Get db n k')
      else DB_Get db n' k')"
proof (induction kvs arbitrary: db)
  case (Cons kv kvs)
  obtain k v where kv: "kv = (k, v)" by force
  have "n \<in> fst ` set (DB_Put n k v db)"
    using Cons.prems by (metis fst_DB_Put list.set_map)
  then show ?case using Cons kv by (auto simp: DB_Get_Put map_add_def split: option.splits)
qed simp

lemma map_of_open_missing:
  "map_of (open_missing db n) n' = (if n' = n \<and> map_of db n = None then Some Map.empty else map_of db n')"
  by (auto simp: open_missing_def map_add_def split: option.splits)

lemma map_of_foldl_open_missing:
  "map_of (foldl open_missing db ns) n =
     (if n \<in> set ns \<and> map_of db n = None then Some Map.empty else map_of db n)"
  by (induction ns arbitrary: db) (auto simp: map_of_open_missing)

lemma foldl_open_missing_id: "\<forall>n \<in> set ns. map_of db n \<noteq> None \<Longrightarrow> foldl open_missing db ns = db"
  by (induction ns) (auto simp: open_missing_def)

text \<open>
  What the storage layer relies on: opening with all names keeps every stored value, makes the
  wanted column family exist, and a later read finds what was put last.
\<close>

locale column_store =
  fixes open_rw :: "string list \<Rightarrow> 'db option \<Rightarrow> nat + 'db"
    and commit :: "write_batch \<Rightarrow> 'db \<Rightarrow> 'db"
    and get :: "'db \<Rightarrow> string \<Rightarrow> string \<Rightarrow> string option"
    and names :: "'db option \<Rightarrow> string list"
    and deflt :: string
  assumes open_total:
      "deflt \<in> set ns \<Longrightarrow> set (names dbo) \<subseteq> set ns \<Longrightarrow> \<exists>db. open_rw ns dbo = Inr db"
    and open_names: "open_rw ns dbo = Inr db \<Longrightarrow> set (names (Some db)) = set ns"
    and open_get: "open_rw ns (Some db) = Inr db' \<Longrightarrow> get db' = get db"
    and write_names: "names (Some (commit b db)) = names (Some db)"
    and write_get: "n \<in> set (names (Some db)) \<Longrightarrow>
       get (commit (map (\<lambda>(k, v). (n, k, v)) kvs) db) n' k' =
         (if n' = n then (case map_of (rev kvs) k' of Some v \<Rightarrow> Some v | None \<Rightarrow> get db n k')
          else get db n' k')"
begin

text \<open>Storing one row touches no other row.\<close>

lemma store_frame:
  assumes "open_rw ns (Some db) = Inr db'" and "n \<in> set ns" and "n' \<noteq> n"
  shows "get (commit (map (\<lambda>(k, v). (n, k, v)) kvs) db') n' k = get db n' k"
  using assms open_names[OF assms(1)] open_get[OF assms(1)] write_get[of n db' kvs n' k] by simp

lemma store_then_read:
  assumes "open_rw ns dbo = Inr db" and "n \<in> set ns" and "map_of (rev kvs) k = Some v"
  shows "get (commit (map (\<lambda>(k, v). (n, k, v)) kvs) db) n k = Some v"
  using assms open_names[OF assms(1)] write_get[of n db kvs n k] by simp

end

interpretation rocks: column_store DB_Open DB_Write DB_Get ListColumnFamilies kDefault
proof unfold_locales
  fix ns dbo
  assume "kDefault \<in> set ns" and "set (ListColumnFamilies dbo) \<subseteq> set ns"
  then show "\<exists>db. DB_Open ns dbo = Inr db"
    by (auto simp: DB_Open_def ListColumnFamilies_def Let_def split: option.splits)
next
  fix ns dbo db
  assume *: "DB_Open ns dbo = Inr db"
  have keys: "set (map fst (foldl open_missing db0 ns)) = set (map fst db0) \<union> set ns" for db0
    by (induction ns arbitrary: db0)
      (auto simp: open_missing_def map_of_eq_None_iff image_iff split: if_splits)
  from * obtain db0 where "db = foldl open_missing db0 ns" and "set (map fst db0) \<subseteq> set ns"
    by (auto simp: DB_Open_def Let_def split: option.splits if_splits)
  with keys[of db0] show "set (ListColumnFamilies (Some db)) = set ns"
    unfolding ListColumnFamilies_def by (metis option.simps(5) sup.absorb2)
next
  fix ns db db'
  assume "DB_Open ns (Some db) = Inr db'"
  then have "db' = foldl open_missing db ns" by (auto simp: DB_Open_def Let_def split: if_splits)
  then show "DB_Get db' = DB_Get db"
    by (auto simp: fun_eq_iff DB_Get_def map_of_foldl_open_missing split: option.splits)
next
  fix b db
  show "ListColumnFamilies (Some (DB_Write b db)) = ListColumnFamilies (Some db)"
    by (simp add: ListColumnFamilies_def)
next
  fix n db kvs n' k'
  assume "n \<in> set (ListColumnFamilies (Some db))"
  then show "DB_Get (DB_Write (map (\<lambda>(k, v). (n, k, v)) kvs) db) n' k' =
    (if n' = n then (case map_of (rev kvs) k' of Some v \<Rightarrow> Some v | None \<Rightarrow> DB_Get db n k')
     else DB_Get db n' k')"
    by (intro DB_Get_Write) (simp add: ListColumnFamilies_def)
qed

end
