(* ===== verification/Storage.thy ===== *)
theory Storage
  imports Shop_Data Rocks
begin

text \<open>
  The storage layer (\<open>storagesystem.cpp\<close>) over three RocksDB databases, and the two methods of
  the data classes that call it (\<open>Product::setQuantity\<close>, \<open>User::change...\<close>). Each row is a column
  family: a user under its name, a product under the decimal text of its UPC, an order under
  the text of its UUID. A read-only handle keeps the view it had when it was opened.
\<close>

section \<open>The state of the program\<close>

record world =
  users_db :: "rocks_db option"
  products_db :: "rocks_db option"
  orders_db :: "rocks_db option"
  logged_in :: user

text \<open>
  libuuid is outside the repository: its two text conversions are a parameter.
  \<open>uuid_parse\<close> is \<open>None\<close> where the library call fails and leaves its output unchanged.
\<close>

record uuid_lib =
  uuid_unparse_lower :: "uuid \<Rightarrow> string"
  uuid_parse :: "string \<Rightarrow> uuid option"

definition uuid_lib_ok :: "uuid_lib \<Rightarrow> bool" where
  "uuid_lib_ok L \<longleftrightarrow> (\<forall>u. uuid_parse L (uuid_unparse_lower L u) = Some u \<and>
     uuid_unparse_lower L u \<noteq> [] \<and> CHR 0x0A \<notin> set (uuid_unparse_lower L u))"

section \<open>Opening a database to store one row\<close>

text \<open>
  The descriptors the three store methods build: the default column family, the row's own, then
  the other existing ones out of a \<open>std::set\<close>, in its order.
\<close>

definition store_names :: "rocks_db option \<Rightarrow> string \<Rightarrow> string list" where
  "store_names dbo n =
     kDefault # n # filter (\<lambda>x. x \<noteq> n) (filter (\<lambda>x. x \<noteq> kDefault)
       (sort (remdups (ListColumnFamilies dbo))))"

text \<open>
  The status of \<open>DB::Open\<close> is not looked at; were it an error, the handles used next would not
  exist.
\<close>

definition store_row :: "string \<Rightarrow> (string \<times> string) list \<Rightarrow> rocks_db option \<Rightarrow> exn + rocks_db" where
  "store_row n kvs dbo =
     (case DB_Open (store_names dbo n) dbo of
        Inl st \<Rightarrow> Inl Undefined_behaviour
      | Inr db \<Rightarrow> Inr (DB_Write (map (\<lambda>(k, v). (n, k, v)) kvs) db))"

text \<open>\<open>Get(..., key, &dbval)\<close>: a missing key leaves \<open>dbval\<close> as it was.\<close>

definition get_into :: "rocks_db \<Rightarrow> string \<Rightarrow> string \<Rightarrow> string \<Rightarrow> string" where
  "get_into db n k dbval = (case DB_Get db n k of None \<Rightarrow> dbval | Some v \<Rightarrow> v)"

section \<open>Products\<close>

definition product_row :: "product \<Rightarrow> (string \<times> string) list" where
  "product_row p =
     [(''name'', p_name p), (''category'', p_category p),
      (''price'', f32_to_string (p_price p)), (''on_hand'', to_string (p_quantity p))]"

definition storeProduct :: "product \<Rightarrow> (world, nat) op" where
  "storeProduct p w =
     (if \<not> p_is_set p then (Inr 0, w)
      else case store_row (to_string (p_UPC p)) (product_row p) (products_db w) of
             Inl e \<Rightarrow> (Inl e, w)
           | Inr db \<Rightarrow> (Inr 1, w\<lparr>products_db := Some db\<rparr>))"

text \<open>\<open>Product::setQuantity\<close> stores the product it has just changed.\<close>

definition setQuantity :: "u32 \<Rightarrow> product \<Rightarrow> (world, product) op" where
  "setQuantity q p = (let p' = set_quantity q p in bindS (storeProduct p') (\<lambda>_. ret p'))"

definition getProduct :: "u64 \<Rightarrow> (world, product) op" where
  "getProduct upc w =
     (let n = to_string upc
      in case OpenForReadOnly [kDefault, n] (products_db w) of
           Inl st \<Rightarrow> (Inl (System_error st), w)
         | Inr db \<Rightarrow>
             (let p1 = setUPC upc Product_default;
                  v1 = get_into db n ''name'' [];
                  p2 = setName v1 p1;
                  v2 = get_into db n ''category'' v1;
                  p3 = setCategory v2 p2;
                  v3 = get_into db n ''price'' v2
              in bindS (lift (stof v3)) (\<lambda>x.
                 let p4 = setPrice x p3;
                     v4 = get_into db n ''on_hand'' v3
                 in bindS (lift (stoul_uint v4)) (\<lambda>q. setQuantity q p4)) w))"

fun stoul_all :: "string list \<Rightarrow> exn + u64 list" where
  "stoul_all [] = Inr []"
| "stoul_all (s # ss) =
     (case stoul s of
        Inl e \<Rightarrow> Inl e
      | Inr x \<Rightarrow> (case stoul_all ss of Inl e \<Rightarrow> Inl e | Inr xs \<Rightarrow> Inr (x # xs)))"

definition getProducts :: "(world, u64 list) op" where
  "getProducts w = (stoul_all (removeAll kDefault (ListColumnFamilies (products_db w))), w)"

section \<open>Carts as text\<close>

text \<open>\<open>upc:qty\<close> lines, a newline before every line but the first.\<close>

definition cart_line :: "u64 \<times> product \<times> u32 \<Rightarrow> string" where
  "cart_line e = (case e of (upc, p, q) \<Rightarrow> to_string upc @ '':'' @ to_string q)"

definition cart_to_string :: "cart \<Rightarrow> string" where
  "cart_to_string c =
     foldl (\<lambda>s e. (if s \<noteq> [] then s @ [CHR 0x0A] else s) @ cart_line e) [] c"

definition read_cart_line :: "string \<Rightarrow> cart \<Rightarrow> (world, cart) op" where
  "read_cart_line item c =
     (case split item (CHR '':'') of
        upc_s # qty_s # _ \<Rightarrow>
          bindS (lift (stoul upc_s)) (\<lambda>upc.
          bindS (getProduct upc) (\<lambda>p.
          bindS (lift (stoul_uint qty_s)) (\<lambda>q. ret (cart_set p q c))))
      | _ \<Rightarrow> throw Undefined_behaviour)"

definition read_cart :: "string \<Rightarrow> (world, cart) op" where
  "read_cart s = foldS read_cart_line (split s (CHR 0x0A)) []"

section \<open>Orders\<close>

definition transaction_row :: "transaction \<Rightarrow> tm \<Rightarrow> u32 \<Rightarrow> u64 \<Rightarrow> u32 \<Rightarrow> (string \<times> string) list" where
  "transaction_row t d z num cv2 =
     [(''date'', strftime d), (''items'', cart_to_string (t_cart t)),
      (''total'', f32_to_string (transaction_amount t)),
      (''shipaddr_name'', shipping_name (t_address t)), (''shipaddr_street'', street (t_address t)),
      (''shipaddr_city'', city (t_address t)), (''shipaddr_state'', state (t_address t)),
      (''shipaddr_zip'', to_string z), (''shipaddr_country'', country (t_address t)),
      (''cc_num'', to_string num), (''cc_exp'', cc_exp (t_payment t)), (''cc_cv2'', to_string cv2)]"

text \<open>Printing the date reads \<open>tm_isdst\<close>, for \<open>%z\<close>.\<close>

definition storeTransaction :: "uuid_lib \<Rightarrow> transaction \<Rightarrow> (world, nat) op" where
  "storeTransaction L t w =
     (if \<not> is_finalized t then (Inr 0, w)
      else case (transaction_date t, zip (t_address t), cc_num (t_payment t), cc_cv2 (t_payment t)) of
             (Some d, Some z, Some num, Some cv2) \<Rightarrow>
               if tm_isdst d = None then (Inl Undefined_behaviour, w)
               else (case store_row (uuid_unparse_lower L (transaction_id t)) (transaction_row t d z num cv2)
                       (orders_db w) of
                  Inl e \<Rightarrow> (Inl e, w)
                | Inr db \<Rightarrow> (Inr 1, w\<lparr>orders_db := Some db\<rparr>))
           | _ \<Rightarrow> (Inl Undefined_behaviour, w))"

text \<open>
  \<open>getTransaction\<close> ignores the status of opening: without the row, the handle it uses is null.
\<close>

definition getTransaction :: "uuid_lib \<Rightarrow> uuid \<Rightarrow> (world, transaction) op" where
  "getTransaction L tid w =
     (let n = uuid_unparse_lower L tid
      in case OpenForReadOnly [kDefault, n] (orders_db w) of
           Inl st \<Rightarrow> (Inl Undefined_behaviour, w)
         | Inr db \<Rightarrow>
             (let v0 = get_into db n ''items'' []
              in bindS (read_cart v0) (\<lambda>c.
                 let t0 = (Transaction c tid)\<lparr>is_finalized := True\<rparr>;
                     v1 = get_into db n ''date'' v0;
                     t1 = setTransactionDate (strptime v1) t0;
                     v2 = get_into db n ''total'' v1
                 in bindS (lift (stof v2)) (\<lambda>amt.
                 let t2 = setTransactionAmt amt t1;
                     v3 = get_into db n ''shipaddr_name'' v2;
                     v4 = get_into db n ''shipaddr_street'' v3;
                     v5 = get_into db n ''shipaddr_city'' v4;
                     v6 = get_into db n ''shipaddr_state'' v5;
                     a = changeState v6 (changeCity v5 (changeStreet v4
                           (changeShippingName v3 ShippingAddress_default)));
                     v7 = get_into db n ''shipaddr_zip'' v6
                 in bindS (lift (stoul_uint v7)) (\<lambda>z.
                 let v8 = get_into db n ''shipaddr_country'' v7;
                     t3 = setShippingAddress (changeCountry v8 (changeZip z a)) t2;
                     v9 = get_into db n ''cc_num'' v8
                 in bindS (lift (stoul v9)) (\<lambda>num.
                 let v10 = get_into db n ''cc_exp'' v9;
                     v11 = get_into db n ''cc_cv2'' v10
                 in bindS (lift (stoul_uint v11)) (\<lambda>cv2.
                 ret (setPaymentInfo
                   (PaymentInfo_default\<lparr>cc_num := Some num, cc_exp := v10, cc_cv2 := Some cv2\<rparr>)
                   t3)))))) w))"

section \<open>Users\<close>

definition orders_to_string :: "uuid_lib \<Rightarrow> transaction_history \<Rightarrow> string" where
  "orders_to_string L h =
     foldl (\<lambda>s t. if \<not> is_finalized t then s
                  else (if s \<noteq> [] then s @ [CHR 0x0A] else s) @ uuid_unparse_lower L (transaction_id t))
       [] h"

text \<open>
  The address part of a user row. Each guard is \<open>parts_set && S_..._SET\<close>: the logical and of
  two integers, true as soon as any part is recorded.
\<close>

definition address_row :: "shipping_address \<Rightarrow> exn + (string \<times> string) list" where
  "address_row a =
     (if s_parts_set a = 0 then Inr []
      else case zip a of
             None \<Rightarrow> Inl Undefined_behaviour
           | Some z \<Rightarrow>
               Inr [(''shipaddr_name'', shipping_name a), (''shipaddr_street'', street a),
                    (''shipaddr_city'', city a), (''shipaddr_state'', state a),
                    (''shipaddr_zip'', to_string z), (''shipaddr_country'', country a)])"

definition payment_row :: "payment_info \<Rightarrow> exn + (string \<times> string) list" where
  "payment_row cc =
     (if \<not> pay_is_set cc then Inr []
      else case (cc_num cc, cc_cv2 cc) of
             (Some num, Some cv2) \<Rightarrow>
               Inr [(''cc_num'', to_string num), (''cc_exp'', cc_exp cc), (''cc_cv2'', to_string cv2)]
           | _ \<Rightarrow> Inl Undefined_behaviour)"

definition storeUser :: "uuid_lib \<Rightarrow> user \<Rightarrow> (world, nat) op" where
  "storeUser L u w =
     (case (address_row (u_address u), payment_row (u_payment u)) of
        (Inr ra, Inr rp) \<Rightarrow>
          (case store_row (user_name u)
                  (ra @ rp @ [(''orders'', orders_to_string L (u_history u)),
                              (''items_in_cart'', cart_to_string (u_cart u))])
                  (users_db w) of
             Inl e \<Rightarrow> (Inl e, w)
           | Inr db \<Rightarrow> (Inr 1, w\<lparr>users_db := Some db\<rparr>))
      | (Inl e, _) \<Rightarrow> (Inl e, w)
      | (_, Inl e) \<Rightarrow> (Inl e, w))"

definition changeShippingAddress :: "uuid_lib \<Rightarrow> shipping_address \<Rightarrow> user \<Rightarrow> (world, user) op" where
  "changeShippingAddress L a u =
     (let u' = u\<lparr>u_address := a\<rparr> in bindS (storeUser L u') (\<lambda>_. ret u'))"

definition changeCreditCard :: "uuid_lib \<Rightarrow> payment_info \<Rightarrow> user \<Rightarrow> (world, user) op" where
  "changeCreditCard L cc u =
     (let u' = u\<lparr>u_payment := cc\<rparr> in bindS (storeUser L u') (\<lambda>_. ret u'))"

text \<open>
  The loop over the stored order ids. The buffer \<open>tid\<close> lives across iterations: where
  \<open>uuid_parse\<close> fails it still holds the previous id, or nothing at all.
\<close>

definition read_order :: "uuid_lib \<Rightarrow> string \<Rightarrow> uuid option \<times> transaction_history \<Rightarrow>
    (world, uuid option \<times> transaction_history) op" where
  "read_order L s st =
     (let tid = (case uuid_parse L s of Some u \<Rightarrow> Some u | None \<Rightarrow> fst st)
      in case tid of
           None \<Rightarrow> throw Undefined_behaviour
         | Some u \<Rightarrow> bindS (getTransaction L u) (\<lambda>t. ret (Some u, addTransaction t (snd st))))"

text \<open>One address field of \<open>getUser\<close>: changed only where the key is there.\<close>

definition opt_field :: "rocks_db \<Rightarrow> string \<Rightarrow> string \<Rightarrow>
    (string \<Rightarrow> shipping_address \<Rightarrow> shipping_address) \<Rightarrow> shipping_address \<Rightarrow> shipping_address" where
  "opt_field db n k f a = (case DB_Get db n k of None \<Rightarrow> a | Some v \<Rightarrow> f v a)"

definition read_address :: "rocks_db \<Rightarrow> string \<Rightarrow> exn + shipping_address" where
  "read_address db n =
     (let a1 = opt_field db n ''shipaddr_name'' changeShippingName ShippingAddress_default;
          a2 = opt_field db n ''shipaddr_street'' changeStreet a1;
          a3 = opt_field db n ''shipaddr_city'' changeCity a2;
          a4 = opt_field db n ''shipaddr_state'' changeState a3
      in case (case DB_Get db n ''shipaddr_zip'' of
                 None \<Rightarrow> Inr a4
               | Some v \<Rightarrow> (case stoul_uint v of Inl e \<Rightarrow> Inl e | Inr z \<Rightarrow> Inr (changeZip z a4))) of
           Inl e \<Rightarrow> Inl e
         | Inr a5 \<Rightarrow> Inr (opt_field db n ''shipaddr_country'' changeCountry a5))"

text \<open>
  The card of \<open>getUser\<close>. The third read uses the key \<open>cc_exp\<close> again, so the security code comes
  out of the expiration date.
\<close>

definition read_card :: "rocks_db \<Rightarrow> string \<Rightarrow> exn + payment_info option" where
  "read_card db n =
     (case DB_Get db n ''cc_num'' of
        None \<Rightarrow> Inr None
      | Some num_s \<Rightarrow>
          (case stoul num_s of
             Inl e \<Rightarrow> Inl e
           | Inr num \<Rightarrow>
               (case DB_Get db n ''cc_exp'' of
                  None \<Rightarrow> Inr None
                | Some ex \<Rightarrow>
                    (case DB_Get db n ''cc_exp'' of
                       None \<Rightarrow> Inr None
                     | Some cv2_s \<Rightarrow>
                         (case stoul_uint cv2_s of
                            Inl e \<Rightarrow> Inl e
                          | Inr cv2 \<Rightarrow> Inr (Some (PaymentInfo num ex cv2)))))))"

text \<open>
  What \<open>dbval\<close> holds when \<open>getUser\<close> comes to read the cart: the last value an earlier \<open>Get\<close> found.
\<close>

definition dbval_before_cart :: "rocks_db \<Rightarrow> string \<Rightarrow> string" where
  "dbval_before_cart db n =
     (let v = foldl (\<lambda>v k. get_into db n k v) []
                [''orders'', ''shipaddr_name'', ''shipaddr_street'', ''shipaddr_city'', ''shipaddr_state'',
                 ''shipaddr_zip'', ''shipaddr_country'', ''cc_num'']
      in if DB_Get db n ''cc_num'' = None then v else get_into db n ''cc_exp'' v)"

definition getUser :: "uuid_lib \<Rightarrow> string \<Rightarrow> (world, user) op" where
  "getUser L username w =
     (case OpenForReadOnly [kDefault, username] (users_db w) of
        Inl st \<Rightarrow> (Inl (System_error st), w)
      | Inr db \<Rightarrow>
          bindS (foldS (read_order L) (split (get_into db username ''orders'' []) (CHR 0x0A)) (None, [])) (\<lambda>(_, orders).
          bindS (lift (read_address db username)) (\<lambda>addr.
          bindS (changeShippingAddress L addr (User username orders)) (\<lambda>u1.
          bindS (lift (read_card db username)) (\<lambda>card.
          bindS (case card of None \<Rightarrow> ret u1 | Some cc \<Rightarrow> changeCreditCard L cc u1) (\<lambda>u2.
          bindS (read_cart (get_into db username ''items_in_cart'' (dbval_before_cart db username))) (\<lambda>c.
          ret (u2\<lparr>u_cart := c\<rparr>))))))) w)"

end
