(* ===== verification/Storage_Laws.thy ===== *)
theory Storage_Laws
  imports Storage
begin

text \<open>
  What the storage layer keeps and returns: rows, products and carts are read back as they were
  stored, storing never fails on a database the program made, and one row's store leaves the
  others alone.
\<close>

section \<open>Rows\<close>

definition db_ok :: "rocks_db option \<Rightarrow> bool" where
  "db_ok dbo = (case dbo of None \<Rightarrow> True | Some db \<Rightarrow> kDefault \<in> fst ` set db)"

definition row_in :: "rocks_db option \<Rightarrow> string \<Rightarrow> (string \<times> string) list \<Rightarrow> bool" where
  "row_in dbo n kvs =
     (case dbo of None \<Rightarrow> False
      | Some db \<Rightarrow> kDefault \<in> fst ` set db \<and> n \<in> fst ` set db \<and>
          (\<forall>(k, v) \<in> set kvs. DB_Get db n k = Some v))"

definition row_get :: "rocks_db option \<Rightarrow> string \<Rightarrow> string \<Rightarrow> string option" where
  "row_get dbo n k = (case dbo of None \<Rightarrow> None | Some db \<Rightarrow> DB_Get db n k)"

lemma set_store_names: "set (store_names dbo n) = {kDefault, n} \<union> set (ListColumnFamilies dbo)"
  by (auto simp: store_names_def)

lemma store_row_succeeds: "\<exists>db. store_row n kvs dbo = Inr db"
proof -
  have "kDefault \<in> set (store_names dbo n)" "set (ListColumnFamilies dbo) \<subseteq> set (store_names dbo n)"
    by (auto simp: set_store_names)
  then obtain db where "DB_Open (store_names dbo n) dbo = Inr db" using rocks.open_total by blast
  then show ?thesis by (simp add: store_row_def)
qed

lemma store_row_ok:
  assumes "store_row n kvs dbo = Inr db" and "distinct (map fst kvs)"
  shows "row_in (Some db) n kvs"
proof -
  from assms(1) obtain db0 where open0: "DB_Open (store_names dbo n) dbo = Inr db0"
    and db: "db = DB_Write (map (\<lambda>(k, v). (n, k, v)) kvs) db0"
    by (auto simp: store_row_def split: sum.splits)
  have names: "fst ` set db = set (store_names dbo n)"
    using rocks.open_names[OF open0] db by (simp add: ListColumnFamilies_def)
  have "DB_Get db n k = Some v" if "(k, v) \<in> set kvs" for k v
  proof -
    have "map_of (rev kvs) k = Some v" using assms(2) that by (simp add: rev_map[symmetric])
    with rocks.store_then_read[OF open0] db show ?thesis by (simp add: set_store_names)
  qed
  then show ?thesis using names by (auto simp: row_in_def set_store_names)
qed

text \<open>A key the row does not write keeps its value; so do all rows of other names.\<close>

lemma store_row_frame:
  assumes "store_row n kvs dbo = Inr db" and "n' \<noteq> n \<or> k \<notin> fst ` set kvs"
  shows "DB_Get db n' k = row_get dbo n' k"
proof -
  from assms(1) obtain db0 where open0: "DB_Open (store_names dbo n) dbo = Inr db0"
    and db: "db = DB_Write (map (\<lambda>(k, v). (n, k, v)) kvs) db0"
    by (auto simp: store_row_def split: sum.splits)
  have "DB_Get db0 n' k = row_get dbo n' k"
  proof (cases dbo)
    case None
    with open0 have "db0 = foldl open_missing [(kDefault, Map.empty)] (store_names None n)"
      by (auto simp: DB_Open_def Let_def split: if_splits)
    with None show ?thesis
      by (auto simp: DB_Get_def row_get_def map_of_foldl_open_missing split: option.splits)
  next
    case (Some d)
    with rocks.open_get open0 show ?thesis by (simp add: row_get_def)
  qed
  moreover have "n \<in> set (ListColumnFamilies (Some db0))"
    using rocks.open_names[OF open0] by (simp add: set_store_names)
  moreover have "n' = n \<Longrightarrow> map_of (rev kvs) k = None"
    using assms(2) by (simp add: map_of_eq_None_iff)
  ultimately show ?thesis using rocks.write_get[of n db0 kvs n' k] db by auto
qed

text \<open>Storing a row the database already holds changes nothing.\<close>

lemma DB_Put_id: "DB_Get db n k = Some v \<Longrightarrow> DB_Put n k v db = db"
proof (induction n k v db rule: DB_Put.induct)
  case (2 n k v n' m db)
  then show ?case by (cases "n' = n") (auto simp: DB_Get_def fun_upd_idem_iff)
qed simp

lemma store_row_id:
  assumes "row_in (Some db) n kvs"
  shows "store_row n kvs (Some db) = Inr db"
proof -
  have all: "\<forall>x \<in> set (store_names (Some db) n). map_of db x \<noteq> None"
    using assms by (auto simp: row_in_def set_store_names ListColumnFamilies_def map_of_eq_None_iff)
  have "DB_Open (store_names (Some db) n) (Some db) = Inr db"
    using foldl_open_missing_id[OF all] by (auto simp: DB_Open_def set_store_names ListColumnFamilies_def Let_def)
  moreover have "(\<forall>(k, v) \<in> set kvs. DB_Get db n k = Some v) \<Longrightarrow>
      DB_Write (map (\<lambda>(k, v). (n, k, v)) kvs) db = db"
    by (induction kvs) (auto simp: DB_Put_id)
  ultimately show ?thesis using assms by (simp add: store_row_def row_in_def)
qed

lemma row_in_open:
  "row_in (Some db) n kvs \<Longrightarrow> OpenForReadOnly [kDefault, n] (Some db) = Inr db"
  by (auto simp: row_in_def OpenForReadOnly_def map_of_eq_None_iff)

lemma get_into_row: "row_in (Some db) n kvs \<Longrightarrow> (k, v) \<in> set kvs \<Longrightarrow> get_into db n k d = v"
  by (auto simp: row_in_def get_into_def)

section \<open>Products\<close>

text \<open>A complete product as the database holds it, with a price that survives printing.\<close>

definition product_stored :: "world \<Rightarrow> product \<Rightarrow> bool" where
  "product_stored w p \<longleftrightarrow>
     p = Product (p_UPC p) (p_name p) (p_price p) (p_category p) (p_quantity p) \<and>
     f32_stable (p_price p) \<and> row_in (products_db w) (to_string (p_UPC p)) (product_row p)"

lemma product_row_keys: "distinct (map fst (product_row p))"
  by (simp add: product_row_def)

lemma storeProduct_succeeds:
  "p_is_set p \<Longrightarrow> \<exists>db. storeProduct p w = (Inr 1, w\<lparr>products_db := Some db\<rparr>) \<and>
     row_in (Some db) (to_string (p_UPC p)) (product_row p)"
  using store_row_succeeds[of "to_string (p_UPC p)" "product_row p" "products_db w"]
    store_row_ok[OF _ product_row_keys] by (auto simp: storeProduct_def)

lemma getProduct_stored:
  assumes "product_stored w p"
  shows "getProduct (p_UPC p) w = (Inr p, w)"
proof -
  let ?n = "to_string (p_UPC p)"
  from assms obtain db where db: "products_db w = Some db" and row: "row_in (Some db) ?n (product_row p)"
    and p: "p = Product (p_UPC p) (p_name p) (p_price p) (p_category p) (p_quantity p)"
    and st: "stof (f32_to_string (p_price p)) = Inr (p_price p)"
    by (auto simp: product_stored_def f32_stable_def row_in_def split: option.splits)
  have vals: "get_into db ?n ''name'' d = p_name p" "get_into db ?n ''category'' d = p_category p"
    "get_into db ?n ''price'' d = f32_to_string (p_price p)"
    "get_into db ?n ''on_hand'' d = to_string (p_quantity p)" for d
    by (rule get_into_row[OF row], simp add: product_row_def)+
  have parts: "p_parts_set Product_default = 0" by (simp add: Product_default_def)
  have p': "set_quantity (p_quantity p) (setPrice (p_price p) (setCategory (p_category p)
      (setName (p_name p) (setUPC (p_UPC p) Product_default)))) = p"
    using all_parts_complete[OF parts] p by simp
  have set: "p_is_set p" by (subst p) (simp add: Product_def)
  have "storeProduct p w = (Inr 1, w)"
    using store_row_id[OF row] db set by (simp add: storeProduct_def)
  then show ?thesis
    using row_in_open[OF row] db vals st p'
    by (simp add: getProduct_def Let_def codec setQuantity_def bindS_def ret_def)
qed

text \<open>Reading a product rewrites its row; no other row and no other database changes.\<close>

lemma storeProduct_frame:
  assumes "storeProduct p w = (r, w')"
  shows "users_db w' = users_db w" "orders_db w' = orders_db w" "logged_in w' = logged_in w"
    and "n \<noteq> to_string (p_UPC p) \<Longrightarrow> row_get (products_db w') n k = row_get (products_db w) n k"
  using assms store_row_frame
  by (auto simp: storeProduct_def row_get_def split: if_splits sum.splits) 

lemma bindS_lift_split:
  "bindS (lift r) f w = (case r of Inl e \<Rightarrow> (Inl e, w) | Inr x \<Rightarrow> f x w)"
  by (simp add: bindS_def lift_def split: sum.split)

lemma getProduct_cases:
  assumes "getProduct upc w = (r, w')"
  obtains "w' = w" | p where "p_UPC p = upc" "storeProduct p w = (Inr 1, w')" "r = Inr p"
proof (cases "OpenForReadOnly [kDefault, to_string upc] (products_db w)")
  case (Inl st)
  with assms that show ?thesis by (simp add: getProduct_def)
next
  case (Inr db)
  let ?n = "to_string upc"
  let ?v3 = "get_into db ?n ''price'' (get_into db ?n ''category'' (get_into db ?n ''name'' []))"
  let ?v4 = "get_into db ?n ''on_hand'' ?v3"
  show ?thesis
  proof (cases "stof ?v3")
    case (Inl e)
    with assms Inr that show ?thesis by (simp add: getProduct_def Let_def throw_def)
  next
    case x: (Inr x)
    show ?thesis
    proof (cases "stoul_uint ?v4")
      case (Inl e)
      with assms Inr x that show ?thesis by (simp add: getProduct_def Let_def throw_def)
    next
      case q: (Inr q)
      define p where "p = Product upc (get_into db ?n ''name'' []) x
        (get_into db ?n ''category'' (get_into db ?n ''name'' [])) q"
      have "p_parts_set Product_default = 0" by (simp add: Product_default_def)
      note full = all_parts_complete[OF this]
      have upc: "p_UPC p = upc" and set: "p_is_set p" by (simp_all add: p_def Product_def)
      obtain db' where st: "storeProduct p w = (Inr 1, w\<lparr>products_db := Some db'\<rparr>)"
        using storeProduct_succeeds[OF set] by blast
      have "getProduct upc w = bindS (storeProduct p) (\<lambda>_. ret p) w"
        using Inr x q full by (simp add: getProduct_def Let_def setQuantity_def p_def)
      then have "r = Inr p" and "w' = w\<lparr>products_db := Some db'\<rparr>"
        using assms st by (simp_all add: bindS_def ret_def)
      with st upc that show ?thesis by blast
    qed
  qed
qed

lemma getProduct_frame:
  assumes "getProduct upc w = (r, w')"
  shows "users_db w' = users_db w" "orders_db w' = orders_db w" "logged_in w' = logged_in w"
    and "n \<noteq> to_string upc \<Longrightarrow> row_get (products_db w') n k = row_get (products_db w) n k"
  using assms by (auto elim!: getProduct_cases dest: storeProduct_frame)

section \<open>Carts\<close>

lemma cart_line_ok: "cart_line e \<noteq> [] \<and> CHR 0x0A \<notin> set (cart_line e)"
proof -
  obtain upc p q where e: "e = (upc, p, q)" by (cases e) auto
  have "CHR 0x0A \<notin> set (to_string upc)" "CHR 0x0A \<notin> set (to_string q)"
    using to_string_digits by (fastforce dest: isdigit_not_special(5))+
  then show ?thesis by (simp add: cart_line_def e)
qed

lemma foldl_join:
  "\<forall>x \<in> set xs. f x \<noteq> [] \<Longrightarrow> s \<noteq> [] \<Longrightarrow>
   foldl (\<lambda>s x. (if s \<noteq> [] then s @ [d] else s) @ f x) s xs = join d (s # map f xs)"
proof (induction xs arbitrary: s)
  case (Cons x xs)
  have "foldl (\<lambda>s x. (if s \<noteq> [] then s @ [d] else s) @ f x) s (x # xs) =
      join d ((s @ [d] @ f x) # map f xs)"
    using Cons.IH[of "s @ [d] @ f x"] Cons.prems by simp
  also have "\<dots> = join d (s # map f (x # xs))" by (cases xs) simp_all
  finally show ?case .
qed simp

lemma cart_to_string_join: "cart_to_string c = join (CHR 0x0A) (map cart_line c)"
proof (cases c)
  case (Cons e es)
  then show ?thesis
    using foldl_join[of es cart_line "cart_line e" "CHR 0x0A"] cart_line_ok by (simp add: cart_to_string_def)
qed (simp add: cart_to_string_def)

lemma split_cart_line: "split (cart_line (upc, p, q)) (CHR '':'') = [to_string upc, to_string q]"
proof -
  have "CHR '':'' \<notin> set (to_string upc)" "CHR '':'' \<notin> set (to_string q)"
    using to_string_digits by (fastforce dest: isdigit_not_special(4))+
  then show ?thesis by (simp add: cart_line_def split_piece split_last)
qed

definition cart_stored :: "world \<Rightarrow> cart \<Rightarrow> bool" where
  "cart_stored w c \<longleftrightarrow> cart_ok c \<and> (\<forall>(k, p, q) \<in> set c. product_stored w p)"

text \<open>
  A cart none of whose lines fails to be read now: under each UPC there is a complete product in the
  database, \<open>now\<close> of that UPC, which need not be the one the entry was made with. What is read is
  each line with that product.
\<close>

definition lines_stored :: "world \<Rightarrow> (u64 \<Rightarrow> product) \<Rightarrow> cart \<Rightarrow> bool" where
  "lines_stored w now c \<longleftrightarrow> map_ok c \<and> (\<forall>k \<in> fst ` set c. p_UPC (now k) = k \<and> product_stored w (now k))"

definition cart_now :: "(u64 \<Rightarrow> product) \<Rightarrow> cart \<Rightarrow> cart" where
  "cart_now now c = map (\<lambda>(k, p, q). (k, now k, q)) c"

lemma cart_now_simps [simp]:
  "cart_now now [] = []" "cart_now now ((k, p, q) # c) = (k, now k, q) # cart_now now c"
  by (simp_all add: cart_now_def)

lemma read_cart_line_stored:
  "product_stored w p' \<Longrightarrow> p_UPC p' = upc \<Longrightarrow>
   read_cart_line (cart_line (upc, p, q)) c w = (Inr (cart_set p' q c), w)"
  using getProduct_stored[of w p']
  by (auto simp: read_cart_line_def split_cart_line codec bindS_def lift_def ret_def)

lemma foldS_read_cart:
  assumes "map_ok (pre @ c)" and "\<forall>k \<in> fst ` set c. p_UPC (now k) = k \<and> product_stored w (now k)"
  shows "foldS read_cart_line (map cart_line c) pre w = (Inr (pre @ cart_now now c), w)"
  using assms
proof (induction c arbitrary: pre)
  case (Cons e c)
  obtain upc p q where e: "e = (upc, p, q)" by (cases e) auto
  from Cons.prems e have upc: "p_UPC (now upc) = upc" "product_stored w (now upc)" by auto
  from Cons.prems e have lt: "\<forall>k \<in> fst ` set pre. k < upc"
    by (auto simp: map_ok_def sorted_wrt_append)
  then have "upc \<notin> fst ` set pre" by auto
  then have set: "cart_set (now upc) q pre = pre @ [(upc, now upc, q)]"
    using map_put_last[OF lt] upc by (simp add: cart_set_def Let_def map_erase_absent)
  have "map_ok ((pre @ [(upc, now upc, q)]) @ c)"
    using Cons.prems(1) e by (simp add: map_ok_def sorted_wrt_append)
  from Cons.IH[OF this] Cons.prems(2) e set read_cart_line_stored[OF upc(2,1), of p q pre]
  show ?case by (simp add: bindS_def)
qed (simp add: ret_def)

lemma read_cart_lines:
  assumes "lines_stored w now c"
  shows "read_cart (cart_to_string c) w = (Inr (cart_now now c), w)"
proof -
  have "split (cart_to_string c) (CHR 0x0A) = map cart_line c"
    unfolding cart_to_string_join by (rule split_join) (use cart_line_ok in auto)
  then show ?thesis
    using foldS_read_cart[of "[]" c now w] assms by (simp add: read_cart_def lines_stored_def)
qed

text \<open>A cart of products as they are stored is read back as it is.\<close>

lemma cart_stored_lines:
  assumes "cart_stored w c"
  obtains now where "lines_stored w now c" "cart_now now c = c"
proof -
  define now where "now = (\<lambda>k. fst (the (map_of c k)))"
  have ok: "map_ok c" "\<And>k p q. (k, p, q) \<in> set c \<Longrightarrow> p_UPC p = k \<and> product_stored w p"
    using assms by (auto simp: cart_stored_def cart_ok_def)
  have "distinct (map fst c)"  using ok(1) by (simp only: map_ok_def strict_sorted_iff)
  then have at: "now k = p" if "(k, p, q) \<in> set c" for k p q using that by (simp add: now_def)
  have "lines_stored w now c" using ok at by (fastforce simp: lines_stored_def)
  moreover have "cart_now now c = c" using at by (auto simp: cart_now_def intro!: map_idI)
  ultimately show thesis by (rule that)
qed

lemma read_cart_stored:
  assumes "cart_stored w c"
  shows "read_cart (cart_to_string c) w = (Inr c, w)"
  using cart_stored_lines[OF assms] read_cart_lines by metis

end
