(* ===== verification/User_Laws.thy ===== *)
theory User_Laws
  imports Storage_Laws
begin

text \<open>
  Orders and users through the storage layer: an order is read back as it was stored, and what
  logging a user in (\<open>getUser\<close>) returns and does to the stored row.
\<close>

section \<open>Orders\<close>

definition order_complete :: "transaction \<Rightarrow> bool" where
  "order_complete t \<longleftrightarrow> is_finalized t \<and>
     (\<exists>d. transaction_date t = Some d \<and> tm_ok d) \<and>
     (\<exists>nm str cty st z cn. t_address t = ShippingAddress nm str cty st z cn) \<and>
     (\<exists>num ex cv2. t_payment t = PaymentInfo num ex cv2) \<and>
     f32_stable (transaction_amount t)"

lemma transaction_row_keys: "distinct (map fst (transaction_row t d z num cv2))"
  by (simp add: transaction_row_def)

lemma address_rebuild:
  "changeCountry cn (changeZip z (changeState st (changeCity cty (changeStreet str
     (changeShippingName nm ShippingAddress_default))))) = ShippingAddress nm str cty st z cn"
  by (simp add: address_setters ShippingAddress_default_def ShippingAddress_def S_flags Let_def)

lemma product_stored_orders [simp]: "product_stored (w\<lparr>orders_db := d\<rparr>) p = product_stored w p"
  by (simp add: product_stored_def)

lemma lines_stored_orders [simp]: "lines_stored (w\<lparr>orders_db := d\<rparr>) now c = lines_stored w now c"
  by (simp add: lines_stored_def)

text \<open>The order database holds the row that \<open>storeTransaction\<close> writes for a complete order.\<close>

definition order_stored :: "uuid_lib \<Rightarrow> world \<Rightarrow> transaction \<Rightarrow> bool" where
  "order_stored L w t \<longleftrightarrow> order_complete t \<and>
     (\<exists>d z num cv2. transaction_date t = Some d \<and> zip (t_address t) = Some z \<and> cc_num (t_payment t) = Some num \<and>
        cc_cv2 (t_payment t) = Some cv2 \<and>
        row_in (orders_db w) (uuid_unparse_lower L (transaction_id t)) (transaction_row t d z num cv2))"

text \<open>
  An order as it is read: the cart with the products as they are stored now, the date without the
  two members the format leaves out, and a card that does not say it is set.
\<close>

definition order_as_read :: "(u64 \<Rightarrow> product) \<Rightarrow> transaction \<Rightarrow> transaction" where
  "order_as_read now t = t\<lparr>t_cart := cart_now now (t_cart t), transaction_date := map_option tm_read (transaction_date t),
     t_payment := (t_payment t)\<lparr>pay_is_set := False\<rparr>\<rparr>"

lemma getTransaction_stored:
  assumes stored: "order_stored L w t" and cart: "lines_stored w now (t_cart t)"
  shows "getTransaction L (transaction_id t) w = (Inr (order_as_read now t), w)"
proof -
  from stored obtain d nm str cty st z cn num ex cv2 where
    row: "row_in (orders_db w) (uuid_unparse_lower L (transaction_id t)) (transaction_row t d z num cv2)"
    and date: "transaction_date t = Some d" "tm_ok d"
    and addr: "t_address t = ShippingAddress nm str cty st z cn"
    and pay: "t_payment t = PaymentInfo num ex cv2"
    and amt: "f32_stable (transaction_amount t)" and fin: "is_finalized t"
    by (auto simp: order_stored_def order_complete_def ShippingAddress_def PaymentInfo_def)
  let ?n = "uuid_unparse_lower L (transaction_id t)"
  from row obtain db where db: "orders_db w = Some db"
    and row': "row_in (Some db) ?n (transaction_row t d z num cv2)"
    by (auto simp: row_in_def split: option.splits)
  have vals: "get_into db ?n ''items'' v = cart_to_string (t_cart t)"
    "get_into db ?n ''date'' v = strftime d"
    "get_into db ?n ''total'' v = f32_to_string (transaction_amount t)"
    "get_into db ?n ''shipaddr_name'' v = nm" "get_into db ?n ''shipaddr_street'' v = str"
    "get_into db ?n ''shipaddr_city'' v = cty" "get_into db ?n ''shipaddr_state'' v = st"
    "get_into db ?n ''shipaddr_zip'' v = to_string z" "get_into db ?n ''shipaddr_country'' v = cn"
    "get_into db ?n ''cc_num'' v = to_string num" "get_into db ?n ''cc_exp'' v = ex"
    "get_into db ?n ''cc_cv2'' v = to_string cv2" for v
    by (rule get_into_row[OF row'], simp add: transaction_row_def addr pay ShippingAddress_def PaymentInfo_def)+
  have rc: "read_cart (cart_to_string (t_cart t)) w = (Inr (cart_now now (t_cart t)), w)"
    by (rule read_cart_lines[OF cart])
  have "order_as_read now t =
    setPaymentInfo (PaymentInfo_default\<lparr>cc_num := Some num, cc_exp := ex, cc_cv2 := Some cv2\<rparr>)
      (setShippingAddress (ShippingAddress nm str cty st z cn) (setTransactionAmt (transaction_amount t)
        (setTransactionDate (Some (tm_read d)) ((Transaction (cart_now now (t_cart t)) (transaction_id t))\<lparr>is_finalized := True\<rparr>))))"
    using date addr pay fin
    by (cases t) (simp add: order_as_read_def setPaymentInfo_def setShippingAddress_def setTransactionAmt_def
        setTransactionDate_def Transaction_def PaymentInfo_def PaymentInfo_default_def)
  then show ?thesis
    using row_in_open[OF row'] db vals rc amt date
    by (simp add: getTransaction_def Let_def bindS_def[of "read_cart _"] bindS_lift_split codec
        f32_stable_def address_rebuild ret_def)
qed

lemma order_roundtrip:
  assumes "order_complete t" and "lines_stored w now (t_cart t)"
  shows "\<exists>w'. storeTransaction L t w = (Inr 1, w') \<and>
    getTransaction L (transaction_id t) w' = (Inr (order_as_read now t), w')"
proof -
  from assms(1) obtain d nm str cty st z cn num ex cv2 where
    t: "transaction_date t = Some d" "tm_ok d" "t_address t = ShippingAddress nm str cty st z cn"
      "t_payment t = PaymentInfo num ex cv2" "f32_stable (transaction_amount t)" "is_finalized t"
    by (auto simp: order_complete_def)
  obtain db where db: "store_row (uuid_unparse_lower L (transaction_id t)) (transaction_row t d z num cv2)
      (orders_db w) = Inr db"
    using store_row_succeeds by blast
  have row: "row_in (Some db) (uuid_unparse_lower L (transaction_id t)) (transaction_row t d z num cv2)"
    by (rule store_row_ok[OF db transaction_row_keys])
  let ?w' = "w\<lparr>orders_db := Some db\<rparr>"
  have "storeTransaction L t w = (Inr 1, ?w')"
    using t db by (simp add: storeTransaction_def ShippingAddress_def PaymentInfo_def tm_ok_def)
  moreover have "order_stored L ?w' t"
    unfolding order_stored_def using assms(1) t row by (simp add: ShippingAddress_def PaymentInfo_def)
  then have "getTransaction L (transaction_id t) ?w' = (Inr (order_as_read now t), ?w')"
    by (rule getTransaction_stored) (use assms(2) in simp)
  ultimately show ?thesis by blast
qed

section \<open>Frames\<close>

text \<open>Operations that only ever touch the product table.\<close>

definition products_only :: "(world, 'a) op \<Rightarrow> bool" where
  "products_only m \<longleftrightarrow> (\<forall>w r w'. m w = (r, w') \<longrightarrow>
     users_db w' = users_db w \<and> orders_db w' = orders_db w \<and> logged_in w' = logged_in w)"

lemma products_onlyD:
  assumes "products_only m" "m w = (r, w')"
  shows "users_db w' = users_db w" "orders_db w' = orders_db w" "logged_in w' = logged_in w"
  using assms unfolding products_only_def by blast+

lemma products_only_basic [simp]: "products_only (ret x)" "products_only (throw e)" "products_only (lift r)"
  by (simp_all add: products_only_def ret_def throw_def lift_def)

lemma products_only_bindS [intro]:
  assumes "products_only m" and "\<And>x. products_only (f x)"
  shows "products_only (bindS m f)"
proof -
  have "users_db w' = users_db w \<and> orders_db w' = orders_db w \<and> logged_in w' = logged_in w"
    if "bindS m f w = (r, w')" for w r w'
  proof -
    obtain a w1 where m: "m w = (a, w1)" by (cases "m w") auto
    note 1 = products_onlyD[OF assms(1) m]
    show ?thesis
    proof (cases a)
      case (Inl e)
      with that m 1 show ?thesis by (simp add: bindS_def)
    next
      case (Inr x)
      with that m have "f x w1 = (r, w')" by (simp add: bindS_def)
      with 1 products_onlyD[OF assms(2) this] show ?thesis by simp
    qed
  qed
  then show ?thesis by (simp add: products_only_def)
qed

lemma products_only_foldS: "(\<And>x b. products_only (f x b)) \<Longrightarrow> products_only (foldS f xs b)"
  by (induction xs arbitrary: b) auto

lemma products_only_getProduct [simp]: "products_only (getProduct upc)"
  unfolding products_only_def using getProduct_frame by blast

lemma products_only_read_cart [simp]: "products_only (read_cart s)"
  unfolding read_cart_def read_cart_line_def
  by (intro products_only_foldS) (auto split: list.split intro!: products_only_bindS)

lemma products_only_open:
  "(\<And>x. products_only (g x)) \<Longrightarrow>
   products_only (\<lambda>w. case q w of Inl e \<Rightarrow> (Inl (h e), w) | Inr x \<Rightarrow> g x w)"
  unfolding products_only_def by (auto split: sum.splits)

lemma products_only_getTransaction [simp]: "products_only (getTransaction L tid)"
  unfolding getTransaction_def[abs_def] Let_def
  by (intro products_only_open products_only_bindS) simp_all

lemma products_only_read_orders: "products_only (foldS (read_order L) ss st)"
  by (rule products_only_foldS) (auto simp: read_order_def Let_def split: option.split)

section \<open>Logging in\<close>

lemma storeUser_ok:
  assumes "storeUser L u w = (Inr x, w')"
  shows "row_get (users_db w') (user_name u) ''items_in_cart'' = Some (cart_to_string (u_cart u))"
    and "products_db w' = products_db w" "orders_db w' = orders_db w" "logged_in w' = logged_in w"
proof -
  obtain ra rp db where rows: "address_row (u_address u) = Inr ra" "payment_row (u_payment u) = Inr rp"
    and db: "store_row (user_name u) (ra @ rp @ [(''orders'', orders_to_string L (u_history u)),
        (''items_in_cart'', cart_to_string (u_cart u))]) (users_db w) = Inr db"
    and w': "w' = w\<lparr>users_db := Some db\<rparr>"
    using assms by (auto simp: storeUser_def split: sum.splits)
  have "distinct (map fst (ra @ rp @ [(''orders'', orders_to_string L (u_history u)),
        (''items_in_cart'', cart_to_string (u_cart u))]))"
    using rows by (auto simp: address_row_def payment_row_def split: if_splits option.splits)
  from store_row_ok[OF db this] w'
  show "row_get (users_db w') (user_name u) ''items_in_cart'' = Some (cart_to_string (u_cart u))"
    "products_db w' = products_db w" "orders_db w' = orders_db w" "logged_in w' = logged_in w"
    by (auto simp: row_in_def row_get_def)
qed

lemma bindS_Inr:
  assumes "bindS m f w = (Inr y, w')"
  obtains x w1 where "m w = (Inr x, w1)" "f x w1 = (Inr y, w')"
  using assms by (auto simp: bindS_def split: prod.splits sum.splits)

text \<open>The stages of a successful login.\<close>

lemma getUser_stages:
  assumes "getUser L n w = (Inr u, w')"
  obtains db orders w1 addr w2 w3 card c tid where
    "OpenForReadOnly [kDefault, n] (users_db w) = Inr db"
    "foldS (read_order L) (split (get_into db n ''orders'' []) (CHR 0x0A)) (None, []) w = (Inr (tid, orders), w1)"
    "read_address db n = Inr addr" "read_card db n = Inr card"
    "storeUser L ((User n orders)\<lparr>u_address := addr\<rparr>) w1 = (Inr 1, w2)"
    "case card of None \<Rightarrow> w3 = w2
     | Some cc \<Rightarrow> storeUser L ((User n orders)\<lparr>u_address := addr, u_payment := cc\<rparr>) w2 = (Inr 1, w3)"
    "read_cart (get_into db n ''items_in_cart'' (dbval_before_cart db n)) w3 = (Inr c, w')"
    "u = (case card of None \<Rightarrow> (User n orders)\<lparr>u_address := addr, u_cart := c\<rparr>
          | Some cc \<Rightarrow> (User n orders)\<lparr>u_address := addr, u_payment := cc, u_cart := c\<rparr>)"
proof -
  have one: "storeUser L v x = (Inr a, y) \<Longrightarrow> a = 1" for v x a y
    by (auto simp: storeUser_def split: sum.splits)
  from assms obtain db where db: "OpenForReadOnly [kDefault, n] (users_db w) = Inr db"
    by (auto simp: getUser_def split: sum.splits)
  note assms[unfolded getUser_def db sum.case]
  then obtain st w1 where 1: "foldS (read_order L) (split (get_into db n ''orders'' []) (CHR 0x0A)) (None, []) w = (Inr st, w1)"
    and r1: "(case st of (_, orders) \<Rightarrow>
          bindS (lift (read_address db n)) (\<lambda>addr.
          bindS (changeShippingAddress L addr (User n orders)) (\<lambda>u1.
          bindS (lift (read_card db n)) (\<lambda>card.
          bindS (case card of None \<Rightarrow> ret u1 | Some cc \<Rightarrow> changeCreditCard L cc u1) (\<lambda>u2.
          bindS (read_cart (get_into db n ''items_in_cart'' (dbval_before_cart db n))) (\<lambda>c.
          ret (u2\<lparr>u_cart := c\<rparr>))))))) w1 = (Inr u, w')"
    by (rule bindS_Inr)
  obtain tid orders where st: "st = (tid, orders)" by force
  from r1 st obtain addr where addr: "read_address db n = Inr addr"
    by (auto simp: bindS_lift_split split: sum.splits)
  with r1 st obtain a w2 where "storeUser L ((User n orders)\<lparr>u_address := addr\<rparr>) w1 = (Inr a, w2)"
    by (auto simp: changeShippingAddress_def Let_def bindS_assoc elim!: bindS_Inr)
  with one have w2: "storeUser L ((User n orders)\<lparr>u_address := addr\<rparr>) w1 = (Inr 1, w2)" by blast
  with r1 st addr obtain card where card: "read_card db n = Inr card"
    by (auto simp: changeShippingAddress_def Let_def bindS_assoc bindS_def[of "storeUser L _"] bindS_lift_split
        split: sum.splits)
  let ?u1 = "(User n orders)\<lparr>u_address := addr\<rparr>"
  have r2: "bindS (case card of None \<Rightarrow> ret ?u1 | Some cc \<Rightarrow> changeCreditCard L cc ?u1) (\<lambda>u2.
      bindS (read_cart (get_into db n ''items_in_cart'' (dbval_before_cart db n))) (\<lambda>c.
      ret (u2\<lparr>u_cart := c\<rparr>))) w2 = (Inr u, w')"
    using r1 st addr w2 card
    by (simp add: changeShippingAddress_def Let_def bindS_assoc bindS_def[of "storeUser L _"] bindS_lift_split)
  show thesis
  proof (cases card)
    case None
    with r2 obtain c where "read_cart (get_into db n ''items_in_cart'' (dbval_before_cart db n)) w2 = (Inr c, w')"
      "u = ?u1\<lparr>u_cart := c\<rparr>"
      by (auto simp: ret_def elim!: bindS_Inr)
    with that[of db tid orders w1 addr card w2 w2 c] db 1 st addr w2 card None show thesis by simp
  next
    case (Some cc)
    with r2 obtain a w3 c where "storeUser L (?u1\<lparr>u_payment := cc\<rparr>) w2 = (Inr a, w3)"
      "read_cart (get_into db n ''items_in_cart'' (dbval_before_cart db n)) w3 = (Inr c, w')"
      "u = ?u1\<lparr>u_payment := cc, u_cart := c\<rparr>"
      by (auto simp: changeCreditCard_def Let_def bindS_assoc ret_def elim!: bindS_Inr)
    moreover from this one have "a = 1" by blast
    ultimately show thesis using that[of db tid orders w1 addr card w2 w3 c] db 1 st addr w2 card Some by simp
  qed
qed

lemma user_name_User [simp]: "user_name (User n h) = n" "u_cart (User n h) = []"
  by (simp_all add: User_def User_default_def)

text \<open>
  Login stores the user twice before it has read the cart back, so the stored cart is left empty
  while the cart is in memory only.
\<close>

lemma getUser_empties_cart:
  assumes "getUser L n w = (Inr u, w')"
  shows "row_get (users_db w') n ''items_in_cart'' = Some []"
  using assms
proof (cases rule: getUser_stages)
  case (1 db orders w1 addr w2 w3 card c tid)
  have "row_get (users_db w3) n ''items_in_cart'' = Some []"
    using storeUser_ok(1)[OF 1(5)] 1(6)
    by (cases card) (auto simp: cart_to_string_def dest!: storeUser_ok(1))
  moreover have "users_db w' = users_db w3"
    by (rule products_onlyD(1)[OF products_only_read_cart 1(7)])
  ultimately show ?thesis by simp
qed

text \<open>The security code a login takes over is the number the expiration date starts with.\<close>

lemma getUser_cv2:
  assumes "getUser L n w = (Inr u, w')" and "pay_is_set (u_payment u)"
  shows "\<exists>v. stoul_uint (cc_exp (u_payment u)) = Inr v \<and> cc_cv2 (u_payment u) = Some v"
  using assms(1)
proof (cases rule: getUser_stages)
  case (1 db orders w1 addr w2 w3 card c tid)
  have "card \<noteq> None"
    using 1(8) assms(2) by (cases card) (simp_all add: User_def User_default_def PaymentInfo_default_def)
  then show ?thesis
    using 1(4,8) by (auto simp: read_card_def PaymentInfo_def split: option.splits sum.splits)
qed

text \<open>A postal code that is no number makes the login end in \<open>invalid_argument\<close>.\<close>

lemma getUser_bad_zip:
  assumes "OpenForReadOnly [kDefault, n] (users_db w) = Inr db"
    and "split (get_into db n ''orders'' []) (CHR 0x0A) = []"
    and "DB_Get db n ''shipaddr_zip'' = Some z" and "stoul z = Inl e"
  shows "getUser L n w = (Inl e, w)"
proof -
  have "read_address db n = Inl e"
    using assms(3,4) by (simp add: read_address_def stoul_uint_def Let_def)
  then show ?thesis using assms(1,2) by (simp add: getUser_def ret_def throw_def)
qed

end
