(* ===== verification/Shop_Ops.thy ===== *)
theory Shop_Ops
  imports User_Laws
begin

text \<open>
  The operations on the shared state: the cart methods (\<open>shoppingcart.cpp\<close>), which store the
  logged-in user when they run on that user's own cart, buying the cart, and placing the order
  (\<open>Transaction::chargeCreditCard\<close>).
\<close>

section \<open>The cart a method runs on\<close>

text \<open>\<open>this\<close>: the cart of \<open>globals::logged_in\<close>, or any other cart object.\<close>

datatype receiver = This_logged_in | This_local cart

fun cart_of :: "receiver \<Rightarrow> world \<Rightarrow> cart" where
  "cart_of This_logged_in w = u_cart (logged_in w)"
| "cart_of (This_local c) w = c"

definition set_logged_cart :: "cart \<Rightarrow> world \<Rightarrow> world" where
  "set_logged_cart c w = w\<lparr>logged_in := (logged_in w)\<lparr>u_cart := c\<rparr>\<rparr>"

text \<open>Change the cart; if it is the logged-in user's, store that user.\<close>

fun update_cart :: "uuid_lib \<Rightarrow> cart \<Rightarrow> receiver \<Rightarrow> (world, receiver) op" where
  "update_cart L c This_logged_in =
     bindS (modS (set_logged_cart c)) (\<lambda>_.
     bindS (getS logged_in) (\<lambda>u.
     bindS (storeUser L u) (\<lambda>_. ret This_logged_in)))"
| "update_cart L c (This_local _) = ret (This_local c)"

definition deleteProduct :: "uuid_lib \<Rightarrow> u64 \<Rightarrow> receiver \<Rightarrow> (world, receiver) op" where
  "deleteProduct L upc r = bindS (getS (cart_of r)) (\<lambda>c. update_cart L (map_erase upc c) r)"

definition addProduct :: "uuid_lib \<Rightarrow> product \<Rightarrow> receiver \<Rightarrow> (world, receiver) op" where
  "addProduct L p r =
     bindS (getS (cart_of r)) (\<lambda>c.
       if \<not> checkCart (p_UPC p) c then update_cart L (map_put (p_UPC p) (p, 1) c) r else ret r)"

definition addProduct_qty :: "uuid_lib \<Rightarrow> product \<Rightarrow> u32 \<Rightarrow> receiver \<Rightarrow> (world, receiver) op" where
  "addProduct_qty L p qty r =
     bindS (if qty = 0 then deleteProduct L (p_UPC p) r else ret r) (\<lambda>r'.
     bindS (getS (cart_of r')) (\<lambda>c. update_cart L (map_put (p_UPC p) (p, qty) c) r'))"

definition addProduct_UPC_qty :: "uuid_lib \<Rightarrow> u64 \<Rightarrow> u32 \<Rightarrow> receiver \<Rightarrow> (world, receiver) op" where
  "addProduct_UPC_qty L upc qty r = bindS (getProduct upc) (\<lambda>p. addProduct_qty L p qty r)"

definition addProduct_UPC :: "uuid_lib \<Rightarrow> u64 \<Rightarrow> receiver \<Rightarrow> (world, receiver) op" where
  "addProduct_UPC L upc r = bindS (getProduct upc) (\<lambda>p. addProduct_qty L p 1 r)"

definition changeQuantity :: "uuid_lib \<Rightarrow> u64 \<Rightarrow> u32 \<Rightarrow> receiver \<Rightarrow> (world, receiver) op" where
  "changeQuantity L upc qty r = bindS (getProduct upc) (\<lambda>p. addProduct_qty L p qty r)"

definition emptyCart :: "uuid_lib \<Rightarrow> receiver \<Rightarrow> (world, receiver) op" where
  "emptyCart L r = update_cart L [] r"

section \<open>Buying\<close>

text \<open>No entry asks for more than its product has on hand.\<close>

definition cart_valid :: "cart \<Rightarrow> bool" where
  "cart_valid c = list_all (\<lambda>(k, p, q). \<not> p_quantity p < q) c"

definition buyCart :: "uuid \<Rightarrow> receiver \<Rightarrow> (world, transaction) op" where
  "buyCart fresh r =
     (case r of
        This_local c \<Rightarrow> throw (Runtime_error ''buyCart method called on non-user ShoppingCart.'')
      | This_logged_in \<Rightarrow>
          bindS (getS (cart_of r)) (\<lambda>c.
            if \<not> cart_valid c
            then throw (Runtime_error ''buyCart method called on cart containing invalid quantities.'')
            else ret (Transaction c fresh)))"

definition charge_item :: "u64 \<times> product \<times> u32 \<Rightarrow> unit \<Rightarrow> (world, unit) op" where
  "charge_item item _ =
     (case item of (k, p, q) \<Rightarrow>
        if p_quantity p < q
        then throw (Runtime_error ''Cannot finalize a transaction with invalid quantities.'')
        else bindS (setQuantity (p_quantity p - q) p) (\<lambda>p'.
             bindS (storeProduct p') (\<lambda>_. ret ())))"

text \<open>\<open>now\<close> is what \<open>time\<close> returns.\<close>

definition chargeCreditCard :: "uuid_lib \<Rightarrow> nat \<Rightarrow> transaction \<Rightarrow> (world, transaction) op" where
  "chargeCreditCard L now t =
     (let t' = t\<lparr>transaction_date := Some (gmtime now), is_finalized := True\<rparr>
      in bindS (foldS charge_item (t_cart t') ()) (\<lambda>_.
         bindS (storeTransaction L t') (\<lambda>_.
         bindS (modS (set_logged_cart [])) (\<lambda>_.
         bindS (modS (\<lambda>w. w\<lparr>logged_in := (logged_in w)\<lparr>u_history :=
                   addTransaction t' (u_history (logged_in w))\<rparr>\<rparr>)) (\<lambda>_.
         bindS (getS logged_in) (\<lambda>u.
         bindS (storeUser L u) (\<lambda>_. ret t')))))))"

section \<open>What the cart methods do\<close>

text \<open>A user the storage layer can write: no member it reads is uninitialised.\<close>

definition user_storable :: "user \<Rightarrow> bool" where
  "user_storable u \<longleftrightarrow> (s_parts_set (u_address u) \<noteq> 0 \<longrightarrow> zip (u_address u) \<noteq> None) \<and>
     (pay_is_set (u_payment u) \<longrightarrow> cc_num (u_payment u) \<noteq> None \<and> cc_cv2 (u_payment u) \<noteq> None)"

lemma storeUser_succeeds:
  assumes "user_storable u"
  obtains db where "storeUser L u w = (Inr 1, w\<lparr>users_db := Some db\<rparr>)"
proof -
  obtain ra where ra: "address_row (u_address u) = Inr ra"
    using assms by (cases "s_parts_set (u_address u) = 0") (auto simp: user_storable_def address_row_def)
  obtain rp where rp: "payment_row (u_payment u) = Inr rp"
    using assms by (cases "pay_is_set (u_payment u)") (auto simp: user_storable_def payment_row_def)
  obtain db where "store_row (user_name u) (ra @ rp @ [(''orders'', orders_to_string L (u_history u)),
      (''items_in_cart'', cart_to_string (u_cart u))]) (users_db w) = Inr db"
    using store_row_succeeds by blast
  with ra rp that show thesis by (simp add: storeUser_def)
qed

lemma user_storable_cart [simp]: "user_storable (u\<lparr>u_cart := c\<rparr>) = user_storable u"
  "user_storable (u\<lparr>u_history := h\<rparr>) = user_storable u"
  by (simp_all add: user_storable_def)

text \<open>
  On the logged-in cart an update always succeeds, leaves the products and orders alone, and
  the stored row holds the text of the new cart: memory and database agree.
\<close>

lemma update_cart_logged_in:
  assumes "user_storable (logged_in w)"
  shows "\<exists>db. update_cart L c This_logged_in w = (Inr This_logged_in, (set_logged_cart c w)\<lparr>users_db := Some db\<rparr>) \<and>
    DB_Get db (user_name (logged_in w)) ''items_in_cart'' = Some (cart_to_string c)"
proof -
  let ?w = "set_logged_cart c w"
  have st: "user_storable (logged_in ?w)" using assms by (simp add: set_logged_cart_def)
  obtain db where db: "storeUser L (logged_in ?w) ?w = (Inr 1, ?w\<lparr>users_db := Some db\<rparr>)"
    using storeUser_succeeds[OF st] by blast
  from storeUser_ok(1)[OF db]
  have "DB_Get db (user_name (logged_in w)) ''items_in_cart'' = Some (cart_to_string c)"
    by (simp add: row_get_def set_logged_cart_def)
  with db show ?thesis by (auto simp: bindS_def modS_def getS_def ret_def)
qed

lemma set_logged_cart_simps [simp]:
  "u_cart (logged_in (set_logged_cart c w)) = c"
  "user_name (logged_in (set_logged_cart c w)) = user_name (logged_in w)"
  "u_address (logged_in (set_logged_cart c w)) = u_address (logged_in w)"
  "u_payment (logged_in (set_logged_cart c w)) = u_payment (logged_in w)"
  "u_history (logged_in (set_logged_cart c w)) = u_history (logged_in w)"
  "products_db (set_logged_cart c w) = products_db w"
  "orders_db (set_logged_cart c w) = orders_db w"
  "users_db (set_logged_cart c w) = users_db w"
  "set_logged_cart c (set_logged_cart c' w) = set_logged_cart c w"
  by (simp_all add: set_logged_cart_def)

lemma user_storable_set_cart [simp]:
  "user_storable (logged_in (set_logged_cart c w)) = user_storable (logged_in w)"
  by (simp add: set_logged_cart_def)

text \<open>The cart methods of the logged-in user as one change of the cart each.\<close>

definition cart_op :: "(world, receiver) op \<Rightarrow> world \<Rightarrow> cart \<Rightarrow> bool" where
  "cart_op m w c \<longleftrightarrow> (\<exists>db. m w = (Inr This_logged_in, (set_logged_cart c w)\<lparr>users_db := Some db\<rparr>) \<and>
     DB_Get db (user_name (logged_in w)) ''items_in_cart'' = Some (cart_to_string c))"

lemma deleteProduct_logged_in:
  assumes "user_storable (logged_in w)"
  shows "cart_op (deleteProduct L upc This_logged_in) w (map_erase upc (u_cart (logged_in w)))"
  using update_cart_logged_in[OF assms, of L "map_erase upc (u_cart (logged_in w))"]
  by (simp add: cart_op_def deleteProduct_def bindS_def[of "getS _"] getS_def del: update_cart.simps)

lemma emptyCart_logged_in:
  assumes "user_storable (logged_in w)"
  shows "cart_op (emptyCart L This_logged_in) w []"
  using update_cart_logged_in[OF assms, of L "[]"] by (simp add: cart_op_def emptyCart_def)

lemma addProduct_qty_logged_in:
  assumes "user_storable (logged_in w)"
  shows "cart_op (addProduct_qty L p q This_logged_in) w (cart_set p q (u_cart (logged_in w)))"
proof (cases "q = 0")
  case False
  then show ?thesis
    using update_cart_logged_in[OF assms, of L "map_put (p_UPC p) (p, q) (u_cart (logged_in w))"]
    by (simp add: cart_op_def addProduct_qty_def cart_set_def bindS_def[of "getS _"] getS_def
        del: update_cart.simps)
next
  case True
  let ?c = "map_erase (p_UPC p) (u_cart (logged_in w))"
  obtain db where del: "deleteProduct L (p_UPC p) This_logged_in w =
      (Inr This_logged_in, (set_logged_cart ?c w)\<lparr>users_db := Some db\<rparr>)"
    using deleteProduct_logged_in[OF assms] by (auto simp: cart_op_def)
  let ?w = "(set_logged_cart ?c w)\<lparr>users_db := Some db\<rparr>"
  have "user_storable (logged_in ?w)" using assms by simp
  from update_cart_logged_in[OF this, of L "map_put (p_UPC p) (p, q) ?c"] del True
  show ?thesis
    by (auto simp: cart_op_def addProduct_qty_def cart_set_def bindS_def[of "getS _"]
        bindS_def[of "deleteProduct _ _ _"] getS_def set_logged_cart_def simp del: update_cart.simps)
qed

end
