(* ===== verification/Checkout.thy ===== *)
theory Checkout
  imports Shop_Ops
begin

text \<open>
  Placing an order: stock is taken without wrap-around, the order and the user are stored, the
  cart is emptied; and where a quantity is invalid no order is recorded.
\<close>

section \<open>Taking stock\<close>

lemma row_in_store_other:
  assumes "store_row n kvs dbo = Inr db" and "row_in dbo n' kvs'" and "n' \<noteq> n"
  shows "row_in (Some db) n' kvs'"
proof -
  from assms(2) obtain d where d: "dbo = Some d" by (auto simp: row_in_def split: option.splits)
  from assms(1) obtain db0 where open0: "DB_Open (store_names dbo n) dbo = Inr db0"
    and db: "db = DB_Write (map (\<lambda>(k, v). (n, k, v)) kvs) db0"
    by (auto simp: store_row_def split: sum.splits)
  have "fst ` set db = set (store_names dbo n)"
    using rocks.open_names[OF open0] db by (simp add: ListColumnFamilies_def)
  then have "kDefault \<in> fst ` set db" "n' \<in> fst ` set db"
    using assms(2) d by (auto simp: set_store_names ListColumnFamilies_def row_in_def)
  moreover have "DB_Get db n' k = DB_Get d n' k" for k
    using store_row_frame[OF assms(1), of n' k] assms(3) d by (simp add: row_get_def)
  ultimately show ?thesis using assms(2) d by (simp add: row_in_def)
qed

lemma charge_item_ok:
  assumes "p_is_set p" and "\<not> p_quantity p < q"
  shows "\<exists>db. charge_item (k, p, q) () w = (Inr (), w\<lparr>products_db := Some db\<rparr>) \<and>
    store_row (to_string (p_UPC p)) (product_row (p\<lparr>p_quantity := p_quantity p - q\<rparr>)) (products_db w) = Inr db"
proof -
  let ?p = "set_quantity (p_quantity p - q) p"
  have row: "product_row ?p = product_row (p\<lparr>p_quantity := p_quantity p - q\<rparr>)" "p_UPC ?p = p_UPC p"
    by (simp_all add: product_row_def product_setters Let_def)
  have set: "p_is_set ?p" using assms(1) by (simp add: product_setters Let_def)
  obtain db where db: "store_row (to_string (p_UPC p)) (product_row ?p) (products_db w) = Inr db"
    using store_row_succeeds by blast
  have again: "store_row (to_string (p_UPC p)) (product_row ?p) (Some db) = Inr db"
    by (rule store_row_id[OF store_row_ok[OF db product_row_keys]])
  have "charge_item (k, p, q) () w = (Inr (), w\<lparr>products_db := Some db\<rparr>)"
    using assms(2) set db again row(2)
    by (simp add: charge_item_def setQuantity_def storeProduct_def Let_def bindS_def ret_def)
  then show ?thesis using db row(1) by auto
qed

definition cart_complete :: "cart \<Rightarrow> bool" where
  "cart_complete c \<longleftrightarrow> cart_ok c \<and> list_all (\<lambda>(k, p, q). p_is_set p) c"

lemma charge_items:
  assumes "cart_complete c" and "cart_valid c"
  shows "\<exists>w'. foldS charge_item c () w = (Inr (), w') \<and> users_db w' = users_db w \<and>
    orders_db w' = orders_db w \<and> logged_in w' = logged_in w \<and>
    (\<forall>(k, p, q) \<in> set c. row_in (products_db w') (to_string k) (product_row (p\<lparr>p_quantity := p_quantity p - q\<rparr>))) \<and>
    (\<forall>n kvs. n \<notin> to_string ` fst ` set c \<longrightarrow> row_in (products_db w) n kvs \<longrightarrow> row_in (products_db w') n kvs)"
  using assms
proof (induction c arbitrary: w)
  case (Cons e c)
  obtain k p q where e: "e = (k, p, q)" by (cases e) auto
  let ?row = "product_row (p\<lparr>p_quantity := p_quantity p - q\<rparr>)"
  have upc: "p_UPC p = k" and notin: "k \<notin> fst ` set c" and cc: "cart_complete c" and cv: "cart_valid c"
    using Cons.prems e by (auto simp: cart_complete_def cart_ok_def cart_valid_def)
  obtain db where db: "charge_item e () w = (Inr (), w\<lparr>products_db := Some db\<rparr>)"
    "store_row (to_string k) ?row (products_db w) = Inr db"
    using charge_item_ok[of p q k w] Cons.prems e upc by (auto simp: cart_complete_def cart_valid_def)
  let ?w1 = "w\<lparr>products_db := Some db\<rparr>"
  obtain w' where IH: "foldS charge_item c () ?w1 = (Inr (), w')" "users_db w' = users_db w"
    "orders_db w' = orders_db w" "logged_in w' = logged_in w"
    "\<forall>(k, p, q) \<in> set c. row_in (products_db w') (to_string k) (product_row (p\<lparr>p_quantity := p_quantity p - q\<rparr>))"
    "\<forall>n kvs. n \<notin> to_string ` fst ` set c \<longrightarrow> row_in (Some db) n kvs \<longrightarrow> row_in (products_db w') n kvs"
    using Cons.IH[OF cc cv, of ?w1] by auto
  have "row_in (Some db) (to_string k) ?row"
    by (rule store_row_ok[OF db(2)]) (simp add: product_row_keys)
  moreover have "to_string k \<notin> to_string ` fst ` set c" using notin by (force simp: image_iff)
  ultimately have first: "row_in (products_db w') (to_string k) ?row" using IH(6) by blast
  have rest: "row_in (products_db w') n kvs"
    if "n \<notin> to_string ` fst ` set (e # c)" "row_in (products_db w) n kvs" for n kvs
    using that IH(6) row_in_store_other[OF db(2) that(2)] e by simp
  have run: "foldS charge_item (e # c) () w = (Inr (), w')"
    using db(1) IH(1) by (simp add: bindS_def)
  show ?case
    by (rule exI[of _ w'], intro conjI run IH(2-4)) (use first IH(5) rest e in auto)
qed (simp add: ret_def)

text \<open>With an invalid entry the loop ends in the exception; only products have been written.\<close>

lemma charge_items_invalid:
  assumes "\<not> cart_valid c"
  shows "\<exists>w'. foldS charge_item c () w =
      (Inl (Runtime_error ''Cannot finalize a transaction with invalid quantities.''), w') \<and>
    users_db w' = users_db w \<and> orders_db w' = orders_db w \<and> logged_in w' = logged_in w"
  using assms
proof (induction c arbitrary: w)
  case (Cons e c)
  obtain k p q where e: "e = (k, p, q)" by (cases e) auto
  show ?case
  proof (cases "p_quantity p < q")
    case True
    then show ?thesis by (simp add: e charge_item_def throw_def)
  next
    case False
    then have cv: "\<not> cart_valid c" using Cons.prems e by (simp add: cart_valid_def)
    have total: "\<exists>x d. storeProduct p' v = (Inr x, v\<lparr>products_db := d\<rparr>)" for p' v
    proof (cases "p_is_set p'")
      case True
      then show ?thesis using storeProduct_succeeds by blast
    next
      case False
      then have "storeProduct p' v = (Inr 0, v\<lparr>products_db := products_db v\<rparr>)" by (simp add: storeProduct_def)
      then show ?thesis by blast
    qed
    obtain d where "charge_item e () w = (Inr (), w\<lparr>products_db := d\<rparr>)"
    proof -
      let ?p = "set_quantity (p_quantity p - q) p"
      obtain x d where 1: "storeProduct ?p w = (Inr x, w\<lparr>products_db := d\<rparr>)" using total by blast
      obtain y d' where "storeProduct ?p (w\<lparr>products_db := d\<rparr>) = (Inr y, w\<lparr>products_db := d\<rparr>\<lparr>products_db := d'\<rparr>)"
        using total by blast
      with 1 False e that[of d'] show thesis
        by (simp add: charge_item_def setQuantity_def Let_def bindS_def ret_def)
    qed
    with Cons.IH[OF cv, of "w\<lparr>products_db := d\<rparr>"] show ?thesis by (simp add: bindS_def)
  qed
qed (simp add: cart_valid_def)

section \<open>Placing the order\<close>

definition order_ready :: "transaction \<Rightarrow> bool" where
  "order_ready t \<longleftrightarrow> zip (t_address t) \<noteq> None \<and> cc_num (t_payment t) \<noteq> None \<and> cc_cv2 (t_payment t) \<noteq> None"

lemma gmtime_isdst: "tm_isdst (gmtime t) \<noteq> None"
  by (simp add: gmtime_def Let_def split: prod.split)

lemma chargeCreditCard_ok:
  fixes now :: nat
  assumes cart: "cart_complete (t_cart t)" "cart_valid (t_cart t)"
    and ready: "order_ready t" and user: "user_storable (logged_in w)"
  defines "t' \<equiv> t\<lparr>transaction_date := Some (gmtime now), is_finalized := True\<rparr>"
  shows "\<exists>w'. chargeCreditCard L now t w = (Inr t', w') \<and>
    logged_in w' = (logged_in w)\<lparr>u_cart := [], u_history := u_history (logged_in w) @ [t']\<rparr> \<and>
    row_get (users_db w') (user_name (logged_in w)) ''items_in_cart'' = Some [] \<and>
    (\<forall>(k, p, q) \<in> set (t_cart t). row_in (products_db w') (to_string k)
        (product_row (p\<lparr>p_quantity := p_quantity p - q\<rparr>))) \<and>
    (\<exists>z num cv2. zip (t_address t) = Some z \<and> cc_num (t_payment t) = Some num \<and> cc_cv2 (t_payment t) = Some cv2 \<and>
      row_in (orders_db w') (uuid_unparse_lower L (transaction_id t)) (transaction_row t' (gmtime now) z num cv2))"
proof -
  obtain w1 where w1: "foldS charge_item (t_cart t) () w = (Inr (), w1)" "users_db w1 = users_db w"
    "orders_db w1 = orders_db w" "logged_in w1 = logged_in w"
    "\<forall>(k, p, q) \<in> set (t_cart t). row_in (products_db w1) (to_string k) (product_row (p\<lparr>p_quantity := p_quantity p - q\<rparr>))"
    using charge_items[OF cart] by blast
  obtain z num cv2 where vals: "zip (t_address t') = Some z" "cc_num (t_payment t') = Some num"
    "cc_cv2 (t_payment t') = Some cv2"
    using ready by (auto simp: order_ready_def t'_def)
  let ?n = "uuid_unparse_lower L (transaction_id t)"
  obtain odb where odb: "store_row ?n (transaction_row t' (gmtime now) z num cv2) (orders_db w) = Inr odb"
    using store_row_succeeds by blast
  have orow: "row_in (Some odb) ?n (transaction_row t' (gmtime now) z num cv2)"
    by (rule store_row_ok[OF odb transaction_row_keys])
  let ?w2 = "w1\<lparr>orders_db := Some odb\<rparr>"
  have s2: "storeTransaction L t' w1 = (Inr 1, ?w2)"
    using vals odb w1(3) by (simp add: storeTransaction_def t'_def gmtime_isdst)
  define u where "u = (logged_in w)\<lparr>u_cart := [], u_history := u_history (logged_in w) @ [t']\<rparr>"
  let ?w3 = "?w2\<lparr>logged_in := u\<rparr>"
  have "user_storable u" using user by (simp add: u_def user_storable_def)
  then obtain udb where udb: "storeUser L u ?w3 = (Inr 1, ?w3\<lparr>users_db := Some udb\<rparr>)"
    using storeUser_succeeds by blast
  have cart_row: "DB_Get udb (user_name (logged_in w)) ''items_in_cart'' = Some []"
    using storeUser_ok(1)[OF udb] by (simp add: row_get_def u_def cart_to_string_def)
  have run: "chargeCreditCard L now t w = (Inr t', ?w3\<lparr>users_db := Some udb\<rparr>)"
    using w1 s2 udb unfolding chargeCreditCard_def t'_def[symmetric] Let_def
    by (simp add: bindS_def modS_def getS_def ret_def set_logged_cart_def u_def t'_def addTransaction_def)
  show ?thesis
    by (rule exI[of _ "?w3\<lparr>users_db := Some udb\<rparr>"])
      (use run cart_row w1(5) orow vals in \<open>auto simp: row_get_def u_def t'_def\<close>)
qed

lemma chargeCreditCard_invalid:
  assumes "\<not> cart_valid (t_cart t)"
  shows "\<exists>w'. chargeCreditCard L now t w =
      (Inl (Runtime_error ''Cannot finalize a transaction with invalid quantities.''), w') \<and>
    users_db w' = users_db w \<and> orders_db w' = orders_db w \<and> logged_in w' = logged_in w"
  using charge_items_invalid[OF assms, of w] by (auto simp: chargeCreditCard_def Let_def bindS_def)

section \<open>The placed order in the database\<close>

text \<open>A product with all its parts and a price that survives printing.\<close>

definition product_complete :: "product \<Rightarrow> bool" where
  "product_complete p \<longleftrightarrow>
     p = Product (p_UPC p) (p_name p) (p_price p) (p_category p) (p_quantity p) \<and> f32_stable (p_price p)"

lemma product_complete_iff: "product_complete p \<longleftrightarrow> p_parts_set p = P_ALL_SET \<and> p_is_set p \<and> f32_stable (p_price p)"
  by (cases p) (auto simp: product_complete_def Product_def)

text \<open>The products of a cart after the stock has been taken, by UPC.\<close>

definition left_over :: "cart \<Rightarrow> u64 \<Rightarrow> product" where
  "left_over c k = (case map_of c k of Some (p, q) \<Rightarrow> p\<lparr>p_quantity := p_quantity p - q\<rparr> | None \<Rightarrow> Product_default)"

lemma left_over_stored:
  assumes "cart_ok c" and "\<forall>(k, p, q) \<in> set c. product_complete p"
    and "\<forall>(k, p, q) \<in> set c. row_in (products_db w) (to_string k) (product_row (p\<lparr>p_quantity := p_quantity p - q\<rparr>))"
  shows "lines_stored w (left_over c) c"
proof -
  have "distinct (map fst c)" using assms(1) by (simp add: cart_ok_def map_ok_def strict_sorted_iff)
  then have at: "left_over c k = p\<lparr>p_quantity := p_quantity p - q\<rparr>" if "(k, p, q) \<in> set c" for k p q
    using that by (simp add: left_over_def)
  have full: "p\<lparr>p_quantity := n\<rparr> = Product (p_UPC p) (p_name p) (p_price p) (p_category p) n"
    if "product_complete p" for p n
    using that by (cases p) (simp add: product_complete_iff Product_def)
  show ?thesis
    using assms at full
    by (fastforce simp: lines_stored_def cart_ok_def product_stored_def product_complete_def)
qed

text \<open>An order that was just placed is in the order database, and all lines of its cart can be read.\<close>

lemma placed_order_stored:
  assumes cart: "cart_ok (t_cart t)" "\<forall>(k, p, q) \<in> set (t_cart t). product_complete p" "cart_valid (t_cart t)"
    and order: "t_address t = ShippingAddress nm str cty st z cn" "t_payment t = PaymentInfo num ex cv2"
      "f32_stable (transaction_amount t)"
    and user: "user_storable (logged_in w)" and now: "now < 253234080000"
  defines "t' \<equiv> t\<lparr>transaction_date := Some (gmtime now), is_finalized := True\<rparr>"
  shows "\<exists>w'. chargeCreditCard L now t w = (Inr t', w') \<and> order_stored L w' t' \<and>
    lines_stored w' (left_over (t_cart t)) (t_cart t)"
proof -
  have set: "product_complete p \<Longrightarrow> p_is_set p" for p by (simp add: product_complete_iff)
  have c: "cart_complete (t_cart t)" using cart set by (force simp: cart_complete_def list_all_iff)
  have r: "order_ready t" using order by (simp add: order_ready_def ShippingAddress_def PaymentInfo_def)
  obtain w' z' num' cv2' where w': "chargeCreditCard L now t w = (Inr t', w')"
    "\<forall>(k, p, q) \<in> set (t_cart t). row_in (products_db w') (to_string k) (product_row (p\<lparr>p_quantity := p_quantity p - q\<rparr>))"
    "row_in (orders_db w') (uuid_unparse_lower L (transaction_id t)) (transaction_row t' (gmtime now) z' num' cv2')"
    "zip (t_address t) = Some z'" "cc_num (t_payment t) = Some num'" "cc_cv2 (t_payment t) = Some cv2'"
    using chargeCreditCard_ok[OF c cart(3) r user, of L now] unfolding t'_def by blast
  have "transaction_date t' = Some (gmtime now)" "is_finalized t'" "t_address t' = ShippingAddress nm str cty st z cn"
    "t_payment t' = PaymentInfo num ex cv2" "f32_stable (transaction_amount t')"
    using order by (simp_all add: t'_def)
  with gmtime_ok[OF now] have "order_complete t'" unfolding order_complete_def by blast
  then have "order_stored L w' t'" using w'(3-6) unfolding order_stored_def t'_def by auto
  with w'(1) left_over_stored[OF cart(1,2) w'(2)] show ?thesis by blast
qed

end
