(* ===== verification/Cli.thy ===== *)
theory Cli
  imports Checkout
begin

text \<open>
  The console interface (\<open>main.cpp\<close>) as a state machine. A state is the prompt the program waits
  at, with the local variables still in use there; a step reads one line and runs the handler up
  to the next prompt. What is printed is not modelled. \<open>cmd.front()\<close> of an empty line reads the
  terminating NUL of the string. The clock and the fresh UUID are inputs of the step.
\<close>

section \<open>Prompts\<close>

text \<open>The address and card dialogues serve a checkout and the account menu alike.\<close>

datatype form_ctx = For_order transaction | For_account

datatype menu =
    Main_shell
  | Cart_shell bool \<comment> \<open>\<open>invalid_qty\<close>, as computed when the cart was last listed\<close>
  | Acc_shell
  | Orders_shell
  | Use_addr transaction
  | Addr_name1 form_ctx
  | Addr_name2 form_ctx string
  | Addr_street1 form_ctx shipping_address
  | Addr_street2 form_ctx shipping_address string
  | Addr_city form_ctx shipping_address
  | Addr_state form_ctx shipping_address
  | Addr_zip form_ctx shipping_address
  | Addr_country form_ctx shipping_address
  | Addr_confirm form_ctx shipping_address
  | Use_card transaction
  | Card_num form_ctx
  | Card_exp form_ctx string u64
  | Card_cv2 form_ctx string u64 string
  | Card_confirm form_ctx payment_info
  | Place_order transaction
  | Exited

definition front :: "string \<Rightarrow> char" where
  "front s = (case s of [] \<Rightarrow> CHR 0x00 | c # _ \<Rightarrow> c)"

definition says_no :: "string \<Rightarrow> bool" where
  "says_no s \<longleftrightarrow> front s = CHR ''n'' \<or> front s = CHR ''N''"

definition blank :: "string \<Rightarrow> bool" where
  "blank s \<longleftrightarrow> filter (\<lambda>c. \<not> isspace c) s = []"

text \<open>A second line of a field is joined to the first unless it is blank.\<close>

definition two_lines :: "string \<Rightarrow> string \<Rightarrow> string" where
  "two_lines s t = (if \<not> blank t then s @ [CHR 0x0A] @ t else s)"

section \<open>Screens\<close>

definition show_main :: "(world, menu) op" where
  "show_main =
     bindS getProducts (\<lambda>upcs.
     bindS (foldS (\<lambda>upc _. bindS (getProduct upc) (\<lambda>_. ret ())) upcs ()) (\<lambda>_. ret Main_shell))"

definition show_cart :: "(world, menu) op" where
  "show_cart = getS (\<lambda>w. Cart_shell (\<not> cart_valid (u_cart (logged_in w))))"

definition order_cc2 :: "transaction \<Rightarrow> menu" where
  "order_cc2 t = (if \<not> pay_is_set (t_payment t) then Card_num (For_order t) else Place_order t)"

definition order_cc :: "transaction \<Rightarrow> (world, menu) op" where
  "order_cc t = getS (\<lambda>w. if pay_is_set (u_payment (logged_in w)) then Use_card t else order_cc2 t)"

definition order_addr2 :: "transaction \<Rightarrow> (world, menu) op" where
  "order_addr2 t = (if \<not> s_is_set (t_address t) then ret (Addr_name1 (For_order t)) else order_cc t)"

definition order_addr :: "transaction \<Rightarrow> (world, menu) op" where
  "order_addr t =
     bindS (getS (\<lambda>w. s_is_set (u_address (logged_in w)))) (\<lambda>on_file.
       if on_file then ret (Use_addr t) else order_addr2 t)"

text \<open>Where a failed field of the address or the card dialogue goes back to.\<close>

fun addr_failed :: "form_ctx \<Rightarrow> (world, menu) op" where
  "addr_failed (For_order t) = order_addr t"
| "addr_failed For_account = ret Acc_shell"

fun card_failed :: "form_ctx \<Rightarrow> (world, menu) op" where
  "card_failed (For_order t) = order_cc t"
| "card_failed For_account = ret Acc_shell"

section \<open>Handlers\<close>

definition logged_in_changeShippingAddress :: "uuid_lib \<Rightarrow> shipping_address \<Rightarrow> (world, nat) op" where
  "logged_in_changeShippingAddress L a =
     bindS (modS (\<lambda>w. w\<lparr>logged_in := (logged_in w)\<lparr>u_address := a\<rparr>\<rparr>)) (\<lambda>_.
     bindS (getS logged_in) (storeUser L))"

definition logged_in_changeCreditCard :: "uuid_lib \<Rightarrow> payment_info \<Rightarrow> (world, nat) op" where
  "logged_in_changeCreditCard L cc =
     bindS (modS (\<lambda>w. w\<lparr>logged_in := (logged_in w)\<lparr>u_payment := cc\<rparr>\<rparr>)) (\<lambda>_.
     bindS (getS logged_in) (storeUser L))"

text \<open>\<open>catch (const invalid_argument &)\<close>: any other exception passes.\<close>

definition on_invalid :: "exn + 'a \<Rightarrow> (world, menu) op \<Rightarrow> ('a \<Rightarrow> (world, menu) op) \<Rightarrow> (world, menu) op" where
  "on_invalid r handler f =
     (case r of Inr x \<Rightarrow> f x | Inl Invalid_argument \<Rightarrow> handler | Inl e \<Rightarrow> throw e)"

text \<open>The lookup of \<open>addtocart\<close>, with both of its catch clauses.\<close>

definition find_product :: "string \<Rightarrow> (product \<Rightarrow> (world, menu) op) \<Rightarrow> (world, menu) op" where
  "find_product s f w =
     (case bindS (lift (stoul s)) getProduct w of
        (Inr p, w') \<Rightarrow> f p w'
      | (Inl (System_error c), w') \<Rightarrow> show_main w'
      | (Inl Invalid_argument, w') \<Rightarrow> show_main w'
      | (Inl e, w') \<Rightarrow> (Inl e, w'))"

definition add_to_cart :: "uuid_lib \<Rightarrow> product \<Rightarrow> u32 \<Rightarrow> (world, menu) op" where
  "add_to_cart L p qty =
     bindS (if qty = 1 then addProduct L p This_logged_in else addProduct_qty L p qty This_logged_in)
       (\<lambda>_. ret Main_shell)"

definition main_step :: "uuid_lib \<Rightarrow> string \<Rightarrow> (world, menu) op" where
  "main_step L cmd =
     (case split cmd (CHR '' '') of
        [] \<Rightarrow> ret Main_shell
      | c # args \<Rightarrow>
          if c = ''exit'' then ret Exited
          else if c = ''addtocart'' then
            (case args of
               [] \<Rightarrow> ret Main_shell
             | upc_s # rest \<Rightarrow>
                 find_product upc_s (\<lambda>p.
                   case rest of
                     [] \<Rightarrow> add_to_cart L p 1
                   | qty_s # _ \<Rightarrow> on_invalid (stoul_uint qty_s) (ret Main_shell) (add_to_cart L p)))
          else if c = ''cart'' then show_cart
          else if c = ''account'' then ret Acc_shell
          else ret Main_shell)"

definition cart_remove :: "uuid_lib \<Rightarrow> bool \<Rightarrow> string list \<Rightarrow> (world, menu) op" where
  "cart_remove L iq args =
     (case args of
        [] \<Rightarrow> ret (Cart_shell iq)
      | upc_s # _ \<Rightarrow>
          bindS (getS (\<lambda>w. u_cart (logged_in w))) (\<lambda>c.
            if c = [] then ret (Cart_shell iq)
            else on_invalid (stoul upc_s) show_cart (\<lambda>upc.
              if \<not> checkCart upc c then show_cart
              else bindS (deleteProduct L upc This_logged_in) (\<lambda>_. show_cart))))"

definition cart_changeqty :: "uuid_lib \<Rightarrow> bool \<Rightarrow> string list \<Rightarrow> (world, menu) op" where
  "cart_changeqty L iq args =
     (case args of
        upc_s # qty_s # _ \<Rightarrow>
          bindS (getS (\<lambda>w. u_cart (logged_in w))) (\<lambda>c.
            if c = [] then ret (Cart_shell iq)
            else on_invalid (stoul upc_s) show_cart (\<lambda>upc.
                 on_invalid (stoul_uint qty_s) (ret (Cart_shell iq)) (\<lambda>new_qty.
              if \<not> checkCart upc c then show_cart
              else bindS (changeQuantity L upc new_qty This_logged_in) (\<lambda>_. show_cart))))
      | _ \<Rightarrow> ret (Cart_shell iq))"

definition cart_step :: "uuid_lib \<Rightarrow> uuid \<Rightarrow> bool \<Rightarrow> string \<Rightarrow> (world, menu) op" where
  "cart_step L fresh iq cmd =
     bindS (getS (\<lambda>w. u_cart (logged_in w))) (\<lambda>cart.
     case split cmd (CHR '' '') of
        [] \<Rightarrow> ret (Cart_shell iq)
      | c # args \<Rightarrow>
          if c = ''exit'' then ret Exited
          else if c = ''back'' then show_main
          else if c = ''remove'' then cart_remove L iq args
          else if c = ''changeqty'' then cart_changeqty L iq args
          else if c = ''clear'' then
            (if cart = [] then ret (Cart_shell iq)
             else bindS (emptyCart L This_logged_in) (\<lambda>_. show_main))
          else if c = ''checkout'' then
            (if cart = [] then ret (Cart_shell iq)
             else if iq then show_cart
             else bindS (buyCart fresh This_logged_in) order_addr)
          else ret (Cart_shell iq))"

definition acc_step :: "string \<Rightarrow> (world, menu) op" where
  "acc_step cmd =
     (case split cmd (CHR '' '') of
        [] \<Rightarrow> ret Acc_shell
      | c # args \<Rightarrow>
          if c = ''exit'' then ret Exited
          else if c = ''back'' then show_main
          else if c = ''addr'' then ret (Addr_name1 For_account)
          else if c = ''pay'' then ret (Card_num For_account)
          else if c = ''orders'' then
            getS (\<lambda>w. if u_history (logged_in w) = [] then Acc_shell else Orders_shell)
          else ret Acc_shell)"

definition orders_step :: "string \<Rightarrow> (world, menu) op" where
  "orders_step cmd =
     (case split cmd (CHR '' '') of
        [] \<Rightarrow> ret Orders_shell
      | c # args \<Rightarrow>
          if c = ''exit'' then ret Exited
          else if c = ''back'' then ret Acc_shell
          else on_invalid (stoul c) (ret Orders_shell) (\<lambda>_. ret Orders_shell))"

definition addr_confirm :: "uuid_lib \<Rightarrow> form_ctx \<Rightarrow> shipping_address \<Rightarrow> string \<Rightarrow> (world, menu) op" where
  "addr_confirm L ctx a cmd =
     (if says_no cmd then addr_failed ctx
      else bindS (logged_in_changeShippingAddress L a) (\<lambda>_.
             case ctx of For_order t \<Rightarrow> order_cc (setShippingAddress a t) | For_account \<Rightarrow> ret Acc_shell))"

text \<open>The security code is read from the line with the card number once more.\<close>

definition card_confirm :: "uuid_lib \<Rightarrow> form_ctx \<Rightarrow> payment_info \<Rightarrow> string \<Rightarrow> (world, menu) op" where
  "card_confirm L ctx cc cmd =
     (if says_no cmd then addr_failed ctx
      else bindS (logged_in_changeCreditCard L cc) (\<lambda>_.
             case ctx of For_order t \<Rightarrow> ret (Place_order (setPaymentInfo cc t)) | For_account \<Rightarrow> ret Acc_shell))"

fun cli_step :: "uuid_lib \<Rightarrow> nat \<Rightarrow> uuid \<Rightarrow> string \<Rightarrow> menu \<Rightarrow> (world, menu) op" where
  "cli_step L now fresh cmd Main_shell = main_step L cmd"
| "cli_step L now fresh cmd (Cart_shell iq) = cart_step L fresh iq cmd"
| "cli_step L now fresh cmd Acc_shell = acc_step cmd"
| "cli_step L now fresh cmd Orders_shell = orders_step cmd"
| "cli_step L now fresh cmd (Use_addr t) =
     bindS (getS (\<lambda>w. u_address (logged_in w))) (\<lambda>a.
       order_addr2 (if \<not> says_no cmd then setShippingAddress a t else t))"
| "cli_step L now fresh cmd (Addr_name1 ctx) =
     (if blank cmd then addr_failed ctx else ret (Addr_name2 ctx cmd))"
| "cli_step L now fresh cmd (Addr_name2 ctx name1) =
     ret (Addr_street1 ctx (changeShippingName (two_lines name1 cmd) ShippingAddress_default))"
| "cli_step L now fresh cmd (Addr_street1 ctx a) =
     (if blank cmd then addr_failed ctx else ret (Addr_street2 ctx a cmd))"
| "cli_step L now fresh cmd (Addr_street2 ctx a street1) =
     ret (Addr_city ctx (changeStreet (two_lines street1 cmd) a))"
| "cli_step L now fresh cmd (Addr_city ctx a) =
     (if blank cmd then addr_failed ctx else ret (Addr_state ctx (changeCity cmd a)))"
| "cli_step L now fresh cmd (Addr_state ctx a) =
     (if blank cmd then addr_failed ctx else ret (Addr_zip ctx (changeState cmd a)))"
| "cli_step L now fresh cmd (Addr_zip ctx a) =
     on_invalid (stoul_uint cmd) (addr_failed ctx) (\<lambda>z. ret (Addr_country ctx (changeZip z a)))"
| "cli_step L now fresh cmd (Addr_country ctx a) =
     (if blank cmd then addr_failed ctx else ret (Addr_confirm ctx (changeCountry cmd a)))"
| "cli_step L now fresh cmd (Addr_confirm ctx a) = addr_confirm L ctx a cmd"
| "cli_step L now fresh cmd (Use_card t) =
     getS (\<lambda>w. order_cc2 (if \<not> says_no cmd then setPaymentInfo (u_payment (logged_in w)) t else t))"
| "cli_step L now fresh cmd (Card_num ctx) =
     on_invalid (stoul cmd) (card_failed ctx) (\<lambda>num. ret (Card_exp ctx cmd num))"
| "cli_step L now fresh cmd (Card_exp ctx num_s num) =
     (if blank cmd then card_failed ctx else ret (Card_cv2 ctx num_s num cmd))"
| "cli_step L now fresh cmd (Card_cv2 ctx num_s num ex) =
     on_invalid (stoul_uint num_s) (card_failed ctx)
       (\<lambda>cv2. ret (Card_confirm ctx (PaymentInfo num ex cv2)))"
| "cli_step L now fresh cmd (Card_confirm ctx cc) = card_confirm L ctx cc cmd"
| "cli_step L now fresh cmd (Place_order t) =
     (if \<not> says_no cmd then bindS (chargeCreditCard L now t) (\<lambda>_. show_main) else show_cart)"
| "cli_step L now fresh cmd Exited = ret Exited"

text \<open>
  From the login to the first prompt. Only \<open>system_error\<close> is caught there; it ends the program.
\<close>

definition session_start :: "uuid_lib \<Rightarrow> string \<Rightarrow> (world, menu) op" where
  "session_start L username w =
     (case getUser L username w of
        (Inl (System_error c), w') \<Rightarrow> (Inr Exited, w')
      | (Inl e, w') \<Rightarrow> (Inl e, w')
      | (Inr u, w') \<Rightarrow> show_main (w'\<lparr>logged_in := u\<rparr>))"

inductive reach :: "uuid_lib \<Rightarrow> menu \<Rightarrow> world \<Rightarrow> bool" for L where
  start: "session_start L username w0 = (Inr m, w) \<Longrightarrow> reach L m w"
| step: "reach L m w \<Longrightarrow> m \<noteq> Exited \<Longrightarrow> cli_step L now fresh cmd m w = (Inr m', w') \<Longrightarrow> reach L m' w'"

end
