(* ===== verification/Cli_Laws.thy ===== *)
theory Cli_Laws
  imports Cli
begin

text \<open>
  Invariants of the console session, by rule induction over its reachable states: the logged-in
  user can always be stored, every cart entry holds a complete product under its own UPC, and an
  order that has reached a later stage of the checkout still is the cart, with valid quantities.
\<close>

section \<open>Addresses and carts that come out of storage\<close>

lemma s_mark_ok:
  assumes "address_ok a" and "f AND S_ALL_SET = f" and "f AND S_ZIP_SET = 0"
  shows "address_ok (s_mark f a)"
proof -
  have all: "s_parts_set a = S_ALL_SET \<Longrightarrow> s_parts_set a OR f = S_ALL_SET"
    using or_absorb_mask[OF assms(2)] by simp
  have zp: "(s_parts_set a OR f) AND S_ZIP_SET = s_parts_set a AND S_ZIP_SET"
    by (simp add: bit.conj_disj_distrib2 assms(3))
  show ?thesis
    using assms all zp or_subset_mask[of "s_parts_set a" S_ALL_SET f]
    by (auto simp: address_ok_def s_mark_def Let_def)
qed

lemma address_setters_ok:
  assumes "address_ok a"
  shows "address_ok (changeShippingName x a)" "address_ok (changeStreet x a)" "address_ok (changeCity x a)"
    "address_ok (changeState x a)" "address_ok (changeCountry x a)"
proof -
  have upd: "address_ok (a\<lparr>shipping_name := x\<rparr>)" "address_ok (a\<lparr>street := x\<rparr>)" "address_ok (a\<lparr>city := x\<rparr>)"
    "address_ok (a\<lparr>state := x\<rparr>)" "address_ok (a\<lparr>country := x\<rparr>)"
    using assms by (simp_all add: address_ok_def)
  show "address_ok (changeShippingName x a)" "address_ok (changeStreet x a)" "address_ok (changeCity x a)"
    "address_ok (changeState x a)" "address_ok (changeCountry x a)"
    by (simp_all add: changeShippingName_def changeStreet_def changeCity_def changeState_def
        changeCountry_def s_mark_ok upd S_flags)
qed

lemma changeZip_ok: "address_ok a \<Longrightarrow> address_ok (changeZip z a)"
proof -
  assume a: "address_ok a"
  have f: "S_ZIP_SET AND S_ALL_SET = S_ZIP_SET" by (simp add: S_flags)
  have all: "s_parts_set a = S_ALL_SET \<Longrightarrow> s_parts_set a OR S_ZIP_SET = S_ALL_SET"
    using or_absorb_mask[OF f] by simp
  show ?thesis
    using a all or_subset_mask[OF _ f, of "s_parts_set a"]
    by (auto simp: address_ok_def changeZip_def s_mark_def Let_def)
qed

lemma address_ok_default [simp]: "address_ok ShippingAddress_default" "address_ok (ShippingAddress nm st ct sa z cn)"
  by (simp_all add: address_ok_def ShippingAddress_default_def ShippingAddress_def S_flags)

lemma opt_field_ok: "(\<And>x a. address_ok a \<Longrightarrow> address_ok (f x a)) \<Longrightarrow> address_ok a \<Longrightarrow> address_ok (opt_field db n k f a)"
  by (simp add: opt_field_def split: option.split)

lemma read_address_ok:
  assumes "read_address db n = Inr a"
  shows "address_ok a"
proof -
  define a4 where "a4 = opt_field db n ''shipaddr_state'' changeState (opt_field db n ''shipaddr_city'' changeCity
    (opt_field db n ''shipaddr_street'' changeStreet (opt_field db n ''shipaddr_name'' changeShippingName ShippingAddress_default)))"
  have "address_ok a4" unfolding a4_def by (intro opt_field_ok address_setters_ok) simp_all
  then show ?thesis
    using assms unfolding read_address_def Let_def a4_def[symmetric]
    by (auto split: option.splits sum.splits intro!: opt_field_ok address_setters_ok changeZip_ok)
qed

lemma s_is_set_zip: "address_ok a \<Longrightarrow> s_is_set a \<Longrightarrow> zip a \<noteq> None"
  by (auto simp: address_ok_def S_flags)

lemma storeUser_storable: "storeUser L u w = (Inr x, w') \<Longrightarrow> user_storable u"
  by (auto simp: storeUser_def address_row_def payment_row_def user_storable_def
      split: if_splits option.splits sum.splits)

lemma getProduct_complete: "getProduct upc w = (Inr p, w') \<Longrightarrow> p_is_set p \<and> p_UPC p = upc"
proof -
  assume a: "getProduct upc w = (Inr p, w')"
  have full: "set_quantity q (setPrice x (setCategory c (setName n (setUPC u Product_default)))) = Product u n x c q"
    for u n x c q by (rule all_parts_complete) (simp add: Product_default_def)
  from a show ?thesis
    by (auto simp: getProduct_def Let_def full bindS_lift_split setQuantity_def bindS_def ret_def Product_def
        split: sum.splits prod.splits)
qed

lemma cart_complete_set: "cart_complete c \<Longrightarrow> p_is_set p \<Longrightarrow> cart_complete (cart_set p q c)"
proof -
  assume c: "cart_complete c" and p: "p_is_set p"
  have "set (cart_set p q c) \<subseteq> insert (p_UPC p, p, q) (set c)"
    using set_map_put[of "p_UPC p" "(p, q)" "map_erase (p_UPC p) c"]
      set_map_put[of "p_UPC p" "(p, q)" c] set_map_erase[of "p_UPC p" c]
    by (auto simp: cart_set_def Let_def)
  then show ?thesis using c p by (auto simp: cart_complete_def cart_ok_set list_all_iff)
qed

lemma cart_complete_erase: "cart_complete c \<Longrightarrow> cart_complete (map_erase k c)"
  using set_map_erase[of k c] by (auto simp: cart_complete_def cart_ok_erase list_all_iff)

lemma cart_complete_put1:
  "cart_complete c \<Longrightarrow> p_is_set p \<Longrightarrow> cart_complete (map_put (p_UPC p) (p, 1) c)"
  using cart_complete_set[of c p 1] by (simp add: cart_set_def)

lemma read_cart_line_complete:
  "read_cart_line s c w = (Inr c', w') \<Longrightarrow> cart_complete c \<Longrightarrow> cart_complete c'"
  by (auto simp: read_cart_line_def bindS_lift_split throw_def ret_def split: list.splits sum.splits
      elim!: bindS_Inr dest!: getProduct_complete intro: cart_complete_set)

lemma foldS_cart_complete:
  "foldS read_cart_line ss c w = (Inr c', w') \<Longrightarrow> cart_complete c \<Longrightarrow> cart_complete c'"
  by (induction ss arbitrary: c w) (auto simp: ret_def elim!: bindS_Inr dest: read_cart_line_complete)

lemma read_cart_complete: "read_cart s w = (Inr c, w') \<Longrightarrow> cart_complete c"
  using foldS_cart_complete[of "split s (CHR 0x0A)" "[]" w c w'] by (simp add: read_cart_def cart_complete_def)

section \<open>The invariant\<close>

definition user_inv :: "user \<Rightarrow> bool" where
  "user_inv u \<longleftrightarrow> user_storable u \<and> address_ok (u_address u) \<and> cart_complete (u_cart u)"

text \<open>An order under way: the user's cart, not empty, with valid quantities and its total.\<close>

definition order_inv :: "transaction \<Rightarrow> world \<Rightarrow> bool" where
  "order_inv t w \<longleftrightarrow> t_cart t = u_cart (logged_in w) \<and> t_cart t \<noteq> [] \<and> cart_valid (t_cart t) \<and>
     transaction_amount t = cart_total (t_cart t) \<and> address_ok (t_address t) \<and>
     (pay_is_set (t_payment t) \<longrightarrow> cc_num (t_payment t) \<noteq> None \<and> cc_cv2 (t_payment t) \<noteq> None)"

fun ctx_inv :: "form_ctx \<Rightarrow> world \<Rightarrow> bool" where
  "ctx_inv (For_order t) w = order_inv t w"
| "ctx_inv For_account w = True"

text \<open>In the card dialogue of a checkout the order has its address already.\<close>

fun card_ctx_inv :: "form_ctx \<Rightarrow> world \<Rightarrow> bool" where
  "card_ctx_inv (For_order t) w = (order_inv t w \<and> s_is_set (t_address t))"
| "card_ctx_inv For_account w = True"

text \<open>The parts of the address a stage of the dialogue has filled in.\<close>

definition addr_upto :: "u32 \<Rightarrow> shipping_address \<Rightarrow> bool" where
  "addr_upto ps a \<longleftrightarrow> address_ok a \<and> s_parts_set a = ps"

fun menu_inv :: "menu \<Rightarrow> world \<Rightarrow> bool" where
  "menu_inv (Cart_shell iq) w = (iq = (\<not> cart_valid (u_cart (logged_in w))))"
| "menu_inv (Use_addr t) w = order_inv t w"
| "menu_inv (Addr_name1 ctx) w = ctx_inv ctx w"
| "menu_inv (Addr_name2 ctx s) w = ctx_inv ctx w"
| "menu_inv (Addr_street1 ctx a) w = (ctx_inv ctx w \<and> addr_upto 1 a)"
| "menu_inv (Addr_street2 ctx a s) w = (ctx_inv ctx w \<and> addr_upto 1 a)"
| "menu_inv (Addr_city ctx a) w = (ctx_inv ctx w \<and> addr_upto 3 a)"
| "menu_inv (Addr_state ctx a) w = (ctx_inv ctx w \<and> addr_upto 7 a)"
| "menu_inv (Addr_zip ctx a) w = (ctx_inv ctx w \<and> addr_upto 15 a)"
| "menu_inv (Addr_country ctx a) w = (ctx_inv ctx w \<and> addr_upto 31 a)"
| "menu_inv (Addr_confirm ctx a) w = (ctx_inv ctx w \<and> addr_upto 63 a)"
| "menu_inv (Use_card t) w = (order_inv t w \<and> s_is_set (t_address t))"
| "menu_inv (Card_num ctx) w = card_ctx_inv ctx w"
| "menu_inv (Card_exp ctx s n) w = card_ctx_inv ctx w"
| "menu_inv (Card_cv2 ctx s n ex) w = card_ctx_inv ctx w"
| "menu_inv (Card_confirm ctx cc) w = (card_ctx_inv ctx w \<and> (\<exists>n ex v. cc = PaymentInfo n ex v))"
| "menu_inv (Place_order t) w = (order_inv t w \<and> s_is_set (t_address t) \<and> pay_is_set (t_payment t))"
| "menu_inv _ w = True"

definition cli_inv :: "menu \<Rightarrow> world \<Rightarrow> bool" where
  "cli_inv m w \<longleftrightarrow> m = Exited \<or> (user_inv (logged_in w) \<and> menu_inv m w)"

text \<open>
  An operation that, from a state with \<open>P\<close>, either ends in an exception other than
  \<open>runtime_error\<close> or reaches a prompt and a state related by the invariant.
\<close>

definition keeps :: "(world \<Rightarrow> bool) \<Rightarrow> (world, 'a) op \<Rightarrow> ('a \<Rightarrow> world \<Rightarrow> bool) \<Rightarrow> bool" where
  "keeps P m Q \<longleftrightarrow> (\<forall>w. P w \<longrightarrow> (case m w of
       (Inr x, w') \<Rightarrow> Q x w' | (Inl e, w') \<Rightarrow> (\<forall>s. e \<noteq> Runtime_error s)))"

lemma keepsD: "keeps P m Q \<Longrightarrow> P w \<Longrightarrow> m w = (Inr x, w') \<Longrightarrow> Q x w'"
  by (fastforce simp: keeps_def)

lemma keeps_no_runtime_error: "keeps P m Q \<Longrightarrow> P w \<Longrightarrow> m w \<noteq> (Inl (Runtime_error s), w')"
  by (auto simp: keeps_def)

lemma keeps_ret [intro]: "(\<And>w. P w \<Longrightarrow> Q x w) \<Longrightarrow> keeps P (ret x) Q"
  by (simp add: keeps_def ret_def)

lemma keeps_getS [intro]: "(\<And>w. P w \<Longrightarrow> Q (f w) w) \<Longrightarrow> keeps P (getS f) Q"
  by (simp add: keeps_def getS_def)

lemma keeps_modS [intro]: "(\<And>w. P w \<Longrightarrow> Q () (f w)) \<Longrightarrow> keeps P (modS f) Q"
  by (simp add: keeps_def modS_def)

lemma keeps_throw [intro]: "(\<And>s. e \<noteq> Runtime_error s) \<Longrightarrow> keeps P (throw e) Q"
  by (simp add: keeps_def throw_def)

lemma keeps_bindS: "keeps P m R \<Longrightarrow> (\<And>x. keeps (R x) (f x) Q) \<Longrightarrow> keeps P (bindS m f) Q"
  unfolding keeps_def bindS_def by (fastforce split: prod.splits sum.splits)

lemma keeps_weaken: "keeps P m Q \<Longrightarrow> (\<And>w. P' w \<Longrightarrow> P w) \<Longrightarrow> (\<And>x w. Q x w \<Longrightarrow> Q' x w) \<Longrightarrow> keeps P' m Q'"
  unfolding keeps_def by (fastforce split: prod.splits sum.splits)

lemma keeps_if: "(b \<Longrightarrow> keeps P m Q) \<Longrightarrow> (\<not> b \<Longrightarrow> keeps P n Q) \<Longrightarrow> keeps P (if b then m else n) Q"
  by simp

lemma stoul_no_runtime: "stoul s \<noteq> Inl (Runtime_error e)" "stoul_uint s \<noteq> Inl (Runtime_error e)"
  by (auto simp: stoul_def stoul_uint_def Let_def split: prod.splits sum.splits)

lemma keeps_on_invalid:
  assumes "keeps P h Q" and "\<And>x. r = Inr x \<Longrightarrow> keeps P (f x) Q" and "\<And>s. r \<noteq> Inl (Runtime_error s)"
  shows "keeps P (on_invalid r h f) Q"
  using assms by (auto simp: on_invalid_def keeps_throw split: sum.split exn.split)


section \<open>Every handler keeps the invariant\<close>

lemma getProduct_no_runtime: "getProduct upc w \<noteq> (Inl (Runtime_error s), w')"
proof
  assume a: "getProduct upc w = (Inl (Runtime_error s), w')"
  have "stof v \<noteq> Inl (Runtime_error s)" for v
    by (auto simp: stof_def stof_scaled_def Let_def split: prod.splits option.splits f32.splits if_splits)
  moreover have "storeProduct p v \<noteq> (Inl e, v')" for p v e v'
    using storeProduct_succeeds[of p v] by (cases "p_is_set p") (auto simp: storeProduct_def[of p] split: if_splits)
  ultimately show False
    using a stoul_no_runtime
    by (auto simp: getProduct_def Let_def bindS_lift_split setQuantity_def bindS_def[of "storeProduct _"] ret_def
        split: sum.splits prod.splits)
qed

lemma keeps_getProduct:
  "keeps (\<lambda>w. R (logged_in w)) (getProduct upc) (\<lambda>p w. R (logged_in w) \<and> p_is_set p \<and> p_UPC p = upc)"
  unfolding keeps_def
  by (auto split: prod.split sum.split dest: getProduct_complete getProduct_frame(3) simp: getProduct_no_runtime)

lemma stoul_all_no_runtime: "stoul_all ss \<noteq> Inl (Runtime_error s)"
  by (induction ss) (auto split: sum.splits simp: stoul_no_runtime)

lemma keeps_show_main: "keeps (\<lambda>w. R (logged_in w)) show_main (\<lambda>m w. m = Main_shell \<and> R (logged_in w))"
proof -
  have list: "keeps (\<lambda>w. R (logged_in w)) (foldS (\<lambda>upc _. bindS (getProduct upc) (\<lambda>_. ret ())) upcs ())
      (\<lambda>_ w. R (logged_in w))" for upcs
  proof (induction upcs)
    case (Cons u us)
    have "keeps (\<lambda>w. R (logged_in w)) (bindS (getProduct u) (\<lambda>_. ret ())) (\<lambda>_ w. R (logged_in w))"
      by (rule keeps_bindS[OF keeps_getProduct]) auto
    then show ?case using Cons by (auto intro: keeps_bindS)
  qed auto
  have "keeps (\<lambda>w. R (logged_in w)) getProducts (\<lambda>_ w. R (logged_in w))"
    by (auto simp: keeps_def getProducts_def stoul_all_no_runtime split: sum.split)
  then show ?thesis
    unfolding show_main_def by (rule keeps_bindS) (rule keeps_bindS[OF list], auto)
qed

abbreviation "uinv \<equiv> \<lambda>w. user_inv (logged_in w)"

lemma keeps_show_main_inv: "keeps uinv show_main cli_inv"
  by (rule keeps_weaken[OF keeps_show_main[of user_inv]]) (auto simp: cli_inv_def)

lemma keeps_show_cart: "keeps uinv show_cart cli_inv"
  by (auto simp: show_cart_def cli_inv_def)

lemma keeps_cart_op:
  assumes "\<And>w. uinv w \<Longrightarrow> P w \<Longrightarrow> \<exists>c. cart_op m w c \<and> cart_complete c"
  shows "keeps (\<lambda>w. uinv w \<and> P w) m (\<lambda>_. uinv)"
proof -
  have "case m w of (Inr x, w') \<Rightarrow> uinv w' | (Inl e, w') \<Rightarrow> \<forall>s. e \<noteq> Runtime_error s"
    if w: "uinv w" "P w" for w
  proof -
    from assms[OF w] obtain c db where c: "cart_complete c"
      "m w = (Inr This_logged_in, (set_logged_cart c w)\<lparr>users_db := Some db\<rparr>)"
      by (auto simp: cart_op_def)
    then show ?thesis using w by (simp add: user_inv_def)
  qed
  then show ?thesis by (simp add: keeps_def)
qed

lemma keeps_deleteProduct: "keeps uinv (deleteProduct L upc This_logged_in) (\<lambda>_. uinv)"
  using keeps_cart_op[of "\<lambda>_. True"] deleteProduct_logged_in cart_complete_erase
  by (fastforce simp: user_inv_def)

lemma keeps_emptyCart: "keeps uinv (emptyCart L This_logged_in) (\<lambda>_. uinv)"
  using keeps_cart_op[of "\<lambda>_. True"] emptyCart_logged_in
  by (fastforce simp: user_inv_def cart_complete_def)

lemma keeps_addProduct_qty: "p_is_set p \<Longrightarrow> keeps uinv (addProduct_qty L p q This_logged_in) (\<lambda>_. uinv)"
  using keeps_cart_op[of "\<lambda>_. True"] addProduct_qty_logged_in cart_complete_set
  by (fastforce simp: user_inv_def)

lemma keeps_addProduct: 
  assumes "p_is_set p"
  shows "keeps uinv (addProduct L p This_logged_in) (\<lambda>_. uinv)"
proof -
  have "case addProduct L p This_logged_in w of (Inr x, w') \<Rightarrow> uinv w' | (Inl e, w') \<Rightarrow> \<forall>s. e \<noteq> Runtime_error s"
    if w: "uinv w" for w
  proof (cases "checkCart (p_UPC p) (u_cart (logged_in w))")
    case True
    then show ?thesis using w by (simp add: addProduct_def bindS_def getS_def ret_def)
  next
    case False
    let ?c = "map_put (p_UPC p) (p, 1) (u_cart (logged_in w))"
    obtain db where "update_cart L ?c This_logged_in w = (Inr This_logged_in, (set_logged_cart ?c w)\<lparr>users_db := Some db\<rparr>)"
      using update_cart_logged_in[of w L ?c] w by (auto simp: user_inv_def simp del: update_cart.simps)
    then show ?thesis
      using False w cart_complete_put1[OF _ assms, of "u_cart (logged_in w)"]
      by (simp add: addProduct_def bindS_def[of "getS _"] getS_def user_inv_def del: update_cart.simps)
  qed
  then show ?thesis by (simp add: keeps_def)
qed

lemma keeps_run:
  "keeps P m Q \<Longrightarrow> P w \<Longrightarrow>
   case m w of (Inr x, w') \<Rightarrow> Q x w' | (Inl e, w') \<Rightarrow> (\<forall>s. e \<noteq> Runtime_error s)"
  by (simp add: keeps_def)

lemma find_product_lookup:
  assumes "bindS (lift (stoul s)) getProduct w = (r, w')"
  shows "logged_in w' = logged_in w" "r \<noteq> Inl (Runtime_error e)" "r = Inr p \<Longrightarrow> p_is_set p"
  using assms stoul_no_runtime(1)[of s e] getProduct_no_runtime[of _ w e w']
  by (cases "stoul s"; auto simp: throw_def dest: getProduct_frame(3) getProduct_complete)+

lemma keeps_find_product:
  assumes "\<And>p. p_is_set p \<Longrightarrow> keeps uinv (f p) cli_inv"
  shows "keeps uinv (find_product s f) cli_inv"
proof -
  have "case find_product s f w of (Inr m, w') \<Rightarrow> cli_inv m w' | (Inl e, w') \<Rightarrow> \<forall>s. e \<noteq> Runtime_error s"
    if w: "uinv w" for w
  proof (cases "bindS (lift (stoul s)) getProduct w")
    case (Pair r w')
    note lk = find_product_lookup[OF Pair]
    have w': "uinv w'" using w lk(1) by simp
    show ?thesis
    proof (cases r)
      case (Inr p)
      then show ?thesis using Pair keeps_run[OF assms w', of p] lk(3) by (simp add: find_product_def)
    next
      case (Inl e)
      then show ?thesis using Pair keeps_run[OF keeps_show_main_inv w'] lk(2)
        by (cases e) (simp_all add: find_product_def)
    qed
  qed
  then show ?thesis by (simp add: keeps_def)
qed

lemma keeps_main_step: "keeps uinv (main_step L cmd) cli_inv"
proof -
  have add: "keeps uinv (add_to_cart L p q) cli_inv" if "p_is_set p" for p q
    unfolding add_to_cart_def
    by (rule keeps_bindS[where R = "\<lambda>_. uinv"])
      (use that in \<open>auto simp: cli_inv_def intro: keeps_addProduct keeps_addProduct_qty\<close>)
  have "keeps uinv (find_product upc_s (\<lambda>p. case rest of [] \<Rightarrow> add_to_cart L p 1
      | qty_s # _ \<Rightarrow> on_invalid (stoul_uint qty_s) (ret Main_shell) (add_to_cart L p))) cli_inv" for upc_s rest
    by (rule keeps_find_product)
      (auto split: list.split intro!: keeps_on_invalid add simp: stoul_no_runtime cli_inv_def)
  then have args: "keeps uinv (case as of [] \<Rightarrow> ret Main_shell | upc_s # rest \<Rightarrow>
      find_product upc_s (\<lambda>p. case rest of [] \<Rightarrow> add_to_cart L p 1
      | qty_s # _ \<Rightarrow> on_invalid (stoul_uint qty_s) (ret Main_shell) (add_to_cart L p))) cli_inv" for as
    by (cases as) (auto simp: cli_inv_def)
  have rets: "keeps uinv (ret Main_shell) cli_inv" "keeps uinv (ret Acc_shell) cli_inv"
    "keeps uinv (ret Exited) cli_inv"
    by (auto simp: cli_inv_def)
  show ?thesis
    unfolding main_step_def
    by (cases "split cmd (CHR '' '')") (simp_all only: list.case, intro rets, intro keeps_if args rets keeps_show_cart)
qed

section \<open>The checkout\<close>

abbreviation "oinv t \<equiv> \<lambda>w. uinv w \<and> order_inv t w"

lemma keeps_order_cc: "s_is_set (t_address t) \<Longrightarrow> keeps (oinv t) (order_cc t) cli_inv"
  unfolding order_cc_def by (rule keeps_getS) (auto simp: cli_inv_def order_cc2_def)

lemma keeps_order_addr2: "keeps (oinv t) (order_addr2 t) cli_inv"
  unfolding order_addr2_def by (auto simp: cli_inv_def intro: keeps_order_cc)

lemma keeps_order_addr: "keeps (oinv t) (order_addr t) cli_inv"
  unfolding order_addr_def
  by (rule keeps_bindS[where R = "\<lambda>_. oinv t"]) (auto simp: cli_inv_def intro: keeps_order_addr2)

lemma keeps_addr_failed: "keeps (\<lambda>w. uinv w \<and> ctx_inv ctx w) (addr_failed ctx) cli_inv"
  by (cases ctx) (auto simp: cli_inv_def intro: keeps_order_addr)

lemma keeps_card_failed: "keeps (\<lambda>w. uinv w \<and> card_ctx_inv ctx w) (card_failed ctx) cli_inv"
proof (cases ctx)
  case (For_order t)
  then show ?thesis
    using keeps_weaken[OF keeps_order_cc[of t]]
    by (cases "s_is_set (t_address t)") (auto, simp add: keeps_def)
qed (auto simp: cli_inv_def)

lemma keeps_buyCart:
  "keeps (\<lambda>w. uinv w \<and> cart_valid (u_cart (logged_in w)) \<and> u_cart (logged_in w) \<noteq> [])
     (buyCart fresh This_logged_in) oinv"
  by (auto simp: keeps_def buyCart_def bindS_def getS_def ret_def order_inv_def Transaction_def
      PaymentInfo_default_def)

lemma keeps_cart_remove:
  "keeps (\<lambda>w. uinv w \<and> menu_inv (Cart_shell iq) w) (cart_remove L iq args) cli_inv"
proof (cases args)
  case Nil
  then show ?thesis by (auto simp: cart_remove_def cli_inv_def)
next
  case (Cons s rest)
  have del: "keeps uinv (bindS (deleteProduct L upc This_logged_in) (\<lambda>_. show_cart)) cli_inv" for upc
    by (rule keeps_bindS[OF keeps_deleteProduct keeps_show_cart])
  have body: "keeps uinv (on_invalid (stoul s) show_cart (\<lambda>upc. if \<not> checkCart upc c then show_cart
      else bindS (deleteProduct L upc This_logged_in) (\<lambda>_. show_cart))) cli_inv" for c
    by (rule keeps_on_invalid) (auto simp: stoul_no_runtime intro: keeps_show_cart del)
  show ?thesis
    unfolding cart_remove_def Cons list.case
    by (rule keeps_bindS[where R = "\<lambda>_ w. uinv w \<and> menu_inv (Cart_shell iq) w"])
      (auto simp: cli_inv_def intro!: keeps_weaken[OF body])
qed

lemma keeps_cart_changeqty:
  "keeps (\<lambda>w. uinv w \<and> menu_inv (Cart_shell iq) w) (cart_changeqty L iq args) cli_inv"
proof -
  let ?P = "\<lambda>w. uinv w \<and> menu_inv (Cart_shell iq) w"
  have cq: "keeps uinv (changeQuantity L upc q This_logged_in) (\<lambda>_. uinv)" for upc q
    unfolding changeQuantity_def
  proof (rule keeps_bindS[OF keeps_getProduct[of user_inv]])
    fix p
    show "keeps (\<lambda>w. uinv w \<and> p_is_set p \<and> p_UPC p = upc) (addProduct_qty L p q This_logged_in) (\<lambda>_. uinv)"
      using keeps_addProduct_qty[of p L q] by (cases "p_is_set p") (auto intro: keeps_weaken simp: keeps_def)
  qed
  have cs: "keeps ?P show_cart cli_inv"
    by (rule keeps_weaken[OF keeps_show_cart]) auto
  have ch: "keeps ?P (bindS (changeQuantity L upc q This_logged_in) (\<lambda>_. show_cart)) cli_inv" for upc q
    by (rule keeps_weaken[OF keeps_bindS[OF cq keeps_show_cart]]) auto
  have body: "keeps ?P (on_invalid (stoul s) show_cart (\<lambda>upc. on_invalid (stoul_uint q) (ret (Cart_shell iq)) (\<lambda>n.
      if \<not> checkCart upc c then show_cart
      else bindS (changeQuantity L upc n This_logged_in) (\<lambda>_. show_cart)))) cli_inv" for s q c
    by (rule keeps_on_invalid[OF cs keeps_on_invalid])
      (auto simp: stoul_no_runtime cli_inv_def intro: cs[simplified] ch[simplified])
  have "keeps ?P (bindS (getS (\<lambda>w. u_cart (logged_in w))) (\<lambda>c. if c = [] then ret (Cart_shell iq)
      else on_invalid (stoul s) show_cart (\<lambda>upc. on_invalid (stoul_uint q) (ret (Cart_shell iq)) (\<lambda>n.
      if \<not> checkCart upc c then show_cart
      else bindS (changeQuantity L upc n This_logged_in) (\<lambda>_. show_cart))))) cli_inv" for s q
    by (rule keeps_bindS[where R = "\<lambda>_. ?P"]) (auto simp: cli_inv_def intro!: body[simplified])
  then show ?thesis
    unfolding cart_changeqty_def by (auto split: list.split simp: cli_inv_def)
qed

lemma keeps_cart_step:
  "keeps (\<lambda>w. uinv w \<and> menu_inv (Cart_shell iq) w) (cart_step L fresh iq cmd) cli_inv"
proof -
  let ?P = "\<lambda>c w. uinv w \<and> menu_inv (Cart_shell iq) w \<and> c = u_cart (logged_in w)"
  have main: "keeps (?P c) show_main cli_inv" for c
    by (rule keeps_weaken[OF keeps_show_main_inv]) auto
  have cart: "keeps (?P c) show_cart cli_inv" for c
    by (rule keeps_weaken[OF keeps_show_cart]) auto
  have clear: "keeps (?P c) (bindS (emptyCart L This_logged_in) (\<lambda>_. show_main)) cli_inv" for c
    by (rule keeps_weaken[OF keeps_bindS[OF keeps_emptyCart keeps_show_main_inv]]) auto
  have buy: "keeps (?P c) (bindS (buyCart fresh This_logged_in) order_addr) cli_inv" if "c \<noteq> []" "\<not> iq" for c
    by (rule keeps_weaken[OF keeps_bindS[OF keeps_buyCart keeps_order_addr]]) (use that in auto)
  have rem: "keeps (?P c) (cart_remove L iq args) cli_inv" "keeps (?P c) (cart_changeqty L iq args) cli_inv" for c args
    by (rule keeps_weaken[OF keeps_cart_remove] keeps_weaken[OF keeps_cart_changeqty], auto)+
  have rets: "keeps (?P c) (ret (Cart_shell iq)) cli_inv" "keeps (?P c) (ret Exited) cli_inv" for c
    by (auto simp: cli_inv_def)
  have body: "keeps (?P c) (case split cmd (CHR '' '') of [] \<Rightarrow> ret (Cart_shell iq)
      | cm # args \<Rightarrow>
          if cm = ''exit'' then ret Exited
          else if cm = ''back'' then show_main
          else if cm = ''remove'' then cart_remove L iq args
          else if cm = ''changeqty'' then cart_changeqty L iq args
          else if cm = ''clear'' then
            (if c = [] then ret (Cart_shell iq)
             else bindS (emptyCart L This_logged_in) (\<lambda>_. show_main))
          else if cm = ''checkout'' then
            (if c = [] then ret (Cart_shell iq)
             else if iq then show_cart
             else bindS (buyCart fresh This_logged_in) order_addr)
          else ret (Cart_shell iq)) cli_inv" for c
    by (cases "split cmd (CHR '' '')")
      (simp_all only: list.case, intro rets, intro keeps_if rets main cart clear rem buy)
  show ?thesis
    unfolding cart_step_def by (rule keeps_bindS[where R = ?P, OF keeps_getS body]) simp
qed

section \<open>The dialogues\<close>

lemma keeps_change_address:
  assumes "addr_upto 63 a"
  shows "keeps (\<lambda>w. uinv w \<and> ctx_inv ctx w) (logged_in_changeShippingAddress L a) (\<lambda>_ w. uinv w \<and> ctx_inv ctx w)"
proof -
  have zip: "zip a \<noteq> None" using assms by (auto simp: addr_upto_def address_ok_def S_flags)
  have "case logged_in_changeShippingAddress L a w of (Inr x, w') \<Rightarrow> uinv w' \<and> ctx_inv ctx w'
      | (Inl e, w') \<Rightarrow> \<forall>s. e \<noteq> Runtime_error s" if w: "uinv w" "ctx_inv ctx w" for w
  proof -
    let ?w = "w\<lparr>logged_in := (logged_in w)\<lparr>u_address := a\<rparr>\<rparr>"
    have inv: "user_inv (logged_in ?w)"
      using w assms zip by (auto simp: user_inv_def user_storable_def addr_upto_def)
    then obtain db where "storeUser L (logged_in ?w) ?w = (Inr 1, ?w\<lparr>users_db := Some db\<rparr>)"
      using storeUser_succeeds[of "logged_in ?w" L ?w] by (auto simp: user_inv_def)
    then show ?thesis
      using inv w by (cases ctx) (auto simp: logged_in_changeShippingAddress_def bindS_def modS_def getS_def order_inv_def)
  qed
  then show ?thesis by (simp add: keeps_def)
qed

lemma keeps_change_card:
  "keeps (\<lambda>w. uinv w \<and> card_ctx_inv ctx w) (logged_in_changeCreditCard L (PaymentInfo n ex v))
     (\<lambda>_ w. uinv w \<and> card_ctx_inv ctx w)"
proof -
  have "case logged_in_changeCreditCard L (PaymentInfo n ex v) w of (Inr x, w') \<Rightarrow> uinv w' \<and> card_ctx_inv ctx w'
      | (Inl e, w') \<Rightarrow> \<forall>s. e \<noteq> Runtime_error s" if w: "uinv w" "card_ctx_inv ctx w" for w
  proof -
    let ?w = "w\<lparr>logged_in := (logged_in w)\<lparr>u_payment := PaymentInfo n ex v\<rparr>\<rparr>"
    have inv: "user_inv (logged_in ?w)"
      using w by (auto simp: user_inv_def user_storable_def PaymentInfo_def)
    then obtain db where "storeUser L (logged_in ?w) ?w = (Inr 1, ?w\<lparr>users_db := Some db\<rparr>)"
      using storeUser_succeeds[of "logged_in ?w" L ?w] by (auto simp: user_inv_def)
    then show ?thesis
      using inv w by (cases ctx) (auto simp: logged_in_changeCreditCard_def bindS_def modS_def getS_def order_inv_def)
  qed
  then show ?thesis by (simp add: keeps_def)
qed

lemma keeps_addr_confirm:
  "keeps (\<lambda>w. uinv w \<and> menu_inv (Addr_confirm ctx a) w) (addr_confirm L ctx a cmd) cli_inv"
proof (cases "addr_upto 63 a")
  case True
  then have set: "s_is_set a" "address_ok a" by (auto simp: addr_upto_def address_ok_def S_flags)
  have fail: "keeps (\<lambda>w. uinv w \<and> menu_inv (Addr_confirm ctx a) w) (addr_failed ctx) cli_inv"
    by (rule keeps_weaken[OF keeps_addr_failed]) auto
  have "keeps (\<lambda>w. uinv w \<and> ctx_inv ctx w) (case ctx of For_order t \<Rightarrow> order_cc (setShippingAddress a t)
      | For_account \<Rightarrow> ret Acc_shell) cli_inv"
  proof (cases ctx)
    case (For_order t)
    have "keeps (oinv t) (order_cc (setShippingAddress a t)) cli_inv"
      by (rule keeps_weaken[OF keeps_order_cc]) (use set in \<open>auto simp: setShippingAddress_def order_inv_def\<close>)
    with For_order show ?thesis by simp
  qed (auto simp: cli_inv_def)
  then have "keeps (\<lambda>w. uinv w \<and> menu_inv (Addr_confirm ctx a) w)
      (bindS (logged_in_changeShippingAddress L a) (\<lambda>_. case ctx of For_order t \<Rightarrow> order_cc (setShippingAddress a t)
      | For_account \<Rightarrow> ret Acc_shell)) cli_inv"
    by (intro keeps_weaken[OF keeps_bindS[OF keeps_change_address[OF True]]]) auto
  with fail show ?thesis by (simp add: addr_confirm_def)
qed (auto simp: keeps_def)

lemma keeps_card_confirm:
  "keeps (\<lambda>w. uinv w \<and> menu_inv (Card_confirm ctx cc) w) (card_confirm L ctx cc cmd) cli_inv"
proof (cases "\<exists>n ex v. cc = PaymentInfo n ex v")
  case True
  then obtain n ex v where cc: "cc = PaymentInfo n ex v" by auto
  have fail: "keeps (\<lambda>w. uinv w \<and> menu_inv (Card_confirm ctx cc) w) (addr_failed ctx) cli_inv"
    by (rule keeps_weaken[OF keeps_addr_failed[of ctx]]) (cases ctx; auto)+
  have "keeps (\<lambda>w. uinv w \<and> card_ctx_inv ctx w) (case ctx of For_order t \<Rightarrow> ret (Place_order (setPaymentInfo cc t))
      | For_account \<Rightarrow> ret Acc_shell) cli_inv"
    by (cases ctx) (auto simp: cli_inv_def setPaymentInfo_def order_inv_def cc PaymentInfo_def)
  then have "keeps (\<lambda>w. uinv w \<and> menu_inv (Card_confirm ctx cc) w)
      (bindS (logged_in_changeCreditCard L cc) (\<lambda>_. case ctx of For_order t \<Rightarrow> ret (Place_order (setPaymentInfo cc t))
      | For_account \<Rightarrow> ret Acc_shell)) cli_inv"
    unfolding cc by (intro keeps_weaken[OF keeps_bindS[OF keeps_change_card]]) auto
  with fail show ?thesis by (simp add: card_confirm_def)
qed (auto simp: keeps_def)

lemma keeps_place_order:
  "keeps (\<lambda>w. uinv w \<and> menu_inv (Place_order t) w) (bindS (chargeCreditCard L now t) (\<lambda>_. show_main)) cli_inv"
proof (rule keeps_bindS[OF _ keeps_show_main_inv])
  have "case chargeCreditCard L now t w of (Inr x, w') \<Rightarrow> uinv w' | (Inl e, w') \<Rightarrow> \<forall>s. e \<noteq> Runtime_error s"
    if w: "uinv w" "menu_inv (Place_order t) w" for w
  proof -
    have "cart_complete (t_cart t)" "cart_valid (t_cart t)" "order_ready t" "user_storable (logged_in w)"
      using w s_is_set_zip[of "t_address t"] by (auto simp: order_inv_def user_inv_def order_ready_def)
    from chargeCreditCard_ok[OF this, of L now] obtain x w' where
      "chargeCreditCard L now t w = (Inr x, w')"
      "logged_in w' = (logged_in w)\<lparr>u_cart := [], u_history := u_history (logged_in w) @ [x]\<rparr>"
      by blast
    then show ?thesis using w by (simp add: user_inv_def user_storable_def cart_complete_def)
  qed
  then show "keeps (\<lambda>w. uinv w \<and> menu_inv (Place_order t) w) (chargeCreditCard L now t) (\<lambda>_. uinv)"
    by (simp add: keeps_def)
qed


section \<open>Reachable states\<close>

lemma keeps_acc_step: "keeps uinv (acc_step cmd) cli_inv"
proof -
  have rets: "keeps uinv (ret Acc_shell) cli_inv" "keeps uinv (ret Exited) cli_inv"
    "keeps uinv (ret (Addr_name1 For_account)) cli_inv" "keeps uinv (ret (Card_num For_account)) cli_inv"
    "keeps uinv (getS (\<lambda>w. if u_history (logged_in w) = [] then Acc_shell else Orders_shell)) cli_inv"
    by (auto simp: cli_inv_def)
  show ?thesis
    unfolding acc_step_def
    by (cases "split cmd (CHR '' '')") (simp_all only: list.case, intro rets, intro keeps_if rets keeps_show_main_inv)
qed

lemma keeps_orders_step: "keeps uinv (orders_step cmd) cli_inv"
proof -
  have rets: "keeps uinv (ret Acc_shell) cli_inv" "keeps uinv (ret Exited) cli_inv"
    "keeps uinv (ret Orders_shell) cli_inv"
    by (auto simp: cli_inv_def)
  then have "keeps uinv (on_invalid (stoul c) (ret Orders_shell) (\<lambda>_. ret Orders_shell)) cli_inv" for c
    by (intro keeps_on_invalid stoul_no_runtime)
  then show ?thesis
    unfolding orders_step_def
    by (cases "split cmd (CHR '' '')") (simp_all only: list.case, intro rets, intro keeps_if rets)
qed

lemma parts_after:
  "s_parts_set (changeShippingName x a) = s_parts_set a OR 1" "s_parts_set (changeStreet x a) = s_parts_set a OR 2"
  "s_parts_set (changeCity x a) = s_parts_set a OR 4" "s_parts_set (changeState x a) = s_parts_set a OR 8"
  "s_parts_set (changeZip z a) = s_parts_set a OR 16" "s_parts_set (changeCountry x a) = s_parts_set a OR 32"
  by (simp_all add: address_setters S_flags Let_def)

lemma addr_upto_steps:
  "addr_upto 1 (changeShippingName x ShippingAddress_default)"
  "addr_upto 1 a \<Longrightarrow> addr_upto 3 (changeStreet x a)" "addr_upto 3 a \<Longrightarrow> addr_upto 7 (changeCity x a)"
  "addr_upto 7 a \<Longrightarrow> addr_upto 15 (changeState x a)" "addr_upto 15 a \<Longrightarrow> addr_upto 31 (changeZip z a)"
  "addr_upto 31 a \<Longrightarrow> addr_upto 63 (changeCountry x a)"
  by (simp_all add: addr_upto_def parts_after address_setters_ok changeZip_ok)
    (simp add: ShippingAddress_default_def)

lemma keeps_use_addr: "keeps (oinv t) (cli_step L now fresh cmd (Use_addr t)) cli_inv"
proof -
  have "keeps (\<lambda>w. oinv t w \<and> a = u_address (logged_in w))
      (order_addr2 (if \<not> says_no cmd then setShippingAddress a t else t)) cli_inv" for a
    by (rule keeps_weaken[OF keeps_order_addr2]) (auto simp: setShippingAddress_def order_inv_def user_inv_def)
  moreover have "keeps (oinv t) (getS (\<lambda>w. u_address (logged_in w)))
      (\<lambda>a w. oinv t w \<and> a = u_address (logged_in w))" by auto
  ultimately show ?thesis unfolding cli_step.simps by (intro keeps_bindS)
qed

lemma keeps_use_card:
  "keeps (\<lambda>w. uinv w \<and> menu_inv (Use_card t) w) (cli_step L now fresh cmd (Use_card t)) cli_inv"
  unfolding cli_step.simps
  by (rule keeps_getS)
    (auto simp: cli_inv_def order_cc2_def setPaymentInfo_def order_inv_def user_inv_def user_storable_def)

text \<open>Every step of the session keeps the invariant and raises no \<open>runtime_error\<close>.\<close>

lemma keeps_cli_step:
  "m \<noteq> Exited \<Longrightarrow> keeps (\<lambda>w. uinv w \<and> menu_inv m w) (cli_step L now fresh cmd m) cli_inv"
proof (induction L now fresh cmd m rule: cli_step.induct)
  case (1 L now fresh cmd)
  then show ?case using keeps_main_step by simp
next
  case (2 L now fresh cmd iq)
  then show ?case using keeps_cart_step by simp
next
  case (5 L now fresh cmd t)
  then show ?case using keeps_use_addr by simp
next
  case (14 L now fresh cmd ctx a)
  then show ?case using keeps_addr_confirm by simp
next
  case (15 L now fresh cmd t)
  then show ?case using keeps_use_card by simp
next
  case (18 L now fresh cmd ctx num_s num ex)
  have "keeps (\<lambda>w. uinv w \<and> card_ctx_inv ctx w) (ret (Card_confirm ctx (PaymentInfo num ex v))) cli_inv" for v
    by (rule keeps_ret) (simp add: cli_inv_def, blast)
  then show ?case
    by (auto simp: stoul_no_runtime intro!: keeps_on_invalid keeps_card_failed)
next
  case (19 L now fresh cmd ctx cc)
  then show ?case using keeps_card_confirm by simp
next
  case (20 L now fresh cmd t)
  have "keeps (\<lambda>w. uinv w \<and> menu_inv (Place_order t) w) show_cart cli_inv"
    by (rule keeps_weaken[OF keeps_show_cart]) auto
  then show ?case using keeps_place_order by simp
qed (auto simp: cli_inv_def stoul_no_runtime addr_upto_steps
    intro!: keeps_acc_step[THEN keeps_weaken] keeps_orders_step[THEN keeps_weaken] keeps_on_invalid
      keeps_addr_failed[THEN keeps_weaken] keeps_card_failed[THEN keeps_weaken])

lemma session_start_inv:
  assumes "session_start L username w = (Inr m, w')"
  shows "cli_inv m w'"
proof (cases "getUser L username w")
  case (Pair r w1)
  show ?thesis
  proof (cases r)
    case (Inl e)
    with Pair assms show ?thesis by (cases e) (simp_all add: session_start_def cli_inv_def)
  next
    case (Inr u)
    have "user_inv u"
      using Pair[unfolded Inr]
    proof (cases rule: getUser_stages)
      case (1 db orders w1 addr w2 w3 card c tid)
      show ?thesis
        using 1(6,8) read_address_ok[OF 1(3)] read_cart_complete[OF 1(7)] storeUser_storable[OF 1(5)]
        by (cases card) (auto simp: user_inv_def user_storable_def dest!: storeUser_storable)
    qed
    then have "uinv (w1\<lparr>logged_in := u\<rparr>)" by simp
    from keepsD[OF keeps_show_main_inv this] Pair Inr assms show ?thesis by (simp add: session_start_def)
  qed
qed

lemma reach_inv: "reach L m w \<Longrightarrow> cli_inv m w"
proof (induction rule: reach.induct)
  case (start username w0 m w)
  then show ?case by (rule session_start_inv)
next
  case (step m w now fresh cmd m' w')
  then have "uinv w \<and> menu_inv m w" by (simp add: cli_inv_def)
  then show ?case by (rule keepsD[OF keeps_cli_step[OF step.hyps(2)] _ step.hyps(3)])
qed

end
