(* ===== verification/Login.thy ===== *)
theory Login
  imports Cli_Laws
begin

text \<open>
  A user that was stored is the user the next login works with, but for the security code of
  the card; and a small store, with one user and one product, on which the session runs.
\<close>

section \<open>Logging in as a stored user\<close>

definition user_row :: "uuid_lib \<Rightarrow> user \<Rightarrow> u32 \<Rightarrow> u64 \<Rightarrow> u32 \<Rightarrow> (string \<times> string) list" where
  "user_row L u z num cv2 =
     [(''shipaddr_name'', shipping_name (u_address u)), (''shipaddr_street'', street (u_address u)),
      (''shipaddr_city'', city (u_address u)), (''shipaddr_state'', state (u_address u)),
      (''shipaddr_zip'', to_string z), (''shipaddr_country'', country (u_address u)),
      (''cc_num'', to_string num), (''cc_exp'', cc_exp (u_payment u)), (''cc_cv2'', to_string cv2),
      (''orders'', orders_to_string L (u_history u)), (''items_in_cart'', cart_to_string (u_cart u))]"

lemma user_row_keys: "distinct (map fst (user_row L u z num cv2))"
  by (simp add: user_row_def)

lemma storeUser_row:
  assumes "u_address u = ShippingAddress nm str cty st z cn" and "u_payment u = PaymentInfo num ex cv2"
  shows "storeUser L u w = (case store_row (user_name u) (user_row L u z num cv2) (users_db w) of
      Inl e \<Rightarrow> (Inl e, w) | Inr db \<Rightarrow> (Inr 1, w\<lparr>users_db := Some db\<rparr>))"
  using assms by (simp add: storeUser_def address_row_def payment_row_def user_row_def ShippingAddress_def
      PaymentInfo_def S_flags)

text \<open>
  A history whose orders are those of \<open>placed\<close>, by their ids: the rows of these orders are in the
  order database, and the lines of their carts can be read. It comes back as these orders are read.
\<close>

definition history_stored :: "uuid_lib \<Rightarrow> world \<Rightarrow> (u64 \<Rightarrow> product) \<Rightarrow> transaction_history \<Rightarrow> transaction list \<Rightarrow> bool" where
  "history_stored L w now h placed \<longleftrightarrow>
     list_all2 (\<lambda>t t0. is_finalized t \<and> transaction_id t = transaction_id t0 \<and> order_stored L w t0 \<and>
       lines_stored w now (t_cart t0)) h placed"

lemma orders_to_string_join:
  assumes "uuid_lib_ok L" and "\<forall>t \<in> set h. is_finalized t"
  shows "orders_to_string L h = join (CHR 0x0A) (map (\<lambda>t. uuid_unparse_lower L (transaction_id t)) h)"
proof (cases h)
  case (Cons t ts)
  have ne: "\<forall>x \<in> set ts. uuid_unparse_lower L (transaction_id x) \<noteq> []"
    using assms(1) by (simp add: uuid_lib_ok_def)
  have "foldl (\<lambda>s t. if \<not> is_finalized t then s else (if s \<noteq> [] then s @ [CHR 0x0A] else s) @
        uuid_unparse_lower L (transaction_id t)) s ts =
      foldl (\<lambda>s t. (if s \<noteq> [] then s @ [CHR 0x0A] else s) @ uuid_unparse_lower L (transaction_id t)) s ts" for s
    using assms(2) Cons by (intro foldl_cong) auto
  then show ?thesis
    using foldl_join[OF ne, of "uuid_unparse_lower L (transaction_id t)" "CHR 0x0A"] assms Cons
    by (simp add: orders_to_string_def uuid_lib_ok_def)
qed (simp add: orders_to_string_def)

lemma read_orders_stored:
  assumes "uuid_lib_ok L" and "history_stored L w now h placed"
  shows "\<exists>tid. foldS (read_order L) (split (orders_to_string L h) (CHR 0x0A)) (None, []) w =
    (Inr (tid, map (order_as_read now) placed), w)"
proof -
  let ?P = "\<lambda>t t0. is_finalized t \<and> transaction_id t = transaction_id t0 \<and> order_stored L w t0 \<and> lines_stored w now (t_cart t0)"
  have all: "list_all2 ?P h placed" using assms(2) by (simp add: history_stored_def)
  then have fin: "\<forall>t \<in> set h. is_finalized t" by (induction rule: list_all2_induct) auto
  have ids: "split (orders_to_string L h) (CHR 0x0A) = map (\<lambda>t. uuid_unparse_lower L (transaction_id t)) h"
    unfolding orders_to_string_join[OF assms(1) fin]
    by (rule split_join) (use assms(1) in \<open>auto simp: uuid_lib_ok_def\<close>)
  have "\<exists>tid. foldS (read_order L) (map (\<lambda>t. uuid_unparse_lower L (transaction_id t)) ts) (t0, pre) w =
      (Inr (tid, pre @ map (order_as_read now) ps), w)" if "list_all2 ?P ts ps" for ts ps t0 pre
    using that
  proof (induction arbitrary: t0 pre rule: list_all2_induct)
    case (Cons t ts p ps)
    have "read_order L (uuid_unparse_lower L (transaction_id t)) (t0, pre) w =
        (Inr (Some (transaction_id p), pre @ [order_as_read now p]), w)"
    proof -
      have "transaction_id t = transaction_id p" "getTransaction L (transaction_id p) w = (Inr (order_as_read now p), w)"
        using Cons.hyps(1) getTransaction_stored[of L w p now] by simp_all
      moreover have "uuid_parse L (uuid_unparse_lower L (transaction_id p)) = Some (transaction_id p)"
        using assms(1) by (simp add: uuid_lib_ok_def)
      ultimately show ?thesis by (simp add: read_order_def bindS_def ret_def addTransaction_def)
    qed
    then show ?case using Cons.IH[of "Some (transaction_id p)" "pre @ [order_as_read now p]"] by (simp add: bindS_def)
  qed (simp add: ret_def)
  from this[OF all, of None "[]"] show ?thesis using ids by simp
qed

text \<open>None of this looks at the user database.\<close>

lemma stored_users [simp]:
  "cart_stored (w\<lparr>users_db := d\<rparr>) c = cart_stored w c"
  "lines_stored (w\<lparr>users_db := d\<rparr>) now c = lines_stored w now c"
  "history_stored L (w\<lparr>users_db := d\<rparr>) now h placed = history_stored L w now h placed"
  by (simp_all add: cart_stored_def lines_stored_def product_stored_def history_stored_def order_stored_def)

lemma getUser_stored:
  assumes lib: "uuid_lib_ok L"
    and row: "row_in (users_db w) (user_name u) (user_row L u z num cv2)"
    and addr: "u_address u = ShippingAddress nm str cty st z cn"
    and pay: "u_payment u = PaymentInfo num ex cv2" and cv: "stoul_uint ex = Inr v"
    and hist: "history_stored L w now (u_history u) placed" and cart: "lines_stored w now (u_cart u)"
    and set: "u_is_set u"
  shows "\<exists>db. getUser L (user_name u) w =
    (Inr (u\<lparr>u_payment := PaymentInfo num ex v, u_history := map (order_as_read now) placed, u_cart := cart_now now (u_cart u)\<rparr>),
      w\<lparr>users_db := Some db\<rparr>)"
proof -
  let ?n = "user_name u"
  from row obtain db where db: "users_db w = Some db" and row': "row_in (Some db) ?n (user_row L u z num cv2)"
    by (auto simp: row_in_def split: option.splits)
  have gets: "DB_Get db ?n k = Some x" if "(k, x) \<in> set (user_row L u z num cv2)" for k x
    using row' that by (auto simp: row_in_def)
  have vals: "DB_Get db ?n ''shipaddr_name'' = Some nm" "DB_Get db ?n ''shipaddr_street'' = Some str"
    "DB_Get db ?n ''shipaddr_city'' = Some cty" "DB_Get db ?n ''shipaddr_state'' = Some st"
    "DB_Get db ?n ''shipaddr_zip'' = Some (to_string z)" "DB_Get db ?n ''shipaddr_country'' = Some cn"
    "DB_Get db ?n ''cc_num'' = Some (to_string num)" "DB_Get db ?n ''cc_exp'' = Some ex"
    "DB_Get db ?n ''orders'' = Some (orders_to_string L (u_history u))"
    "DB_Get db ?n ''items_in_cart'' = Some (cart_to_string (u_cart u))"
    by (rule gets, simp add: user_row_def addr pay ShippingAddress_def PaymentInfo_def)+
  have raddr: "read_address db ?n = Inr (ShippingAddress nm str cty st z cn)"
    using vals by (simp add: read_address_def opt_field_def codec address_rebuild Let_def)
  have rcard: "read_card db ?n = Inr (Some (PaymentInfo num ex v))"
    using vals cv by (simp add: read_card_def codec)
  obtain tid where orders: "foldS (read_order L) (split (orders_to_string L (u_history u)) (CHR 0x0A)) (None, []) w =
      (Inr (tid, map (order_as_read now) placed), w)"
    using read_orders_stored[OF lib hist] by blast
  let ?u1 = "(User ?n (map (order_as_read now) placed))\<lparr>u_address := ShippingAddress nm str cty st z cn\<rparr>"
  have "user_storable ?u1"
    by (simp add: user_storable_def ShippingAddress_def User_def User_default_def PaymentInfo_default_def)
  then obtain d1 where s1: "storeUser L ?u1 w = (Inr 1, w\<lparr>users_db := Some d1\<rparr>)"
    using storeUser_succeeds by blast
  let ?u2 = "?u1\<lparr>u_payment := PaymentInfo num ex v\<rparr>" and ?w1 = "w\<lparr>users_db := Some d1\<rparr>"
  have "user_storable ?u2"
    by (simp add: user_storable_def ShippingAddress_def PaymentInfo_def)
  then obtain d2 where s2: "storeUser L ?u2 ?w1 = (Inr 1, ?w1\<lparr>users_db := Some d2\<rparr>)"
    using storeUser_succeeds by blast
  have rc: "read_cart (cart_to_string (u_cart u)) (w\<lparr>users_db := Some d2\<rparr>) =
      (Inr (cart_now now (u_cart u)), w\<lparr>users_db := Some d2\<rparr>)"
    by (rule read_cart_lines) (simp add: cart)
  have final: "?u2\<lparr>u_cart := cart_now now (u_cart u)\<rparr> =
      u\<lparr>u_payment := PaymentInfo num ex v, u_history := map (order_as_read now) placed, u_cart := cart_now now (u_cart u)\<rparr>"
    using addr set by (cases u) (simp add: User_def User_default_def)
  have gi: "get_into db ?n ''orders'' x = orders_to_string L (u_history u)"
    "get_into db ?n ''items_in_cart'' x = cart_to_string (u_cart u)" for x
    using vals by (simp_all add: get_into_def)
  have "getUser L ?n w = (Inr (?u2\<lparr>u_cart := cart_now now (u_cart u)\<rparr>), w\<lparr>users_db := Some d2\<rparr>)"
    using row_in_open[OF row'] db gi orders raddr rcard s1 s2 rc
    by (simp add: getUser_def bindS_def[of "foldS _ _ _"] bindS_lift_split changeShippingAddress_def
        changeCreditCard_def Let_def bindS_def[of "storeUser _ _"] bindS_def[of "read_cart _"] bindS_assoc ret_def)
  then show ?thesis using final by auto
qed

section \<open>A small store\<close>

text \<open>
  A concrete stand-in for libuuid on which the hypotheses about it hold: the UUID in decimal.
\<close>

definition dec_uuid_lib :: uuid_lib where
  "dec_uuid_lib = \<lparr>uuid_unparse_lower = to_string, uuid_parse = (\<lambda>s. Some (of_nat (read_dec s)))\<rparr>"

lemma dec_uuid_lib_ok: "uuid_lib_ok dec_uuid_lib"
proof -
  have "CHR 0x0A \<notin> set (to_string u)" for u :: uuid
    using to_string_digits by (fastforce dest: isdigit_not_special(5))
  then show ?thesis by (simp add: uuid_lib_ok_def dec_uuid_lib_def to_string_def codec)
qed

definition pens :: product where
  "pens = Product 7 ''Pens'' (Fin False (2 ^ 150)) ''Office'' 5"

definition empty_world :: world where
  "empty_world = \<lparr>users_db = None, products_db = None, orders_db = None, logged_in = User_default\<rparr>"

definition ann :: user where
  "ann = (User ''ann'' [])\<lparr>u_address := ShippingAddress ''Ann'' ''1 Elm St'' ''Ely'' ''NV'' 89301 ''USA'',
     u_payment := PaymentInfo 4000 ''06/20'' 123, u_cart := [(7, pens, 2)]\<rparr>"

lemma pens_price_stable: "f32_stable (Fin False (2 ^ 150))"
  by (rule f32_stable_exact) (simp_all add: f32_units_ok_def)

lemma pens_UPC [simp]: "p_UPC pens = 7" "p_is_set pens" "p_quantity pens = 5"
  by (simp_all add: pens_def Product_def)

text \<open>A world that holds the product, the user and nothing else.\<close>

definition small_world :: world where
  "small_world = (let w1 = snd (storeProduct pens empty_world) in snd (storeUser dec_uuid_lib ann w1))"

lemma small_world_products:
  "\<exists>db. products_db small_world = Some db \<and> row_in (Some db) (to_string (7 :: u64)) (product_row pens) \<and>
    set (map fst db) = {kDefault, to_string (7 :: u64)}"
proof -
  obtain db where db: "store_row (to_string (7 :: u64)) (product_row pens) None = Inr db"
    using store_row_succeeds by blast
  then have sp: "storeProduct pens empty_world = (Inr 1, empty_world\<lparr>products_db := Some db\<rparr>)"
    by (simp add: storeProduct_def empty_world_def)
  from db obtain db0 where "DB_Open (store_names None (to_string (7 :: u64))) None = Inr db0"
    "db = DB_Write (map (\<lambda>(k, v). (to_string (7 :: u64), k, v)) (product_row pens)) db0"
    by (auto simp: store_row_def split: sum.splits)
  with rocks.open_names[OF this(1)] have "set (map fst db) = {kDefault, to_string (7 :: u64)}"
    by (simp add: set_store_names ListColumnFamilies_def)
  moreover have "user_storable ann"
    by (simp add: user_storable_def ann_def ShippingAddress_def PaymentInfo_def)
  then obtain ud where "storeUser dec_uuid_lib ann (empty_world\<lparr>products_db := Some db\<rparr>) =
      (Inr 1, empty_world\<lparr>products_db := Some db, users_db := Some ud\<rparr>)"
    using storeUser_succeeds by blast
  ultimately show ?thesis
    using sp store_row_ok[OF db product_row_keys] by (simp add: small_world_def Let_def)
qed

lemma pens_stored: "product_stored small_world pens"
  using small_world_products pens_price_stable
  by (auto simp: product_stored_def) (simp_all add: pens_def Product_def)

lemma small_world_user:
  "row_in (users_db small_world) ''ann'' (user_row dec_uuid_lib ann 89301 4000 123)"
proof -
  let ?w1 = "snd (storeProduct pens empty_world)"
  have a: "u_address ann = ShippingAddress ''Ann'' ''1 Elm St'' ''Ely'' ''NV'' 89301 ''USA''"
    and p: "u_payment ann = PaymentInfo 4000 ''06/20'' 123" and n: "user_name ann = ''ann''"
    by (simp_all add: ann_def)
  obtain db where db: "store_row ''ann'' (user_row dec_uuid_lib ann 89301 4000 123) (users_db ?w1) = Inr db"
    using store_row_succeeds by blast
  then have "storeUser dec_uuid_lib ann ?w1 = (Inr 1, ?w1\<lparr>users_db := Some db\<rparr>)"
    using storeUser_row[OF a p] n by simp
  then show ?thesis using store_row_ok[OF db user_row_keys] by (simp add: small_world_def Let_def)
qed

lemma small_cart_stored: "cart_stored small_world (u_cart ann)"
  using pens_stored by (simp add: cart_stored_def cart_ok_def ann_def)

lemma small_login:
  "\<exists>db. getUser dec_uuid_lib ''ann'' small_world =
     (Inr (ann\<lparr>u_payment := PaymentInfo 4000 ''06/20'' 6\<rparr>), small_world\<lparr>users_db := Some db\<rparr>)"
proof -
  have "stoul_uint ''06/20'' = Inr 6"
    by (simp add: stoul_uint_def stoul_def skip_sign_def isspace_def isdigit_def read_dec_def digit_val_def)
  moreover obtain now where "lines_stored small_world now (u_cart ann)" "cart_now now (u_cart ann) = u_cart ann"
    using cart_stored_lines[OF small_cart_stored] .
  ultimately show ?thesis
    using getUser_stored[OF dec_uuid_lib_ok, of small_world ann 89301 4000 123 _ _ _ _ _ _ _ now "[]"] small_world_user
    by (simp add: ann_def history_stored_def User_def User_default_def)
qed

text \<open>The inventory of the small store lists its one product and changes nothing.\<close>

lemma small_show_main:
  assumes "products_db w = products_db small_world"
  shows "show_main w = (Inr Main_shell, w)"
proof -
  obtain db where db: "products_db small_world = Some db" and row: "row_in (Some db) (to_string (7 :: u64)) (product_row pens)"
    and names: "set (map fst db) = {kDefault, to_string (7 :: u64)}"
    using small_world_products by blast
  have "product_stored w pens" using pens_stored assms by (simp add: product_stored_def)
  then have get: "getProduct 7 w = (Inr pens, w)" using getProduct_stored[of w pens] by simp
  have "stoul_all ss = Inr (map (\<lambda>_. 7) ss)" if "set ss \<subseteq> {to_string (7 :: u64)}" for ss
    using that by (induction ss) (auto simp: codec)
  moreover have "set (removeAll kDefault (map fst db)) \<subseteq> {to_string (7 :: u64)}" using names by auto
  ultimately have all: "getProducts w = (Inr (map (\<lambda>_. 7) (removeAll kDefault (map fst db))), w)"
    using db assms by (simp add: getProducts_def ListColumnFamilies_def)
  have "foldS (\<lambda>upc _. bindS (getProduct upc) (\<lambda>_. ret ())) (map (\<lambda>_. 7) xs) () w = (Inr (), w)" for xs :: "string list"
    by (induction xs) (simp_all add: ret_def bindS_def get)
  with all show ?thesis by (simp add: show_main_def bindS_def ret_def)
qed

end
