(* ===== verification/Shop_Properties.thy ===== *)
theory Shop_Properties
  imports Login
begin

text \<open>
  The properties of the shop: what is stored is read back, what a session can reach, and what a
  checkout does to stock, orders and the cart. The witnesses run on the small store of the login
  theory.
\<close>

section \<open>The session\<close>

text \<open>From the login of the small store to the question before the order is placed.\<close>

definition small_order :: transaction where
  "small_order = (Transaction [(7, pens, 2)] 42)\<lparr>t_address := u_address ann,
     t_payment := PaymentInfo 4000 ''06/20'' 6\<rparr>"

text \<open>The fourth of December 2016 at noon.\<close>

definition noon :: nat where
  "noon = 1480852800"

lemma small_user_flags:
  "s_is_set (u_address ann)" "cart_valid [(7, pens, 2)]" "u_cart ann = [(7, pens, 2)]"
  by (simp_all add: ann_def ShippingAddress_def cart_valid_def)

lemma split_word: "d \<notin> set s \<Longrightarrow> s \<noteq> [] \<Longrightarrow> split s d = [s]"
  using split_join[of "[s]" d] by simp

lemma says_no_y: "\<not> says_no ''y''"
  by (simp add: says_no_def front_def)

lemma small_session:
  "\<exists>w. reach dec_uuid_lib (Place_order small_order) w \<and> logged_in w = ann\<lparr>u_payment := PaymentInfo 4000 ''06/20'' 6\<rparr> \<and>
     products_db w = products_db small_world \<and> orders_db w = orders_db small_world"
proof -
  let ?u = "ann\<lparr>u_payment := PaymentInfo 4000 ''06/20'' 6\<rparr>"
  obtain db where login: "getUser dec_uuid_lib ''ann'' small_world = (Inr ?u, small_world\<lparr>users_db := Some db\<rparr>)"
    using small_login by blast
  let ?w = "small_world\<lparr>users_db := Some db, logged_in := ?u\<rparr>"
  have "session_start dec_uuid_lib ''ann'' small_world = (Inr Main_shell, ?w)"
    using login small_show_main[of ?w] by (simp add: session_start_def)
  then have 1: "reach dec_uuid_lib Main_shell ?w" by (rule reach.start)
  let ?t = "Transaction [(7, pens, 2)] 42"
  have "cli_step dec_uuid_lib now fresh ''cart'' Main_shell ?w = (Inr (Cart_shell False), ?w)" for now fresh
    by (simp add: main_step_def split_word show_cart_def getS_def small_user_flags)
  with 1 have 2: "reach dec_uuid_lib (Cart_shell False) ?w" by (blast intro: reach.step)
  have "cli_step dec_uuid_lib now 42 ''checkout'' (Cart_shell False) ?w = (Inr (Use_addr ?t), ?w)" for now
    by (simp add: cart_step_def split_word buyCart_def bindS_def getS_def ret_def small_user_flags order_addr_def)
  with 2 have 3: "reach dec_uuid_lib (Use_addr ?t) ?w" by (blast intro: reach.step)
  have "cli_step dec_uuid_lib now 42 ''y'' (Use_addr ?t) ?w = (Inr (Use_card (setShippingAddress (u_address ann) ?t)), ?w)" for now
    by (simp add: says_no_y bindS_def getS_def order_addr2_def order_cc_def setShippingAddress_def small_user_flags
        PaymentInfo_def)
  with 3 have 4: "reach dec_uuid_lib (Use_card (setShippingAddress (u_address ann) ?t)) ?w" by (blast intro: reach.step)
  have "cli_step dec_uuid_lib now 42 ''y'' (Use_card (setShippingAddress (u_address ann) ?t)) ?w =
      (Inr (Place_order small_order), ?w)" for now
    by (simp add: says_no_y getS_def order_cc2_def setPaymentInfo_def setShippingAddress_def PaymentInfo_def
        small_order_def)
  with 4 have "reach dec_uuid_lib (Place_order small_order) ?w" by (blast intro: reach.step)
  then show ?thesis by fastforce
qed

text \<open>
  C2: In every state of the console session that can be reached from a login, whatever line is
  typed, the handler never ends in a \<open>runtime_error\<close>: neither \<open>buyCart\<close> nor
  \<open>chargeCreditCard\<close> is ever called on a cart with invalid quantities.
\<close>
theorem session_no_runtime_error:
  assumes "reach L m w" and "m \<noteq> Exited"
  shows "fst (cli_step L now fresh cmd m w) \<noteq> Inl (Runtime_error s)"
proof -
  have "uinv w \<and> menu_inv m w" using reach_inv[OF assms(1)] assms(2) by (simp add: cli_inv_def)
  from keeps_no_runtime_error[OF keeps_cli_step[OF assms(2)] this] show ?thesis
    by (cases "cli_step L now fresh cmd m w") auto
qed

theorem session_no_runtime_error_witness:
  "\<exists>w. reach dec_uuid_lib (Place_order small_order) w \<and>
     fst (cli_step dec_uuid_lib noon 42 ''y'' (Place_order small_order) w) \<noteq> Inl (Runtime_error [])"
  using small_session session_no_runtime_error[of dec_uuid_lib "Place_order small_order"] by blast

text \<open>
  C1: A customer who confirms the order prompt gets the order: from any reachable
  \<open>Place_order\<close> state the charge succeeds. The finalized order with the current date is appended
  to the history, the cart is empty in memory and in the database, the order is in the order
  database, and the stored stock of every item is the stock of the product in the cart, as it was when
  the entry was made, minus the quantity bought, as natural numbers (no wrap-around of the 32-bit
  subtraction).
\<close>
theorem reachable_order_is_placed:
  assumes "reach L (Place_order t) w"
  shows "\<exists>t' w'. chargeCreditCard L now t w = (Inr t', w') \<and>
    t' = t\<lparr>transaction_date := Some (gmtime now), is_finalized := True\<rparr> \<and>
    logged_in w' = (logged_in w)\<lparr>u_cart := [], u_history := u_history (logged_in w) @ [t']\<rparr> \<and>
    row_get (users_db w') (user_name (logged_in w)) ''items_in_cart'' = Some [] \<and>
    (\<exists>z num cv2. row_in (orders_db w') (uuid_unparse_lower L (transaction_id t)) (transaction_row t' (gmtime now) z num cv2)) \<and>
    list_all (\<lambda>(k, p, q). \<exists>left. unat left + unat q = unat (p_quantity p) \<and>
      row_in (products_db w') (to_string k) (product_row (p\<lparr>p_quantity := left\<rparr>))) (t_cart t)"
proof -
  have i: "user_inv (logged_in w)" "order_inv t w" "s_is_set (t_address t)" "pay_is_set (t_payment t)"
    using reach_inv[OF assms] by (simp_all add: cli_inv_def)
  have c: "cart_complete (t_cart t)" "cart_valid (t_cart t)" "order_ready t" "user_storable (logged_in w)"
    using i s_is_set_zip[of "t_address t"] by (auto simp: order_inv_def user_inv_def order_ready_def)
  have stock: "unat (p_quantity p - q) + unat q = unat (p_quantity p)" if "(k, p, q) \<in> set (t_cart t)" for k p q
    using that c(2) by (auto simp: cart_valid_def list_all_iff not_less word_le_nat_alt unat_sub)
  obtain w' where w': "chargeCreditCard L now t w = (Inr (t\<lparr>transaction_date := Some (gmtime now), is_finalized := True\<rparr>), w')"
    "logged_in w' = (logged_in w)\<lparr>u_cart := [],
       u_history := u_history (logged_in w) @ [t\<lparr>transaction_date := Some (gmtime now), is_finalized := True\<rparr>]\<rparr>"
    "row_get (users_db w') (user_name (logged_in w)) ''items_in_cart'' = Some []"
    "\<forall>(k, p, q) \<in> set (t_cart t). row_in (products_db w') (to_string k)
        (product_row (p\<lparr>p_quantity := p_quantity p - q\<rparr>))"
    "\<exists>z num cv2. row_in (orders_db w') (uuid_unparse_lower L (transaction_id t))
        (transaction_row (t\<lparr>transaction_date := Some (gmtime now), is_finalized := True\<rparr>) (gmtime now) z num cv2)"
    using chargeCreditCard_ok[OF c, of L now] by blast
  have "list_all (\<lambda>(k, p, q). \<exists>left. unat left + unat q = unat (p_quantity p) \<and>
      row_in (products_db w') (to_string k) (product_row (p\<lparr>p_quantity := left\<rparr>))) (t_cart t)"
    using w'(4) stock unfolding list_all_iff by blast
  with w' show ?thesis by blast
qed

theorem reachable_order_is_placed_witness:
  "\<exists>w w'. chargeCreditCard dec_uuid_lib noon small_order w = (Inr (small_order\<lparr>transaction_date := Some (gmtime noon),
     is_finalized := True\<rparr>), w') \<and> u_cart (logged_in w) \<noteq> [] \<and> u_cart (logged_in w') = []"
proof -
  obtain w where w: "reach dec_uuid_lib (Place_order small_order) w"
    "logged_in w = ann\<lparr>u_payment := PaymentInfo 4000 ''06/20'' 6\<rparr>" using small_session by blast
  then have "u_cart (logged_in w) \<noteq> []" by (simp add: small_user_flags)
  moreover obtain w' where "chargeCreditCard dec_uuid_lib noon small_order w =
      (Inr (small_order\<lparr>transaction_date := Some (gmtime noon), is_finalized := True\<rparr>), w')" "u_cart (logged_in w') = []"
    using reachable_order_is_placed[OF w(1), of noon] by auto
  ultimately show ?thesis by blast
qed

text \<open>
  C5: Charging a transaction with an item that asks for more than its product has on hand ends in
  \<open>runtime_error\<close>; no order is recorded, and neither the user database nor the logged-in user
  changes.
\<close>
theorem invalid_order_not_recorded:
  assumes "(k, p, q) \<in> set (t_cart t)" and "p_quantity p < q"
  shows "\<exists>w'. chargeCreditCard L now t w =
      (Inl (Runtime_error ''Cannot finalize a transaction with invalid quantities.''), w') \<and>
    orders_db w' = orders_db w \<and> users_db w' = users_db w \<and> logged_in w' = logged_in w"
proof -
  have "\<not> cart_valid (t_cart t)" using assms by (force simp: cart_valid_def list_all_iff)
  from chargeCreditCard_invalid[OF this] show ?thesis by blast
qed

theorem invalid_order_not_recorded_witness:
  "\<exists>w'. chargeCreditCard dec_uuid_lib noon (Transaction [(7, pens, 6)] 42) small_world =
      (Inl (Runtime_error ''Cannot finalize a transaction with invalid quantities.''), w') \<and>
    orders_db w' = orders_db small_world \<and> users_db w' = users_db small_world \<and> logged_in w' = logged_in small_world"
  by (rule invalid_order_not_recorded[of 7 pens 6]) (simp_all add: Transaction_def)

section \<open>Storage round trips\<close>

text \<open>
  C6: A complete product whose price survives six-decimal printing is read back by \<open>getProduct\<close>
  exactly as \<open>storeProduct\<close> wrote it, and reading changes nothing.
\<close>
theorem product_roundtrip:
  assumes "p = Product upc nm pr cat qty" and "f32_stable pr"
  shows "\<exists>w'. storeProduct p w = (Inr 1, w') \<and> getProduct upc w' = (Inr p, w')"
proof -
  have p: "p_is_set p" "p_UPC p = upc" using assms(1) by (simp_all add: Product_def)
  obtain db where db: "storeProduct p w = (Inr 1, w\<lparr>products_db := Some db\<rparr>)"
    "row_in (Some db) (to_string (p_UPC p)) (product_row p)"
    using storeProduct_succeeds[OF p(1)] by blast
  have "product_stored (w\<lparr>products_db := Some db\<rparr>) p"
    using assms db(2) by (simp add: product_stored_def Product_def)
  from getProduct_stored[OF this] db(1) p(2) show ?thesis by auto
qed

theorem product_roundtrip_witness:
  "\<exists>w'. storeProduct pens empty_world = (Inr 1, w') \<and> getProduct 7 w' = (Inr pens, w')"
  by (rule product_roundtrip[OF pens_def pens_price_stable])

text \<open>
  Storing a product leaves every other product, all orders, all users and the session alone.
\<close>
theorem storeProduct_touches_one_row:
  assumes "storeProduct p w = (r, w')" and "n \<noteq> to_string (p_UPC p)"
  shows "row_get (products_db w') n k = row_get (products_db w) n k \<and> users_db w' = users_db w \<and>
    orders_db w' = orders_db w \<and> logged_in w' = logged_in w"
  using storeProduct_frame[OF assms(1)] assms(2) by blast

theorem storeProduct_touches_one_row_witness:
  "\<exists>r w'. storeProduct (Product 8 ''Ink'' (Fin False 0) ''Office'' 1) small_world = (r, w') \<and>
     row_get (products_db w') (to_string (7 :: u64)) ''name'' = row_get (products_db small_world) (to_string (7 :: u64)) ''name''"
proof -
  obtain r w' where w': "storeProduct (Product 8 ''Ink'' (Fin False 0) ''Office'' 1) small_world = (r, w')" by force
  from storeProduct_touches_one_row[OF w', of "to_string (7 :: u64)" "''name''"] w' show ?thesis
    by (auto simp: Product_def)
qed

text \<open>
  C4: A finalized order with a complete address and card, a date in a year of four digits and a total
  that survives six-decimal printing, stored by \<open>storeTransaction\<close>, is read back by
  \<open>getTransaction\<close> with the same id, date, total, address, card and quantities, as long as every UPC
  of its cart is that of a complete product in the database. The products in its cart are those
  stored now, \<open>now\<close> of the UPC, which for an order that was just placed have the stock it left; the
  members \<open>tm_yday\<close> and \<open>tm_isdst\<close> of its date are not restored, and its card no longer says it is set.
\<close>
theorem transaction_roundtrip:
  assumes "order_complete t" and "lines_stored w now (t_cart t)"
  shows "\<exists>w'. storeTransaction L t w = (Inr 1, w') \<and>
    getTransaction L (transaction_id t) w' =
      (Inr (t\<lparr>t_cart := map (\<lambda>(k, p, q). (k, now k, q)) (t_cart t),
             transaction_date := map_option (\<lambda>d. d\<lparr>tm_yday := None, tm_isdst := None\<rparr>) (transaction_date t),
             t_payment := (t_payment t)\<lparr>pay_is_set := False\<rparr>\<rparr>), w')"
  using order_roundtrip[OF assms, of L] unfolding order_as_read_def cart_now_def tm_read_def[abs_def] .

text \<open>The order of the session above as the charge stores it, after it has taken two of the five pens.\<close>

definition small_placed :: transaction where
  "small_placed = small_order\<lparr>transaction_date := Some (gmtime noon), is_finalized := True,
     transaction_amount := Fin False (2 ^ 151)\<rparr>"

lemma small_total: "f32_stable (Fin False (2 ^ 151))"
  by (rule f32_stable_exact) (simp_all add: f32_units_ok_def)

lemma small_order_parts:
  "t_address small_order = ShippingAddress ''Ann'' ''1 Elm St'' ''Ely'' ''NV'' 89301 ''USA''"
  "t_payment small_order = PaymentInfo 4000 ''06/20'' 6" "t_cart small_order = [(7, pens, 2)]"
  "transaction_id small_order = 42"
  by (simp_all add: small_order_def Transaction_def ann_def)

lemma noon_ok: "noon < 253234080000" "tm_ok (gmtime noon)"
  using gmtime_ok[of noon] by (simp_all add: noon_def)

lemma small_placed_complete: "order_complete small_placed" "t_cart small_placed = [(7, pens, 2)]"
  "transaction_id small_placed = 42"
proof -
  have "transaction_date small_placed = Some (gmtime noon)" "is_finalized small_placed"
    "t_address small_placed = ShippingAddress ''Ann'' ''1 Elm St'' ''Ely'' ''NV'' 89301 ''USA''"
    "t_payment small_placed = PaymentInfo 4000 ''06/20'' 6" "f32_stable (transaction_amount small_placed)"
    by (simp_all add: small_placed_def small_order_parts small_total[simplified])
  with noon_ok(2) show "order_complete small_placed" unfolding order_complete_def by blast
qed (simp_all add: small_placed_def small_order_parts)

lemma pens_complete: "product_complete pens" "product_complete (pens\<lparr>p_quantity := n\<rparr>)"
  using pens_price_stable by (simp_all add: product_complete_iff pens_def Product_def)

lemma store_complete:
  assumes "product_complete p"
  obtains w' where "storeProduct p w = (Inr 1, w')" "product_stored w' p"
proof -
  have "p_is_set p" using assms by (simp add: product_complete_iff)
  then obtain db where db: "storeProduct p w = (Inr 1, w\<lparr>products_db := Some db\<rparr>)"
    "row_in (Some db) (to_string (p_UPC p)) (product_row p)"
    using storeProduct_succeeds by blast
  have "product_stored (w\<lparr>products_db := Some db\<rparr>) p"
    unfolding product_stored_def using assms db(2) unfolding product_complete_def by (intro conjI) (blast, blast, simp)
  with db(1) show thesis by (rule that)
qed

theorem transaction_roundtrip_witness:
  "\<exists>w w' t. storeProduct (pens\<lparr>p_quantity := 3\<rparr>) small_world = (Inr 1, w) \<and>
    storeTransaction dec_uuid_lib small_placed w = (Inr 1, w') \<and>
    getTransaction dec_uuid_lib 42 w' = (Inr t, w') \<and> t_cart t = [(7, pens\<lparr>p_quantity := 3\<rparr>, 2)]"
proof -
  obtain w where w: "storeProduct (pens\<lparr>p_quantity := 3\<rparr>) small_world = (Inr 1, w)"
    "product_stored w (pens\<lparr>p_quantity := 3\<rparr>)" by (rule store_complete[OF pens_complete(2)])
  have "lines_stored w (\<lambda>_. pens\<lparr>p_quantity := 3\<rparr>) (t_cart small_placed)"
    using w(2) by (simp add: lines_stored_def small_placed_complete(2))
  from transaction_roundtrip[OF small_placed_complete(1) this, of dec_uuid_lib] w(1) show ?thesis
    by (fastforce simp: small_placed_complete(2,3))
qed

text \<open>
  An order that is placed can be read back: charging a complete order of complete products whose
  quantities are valid stores it, and \<open>getTransaction\<close> then returns it, with the products of its
  cart as the charge left them.
\<close>
theorem placed_order_reads_back:
  assumes "cart_ok (t_cart t)" "\<forall>(k, p, q) \<in> set (t_cart t). product_complete p" "cart_valid (t_cart t)"
    and "t_address t = ShippingAddress nm str cty st z cn" "t_payment t = PaymentInfo num ex cv2"
    and "f32_stable (transaction_amount t)" "user_storable (logged_in w)" "now < 253234080000"
  shows "\<exists>t' w'. chargeCreditCard L now t w = (Inr t', w') \<and> t' = t\<lparr>transaction_date := Some (gmtime now), is_finalized := True\<rparr> \<and>
    getTransaction L (transaction_id t) w' = (Inr (order_as_read (left_over (t_cart t)) t'), w')"
proof -
  let ?t = "t\<lparr>transaction_date := Some (gmtime now), is_finalized := True\<rparr>"
  obtain w' where w': "chargeCreditCard L now t w = (Inr ?t, w')" "order_stored L w' ?t"
    "lines_stored w' (left_over (t_cart t)) (t_cart ?t)"
    using placed_order_stored[OF assms, of L] by auto
  from getTransaction_stored[OF w'(2,3)] w'(1) show ?thesis by simp
qed

lemma ann_world: "user_storable (logged_in (small_world\<lparr>logged_in := ann\<rparr>))"
  "cart_ok (u_cart (logged_in (small_world\<lparr>logged_in := ann\<rparr>)))"
  by (simp_all add: user_storable_def cart_ok_def ann_def ShippingAddress_def PaymentInfo_def)

definition small_due :: transaction where
  "small_due = small_order\<lparr>transaction_amount := Fin False (2 ^ 151)\<rparr>"

lemma small_due_ok:
  "cart_ok (t_cart small_due)" "\<forall>(k, p, q) \<in> set (t_cart small_due). product_complete p" "cart_valid (t_cart small_due)"
  "t_address small_due = ShippingAddress ''Ann'' ''1 Elm St'' ''Ely'' ''NV'' 89301 ''USA''"
  "t_payment small_due = PaymentInfo 4000 ''06/20'' 6" "f32_stable (transaction_amount small_due)"
  by (simp_all add: small_due_def small_order_parts cart_ok_def pens_complete small_user_flags small_total[simplified])

theorem placed_order_reads_back_witness:
  "\<exists>t' w' t. chargeCreditCard dec_uuid_lib noon small_due (small_world\<lparr>logged_in := ann\<rparr>) = (Inr t', w') \<and>
     getTransaction dec_uuid_lib 42 w' = (Inr t, w') \<and> t_cart t = [(7, pens\<lparr>p_quantity := 3\<rparr>, 2)]"
  using placed_order_reads_back[OF small_due_ok ann_world(1) noon_ok(1), of dec_uuid_lib]
  by (fastforce simp: order_as_read_def small_due_def small_order_parts left_over_def)

section \<open>Logging in\<close>

text \<open>
  C3: A user with a complete address and a complete card whose expiration date starts with a number,
  once stored, logs in again. The orders of the history, \<open>placed\<close>, come back as they are read from
  the order database, if their rows are there and complete (a date in a year of four digits and a
  total that survives printing); so does the cart, each line with its quantity and with the product
  that is stored now under its UPC, \<open>now\<close> of it, if there is a complete one whose price survives
  printing, which a cart of current products makes the same cart. Name and address are unchanged;
  the security code of the card has become the number its expiration date starts with.
\<close>
theorem login_roundtrip:
  assumes "uuid_lib_ok L" and "u_is_set u"
    and "u_address u = ShippingAddress nm str cty st z cn" and "u_payment u = PaymentInfo num ex cv2"
    and "stoul_uint ex = Inr v"
    and "history_stored L w now (u_history u) placed" and "lines_stored w now (u_cart u)"
  shows "\<exists>w1 w2. storeUser L u w = (Inr 1, w1) \<and>
    getUser L (user_name u) w1 =
      (Inr (u\<lparr>u_payment := PaymentInfo num ex v, u_history := map (order_as_read now) placed,
             u_cart := map (\<lambda>(k, p, q). (k, now k, q)) (u_cart u)\<rparr>), w2) \<and>
    products_db w2 = products_db w \<and> orders_db w2 = orders_db w"
proof -
  obtain db where db: "store_row (user_name u) (user_row L u z num cv2) (users_db w) = Inr db"
    using store_row_succeeds by blast
  let ?w = "w\<lparr>users_db := Some db\<rparr>"
  have s: "storeUser L u w = (Inr 1, ?w)" using storeUser_row[OF assms(3,4)] db by simp
  have row: "row_in (users_db ?w) (user_name u) (user_row L u z num cv2)"
    using store_row_ok[OF db user_row_keys] by simp
  have "history_stored L ?w now (u_history u) placed" "lines_stored ?w now (u_cart u)" using assms(6,7) by simp_all
  from getUser_stored[OF assms(1) row assms(3,4,5) this assms(2)] s show ?thesis
    unfolding cart_now_def by fastforce
qed

text \<open>Ann places her order, and logs in with the order in her history and a new cart of two pens.\<close>

theorem login_roundtrip_witness:
  "\<exists>t' w w1 w2 u. chargeCreditCard dec_uuid_lib noon small_due (small_world\<lparr>logged_in := ann\<rparr>) = (Inr t', w) \<and>
    storeUser dec_uuid_lib (ann\<lparr>u_history := [t']\<rparr>) w = (Inr 1, w1) \<and>
    getUser dec_uuid_lib ''ann'' w1 = (Inr u, w2) \<and>
    map transaction_id (u_history u) = [42] \<and> u_cart u = [(7, pens\<lparr>p_quantity := 3\<rparr>, 2)]"
proof -
  let ?t = "small_due\<lparr>transaction_date := Some (gmtime noon), is_finalized := True\<rparr>"
  let ?u = "ann\<lparr>u_history := [?t]\<rparr>"
  have c: "t_cart small_due = [(7, pens, 2)]" "transaction_id small_due = 42"
    by (simp_all add: small_due_def small_order_parts)
  obtain w where w: "chargeCreditCard dec_uuid_lib noon small_due (small_world\<lparr>logged_in := ann\<rparr>) = (Inr ?t, w)"
    "order_stored dec_uuid_lib w ?t" "lines_stored w (left_over [(7, pens, 2)]) [(7, pens, 2)]"
    using placed_order_stored[OF small_due_ok ann_world(1) noon_ok(1), of dec_uuid_lib] c(1) by auto
  have u: "u_is_set ?u" "user_name ?u = ''ann''"
    "u_address ?u = ShippingAddress ''Ann'' ''1 Elm St'' ''Ely'' ''NV'' 89301 ''USA''" "u_payment ?u = PaymentInfo 4000 ''06/20'' 123"
    by (simp_all add: ann_def User_def User_default_def)
  have cv: "stoul_uint ''06/20'' = Inr 6"
    by (simp add: stoul_uint_def stoul_def skip_sign_def isspace_def isdigit_def read_dec_def digit_val_def)
  have h: "history_stored dec_uuid_lib w (left_over [(7, pens, 2)]) (u_history ?u) [?t]"
    "lines_stored w (left_over [(7, pens, 2)]) (u_cart ?u)"
    using w(2,3) c by (simp_all add: history_stored_def small_user_flags)
  from login_roundtrip[OF dec_uuid_lib_ok u(1,3,4) cv h] w(1) c u(2) show ?thesis
    by (fastforce simp: small_user_flags order_as_read_def left_over_def)
qed

text \<open>
  C9: Whatever the stored cart held, after a successful login the cart in the user's row is the
  empty text: \<open>getUser\<close> writes the half-built user back before it has read the cart.
\<close>
theorem login_empties_stored_cart:
  assumes "getUser L n w = (Inr u, w')"
  shows "row_get (users_db w') n ''items_in_cart'' = Some []"
  by (rule getUser_empties_cart[OF assms])

theorem login_empties_stored_cart_witness:
  "\<exists>u w'. getUser dec_uuid_lib ''ann'' small_world = (Inr u, w') \<and> u_cart u \<noteq> [] \<and>
     row_get (users_db w') ''ann'' ''items_in_cart'' = Some []"
proof -
  obtain u w' where l: "getUser dec_uuid_lib ''ann'' small_world = (Inr u, w')" "u_cart u \<noteq> []"
    using small_login by (fastforce simp: small_user_flags)
  from login_empties_stored_cart[OF l(1)] l show ?thesis by blast
qed

text \<open>
  The security code a user has after login is the number its expiration date starts with,
  whatever the stored security code was.
\<close>
theorem login_cv2_from_expiry:
  assumes "getUser L n w = (Inr u, w')" and "pay_is_set (u_payment u)"
  shows "\<exists>v. stoul_uint (cc_exp (u_payment u)) = Inr v \<and> cc_cv2 (u_payment u) = Some v"
  by (rule getUser_cv2[OF assms])

theorem login_cv2_from_expiry_witness:
  "\<exists>u w'. getUser dec_uuid_lib ''ann'' small_world = (Inr u, w') \<and>
     (\<exists>v. stoul_uint (cc_exp (u_payment u)) = Inr v \<and> cc_cv2 (u_payment u) = Some v) \<and> cc_cv2 (u_payment u) \<noteq> cc_cv2 (u_payment ann)"
proof -
  obtain w' where l: "getUser dec_uuid_lib ''ann'' small_world = (Inr (ann\<lparr>u_payment := PaymentInfo 4000 ''06/20'' 6\<rparr>), w')"
    using small_login by blast
  from login_cv2_from_expiry[OF l] l show ?thesis
    by (auto simp: PaymentInfo_def ann_def)
qed

text \<open>
  A stored postal code that does not start with a number makes the login of a user without
  orders end in \<open>invalid_argument\<close>, which the login of \<open>main\<close> does not catch.
\<close>
theorem login_bad_zip_escapes:
  assumes "OpenForReadOnly [kDefault, n] (users_db w) = Inr db"
    and "split (get_into db n ''orders'' []) (CHR 0x0A) = []"
    and "DB_Get db n ''shipaddr_zip'' = Some z" and "stoul z = Inl Invalid_argument"
  shows "session_start L n w = (Inl Invalid_argument, w)"
  using getUser_bad_zip[OF assms] by (simp add: session_start_def)

theorem login_bad_zip_escapes_witness:
  "\<exists>w. session_start dec_uuid_lib ''testuser002'' w = (Inl Invalid_argument, w)"
proof -
  let ?db = "[(kDefault, Map.empty), (''testuser002'', [''shipaddr_zip'' \<mapsto> ''V8T4G7''])]"
  have "stoul ''V8T4G7'' = Inl Invalid_argument"
    by (simp add: stoul_def skip_sign_def isspace_def isdigit_def)
  then have "session_start dec_uuid_lib ''testuser002'' (empty_world\<lparr>users_db := Some ?db\<rparr>) =
      (Inl Invalid_argument, empty_world\<lparr>users_db := Some ?db\<rparr>)"
    by (intro login_bad_zip_escapes[where db = ?db and z = "''V8T4G7''"])
      (simp_all add: OpenForReadOnly_def DB_Get_def kDefault_def get_into_def split.simps)
  then show ?thesis by blast
qed

section \<open>The cart\<close>

text \<open>
  C7: Setting a quantity in the logged-in user's cart always succeeds, changes exactly the entry
  of that product, keeps the cart ordered with every entry under its own UPC, and leaves the new
  cart in the user's row of the database.
\<close>
theorem set_quantity_in_cart:
  assumes "user_storable (logged_in w)" and "cart_ok (u_cart (logged_in w))"
  shows "\<exists>w'. addProduct_qty L p q This_logged_in w = (Inr This_logged_in, w') \<and>
    map_at (u_cart (logged_in w')) = (map_at (u_cart (logged_in w)))(p_UPC p \<mapsto> (p, q)) \<and>
    cart_ok (u_cart (logged_in w')) \<and>
    row_get (users_db w') (user_name (logged_in w)) ''items_in_cart'' = Some (cart_to_string (u_cart (logged_in w'))) \<and>
    products_db w' = products_db w \<and> orders_db w' = orders_db w"
  using addProduct_qty_logged_in[OF assms(1), of L p q] assms(2) cart_ok_set[OF assms(2)] map_at_cart_set
  by (auto simp: cart_op_def row_get_def cart_ok_def)

theorem set_quantity_in_cart_witness:
  "\<exists>w'. addProduct_qty dec_uuid_lib pens 3 This_logged_in (small_world\<lparr>logged_in := ann\<rparr>) = (Inr This_logged_in, w') \<and>
     map_at (u_cart (logged_in w')) 7 = Some (pens, 3)"
  using set_quantity_in_cart[OF ann_world, of dec_uuid_lib pens 3] by auto

text \<open>
  Changing a quantity to zero does not remove the product: the entry stays, with quantity
  zero, while \<open>checkCart\<close> denies it, so that the \<open>remove\<close> command of the cart screen will not
  take it out either.
\<close>
theorem zero_quantity_entry_stays:
  assumes "user_storable (logged_in w)" and "cart_ok (u_cart (logged_in w))"
  shows "\<exists>w'. addProduct_qty L p 0 This_logged_in w = (Inr This_logged_in, w') \<and>
    map_at (u_cart (logged_in w')) (p_UPC p) = Some (p, 0) \<and> \<not> checkCart (p_UPC p) (u_cart (logged_in w')) \<and>
    snd (cart_remove L iq [to_string (p_UPC p)] w') = w'"
proof -
  obtain db where w': "addProduct_qty L p 0 This_logged_in w =
      (Inr This_logged_in, (set_logged_cart (cart_set p 0 (u_cart (logged_in w))) w)\<lparr>users_db := Some db\<rparr>)"
    using addProduct_qty_logged_in[OF assms(1), of L p 0] by (auto simp: cart_op_def)
  have at: "map_at (cart_set p 0 (u_cart (logged_in w))) (p_UPC p) = Some (p, 0)"
    using assms(2) map_at_cart_set by (simp add: cart_ok_def)
  then have "\<not> checkCart (p_UPC p) (cart_set p 0 (u_cart (logged_in w)))" by (simp add: checkCart_def)
  with w' at show ?thesis
    by (auto simp: cart_remove_def bindS_def getS_def ret_def on_invalid_def codec show_cart_def)
qed

theorem zero_quantity_entry_stays_witness:
  "\<exists>w'. addProduct_qty dec_uuid_lib pens 0 This_logged_in (small_world\<lparr>logged_in := ann\<rparr>) = (Inr This_logged_in, w') \<and>
     map_at (u_cart (logged_in w')) 7 = Some (pens, 0)"
  using zero_quantity_entry_stays[OF ann_world, of dec_uuid_lib pens] by auto

text \<open>
  C8: A cart whose products are stored survives the text form of the database: what
  \<open>cart_to_string\<close> writes, the reading loop of \<open>getUser\<close> and \<open>getTransaction\<close> turns into the
  same cart, entry by entry.
\<close>
theorem cart_text_roundtrip:
  assumes "cart_stored w c"
  shows "read_cart (cart_to_string c) w = (Inr c, w)"
  by (rule read_cart_stored[OF assms])

theorem cart_text_roundtrip_witness:
  "read_cart (cart_to_string [(7, pens, 2)]) small_world = (Inr [(7, pens, 2)], small_world)"
  using cart_text_roundtrip[OF small_cart_stored] by (simp add: small_user_flags)

text \<open>
  \<open>split\<close> undoes joining non-empty pieces with a delimiter they do not contain.
\<close>
theorem split_inverts_join:
  assumes "\<forall>x \<in> set xs. x \<noteq> [] \<and> d \<notin> set x"
  shows "split (join d xs) d = xs"
  by (rule split_join) (use assms in auto)

theorem split_inverts_join_witness: "split (join (CHR '':'') [''7'', ''2'']) (CHR '':'') = [''7'', ''2'']"
  by (rule split_inverts_join) simp

text \<open>
  The total of a cart of well-formed prices is a well-formed binary32 value: every
  intermediate product and sum of the running total is rounded to a representable number.
\<close>
theorem cart_total_wf:
  assumes "\<forall>(k, p, q) \<in> set c. f32_wf (p_price p)"
  shows "f32_wf (cart_total c)"
proof -
  have "f32_wf a \<Longrightarrow> \<forall>(k, p, q) \<in> set c. f32_wf (p_price p) \<Longrightarrow>
    f32_wf (foldl (\<lambda>amt (k, p, q). f32_add amt (f32_mul (p_price p) (f32_of_uint q))) a c)" for a
    by (induction c arbitrary: a) (auto simp: f32_add_wf f32_mul_wf f32_of_uint_wf)
  then show ?thesis using assms by (simp add: cart_total_def f32_units_ok_def)
qed

theorem cart_total_wf_witness: "f32_wf (cart_total [(7, pens, 2)])"
  by (rule cart_total_wf) (simp add: pens_def Product_def f32_units_ok_def)

end
