(* ===== verification/Glib_Base64.thy ===== *)
theory Glib_Base64
  imports OSC_Prelude
begin

text \<open>
  Base64 (\<open>gbase64.c\<close>): the incremental encoder and decoder with their saved state, the one-shot
  functions over them, and a reference definition over whole byte lists. Bytes are 8-bit words,
  the locals of C type \<open>int\<close> are 32-bit words. Output is the list of bytes written.
\<close>

unbundle bit_operations_syntax

section \<open>Encoding\<close>

definition base64_alphabet :: "u8 list" where
  "base64_alphabet = map of_char ''ABCDEFGHIJKLMNOPQRSTUVWXYZabcdefghijklmnopqrstuvwxyz0123456789+/''"

definition alpha :: "u32 \<Rightarrow> u8" where
  "alpha i = base64_alphabet ! unat i"

text \<open>The four characters the loop body writes for \<open>c1\<close>, \<open>c2\<close>, \<open>c3\<close>.\<close>

definition emit :: "u8 \<Rightarrow> u8 \<Rightarrow> u8 \<Rightarrow> u8 list" where
  "emit b1 b2 b3 =
     (let c1 = ucast b1 :: u32; c2 = ucast b2 :: u32; c3 = ucast b3 :: u32
      in [alpha (drop_bit 2 c1),
          alpha (drop_bit 4 c2 OR push_bit 4 (c1 AND 3)),
          alpha (push_bit 2 (c2 AND 15) OR drop_bit 6 c3),
          alpha (c3 AND 63)])"

text \<open>
  The three used bytes of \<open>*save\<close>: the count, then the two slots. \<open>enc_state\<close> is \<open>*state\<close>, the
  quadruples on the current line.
\<close>

record b64_enc =
  enc_state :: nat
  save0 :: nat
  save1 :: u8
  save2 :: u8

definition enc_init :: b64_enc where
  "enc_init = \<lparr>enc_state = 0, save0 = 0, save1 = 0, save2 = 0\<rparr>"

definition line_break :: "bool \<Rightarrow> nat \<Rightarrow> u8 list \<times> nat" where
  "line_break break_lines already =
     (if break_lines then (if 19 \<le> Suc already then ([0x0A], 0) else ([], Suc already))
      else ([], already))"

text \<open>The loop from its head: it runs while three bytes are left.\<close>

fun enc_loop :: "bool \<Rightarrow> nat \<Rightarrow> u8 list \<Rightarrow> u8 list \<times> nat \<times> u8 list" where
  "enc_loop br already (b1 # b2 # b3 # rest) =
     (let (nl, already') = line_break br already;
          (out, already'', rest') = enc_loop br already' rest
      in (emit b1 b2 b3 @ nl @ out, already'', rest'))"
| "enc_loop br already rest = ([], already, rest)"

text \<open>
  Entering the loop at \<open>skip1\<close> or \<open>skip2\<close> with saved bytes is entering it at its head with these
  bytes in front of the input.
\<close>

definition enc_enter :: "b64_enc \<Rightarrow> u8 list \<Rightarrow> u8 list" where
  "enc_enter s inp = (if save0 s = 1 then save1 s # inp else if save0 s = 2 then save1 s # save2 s # inp else inp)"

text \<open>The tail of the step: up to two bytes go to the next free slots.\<close>

fun enc_keep :: "u8 list \<Rightarrow> b64_enc \<Rightarrow> b64_enc" where
  "enc_keep [] s = s"
| "enc_keep (b # bs) s =
     enc_keep bs (if save0 s = 0 then s\<lparr>save1 := b, save0 := 1\<rparr> else s\<lparr>save2 := b, save0 := Suc (save0 s)\<rparr>)"

definition g_base64_encode_step :: "u8 list \<Rightarrow> bool \<Rightarrow> b64_enc \<Rightarrow> u8 list \<times> b64_enc" where
  "g_base64_encode_step inp break_lines s =
     (if inp = [] then ([], s)
      else if 2 < length inp + save0 s then
        (let (out, already, rest) = enc_loop break_lines (enc_state s) (enc_enter s inp)
         in (out, enc_keep rest (s\<lparr>save0 := 0, enc_state := already\<rparr>)))
      else ([], enc_keep inp s))"

definition g_base64_encode_close :: "bool \<Rightarrow> b64_enc \<Rightarrow> u8 list \<times> b64_enc" where
  "g_base64_encode_close break_lines s =
     (let c1 = ucast (save1 s) :: u32; c2 = ucast (save2 s) :: u32;
          head = [alpha (drop_bit 2 c1), alpha (drop_bit 4 c2 OR push_bit 4 (c1 AND 3))];
          out = (if save0 s = 2 then head @ [alpha (push_bit 2 (c2 AND 15)), 0x3D]
                 else if save0 s = 1 then head @ [0x3D, 0x3D]
                 else [])
      in (out @ (if break_lines then [0x0A] else []), enc_init))"

text \<open>
  \<open>g_error\<close> aborts on an input too large for its output to be measured by \<open>gsize\<close>. The length of
  the output is kept in the \<open>gint\<close> \<open>outlen\<close>: where it has become negative, the close writes at
  \<open>out + outlen\<close>, or the terminating NUL goes to \<open>out[outlen]\<close>, outside the buffer. \<open>None\<close> is the
  abort or the write outside; otherwise the result is the text before the NUL.
\<close>

definition g_base64_encode :: "u8 list \<Rightarrow> u8 list option" where
  "g_base64_encode data =
     (if ((2 ^ 64 - 2) div 4 - 1) * 3 \<le> length data then None
      else let (out1, s) = g_base64_encode_step data False enc_init; outlen = gint_of (length out1)
           in if outlen < 0 then None
              else let (out2, _) = g_base64_encode_close False s;
                       out = take (nat outlen) out1 @ out2 @ drop (nat outlen + length out2) out1;
                       outlen = gint_of (nat outlen + length out2)
                   in if outlen < 0 then None else Some (take (nat outlen) out))"

section \<open>Decoding\<close>

definition mime_base64_rank :: "u8 list" where
  "mime_base64_rank = [
  255,255,255,255,255,255,255,255,255,255,255,255,255,255,255,255,
  255,255,255,255,255,255,255,255,255,255,255,255,255,255,255,255,
  255,255,255,255,255,255,255,255,255,255,255, 62,255,255,255, 63,
   52, 53, 54, 55, 56, 57, 58, 59, 60, 61,255,255,255,  0,255,255,
  255,  0,  1,  2,  3,  4,  5,  6,  7,  8,  9, 10, 11, 12, 13, 14,
   15, 16, 17, 18, 19, 20, 21, 22, 23, 24, 25,255,255,255,255,255,
  255, 26, 27, 28, 29, 30, 31, 32, 33, 34, 35, 36, 37, 38, 39, 40,
   41, 42, 43, 44, 45, 46, 47, 48, 49, 50, 51,255,255,255,255,255,
  255,255,255,255,255,255,255,255,255,255,255,255,255,255,255,255,
  255,255,255,255,255,255,255,255,255,255,255,255,255,255,255,255,
  255,255,255,255,255,255,255,255,255,255,255,255,255,255,255,255,
  255,255,255,255,255,255,255,255,255,255,255,255,255,255,255,255,
  255,255,255,255,255,255,255,255,255,255,255,255,255,255,255,255,
  255,255,255,255,255,255,255,255,255,255,255,255,255,255,255,255,
  255,255,255,255,255,255,255,255,255,255,255,255,255,255,255,255,
  255,255,255,255,255,255,255,255,255,255,255,255,255,255,255,255]"

definition rank_of :: "u8 \<Rightarrow> u8" where
  "rank_of c = mime_base64_rank ! unat c"

text \<open>The locals of the decoding loop: \<open>v\<close>, \<open>i\<close>, \<open>last[0]\<close> and \<open>last[1]\<close>.\<close>

record b64_dec =
  dec_v :: u32
  dec_i :: nat
  last0 :: u8
  last1 :: u8

definition dec_byte :: "u8 \<Rightarrow> b64_dec \<Rightarrow> u8 list \<times> b64_dec" where
  "dec_byte c s =
     (let rank = rank_of c
      in if rank = 0xFF then ([], s)
         else let l1 = last0 s; v = push_bit 6 (dec_v s) OR ucast rank; i = Suc (dec_i s)
              in if i = 4 then
                   (ucast (drop_bit 16 v) #
                      (if l1 \<noteq> 0x3D then [ucast (drop_bit 8 v)] else []) @
                      (if c \<noteq> 0x3D then [ucast v] else []),
                    \<lparr>dec_v = v, dec_i = 0, last0 = c, last1 = l1\<rparr>)
                 else ([], \<lparr>dec_v = v, dec_i = i, last0 = c, last1 = l1\<rparr>))"

fun dec_loop :: "u8 list \<Rightarrow> b64_dec \<Rightarrow> u8 list \<times> b64_dec" where
  "dec_loop [] s = ([], s)"
| "dec_loop (c # cs) s =
     (let (o1, s1) = dec_byte c s; (o2, s2) = dec_loop cs s1 in (o1 @ o2, s2))"

text \<open>\<open>*state\<close> carries \<open>i\<close>, negated when the last character was the padding.\<close>

definition dec_open :: "int \<Rightarrow> u32 \<Rightarrow> b64_dec" where
  "dec_open state save =
     \<lparr>dec_v = save, dec_i = nat \<bar>state\<bar>, last0 = (if state < 0 then 0x3D else 0), last1 = 0\<rparr>"

definition dec_shut :: "b64_dec \<Rightarrow> int \<times> u32" where
  "dec_shut s = (if last0 s = 0x3D then - int (dec_i s) else int (dec_i s), dec_v s)"

definition g_base64_decode_step :: "u8 list \<Rightarrow> int \<Rightarrow> u32 \<Rightarrow> u8 list \<times> int \<times> u32" where
  "g_base64_decode_step inp state save =
     (if inp = [] then ([], state, save)
      else let (out, s) = dec_loop inp (dec_open state save) in (out, dec_shut s))"

text \<open>The text ends at its first NUL.\<close>

definition g_base64_decode :: "u8 list \<Rightarrow> u8 list" where
  "g_base64_decode text = fst (g_base64_decode_step (takeWhile (\<lambda>c. c \<noteq> 0) text) 0 0)"

text \<open>
  The length of the text is kept in a \<open>gint\<close>. \<open>None\<close> where \<open>g_return_val_if_fail\<close> returns \<open>NULL\<close>.
\<close>

definition g_base64_decode_inplace :: "u8 list \<Rightarrow> u8 list option" where
  "g_base64_decode_inplace text =
     (let t = takeWhile (\<lambda>c. c \<noteq> 0) text; input_length = gint_of (length t)
      in if \<not> 1 < input_length then None
         else Some (fst (g_base64_decode_step (take (nat input_length) t) 0 0)))"

section \<open>The alphabet and its inverse\<close>

lemma length_alphabet [simp]: "length base64_alphabet = 64"
  by (simp add: base64_alphabet_def)

lemma rank_alphabet_all:
  "list_all (\<lambda>i. rank_of (base64_alphabet ! i) = of_nat i \<and> base64_alphabet ! i \<noteq> 0x3D \<and> base64_alphabet ! i \<noteq> 0) [0..<64]"
  by (simp add: base64_alphabet_def rank_of_def mime_base64_rank_def upt_rec of_char_def)

lemma rank_alpha:
  assumes "x < 64"
  shows "ucast (rank_of (alpha x)) = x" "rank_of (alpha x) \<noteq> 0xFF" "alpha x \<noteq> 0x3D" "alpha x \<noteq> 0"
    "alpha x \<noteq> 0x0A"
proof -
  have n: "unat x < 64" using assms by (simp add: word_less_nat_alt)
  then have a: "rank_of (alpha x) = of_nat (unat x)" and neq: "alpha x \<noteq> 0x3D" "alpha x \<noteq> 0"
    using rank_alphabet_all unfolding alpha_def list_all_iff by auto
  show "alpha x \<noteq> 0x3D" "alpha x \<noteq> 0" using neq by simp_all
  have u: "unat (ucast x :: u8) = unat x" using n by (simp add: unat_ucast_mod)
  then show "ucast (rank_of (alpha x)) = x"
    using n unfolding a by (simp add: word_unat_eq_iff unat_ucast_mod)
  have "(ucast x :: u8) \<noteq> 0xFF"
  proof
    assume "(ucast x :: u8) = 0xFF"
    then have "unat x = unat (0xFF :: u8)" using u by metis
    with n show False by simp
  qed
  then show r: "rank_of (alpha x) \<noteq> 0xFF" using a by simp
  have "rank_of 0x0A = 0xFF" by (simp add: rank_of_def mime_base64_rank_def)
  with r show "alpha x \<noteq> 0x0A" by metis
qed

section \<open>Whole byte lists\<close>

text \<open>
  The encoding of a byte list as RFC 4648 describes it, by arithmetic and without the alphabet
  string of the code: three bytes are a 24-bit number, whose four digits to the base 64 are written
  as the letters A to Z and a to z, the digits 0 to 9, the plus sign and the slash; the last group
  is padded.
\<close>

definition b64_char :: "nat \<Rightarrow> u8" where
  "b64_char d = of_nat (if d < 26 then 65 + d else if d < 52 then 97 + (d - 26)
     else if d < 62 then 48 + (d - 52) else if d = 62 then 43 else 47)"

definition b64_group :: "u8 \<Rightarrow> u8 \<Rightarrow> u8 \<Rightarrow> u8 list" where
  "b64_group a b c =
     (let n = unat a * 65536 + unat b * 256 + unat c
      in [b64_char (n div 64 ^ 3), b64_char (n div 64 ^ 2 mod 64), b64_char (n div 64 mod 64), b64_char (n mod 64)])"

fun b64_ref :: "u8 list \<Rightarrow> u8 list" where
  "b64_ref (a # b # c # r) = b64_group a b c @ b64_ref r"
| "b64_ref [a, b] = take 3 (b64_group a b 0) @ [0x3D]"
| "b64_ref [a] = take 2 (b64_group a 0 0) @ [0x3D, 0x3D]"
| "b64_ref [] = []"

text \<open>The shifts and masks of the code compute these digits, and its table these characters.\<close>

lemma alpha_char: "x < 64 \<Longrightarrow> alpha x = b64_char (unat x)"
proof -
  have all: "list_all (\<lambda>i. base64_alphabet ! i = b64_char i) [0..<64]"
    by (simp add: base64_alphabet_def b64_char_def upt_rec of_char_def)
  assume "x < 64"
  then have "unat x \<in> set [0..<64]" by (simp add: word_less_nat_alt)
  with all show ?thesis unfolding alpha_def list_all_iff by blast
qed

lemma or_digits:
  fixes x y :: u32
  assumes "unat x < 2 ^ k" and "unat y < 2 ^ (6 - k)" and "k \<le> 6"
  shows "unat (x OR push_bit k y) = unat x + unat y * 2 ^ k"
proof -
  have z: "x AND push_bit k y = 0"
    using bits_ge_not[OF assms(1)] by (intro bit_word_eqI) (auto simp: bit_simps)
  have y: "unat (push_bit k y) = unat y * 2 ^ k"
  proof -
    have "unat y * 2 ^ k < 2 ^ (6 - k) * 2 ^ k" using assms(2) by simp
    also have "\<dots> = 2 ^ 6" using assms(3) by (simp flip: power_add)
    finally have "unat y * 2 ^ k < 2 ^ 32" by simp
    then have "take_bit 32 (push_bit k (unat y)) = unat y * 2 ^ k"
      by (simp add: push_bit_eq_mult take_bit_nat_eq_self)
    moreover have "unat (push_bit k y) = take_bit 32 (push_bit k (unat y))"
      by (simp only: unsigned_push_bit_eq len_bit0 len_num1 mult_1_right) simp
    ultimately show ?thesis by simp
  qed
  have "unat x + unat y * 2 ^ k < 2 ^ 6"
  proof -
    have "unat y * 2 ^ k \<le> (2 ^ (6 - k) - 1) * 2 ^ k" using assms(2) by (intro mult_right_mono) auto
    also have "\<dots> = 2 ^ 6 - 2 ^ k" using assms(3) by (simp add: diff_mult_distrib flip: power_add)
    finally show ?thesis using assms(1,3) power_increasing[of k 6 "2 :: nat"] by simp
  qed
  then have "unat (x + push_bit k y) = unat x + unat y * 2 ^ k"
    unfolding unat_plus_if' y by simp
  then show ?thesis by (simp add: disjunctive_add_eq_or[OF z, symmetric])
qed

lemma digit_eq: "n = (64 * k + d) * m + r \<Longrightarrow> r < m \<Longrightarrow> d < 64 \<Longrightarrow> n div m mod 64 = d" for n :: nat
  by (simp add: div_mult_self3)

lemma digits64:
  fixes a b c :: nat
  defines "n \<equiv> a * 65536 + b * 256 + c"
  assumes "a < 256" "b < 256" "c < 256"
  shows "n div 64 ^ 3 = a div 4" "n div 64 ^ 2 mod 64 = b div 16 + a mod 4 * 16"
    "n div 64 mod 64 = c div 64 + b mod 16 * 4" "n mod 64 = c mod 64"
proof -
  define a1 a0 b1 b0 c1 c0 where "a1 = a div 4" and "a0 = a mod 4" and "b1 = b div 16" and "b0 = b mod 16"
    and "c1 = c div 64" and "c0 = c mod 64"
  note parts = this
  have "a = 4 * a1 + a0" "b = 16 * b1 + b0" "c = 64 * c1 + c0" unfolding parts by simp_all
  then have n: "n = 262144 * a1 + 65536 * a0 + 4096 * b1 + 256 * b0 + 64 * c1 + c0"
    unfolding n_def by (simp add: algebra_simps)
  have bounds: "a0 < 4" "b1 < 16" "b0 < 16" "c1 < 4" "c0 < 64" using assms(2-4) unfolding parts by auto
  have "n div 262144 = a1" using bounds by (intro div_nat_eqI) (simp_all add: n)
  then show "n div 64 ^ 3 = a div 4" unfolding parts by simp
  have "n div 4096 mod 64 = b1 + a0 * 16"
    using bounds by (intro digit_eq[of _ a1 _ _ "256 * b0 + 64 * c1 + c0"]) (simp_all add: n)
  then show "n div 64 ^ 2 mod 64 = b div 16 + a mod 4 * 16" unfolding parts by simp
  show "n div 64 mod 64 = c div 64 + b mod 16 * 4" unfolding parts[symmetric]
    using bounds by (intro digit_eq[of _ "64 * a1 + 16 * a0 + b1" _ _ c0]) (simp_all add: n)
  have "n = c + 64 * (a * 1024 + b * 4)" unfolding n_def by (simp add: algebra_simps)
  then show "n mod 64 = c mod 64" by (simp only: mod_mult_self2)
qed

lemma emit_group: "emit a b c = b64_group a b c"
proof -
  define n where "n = unat a * 65536 + unat b * 256 + unat c"
  have bytes: "unat a < 256" "unat b < 256" "unat c < 256"
    using unat_bound[of a] unat_bound[of b] unat_bound[of c] by simp_all
  have masks: "(3 :: u32) = mask 2" "(15 :: u32) = mask 4" "(63 :: u32) = mask 6"
    by (simp_all add: mask_eq_exp_minus_1)
  have w: "unat (ucast (x :: u8) :: u32) = unat x" for x
    using unat_bound[of x] by (simp add: unat_ucast_mod)
  have low: "unat (ucast (x :: u8) AND mask k :: u32) = unat x mod 2 ^ k" for x k
    unfolding take_bit_eq_mask[symmetric] unsigned_take_bit_eq w by (rule take_bit_eq_mod)
  have high: "unat (drop_bit k (ucast (x :: u8)) :: u32) = unat x div 2 ^ k" for x k
    unfolding unat_drop_bit_eq w by (rule drop_bit_eq_div)
  note d = digits64[OF bytes, folded n_def]
  have 1: "unat (drop_bit 2 (ucast a) :: u32) = n div 64 ^ 3"
    unfolding high d by simp
  have 2: "unat (drop_bit 4 (ucast b) OR push_bit 4 (ucast a AND 3) :: u32) = n div 64 ^ 2 mod 64"
    using bytes unfolding masks by (subst or_digits) (simp_all only: low high d, simp_all)
  have 3: "unat (push_bit 2 (ucast b AND 15) OR drop_bit 6 (ucast c) :: u32) = n div 64 mod 64"
    using bytes unfolding masks or.commute[of "push_bit 2 _"]
    by (subst or_digits) (simp_all only: low high d, simp_all)
  have 4: "unat (ucast c AND 63 :: u32) = n mod 64"
    unfolding masks low d by simp
  have bounds: "x < 64" if "unat x < 64" for x :: u32
    using that by (simp add: word_less_nat_alt)
  have "n div 64 ^ 3 < 64" using bytes unfolding n_def by simp
  then show ?thesis
    unfolding emit_def b64_group_def Let_def n_def[symmetric]
    by (simp only: alpha_char bounds 1 2 3 4 mod_less_divisor zero_less_numeral)
qed

lemma b64_ref_emit:
  "b64_ref (a # b # c # r) = emit a b c @ b64_ref r"
  "b64_ref [a, b] = take 3 (emit a b 0) @ [0x3D]"
  "b64_ref [a] = take 2 (emit a 0 0) @ [0x3D, 0x3D]"
  by (simp_all add: emit_group)

declare b64_ref.simps(1-3) [simp del]
declare b64_ref_emit [simp]

lemma length_b64_ref: "length (b64_ref xs) = 4 * ((length xs + 2) div 3)"
proof (induction xs rule: b64_ref.induct)
  case (1 a b c r)
  have "(length (a # b # c # r) + 2) div 3 = Suc ((length r + 2) div 3)" by simp
  with 1 show ?case by (simp add: emit_def Let_def del: length_Cons)
qed (simp_all add: emit_def Let_def)

definition enc_pending :: "b64_enc \<Rightarrow> u8 list" where
  "enc_pending s = take (save0 s) [save1 s, save2 s]"

lemma mask_lits: "(3 :: u32) = mask 2" "(15 :: u32) = mask 4" "(63 :: u32) = mask 6"
  by (simp_all add: mask_eq_exp_minus_1)

lemma emit_index:
  fixes b1 b2 b3 :: u8
  defines "c1 \<equiv> ucast b1 :: u32" and "c2 \<equiv> ucast b2 :: u32" and "c3 \<equiv> ucast b3 :: u32"
  shows "drop_bit 2 c1 < 64" "drop_bit 4 c2 OR push_bit 4 (c1 AND 3) < 64"
    "push_bit 2 (c2 AND 15) OR drop_bit 6 c3 < 64" "c3 AND 63 < 64"
proof -
  have w: "x < 64" if "\<And>n. 6 \<le> n \<Longrightarrow> \<not> bit x n" for x :: u32
    using bits_below[of 6 x] that by (simp add: word_less_nat_alt)
  show "drop_bit 2 c1 < 64" "drop_bit 4 c2 OR push_bit 4 (c1 AND 3) < 64"
    "push_bit 2 (c2 AND 15) OR drop_bit 6 c3 < 64" "c3 AND 63 < 64"
    unfolding c1_def c2_def c3_def mask_lits by (auto intro!: w simp: bit_simps bit_u8_high)
qed

text \<open>Four characters decode to the three bytes they came from, whatever was in \<open>v\<close> before.\<close>

lemma quad_bytes:
  fixes b1 b2 b3 :: u8 and v :: u32
  defines "c1 \<equiv> ucast b1 :: u32" and "c2 \<equiv> ucast b2 :: u32" and "c3 \<equiv> ucast b3 :: u32"
  defines "w \<equiv> push_bit 6 (push_bit 6 (push_bit 6 (push_bit 6 v OR drop_bit 2 c1) OR
      (drop_bit 4 c2 OR push_bit 4 (c1 AND 3))) OR (push_bit 2 (c2 AND 15) OR drop_bit 6 c3)) OR (c3 AND 63)"
  shows "ucast (drop_bit 16 w) = b1" "ucast (drop_bit 8 w) = b2" "ucast w = b3"
proof -
  have byteI: "x = y" if "bit x 0 = bit y 0" "bit x 1 = bit y 1" "bit x 2 = bit y 2" "bit x 3 = bit y 3"
    "bit x 4 = bit y 4" "bit x 5 = bit y 5" "bit x 6 = bit y 6" "bit x 7 = bit y 7" for x y :: u8
    using that by (intro bit_word_eqI) (auto simp: less_Suc_eq numeral_eq_Suc)
  show "ucast (drop_bit 16 w) = b1" "ucast (drop_bit 8 w) = b2" "ucast w = b3"
    unfolding w_def c1_def c2_def c3_def mask_lits by (rule byteI, simp_all add: bit_simps bit_u8_high)+
qed

lemma dec_alpha:
  "x < 64 \<Longrightarrow> dec_byte (alpha x) s =
     (let v = push_bit 6 (dec_v s) OR x
      in if dec_i s = 3 then
           (ucast (drop_bit 16 v) # (if last0 s \<noteq> 0x3D then [ucast (drop_bit 8 v)] else []) @ [ucast v],
            \<lparr>dec_v = v, dec_i = 0, last0 = alpha x, last1 = last0 s\<rparr>)
         else ([], \<lparr>dec_v = v, dec_i = Suc (dec_i s), last0 = alpha x, last1 = last0 s\<rparr>))"
  by (simp add: dec_byte_def rank_alpha Let_def eval_nat_numeral)

lemma dec_pad:
  "dec_byte 0x3D s =
     (let v = push_bit 6 (dec_v s)
      in if dec_i s = 3 then
           (ucast (drop_bit 16 v) # (if last0 s \<noteq> 0x3D then [ucast (drop_bit 8 v)] else []),
            \<lparr>dec_v = v, dec_i = 0, last0 = 0x3D, last1 = last0 s\<rparr>)
         else ([], \<lparr>dec_v = v, dec_i = Suc (dec_i s), last0 = 0x3D, last1 = last0 s\<rparr>))"
proof -
  have "rank_of 0x3D = 0" by (simp add: rank_of_def mime_base64_rank_def)
  moreover have "Suc (dec_i s) = 4 \<longleftrightarrow> dec_i s = 3" by arith
  ultimately show ?thesis by (simp add: dec_byte_def Let_def)
qed

definition join6 :: "u32 \<Rightarrow> u32 \<Rightarrow> u32 \<Rightarrow> u32 \<Rightarrow> u32 \<Rightarrow> u32" where
  "join6 v x1 x2 x3 x4 = push_bit 6 (push_bit 6 (push_bit 6 (push_bit 6 v OR x1) OR x2) OR x3) OR x4"

lemma dec_quad:
  assumes "x1 < 64" "x2 < 64" "x3 < 64" "dec_i s = 0"
  shows "x4 < 64 \<Longrightarrow> dec_loop (alpha x1 # alpha x2 # alpha x3 # alpha x4 # r) s =
      (let v = join6 (dec_v s) x1 x2 x3 x4;
           (out, t) = dec_loop r \<lparr>dec_v = v, dec_i = 0, last0 = alpha x4, last1 = alpha x3\<rparr>
       in (ucast (drop_bit 16 v) # ucast (drop_bit 8 v) # ucast v # out, t))"
    and "dec_loop (alpha x1 # alpha x2 # alpha x3 # 0x3D # r) s =
      (let v = join6 (dec_v s) x1 x2 x3 0;
           (out, t) = dec_loop r \<lparr>dec_v = v, dec_i = 0, last0 = 0x3D, last1 = alpha x3\<rparr>
       in (ucast (drop_bit 16 v) # ucast (drop_bit 8 v) # out, t))"
    and "dec_loop (alpha x1 # alpha x2 # 0x3D # 0x3D # r) s =
      (let v = join6 (dec_v s) x1 x2 0 0;
           (out, t) = dec_loop r \<lparr>dec_v = v, dec_i = 0, last0 = 0x3D, last1 = 0x3D\<rparr>
       in (ucast (drop_bit 16 v) # out, t))"
  using assms by (simp_all add: dec_alpha dec_pad Let_def rank_alpha join6_def)

lemma dec_emit:
  assumes "dec_i s = 0"
  obtains s' where "dec_i s' = 0"
    "dec_loop (emit a b c @ r) s = (a # b # c # fst (dec_loop r s'), snd (dec_loop r s'))"
proof -
  note q = quad_bytes[of "dec_v s" a b c, folded join6_def]
  show thesis
    by (rule that[of "\<lparr>dec_v = join6 (dec_v s) (drop_bit 2 (ucast a)) (drop_bit 4 (ucast b) OR push_bit 4 (ucast a AND 3))
        (push_bit 2 (ucast b AND 15) OR drop_bit 6 (ucast c)) (ucast c AND 63), dec_i = 0,
        last0 = alpha (ucast c AND 63), last1 = alpha (push_bit 2 (ucast b AND 15) OR drop_bit 6 (ucast c))\<rparr>"])
      (simp_all only: emit_def Let_def append.simps dec_quad(1)[OF emit_index(1-3) assms emit_index(4)] q
        b64_dec.select_convs split_def prod.sel)
qed

lemma dec_tail:
  assumes "dec_i s = 0"
  shows "fst (dec_loop (b64_ref [a, b]) s) = [a, b]" "fst (dec_loop (b64_ref [a]) s) = [a]"
proof -
  note q2 = quad_bytes[of "dec_v s" a b 0, folded join6_def] and q1 = quad_bytes[of "dec_v s" a 0 0, folded join6_def]
  have takes: "take 2 [x, y, z, u] = [x, y]" "take 3 [x, y, z, u] = [x, y, z]" for x y z u :: u8
    by simp_all
  have z: "ucast (0 :: u8) AND (63 :: u32) = 0" "push_bit 2 (ucast (0 :: u8) AND 15) OR drop_bit 6 (ucast (0 :: u8)) = (0 :: u32)"
    by simp_all
  show "fst (dec_loop (b64_ref [a, b]) s) = [a, b]"
    using q2 unfolding z
    by (simp only: b64_ref_emit emit_def Let_def takes append.simps
        dec_quad(2)[OF emit_index(1-3) assms] dec_loop.simps(1) split_def prod.sel)
  show "fst (dec_loop (b64_ref [a]) s) = [a]"
    using q1 unfolding z
    by (simp only: b64_ref_emit emit_def Let_def takes append.simps
        dec_quad(3)[OF emit_index(1,2) emit_index(4)[of 0] assms] dec_loop.simps(1) split_def prod.sel)
qed

lemma dec_ref: "dec_i s = 0 \<Longrightarrow> fst (dec_loop (b64_ref xs) s) = xs"
proof (induction xs arbitrary: s rule: b64_ref.induct)
  case (1 a b c r)
  obtain s' where "dec_i s' = 0" "dec_loop (emit a b c @ b64_ref r) s = (a # b # c # fst (dec_loop (b64_ref r) s'), snd (dec_loop (b64_ref r) s'))"
    by (rule dec_emit[OF 1(2)])
  with 1(1) show ?case by simp
qed (simp_all only: dec_tail, simp)

section \<open>The encoder against the reference\<close>

lemma enc_loop_ref:
  "enc_loop False n xs = (out, n', rest) \<Longrightarrow> length rest < 3 \<and> n' = n \<and> b64_ref (xs @ ys) = out @ b64_ref (rest @ ys)"
  by (induction False n xs arbitrary: out n' rest rule: enc_loop.induct)
    (auto simp: line_break_def Let_def split: prod.splits)

lemma enc_loop_rest: "enc_loop br n xs = (out, n', rest) \<Longrightarrow> length rest = length xs mod 3"
  by (induction br n xs arbitrary: out n' rest rule: enc_loop.induct)
    (auto simp: Let_def line_break_def split: prod.splits)

lemma enc_keep_pending:
  "length bs + save0 s \<le> 2 \<Longrightarrow> enc_pending (enc_keep bs s) = enc_pending s @ bs \<and>
     save0 (enc_keep bs s) = save0 s + length bs \<and> enc_state (enc_keep bs s) = enc_state s"
proof (induction bs arbitrary: s)
  case (Cons b bs)
  let ?s = "if save0 s = 0 then s\<lparr>save1 := b, save0 := 1\<rparr> else s\<lparr>save2 := b, save0 := Suc (save0 s)\<rparr>"
  have "save0 s = 0 \<or> save0 s = 1" using Cons.prems by auto
  then have "enc_pending ?s = enc_pending s @ [b]" "save0 ?s = Suc (save0 s)" "enc_state ?s = enc_state s"
    by (auto simp: enc_pending_def)
  then show ?case using Cons.IH[of ?s] Cons.prems by simp
qed simp

lemma enc_enter_pending: "save0 s \<le> 2 \<Longrightarrow> enc_enter s inp = enc_pending s @ inp"
  by (auto simp: enc_enter_def enc_pending_def le_Suc_eq numeral_2_eq_2)

lemma length_pending: "save0 s \<le> 2 \<Longrightarrow> length (enc_pending s) = save0 s"
  by (simp add: enc_pending_def)

text \<open>
  The step without line breaks: output and saved bytes together are the encoding of the saved
  bytes and the input, and at most two bytes are saved.
\<close>

lemma encode_step_ref:
  assumes "save0 s \<le> 2" and "g_base64_encode_step inp False s = (out, s')"
  shows "save0 s' \<le> 2 \<and> save0 s' = (save0 s + length inp) mod 3 \<and>
    (\<forall>ys. b64_ref (enc_pending s @ inp @ ys) = out @ b64_ref (enc_pending s' @ ys))"
proof (cases "inp = [] \<or> \<not> 2 < length inp + save0 s")
  case True
  then show ?thesis
    using assms enc_keep_pending[of inp s] by (auto simp: g_base64_encode_step_def Let_def split: if_splits)
next
  case False
  obtain o1 n rest where l: "enc_loop False (enc_state s) (enc_pending s @ inp) = (o1, n, rest)" by (metis prod_cases3)
  note r = enc_loop_ref[OF l] and len = enc_loop_rest[OF l]
  let ?s = "s\<lparr>save0 := 0, enc_state := n\<rparr>"
  have "length rest = (save0 s + length inp) mod 3"
    using len length_pending[OF assms(1)] by simp
  moreover have "out = o1" "s' = enc_keep rest ?s"
    using False assms l by (auto simp: g_base64_encode_step_def enc_enter_pending)
  moreover have "length rest + save0 ?s \<le> 2" using r[of "[]"] by simp
  ultimately show ?thesis
    using enc_keep_pending[of rest ?s] r enc_pending_def[of ?s] by simp
qed

lemma alpha_zero_or: "drop_bit 4 (w :: u32) = 0 \<Longrightarrow> alpha (drop_bit 4 w OR x) = alpha x"
  by simp

lemma encode_close_ref:
  assumes "save0 s \<le> 2" and "save0 s = 1 \<longrightarrow> save2 s = 0"
  shows "fst (g_base64_encode_close False s) = b64_ref (enc_pending s)"
  using assms by (auto simp: g_base64_encode_close_def Let_def enc_pending_def emit_def le_Suc_eq numeral_2_eq_2 numeral_3_eq_3)

lemma enc_keep_fresh: "length bs \<le> 1 \<Longrightarrow> save2 (enc_keep bs s) = (if save0 s = 0 then save2 s else save2 (enc_keep bs s))"
  by (cases bs) auto

lemma encode_step_fresh:
  assumes "g_base64_encode_step inp False enc_init = (out, s')" and "save0 s' = 1"
  shows "save2 s' = 0"
proof -
  have fresh: "save2 (enc_keep bs (enc_init\<lparr>save0 := 0, enc_state := n\<rparr>)) = 0"
    if "length bs < 3" "save0 (enc_keep bs (enc_init\<lparr>save0 := 0, enc_state := n\<rparr>)) = 1" for bs n
  proof -
    have "length bs = 1" using enc_keep_pending[of bs "enc_init\<lparr>save0 := 0, enc_state := n\<rparr>"] that by simp
    then show ?thesis by (cases bs) (auto simp: enc_init_def)
  qed
  show ?thesis
  proof (cases "inp = [] \<or> \<not> 2 < length inp + save0 enc_init")
    case True
    then show ?thesis
      using assms fresh[of inp 0] by (auto simp: g_base64_encode_step_def enc_init_def split: if_splits)
  next
    case False
    obtain o1 n rest where l: "enc_loop False 0 inp = (o1, n, rest)" by (metis prod_cases3)
    with False assms(1) have "s' = enc_keep rest (enc_init\<lparr>save0 := 0, enc_state := n\<rparr>)"
      by (auto simp: g_base64_encode_step_def enc_enter_def enc_init_def)
    with fresh[of rest n] enc_loop_ref[OF l] assms(2) show ?thesis by simp
  qed
qed

section \<open>Line breaks\<close>

lemma emit_chars: "set (emit a b c) \<inter> {0x0A, 0} = {}"
  unfolding emit_def Let_def using rank_alpha(4,5)[OF emit_index(1)] rank_alpha(4,5)[OF emit_index(2)]
    rank_alpha(4,5)[OF emit_index(3)] rank_alpha(4,5)[OF emit_index(4)]
  by (auto simp del: push_bit_and)

lemma filter_emit [simp]: "filter (\<lambda>c. c \<noteq> 0x0A) (emit a b c) = emit a b c"
  using emit_chars by (intro filter_True) blast

lemma enc_loop_breaks:
  "(case enc_loop br n xs of (out, _, rest) \<Rightarrow> (filter (\<lambda>c. c \<noteq> 0x0A) out, rest)) =
   (case enc_loop False m xs of (out, _, rest) \<Rightarrow> (out, rest))"
proof (induction br n xs arbitrary: m rule: enc_loop.induct)
  case (1 br already b1 b2 b3 rest)
  obtain nl n' where lb: "line_break br already = (nl, n')" by force
  have "filter (\<lambda>c. c \<noteq> 0x0A) nl = []" using lb by (auto simp: line_break_def split: if_splits)
  then show ?case using 1[OF refl lb[symmetric], of m] lb
    by (auto simp: line_break_def[of False] split: prod.splits)
qed simp_all

lemma dec_loop_newlines: "dec_loop (filter (\<lambda>c. c \<noteq> 0x0A) cs) s = dec_loop cs s"
proof -
  have "rank_of 0x0A = 0xFF" by (simp add: rank_of_def mime_base64_rank_def)
  then have "dec_byte 0x0A s = ([], s)" for s by (simp add: dec_byte_def)
  then show ?thesis by (induction cs arbitrary: s) (auto simp: Let_def)
qed

lemma enc_keep_state: "enc_keep bs (s\<lparr>enc_state := n\<rparr>) = (enc_keep bs s)\<lparr>enc_state := n\<rparr>"
proof (induction bs arbitrary: s)
  case (Cons b bs)
  show ?case
    using Cons[of "s\<lparr>save1 := b, save0 := 1\<rparr>"] Cons[of "s\<lparr>save2 := b, save0 := Suc (save0 s)\<rparr>"]
    by (cases s) simp
qed simp

lemma encode_step_breaks:
  assumes "g_base64_encode_step inp br s = (out, t)" and "g_base64_encode_step inp False s = (out', t')"
  shows "filter (\<lambda>c. c \<noteq> 0x0A) out = out'" "save0 t = save0 t'" "save1 t = save1 t'" "save2 t = save2 t'"
proof -
  obtain o1 n1 r1 where l1: "enc_loop br (enc_state s) (enc_enter s inp) = (o1, n1, r1)" by (metis prod_cases3)
  obtain o2 n2 r2 where l2: "enc_loop False (enc_state s) (enc_enter s inp) = (o2, n2, r2)" by (metis prod_cases3)
  have "filter (\<lambda>c. c \<noteq> 0x0A) o1 = o2" "r1 = r2"
    using enc_loop_breaks[of br "enc_state s" "enc_enter s inp" "enc_state s"] l1 l2 by simp_all
  with assms l1 l2 enc_keep_state[of r2 _ "s\<lparr>save0 := 0\<rparr>"]
  show "filter (\<lambda>c. c \<noteq> 0x0A) out = out'" "save0 t = save0 t'" "save1 t = save1 t'" "save2 t = save2 t'"
    by (auto simp: g_base64_encode_step_def split: if_splits)
qed

lemma encode_close_breaks:
  assumes "save0 s = save0 t" "save1 s = save1 t" "save2 s = save2 t"
  shows "filter (\<lambda>c. c \<noteq> 0x0A) (fst (g_base64_encode_close br s)) =
    filter (\<lambda>c. c \<noteq> 0x0A) (fst (g_base64_encode_close False t))"
  using assms by (simp add: g_base64_encode_close_def Let_def)

lemma ref_chars: "set (b64_ref xs) \<inter> {0x0A, 0} = {}"
proof (induction xs rule: b64_ref.induct)
  case (1 a b c r)
  then show ?case using emit_chars[of a b c] by auto
next
  case (2 a b)
  show ?case using emit_chars[of a b 0] set_take_subset[of 3 "emit a b 0"] by auto
next
  case (3 a)
  show ?case using emit_chars[of a 0 0] set_take_subset[of 2 "emit a 0 0"] by auto
qed simp

lemma encode_once:
  assumes "g_base64_encode_step data False enc_init = (o1, s)"
  shows "o1 @ fst (g_base64_encode_close False s) = b64_ref data"
proof -
  have i: "save0 enc_init \<le> 2" by (simp add: enc_init_def)
  note r = encode_step_ref[OF i assms]
  have r: "save0 s \<le> 2" "b64_ref (enc_pending enc_init @ data @ []) = o1 @ b64_ref (enc_pending s @ [])"
    using r by blast+
  have "fst (g_base64_encode_close False s) = b64_ref (enc_pending s)"
    by (rule encode_close_ref) (use r(1) encode_step_fresh[OF assms] in auto)
  with r(2) show ?thesis by (simp add: enc_init_def enc_pending_def)
qed

section \<open>Input in pieces\<close>

fun encode_chunks :: "u8 list list \<Rightarrow> b64_enc \<Rightarrow> u8 list \<times> b64_enc" where
  "encode_chunks [] s = ([], s)"
| "encode_chunks (c # cs) s =
     (let (o1, s1) = g_base64_encode_step c False s; (o2, s2) = encode_chunks cs s1 in (o1 @ o2, s2))"

lemma encode_chunks_ref:
  "save0 s \<le> 2 \<Longrightarrow> encode_chunks cs s = (out, s') \<Longrightarrow>
   save0 s' \<le> 2 \<and> save0 s' = (save0 s + length (concat cs)) mod 3 \<and>
   b64_ref (enc_pending s @ concat cs) = out @ b64_ref (enc_pending s')"
proof (induction cs arbitrary: s out s')
  case (Cons c cs)
  obtain o1 s1 where 1: "g_base64_encode_step c False s = (o1, s1)" by force
  obtain o2 s2 where 2: "encode_chunks cs s1 = (o2, s2)" by force
  have out: "out = o1 @ o2" "s' = s2" using Cons.prems 1 2 by auto
  note r1 = encode_step_ref[OF Cons.prems(1) 1]
  then have r2: "save0 s2 \<le> 2 \<and> save0 s2 = (save0 s1 + length (concat cs)) mod 3 \<and>
    b64_ref (enc_pending s1 @ concat cs) = o2 @ b64_ref (enc_pending s2)"
    using Cons.IH[OF _ 2] by blast
  have "(save0 s1 + length (concat cs)) mod 3 = (save0 s + length (concat (c # cs))) mod 3"
    using r1 by (simp add: mod_simps add.assoc)
  moreover have "b64_ref (enc_pending s @ c @ concat cs) = o1 @ b64_ref (enc_pending s1 @ concat cs)"
    using r1 by blast
  ultimately show ?case using r2 out by simp
qed simp

text \<open>Two decoder states that differ only in what no later step looks at.\<close>

definition dec_rel :: "b64_dec \<Rightarrow> b64_dec \<Rightarrow> bool" where
  "dec_rel s t \<longleftrightarrow> dec_v s = dec_v t \<and> dec_i s = dec_i t \<and>
     (dec_i s \<noteq> 0 \<longrightarrow> (last0 s = 0x3D) = (last0 t = 0x3D))"

lemma dec_rel_byte:
  "dec_rel s t \<Longrightarrow> fst (dec_byte c s) = fst (dec_byte c t) \<and> dec_rel (snd (dec_byte c s)) (snd (dec_byte c t))"
  by (auto simp: dec_rel_def dec_byte_def Let_def)

lemma dec_rel_loop:
  "dec_rel s t \<Longrightarrow> fst (dec_loop cs s) = fst (dec_loop cs t) \<and> dec_rel (snd (dec_loop cs s)) (snd (dec_loop cs t))"
proof (induction cs arbitrary: s t)
  case (Cons c cs)
  then show ?case using dec_rel_byte[OF Cons.prems, of c] Cons.IH[of "snd (dec_byte c s)" "snd (dec_byte c t)"]
    by (simp add: split_def Let_def)
qed simp

lemma dec_rel_shut: "dec_rel s t \<Longrightarrow> dec_shut s = dec_shut t"
  by (auto simp: dec_rel_def dec_shut_def)

lemma dec_rel_open: "dec_shut s = (st, sv) \<Longrightarrow> dec_rel s (dec_open st sv)"
  by (auto simp: dec_rel_def dec_shut_def dec_open_def split: if_splits)

lemma dec_loop_append:
  "dec_loop (xs @ ys) s = (fst (dec_loop xs s) @ fst (dec_loop ys (snd (dec_loop xs s))), snd (dec_loop ys (snd (dec_loop xs s))))"
  by (induction xs arbitrary: s) (simp_all add: split_def Let_def)

lemma decode_step_loop:
  "g_base64_decode_step xs st sv = (fst (dec_loop xs (dec_open st sv)), dec_shut (snd (dec_loop xs (dec_open st sv))))"
  by (cases "xs = []") (simp_all add: g_base64_decode_step_def split_def Let_def dec_shut_def dec_open_def)

section \<open>Properties\<close>

lemma length_encode_once:
  assumes "g_base64_encode_step data False enc_init = (o1, s)"
  shows "length o1 = 4 * (length data div 3)"
    and "length (fst (g_base64_encode_close False s)) = (if length data mod 3 = 0 then 0 else 4)"
proof -
  have i: "save0 enc_init \<le> 2" "save0 enc_init = 0" by (simp_all add: enc_init_def)
  have s: "save0 s = length data mod 3" using encode_step_ref[OF i(1) assms] i by simp
  then show close: "length (fst (g_base64_encode_close False s)) = (if length data mod 3 = 0 then 0 else 4)"
    by (auto simp: g_base64_encode_close_def Let_def)
  have "length o1 + length (fst (g_base64_encode_close False s)) = 4 * ((length data + 2) div 3)"
    unfolding length_b64_ref[symmetric] encode_once[OF assms, symmetric] by simp
  moreover have "(length data + 2) div 3 = length data div 3 + (if length data mod 3 = 0 then 0 else 1)"
    by presburger
  ultimately show "length o1 = 4 * (length data div 3)" unfolding close by (auto split: if_splits)
qed

lemma encode_fits:
  assumes "length data \<le> 1610612733"
  shows "g_base64_encode data = Some (b64_ref data)"
proof -
  obtain o1 s where 1: "g_base64_encode_step data False enc_init = (o1, s)" by force
  obtain o2 t where 2: "g_base64_encode_close False s = (o2, t)" by force
  have "length o1 + length o2 = length (b64_ref data)" using encode_once[OF 1] 2 by (metis length_append fst_conv)
  then have "length o1 + length o2 < 2147483648" "nat (int (length o1) + int (length o2)) = length (b64_ref data)"
    using assms unfolding length_b64_ref by simp_all
  with 1 2 assms encode_once[OF 1] show ?thesis by (simp add: g_base64_encode_def gint_of_small)
qed

lemma encode_overruns:
  assumes "1610612733 < length data" and "length data < 3 * 2 ^ 30"
  shows "g_base64_encode data = None"
proof -
  obtain o1 s where 1: "g_base64_encode_step data False enc_init = (o1, s)" by force
  obtain o2 t where 2: "g_base64_encode_close False s = (o2, t)" by force
  have len: "length o1 = 4 * (length data div 3)" "length o2 = (if length data mod 3 = 0 then 0 else 4)"
    using length_encode_once[OF 1] 2 by simp_all
  have b: "length o1 < 4294967296" using len(1) assms by simp
  consider "2147483648 \<le> length o1" | "length o1 < 2147483648" "length o1 + length o2 = 2147483648"
  proof (cases "536870912 \<le> length data div 3")
    case True
    then show ?thesis using that(1) len(1) by simp
  next
    case False
    then have "length data div 3 = 536870911" "length data mod 3 \<noteq> 0" using assms(1) by presburger+
    then show ?thesis using that(2) len by simp
  qed
  then show ?thesis
  proof cases
    case 1
    then have "gint_of (length o1) < 0" using b by (rule gint_of_negative)
    with \<open>g_base64_encode_step data False enc_init = (o1, s)\<close> show ?thesis by (simp add: g_base64_encode_def)
  next
    case 2
    then have "gint_of (length o1 + length o2) < 0" by (intro gint_of_negative) simp_all
    with 2 \<open>g_base64_encode_step data False enc_init = (o1, s)\<close> \<open>g_base64_encode_close False s = (o2, t)\<close>
    show ?thesis by (simp add: g_base64_encode_def gint_of_small)
  qed
qed

text \<open>
  C11: \<open>g_base64_encode\<close> computes Base64: up to 1610612733 bytes of input, which are 2^31 - 4
  characters of output, it returns the encoding of the bytes as RFC 4648 describes it, in groups of
  three with padding. From there up to 2^32 characters of output, which its own check of the length
  lets pass, the \<open>gint\<close> that holds the length of the output becomes negative and it writes outside
  of the buffer.
\<close>
theorem base64_encode_ref:
  assumes "length data < 3 * 2 ^ 30"
  shows "g_base64_encode data = (if length data \<le> 1610612733 then Some (b64_ref data) else None)"
  using encode_fits[of data] encode_overruns[OF _ assms] by auto

theorem base64_encode_ref_witness: "g_base64_encode [0x4D, 0x61] = Some (b64_ref [0x4D, 0x61])"
  using base64_encode_ref[of "[0x4D, 0x61]"] by simp

text \<open>What the reference gives for the three bytes of \<open>Man\<close> and for a padded group.\<close>

theorem b64_ref_example:
  "b64_ref [0x4D, 0x61, 0x6E] = map of_char ''TWFu''" "b64_ref [0x4D, 0x61] = map of_char ''TWE=''"
  by (simp_all add: b64_group_def b64_char_def Let_def of_char_def del: b64_ref_emit add: b64_ref.simps)

text \<open>
  \<open>g_base64_decode_inplace\<close> gives what \<open>g_base64_decode\<close> gives on a text of two or more characters
  below 2^31; shorter texts are refused, and so is a text of 2^32 characters.
\<close>
theorem decode_inplace:
  assumes "0 \<notin> set text"
  shows "length text < 2147483648 \<Longrightarrow>
      g_base64_decode_inplace (text @ 0 # junk) =
        (if length text \<le> 1 then None else Some (g_base64_decode (text @ 0 # junk)))"
    and "length text = 4294967296 \<Longrightarrow> g_base64_decode_inplace (text @ 0 # junk) = None"
proof -
  have t: "takeWhile (\<lambda>c. c \<noteq> 0) (text @ 0 # junk) = text"
    using assms by (subst takeWhile_append2) auto
  show "length text < 2147483648 \<Longrightarrow>
      g_base64_decode_inplace (text @ 0 # junk) =
        (if length text \<le> 1 then None else Some (g_base64_decode (text @ 0 # junk)))"
    unfolding g_base64_decode_inplace_def g_base64_decode_def t by (simp add: gint_of_small)
  show "length text = 4294967296 \<Longrightarrow> g_base64_decode_inplace (text @ 0 # junk) = None"
    using gint_of_wraps[of 1] unfolding g_base64_decode_inplace_def t by simp
qed

text \<open>
  C10: Decoding what the encoder wrote in one step and a close, with or without line breaks, gives
  back the data, whatever follows the terminating NUL.
\<close>
theorem base64_roundtrip:
  assumes "g_base64_encode_step data br enc_init = (o1, s)"
  shows "g_base64_decode ((o1 @ fst (g_base64_encode_close br s)) @ 0 # junk) = data"
proof -
  let ?t = "o1 @ fst (g_base64_encode_close br s)"
  obtain o2 s2 where 2: "g_base64_encode_step data False enc_init = (o2, s2)" by force
  note b = encode_step_breaks[OF assms 2]
  have "filter (\<lambda>c. c \<noteq> 0x0A) ?t = filter (\<lambda>c. c \<noteq> 0x0A) (b64_ref data)"
    unfolding encode_once[OF 2, symmetric] filter_append b(1)[symmetric] encode_close_breaks[OF b(2-4), of br] by simp
  also have "\<dots> = b64_ref data" using ref_chars[of data] by (intro filter_True) auto
  finally have f: "filter (\<lambda>c. c \<noteq> 0x0A) ?t = b64_ref data" .
  have "0 \<notin> set ?t"
  proof
    assume "0 \<in> set ?t"
    then have "0 \<in> set (filter (\<lambda>c. c \<noteq> 0x0A) ?t)" by simp
    then show False unfolding f using ref_chars[of data] by blast
  qed
  then have t: "takeWhile (\<lambda>c. c \<noteq> 0) (?t @ 0 # junk) = ?t" by (subst takeWhile_append2) auto
  have "fst (dec_loop ?t (dec_open 0 0)) = data"
    using dec_ref[of "dec_open 0 0" data] unfolding f[symmetric] dec_loop_newlines by (simp add: dec_open_def)
  then have "fst (g_base64_decode_step ?t 0 0) = data"
    unfolding g_base64_decode_step_def by (auto split: prod.split)
  then show ?thesis unfolding g_base64_decode_def t .
qed

theorem base64_roundtrip_witness:
  "\<exists>o1 s. g_base64_encode_step [1, 2, 3, 4] True enc_init = (o1, s) \<and>
     g_base64_decode ((o1 @ fst (g_base64_encode_close True s)) @ [0]) = [1, 2, 3, 4]"
proof -
  obtain o1 s where e: "g_base64_encode_step [1, 2, 3, 4] True enc_init = (o1, s)" by force
  from base64_roundtrip[OF e, of "[]"] e show ?thesis by blast
qed

text \<open>
  Decoding in pieces is decoding at once: the output and the saved state of two decoding steps
  on \<open>xs\<close> and then \<open>ys\<close> are those of one step on both, wherever the text is cut.
\<close>
theorem base64_decode_pieces:
  "g_base64_decode_step (xs @ ys) st sv =
     (let (o1, st1, sv1) = g_base64_decode_step xs st sv; (o2, st2, sv2) = g_base64_decode_step ys st1 sv1
      in (o1 @ o2, st2, sv2))"
proof -
  let ?s = "snd (dec_loop xs (dec_open st sv))"
  obtain st1 sv1 where 1: "dec_shut ?s = (st1, sv1)" by force
  note r = dec_rel_loop[OF dec_rel_open[OF 1], of ys]
  show ?thesis
    unfolding decode_step_loop dec_loop_append 1 Let_def split using r dec_rel_shut[OF conjunct2[OF r]]
    by (simp add: decode_step_loop split_def)
qed

text \<open>
  C12: Encoding in pieces, in any chunks whatever and without line breaks, and closing gives the Base64 text of the whole
  input, as long as the length of the input is not one more than a multiple of three.
\<close>
theorem base64_encode_pieces:
  assumes "encode_chunks cs enc_init = (out, s)" and "length (concat cs) mod 3 \<noteq> 1"
  shows "out @ fst (g_base64_encode_close False s) = b64_ref (concat cs)"
proof -
  have i: "save0 enc_init \<le> 2" "enc_pending enc_init = []" "save0 enc_init = 0"
    by (simp_all add: enc_init_def enc_pending_def)
  note r = encode_chunks_ref[OF i(1) assms(1)]
  then have "fst (g_base64_encode_close False s) = b64_ref (enc_pending s)"
    using assms(2) i by (intro encode_close_ref) simp_all
  with r i show ?thesis by simp
qed

theorem base64_encode_pieces_witness:
  "\<exists>out s. encode_chunks [[1], [2, 3, 4], [5]] enc_init = (out, s) \<and>
     out @ fst (g_base64_encode_close False s) = b64_ref [1, 2, 3, 4, 5]"
proof -
  obtain out s where e: "encode_chunks [[1], [2, 3, 4], [5]] enc_init = (out, s)" by force
  from base64_encode_pieces[OF e] e show ?thesis by simp
qed

text \<open>
  With one byte left over the close reads the second save slot, which an earlier step may have
  left full: the bytes 0x00 0xFF, then 0x00 0x00, encode to a text that decodes, but differs from
  the Base64 text of the four bytes, and from what the same bytes give in one piece.
\<close>
theorem base64_close_stale_byte:
  "\<exists>out s. encode_chunks [[0, 0xFF], [0, 0]] enc_init = (out, s) \<and>
     out @ fst (g_base64_encode_close False s) \<noteq> b64_ref [0, 0xFF, 0, 0] \<and>
     g_base64_encode [0, 0xFF, 0, 0] = Some (b64_ref [0, 0xFF, 0, 0])"
proof -
  let ?s = "\<lparr>enc_state = 0, save0 = 1, save1 = 0, save2 = 0xFF\<rparr>"
  have e: "encode_chunks [[0, 0xFF], [0, 0]] enc_init = (emit 0 0xFF 0, ?s)"
    by (simp add: g_base64_encode_step_def enc_init_def enc_enter_def line_break_def)
  have "(emit 0 0xFF 0 @ fst (g_base64_encode_close False ?s)) ! 5 = 0x50"
    by (simp add: g_base64_encode_close_def emit_def Let_def alpha_def base64_alphabet_def of_char_def)
  moreover have "b64_ref [0, 0xFF, 0, 0] ! 5 = 0x41"
    by (simp add: emit_def Let_def alpha_def base64_alphabet_def of_char_def)
  ultimately have "emit 0 0xFF 0 @ fst (g_base64_encode_close False ?s) \<noteq> b64_ref [0, 0xFF, 0, 0]" by force
  moreover have "g_base64_encode [0, 0xFF, 0, 0] = Some (b64_ref [0, 0xFF, 0, 0])"
    using encode_fits[of "[0, 0xFF, 0, 0]"] by simp
  ultimately show ?thesis using e by blast
qed

end
