(* ===== verification/Glib_Utf8.thy ===== *)
theory Glib_Utf8
  imports OSC_Prelude
begin

text \<open>
  UTF-8, UTF-16 and UCS-4 (\<open>gutf8.c\<close>). A NUL-terminated string is the list of its bytes before
  the NUL; a pointer into it is the suffix it points at, and reading at or past the end of the
  list gives the NUL. Functions that walk backwards take the string and an index. A conversion
  reports its result, what it read and wrote, and its \<open>GError\<close>; whether \<open>g_try_malloc_n\<close> finds
  the memory is an argument.
\<close>

unbundle bit_operations_syntax

section \<open>Bytes and skips\<close>

definition byte_at :: "u8 list \<Rightarrow> nat \<Rightarrow> u8" where
  "byte_at s i = (if i < length s then s ! i else 0)"

definition is_cont :: "u8 \<Rightarrow> bool" where
  "is_cont b \<longleftrightarrow> b AND 0xC0 = 0x80"

definition UTF8_COMPUTE :: "u8 \<Rightarrow> (u32 \<times> nat) option" where
  "UTF8_COMPUTE c =
     (if c < 128 then Some (0x7F, 1)
      else if c AND 0xE0 = 0xC0 then Some (0x1F, 2)
      else if c AND 0xF0 = 0xE0 then Some (0x0F, 3)
      else if c AND 0xF8 = 0xF0 then Some (0x07, 4)
      else if c AND 0xFC = 0xF8 then Some (0x03, 5)
      else if c AND 0xFE = 0xFC then Some (0x01, 6)
      else None)"

definition UTF8_LENGTH :: "u32 \<Rightarrow> nat" where
  "UTF8_LENGTH c =
     (if c < 0x80 then 1 else if c < 0x800 then 2 else if c < 0x10000 then 3
      else if c < 0x200000 then 4 else if c < 0x4000000 then 5 else 6)"

definition UNICODE_VALID :: "u32 \<Rightarrow> bool" where
  "UNICODE_VALID c \<longleftrightarrow> c < 0x110000 \<and> c AND 0xFFFFF800 \<noteq> 0xD800"

definition utf8_skip_data :: "nat list" where
  "utf8_skip_data = [
  1,1,1,1,1,1,1,1,1,1,1,1,1,1,1,1,1,1,1,1,1,1,1,1,1,1,1,1,1,1,1,1,
  1,1,1,1,1,1,1,1,1,1,1,1,1,1,1,1,1,1,1,1,1,1,1,1,1,1,1,1,1,1,1,1,
  1,1,1,1,1,1,1,1,1,1,1,1,1,1,1,1,1,1,1,1,1,1,1,1,1,1,1,1,1,1,1,1,
  1,1,1,1,1,1,1,1,1,1,1,1,1,1,1,1,1,1,1,1,1,1,1,1,1,1,1,1,1,1,1,1,
  1,1,1,1,1,1,1,1,1,1,1,1,1,1,1,1,1,1,1,1,1,1,1,1,1,1,1,1,1,1,1,1,
  1,1,1,1,1,1,1,1,1,1,1,1,1,1,1,1,1,1,1,1,1,1,1,1,1,1,1,1,1,1,1,1,
  2,2,2,2,2,2,2,2,2,2,2,2,2,2,2,2,2,2,2,2,2,2,2,2,2,2,2,2,2,2,2,2,
  3,3,3,3,3,3,3,3,3,3,3,3,3,3,3,3,4,4,4,4,4,4,4,4,5,5,5,5,6,6,1,1]"

definition g_utf8_skip :: "u8 \<Rightarrow> nat" where
  "g_utf8_skip b = utf8_skip_data ! unat b"

lemma skip_all: "list_all (\<lambda>i. 1 \<le> utf8_skip_data ! i) [0..<256]"
  by (simp add: utf8_skip_data_def upt_rec)

lemma skip_pos [simp]: "1 \<le> g_utf8_skip b" "0 < g_utf8_skip b"
proof -
  have "unat b < 256" using unat_bound[of b] by simp
  then show "1 \<le> g_utf8_skip b" using skip_all by (simp add: list_all_iff g_utf8_skip_def)
  then show "0 < g_utf8_skip b" by simp
qed

definition g_utf8_next_char :: "u8 list \<Rightarrow> u8 list" where
  "g_utf8_next_char s = drop (g_utf8_skip (byte_at s 0)) s"

lemma next_char_shorter [simp]: "s \<noteq> [] \<Longrightarrow> length (g_utf8_next_char s) < length s"
  by (simp add: g_utf8_next_char_def)

lemma byte_at_nonzero: "byte_at s 0 \<noteq> 0 \<Longrightarrow> s \<noteq> []"
  by (auto simp: byte_at_def)

section \<open>Moving about\<close>

fun g_utf8_find_prev_char :: "u8 list \<Rightarrow> nat \<Rightarrow> nat option" where
  "g_utf8_find_prev_char str 0 = None"
| "g_utf8_find_prev_char str (Suc p) =
     (if \<not> is_cont (byte_at str p) then Some p else g_utf8_find_prev_char str p)"

definition g_utf8_find_next_char :: "u8 list \<Rightarrow> nat \<Rightarrow> nat option \<Rightarrow> nat option" where
  "g_utf8_find_next_char str p e =
     (case e of
        Some e \<Rightarrow>
          (let q = Suc p + length (takeWhile is_cont (map (byte_at str) [Suc p..<e]))
           in if e \<le> q then None else Some q)
      | None \<Rightarrow> Some (Suc p + length (takeWhile is_cont (drop (Suc p) str))))"

text \<open>\<open>None\<close>: the walk has left the string, which the function does not notice.\<close>

definition g_utf8_prev_char :: "u8 list \<Rightarrow> nat \<Rightarrow> nat option" where
  "g_utf8_prev_char str p = g_utf8_find_prev_char str p"

function strlen_nul :: "u8 list \<Rightarrow> nat" where
  "strlen_nul s = (if byte_at s 0 = 0 then 0 else Suc (strlen_nul (g_utf8_next_char s)))"
  by auto
termination by (relation "measure length") (auto dest: byte_at_nonzero)

declare strlen_nul.simps [simp del]

text \<open>
  The second loop of \<open>g_utf8_strlen\<close>: \<open>left\<close> is \<open>max - (p - start)\<close>, negative once \<open>p\<close> is past
  the limit.
\<close>

function strlen_max :: "u8 list \<Rightarrow> int \<Rightarrow> nat" where
  "strlen_max p left =
     (if 0 < left \<and> byte_at p 0 \<noteq> 0
      then Suc (strlen_max (g_utf8_next_char p) (left - int (g_utf8_skip (byte_at p 0))))
      else if 0 \<le> left then 1 else 0)"
  by auto
termination by (relation "measure (\<lambda>(p, left). length p)") (auto dest: byte_at_nonzero)

declare strlen_max.simps [simp del]

definition g_utf8_strlen :: "u8 list \<Rightarrow> int \<Rightarrow> nat" where
  "g_utf8_strlen p mx =
     (if mx < 0 then strlen_nul p
      else if mx = 0 \<or> byte_at p 0 = 0 then 0
      else strlen_max (g_utf8_next_char p) (mx - int (g_utf8_skip (byte_at p 0))))"

text \<open>Forward offsets only; going back needs the string before the pointer.\<close>

fun g_utf8_offset_to_pointer :: "u8 list \<Rightarrow> nat \<Rightarrow> u8 list" where
  "g_utf8_offset_to_pointer s 0 = s"
| "g_utf8_offset_to_pointer s (Suc n) = g_utf8_offset_to_pointer (g_utf8_next_char s) n"

text \<open>From \<open>str\<close> up to the position \<open>pos\<close> bytes further.\<close>

function g_utf8_pointer_to_offset :: "u8 list \<Rightarrow> nat \<Rightarrow> nat" where
  "g_utf8_pointer_to_offset s pos =
     (if pos = 0 then 0
      else Suc (g_utf8_pointer_to_offset (g_utf8_next_char s) (pos - g_utf8_skip (byte_at s 0))))"
  by auto
termination
proof (relation "measure snd", goal_cases)
  case (2 s pos)
  then show ?case using skip_pos[of "byte_at s 0"] by (simp del: skip_pos)
qed simp

declare g_utf8_pointer_to_offset.simps [simp del]

definition g_utf8_substring :: "u8 list \<Rightarrow> nat \<Rightarrow> nat \<Rightarrow> u8 list" where
  "g_utf8_substring str start_pos end_pos =
     (let start = g_utf8_offset_to_pointer str start_pos;
          e = g_utf8_offset_to_pointer start (end_pos - start_pos)
      in take (length start - length e) start)"

function strncpy_walk :: "u8 list \<Rightarrow> nat \<Rightarrow> u8 list" where
  "strncpy_walk s n =
     (if n \<noteq> 0 \<and> byte_at s 0 \<noteq> 0 then strncpy_walk (g_utf8_next_char s) (n - 1) else s)"
  by auto
termination by (relation "measure snd") auto

declare strncpy_walk.simps [simp del]

definition g_utf8_strncpy :: "u8 list \<Rightarrow> nat \<Rightarrow> u8 list" where
  "g_utf8_strncpy src n = take (length src - length (strncpy_walk src n)) src"

section \<open>Encoding one character\<close>

definition utf8_first :: "u32 \<Rightarrow> u32 \<times> nat" where
  "utf8_first c =
     (if c < 0x80 then (0, 1) else if c < 0x800 then (0xC0, 2) else if c < 0x10000 then (0xE0, 3)
      else if c < 0x200000 then (0xF0, 4) else if c < 0x4000000 then (0xF8, 5) else (0xFC, 6))"

text \<open>The loop writes from the back: the last \<open>i\<close> bytes, then the first.\<close>

fun utf8_fill :: "nat \<Rightarrow> u32 \<Rightarrow> u32 \<Rightarrow> u8 list \<Rightarrow> u8 list" where
  "utf8_fill 0 first c out = ucast (c OR first) # out"
| "utf8_fill (Suc i) first c out = utf8_fill i first (drop_bit 6 c) (ucast ((c AND 0x3F) OR 0x80) # out)"

definition g_unichar_to_utf8 :: "u32 \<Rightarrow> u8 list" where
  "g_unichar_to_utf8 c = (let (first, len) = utf8_first c in utf8_fill (len - 1) first c [])"

section \<open>Decoding one character\<close>

fun UTF8_GET :: "nat \<Rightarrow> u8 list \<Rightarrow> u32 \<Rightarrow> u32" where
  "UTF8_GET 0 s r = r"
| "UTF8_GET (Suc n) s r =
     (if \<not> is_cont (byte_at s 0) then -1
      else UTF8_GET n (drop 1 s) (push_bit 6 r OR ucast (byte_at s 0 AND 0x3F)))"

definition g_utf8_get_char :: "u8 list \<Rightarrow> u32" where
  "g_utf8_get_char p =
     (let c = byte_at p 0
      in case UTF8_COMPUTE c of
           None \<Rightarrow> -1
         | Some (msk, len) \<Rightarrow> UTF8_GET (len - 1) (drop 1 p) (ucast c AND msk))"

definition ext_lead :: "u32 \<Rightarrow> (nat \<times> u32 \<times> u32) option" where
  "ext_lead wc =
     (if wc < 0xC0 then None
      else if wc < 0xE0 then Some (2, wc AND 0x1F, 0x80)
      else if wc < 0xF0 then Some (3, wc AND 0x0F, 0x800)
      else if wc < 0xF8 then Some (4, wc AND 0x07, 0x10000)
      else if wc < 0xFC then Some (5, wc AND 0x03, 0x200000)
      else if wc < 0xFE then Some (6, wc AND 0x01, 0x4000000)
      else None)"

fun ext_conts :: "nat \<Rightarrow> u8 list \<Rightarrow> u32 \<Rightarrow> u32 + u32" where
  "ext_conts 0 s wc = Inr wc"
| "ext_conts (Suc n) s wc =
     (let ch = byte_at s 0
      in if \<not> is_cont ch then Inl (if ch \<noteq> 0 then -1 else -2)
         else ext_conts n (drop 1 s) (push_bit 6 wc OR ucast (ch AND 0x3F)))"

definition g_utf8_get_char_extended :: "u8 list \<Rightarrow> int \<Rightarrow> u32" where
  "g_utf8_get_char_extended p max_len =
     (let wc = ucast (byte_at p 0) :: u32
      in if wc < 0x80 then wc
         else case ext_lead wc of
                None \<Rightarrow> -1
              | Some (len, wc, min_code) \<Rightarrow>
                  if 0 \<le> max_len \<and> max_len < int len then
                    (if \<exists>i \<in> {1..<nat max_len}. \<not> is_cont (byte_at p i) then -1 else -2)
                  else case ext_conts (len - 1) (drop 1 p) wc of
                         Inl e \<Rightarrow> e
                       | Inr wc \<Rightarrow> if wc < min_code then -1 else wc)"

definition g_utf8_get_char_validated :: "u8 list \<Rightarrow> int \<Rightarrow> u32" where
  "g_utf8_get_char_validated p max_len =
     (if max_len = 0 then -2
      else let r = g_utf8_get_char_extended p max_len
           in if r AND 0x80000000 \<noteq> 0 then r else if \<not> UNICODE_VALID r then -1 else r)"

definition g_unichar_validate :: "u32 \<Rightarrow> bool" where
  "g_unichar_validate ch = UNICODE_VALID ch"

section \<open>Validation\<close>

text \<open>\<open>VALIDATE_BYTE\<close>.\<close>

definition vbyte :: "u8 \<Rightarrow> u8 \<Rightarrow> u8 \<Rightarrow> bool" where
  "vbyte msk expect b \<longleftrightarrow> b AND msk = expect"

text \<open>The test of the second byte, by the lead byte of three and of four bytes.\<close>

definition second_of_3 :: "u8 \<Rightarrow> u8 \<Rightarrow> bool" where
  "second_of_3 b0 b1 =
     (if b0 AND 0x0F = 0 then vbyte 0xE0 0xA0 b1
      else if b0 AND 0x0F = 0x0D then vbyte 0xE0 0x80 b1
      else vbyte 0xC0 0x80 b1)"

definition second_of_4 :: "u8 \<Rightarrow> u8 \<Rightarrow> bool" where
  "second_of_4 b0 b1 =
     (if b0 AND 0x07 = 0 then vbyte 0xC0 0x80 b1 \<and> b1 AND 0x30 \<noteq> 0
      else if b0 AND 0x07 = 4 then vbyte 0xF0 0x80 b1
      else vbyte 0xC0 0x80 b1)"

text \<open>
  One round of the loop of \<open>fast_validate\<close> at a byte that is not NUL: the length of the character
  there, or \<open>None\<close> at \<open>error\<close>. Every test is made before the byte behind it is read, so none reads
  past the NUL.
\<close>

definition validate_char :: "u8 list \<Rightarrow> nat option" where
  "validate_char p =
     (let b0 = byte_at p 0
      in if b0 < 128 then Some 1
         else if b0 < 0xE0 then (if b0 < 0xC2 then None else if vbyte 0xC0 0x80 (byte_at p 1) then Some 2 else None)
         else if b0 < 0xF0 then
           (if \<not> second_of_3 b0 (byte_at p 1) then None
            else if vbyte 0xC0 0x80 (byte_at p 2) then Some 3 else None)
         else if b0 < 0xF5 then
           (if \<not> second_of_4 b0 (byte_at p 1) then None
            else if \<not> vbyte 0xC0 0x80 (byte_at p 2) then None
            else if vbyte 0xC0 0x80 (byte_at p 3) then Some 4 else None)
         else None)"

lemma validate_char_pos: "validate_char p = Some n \<Longrightarrow> 0 < n \<and> n \<le> 4"
  by (auto simp: validate_char_def Let_def split: if_splits)

lemma validate_char_shorter: "validate_char p = Some n \<Longrightarrow> byte_at p 0 \<noteq> 0 \<Longrightarrow> length p - n < length p"
  using validate_char_pos[of p n] byte_at_nonzero[of p] by (cases p) auto

text \<open>The position the loop stops at, as a number of bytes.\<close>

function fast_validate :: "u8 list \<Rightarrow> nat" where
  "fast_validate p =
     (if byte_at p 0 = 0 then 0
      else case validate_char p of None \<Rightarrow> 0 | Some n \<Rightarrow> n + fast_validate (drop n p))"
  by auto
termination by (relation "measure length") (auto simp: validate_char_shorter)

declare fast_validate.simps [simp del]

text \<open>The same with a limit; \<open>left\<close> is \<open>max_len - (p - str)\<close>, checked before a longer character.\<close>

definition lead_need :: "u8 \<Rightarrow> nat" where
  "lead_need b0 = (if b0 < 128 then 1 else if b0 < 0xE0 then 2 else if b0 < 0xF0 then 3 else if b0 < 0xF5 then 4 else 0)"

function fast_validate_len :: "u8 list \<Rightarrow> nat \<Rightarrow> nat" where
  "fast_validate_len p left =
     (if left = 0 \<or> byte_at p 0 = 0 then 0
      else if left < lead_need (byte_at p 0) then 0
      else case validate_char p of None \<Rightarrow> 0 | Some n \<Rightarrow> n + fast_validate_len (drop n p) (left - n))"
  by auto
termination by (relation "measure (\<lambda>(p, left). length p)") (auto simp: validate_char_shorter)

declare fast_validate_len.simps [simp del]

definition g_utf8_validate :: "u8 list \<Rightarrow> int \<Rightarrow> bool \<times> nat" where
  "g_utf8_validate str max_len =
     (let p = (if max_len < 0 then fast_validate str else fast_validate_len str (nat max_len))
      in (\<not> (0 \<le> max_len \<and> int p \<noteq> max_len \<or> max_len < 0 \<and> byte_at str p \<noteq> 0), p))"

text \<open>
  \<open>_g_utf8_make_valid\<close>: the loop over \<open>remainder\<close>, which runs on the \<open>gint\<close> \<open>remaining_bytes\<close>, with
  the \<open>GString\<close> \<open>string\<close>, \<open>None\<close> while it is \<open>NULL\<close>. The count can be negative in the first round only,
  since a round takes at most the count from it; then \<open>g_string_sized_new\<close> is asked for almost 2^64
  bytes and aborts, which is \<open>None\<close>.
\<close>

function make_valid_loop :: "u8 list \<Rightarrow> int \<Rightarrow> u8 list option \<Rightarrow> (u8 list option \<times> u8 list) option" where
  "make_valid_loop remainder remaining_bytes string =
     (if remaining_bytes = 0 then Some (string, remainder)
      else case g_utf8_validate remainder remaining_bytes of
             (True, _) \<Rightarrow> Some (string, remainder)
           | (False, valid_bytes) \<Rightarrow>
               if remaining_bytes < 0 then None
               else make_valid_loop (drop (Suc valid_bytes) remainder) (remaining_bytes - (int valid_bytes + 1))
                      (Some ((case string of None \<Rightarrow> [] | Some s \<Rightarrow> s) @ take valid_bytes remainder @ [0xEF, 0xBF, 0xBD])))"
  by auto
termination by (relation "measure (\<lambda>(r, n, s). nat n)") auto

declare make_valid_loop.simps [simp del]

text \<open>The length of the name is stored in the \<open>gint\<close>. \<open>None\<close> is also the failed assertion at the end.\<close>

definition g_utf8_make_valid :: "u8 list \<Rightarrow> u8 list option" where
  "g_utf8_make_valid name =
     (case make_valid_loop name (gint_of (length name)) None of
        None \<Rightarrow> None
      | Some (None, _) \<Rightarrow> Some name
      | Some (Some string, remainder) \<Rightarrow>
          (let str = string @ remainder in if fst (g_utf8_validate str (-1)) then Some str else None))"

text \<open>Reversal by characters: the last \<open>left\<close> bytes of the buffer are still to be filled, from the back.\<close>

function strreverse_loop :: "u8 list \<Rightarrow> nat \<Rightarrow> u8 list" where
  "strreverse_loop p left =
     (if left = 0 then []
      else let skip = g_utf8_skip (byte_at p 0)
           in strreverse_loop (drop skip p) (left - skip) @ map (byte_at p) [0..<skip])"
  by auto
termination
proof (relation "measure snd", goal_cases)
  case (2 p left skip)
  then show ?case using skip_pos[of "byte_at p 0"] by (simp del: skip_pos)
qed simp

declare strreverse_loop.simps [simp del]

definition g_utf8_strreverse :: "u8 list \<Rightarrow> int \<Rightarrow> u8 list" where
  "g_utf8_strreverse str len = strreverse_loop str (if len < 0 then length str else nat len)"

section \<open>Conversions\<close>

datatype conv_error = Partial_input | Illegal_sequence | No_memory

record 'a conv =
  conv_result :: "'a list option"
  conv_read :: nat
  conv_written :: "nat option" \<comment> \<open>\<open>None\<close>: \<open>*items_written\<close> is not assigned\<close>
  conv_err :: "conv_error option"

definition conv_fail :: "nat \<Rightarrow> conv_error \<Rightarrow> 'a conv" where
  "conv_fail r e = \<lparr>conv_result = None, conv_read = r, conv_written = None, conv_err = Some e\<rparr>"

text \<open>
  The first loop of \<open>g_utf8_to_ucs4\<close> and \<open>g_utf8_to_utf16\<close>. It either gets through, possibly
  breaking off at a partial character when \<open>items_read\<close> is asked for, or fails at a position.
  \<open>units\<close> gives how many output units a character takes, or the error it raises.
\<close>

definition limit_of :: "int \<Rightarrow> nat \<Rightarrow> int" where
  "limit_of len done_bytes = (if len < 0 then 6 else len - int done_bytes)"

function utf8_scan :: "(u32 \<Rightarrow> conv_error + nat) \<Rightarrow> bool \<Rightarrow> int \<Rightarrow> u8 list \<Rightarrow> nat \<Rightarrow> nat \<Rightarrow> nat \<times> (conv_error + nat)" where
  "utf8_scan units want_read len p pos n =
     (if (len < 0 \<or> 0 < len - int pos) \<and> byte_at p 0 \<noteq> 0
      then let wc = g_utf8_get_char_extended p (limit_of len pos)
           in if wc AND 0x80000000 \<noteq> 0
              then if wc = -2 then (if want_read then (pos, Inr n) else (pos, Inl Partial_input))
                   else (pos, Inl Illegal_sequence)
              else case units wc of
                     Inl e \<Rightarrow> (pos, Inl e)
                   | Inr k \<Rightarrow> utf8_scan units want_read len (g_utf8_next_char p)
                               (pos + g_utf8_skip (byte_at p 0)) (n + k)
      else (pos, Inr n))"
  by auto
termination by (relation "measure (\<lambda>(u, w, len, p, pos, n). length p)") (auto dest: byte_at_nonzero)

declare utf8_scan.simps [simp del]

text \<open>The second loop of \<open>g_utf8_to_ucs4\<close>: the characters and the number of bytes they take.\<close>

fun get_chars :: "nat \<Rightarrow> u8 list \<Rightarrow> u32 list \<times> nat" where
  "get_chars 0 p = ([], 0)"
| "get_chars (Suc n) p =
     (let (cs, k) = get_chars n (g_utf8_next_char p) in (g_utf8_get_char p # cs, g_utf8_skip (byte_at p 0) + k))"

definition g_utf8_to_ucs4 :: "bool \<Rightarrow> u8 list \<Rightarrow> int \<Rightarrow> bool \<Rightarrow> u32 conv" where
  "g_utf8_to_ucs4 mem str len want_read =
     (case utf8_scan (\<lambda>_. Inr 1) want_read len str 0 0 of
        (pos, Inl e) \<Rightarrow> conv_fail pos e
      | (pos, Inr n) \<Rightarrow>
          if \<not> mem then conv_fail pos No_memory
          else let (cs, k) = get_chars n str
               in \<lparr>conv_result = Some cs, conv_read = k, conv_written = Some n, conv_err = None\<rparr>)"

text \<open>\<open>str\<close> holds the characters before the terminating zero; with \<open>len \<ge> 0\<close> at most \<open>len\<close> are read.\<close>

definition ucs4_input :: "'a::zero list \<Rightarrow> int \<Rightarrow> 'a list" where
  "ucs4_input str len = takeWhile (\<lambda>c. c \<noteq> 0) (if len < 0 then str else take (nat len) str)"

definition g_ucs4_to_utf8 :: "bool \<Rightarrow> u32 list \<Rightarrow> int \<Rightarrow> u8 conv" where
  "g_ucs4_to_utf8 mem str len =
     (let inp = ucs4_input str len;
          good = takeWhile (\<lambda>c. c < 0x80000000) inp
      in if length good < length inp then conv_fail (length good) Illegal_sequence
         else if \<not> mem then conv_fail (length inp) No_memory
         else let out = concat (map g_unichar_to_utf8 inp)
              in \<lparr>conv_result = Some out, conv_read = length inp, conv_written = Some (length out), conv_err = None\<rparr>)"

definition SURROGATE_VALUE :: "u32 \<Rightarrow> u32 \<Rightarrow> u32" where
  "SURROGATE_VALUE h l = (h - 0xD800) * 0x400 + l - 0xDC00 + 0x10000"

type_synonym u16 = "16 word"

definition low_surrogate :: "u16 \<Rightarrow> bool" where
  "low_surrogate c \<longleftrightarrow> 0xDC00 \<le> c \<and> c < 0xE000"

definition high_surrogate :: "u16 \<Rightarrow> bool" where
  "high_surrogate c \<longleftrightarrow> 0xD800 \<le> c \<and> c < 0xDC00"

text \<open>
  The first loop over UTF-16: the pending high surrogate (0 for none), the position and the units
  counted. It ends with the pending surrogate, or with an error at a position.
\<close>

fun utf16_scan :: "(u32 \<Rightarrow> nat) \<Rightarrow> u16 list \<Rightarrow> u32 \<Rightarrow> nat \<Rightarrow> nat \<Rightarrow> nat \<times> (conv_error + u32 \<times> nat)" where
  "utf16_scan sz [] hs pos n = (pos, Inr (hs, n))"
| "utf16_scan sz (c # cs) hs pos n =
     (if low_surrogate c then
        (if hs \<noteq> 0 then utf16_scan sz cs 0 (Suc pos) (n + sz (SURROGATE_VALUE hs (ucast c)))
         else (pos, Inl Illegal_sequence))
      else if hs \<noteq> 0 then (pos, Inl Illegal_sequence)
      else if high_surrogate c then utf16_scan sz cs (ucast c) (Suc pos) n
      else utf16_scan sz cs 0 (Suc pos) (n + sz (ucast c)))"

text \<open>
  The second loop runs until the counted output is full; it yields the characters and the number
  of units read.
\<close>

fun utf16_chars :: "(u32 \<Rightarrow> nat) \<Rightarrow> u16 list \<Rightarrow> u32 \<Rightarrow> nat \<Rightarrow> u32 list \<times> nat" where
  "utf16_chars sz [] hs left = ([], 0)"
| "utf16_chars sz (c # cs) hs left =
     (if left = 0 then ([], 0)
      else if high_surrogate c then
        (let (ws, k) = utf16_chars sz cs (ucast c) left in (ws, Suc k))
      else let wc = (if low_surrogate c then SURROGATE_VALUE hs (ucast c) else ucast c);
               (ws, k) = utf16_chars sz cs (if low_surrogate c then 0 else hs) (left - sz wc)
           in (wc # ws, Suc k))"

definition g_utf16_to_ucs4 :: "bool \<Rightarrow> u16 list \<Rightarrow> int \<Rightarrow> bool \<Rightarrow> u32 conv" where
  "g_utf16_to_ucs4 mem str len want_read =
     (let inp = ucs4_input str len
      in case utf16_scan (\<lambda>_. 4) inp 0 0 0 of
           (pos, Inl e) \<Rightarrow> conv_fail pos e
         | (pos, Inr (hs, n_bytes)) \<Rightarrow>
             if hs \<noteq> 0 \<and> \<not> want_read then conv_fail pos Partial_input
             else if \<not> mem then conv_fail pos No_memory
             else let (ws, k) = utf16_chars (\<lambda>_. 4) inp 0 n_bytes
                  in \<lparr>conv_result = Some ws, conv_read = k, conv_written = Some (length ws), conv_err = None\<rparr>)"

definition g_utf16_to_utf8 :: "bool \<Rightarrow> u16 list \<Rightarrow> int \<Rightarrow> bool \<Rightarrow> u8 conv" where
  "g_utf16_to_utf8 mem str len want_read =
     (let inp = ucs4_input str len
      in case utf16_scan UTF8_LENGTH inp 0 0 0 of
           (pos, Inl e) \<Rightarrow> conv_fail pos e
         | (pos, Inr (hs, n_bytes)) \<Rightarrow>
             if hs \<noteq> 0 \<and> \<not> want_read then conv_fail pos Partial_input
             else if \<not> mem then conv_fail pos No_memory
             else let (ws, k) = utf16_chars UTF8_LENGTH inp 0 n_bytes;
                      out = concat (map g_unichar_to_utf8 ws)
                  in \<lparr>conv_result = Some out, conv_read = k, conv_written = Some (length out), conv_err = None\<rparr>)"

definition utf16_units :: "u32 \<Rightarrow> conv_error + nat" where
  "utf16_units wc =
     (if wc < 0xD800 then Inr 1 else if wc < 0xE000 then Inl Illegal_sequence
      else if wc < 0x10000 then Inr 1 else if wc < 0x110000 then Inr 2 else Inl Illegal_sequence)"

definition utf16_of :: "u32 \<Rightarrow> u16 list" where
  "utf16_of wc =
     (if wc < 0x10000 then [ucast wc]
      else [ucast ((wc - 0x10000) div 0x400 + 0xD800), ucast ((wc - 0x10000) mod 0x400 + 0xDC00)])"

lemma utf16_of_length [termination_simp]: "0 < length (utf16_of wc)" "Suc n - length (utf16_of wc) < Suc n"
  by (simp_all add: utf16_of_def)

fun utf16_fill :: "nat \<Rightarrow> u8 list \<Rightarrow> u16 list \<times> nat" where
  "utf16_fill 0 p = ([], 0)"
| "utf16_fill (Suc n) p =
     (let us = utf16_of (g_utf8_get_char p);
          (vs, k) = utf16_fill (Suc n - length us) (g_utf8_next_char p)
      in (us @ vs, g_utf8_skip (byte_at p 0) + k))"

definition g_utf8_to_utf16 :: "bool \<Rightarrow> u8 list \<Rightarrow> int \<Rightarrow> bool \<Rightarrow> u16 conv" where
  "g_utf8_to_utf16 mem str len want_read =
     (case utf8_scan utf16_units want_read len str 0 0 of
        (pos, Inl e) \<Rightarrow> conv_fail pos e
      | (pos, Inr n16) \<Rightarrow>
          if \<not> mem then conv_fail pos No_memory
          else let (us, k) = utf16_fill n16 str
               in \<lparr>conv_result = Some us, conv_read = k, conv_written = Some n16, conv_err = None\<rparr>)"

fun ucs4_scan16 :: "u32 list \<Rightarrow> nat \<Rightarrow> nat \<times> (conv_error + nat)" where
  "ucs4_scan16 [] n = (0, Inr n)"
| "ucs4_scan16 (wc # ws) n =
     (case utf16_units wc of
        Inl e \<Rightarrow> (0, Inl e)
      | Inr k \<Rightarrow> (let (i, r) = ucs4_scan16 ws (n + k) in (Suc i, r)))"

definition g_ucs4_to_utf16 :: "bool \<Rightarrow> u32 list \<Rightarrow> int \<Rightarrow> u16 conv" where
  "g_ucs4_to_utf16 mem str len =
     (let inp = ucs4_input str len
      in case ucs4_scan16 inp 0 of
           (i, Inl e) \<Rightarrow> conv_fail i e
         | (i, Inr n16) \<Rightarrow>
             if \<not> mem then conv_fail i No_memory
             else \<lparr>conv_result = Some (concat (map utf16_of inp)), conv_read = i, conv_written = Some n16,
                    conv_err = None\<rparr>)"

text \<open>
  \<open>g_utf8_to_ucs4_fast\<close> reads continuation bytes without looking at their marks. The inner loop
  for lead bytes from 0xF8 shifts in one byte per further lead bit; the mask leaves the word after
  two rounds, so three rounds of fuel are enough.
\<close>

fun fast_long :: "nat \<Rightarrow> u32 \<Rightarrow> u32 \<Rightarrow> u8 list \<Rightarrow> u32 \<times> u8 list" where
  "fast_long 0 msk wc p = (wc AND (msk - 1), p)"
| "fast_long (Suc f) msk wc p =
     (if wc AND msk \<noteq> 0
      then fast_long f (push_bit 5 msk) (push_bit 6 wc OR ucast (byte_at p 0 AND 0x3F)) (drop 1 p)
      else (wc AND (msk - 1), p))"

definition fast_char :: "u8 list \<Rightarrow> u32 \<times> u8 list" where
  "fast_char p =
     (let first = byte_at p 0; f = ucast first :: u32; c = (\<lambda>i. ucast (byte_at p i AND 0x3F) :: u32)
      in if first < 0xC0 then (f, drop 1 p)
         else if first < 0xE0 then (push_bit 6 (f AND 0x1F) OR c 1, drop 2 p)
         else if first < 0xF0 then (push_bit 12 (f AND 0x0F) OR push_bit 6 (c 1) OR c 2, drop 3 p)
         else let wc = push_bit 18 (f AND 0x07) OR push_bit 12 (c 1) OR push_bit 6 (c 2) OR c 3
              in if 0xF8 \<le> first then fast_long 3 (push_bit 20 1) wc (drop 4 p) else (wc, drop 4 p))"

fun fast_chars :: "nat \<Rightarrow> u8 list \<Rightarrow> u32 list" where
  "fast_chars 0 p = []"
| "fast_chars (Suc n) p = (let (wc, p') = fast_char p in wc # fast_chars n p')"

function count_chars :: "u8 list \<Rightarrow> int \<Rightarrow> nat" where
  "count_chars p left =
     (if 0 < left \<and> byte_at p 0 \<noteq> 0
      then Suc (count_chars (g_utf8_next_char p) (left - int (g_utf8_skip (byte_at p 0)))) else 0)"
  by auto
termination by (relation "measure (\<lambda>(p, left). length p)") (auto dest: byte_at_nonzero)

declare count_chars.simps [simp del]

definition g_utf8_to_ucs4_fast :: "u8 list \<Rightarrow> int \<Rightarrow> u32 list" where
  "g_utf8_to_ucs4_fast str len = fast_chars (if len < 0 then strlen_nul str else count_chars str len) str"

end
