(* ===== verification/Glib_Utf8_Laws.thy ===== *)
theory Glib_Utf8_Laws
  imports Glib_Utf8
begin

text \<open>
  Laws of the UTF-8 code: what is encoded is decoded, validation accepts exactly the encodings of
  valid characters, and the conversions between the three encodings invert one another.
\<close>

section \<open>The bytes of a character\<close>

fun conts :: "nat \<Rightarrow> u32 \<Rightarrow> u8 list" where
  "conts 0 c = []"
| "conts (Suc i) c = conts i (drop_bit 6 c) @ [ucast ((c AND 0x3F) OR 0x80)]"

lemma fill_conts: "utf8_fill i first c out = ucast (drop_bit (6 * i) c OR first) # conts i c @ out"
  by (induction i first c out rule: utf8_fill.induct) (simp_all add: add.commute)

lemma length_conts [simp]: "length (conts i c) = i"
  by (induction i c rule: conts.induct) simp_all

lemma u8I:
  fixes x y :: u8
  assumes "bit x 0 = bit y 0" "bit x 1 = bit y 1" "bit x 2 = bit y 2" "bit x 3 = bit y 3"
    "bit x 4 = bit y 4" "bit x 5 = bit y 5" "bit x 6 = bit y 6" "bit x 7 = bit y 7"
  shows "x = y"
  using assms by (intro bit_word_eqI) (auto simp: less_Suc_eq numeral_eq_Suc)

lemma mask6: "(0x3F :: 'a::len word) = mask 6"
  by (simp add: mask_eq_exp_minus_1)

lemma mask7: "(0x7F :: 'a::len word) = mask 7"
  by (simp add: mask_eq_exp_minus_1)

lemma cont_byte:
  fixes c :: u32
  defines "b \<equiv> ucast ((c AND 0x3F) OR 0x80) :: u8"
  shows "is_cont b" "ucast (b AND 0x3F) = c AND 0x3F" "b \<noteq> 0"
proof -
  show 1: "is_cont b" unfolding b_def is_cont_def mask6
    by (rule u8I) (simp_all add: bit_simps bit_numeral_rec bit_1_iff)
  then show "b \<noteq> 0" by (auto simp: is_cont_def)
  have "bit (ucast (b AND 0x3F) :: u32) n = bit (c AND 0x3F) n" for n
  proof (cases "n < 6")
    case True
    then have "n = 0 \<or> n = 1 \<or> n = 2 \<or> n = 3 \<or> n = 4 \<or> n = 5" by arith
    then show ?thesis unfolding b_def mask6 by (elim disjE) (simp_all add: bit_simps)
  next
    case False
    then show ?thesis unfolding mask6 by (simp add: bit_simps)
  qed
  then show "ucast (b AND 0x3F) = c AND 0x3F" by (intro bit_eqI) blast
qed

lemma join_six: "push_bit 6 (drop_bit 6 (c :: u32)) OR (c AND 0x3F) = c"
  unfolding mask6 by (rule bit_word_eqI) (auto simp: bit_simps)

lemma drop_Suc_drop: "drop n (drop 1 s) = drop (Suc n) s"
  by simp

lemma ext_conts_add:
  "ext_conts (m + n) s w = (case ext_conts m s w of Inl e \<Rightarrow> Inl e | Inr w' \<Rightarrow> ext_conts n (drop m s) w')"
proof (induction m arbitrary: s w)
  case (Suc m)
  show ?case by (simp only: add_Suc ext_conts.simps Let_def Suc drop_Suc_drop split: if_split) simp
qed simp

lemma get_add:
  "ext_conts m s w = Inr w' \<Longrightarrow> UTF8_GET (m + n) s w = UTF8_GET n (drop m s) w'"
proof (induction m arbitrary: s w)
  case (Suc m)
  then have "is_cont (byte_at s 0)" "ext_conts m (drop 1 s) (push_bit 6 w OR ucast (byte_at s 0 AND 0x3F)) = Inr w'"
    by (auto simp: Let_def split: if_splits)
  then show ?case using Suc.IH by (simp only: add_Suc UTF8_GET.simps drop_Suc_drop) simp
qed simp

lemma byte_at_append [simp]: "length xs \<le> i \<Longrightarrow> byte_at (xs @ ys) i = byte_at ys (i - length xs)"
  "i < length xs \<Longrightarrow> byte_at (xs @ ys) i = xs ! i" "byte_at (b # ys) 0 = b"
  "byte_at (b # ys) (Suc i) = byte_at ys i" "byte_at [] i = 0"
  by (auto simp: byte_at_def nth_append)

lemma ext_conts_conts: "ext_conts i (conts i c @ r) (drop_bit (6 * i) c) = Inr c"
proof (induction i c arbitrary: r rule: conts.induct)
  case (2 i c)
  have "ext_conts (i + 1) (conts (Suc i) c @ r) (drop_bit (6 * Suc i) c) = Inr c"
    unfolding ext_conts_add using 2[of "ucast ((c AND 0x3F) OR 0x80) # r"] cont_byte[of c]
    by (simp add: join_six add.commute)
  then show ?case by simp
qed simp

lemma get_conts: "UTF8_GET i (conts i c @ r) (drop_bit (6 * i) c) = c"
  using get_add[OF ext_conts_conts[of i c r], of 0] by simp

lemma conts_are_cont: "b \<in> set (conts i c) \<Longrightarrow> is_cont b \<and> b \<noteq> 0"
  by (induction i c rule: conts.induct) (auto simp: cont_byte)

section \<open>Lead bytes\<close>

definition lead_ok :: "u32 \<Rightarrow> nat \<Rightarrow> u32 \<Rightarrow> u32 \<Rightarrow> u32 \<Rightarrow> bool" where
  "lead_ok first n msk minc x \<longleftrightarrow>
     (let b = ucast (x OR first) :: u8
      in UTF8_COMPUTE b = Some (msk, n) \<and> ucast b AND msk = x \<and> g_utf8_skip b = n \<and> b \<noteq> 0 \<and> \<not> is_cont b \<and>
         0x80 \<le> (ucast b :: u32) \<and> ext_lead (ucast b) = Some (n, x, minc))"

lemma lead_tables:
  "list_all (\<lambda>i. lead_ok 0xC0 2 0x1F 0x80 (of_nat i)) [0..<32]"
  "list_all (\<lambda>i. lead_ok 0xE0 3 0x0F 0x800 (of_nat i)) [0..<16]"
  "list_all (\<lambda>i. lead_ok 0xF0 4 0x07 0x10000 (of_nat i)) [0..<8]"
  "list_all (\<lambda>i. lead_ok 0xF8 5 0x03 0x200000 (of_nat i)) [0..<4]"
  "list_all (\<lambda>i. lead_ok 0xFC 6 0x01 0x4000000 (of_nat i)) [0..<2]"
  by (simp_all add: upt_rec lead_ok_def UTF8_COMPUTE_def ext_lead_def g_utf8_skip_def utf8_skip_data_def is_cont_def)

lemma lead_table_word:
  assumes "list_all (\<lambda>i. P (of_nat i)) [0..<k]" and "unat x < k"
  shows "P (x :: u32)"
proof -
  have "unat x \<in> set [0..<k]" using assms(2) by simp
  then have "P (of_nat (unat x))" using assms(1) unfolding list_all_iff by (rule bspec[rotated])
  then show ?thesis by (simp only: of_nat_unat ucast_id)
qed

lemma drop_bit_bound: "unat (c :: u32) < k * 2 ^ n \<Longrightarrow> unat (drop_bit n c) < k"
  by (simp add: unat_drop_bit_eq drop_bit_eq_div[where 'a = nat] less_mult_imp_div_less del: drop_bit_eq_div)

lemma utf8_lead:
  assumes "0x80 \<le> c" and "c < 0x80000000"
  obtains first n msk minc where "utf8_first c = (first, Suc n)" "0 < n" "n < 6"
    "lead_ok first (Suc n) msk minc (drop_bit (6 * n) c)" "minc \<le> c" "UTF8_LENGTH c = Suc n"
proof -
  have b: "unat c < 2 ^ 31" using assms(2) by (simp add: word_less_nat_alt)
  consider "c < 0x800" | "0x800 \<le> c" "c < 0x10000" | "0x10000 \<le> c" "c < 0x200000"
    | "0x200000 \<le> c" "c < 0x4000000" | "0x4000000 \<le> c" by (meson not_less)
  then show thesis
  proof cases
    case 1
    with assms show thesis
      using that[where first = "0xC0" and n = 1 and msk = "0x1F" and minc = "0x80"] lead_table_word[where x = "drop_bit 6 c", OF lead_tables(1)] drop_bit_bound[where c = c and k = 32 and n = 6]
      by (auto simp: utf8_first_def UTF8_LENGTH_def word_less_nat_alt word_le_nat_alt numeral_2_eq_2[symmetric])
  next
    case 2
    then show thesis
      using that[where first = "0xE0" and n = 2 and msk = "0x0F" and minc = "0x800"] lead_table_word[where x = "drop_bit 12 c", OF lead_tables(2)] drop_bit_bound[where c = c and k = 16 and n = 12]
      by (auto simp: utf8_first_def UTF8_LENGTH_def word_less_nat_alt word_le_nat_alt)
  next
    case 3
    then show thesis
      using that[where first = "0xF0" and n = 3 and msk = "0x07" and minc = "0x10000"] lead_table_word[where x = "drop_bit 18 c", OF lead_tables(3)] drop_bit_bound[where c = c and k = 8 and n = 18]
      by (auto simp: utf8_first_def UTF8_LENGTH_def word_less_nat_alt word_le_nat_alt)
  next
    case 4
    then show thesis
      using that[where first = "0xF8" and n = 4 and msk = "0x03" and minc = "0x200000"] lead_table_word[where x = "drop_bit 24 c", OF lead_tables(4)] drop_bit_bound[where c = c and k = 4 and n = 24]
      by (auto simp: utf8_first_def UTF8_LENGTH_def word_less_nat_alt word_le_nat_alt)
  next
    case 5
    then show thesis
      using that[where first = "0xFC" and n = 5 and msk = "0x01" and minc = "0x4000000"] lead_table_word[where x = "drop_bit 30 c", OF lead_tables(5)] drop_bit_bound[where c = c and k = 2 and n = 30] b
      by (auto simp: utf8_first_def UTF8_LENGTH_def word_less_nat_alt word_le_nat_alt)
  qed
qed

section \<open>Decoding an encoded character\<close>

lemma encode_ascii: "c < 0x80 \<Longrightarrow> g_unichar_to_utf8 c = [ucast c]"
  by (simp add: g_unichar_to_utf8_def utf8_first_def)

lemma ascii_byte:
  assumes "(c :: u32) < 0x80"
  shows "ucast (ucast c :: u8) = c" "(ucast c :: u8) < 128" "(ucast c :: u8) = 0 \<longleftrightarrow> c = 0" "ucast (ucast c :: u8) AND (0x7F :: u32) = c"
proof -
  have u: "unat (ucast c :: u8) = unat c" using assms by (simp add: unat_ucast_mod word_less_nat_alt)
  then show c: "ucast (ucast c :: u8) = c" using assms by (simp add: word_unat_eq_iff unat_ucast_mod word_less_nat_alt)
  show "(ucast c :: u8) < 128" "(ucast c :: u8) = 0 \<longleftrightarrow> c = 0"
    using u assms by (simp_all add: word_less_nat_alt word_unat_eq_iff)
  have "\<not> bit c n" if "7 \<le> n" for n
    using bits_ge_not[of c 7 n] assms that by (simp add: word_less_nat_alt)
  then show "ucast (ucast c :: u8) AND (0x7F :: u32) = c"
    unfolding c by (intro bit_eqI) (auto simp: bit_simps mask7 intro: leI ccontr)
qed

lemma encode_long:
  assumes "0x80 \<le> c" and "c < 0x80000000"
  obtains b n msk minc where "g_unichar_to_utf8 c = b # conts n c" "0 < n" "n < 6" "UTF8_LENGTH c = Suc n"
    "UTF8_COMPUTE b = Some (msk, Suc n)" "ucast b AND msk = drop_bit (6 * n) c" "g_utf8_skip b = Suc n" "b \<noteq> 0"
    "\<not> is_cont b" "0x80 \<le> (ucast b :: u32)" "ext_lead (ucast b) = Some (Suc n, drop_bit (6 * n) c, minc)" "minc \<le> c"
proof -
  obtain first n msk minc where f: "utf8_first c = (first, Suc n)" "0 < n" "n < 6"
    "lead_ok first (Suc n) msk minc (drop_bit (6 * n) c)" "minc \<le> c" "UTF8_LENGTH c = Suc n"
    using utf8_lead[OF assms] by blast
  have "g_unichar_to_utf8 c = ucast (drop_bit (6 * n) c OR first) # conts n c"
    using f(1) by (simp add: g_unichar_to_utf8_def fill_conts)
  with that f show thesis unfolding lead_ok_def Let_def by blast
qed

lemma get_char_encode:
  assumes "c < 0x80000000"
  shows "g_utf8_get_char (g_unichar_to_utf8 c @ r) = c"
proof (cases "c < 0x80")
  case True
  then show ?thesis using ascii_byte[OF True] by (simp add: encode_ascii g_utf8_get_char_def UTF8_COMPUTE_def Let_def)
next
  case False
  then have "0x80 \<le> c" by simp
  then obtain b n msk minc where "g_unichar_to_utf8 c = b # conts n c"
    "UTF8_COMPUTE b = Some (msk, Suc n)" "ucast b AND msk = drop_bit (6 * n) c"
    using encode_long[OF _ assms] by metis
  then show ?thesis using get_conts[of n c r] by (simp add: g_utf8_get_char_def)
qed

lemma get_char_extended_encode:
  assumes "c < 0x80000000" and "max_len < 0 \<or> int (UTF8_LENGTH c) \<le> max_len"
  shows "g_utf8_get_char_extended (g_unichar_to_utf8 c @ r) max_len = c"
proof (cases "c < 0x80")
  case True
  then show ?thesis using ascii_byte[OF True] by (simp add: encode_ascii g_utf8_get_char_extended_def Let_def)
next
  case False
  then have "0x80 \<le> c" by simp
  then obtain b n minc where "g_unichar_to_utf8 c = b # conts n c" "UTF8_LENGTH c = Suc n"
    "0x80 \<le> (ucast b :: u32)" "ext_lead (ucast b) = Some (Suc n, drop_bit (6 * n) c, minc)" "minc \<le> c"
    using encode_long[OF _ assms(1)] by metis
  then show ?thesis using assms(2) ext_conts_conts[of n c r]
    by (auto simp: g_utf8_get_char_extended_def Let_def)
qed

lemma encode_skip:
  assumes "c < 0x80000000"
  shows "length (g_unichar_to_utf8 c) = UTF8_LENGTH c" "g_utf8_skip (byte_at (g_unichar_to_utf8 c @ r) 0) = UTF8_LENGTH c"
    "byte_at (g_unichar_to_utf8 c @ r) 0 = 0 \<longleftrightarrow> c = 0" "g_utf8_next_char (g_unichar_to_utf8 c @ r) = r"
proof -
  have "length (g_unichar_to_utf8 c) = UTF8_LENGTH c \<and> g_utf8_skip (byte_at (g_unichar_to_utf8 c @ r) 0) = UTF8_LENGTH c \<and>
    (byte_at (g_unichar_to_utf8 c @ r) 0 = 0 \<longleftrightarrow> c = 0)"
  proof (cases "c < 0x80")
    case True
    have "list_all (\<lambda>i. utf8_skip_data ! i = 1) [0..<128]" by (simp add: utf8_skip_data_def upt_rec)
    then have "g_utf8_skip (ucast c) = 1"
      using ascii_byte(2)[OF True] by (simp add: g_utf8_skip_def list_all_iff word_less_nat_alt)
    with True ascii_byte[OF True] show ?thesis by (simp add: encode_ascii UTF8_LENGTH_def)
  next
    case False
    then have c: "0x80 \<le> c" by simp
    then obtain b n where "g_unichar_to_utf8 c = b # conts n c" "UTF8_LENGTH c = Suc n" "g_utf8_skip b = Suc n" "b \<noteq> 0"
      using encode_long[OF _ assms] by metis
    with c show ?thesis by auto
  qed
  then show "length (g_unichar_to_utf8 c) = UTF8_LENGTH c" "g_utf8_skip (byte_at (g_unichar_to_utf8 c @ r) 0) = UTF8_LENGTH c"
    "byte_at (g_unichar_to_utf8 c @ r) 0 = 0 \<longleftrightarrow> c = 0" "g_utf8_next_char (g_unichar_to_utf8 c @ r) = r"
    by (simp_all add: g_utf8_next_char_def)
qed

section \<open>Bytes as numbers\<close>

lemma or_tables:
  "list_all (\<lambda>i. unat (ucast ((of_nat i :: u32) OR 0x80) :: u8) = 128 + unat (of_nat i :: u32)) [0..<64]"
  "list_all (\<lambda>i. unat (ucast ((of_nat i :: u32) OR 0xC0) :: u8) = 192 + unat (of_nat i :: u32)) [0..<32]"
  "list_all (\<lambda>i. unat (ucast ((of_nat i :: u32) OR 0xE0) :: u8) = 224 + unat (of_nat i :: u32)) [0..<16]"
  "list_all (\<lambda>i. unat (ucast ((of_nat i :: u32) OR 0xF0) :: u8) = 240 + unat (of_nat i :: u32)) [0..<8]"
  by (simp_all add: upt_rec)

lemmas or_words = lead_table_word[OF or_tables(1)] lead_table_word[OF or_tables(2)]
  lead_table_word[OF or_tables(3)] lead_table_word[OF or_tables(4)]

lemma unat_and_3F: "unat ((c :: u32) AND 0x3F) = unat c mod 64"
  unfolding mask6 take_bit_eq_mask[symmetric] by (simp add: unsigned_take_bit_eq take_bit_eq_mod[where 'a = nat] del: take_bit_eq_mod)

lemma unat_cont: "unat (ucast ((c AND 0x3F) OR 0x80 :: u32) :: u8) = 128 + unat c mod 64"
  using or_words(1)[of "c AND 0x3F"] by (simp add: unat_and_3F)

lemma unat_drop6: "unat (drop_bit n (c :: u32)) = unat c div 2 ^ n"
  by (simp add: unat_drop_bit_eq drop_bit_eq_div[where 'a = nat] del: drop_bit_eq_div)

lemma conts_eval:
  "conts 2 c = [ucast ((drop_bit 6 c AND 0x3F) OR 0x80), ucast ((c AND 0x3F) OR 0x80)]"
  "conts 3 c = [ucast ((drop_bit 12 c AND 0x3F) OR 0x80), ucast ((drop_bit 6 c AND 0x3F) OR 0x80), ucast ((c AND 0x3F) OR 0x80)]"
  using conts.simps(2)[of 1 c] conts.simps(2)[of 2 c] conts.simps(2)[of 1 "drop_bit 6 c"]
  by (simp_all add: numeral_2_eq_2[symmetric] numeral_3_eq_3[symmetric] eval_nat_numeral(3)[symmetric])

text \<open>The bytes of the characters below 0x200000.\<close>

definition bytes_of :: "nat \<Rightarrow> nat list" where
  "bytes_of n =
     (if n < 0x80 then [n]
      else if n < 0x800 then [192 + n div 64, 128 + n mod 64]
      else if n < 0x10000 then [224 + n div 4096, 128 + n div 64 mod 64, 128 + n mod 64]
      else [240 + n div 262144, 128 + n div 4096 mod 64, 128 + n div 64 mod 64, 128 + n mod 64])"

lemma encode_bytes:
  assumes "unat c < 0x200000"
  shows "map unat (g_unichar_to_utf8 c) = bytes_of (unat c)"
proof -
  consider "unat c < 0x80" | "0x80 \<le> unat c" "unat c < 0x800" | "0x800 \<le> unat c" "unat c < 0x10000"
    | "0x10000 \<le> unat c" by linarith
  then show ?thesis
  proof cases
    case 1
    then show ?thesis by (simp add: encode_ascii word_less_nat_alt bytes_of_def unat_ucast_mod)
  next
    case 2
    then have "g_unichar_to_utf8 c = ucast (drop_bit 6 c OR 0xC0) # conts 1 c"
      by (simp add: g_unichar_to_utf8_def utf8_first_def word_less_nat_alt fill_conts)
    then show ?thesis using 2 or_words(2)[of "drop_bit 6 c"]
      by (simp add: bytes_of_def unat_cont unat_drop6 less_mult_imp_div_less conts_eval)
  next
    case 3
    then have "g_unichar_to_utf8 c = ucast (drop_bit 12 c OR 0xE0) # conts 2 c"
      by (simp add: g_unichar_to_utf8_def utf8_first_def word_less_nat_alt fill_conts)
    then show ?thesis using 3 or_words(3)[of "drop_bit 12 c"]
      by (simp add: bytes_of_def unat_cont unat_drop6 less_mult_imp_div_less conts_eval)
  next
    case 4
    then have "g_unichar_to_utf8 c = ucast (drop_bit 18 c OR 0xF0) # conts 3 c"
      using assms by (simp add: g_unichar_to_utf8_def utf8_first_def word_less_nat_alt fill_conts)
    then show ?thesis using 4 assms or_words(4)[of "drop_bit 18 c"]
      by (simp add: bytes_of_def unat_cont unat_drop6 less_mult_imp_div_less conts_eval)
  qed
qed

section \<open>Validation\<close>

lemma byte_table:
  "list_all (\<lambda>i. let b = of_nat i :: u8 in
     (vbyte 0xC0 0x80 b \<longleftrightarrow> 0x80 \<le> unat b \<and> unat b < 0xC0) \<and> (vbyte 0xE0 0xA0 b \<longleftrightarrow> 0xA0 \<le> unat b \<and> unat b < 0xC0) \<and>
     (vbyte 0xE0 0x80 b \<longleftrightarrow> 0x80 \<le> unat b \<and> unat b < 0xA0) \<and> (vbyte 0xF0 0x80 b \<longleftrightarrow> 0x80 \<le> unat b \<and> unat b < 0x90) \<and>
     (0x80 \<le> unat b \<and> unat b < 0xC0 \<longrightarrow> (b AND 0x30 \<noteq> 0 \<longleftrightarrow> 0x90 \<le> unat b)) \<and>
     (0xE0 \<le> unat b \<and> unat b < 0xF0 \<longrightarrow> (b AND 0x0F = 0 \<longleftrightarrow> unat b = 0xE0) \<and> (b AND 0x0F = 0x0D \<longleftrightarrow> unat b = 0xED)) \<and>
     (0xF0 \<le> unat b \<and> unat b < 0xF5 \<longrightarrow> (b AND 0x07 = 0 \<longleftrightarrow> unat b = 0xF0) \<and> (b AND 0x07 = 4 \<longleftrightarrow> unat b = 0xF4))) [0..<256]"
  by (simp add: upt_rec vbyte_def)

end
