(* ===== verification/Glib_Utf8_Valid.thy ===== *)
theory Glib_Utf8_Valid
  imports Glib_Utf8_Laws
begin

text \<open>
  \<open>g_utf8_validate\<close> accepts exactly the concatenations of encoded valid characters, and
  \<open>_g_utf8_make_valid\<close> ends in such a text on every string shorter than 2^31 bytes.
\<close>

section \<open>One character\<close>

lemma byte_facts:
  fixes b :: u8
  shows "vbyte 0xC0 0x80 b \<longleftrightarrow> 0x80 \<le> unat b \<and> unat b < 0xC0" "vbyte 0xE0 0xA0 b \<longleftrightarrow> 0xA0 \<le> unat b \<and> unat b < 0xC0"
    "vbyte 0xE0 0x80 b \<longleftrightarrow> 0x80 \<le> unat b \<and> unat b < 0xA0" "vbyte 0xF0 0x80 b \<longleftrightarrow> 0x80 \<le> unat b \<and> unat b < 0x90"
    "0x80 \<le> unat b \<Longrightarrow> unat b < 0xC0 \<Longrightarrow> b AND 0x30 \<noteq> 0 \<longleftrightarrow> 0x90 \<le> unat b"
    "0xE0 \<le> unat b \<Longrightarrow> unat b < 0xF0 \<Longrightarrow> b AND 0x0F = 0 \<longleftrightarrow> unat b = 0xE0"
    "0xE0 \<le> unat b \<Longrightarrow> unat b < 0xF0 \<Longrightarrow> b AND 0x0F = 0x0D \<longleftrightarrow> unat b = 0xED"
    "0xF0 \<le> unat b \<Longrightarrow> unat b < 0xF5 \<Longrightarrow> b AND 0x07 = 0 \<longleftrightarrow> unat b = 0xF0"
    "0xF0 \<le> unat b \<Longrightarrow> unat b < 0xF5 \<Longrightarrow> b AND 0x07 = 4 \<longleftrightarrow> unat b = 0xF4"
proof -
  have "unat b \<in> set [0..<256]" using unat_bound[of b] by simp
  note t = bspec[OF byte_table[unfolded list_all_iff] this, unfolded Let_def of_nat_unat ucast_id]
  show "vbyte 0xC0 0x80 b \<longleftrightarrow> 0x80 \<le> unat b \<and> unat b < 0xC0" "vbyte 0xE0 0xA0 b \<longleftrightarrow> 0xA0 \<le> unat b \<and> unat b < 0xC0"
    "vbyte 0xE0 0x80 b \<longleftrightarrow> 0x80 \<le> unat b \<and> unat b < 0xA0" "vbyte 0xF0 0x80 b \<longleftrightarrow> 0x80 \<le> unat b \<and> unat b < 0x90"
    "0x80 \<le> unat b \<Longrightarrow> unat b < 0xC0 \<Longrightarrow> b AND 0x30 \<noteq> 0 \<longleftrightarrow> 0x90 \<le> unat b"
    "0xE0 \<le> unat b \<Longrightarrow> unat b < 0xF0 \<Longrightarrow> b AND 0x0F = 0 \<longleftrightarrow> unat b = 0xE0"
    "0xE0 \<le> unat b \<Longrightarrow> unat b < 0xF0 \<Longrightarrow> b AND 0x0F = 0x0D \<longleftrightarrow> unat b = 0xED"
    "0xF0 \<le> unat b \<Longrightarrow> unat b < 0xF5 \<Longrightarrow> b AND 0x07 = 0 \<longleftrightarrow> unat b = 0xF0"
    "0xF0 \<le> unat b \<Longrightarrow> unat b < 0xF5 \<Longrightarrow> b AND 0x07 = 4 \<longleftrightarrow> unat b = 0xF4"
    using t by blast+
qed

text \<open>The round of the validation loop over numbers.\<close>

definition validate_nat :: "(nat \<Rightarrow> nat) \<Rightarrow> nat option" where
  "validate_nat f =
     (if f 0 < 0x80 then Some 1
      else if 0xC2 \<le> f 0 \<and> f 0 < 0xE0 \<and> 0x80 \<le> f 1 \<and> f 1 < 0xC0 then Some 2
      else if 0xE0 \<le> f 0 \<and> f 0 < 0xF0 \<and> 0x80 \<le> f 1 \<and> f 1 < 0xC0 \<and> (f 0 = 0xE0 \<longrightarrow> 0xA0 \<le> f 1) \<and>
          (f 0 = 0xED \<longrightarrow> f 1 < 0xA0) \<and> 0x80 \<le> f 2 \<and> f 2 < 0xC0 then Some 3
      else if 0xF0 \<le> f 0 \<and> f 0 < 0xF5 \<and> 0x80 \<le> f 1 \<and> f 1 < 0xC0 \<and> (f 0 = 0xF0 \<longrightarrow> 0x90 \<le> f 1) \<and>
          (f 0 = 0xF4 \<longrightarrow> f 1 < 0x90) \<and> 0x80 \<le> f 2 \<and> f 2 < 0xC0 \<and> 0x80 \<le> f 3 \<and> f 3 < 0xC0 then Some 4
      else None)"

lemma validate_char_nat: "validate_char p = validate_nat (\<lambda>i. unat (byte_at p i))"
proof -
  define b where "b i = byte_at p i" for i
  have s3: "second_of_3 (b 0) (b 1) \<longleftrightarrow> 0x80 \<le> unat (b 1) \<and> unat (b 1) < 0xC0 \<and> (unat (b 0) = 0xE0 \<longrightarrow> 0xA0 \<le> unat (b 1)) \<and>
      (unat (b 0) = 0xED \<longrightarrow> unat (b 1) < 0xA0)" if "0xE0 \<le> unat (b 0)" "unat (b 0) < 0xF0"
    using that unfolding second_of_3_def byte_facts(6,7)[OF that] byte_facts(1-4) by auto
  have s4: "second_of_4 (b 0) (b 1) \<longleftrightarrow> 0x80 \<le> unat (b 1) \<and> unat (b 1) < 0xC0 \<and> (unat (b 0) = 0xF0 \<longrightarrow> 0x90 \<le> unat (b 1)) \<and>
      (unat (b 0) = 0xF4 \<longrightarrow> unat (b 1) < 0x90)" if "0xF0 \<le> unat (b 0)" "unat (b 0) < 0xF5"
    using that byte_facts(5)[of "b 1"] unfolding second_of_4_def byte_facts(8,9)[OF that] byte_facts(1-4) by auto
  have "validate_char p =
     (if unat (b 0) < 128 then Some 1
      else if unat (b 0) < 0xE0 then (if unat (b 0) < 0xC2 then None else if vbyte 0xC0 0x80 (b 1) then Some 2 else None)
      else if unat (b 0) < 0xF0 then (if \<not> second_of_3 (b 0) (b 1) then None else if vbyte 0xC0 0x80 (b 2) then Some 3 else None)
      else if unat (b 0) < 0xF5 then
        (if \<not> second_of_4 (b 0) (b 1) then None else if \<not> vbyte 0xC0 0x80 (b 2) then None
         else if vbyte 0xC0 0x80 (b 3) then Some 4 else None)
      else None)"
    by (simp add: validate_char_def Let_def b_def word_less_nat_alt)
  then show ?thesis
    unfolding validate_nat_def b_def[symmetric] byte_facts(1)
    by (cases "unat (b 0) < 0xE0"; cases "unat (b 0) < 0xF0"; cases "unat (b 0) < 0xF5") (auto simp: s3 s4 simp del: One_nat_def)
qed

definition scalar :: "nat \<Rightarrow> bool" where
  "scalar n \<longleftrightarrow> n < 0x110000 \<and> \<not> (0xD800 \<le> n \<and> n < 0xE000)"

lemma bytes_of_bounds: "n < 0x200000 \<Longrightarrow> \<forall>b \<in> set (bytes_of n). b < 256"
  by (auto simp: bytes_of_def)

lemma validate_bytes_of:
  assumes "scalar n" and "\<forall>i < length (bytes_of n). f i = bytes_of n ! i"
  shows "validate_nat f = Some (length (bytes_of n))"
proof -
  consider "n < 0x80" | "0x80 \<le> n" "n < 0x800" | "0x800 \<le> n" "n < 0x10000" | "0x10000 \<le> n" by linarith
  then show ?thesis
  proof cases
    case 1
    then show ?thesis using assms by (simp add: bytes_of_def validate_nat_def)
  next
    case 2
    then have "f 0 = 192 + n div 64" "f 1 = 128 + n mod 64" using assms by (auto simp: bytes_of_def)
    moreover have "2 \<le> n div 64" "n div 64 < 32" using 2 by auto
    ultimately show ?thesis using 2 by (simp add: bytes_of_def validate_nat_def)
  next
    case 3
    then have f: "f 0 = 224 + n div 4096" "f 1 = 128 + n div 64 mod 64" "f 2 = 128 + n mod 64"
      using assms by (auto simp: bytes_of_def)
    have e: "n div 64 mod 64 = n div 64 - 64 * (n div 4096)"
      using div_mult2_eq[of n 64 64] minus_mult_div_eq_mod[of "n div 64" 64] by simp
    have "n div 4096 = 13 \<Longrightarrow> n < 0xD800" using 3 assms(1) by (auto simp: scalar_def)
    then have "n div 4096 = 13 \<Longrightarrow> n div 64 < 864" by (simp add: less_mult_imp_div_less)
    then have "n div 4096 = 0 \<Longrightarrow> 32 \<le> n div 64 mod 64" "n div 4096 = 13 \<Longrightarrow> n div 64 mod 64 < 32" "n div 4096 < 16"
      using 3 unfolding e by auto
    then show ?thesis using 3 f by (auto simp: bytes_of_def validate_nat_def)
  next
    case 4
    then have f: "f 0 = 240 + n div 262144" "f 1 = 128 + n div 4096 mod 64" "f 2 = 128 + n div 64 mod 64" "f 3 = 128 + n mod 64"
      using assms by (auto simp: bytes_of_def)
    have e: "n div 4096 mod 64 = n div 4096 - 64 * (n div 262144)"
      using div_mult2_eq[of n 4096 64] minus_mult_div_eq_mod[of "n div 4096" 64] by simp
    have "n < 272 * 4096" using assms(1) by (simp add: scalar_def)
    then have "n div 4096 < 272" by (rule less_mult_imp_div_less)
    then have "n div 262144 = 0 \<Longrightarrow> 16 \<le> n div 4096 mod 64" "n div 262144 = 4 \<Longrightarrow> n div 4096 mod 64 < 16" "n div 262144 < 5"
      using 4 assms(1) unfolding e by (auto simp: scalar_def)
    then show ?thesis using 4 f by (auto simp: bytes_of_def validate_nat_def)
  qed
qed

lemma div_mod_join:
  fixes a b :: nat
  assumes "b < 64"
  shows "(a * 64 + b) div 64 = a" "(a * 64 + b) mod 64 = b"
  using assms by simp_all

lemma some_cases:
  "(if a then Some (1 :: nat) else if b then Some 2 else if c then Some 3 else if d then Some 4 else None) = Some k \<Longrightarrow>
   a \<and> k = 1 \<or> b \<and> k = 2 \<or> c \<and> k = 3 \<or> d \<and> k = 4"
  by (auto split: if_splits)

lemma all_below:
  "(\<forall>i < (2 :: nat). P i) \<longleftrightarrow> P 0 \<and> P 1" "(\<forall>i < (3 :: nat). P i) \<longleftrightarrow> P 0 \<and> P 1 \<and> P 2"
  "(\<forall>i < (4 :: nat). P i) \<longleftrightarrow> P 0 \<and> P 1 \<and> P 2 \<and> P 3"
  by (auto simp: less_Suc_eq numeral_eq_Suc)

lemma validate_nat_sound:
  assumes "validate_nat f = Some k" and "f 0 \<noteq> 0"
  shows "\<exists>n. scalar n \<and> n \<noteq> 0 \<and> length (bytes_of n) = k \<and> (\<forall>i < k. f i = bytes_of n ! i) \<and> (\<forall>i < k. f i \<noteq> 0)"
  using some_cases[OF assms(1)[unfolded validate_nat_def]]
proof (elim disjE conjE, goal_cases)
  case 1
  then show ?case using assms by (intro exI[of _ "f 0"]) (simp add: scalar_def bytes_of_def)
next
  case 2
  define n where "n = (f 0 - 192) * 64 + (f 1 - 128)"
  have "n div 64 = f 0 - 192" "n mod 64 = f 1 - 128" unfolding n_def by (rule div_mod_join, use 2 in simp)+
  moreover have "0x80 \<le> n" "n < 0x800" unfolding n_def using 2 by linarith+
  ultimately show ?case using 2
    by (intro exI[of _ n]) (simp add: scalar_def bytes_of_def all_below)
next
  case 3
  define a b c m n where abc: "a = f 0 - 224" "b = f 1 - 128" "c = f 2 - 128" and m_def: "m = a * 64 + b"
    and n_def: "n = m * 64 + c"
  have f: "f 0 = 224 + a" "f 1 = 128 + b" "f 2 = 128 + c" "a < 16" "b < 64" "c < 64" using 3 by (simp_all add: abc)
  have ab: "a = 0 \<longrightarrow> 32 \<le> b" "a = 13 \<longrightarrow> b < 32" using 3 f by auto
  have m: "m div 64 = a" "m mod 64 = b" unfolding m_def by (rule div_mod_join, use f in simp)+
  have n: "n div 64 = m" "n mod 64 = c" unfolding n_def by (rule div_mod_join, use f in simp)+
  have d: "n div 4096 = a" using n m div_mult2_eq[of n 64 64] by simp
  have lo: "0x800 \<le> n" unfolding n_def m_def by (cases "a = 0") (use ab in simp_all)
  have hi: "n < 0x10000" unfolding n_def m_def using f by (simp add: add_mult_distrib)
  have "\<not> (0xD800 \<le> n \<and> n < 0xE000)"
  proof (cases "a = 13")
    case True
    then have "b < 32" using ab by simp
    then show ?thesis unfolding n_def m_def using f True by (simp add: add_mult_distrib)
  next
    case False
    then consider "a \<le> 12" | "14 \<le> a" by linarith
    then show ?thesis unfolding n_def m_def using f by cases (simp_all add: add_mult_distrib)
  qed
  with lo hi d show ?case using 3 n m f
    by (intro exI[of _ n]) (simp add: scalar_def bytes_of_def all_below)
next
  case 4
  define a b c e l m n where abc: "a = f 0 - 240" "b = f 1 - 128" "c = f 2 - 128" "e = f 3 - 128"
    and l_def: "l = a * 64 + b" and m_def: "m = l * 64 + c" and n_def: "n = m * 64 + e"
  have f: "f 0 = 240 + a" "f 1 = 128 + b" "f 2 = 128 + c" "f 3 = 128 + e" "a < 5" "b < 64" "c < 64" "e < 64"
    using 4 by (simp_all add: abc)
  have ab: "a = 0 \<longrightarrow> 16 \<le> b" "a = 4 \<longrightarrow> b < 16" using 4 f by auto
  have l: "l div 64 = a" "l mod 64 = b" unfolding l_def by (rule div_mod_join, use f in simp)+
  have m: "m div 64 = l" "m mod 64 = c" unfolding m_def by (rule div_mod_join, use f in simp)+
  have n: "n div 64 = m" "n mod 64 = e" unfolding n_def by (rule div_mod_join, use f in simp)+
  have d: "n div 4096 = l" using n m div_mult2_eq[of n 64 64] by simp
  have d2: "n div 262144 = a" using d l div_mult2_eq[of n 4096 64] by simp
  have lo: "0x10000 \<le> n" unfolding n_def m_def l_def by (cases "a = 0") (use ab in simp_all)
  have hi: "n < 0x110000"
  proof (cases "a = 4")
    case True
    then have "b < 16" using ab by simp
    then show ?thesis unfolding n_def m_def l_def using True f by (simp add: add_mult_distrib)
  next
    case False
    then have "a \<le> 3" using f by simp
    then show ?thesis unfolding n_def m_def l_def using f by (simp add: add_mult_distrib)
  qed
  from lo hi show ?case using 4 n m l d d2 f
    by (intro exI[of _ n]) (simp add: scalar_def bytes_of_def all_below)
qed

section \<open>Texts\<close>

lemma valid_scalar: "UNICODE_VALID c \<longleftrightarrow> scalar (unat c)"
proof -
  have msk: "(0xFFFFF800 :: u32) = NOT (mask 11)" by (simp add: mask_eq_exp_minus_1)
  have dr: "drop_bit 11 (c AND NOT (mask 11)) = drop_bit 11 c"
    by (rule bit_word_eqI) (auto simp: bit_simps dest: bit_imp_le_length)
  have pu: "push_bit 11 (drop_bit 11 c) = c AND NOT (mask 11)" by (rule bit_word_eqI) (auto simp: bit_simps)
  have "c AND 0xFFFFF800 = 0xD800 \<longleftrightarrow> drop_bit 11 c = 27"
  proof
    assume "c AND 0xFFFFF800 = 0xD800"
    then have "drop_bit 11 c = drop_bit 11 0xD800" unfolding msk using dr by metis
    then show "drop_bit 11 c = 27" by simp
  next
    assume "drop_bit 11 c = 27"
    then have "push_bit 11 (27 :: u32) = c AND NOT (mask 11)" using pu by simp
    then show "c AND 0xFFFFF800 = 0xD800" unfolding msk by simp
  qed
  also have "\<dots> \<longleftrightarrow> unat c div 2048 = 27" by (simp add: word_unat_eq_iff unat_drop6)
  also have "\<dots> \<longleftrightarrow> 0xD800 \<le> unat c \<and> unat c < 0xE000" by auto
  finally show ?thesis by (simp add: UNICODE_VALID_def scalar_def word_less_nat_alt)
qed

text \<open>A text: the bytes of some valid characters, none of them the NUL.\<close>

definition utf8_text :: "u8 list \<Rightarrow> bool" where
  "utf8_text s \<longleftrightarrow> (\<exists>cs. list_all (\<lambda>c. c \<noteq> 0 \<and> UNICODE_VALID c) cs \<and> s = concat (map g_unichar_to_utf8 cs))"

lemma validate_encode:
  assumes "UNICODE_VALID c"
  shows "validate_char (g_unichar_to_utf8 c @ r) = Some (length (g_unichar_to_utf8 c))"
proof -
  have c: "scalar (unat c)" "unat c < 0x200000" using assms by (auto simp: valid_scalar scalar_def)
  have e: "map unat (g_unichar_to_utf8 c) = bytes_of (unat c)" by (rule encode_bytes[OF c(2)])
  then have l: "length (bytes_of (unat c)) = length (g_unichar_to_utf8 c)" by (metis length_map)
  have "unat (byte_at (g_unichar_to_utf8 c @ r) i) = bytes_of (unat c) ! i" if "i < length (bytes_of (unat c))" for i
    using that l unfolding e[symmetric] by simp
  then show ?thesis using validate_bytes_of[OF c(1)] l by (simp add: validate_char_nat)
qed

lemma validate_char_sound:
  assumes "validate_char p = Some k" and "byte_at p 0 \<noteq> 0"
  shows "\<exists>c. c \<noteq> 0 \<and> UNICODE_VALID c \<and> take k p = g_unichar_to_utf8 c \<and> k = length (g_unichar_to_utf8 c) \<and> k \<le> length p"
proof -
  have "unat (byte_at p 0) \<noteq> 0" using assms(2) by (simp add: unat_eq_0)
  then obtain n where n: "scalar n" "n \<noteq> 0" "length (bytes_of n) = k" "\<forall>i < k. unat (byte_at p i) = bytes_of n ! i"
    "\<forall>i < k. unat (byte_at p i) \<noteq> 0"
    using validate_nat_sound[OF assms(1)[unfolded validate_char_nat]] by auto
  define c :: u32 where "c = of_nat n"
  have u: "unat c = n" using n(1) by (simp add: c_def unat_of_nat scalar_def)
  have k: "k \<le> length p"
  proof (rule ccontr)
    assume "\<not> k \<le> length p"
    then show False using n(5)[rule_format, of "length p"] by (simp add: byte_at_def)
  qed
  have e: "map unat (g_unichar_to_utf8 c) = bytes_of n"
    using encode_bytes[of c] n(1) u by (simp add: scalar_def)
  then have l: "length (g_unichar_to_utf8 c) = k" using n(3) by (metis length_map)
  have "map unat (take k p) = map unat (g_unichar_to_utf8 c)"
    unfolding e using n(3,4) k by (intro nth_equalityI) (auto simp: byte_at_def)
  then have "take k p = g_unichar_to_utf8 c" by (simp add: inj_map_eq_map[OF inj_unsigned])
  moreover have "c \<noteq> 0" using u n(2) by auto
  ultimately show ?thesis using l k u n(1) by (auto simp: valid_scalar)
qed

lemma utf8_text_Nil [simp]: "utf8_text []"
  unfolding utf8_text_def by (rule exI[of _ "[]"]) simp

lemma utf8_text_Cons: "c \<noteq> 0 \<Longrightarrow> UNICODE_VALID c \<Longrightarrow> utf8_text s \<Longrightarrow> utf8_text (g_unichar_to_utf8 c @ s)"
proof -
  assume c: "c \<noteq> 0" "UNICODE_VALID c" and "utf8_text s"
  then obtain cs where "list_all (\<lambda>c. c \<noteq> 0 \<and> UNICODE_VALID c) cs" "s = concat (map g_unichar_to_utf8 cs)"
    by (auto simp: utf8_text_def)
  with c show ?thesis unfolding utf8_text_def by (intro exI[of _ "c # cs"]) simp
qed

lemma utf8_text_cases:
  assumes "utf8_text s"
  obtains "s = []" | c r where "c \<noteq> 0" "UNICODE_VALID c" "utf8_text r" "s = g_unichar_to_utf8 c @ r"
proof -
  from assms obtain cs where cs: "list_all (\<lambda>c. c \<noteq> 0 \<and> UNICODE_VALID c) cs" "s = concat (map g_unichar_to_utf8 cs)"
    by (auto simp: utf8_text_def)
  show thesis
  proof (cases cs)
    case (Cons c ds)
    then show thesis using cs that(2)[of c "concat (map g_unichar_to_utf8 ds)"] by (auto simp: utf8_text_def)
  qed (use cs that in auto)
qed

lemma utf8_text_append: "utf8_text s \<Longrightarrow> utf8_text t \<Longrightarrow> utf8_text (s @ t)"
proof -
  assume "utf8_text s" "utf8_text t"
  then obtain cs ds where "list_all (\<lambda>c. c \<noteq> 0 \<and> UNICODE_VALID c) cs" "s = concat (map g_unichar_to_utf8 cs)"
    "list_all (\<lambda>c. c \<noteq> 0 \<and> UNICODE_VALID c) ds" "t = concat (map g_unichar_to_utf8 ds)"
    by (auto simp: utf8_text_def)
  then show ?thesis unfolding utf8_text_def by (intro exI[of _ "cs @ ds"]) simp
qed

lemma valid_below: "UNICODE_VALID c \<Longrightarrow> c < 0x80000000"
  by (auto simp: valid_scalar scalar_def word_less_nat_alt)

lemma validate_char_need: "validate_char p = Some n \<Longrightarrow> lead_need (byte_at p 0) = n"
  by (auto simp: validate_char_def lead_need_def Let_def split: if_splits)

lemma fast_validate_text:
  "utf8_text (take (fast_validate p) p) \<and> fast_validate p \<le> length p"
proof (induction p rule: fast_validate.induct)
  case (1 p)
  show ?case
  proof (cases "byte_at p 0 = 0 \<or> validate_char p = None")
    case True
    then show ?thesis by (auto simp: fast_validate.simps[of p] split: option.split)
  next
    case False
    then obtain n where n: "validate_char p = Some n" "byte_at p 0 \<noteq> 0" by auto
    from validate_char_sound[OF this] obtain c where c: "c \<noteq> 0" "UNICODE_VALID c" "take n p = g_unichar_to_utf8 c" "n \<le> length p"
      by auto
    have "fast_validate p = n + fast_validate (drop n p)" using n by (simp add: fast_validate.simps[of p])
    then show ?thesis using 1[OF n(2,1)] c utf8_text_Cons[OF c(1,2)] by (auto simp: take_add)
  qed
qed

lemma fast_validate_complete: "utf8_text s \<Longrightarrow> fast_validate s = length s"
proof (induction "length s" arbitrary: s rule: less_induct)
  case less
  from less.prems show ?case
  proof (cases rule: utf8_text_cases)
    case (2 c r)
    note k = encode_skip[OF valid_below[OF 2(2)]]
    have "length (g_unichar_to_utf8 c) > 0" unfolding k(1) by (simp add: UTF8_LENGTH_def)
    then have "fast_validate r = length r" using less.hyps[of r] 2 by simp
    with 2 k(3)[of r] validate_encode[OF 2(2), of r] show ?thesis by (subst 2(4), subst fast_validate.simps) simp
  qed (simp add: fast_validate.simps[of "[]"])
qed

lemma fast_validate_len_text:
  "left \<le> length p \<Longrightarrow> utf8_text (take (fast_validate_len p left) p) \<and> fast_validate_len p left \<le> left"
proof (induction p left rule: fast_validate_len.induct)
  case (1 p left)
  show ?case
  proof (cases "left = 0 \<or> byte_at p 0 = 0 \<or> left < lead_need (byte_at p 0) \<or> validate_char p = None")
    case True
    then show ?thesis by (auto simp: fast_validate_len.simps[of p left] split: option.split)
  next
    case False
    then obtain n where n: "validate_char p = Some n" "byte_at p 0 \<noteq> 0" "\<not> (left = 0 \<or> byte_at p 0 = 0)"
      "\<not> left < lead_need (byte_at p 0)" by auto
    from validate_char_sound[OF n(1,2)] obtain c where c: "c \<noteq> 0" "UNICODE_VALID c" "take n p = g_unichar_to_utf8 c" by auto
    have "n \<le> left" using n(4) validate_char_need[OF n(1)] by simp
    moreover have "fast_validate_len p left = n + fast_validate_len (drop n p) (left - n)"
      using n by (simp add: fast_validate_len.simps[of p left])
    moreover have "left - n \<le> length (drop n p)" using 1(2) by simp
    note IH = 1(1)[OF n(3,4,1) this]
    ultimately show ?thesis using IH c utf8_text_Cons[OF c(1,2)] by (auto simp: take_add)
  qed
qed

lemma fast_validate_len_complete: "utf8_text s \<Longrightarrow> fast_validate_len (s @ r) (length s) = length s"
proof (induction "length s" arbitrary: s rule: less_induct)
  case less
  from less.prems show ?case
  proof (cases rule: utf8_text_cases)
    case (2 c t)
    note k = encode_skip[OF valid_below[OF 2(2)]] and v = validate_encode[OF 2(2), of "t @ r"]
    have pos: "length (g_unichar_to_utf8 c) > 0" unfolding k(1) by (simp add: UTF8_LENGTH_def)
    then have "fast_validate_len (t @ r) (length t) = length t" using less.hyps[of t] 2 by simp
    with 2 pos k(3)[of "t @ r"] v validate_char_need[OF v] show ?thesis
      by (subst fast_validate_len.simps) simp
  qed (simp add: fast_validate_len.simps[of r 0])
qed

section \<open>The replacement text\<close>

lemma replacement_text: "utf8_text ([0xEF, 0xBF, 0xBD] @ s)" if "utf8_text s"
proof -
  have "map unat (g_unichar_to_utf8 0xFFFD) = map unat [0xEF, 0xBF, 0xBD :: u8]"
    using encode_bytes[of "0xFFFD"] by (simp add: bytes_of_def)
  then have "g_unichar_to_utf8 0xFFFD = [0xEF, 0xBF, 0xBD]" by (simp only: inj_map_eq_map[OF inj_unsigned])
  with utf8_text_Cons[of "0xFFFD" s] that show ?thesis by (simp add: UNICODE_VALID_def)
qed

text \<open>
  The description of the repaired text: as long as the text is not valid, its longest valid prefix
  stays, and the byte behind it becomes the replacement character.
\<close>

inductive repaired :: "u8 list \<Rightarrow> u8 list \<Rightarrow> bool" where
  valid: "utf8_text s \<Longrightarrow> repaired s s"
| broken: "utf8_text p \<Longrightarrow> (\<And>q r. utf8_text (p @ q) \<Longrightarrow> b # s = q @ r \<Longrightarrow> q = []) \<Longrightarrow> repaired s t \<Longrightarrow>
    repaired (p @ b # s) (p @ [0xEF, 0xBF, 0xBD] @ t)"

lemma repaired_text: "repaired s t \<Longrightarrow> utf8_text t"
proof (induction rule: repaired.induct)
  case (broken p b s t)
  then show ?case by (intro utf8_text_append replacement_text)
qed

lemma fast_validate_len_mono: "m \<le> n \<Longrightarrow> fast_validate_len p m \<le> fast_validate_len p n"
proof (induction p n arbitrary: m rule: fast_validate_len.induct)
  case (1 p n)
  show ?case
  proof (cases "m = 0 \<or> byte_at p 0 = 0 \<or> m < lead_need (byte_at p 0) \<or> validate_char p = None")
    case True
    then show ?thesis by (auto simp: fast_validate_len.simps[of p m] split: option.split)
  next
    case False
    then obtain k where k: "validate_char p = Some k" by auto
    have nn: "\<not> (n = 0 \<or> byte_at p 0 = 0)" "\<not> n < lead_need (byte_at p 0)" using False 1(2) by auto
    have "fast_validate_len (drop k p) (m - k) \<le> fast_validate_len (drop k p) (n - k)"
      by (rule 1(1)[OF nn k]) (use 1(2) in simp)
    with False nn k show ?thesis by (simp add: fast_validate_len.simps[of p m] fast_validate_len.simps[of p n])
  qed
qed

lemma make_valid_loop_repairs:
  "n = int (length r) \<Longrightarrow>
   \<exists>s rest t. make_valid_loop r n string = Some (s, rest) \<and> repaired r t \<and>
     (case s of None \<Rightarrow> string = None \<and> rest = r \<and> t = r
      | Some x \<Rightarrow> x @ rest = (case string of None \<Rightarrow> [] | Some y \<Rightarrow> y) @ t)"
proof (induction r n string rule: make_valid_loop.induct)
  case (1 r n string)
  obtain ok v where g: "g_utf8_validate r n = (ok, v)" by force
  have v: "v = fast_validate_len r (length r)" "ok \<longleftrightarrow> v = length r"
    using g 1(2) by (auto simp: g_utf8_validate_def Let_def)
  note t = fast_validate_len_text[of "length r" r, folded v(1)]
  show ?case
  proof (cases "n = 0 \<or> ok")
    case True
    then have "utf8_text r" using t v 1(2) by auto
    then show ?thesis using True g
      by (intro exI[of _ string] exI[of _ r]) (auto simp: make_valid_loop.simps[of r] intro: repaired.valid split: option.split)
  next
    case False
    define x where "x = (case string of None \<Rightarrow> [] | Some s \<Rightarrow> s) @ take v r @ [0xEF, 0xBF, 0xBD]"
    have less: "v < length r" using False t v by auto
    then have split: "r = take v r @ r ! v # drop (Suc v) r" by (simp add: id_take_nth_drop)
    have n: "n \<noteq> 0" "\<not> n < 0" "n - (int v + 1) = int (length (drop (Suc v) r))" using False 1(2) less by auto
    have False': "(False, v) = g_utf8_validate r n" using g False by simp
    from 1(1)[OF n(1) False' refl n(2,3)]
    obtain s rest t where IH: "make_valid_loop (drop (Suc v) r) (n - (int v + 1)) (Some x) = Some (s, rest)"
      "repaired (drop (Suc v) r) t" "case s of None \<Rightarrow> False | Some y \<Rightarrow> y @ rest = x @ t"
      unfolding x_def by (auto split: option.splits)
    have "q = []" if q: "utf8_text (take v r @ q)" "r ! v # drop (Suc v) r = q @ r'" for q r'
    proof -
      have r: "r = (take v r @ q) @ r'" using split q(2) by simp
      then have short: "length (take v r @ q) \<le> length r" by (metis length_append le_add1)
      have "length (take v r @ q) = fast_validate_len r (length (take v r @ q))"
        using fast_validate_len_complete[OF q(1), of r'] r by metis
      also have "\<dots> \<le> v"
        using fast_validate_len_mono[OF short, of r] unfolding v(1)[symmetric] .
      finally show ?thesis using less by simp
    qed
    with IH(2) have "repaired (take v r @ r ! v # drop (Suc v) r) (take v r @ [0xEF, 0xBF, 0xBD] @ t)"
      using t by (intro repaired.broken) auto
    then have "repaired r (take v r @ [0xEF, 0xBF, 0xBD] @ t)" using split by simp
    moreover have "make_valid_loop r n string = Some (s, rest)"
      using n g False IH(1) by (simp add: make_valid_loop.simps[of r n] x_def)
    ultimately show ?thesis using IH(3) x_def by (auto split: option.splits)
  qed
qed

lemma validate_nul: "utf8_text s \<Longrightarrow> fst (g_utf8_validate s (-1))"
  by (simp add: g_utf8_validate_def Let_def fast_validate_complete byte_at_def)

lemma make_valid_repairs:
  assumes "length name < 2147483648"
  shows "\<exists>t. g_utf8_make_valid name = Some t \<and> repaired name t"
proof -
  obtain s rest t where l: "make_valid_loop name (int (length name)) None = Some (s, rest)" "repaired name t"
    "case s of None \<Rightarrow> rest = name \<and> t = name | Some x \<Rightarrow> x @ rest = t"
    using make_valid_loop_repairs[of "int (length name)" name None] by (auto split: option.splits)
  have "g_utf8_make_valid name = Some t"
    using l validate_nul[OF repaired_text[OF l(2)]]
    by (auto simp: g_utf8_make_valid_def gint_of_small[OF assms] split: option.splits)
  with l(2) show ?thesis by blast
qed

lemma repaired_valid: "repaired s t \<Longrightarrow> utf8_text s \<Longrightarrow> t = s"
  by (cases rule: repaired.cases) auto

section \<open>Conversions there and back\<close>

definition ucs4_ok :: "u32 list \<Rightarrow> bool" where
  "ucs4_ok cs \<longleftrightarrow> list_all (\<lambda>c. c \<noteq> 0 \<and> c < 0x80000000) cs"

lemma ucs4_input_all: "0 \<notin> set cs \<Longrightarrow> len < 0 \<or> int (length cs) \<le> len \<Longrightarrow> ucs4_input cs len = cs"
  by (auto simp: ucs4_input_def nat_le_iff intro!: takeWhile_id)

lemma not_msb: "(c :: u32) < 0x80000000 \<Longrightarrow> c AND 0x80000000 = 0"
proof -
  assume "c < 0x80000000"
  then have "\<not> bit c 31" using bits_ge_not[of c 31 31] by (simp add: word_less_nat_alt)
  then show ?thesis using and_exp_eq_0_iff_not_bit[of c 31] by simp
qed

lemma scan_text:
  "ucs4_ok cs \<Longrightarrow> utf8_scan (\<lambda>_. Inr 1) w (-1) (concat (map g_unichar_to_utf8 cs)) pos n =
     (pos + length (concat (map g_unichar_to_utf8 cs)), Inr (n + length cs))"
proof (induction cs arbitrary: pos n)
  case (Cons c cs)
  have c: "c \<noteq> 0" "c < 0x80000000" using Cons.prems by (simp_all add: ucs4_ok_def)
  let ?r = "concat (map g_unichar_to_utf8 cs)"
  note k = encode_skip[OF c(2)]
  have "UTF8_LENGTH c \<le> 6" by (simp add: UTF8_LENGTH_def)
  then have "g_utf8_get_char_extended (g_unichar_to_utf8 c @ ?r) (limit_of (-1) pos) = c"
    by (intro get_char_extended_encode[OF c(2)]) (simp add: limit_of_def)
  then show ?case using Cons k(1) k(2-4)[of ?r] c not_msb[OF c(2)]
    by (subst utf8_scan.simps) (simp add: ucs4_ok_def)
qed (simp add: utf8_scan.simps)

lemma get_chars_text:
  "ucs4_ok cs \<Longrightarrow> get_chars (length cs) (concat (map g_unichar_to_utf8 cs)) =
     (cs, length (concat (map g_unichar_to_utf8 cs)))"
proof (induction cs)
  case (Cons c cs)
  have c: "c < 0x80000000" "ucs4_ok cs" using Cons.prems by (simp_all add: ucs4_ok_def)
  from encode_skip[OF c(1)] get_char_encode[OF c(1)] Cons.IH[OF c(2)] show ?case by simp
qed simp

lemma unat_sub_le: "(b :: u32) \<le> a \<Longrightarrow> unat (a - b) = unat a - unat b"
  by (simp add: unat_sub)

lemma low_not_high: "low_surrogate c \<Longrightarrow> \<not> high_surrogate c"
  by (simp add: low_surrogate_def high_surrogate_def not_less)

lemma surrogates:
  assumes "0x10000 \<le> c" and "c < 0x110000"
  defines "h \<equiv> ucast ((c - 0x10000) div 0x400 + 0xD800) :: u16" and "l \<equiv> ucast ((c - 0x10000) mod 0x400 + 0xDC00) :: u16"
  shows "high_surrogate h" "\<not> low_surrogate h" "low_surrogate l" "(ucast h :: u32) \<noteq> 0" "SURROGATE_VALUE (ucast h) (ucast l) = c"
proof -
  define x where "x = unat c - 0x10000"
  have x: "unat (c - 0x10000) = x" "x < 0x100000" "unat c = x + 0x10000"
    using assms(1,2) by (auto simp: x_def unat_sub_le word_le_nat_alt word_less_nat_alt)
  have h: "unat h = x div 0x400 + 0xD800"
    using x by (simp add: h_def unat_ucast_mod unat_word_ariths unat_div)
  have l: "unat l = x mod 0x400 + 0xDC00"
    using x by (simp add: l_def unat_ucast_mod unat_word_ariths unat_mod)
  have d: "x div 0x400 < 0x400" using x(2) by (simp add: less_mult_imp_div_less)
  show "high_surrogate h" "\<not> low_surrogate h" "low_surrogate l"
    using h l d by (simp_all add: high_surrogate_def low_surrogate_def word_le_nat_alt word_less_nat_alt)
  have uh: "unat (ucast h :: u32) = x div 0x400 + 0xD800" and ul: "unat (ucast l :: u32) = x mod 0x400 + 0xDC00"
    using h l d by (simp_all add: unat_ucast_mod)
  then show "(ucast h :: u32) \<noteq> 0" by (metis add_is_0 unat_0 zero_neq_numeral)
  have e: "ucast h = of_nat (x div 0x400) + (0xD800 :: u32)" "ucast l = of_nat (x mod 0x400) + (0xDC00 :: u32)"
    using uh ul d x(2) by (simp_all add: word_unat_eq_iff unat_word_ariths unat_of_nat)
  have "c = of_nat (x div 0x400 * 0x400 + x mod 0x400) + (0x10000 :: u32)"
    using x by (simp add: word_unat_eq_iff unat_word_ariths unat_of_nat)
  also have "\<dots> = of_nat (x div 0x400) * 0x400 + of_nat (x mod 0x400) + 0x10000"
    by (simp only: of_nat_add of_nat_mult of_nat_numeral)
  finally show "SURROGATE_VALUE (ucast h) (ucast l) = c" unfolding e SURROGATE_VALUE_def by simp
qed

lemma bmp_unit:
  assumes "UNICODE_VALID c" and "c < 0x10000"
  shows "\<not> high_surrogate (ucast c)" "\<not> low_surrogate (ucast c)" "ucast (ucast c :: u16) = c"
proof -
  have u: "unat (ucast c :: u16) = unat c" using assms(2) by (simp add: unat_ucast_mod word_less_nat_alt)
  show "\<not> high_surrogate (ucast c)" "\<not> low_surrogate (ucast c)"
    using assms(1) u by (auto simp: valid_scalar scalar_def high_surrogate_def low_surrogate_def word_le_nat_alt word_less_nat_alt)
  show "ucast (ucast c :: u16) = c" using u assms(2) by (simp add: word_unat_eq_iff unat_ucast_mod[where 'b = 32] word_less_nat_alt)
qed

lemma utf16_of_step:
  assumes "UNICODE_VALID c"
  shows "utf16_scan sz (utf16_of c @ us) 0 pos n = utf16_scan sz us 0 (pos + length (utf16_of c)) (n + sz c)"
    and "m \<noteq> 0 \<Longrightarrow> utf16_chars sz (utf16_of c @ us) 0 m =
      (let (ws, k) = utf16_chars sz us 0 (m - sz c) in (c # ws, length (utf16_of c) + k))"
proof -
  have "c < 0x110000" using assms by (simp add: UNICODE_VALID_def)
  then show "utf16_scan sz (utf16_of c @ us) 0 pos n = utf16_scan sz us 0 (pos + length (utf16_of c)) (n + sz c)"
    "m \<noteq> 0 \<Longrightarrow> utf16_chars sz (utf16_of c @ us) 0 m =
      (let (ws, k) = utf16_chars sz us 0 (m - sz c) in (c # ws, length (utf16_of c) + k))"
    using bmp_unit[OF assms] surrogates[of c] low_not_high by (auto simp: utf16_of_def not_less Let_def split: prod.split)
qed

lemma utf16_scan_text:
  "list_all UNICODE_VALID cs \<Longrightarrow> utf16_scan (\<lambda>_. 4) (concat (map utf16_of cs)) 0 pos n =
     (pos + length (concat (map utf16_of cs)), Inr (0, n + 4 * length cs))"
  by (induction cs arbitrary: pos n) (simp_all add: utf16_of_step(1))

lemma utf16_chars_text:
  "list_all UNICODE_VALID cs \<Longrightarrow> utf16_chars (\<lambda>_. 4) (concat (map utf16_of cs)) 0 (4 * length cs) =
     (cs, length (concat (map utf16_of cs)))"
  by (induction cs) (simp_all add: utf16_of_step(2))

lemma utf16_units_valid: "UNICODE_VALID c \<Longrightarrow> utf16_units c = Inr (length (utf16_of c))"
  by (auto simp: valid_scalar scalar_def utf16_units_def utf16_of_def word_less_nat_alt)

lemma ucs4_scan16_text:
  "list_all UNICODE_VALID cs \<Longrightarrow> ucs4_scan16 cs n = (length cs, Inr (n + length (concat (map utf16_of cs))))"
  by (induction cs arbitrary: n) (simp_all add: utf16_units_valid)

lemma utf16_nonzero: "c \<noteq> 0 \<Longrightarrow> UNICODE_VALID c \<Longrightarrow> 0 \<notin> set (utf16_of c)"
proof -
  assume c: "c \<noteq> 0" "UNICODE_VALID c"
  show ?thesis
  proof (cases "c < 0x10000")
    case True
    then show ?thesis using bmp_unit(3)[OF c(2) True] c(1) by (auto simp: utf16_of_def)
  next
    case False
    then have "0x10000 \<le> c" "c < 0x110000" using c(2) by (auto simp: UNICODE_VALID_def)
    from surrogates[OF this] show ?thesis using False
      by (auto simp: utf16_of_def high_surrogate_def low_surrogate_def)
  qed
qed

section \<open>Properties\<close>

text \<open>
  C14: Every character below 0x80000000 is read back from its UTF-8 bytes, by \<open>g_utf8_get_char\<close>
  and by the checking \<open>g_utf8_get_char_extended\<close>, whatever follows them; \<open>g_utf8_skip\<close> of the
  first byte is their number.
\<close>
theorem utf8_char_roundtrip:
  assumes "c < 0x80000000" and "max_len < 0 \<or> int (length (g_unichar_to_utf8 c)) \<le> max_len"
  shows "g_utf8_get_char (g_unichar_to_utf8 c @ r) = c \<and>
    g_utf8_get_char_extended (g_unichar_to_utf8 c @ r) max_len = c \<and>
    g_utf8_next_char (g_unichar_to_utf8 c @ r) = r"
  using get_char_encode[OF assms(1)] get_char_extended_encode[OF assms(1)] encode_skip[OF assms(1)] assms(2) by simp

theorem utf8_char_roundtrip_witness:
  "g_utf8_get_char (g_unichar_to_utf8 0x20AC @ [0x41]) = 0x20AC \<and>
    g_utf8_get_char_extended (g_unichar_to_utf8 0x20AC @ [0x41]) 4 = 0x20AC \<and>
    g_utf8_next_char (g_unichar_to_utf8 0x20AC @ [0x41]) = [0x41]"
  by (rule utf8_char_roundtrip) (simp_all add: g_unichar_to_utf8_def utf8_first_def fill_conts)

text \<open>
  C13: \<open>g_utf8_validate\<close> accepts exactly the UTF-8 texts. On a NUL-terminated string it returns
  true if and only if the string is the encoding of valid Unicode characters; with a length, if and
  only if its first \<open>n\<close> bytes are.
\<close>
theorem utf8_validate_iff:
  assumes "0 \<notin> set s" and "n \<le> length s"
  shows "(fst (g_utf8_validate s (-1)) \<longleftrightarrow> utf8_text s) \<and> (fst (g_utf8_validate s (int n)) \<longleftrightarrow> utf8_text (take n s))"
proof -
  have "fst (g_utf8_validate s (-1)) \<longleftrightarrow> fast_validate s = length s"
    using assms(1) fast_validate_text[of s] by (auto simp: g_utf8_validate_def Let_def byte_at_def in_set_conv_nth)
  moreover have "fast_validate s = length s \<longleftrightarrow> utf8_text s"
    using fast_validate_text[of s] fast_validate_complete[of s] by auto
  moreover have "fst (g_utf8_validate s (int n)) \<longleftrightarrow> fast_validate_len s n = n"
    by (simp add: g_utf8_validate_def Let_def)
  moreover have "fast_validate_len s n = n \<longleftrightarrow> utf8_text (take n s)"
    using fast_validate_len_text[OF assms(2)] fast_validate_len_complete[of "take n s" "drop n s"] assms(2) by auto
  ultimately show ?thesis by blast
qed

theorem utf8_validate_iff_witness:
  "(fst (g_utf8_validate [0x41, 0xC3, 0xA9] (-1)) \<longleftrightarrow> utf8_text [0x41, 0xC3, 0xA9]) \<and>
   (fst (g_utf8_validate [0x41, 0xC3, 0xA9] (int 2)) \<longleftrightarrow> utf8_text (take 2 [0x41, 0xC3, 0xA9]))"
  by (rule utf8_validate_iff) simp_all

text \<open>
  C15: \<open>_g_utf8_make_valid\<close> repairs every string shorter than 2^31 bytes: it returns, its final
  assertion holds, and the result is the UTF-8 text in which every byte behind a longest valid prefix
  has become the replacement character; a string that already is UTF-8 comes back as it is. A string
  of 2^32 bytes, whose length is 0 as a \<open>gint\<close>, is returned unchecked.
\<close>
theorem utf8_make_valid_text:
  "(length s < 2147483648 \<longrightarrow>
      (\<exists>t. g_utf8_make_valid s = Some t \<and> utf8_text t \<and> repaired s t \<and> (utf8_text s \<longrightarrow> t = s))) \<and>
   (length s = 4294967296 \<longrightarrow> g_utf8_make_valid s = Some s)"
  using make_valid_repairs[of s] repaired_text repaired_valid gint_of_wraps[of 1]
  by (auto simp: g_utf8_make_valid_def make_valid_loop.simps)

theorem utf8_make_valid_text_witness:
  "(\<exists>t. g_utf8_make_valid [0x41, 0xFF] = Some t \<and> utf8_text t \<and> repaired [0x41, 0xFF] t) \<and>
    g_utf8_make_valid [0xEF, 0xBF, 0xBD] = Some [0xEF, 0xBF, 0xBD]"
  using utf8_make_valid_text[of "[0x41, 0xFF]"] utf8_make_valid_text[of "[0xEF, 0xBF, 0xBD]"] replacement_text[OF utf8_text_Nil]
  by auto

text \<open>
  UCS-4 text survives the way through UTF-8: characters from 1 to 0x7FFFFFFF, converted by
  \<open>g_ucs4_to_utf8\<close> and back by \<open>g_utf8_to_ucs4\<close>, come out the same, with every byte read.
\<close>
theorem ucs4_utf8_roundtrip:
  assumes "list_all (\<lambda>c. c \<noteq> 0 \<and> c < 0x80000000) cs" and "conv_result (g_ucs4_to_utf8 True cs (-1)) = Some s"
  shows "g_utf8_to_ucs4 True s (-1) want_read =
    \<lparr>conv_result = Some cs, conv_read = length s, conv_written = Some (length cs), conv_err = None\<rparr>"
proof -
  have ok: "ucs4_ok cs" using assms(1) by (simp add: ucs4_ok_def)
  then have inp: "ucs4_input cs (-1) = cs" and good: "takeWhile (\<lambda>c. c < 0x80000000) cs = cs"
    by (auto simp: ucs4_ok_def list_all_iff intro!: ucs4_input_all takeWhile_id)
  have s: "s = concat (map g_unichar_to_utf8 cs)"
    using assms(2) unfolding g_ucs4_to_utf8_def inp Let_def good by simp
  show ?thesis unfolding s g_utf8_to_ucs4_def using scan_text[OF ok, of want_read 0 0] get_chars_text[OF ok] by simp
qed

theorem ucs4_utf8_roundtrip_witness:
  "\<exists>s. conv_result (g_ucs4_to_utf8 True [0x41, 0x20AC] (-1)) = Some s \<and>
     conv_result (g_utf8_to_ucs4 True s (-1) False) = Some [0x41, 0x20AC]"
proof -
  obtain s where s: "conv_result (g_ucs4_to_utf8 True [0x41, 0x20AC] (-1)) = Some s"
    by (simp add: g_ucs4_to_utf8_def ucs4_input_def Let_def)
  with ucs4_utf8_roundtrip[OF _ s, of False] show ?thesis by simp
qed

text \<open>
  Unicode text survives the way through UTF-16: valid characters, converted by
  \<open>g_ucs4_to_utf16\<close> and back by \<open>g_utf16_to_ucs4\<close>, come out the same, surrogate pairs included.
\<close>
theorem ucs4_utf16_roundtrip:
  assumes "list_all (\<lambda>c. c \<noteq> 0 \<and> UNICODE_VALID c) cs" and "conv_result (g_ucs4_to_utf16 True cs (-1)) = Some us"
  shows "g_utf16_to_ucs4 True us (-1) want_read =
    \<lparr>conv_result = Some cs, conv_read = length us, conv_written = Some (length cs), conv_err = None\<rparr>"
proof -
  have v: "list_all UNICODE_VALID cs" using assms(1) by (auto simp: list_all_iff)
  have "ucs4_input cs (-1) = cs" by (rule ucs4_input_all) (use assms(1) in \<open>auto simp: list_all_iff\<close>)
  then have us: "us = concat (map utf16_of cs)"
    using assms(2) ucs4_scan16_text[OF v, of 0] by (simp add: g_ucs4_to_utf16_def Let_def)
  have "ucs4_input us (-1) = us"
    unfolding us by (rule ucs4_input_all) (use assms(1) utf16_nonzero in \<open>auto simp: list_all_iff\<close>)
  then show ?thesis
    using utf16_scan_text[OF v, of 0 0] utf16_chars_text[OF v] by (simp add: g_utf16_to_ucs4_def us)
qed

theorem ucs4_utf16_roundtrip_witness:
  "\<exists>us. conv_result (g_ucs4_to_utf16 True [0x41, 0x1F600] (-1)) = Some us \<and>
     conv_result (g_utf16_to_ucs4 True us (-1) False) = Some [0x41, 0x1F600]"
proof -
  obtain us where us: "conv_result (g_ucs4_to_utf16 True [0x41, 0x1F600] (-1)) = Some us"
    by (simp add: g_ucs4_to_utf16_def ucs4_input_def utf16_units_def Let_def)
  with ucs4_utf16_roundtrip[OF _ us, of False] show ?thesis by (simp add: UNICODE_VALID_def)
qed

text \<open>
  \<open>g_utf8_to_ucs4_fast\<close> mistakes the length of five-byte sequences, which its comment means to
  allow: the bytes of 0x200000 are one character for \<open>g_utf8_strlen\<close> and \<open>g_utf8_get_char\<close>, but
  the fast conversion stops after four bytes and yields 0x8000.
\<close>
theorem utf8_fast_five_bytes:
  "g_utf8_get_char (g_unichar_to_utf8 0x200000) = 0x200000 \<and>
   g_utf8_to_ucs4_fast (g_unichar_to_utf8 0x200000) (-1) = [0x8000]"
proof -
  have e: "g_unichar_to_utf8 0x200000 = [0xF8, 0x88, 0x80, 0x80, 0x80]"
    using conts.simps(2)[of 3 "0x200000"] by (simp add: g_unichar_to_utf8_def utf8_first_def fill_conts conts_eval)
  have k: "g_utf8_skip 0xF8 = 5" by (simp add: g_utf8_skip_def utf8_skip_data_def)
  have n: "strlen_nul [] = 0" by (subst strlen_nul.simps) simp
  have "strlen_nul [0xF8, 0x88, 0x80, 0x80, 0x80] = 1"
    by (subst strlen_nul.simps) (simp add: g_utf8_next_char_def k n)
  moreover have "fast_long 3 0x100000 0x8000 p = (0x8000, p)" for p
    using fast_long.simps(2)[of 2 "0x100000" "0x8000" p] by simp
  then have "fast_char [0xF8, 0x88, 0x80, 0x80, 0x80] = (0x8000, [0x80])"
    by (simp add: fast_char_def byte_at_def Let_def)
  ultimately have "g_utf8_to_ucs4_fast (g_unichar_to_utf8 0x200000) (-1) = [0x8000]"
    by (simp add: g_utf8_to_ucs4_fast_def e)
  then show ?thesis using get_char_encode[of "0x200000" "[]"] by simp
qed

end
