(* ===== verification/Glib_Hash.thy ===== *)
theory Glib_Hash
  imports OSC_Prelude
begin

text \<open>
  The compression functions of \<open>gchecksum.c\<close> (MD5, SHA-1, SHA-256, SHA-512) on words of the
  widths of the code, and the byte-order helpers they use. The machine is little-endian, so that
  \<open>md5_byte_reverse\<close> is empty and \<open>sha_byte_reverse\<close> swaps. The macro calls that rename the working
  variables from step to step are a fixed step followed by a rotation of the tuple of variables.
\<close>

unbundle bit_operations_syntax

section \<open>Words in memory\<close>

definition le32 :: "u8 \<Rightarrow> u8 \<Rightarrow> u8 \<Rightarrow> u8 \<Rightarrow> u32" where
  "le32 a b c d = ucast a OR push_bit 8 (ucast b) OR push_bit 16 (ucast c) OR push_bit 24 (ucast d)"

definition le_bytes :: "u32 \<Rightarrow> u8 list" where
  "le_bytes w = [ucast w, ucast (drop_bit 8 w), ucast (drop_bit 16 w), ucast (drop_bit 24 w)]"

fun le_words :: "u8 list \<Rightarrow> u32 list" where
  "le_words (a # b # c # d # bs) = le32 a b c d # le_words bs"
| "le_words bs = []"

definition swap32 :: "u32 \<Rightarrow> u32" where
  "swap32 w = push_bit 24 (w AND 0xFF) OR push_bit 8 (w AND 0xFF00) OR
              drop_bit 8 (w AND 0xFF0000) OR drop_bit 24 (w AND 0xFF000000)"

definition GET_UINT32 :: "u8 list \<Rightarrow> nat \<Rightarrow> u32" where
  "GET_UINT32 b i = push_bit 24 (ucast (b ! i)) OR push_bit 16 (ucast (b ! (i + 1))) OR
                    push_bit 8 (ucast (b ! (i + 2))) OR ucast (b ! (i + 3))"

definition PUT_UINT32 :: "u32 \<Rightarrow> u8 list" where
  "PUT_UINT32 n = [ucast (drop_bit 24 n), ucast (drop_bit 16 n), ucast (drop_bit 8 n), ucast n]"

definition GET_UINT64 :: "u8 list \<Rightarrow> nat \<Rightarrow> u64" where
  "GET_UINT64 b p =
     push_bit 56 (ucast (b ! p)) OR push_bit 48 (ucast (b ! (p + 1))) OR
     push_bit 40 (ucast (b ! (p + 2))) OR push_bit 32 (ucast (b ! (p + 3))) OR
     push_bit 24 (ucast (b ! (p + 4))) OR push_bit 16 (ucast (b ! (p + 5))) OR
     push_bit 8 (ucast (b ! (p + 6))) OR ucast (b ! (p + 7))"

definition PUT_UINT64 :: "u64 \<Rightarrow> u8 list" where
  "PUT_UINT64 n =
     [ucast (drop_bit 56 n), ucast (drop_bit 48 n), ucast (drop_bit 40 n), ucast (drop_bit 32 n),
      ucast (drop_bit 24 n), ucast (drop_bit 16 n), ucast (drop_bit 8 n), ucast n]"

section \<open>MD5\<close>

definition md5_F1 :: "u32 \<Rightarrow> u32 \<Rightarrow> u32 \<Rightarrow> u32" where
  "md5_F1 x y z = z XOR (x AND (y XOR z))"

definition md5_F2 :: "u32 \<Rightarrow> u32 \<Rightarrow> u32 \<Rightarrow> u32" where
  "md5_F2 x y z = md5_F1 z x y"

definition md5_F3 :: "u32 \<Rightarrow> u32 \<Rightarrow> u32 \<Rightarrow> u32" where
  "md5_F3 x y z = x XOR y XOR z"

definition md5_F4 :: "u32 \<Rightarrow> u32 \<Rightarrow> u32 \<Rightarrow> u32" where
  "md5_F4 x y z = y XOR (x OR NOT z)"

definition md5_step :: "(u32 \<Rightarrow> u32 \<Rightarrow> u32 \<Rightarrow> u32) \<Rightarrow> u32 \<Rightarrow> u32 \<Rightarrow> u32 \<Rightarrow> u32 \<Rightarrow> u32 \<Rightarrow> nat \<Rightarrow> u32" where
  "md5_step f w x y z dat s =
     (let w1 = w + (f x y z + dat); w2 = push_bit s w1 OR drop_bit (32 - s) w1 in w2 + x)"

type_synonym md5_vars = "u32 \<times> u32 \<times> u32 \<times> u32"

text \<open>The sixteen steps of a round: index into the block, constant, rotation.\<close>

fun md5_round :: "(u32 \<Rightarrow> u32 \<Rightarrow> u32 \<Rightarrow> u32) \<Rightarrow> u32 list \<Rightarrow> (nat \<times> u32 \<times> nat) list \<Rightarrow> md5_vars \<Rightarrow> md5_vars" where
  "md5_round f inw [] v = v"
| "md5_round f inw ((i, k, s) # steps) (w, x, y, z) =
     md5_round f inw steps (z, md5_step f w x y z (inw ! i + k) s, x, y)"

definition md5_round1 :: "(nat \<times> u32 \<times> nat) list" where
  "md5_round1 = [
   (0, 0xd76aa478, 7), (1, 0xe8c7b756, 12), (2, 0x242070db, 17), (3, 0xc1bdceee, 22),
   (4, 0xf57c0faf, 7), (5, 0x4787c62a, 12), (6, 0xa8304613, 17), (7, 0xfd469501, 22),
   (8, 0x698098d8, 7), (9, 0x8b44f7af, 12), (10, 0xffff5bb1, 17), (11, 0x895cd7be, 22),
   (12, 0x6b901122, 7), (13, 0xfd987193, 12), (14, 0xa679438e, 17), (15, 0x49b40821, 22)]"

definition md5_round2 :: "(nat \<times> u32 \<times> nat) list" where
  "md5_round2 = [
   (1, 0xf61e2562, 5), (6, 0xc040b340, 9), (11, 0x265e5a51, 14), (0, 0xe9b6c7aa, 20),
   (5, 0xd62f105d, 5), (10, 0x02441453, 9), (15, 0xd8a1e681, 14), (4, 0xe7d3fbc8, 20),
   (9, 0x21e1cde6, 5), (14, 0xc33707d6, 9), (3, 0xf4d50d87, 14), (8, 0x455a14ed, 20),
   (13, 0xa9e3e905, 5), (2, 0xfcefa3f8, 9), (7, 0x676f02d9, 14), (12, 0x8d2a4c8a, 20)]"

definition md5_round3 :: "(nat \<times> u32 \<times> nat) list" where
  "md5_round3 = [
   (5, 0xfffa3942, 4), (8, 0x8771f681, 11), (11, 0x6d9d6122, 16), (14, 0xfde5380c, 23),
   (1, 0xa4beea44, 4), (4, 0x4bdecfa9, 11), (7, 0xf6bb4b60, 16), (10, 0xbebfbc70, 23),
   (13, 0x289b7ec6, 4), (0, 0xeaa127fa, 11), (3, 0xd4ef3085, 16), (6, 0x04881d05, 23),
   (9, 0xd9d4d039, 4), (12, 0xe6db99e5, 11), (15, 0x1fa27cf8, 16), (2, 0xc4ac5665, 23)]"

definition md5_round4 :: "(nat \<times> u32 \<times> nat) list" where
  "md5_round4 = [
   (0, 0xf4292244, 6), (7, 0x432aff97, 10), (14, 0xab9423a7, 15), (5, 0xfc93a039, 21),
   (12, 0x655b59c3, 6), (3, 0x8f0ccc92, 10), (10, 0xffeff47d, 15), (1, 0x85845dd1, 21),
   (8, 0x6fa87e4f, 6), (15, 0xfe2ce6e0, 10), (6, 0xa3014314, 15), (13, 0x4e0811a1, 21),
   (4, 0xf7537e82, 6), (11, 0xbd3af235, 10), (2, 0x2ad7d2bb, 15), (9, 0xeb86d391, 21)]"

definition md5_transform :: "u32 list \<Rightarrow> u32 list \<Rightarrow> u32 list" where
  "md5_transform buf inw =
     (let v1 = md5_round md5_F1 inw md5_round1 (buf ! 0, buf ! 1, buf ! 2, buf ! 3);
          v2 = md5_round md5_F2 inw md5_round2 v1;
          v3 = md5_round md5_F3 inw md5_round3 v2;
          (a, b, c, d) = md5_round md5_F4 inw md5_round4 v3
      in [buf ! 0 + a, buf ! 1 + b, buf ! 2 + c, buf ! 3 + d])"

section \<open>SHA-1\<close>

definition sha1_f1 :: "u32 \<Rightarrow> u32 \<Rightarrow> u32 \<Rightarrow> u32" where
  "sha1_f1 x y z = z XOR (x AND (y XOR z))"

definition sha1_f2 :: "u32 \<Rightarrow> u32 \<Rightarrow> u32 \<Rightarrow> u32" where
  "sha1_f2 x y z = x XOR y XOR z"

definition sha1_f3 :: "u32 \<Rightarrow> u32 \<Rightarrow> u32 \<Rightarrow> u32" where
  "sha1_f3 x y z = (x AND y) OR (z AND (x OR y))"

definition sha1_f4 :: "u32 \<Rightarrow> u32 \<Rightarrow> u32 \<Rightarrow> u32" where
  "sha1_f4 x y z = x XOR y XOR z"

definition ROTL :: "nat \<Rightarrow> u32 \<Rightarrow> u32" where
  "ROTL n x = push_bit n x OR drop_bit (32 - n) x"

text \<open>The message schedule in a circular buffer of sixteen words, which overwrites the input.\<close>

definition expand :: "u32 list \<Rightarrow> nat \<Rightarrow> u32" where
  "expand W i = ROTL 1 (W ! (i mod 16) XOR W ! ((i - 14) mod 16) XOR
                        W ! ((i - 8) mod 16) XOR W ! ((i - 3) mod 16))"

type_synonym sha1_vars = "u32 \<times> u32 \<times> u32 \<times> u32 \<times> u32"

fun subRound :: "(u32 \<Rightarrow> u32 \<Rightarrow> u32 \<Rightarrow> u32) \<Rightarrow> u32 \<Rightarrow> u32 \<Rightarrow> sha1_vars \<Rightarrow> sha1_vars" where
  "subRound f k dat (a, b, c, d, e) =
     (e + (ROTL 5 a + f b c d + k + dat), a, ROTL 30 b, c, d)"

definition sha1_fk :: "nat \<Rightarrow> (u32 \<Rightarrow> u32 \<Rightarrow> u32 \<Rightarrow> u32) \<times> u32" where
  "sha1_fk i = (if i < 20 then (sha1_f1, 0x5A827999) else if i < 40 then (sha1_f2, 0x6ED9EBA1)
                else if i < 60 then (sha1_f3, 0x8F1BBCDC) else (sha1_f4, 0xCA62C1D6))"

fun sha1_steps :: "nat \<Rightarrow> nat \<Rightarrow> u32 list \<Rightarrow> sha1_vars \<Rightarrow> u32 list \<times> sha1_vars" where
  "sha1_steps i 0 W v = (W, v)"
| "sha1_steps i (Suc n) W v =
     (let (f, k) = sha1_fk i
      in if i < 16 then sha1_steps (i + 1) n W (subRound f k (W ! i) v)
         else let x = expand W i in sha1_steps (i + 1) n (W[i mod 16 := x]) (subRound f k x v))"

definition sha1_transform :: "u32 list \<Rightarrow> u32 list \<Rightarrow> u32 list \<times> u32 list" where
  "sha1_transform buf inw =
     (let (W, A, B, C, D, E) = sha1_steps 0 80 inw (buf ! 0, buf ! 1, buf ! 2, buf ! 3, buf ! 4)
      in ([buf ! 0 + A, buf ! 1 + B, buf ! 2 + C, buf ! 3 + D, buf ! 4 + E], W))"

section \<open>SHA-256\<close>

definition SHR32 :: "u32 \<Rightarrow> nat \<Rightarrow> u32" where
  "SHR32 x n = drop_bit n (x AND 0xFFFFFFFF)"

definition ROTR32 :: "u32 \<Rightarrow> nat \<Rightarrow> u32" where
  "ROTR32 x n = SHR32 x n OR push_bit (32 - n) x"

definition S0 :: "u32 \<Rightarrow> u32" where
  "S0 x = ROTR32 x 7 XOR ROTR32 x 18 XOR SHR32 x 3"

definition S1 :: "u32 \<Rightarrow> u32" where
  "S1 x = ROTR32 x 17 XOR ROTR32 x 19 XOR SHR32 x 10"

definition S2 :: "u32 \<Rightarrow> u32" where
  "S2 x = ROTR32 x 2 XOR ROTR32 x 13 XOR ROTR32 x 22"

definition S3 :: "u32 \<Rightarrow> u32" where
  "S3 x = ROTR32 x 6 XOR ROTR32 x 11 XOR ROTR32 x 25"

definition sha256_F0 :: "u32 \<Rightarrow> u32 \<Rightarrow> u32 \<Rightarrow> u32" where
  "sha256_F0 x y z = (x AND y) OR (z AND (x OR y))"

definition sha256_F1 :: "u32 \<Rightarrow> u32 \<Rightarrow> u32 \<Rightarrow> u32" where
  "sha256_F1 x y z = z XOR (x AND (y XOR z))"

definition sha256_R :: "u32 list \<Rightarrow> nat \<Rightarrow> u32" where
  "sha256_R W t = S1 (W ! (t - 2)) + W ! (t - 7) + S0 (W ! (t - 15)) + W ! (t - 16)"

type_synonym 'w sha2_vars = "'w \<times> 'w \<times> 'w \<times> 'w \<times> 'w \<times> 'w \<times> 'w \<times> 'w"

fun sha256_P :: "u32 \<Rightarrow> u32 \<Rightarrow> u32 sha2_vars \<Rightarrow> u32 sha2_vars" where
  "sha256_P x K (a, b, c, d, e, f, g, h) =
     (let temp1 = h + S3 e + sha256_F1 e f g + K + x;
          temp2 = S2 a + sha256_F0 a b c
      in (temp1 + temp2, a, b, c, d + temp1, e, f, g))"

definition sha256_K :: "u32 list" where
  "sha256_K = [
   0x428A2F98, 0x71374491, 0xB5C0FBCF, 0xE9B5DBA5, 0x3956C25B, 0x59F111F1, 0x923F82A4, 0xAB1C5ED5,
   0xD807AA98, 0x12835B01, 0x243185BE, 0x550C7DC3, 0x72BE5D74, 0x80DEB1FE, 0x9BDC06A7, 0xC19BF174,
   0xE49B69C1, 0xEFBE4786, 0x0FC19DC6, 0x240CA1CC, 0x2DE92C6F, 0x4A7484AA, 0x5CB0A9DC, 0x76F988DA,
   0x983E5152, 0xA831C66D, 0xB00327C8, 0xBF597FC7, 0xC6E00BF3, 0xD5A79147, 0x06CA6351, 0x14292967,
   0x27B70A85, 0x2E1B2138, 0x4D2C6DFC, 0x53380D13, 0x650A7354, 0x766A0ABB, 0x81C2C92E, 0x92722C85,
   0xA2BFE8A1, 0xA81A664B, 0xC24B8B70, 0xC76C51A3, 0xD192E819, 0xD6990624, 0xF40E3585, 0x106AA070,
   0x19A4C116, 0x1E376C08, 0x2748774C, 0x34B0BCB5, 0x391C0CB3, 0x4ED8AA4A, 0x5B9CCA4F, 0x682E6FF3,
   0x748F82EE, 0x78A5636F, 0x84C87814, 0x8CC70208, 0x90BEFFFA, 0xA4506CEB, 0xBEF9A3F7, 0xC67178F2]"

text \<open>The steps with their constants; \<open>W\<close> holds the words of the schedule set so far.\<close>

fun sha256_steps :: "u32 list \<Rightarrow> nat \<Rightarrow> u32 list \<Rightarrow> u32 sha2_vars \<Rightarrow> u32 sha2_vars" where
  "sha256_steps [] t W v = v"
| "sha256_steps (K # Ks) t W v =
     (if t < 16 then sha256_steps Ks (t + 1) W (sha256_P (W ! t) K v)
      else let x = sha256_R W t in sha256_steps Ks (t + 1) (W @ [x]) (sha256_P x K v))"

definition sha256_transform :: "u32 list \<Rightarrow> u8 list \<Rightarrow> u32 list" where
  "sha256_transform buf dat =
     (let W = map (\<lambda>i. GET_UINT32 dat (4 * i)) [0..<16];
          (A, B, C, D, E, F, G, H) =
            sha256_steps sha256_K 0 W
              (buf ! 0, buf ! 1, buf ! 2, buf ! 3, buf ! 4, buf ! 5, buf ! 6, buf ! 7)
      in [buf ! 0 + A, buf ! 1 + B, buf ! 2 + C, buf ! 3 + D,
          buf ! 4 + E, buf ! 5 + F, buf ! 6 + G, buf ! 7 + H])"

section \<open>SHA-512\<close>

definition Ch :: "u64 \<Rightarrow> u64 \<Rightarrow> u64 \<Rightarrow> u64" where
  "Ch x y z = (x AND y) XOR (NOT x AND z)"

definition Maj :: "u64 \<Rightarrow> u64 \<Rightarrow> u64 \<Rightarrow> u64" where
  "Maj x y z = (x AND y) XOR (x AND z) XOR (y AND z)"

definition ROTR64 :: "nat \<Rightarrow> u64 \<Rightarrow> u64" where
  "ROTR64 n x = drop_bit n x OR push_bit (64 - n) x"

definition SIGMA0 :: "u64 \<Rightarrow> u64" where
  "SIGMA0 x = ROTR64 28 x XOR ROTR64 34 x XOR ROTR64 39 x"

definition SIGMA1 :: "u64 \<Rightarrow> u64" where
  "SIGMA1 x = ROTR64 14 x XOR ROTR64 18 x XOR ROTR64 41 x"

definition sigma0 :: "u64 \<Rightarrow> u64" where
  "sigma0 x = ROTR64 1 x XOR ROTR64 8 x XOR drop_bit 7 x"

definition sigma1 :: "u64 \<Rightarrow> u64" where
  "sigma1 x = ROTR64 19 x XOR ROTR64 61 x XOR drop_bit 6 x"

text \<open>The table in rows of two.\<close>

definition SHA512_K :: "u64 list" where
  "SHA512_K = concat (map (\<lambda>(k, k'). [k, k']) [
   (0x428a2f98d728ae22, 0x7137449123ef65cd), (0xb5c0fbcfec4d3b2f, 0xe9b5dba58189dbbc),
   (0x3956c25bf348b538, 0x59f111f1b605d019), (0x923f82a4af194f9b, 0xab1c5ed5da6d8118),
   (0xd807aa98a3030242, 0x12835b0145706fbe), (0x243185be4ee4b28c, 0x550c7dc3d5ffb4e2),
   (0x72be5d74f27b896f, 0x80deb1fe3b1696b1), (0x9bdc06a725c71235, 0xc19bf174cf692694),
   (0xe49b69c19ef14ad2, 0xefbe4786384f25e3), (0x0fc19dc68b8cd5b5, 0x240ca1cc77ac9c65),
   (0x2de92c6f592b0275, 0x4a7484aa6ea6e483), (0x5cb0a9dcbd41fbd4, 0x76f988da831153b5),
   (0x983e5152ee66dfab, 0xa831c66d2db43210), (0xb00327c898fb213f, 0xbf597fc7beef0ee4),
   (0xc6e00bf33da88fc2, 0xd5a79147930aa725), (0x06ca6351e003826f, 0x142929670a0e6e70),
   (0x27b70a8546d22ffc, 0x2e1b21385c26c926), (0x4d2c6dfc5ac42aed, 0x53380d139d95b3df),
   (0x650a73548baf63de, 0x766a0abb3c77b2a8), (0x81c2c92e47edaee6, 0x92722c851482353b),
   (0xa2bfe8a14cf10364, 0xa81a664bbc423001), (0xc24b8b70d0f89791, 0xc76c51a30654be30),
   (0xd192e819d6ef5218, 0xd69906245565a910), (0xf40e35855771202a, 0x106aa07032bbd1b8),
   (0x19a4c116b8d2d0c8, 0x1e376c085141ab53), (0x2748774cdf8eeb99, 0x34b0bcb5e19b48a8),
   (0x391c0cb3c5c95a63, 0x4ed8aa4ae3418acb), (0x5b9cca4f7763e373, 0x682e6ff3d6b2b8a3),
   (0x748f82ee5defb2fc, 0x78a5636f43172f60), (0x84c87814a1f0ab72, 0x8cc702081a6439ec),
   (0x90befffa23631e28, 0xa4506cebde82bde9), (0xbef9a3f7b2c67915, 0xc67178f2e372532b),
   (0xca273eceea26619c, 0xd186b8c721c0c207), (0xeada7dd6cde0eb1e, 0xf57d4f7fee6ed178),
   (0x06f067aa72176fba, 0x0a637dc5a2c898a6), (0x113f9804bef90dae, 0x1b710b35131c471b),
   (0x28db77f523047d84, 0x32caab7b40c72493), (0x3c9ebe0a15c9bebc, 0x431d67c49c100d4c),
   (0x4cc5d4becb3e42b6, 0x597f299cfc657e2a), (0x5fcb6fab3ad6faec, 0x6c44198c4a475817)])"

fun sha512_schedule :: "nat \<Rightarrow> u64 list \<Rightarrow> u64 list" where
  "sha512_schedule 0 W = W"
| "sha512_schedule (Suc n) W =
     (let t = length W
      in sha512_schedule n (W @ [sigma1 (W ! (t - 2)) + W ! (t - 7) + sigma0 (W ! (t - 15)) + W ! (t - 16)]))"

fun sha512_step :: "u64 \<times> u64 \<Rightarrow> u64 sha2_vars \<Rightarrow> u64 sha2_vars" where
  "sha512_step (K, w) (a, b, c, d, e, f, g, h) =
     (let T1 = h + SIGMA1 e + Ch e f g + K + w; T2 = SIGMA0 a + Maj a b c
      in (T1 + T2, a, b, c, d + T1, e, f, g))"

definition sha512_transform :: "u64 list \<Rightarrow> u8 list \<Rightarrow> u64 list" where
  "sha512_transform H dat =
     (let W = sha512_schedule 64 (map (\<lambda>i. GET_UINT64 dat (i * 8)) [0..<16]);
          (a, b, c, d, e, f, g, h) =
            fold sha512_step (zip SHA512_K W) (H ! 0, H ! 1, H ! 2, H ! 3, H ! 4, H ! 5, H ! 6, H ! 7)
      in [H ! 0 + a, H ! 1 + b, H ! 2 + c, H ! 3 + d, H ! 4 + e, H ! 5 + f, H ! 6 + g, H ! 7 + h])"

end
