(* ===== verification/Glib_Checksum.thy ===== *)
theory Glib_Checksum
  imports Glib_Hash
begin

text \<open>
  The checksum states and operations of \<open>gchecksum.c\<close>: for each of MD5, SHA-1, SHA-256 and SHA-512
  its structure with the bit or byte counters at their widths and the partial block, the operations
  \<open>init\<close>, \<open>update\<close>, \<open>close\<close>, and the public \<open>GChecksum\<close> functions over them. A block buffer is a list
  of bytes; \<open>memcpy\<close> and \<open>memset\<close> overwrite it at an offset and leave the rest as it was.
\<close>

unbundle bit_operations_syntax

definition overwrite :: "'a list \<Rightarrow> nat \<Rightarrow> 'a list \<Rightarrow> 'a list" where
  "overwrite buf off src = take off buf @ src @ drop (off + length src) buf"

definition hex_digits :: string where
  "hex_digits = ''0123456789abcdef''"

fun digest_to_string :: "u8 list \<Rightarrow> string" where
  "digest_to_string [] = []"
| "digest_to_string (b # bs) =
     hex_digits ! unat (drop_bit 4 b) # hex_digits ! unat (b AND 0xF) # digest_to_string bs"

section \<open>MD5\<close>

record md5sum =
  md5_buf :: "u32 list"
  md5_bits0 :: u32
  md5_bits1 :: u32
  md5_data :: "u8 list"
  md5_digest :: "u8 list"

definition md5_sum_init :: "md5sum \<Rightarrow> md5sum" where
  "md5_sum_init s = s\<lparr>md5_buf := [0x67452301, 0xefcdab89, 0x98badcfe, 0x10325476],
                      md5_bits0 := 0, md5_bits1 := 0\<rparr>"

definition md5_block :: "md5sum \<Rightarrow> md5sum" where
  "md5_block s = s\<lparr>md5_buf := md5_transform (md5_buf s) (le_words (md5_data s))\<rparr>"

function md5_chunks :: "u8 list \<Rightarrow> md5sum \<Rightarrow> md5sum" where
  "md5_chunks dat s =
     (if 64 \<le> length dat
      then md5_chunks (drop 64 dat) (md5_block (s\<lparr>md5_data := overwrite (md5_data s) 0 (take 64 dat)\<rparr>))
      else s\<lparr>md5_data := overwrite (md5_data s) 0 dat\<rparr>)"
  by auto
termination by (relation "measure (length \<circ> fst)") auto

definition count_bits :: "nat \<Rightarrow> u32 \<Rightarrow> u32 \<Rightarrow> u32 \<times> u32" where
  "count_bits len bits0 bits1 =
     (let low = bits0 + push_bit 3 (of_nat len);
          high = (if low < bits0 then bits1 + 1 else bits1)
      in (low, high + of_nat (len div 2 ^ 29)))"

definition md5_sum_update :: "md5sum \<Rightarrow> u8 list \<Rightarrow> md5sum" where
  "md5_sum_update s0 dat =
     (let (low, high) = count_bits (length dat) (md5_bits0 s0) (md5_bits1 s0);
          s = s0\<lparr>md5_bits0 := low, md5_bits1 := high\<rparr>;
          off = unat (drop_bit 3 (md5_bits0 s0) AND 0x3F);
          room = 64 - off
      in if off \<noteq> 0
         then if length dat < room then s\<lparr>md5_data := overwrite (md5_data s) off dat\<rparr>
              else md5_chunks (drop room dat)
                     (md5_block (s\<lparr>md5_data := overwrite (md5_data s) off (take room dat)\<rparr>))
         else md5_chunks dat s)"

definition md5_sum_close :: "md5sum \<Rightarrow> md5sum" where
  "md5_sum_close s0 =
     (let used = unat (drop_bit 3 (md5_bits0 s0) AND 0x3F);
          s1 = s0\<lparr>md5_data := overwrite (md5_data s0) used [0x80]\<rparr>;
          count = 64 - 1 - used;
          s2 = (if count < 8
                then let t = md5_block (s1\<lparr>md5_data := overwrite (md5_data s1) (used + 1) (replicate count 0)\<rparr>)
                     in t\<lparr>md5_data := overwrite (md5_data t) 0 (replicate 56 0)\<rparr>
                else s1\<lparr>md5_data := overwrite (md5_data s1) (used + 1) (replicate (count - 8) 0)\<rparr>);
          s3 = md5_block (s2\<lparr>md5_data := overwrite (md5_data s2) 56
                              (le_bytes (md5_bits0 s2) @ le_bytes (md5_bits1 s2))\<rparr>)
      in s3\<lparr>md5_digest := concat (map le_bytes (md5_buf s3)),
            md5_buf := replicate 4 0, md5_data := replicate 64 0\<rparr>)"

definition md5_sum_to_string :: "md5sum \<Rightarrow> string" where
  "md5_sum_to_string s = digest_to_string (md5_digest s)"

section \<open>SHA-1\<close>

record sha1sum =
  sha1_buf :: "u32 list"
  sha1_bits0 :: u32
  sha1_bits1 :: u32
  sha1_data :: "u8 list"
  sha1_digest :: "u8 list"

definition sha1_sum_init :: "sha1sum \<Rightarrow> sha1sum" where
  "sha1_sum_init s = s\<lparr>sha1_buf := [0x67452301, 0xEFCDAB89, 0x98BADCFE, 0x10325476, 0xC3D2E1F0],
                       sha1_bits0 := 0, sha1_bits1 := 0\<rparr>"

text \<open>The words of the data array, its bytes in memory, and the swap of the first \<open>n\<close> words.\<close>

definition sha_byte_reverse :: "nat \<Rightarrow> u32 list \<Rightarrow> u32 list" where
  "sha_byte_reverse len ws = map swap32 (take (len div 4) ws) @ drop (len div 4) ws"

definition sha1_block :: "nat \<Rightarrow> sha1sum \<Rightarrow> sha1sum" where
  "sha1_block len s =
     (let (buf, W) = sha1_transform (sha1_buf s) (sha_byte_reverse len (le_words (sha1_data s)))
      in s\<lparr>sha1_buf := buf, sha1_data := concat (map le_bytes W)\<rparr>)"

function sha1_chunks :: "u8 list \<Rightarrow> sha1sum \<Rightarrow> sha1sum" where
  "sha1_chunks dat s =
     (if 64 \<le> length dat
      then sha1_chunks (drop 64 dat) (sha1_block 64 (s\<lparr>sha1_data := overwrite (sha1_data s) 0 (take 64 dat)\<rparr>))
      else s\<lparr>sha1_data := overwrite (sha1_data s) 0 dat\<rparr>)"
  by auto
termination by (relation "measure (length \<circ> fst)") auto

definition sha1_sum_update :: "sha1sum \<Rightarrow> u8 list \<Rightarrow> sha1sum" where
  "sha1_sum_update s0 dat =
     (let (low, high) = count_bits (length dat) (sha1_bits0 s0) (sha1_bits1 s0);
          s = s0\<lparr>sha1_bits0 := low, sha1_bits1 := high\<rparr>;
          off = unat (drop_bit 3 (sha1_bits0 s0) AND 0x3F);
          room = 64 - off
      in if off \<noteq> 0
         then if length dat < room then s\<lparr>sha1_data := overwrite (sha1_data s) off dat\<rparr>
              else sha1_chunks (drop room dat)
                     (sha1_block 64 (s\<lparr>sha1_data := overwrite (sha1_data s) off (take room dat)\<rparr>))
         else sha1_chunks dat s)"

definition sha1_sum_close :: "sha1sum \<Rightarrow> sha1sum" where
  "sha1_sum_close s0 =
     (let used = unat (drop_bit 3 (sha1_bits0 s0) AND 0x3F);
          s1 = s0\<lparr>sha1_data := overwrite (sha1_data s0) used [0x80]\<rparr>;
          count = 64 - 1 - used;
          s2 = (if count < 8
                then let t = sha1_block 64 (s1\<lparr>sha1_data := overwrite (sha1_data s1) (used + 1) (replicate count 0)\<rparr>)
                     in t\<lparr>sha1_data := overwrite (sha1_data t) 0 (replicate 56 0)\<rparr>
                else s1\<lparr>sha1_data := overwrite (sha1_data s1) (used + 1) (replicate (count - 8) 0)\<rparr>);
          s3 = sha1_block 56 (s2\<lparr>sha1_data := overwrite (sha1_data s2) 56
                                  (le_bytes (sha1_bits1 s2) @ le_bytes (sha1_bits0 s2))\<rparr>)
      in s3\<lparr>sha1_digest := concat (map le_bytes (sha_byte_reverse 20 (sha1_buf s3))),
            sha1_buf := replicate 5 0, sha1_data := replicate 64 0\<rparr>)"

definition sha1_sum_to_string :: "sha1sum \<Rightarrow> string" where
  "sha1_sum_to_string s = digest_to_string (sha1_digest s)"

section \<open>SHA-256\<close>

record sha256sum =
  sha256_buf :: "u32 list"
  sha256_bits0 :: u32
  sha256_bits1 :: u32
  sha256_data :: "u8 list"
  sha256_digest :: "u8 list"

definition sha256_sum_init :: "sha256sum \<Rightarrow> sha256sum" where
  "sha256_sum_init s = s\<lparr>sha256_buf := [0x6a09e667, 0xbb67ae85, 0x3c6ef372, 0xa54ff53a,
                                       0x510e527f, 0x9b05688c, 0x1f83d9ab, 0x5be0cd19],
                         sha256_bits0 := 0, sha256_bits1 := 0\<rparr>"

function sha256_chunks :: "nat \<Rightarrow> u8 list \<Rightarrow> sha256sum \<Rightarrow> sha256sum" where
  "sha256_chunks left inp s =
     (if 64 \<le> length inp
      then sha256_chunks left (drop 64 inp) (s\<lparr>sha256_buf := sha256_transform (sha256_buf s) (take 64 inp)\<rparr>)
      else if inp \<noteq> [] then s\<lparr>sha256_data := overwrite (sha256_data s) left inp\<rparr>
      else s)"
  by auto
termination by (relation "measure (length \<circ> fst \<circ> snd)") auto

text \<open>The counter counts bytes here; the comparison with the length is at 64 bits.\<close>

definition sha256_sum_update :: "sha256sum \<Rightarrow> u8 list \<Rightarrow> sha256sum" where
  "sha256_sum_update s0 inp =
     (if inp = [] then s0
      else let left = unat (sha256_bits0 s0 AND 0x3F);
               fill = 64 - left;
               low = (sha256_bits0 s0 + of_nat (length inp)) AND 0xFFFFFFFF;
               high = (if unat low < length inp then sha256_bits1 s0 + 1 else sha256_bits1 s0);
               s = s0\<lparr>sha256_bits0 := low, sha256_bits1 := high\<rparr>
           in if 0 < left \<and> fill \<le> length inp
              then let t = s\<lparr>sha256_data := overwrite (sha256_data s) left (take fill inp)\<rparr>
                   in sha256_chunks 0 (drop fill inp)
                        (t\<lparr>sha256_buf := sha256_transform (sha256_buf t) (sha256_data t)\<rparr>)
              else sha256_chunks left inp s)"

definition sha256_padding :: "u8 list" where
  "sha256_padding = 0x80 # replicate 63 0"

definition sha256_sum_close :: "sha256sum \<Rightarrow> sha256sum" where
  "sha256_sum_close s0 =
     (let high = drop_bit 29 (sha256_bits0 s0) OR push_bit 3 (sha256_bits1 s0);
          low = push_bit 3 (sha256_bits0 s0);
          msglen = PUT_UINT32 high @ PUT_UINT32 low;
          used = unat (sha256_bits0 s0 AND 0x3F);
          padn = (if used < 56 then 56 - used else 120 - used);
          s = sha256_sum_update (sha256_sum_update s0 (take padn sha256_padding)) msglen
      in s\<lparr>sha256_digest := concat (map PUT_UINT32 (sha256_buf s))\<rparr>)"

definition sha256_sum_to_string :: "sha256sum \<Rightarrow> string" where
  "sha256_sum_to_string s = digest_to_string (sha256_digest s)"

section \<open>SHA-512\<close>

record sha512sum =
  sha512_H :: "u64 list"
  sha512_blk :: "u8 list"
  sha512_block_len :: nat
  sha512_data_len0 :: u64
  sha512_data_len1 :: u64
  sha512_digest :: "u8 list"

definition sha512_sum_init :: "sha512sum \<Rightarrow> sha512sum" where
  "sha512_sum_init s =
     s\<lparr>sha512_H := [0x6a09e667f3bcc908, 0xbb67ae8584caa73b, 0x3c6ef372fe94f82b, 0xa54ff53a5f1d36f1,
                   0x510e527fade682d1, 0x9b05688c2b3e6c1f, 0x1f83d9abfb41bd6b, 0x5be0cd19137e2179],
       sha512_block_len := 0, sha512_data_len0 := 0, sha512_data_len1 := 0\<rparr>"

function sha512_chunks :: "u8 list \<Rightarrow> sha512sum \<Rightarrow> sha512sum" where
  "sha512_chunks dat s =
     (if 128 \<le> length dat
      then let t = s\<lparr>sha512_blk := overwrite (sha512_blk s) 0 (take 128 dat)\<rparr>
           in sha512_chunks (drop 128 dat) (t\<lparr>sha512_H := sha512_transform (sha512_H t) (sha512_blk t)\<rparr>)
      else if dat \<noteq> [] then s\<lparr>sha512_blk := overwrite (sha512_blk s) 0 dat, sha512_block_len := length dat\<rparr>
      else s)"
  by auto
termination by (relation "measure (length \<circ> fst)") (auto simp: Let_def)

definition sha512_sum_update :: "sha512sum \<Rightarrow> u8 list \<Rightarrow> sha512sum" where
  "sha512_sum_update s0 dat =
     (if dat = [] then s0
      else let low = sha512_data_len0 s0 + of_nat (length dat) * 8;
               high = (if low < of_nat (length dat) then sha512_data_len1 s0 + 1 else sha512_data_len1 s0);
               s = s0\<lparr>sha512_data_len0 := low, sha512_data_len1 := high\<rparr>;
               block_left = 128 - sha512_block_len s
           in if 0 < block_left
              then let fill_len = min block_left (length dat);
                       t = s\<lparr>sha512_blk := overwrite (sha512_blk s) (sha512_block_len s) (take fill_len dat),
                             sha512_block_len := sha512_block_len s + fill_len\<rparr>
                   in sha512_chunks (drop fill_len dat)
                        (if sha512_block_len t = 128
                         then t\<lparr>sha512_H := sha512_transform (sha512_H t) (sha512_blk t), sha512_block_len := 0\<rparr>
                         else t)
              else sha512_chunks dat s)"

text \<open>The bytes \<open>pad[0..pad_len)\<close>; \<open>zeros\<close> is signed, and its remainder is dropped.\<close>

definition sha512_sum_close :: "sha512sum \<Rightarrow> sha512sum" where
  "sha512_sum_close s0 =
     (let l = int (sha512_block_len s0) * 8;
          zeros = 896 - (l + 1);
          zeros' = (if zeros < 0 then zeros + 128 * 8 else zeros) - 7;
          pad = 0x80 # replicate (nat (zeros' div 8)) 0 @
                PUT_UINT64 (sha512_data_len1 s0) @ PUT_UINT64 (sha512_data_len0 s0);
          s = sha512_sum_update s0 pad
      in s\<lparr>sha512_digest := concat (map PUT_UINT64 (sha512_H s))\<rparr>)"

definition sha512_sum_to_string :: "sha512sum \<Rightarrow> string" where
  "sha512_sum_to_string s = digest_to_string (sha512_digest s)"

section \<open>GChecksum\<close>

datatype GChecksumType = G_CHECKSUM_MD5 | G_CHECKSUM_SHA1 | G_CHECKSUM_SHA256 | G_CHECKSUM_SHA512
  | G_CHECKSUM_OTHER int

datatype checksum_sum = Md5 md5sum | Sha1 sha1sum | Sha256 sha256sum | Sha512 sha512sum

record GChecksum =
  ck_type :: GChecksumType
  digest_str :: "string option"
  sum_of :: checksum_sum

fun IS_VALID_TYPE :: "GChecksumType \<Rightarrow> bool" where
  "IS_VALID_TYPE (G_CHECKSUM_OTHER n) = False"
| "IS_VALID_TYPE t = True"

fun g_checksum_type_get_length :: "GChecksumType \<Rightarrow> int" where
  "g_checksum_type_get_length G_CHECKSUM_MD5 = 16"
| "g_checksum_type_get_length G_CHECKSUM_SHA1 = 20"
| "g_checksum_type_get_length G_CHECKSUM_SHA256 = 32"
| "g_checksum_type_get_length G_CHECKSUM_SHA512 = 64"
| "g_checksum_type_get_length (G_CHECKSUM_OTHER n) = -1"

text \<open>The zeroed union of a fresh structure, seen as the sum of its type.\<close>

fun zero_sum :: "GChecksumType \<Rightarrow> checksum_sum" where
  "zero_sum G_CHECKSUM_SHA1 =
     Sha1 \<lparr>sha1_buf = replicate 5 0, sha1_bits0 = 0, sha1_bits1 = 0,
           sha1_data = replicate 64 0, sha1_digest = replicate 20 0\<rparr>"
| "zero_sum G_CHECKSUM_SHA256 =
     Sha256 \<lparr>sha256_buf = replicate 8 0, sha256_bits0 = 0, sha256_bits1 = 0,
             sha256_data = replicate 64 0, sha256_digest = replicate 32 0\<rparr>"
| "zero_sum G_CHECKSUM_SHA512 =
     Sha512 \<lparr>sha512_H = replicate 8 0, sha512_blk = replicate 128 0, sha512_block_len = 0,
             sha512_data_len0 = 0, sha512_data_len1 = 0, sha512_digest = replicate 64 0\<rparr>"
| "zero_sum t =
     Md5 \<lparr>md5_buf = replicate 4 0, md5_bits0 = 0, md5_bits1 = 0,
          md5_data = replicate 64 0, md5_digest = replicate 16 0\<rparr>"

text \<open>\<open>None\<close> is \<open>g_assert_not_reached\<close>.\<close>

fun sum_init :: "GChecksumType \<Rightarrow> checksum_sum \<Rightarrow> checksum_sum option" where
  "sum_init G_CHECKSUM_MD5 (Md5 s) = Some (Md5 (md5_sum_init s))"
| "sum_init G_CHECKSUM_SHA1 (Sha1 s) = Some (Sha1 (sha1_sum_init s))"
| "sum_init G_CHECKSUM_SHA256 (Sha256 s) = Some (Sha256 (sha256_sum_init s))"
| "sum_init G_CHECKSUM_SHA512 (Sha512 s) = Some (Sha512 (sha512_sum_init s))"
| "sum_init _ _ = None"

definition g_checksum_reset :: "GChecksum \<Rightarrow> GChecksum option" where
  "g_checksum_reset c =
     map_option (\<lambda>s. c\<lparr>digest_str := None, sum_of := s\<rparr>) (sum_init (ck_type c) (sum_of c))"

definition g_checksum_new :: "GChecksumType \<Rightarrow> GChecksum option" where
  "g_checksum_new t =
     (if \<not> IS_VALID_TYPE t then None
      else g_checksum_reset \<lparr>ck_type = t, digest_str = None, sum_of = zero_sum t\<rparr>)"

definition g_checksum_copy :: "GChecksum \<Rightarrow> GChecksum" where
  "g_checksum_copy c = c\<lparr>digest_str := digest_str c\<rparr>"

fun sum_update :: "GChecksumType \<Rightarrow> checksum_sum \<Rightarrow> u8 list \<Rightarrow> checksum_sum option" where
  "sum_update G_CHECKSUM_MD5 (Md5 s) d = Some (Md5 (md5_sum_update s d))"
| "sum_update G_CHECKSUM_SHA1 (Sha1 s) d = Some (Sha1 (sha1_sum_update s d))"
| "sum_update G_CHECKSUM_SHA256 (Sha256 s) d = Some (Sha256 (sha256_sum_update s d))"
| "sum_update G_CHECKSUM_SHA512 (Sha512 s) d = Some (Sha512 (sha512_sum_update s d))"
| "sum_update _ _ d = None"

text \<open>A negative length stands for the bytes before the first NUL.\<close>

definition data_of :: "u8 list \<Rightarrow> int \<Rightarrow> u8 list" where
  "data_of dat len = (if len < 0 then takeWhile (\<lambda>b. b \<noteq> 0) dat else take (nat len) dat)"

definition g_checksum_update :: "GChecksum \<Rightarrow> u8 list \<Rightarrow> int \<Rightarrow> GChecksum option" where
  "g_checksum_update c dat len =
     (if digest_str c \<noteq> None then Some c
      else map_option (\<lambda>s. c\<lparr>sum_of := s\<rparr>) (sum_update (ck_type c) (sum_of c) (data_of dat len)))"

fun sum_close :: "GChecksumType \<Rightarrow> checksum_sum \<Rightarrow> (checksum_sum \<times> string) option" where
  "sum_close G_CHECKSUM_MD5 (Md5 s) =
     (let t = md5_sum_close s in Some (Md5 t, md5_sum_to_string t))"
| "sum_close G_CHECKSUM_SHA1 (Sha1 s) =
     (let t = sha1_sum_close s in Some (Sha1 t, sha1_sum_to_string t))"
| "sum_close G_CHECKSUM_SHA256 (Sha256 s) =
     (let t = sha256_sum_close s in Some (Sha256 t, sha256_sum_to_string t))"
| "sum_close G_CHECKSUM_SHA512 (Sha512 s) =
     (let t = sha512_sum_close s in Some (Sha512 t, sha512_sum_to_string t))"
| "sum_close _ _ = None"

definition g_checksum_get_string :: "GChecksum \<Rightarrow> (string \<times> GChecksum) option" where
  "g_checksum_get_string c =
     (case digest_str c of
        Some str \<Rightarrow> Some (str, c)
      | None \<Rightarrow> map_option (\<lambda>(s, str). (str, c\<lparr>sum_of := s, digest_str := Some str\<rparr>))
                  (sum_close (ck_type c) (sum_of c)))"

fun sum_digest :: "checksum_sum \<Rightarrow> u8 list" where
  "sum_digest (Md5 s) = md5_digest s"
| "sum_digest (Sha1 s) = sha1_digest s"
| "sum_digest (Sha256 s) = sha256_digest s"
| "sum_digest (Sha512 s) = sha512_digest s"

text \<open>
  The length of the buffer comes in, and the bytes written and the length set come out; \<open>Inl\<close> is
  the return of a failed check, with nothing written.
\<close>

definition g_checksum_get_digest :: "GChecksum \<Rightarrow> int \<Rightarrow> (unit + u8 list \<times> int \<times> GChecksum) option" where
  "g_checksum_get_digest c digest_len =
     (let len = g_checksum_type_get_length (ck_type c) mod 2 ^ 64
      in if digest_len < len then Some (Inl ())
         else map_option (\<lambda>(_, c'). Inr (sum_digest (sum_of c'), len, c')) (g_checksum_get_string c))"

definition g_compute_checksum_for_data :: "GChecksumType \<Rightarrow> u8 list \<Rightarrow> string option" where
  "g_compute_checksum_for_data t dat =
     (if \<not> IS_VALID_TYPE t then None
      else case g_checksum_new t of
             None \<Rightarrow> None
           | Some c \<Rightarrow>
               (case g_checksum_update c dat (int (length dat)) of
                  None \<Rightarrow> None
                | Some c' \<Rightarrow> map_option fst (g_checksum_get_string c')))"

definition g_compute_checksum_for_string :: "GChecksumType \<Rightarrow> u8 list \<Rightarrow> int \<Rightarrow> string option" where
  "g_compute_checksum_for_string t str len =
     (if \<not> IS_VALID_TYPE t then None else g_compute_checksum_for_data t (data_of str len))"

definition g_compute_checksum_for_bytes :: "GChecksumType \<Rightarrow> u8 list \<Rightarrow> string option" where
  "g_compute_checksum_for_bytes t dat =
     (if \<not> IS_VALID_TYPE t then None else g_compute_checksum_for_data t dat)"

end
