(* ===== verification/Glib_Hash_Laws.thy ===== *)
theory Glib_Hash_Laws
  imports Glib_Hash
begin

text \<open>
  Facts about the compression functions: the byte order of words in memory, and SHA-1 as the
  standard states it, with the eighty words of the message schedule as a function, to which the
  circular buffer of \<open>sha1_transform\<close> is shown equal.
\<close>

unbundle bit_operations_syntax

section \<open>Byte order\<close>

definition be32 :: "u8 \<Rightarrow> u8 \<Rightarrow> u8 \<Rightarrow> u8 \<Rightarrow> u32" where
  "be32 a b c d = le32 d c b a"

fun be_words :: "u8 list \<Rightarrow> u32 list" where
  "be_words (a # b # c # d # bs) = be32 a b c d # be_words bs"
| "be_words bs = []"

lemma bit_lits: "(0xFF :: u32) = mask 8" "(0xFF00 :: u32) = push_bit 8 (mask 8)"
  "(0xFF0000 :: u32) = push_bit 16 (mask 8)" "(0xFF000000 :: u32) = push_bit 24 (mask 8)"
  by (simp_all add: mask_eq_exp_minus_1 push_bit_eq_mult)

lemma word32_eqI:
  assumes "\<And>n. n < 8 \<Longrightarrow> bit (v :: u32) n = bit w n"
    "\<And>n. n < 8 \<Longrightarrow> bit v (n + 8) = bit w (n + 8)"
    "\<And>n. n < 8 \<Longrightarrow> bit v (n + 16) = bit w (n + 16)"
    "\<And>n. n < 8 \<Longrightarrow> bit v (n + 24) = bit w (n + 24)"
  shows "v = w"
proof (rule bit_word_eqI)
  fix n assume "n < LENGTH(32)"
  then consider "n < 8" | "n - 8 < 8" "n = n - 8 + 8" | "n - 16 < 8" "n = n - 16 + 16"
    | "n - 24 < 8" "n = n - 24 + 24" by fastforce
  then show "bit v n = bit w n" by cases (metis assms)+
qed

lemma le32_le_bytes: "le32 (ucast w) (ucast (drop_bit 8 w)) (ucast (drop_bit 16 w)) (ucast (drop_bit 24 w)) = w"
  by (rule word32_eqI) (auto simp: le32_def bit_simps ac_simps)

lemma swap32_le32: "swap32 (le32 a b c d) = be32 a b c d"
  by (rule word32_eqI) (auto simp: swap32_def le32_def be32_def bit_lits bit_simps bit_u8_high)

lemma map_swap_le_words: "map swap32 (le_words bs) = be_words bs"
  by (induction bs rule: le_words.induct) (simp_all add: swap32_le32)

lemma le_words_le_bytes: "le_words (le_bytes w @ bs) = w # le_words bs"
  by (simp add: le_bytes_def le32_le_bytes)

lemma be_words_PUT: "be_words (PUT_UINT32 w @ bs) = w # be_words bs"
  by (simp add: PUT_UINT32_def be32_def le32_le_bytes)

lemma length_be_words [simp]: "length (be_words bs) = length bs div 4"
  by (induction bs rule: be_words.induct) simp_all

lemma mod_4_Suc: "Suc (Suc (Suc (Suc k))) mod 4 = k mod 4"
  by presburger

lemma le_words_append: "length as mod 4 = 0 \<Longrightarrow> le_words (as @ bs) = le_words as @ le_words bs"
  by (induction as rule: le_words.induct) (simp_all add: mod_4_Suc)

lemma be_words_append: "length as mod 4 = 0 \<Longrightarrow> be_words (as @ bs) = be_words as @ be_words bs"
  by (induction as rule: be_words.induct) (simp_all add: mod_4_Suc)

lemma le32_parts:
  "ucast (le32 a b c d) = a" "ucast (drop_bit 8 (le32 a b c d)) = b"
  "ucast (drop_bit 16 (le32 a b c d)) = c" "ucast (drop_bit 24 (le32 a b c d)) = d"
  by (rule bit_word_eqI; simp add: le32_def bit_simps bit_u8_high)+

lemma le_bytes_le32: "le_bytes (le32 a b c d) = [a, b, c, d]"
  by (simp add: le_bytes_def le32_parts)

lemma le_bytes_swap: "le_bytes (swap32 w) = PUT_UINT32 w"
proof -
  have "swap32 w = be32 (ucast w) (ucast (drop_bit 8 w)) (ucast (drop_bit 16 w)) (ucast (drop_bit 24 w))"
    using swap32_le32 le32_le_bytes by metis
  then show ?thesis by (simp add: be32_def le_bytes_le32 PUT_UINT32_def)
qed

section \<open>SHA-1 of the standard\<close>

fun sha1_sched :: "u32 list \<Rightarrow> nat \<Rightarrow> u32" where
  "sha1_sched M t =
     (if t < 16 then M ! t
      else ROTL 1 (sha1_sched M (t - 3) XOR sha1_sched M (t - 8) XOR sha1_sched M (t - 14) XOR sha1_sched M (t - 16)))"

declare sha1_sched.simps [simp del]

definition fips_f :: "nat \<Rightarrow> u32 \<Rightarrow> u32 \<Rightarrow> u32 \<Rightarrow> u32" where
  "fips_f t x y z =
     (if t < 20 then (x AND y) XOR (NOT x AND z)
      else if 40 \<le> t \<and> t < 60 then (x AND y) XOR (x AND z) XOR (y AND z)
      else x XOR y XOR z)"

definition fips_K :: "nat \<Rightarrow> u32" where
  "fips_K t = [0x5A827999, 0x6ED9EBA1, 0x8F1BBCDC, 0xCA62C1D6] ! (t div 20)"

fun fips_step :: "u32 list \<Rightarrow> nat \<Rightarrow> sha1_vars \<Rightarrow> sha1_vars" where
  "fips_step M t (a, b, c, d, e) =
     (ROTL 5 a + fips_f t b c d + e + fips_K t + sha1_sched M t, a, ROTL 30 b, c, d)"

definition sha1_fips :: "u32 list \<Rightarrow> u32 list \<Rightarrow> u32 list" where
  "sha1_fips H M =
     (case fold (fips_step M) [0..<80] (H ! 0, H ! 1, H ! 2, H ! 3, H ! 4) of
        (a, b, c, d, e) \<Rightarrow> [H ! 0 + a, H ! 1 + b, H ! 2 + c, H ! 3 + d, H ! 4 + e])"

lemma fips_fk:
  assumes "t < 80"
  shows "sha1_fk t = (fips_f t, fips_K t)"
proof -
  have c: "z XOR (x AND (y XOR z)) = (x AND y) XOR (NOT x AND z)"
    "(x AND y) OR (z AND (x OR y)) = (x AND y) XOR (x AND z) XOR (y AND z)" for x y z :: u32
    by (rule bit_word_eqI; auto simp: bit_simps)+
  have k: "t div 20 = (if t < 20 then 0 else if t < 40 then 1 else if t < 60 then 2 else 3)"
    using assms by auto
  show ?thesis unfolding sha1_fk_def fips_K_def k
    by (auto simp: fips_f_def sha1_f1_def sha1_f2_def sha1_f3_def sha1_f4_def c fun_eq_iff)
qed

text \<open>What the circular buffer holds before step \<open>i\<close>: the last sixteen words of the schedule.\<close>

definition circ :: "u32 list \<Rightarrow> nat \<Rightarrow> u32 list \<Rightarrow> bool" where
  "circ M i C \<longleftrightarrow> length C = 16 \<and> (\<forall>k. k < max i 16 \<and> max i 16 \<le> k + 16 \<longrightarrow> C ! (k mod 16) = sha1_sched M k)"

lemma circ_word: "circ M i C \<Longrightarrow> 16 \<le> i \<Longrightarrow> k < i \<Longrightarrow> i \<le> k + 16 \<Longrightarrow> C ! (k mod 16) = sha1_sched M k"
  by (simp add: circ_def)

lemma expand_circ:
  assumes "circ M i C" "16 \<le> i"
  shows "expand C i = sha1_sched M i"
proof -
  have "C ! (i mod 16) = sha1_sched M (i - 16)" using circ_word[OF assms, of "i - 16"] assms(2)
    by (simp add: le_mod_geq)
  then show ?thesis
    using circ_word[OF assms, of "i - 14"] circ_word[OF assms, of "i - 8"] circ_word[OF assms, of "i - 3"] assms(2)
    by (simp add: expand_def sha1_sched.simps[of M i] ac_simps)
qed

lemma circ_step:
  assumes "circ M i C" "16 \<le> i"
  shows "circ M (i + 1) (C[i mod 16 := sha1_sched M i])"
  unfolding circ_def
proof (intro conjI allI impI)
  show "length (C[i mod 16 := sha1_sched M i]) = 16" using assms(1) by (simp add: circ_def)
  fix k assume k: "k < max (i + 1) 16 \<and> max (i + 1) 16 \<le> k + 16"
  show "C[i mod 16 := sha1_sched M i] ! (k mod 16) = sha1_sched M k"
  proof (cases "k = i")
    case True
    then show ?thesis using assms(1) by (simp add: circ_def)
  next
    case False
    with k assms(2) have b: "k < i" "i < k + 16" by auto
    then have "\<not> 16 dvd i - k" using nat_dvd_not_less[of "i - k" 16] by simp
    then have "i mod 16 \<noteq> k mod 16" using b(1) mod_eq_dvd_iff_nat[of k i 16] by simp
    then show ?thesis using circ_word[OF assms, of k] b by simp
  qed
qed

lemma sha1_steps_fips:
  "circ M i C \<Longrightarrow> i + n \<le> 80 \<Longrightarrow>
   snd (sha1_steps i n C v) = fold (fips_step M) [i..<i + n] v \<and> length (fst (sha1_steps i n C v)) = 16"
proof (induction n arbitrary: i C v)
  case 0
  then show ?case by (simp add: circ_def)
next
  case (Suc n)
  obtain a b c d e where v: "v = (a, b, c, d, e)" by (metis prod.exhaust)
  have fk: "sha1_fk i = (fips_f i, fips_K i)" using Suc.prems(2) by (simp add: fips_fk)
  have st: "subRound (fips_f i) (fips_K i) (sha1_sched M i) v = fips_step M i v"
    by (simp add: v ac_simps)
  have up: "[i..<Suc (i + n)] = i # [Suc i..<Suc (i + n)]" by (simp add: upt_conv_Cons del: upt_Suc)
  show ?case
  proof (cases "i < 16")
    case True
    have "circ M (i + 1) C" "C ! i = sha1_sched M i"
      using Suc.prems(1) True by (auto simp: circ_def)
    then show ?thesis using Suc.IH[of "i + 1" C] Suc.prems(2) True
      by (simp add: fk st up del: upt_Suc)
  next
    case False
    then have "circ M (i + 1) (C[i mod 16 := sha1_sched M i])" "expand C i = sha1_sched M i"
      using circ_step expand_circ Suc.prems(1) by auto
    then show ?thesis using Suc.IH[of "i + 1" "C[i mod 16 := sha1_sched M i]"] Suc.prems(2) False
      by (simp add: fk st up Let_def del: upt_Suc)
  qed
qed

lemma sha1_transform_fips:
  assumes "length inw = 16"
  shows "fst (sha1_transform buf inw) = sha1_fips buf inw" "length (snd (sha1_transform buf inw)) = 16"
proof -
  obtain W A B C D E where e: "sha1_steps 0 80 inw (buf ! 0, buf ! 1, buf ! 2, buf ! 3, buf ! 4) = (W, A, B, C, D, E)"
    by (metis prod.exhaust)
  have "circ inw 0 inw" using assms by (simp add: circ_def sha1_sched.simps)
  from sha1_steps_fips[OF this, of 80 "(buf ! 0, buf ! 1, buf ! 2, buf ! 3, buf ! 4)"] e
  have "fold (fips_step inw) [0..<80] (buf ! 0, buf ! 1, buf ! 2, buf ! 3, buf ! 4) = (A, B, C, D, E)"
    "length W = 16" by (simp_all del: upt_Suc One_nat_def)
  then show "fst (sha1_transform buf inw) = sha1_fips buf inw" "length (snd (sha1_transform buf inw)) = 16"
    unfolding sha1_transform_def sha1_fips_def e by simp_all
qed

end
