(* ===== verification/Glib_Checksum_Laws.thy ===== *)
theory Glib_Checksum_Laws
  imports Glib_Checksum Glib_Hash_Laws
begin

text \<open>
  The incremental checksums of \<open>gchecksum.c\<close> against reference definitions on whole messages:
  hashing a padded message block by block. What the four states keep between calls is the
  predicate \<open>absorbs\<close>; the locale \<open>incremental_sum\<close> is the contract of \<open>update\<close> and \<open>close\<close>, from
  which it follows that the way a message is cut into pieces does not matter.
\<close>

unbundle bit_operations_syntax

section \<open>Hashing whole blocks\<close>

function hash_blocks :: "('h \<Rightarrow> 'b list \<Rightarrow> 'h) \<Rightarrow> nat \<Rightarrow> 'h \<Rightarrow> 'b list \<Rightarrow> 'h" where
  "hash_blocks tr n h m =
     (if n = 0 \<or> length m < n then h else hash_blocks tr n (tr h (take n m)) (drop n m))"
  by auto
termination by (relation "measure (\<lambda>(tr, n, h, m). length m)") auto

declare hash_blocks.simps [simp del]

definition rest :: "nat \<Rightarrow> 'b list \<Rightarrow> 'b list" where
  "rest n m = drop (n * (length m div n)) m"

definition absorbs :: "('h \<Rightarrow> 'b list \<Rightarrow> 'h) \<Rightarrow> nat \<Rightarrow> 'h \<Rightarrow> 'b list \<Rightarrow> 'h \<Rightarrow> 'b list \<Rightarrow> bool" where
  "absorbs tr n h0 m h dat \<longleftrightarrow>
     length dat = n \<and> h = hash_blocks tr n h0 m \<and> take (length m mod n) dat = rest n m"

lemma length_rest [simp]: "length (rest n m) = length m mod n"
  by (simp add: rest_def minus_mult_div_eq_mod)

lemma rest_short: "length m < n \<Longrightarrow> rest n m = m"
  by (simp add: rest_def)

lemma rest_drop: "0 < n \<Longrightarrow> n \<le> length m \<Longrightarrow> rest n (drop n m) = rest n m"
  by (simp add: rest_def le_div_geq add.commute)

lemma hash_append:
  "0 < n \<Longrightarrow> hash_blocks tr n h (xs @ ys) = hash_blocks tr n (hash_blocks tr n h xs) (rest n xs @ ys)"
proof (induction "length xs" arbitrary: xs h rule: less_induct)
  case less
  show ?case
  proof (cases "length xs < n")
    case True
    then show ?thesis by (simp add: rest_short hash_blocks.simps[of tr n h xs])
  next
    case False
    with less.prems have "hash_blocks tr n h (xs @ ys) = hash_blocks tr n (tr h (take n xs)) (drop n xs @ ys)"
      by (subst hash_blocks.simps) simp
    also have "\<dots> = hash_blocks tr n (hash_blocks tr n (tr h (take n xs)) (drop n xs)) (rest n xs @ ys)"
      using False less by (simp add: rest_drop)
    finally show ?thesis using False less.prems by (simp add: hash_blocks.simps[of tr n h xs])
  qed
qed

lemma rest_append:
  "0 < n \<Longrightarrow> rest n (xs @ ys) = rest n (rest n xs @ ys)"
proof (induction "length xs" arbitrary: xs rule: less_induct)
  case less
  show ?case
  proof (cases "length xs < n")
    case False
    with less.prems have "rest n (xs @ ys) = rest n (drop n xs @ ys)"
      using rest_drop[of n "xs @ ys"] by simp
    also have "\<dots> = rest n (rest n xs @ ys)"
      using False less by (simp add: rest_drop)
    finally show ?thesis .
  qed (simp add: rest_short)
qed

lemma hash_one: "0 < n \<Longrightarrow> length b = n \<Longrightarrow> hash_blocks tr n h b = tr h b"
  by (simp add: hash_blocks.simps[of tr n h b] hash_blocks.simps[of tr n "tr h b" "[]"])

lemma hash_short: "length b < n \<Longrightarrow> hash_blocks tr n h b = h"
  by (simp add: hash_blocks.simps[of tr n h b])

lemma length_overwrite [simp]: "off + length src \<le> length buf \<Longrightarrow> length (overwrite buf off src) = length buf"
  by (simp add: overwrite_def)

lemma overwrite_0_full: "length src = length buf \<Longrightarrow> overwrite buf 0 src = src"
  by (simp add: overwrite_def)

lemma overwrite_twice:
  "off + length a + length b \<le> length buf \<Longrightarrow>
   overwrite (overwrite buf off a) (off + length a) b = overwrite buf off (a @ b)"
  by (simp add: overwrite_def ac_simps)

lemma take_overwrite:
  "off + length src \<le> length buf \<Longrightarrow> take (off + length src) (overwrite buf off src) = take off buf @ src"
  by (simp add: overwrite_def)

text \<open>Bytes that do not complete a block are kept; bytes that complete it are hashed.\<close>

lemma absorbs_keep:
  assumes "absorbs tr n h0 m h dat" "length m mod n + length d < n"
  shows "absorbs tr n h0 (m @ d) h (overwrite dat (length m mod n) d)"
proof -
  have n: "0 < n" using assms(2) by simp
  have len: "length (m @ d) mod n = length m mod n + length d"
    using assms(2) by (metis length_append mod_add_left_eq mod_less)
  have r: "rest n m @ d = rest n (m @ d)" "hash_blocks tr n h0 (m @ d) = hash_blocks tr n h0 m"
    using n assms(2) by (simp_all add: rest_append[of n m d] rest_short hash_append hash_short)
  show ?thesis
    using assms n unfolding absorbs_def len r(2) r(1)[symmetric] by (simp add: take_overwrite)
qed

lemma absorbs_full:
  assumes "absorbs tr n h0 m h dat" "length m mod n + length d = n" "0 < n" "length dat' = n"
  shows "absorbs tr n h0 (m @ d) (tr h (overwrite dat (length m mod n) d)) dat'"
    and "length (m @ d) mod n = 0"
proof -
  have eq: "overwrite dat (length m mod n) d = rest n m @ d"
    using assms by (simp add: absorbs_def overwrite_def)
  show z: "length (m @ d) mod n = 0" using assms(2)
    by (metis length_append mod_add_left_eq mod_self)
  have "hash_blocks tr n h0 (m @ d) = tr h (rest n m @ d)"
    using assms by (simp add: hash_append hash_one absorbs_def)
  moreover have "rest n (m @ d) = []" using z by (metis length_0_conv length_rest)
  ultimately show "absorbs tr n h0 (m @ d) (tr h (overwrite dat (length m mod n) d)) dat'"
    using assms(4) z unfolding absorbs_def eq by simp
qed

lemma absorbs_start: "length dat = n \<Longrightarrow> 0 < n \<Longrightarrow> absorbs tr n h [] h dat"
  by (simp add: absorbs_def hash_short rest_def)

section \<open>Counters and bytes of words\<close>

lemma carry_iff: "r < n \<Longrightarrow> r' < n \<Longrightarrow> (r + r') mod n < r \<longleftrightarrow> n \<le> (r + r' :: nat)"
  by (cases "n \<le> r + r'") (simp_all add: mod_if, linarith)

lemma carry_div: "r < n \<Longrightarrow> r' < n \<Longrightarrow> (q * n + (r + r')) div n = q + (if n \<le> (r + r' :: nat) then 1 else 0)"
  using div_nat_eqI[of n 1 "r + r'"] by (simp add: div_mult_self3)

lemma count_bits_word:
  "count_bits len (of_nat b) (of_nat (b div 2 ^ 32)) =
     (of_nat (b + 8 * len), of_nat ((b + 8 * len) div 2 ^ 32))"
proof -
  define r q where "r = b mod 2 ^ 32" and "q = b div 2 ^ 32"
  define r' q' where "r' = 8 * len mod 2 ^ 32" and "q' = 8 * len div 2 ^ 32"
  have b: "b = q * 2 ^ 32 + r" "8 * len = q' * 2 ^ 32 + r'" "r < 2 ^ 32" "r' < 2 ^ 32"
    unfolding r_def q_def r'_def q'_def by (simp_all only: div_mult_mod_eq) simp_all
  have low: "(of_nat b :: u32) + push_bit 3 (of_nat len) = of_nat (b + 8 * len)"
    by (simp add: push_bit_eq_mult)
  have q': "q' = len div 2 ^ 29" by (simp add: q'_def)
  have s: "b + 8 * len = (q + q') * 2 ^ 32 + (r + r')" unfolding b by (simp add: algebra_simps)
  have carry: "(of_nat (b + 8 * len) :: u32) < of_nat b \<longleftrightarrow> 2 ^ 32 \<le> r + r'"
  proof -
    have "(b + 8 * len) mod 2 ^ 32 = (r + r') mod 2 ^ 32" by (simp only: s mod_mult_self3)
    then have "(of_nat (b + 8 * len) :: u32) < of_nat b \<longleftrightarrow> (r + r') mod 2 ^ 32 < r"
      unfolding word_less_nat_alt unat_of_nat r_def by simp
    then show ?thesis by (simp only: carry_iff[OF b(3,4)])
  qed
  have "(b + 8 * len) div 2 ^ 32 = q + q' + (if 2 ^ 32 \<le> r + r' then 1 else 0)"
    unfolding s by (rule carry_div[OF b(3,4)])
  then have "(of_nat ((b + 8 * len) div 2 ^ 32) :: u32) =
      (if 2 ^ 32 \<le> r + r' then of_nat q + 1 else of_nat q) + of_nat (len div 2 ^ 29)"
    by (simp only: q' of_nat_add split: if_split) simp
  then show ?thesis unfolding count_bits_def low Let_def carry q_def[symmetric] by (simp only:)
qed

lemma used_bits: "unat (drop_bit 3 (of_nat (8 * len) :: u32) AND 0x3F) = len mod 64"
proof -
  have m: "(0x3F :: u32) = mask 6" by (simp add: mask_eq_exp_minus_1)
  have "unat (drop_bit 3 (of_nat (8 * len) :: u32) AND 0x3F) = 8 * len mod 2 ^ 32 div 8 mod 64"
    unfolding m by (simp add: take_bit_eq_mask[symmetric] take_bit_eq_mod drop_bit_eq_div unat_mod
      unat_div_distrib unat_of_nat del: of_nat_mult)
  also have "8 * len mod 2 ^ 32 div 8 = len mod 2 ^ 29"
    using mult_mod_right[of 8 len "2 ^ 29"] by simp
  also have "\<dots> mod 64 = len mod 64" by (rule mod_mod_cancel) simp
  finally show ?thesis .
qed

lemma used_bytes: "unat ((of_nat len :: u32) AND 0x3F) = len mod 64"
proof -
  have m: "(0x3F :: u32) = mask 6" by (simp add: mask_eq_exp_minus_1)
  have "unat ((of_nat len :: u32) AND 0x3F) = len mod 2 ^ 32 mod 64"
    unfolding m by (simp add: take_bit_eq_mask[symmetric] take_bit_eq_mod unat_mod unat_of_nat)
  also have "\<dots> = len mod 64" by (rule mod_mod_cancel) simp
  finally show ?thesis .
qed

lemma length_bytes [simp]:
  "length (le_bytes w) = 4" "length (PUT_UINT32 w) = 4" "length (PUT_UINT64 x) = 8"
  by (simp_all add: le_bytes_def PUT_UINT32_def PUT_UINT64_def)

lemma length_concat_bytes [simp]: "length (concat (map le_bytes ws)) = 4 * length ws"
  by (induction ws) simp_all

lemma length_le_words [simp]: "length (le_words bs) = length bs div 4"
  by (induction bs rule: le_words.induct) simp_all

section \<open>The contract of an incremental checksum\<close>

text \<open>
  \<open>absorbed m s\<close>: the state \<open>s\<close> has been fed the message \<open>m\<close>; \<open>fits m d\<close>: the counters are exact when
  \<open>d\<close> comes after \<open>m\<close>; \<open>ref m\<close>: the digest of the whole message.
\<close>

locale incremental_sum =
  fixes upd :: "'s \<Rightarrow> u8 list \<Rightarrow> 's" and close :: "'s \<Rightarrow> 's" and digest :: "'s \<Rightarrow> u8 list"
    and absorbed :: "u8 list \<Rightarrow> 's \<Rightarrow> bool" and fits :: "u8 list \<Rightarrow> u8 list \<Rightarrow> bool"
    and ref :: "u8 list \<Rightarrow> u8 list"
  assumes upd_absorbed: "absorbed m s \<Longrightarrow> fits m d \<Longrightarrow> absorbed (m @ d) (upd s d)"
    and close_digest: "absorbed m s \<Longrightarrow> digest (close s) = ref m"
begin

fun all_fit :: "u8 list \<Rightarrow> u8 list list \<Rightarrow> bool" where
  "all_fit m [] = True"
| "all_fit m (d # ds) \<longleftrightarrow> fits m d \<and> all_fit (m @ d) ds"

lemma pieces_absorbed:
  "absorbed m s \<Longrightarrow> all_fit m ds \<Longrightarrow> absorbed (m @ concat ds) (foldl upd s ds)"
  by (induction ds arbitrary: m s) (simp, use upd_absorbed in fastforce)

lemma pieces_digest:
  "absorbed [] s \<Longrightarrow> all_fit [] ds \<Longrightarrow> digest (close (foldl upd s ds)) = ref (concat ds)"
  using pieces_absorbed[of "[]" s ds] close_digest by simp

end

section \<open>Padding\<close>

definition pad_of :: "u8 list \<Rightarrow> u8 list" where
  "pad_of m = 0x80 # replicate (if length m mod 64 < 56 then 55 - length m mod 64 else 119 - length m mod 64) 0"

definition bitlen0 :: "u8 list \<Rightarrow> u32" where
  "bitlen0 m = of_nat (8 * length m)"

definition bitlen1 :: "u8 list \<Rightarrow> u32" where
  "bitlen1 m = of_nat (8 * length m div 2 ^ 32)"

lemma count_bits_len:
  "count_bits (length d) (bitlen0 m) (bitlen1 m) = (bitlen0 (m @ d), bitlen1 (m @ d))"
  using count_bits_word[of "length d" "8 * length m"]
  by (simp add: bitlen0_def bitlen1_def distrib_left del: of_nat_mult of_nat_add)

lemma used_bitlen: "unat (drop_bit 3 (bitlen0 m) AND 0x3F) = length m mod 64"
  unfolding bitlen0_def by (rule used_bits)

text \<open>The last one or two blocks: the marker and zeros, then the length.\<close>

lemma absorbs_pad:
  assumes ab: "absorbs tr 64 h0 m h dat" and u: "u = length m mod 64" and X: "length X = 64"
  shows "55 < u \<Longrightarrow> absorbs tr 64 h0 (m @ pad_of m)
      (tr h (overwrite (overwrite dat u [0x80]) (Suc u) (replicate (63 - u) 0))) (overwrite X 0 (replicate 56 0))"
    and "u \<le> 55 \<Longrightarrow> absorbs tr 64 h0 (m @ pad_of m) h
      (overwrite (overwrite dat u [0x80]) (Suc u) (replicate (55 - u) 0))"
    and "length (m @ pad_of m) mod 64 = 56"
proof -
  have dat: "length dat = 64" and u64: "u < 64" using ab u by (simp_all add: absorbs_def)
  have ov: "overwrite (overwrite dat u [0x80]) (Suc u) (replicate k 0) = overwrite dat u (0x80 # replicate k 0)"
    if "u + k < 64" for k
    using overwrite_twice[of u "[0x80]" "replicate k 0" dat] that dat by simp
  show len: "length (m @ pad_of m) mod 64 = 56"
  proof -
    have "length (m @ pad_of m) mod 64 = (u + length (pad_of m)) mod 64"
      unfolding length_append u by (simp add: mod_add_left_eq)
    also have "\<dots> = 56" using u64 by (cases "u < 56") (simp_all add: pad_of_def u[symmetric])
    finally show ?thesis .
  qed
  {
    assume h: "55 < u"
    let ?p = "0x80 # replicate (63 - u) 0" let ?m = "m @ ?p"
    have 1: "absorbs tr 64 h0 ?m (tr h (overwrite dat u ?p)) X" "length ?m mod 64 = 0"
      using absorbs_full[OF ab, of ?p X] h u u64 X by simp_all
    have "replicate (119 - u) (0 :: u8) = replicate (63 - u) 0 @ replicate 56 0"
      using u64 by (simp add: replicate_add[symmetric])
    then have "m @ pad_of m = ?m @ replicate 56 0" using h u by (simp add: pad_of_def)
    then show "absorbs tr 64 h0 (m @ pad_of m)
      (tr h (overwrite (overwrite dat u [0x80]) (Suc u) (replicate (63 - u) 0))) (overwrite X 0 (replicate 56 0))"
      using absorbs_keep[OF 1(1), of "replicate 56 0"] 1(2) u64 ov[of "63 - u"] by (simp del: append_assoc)
  next
    assume h: "u \<le> 55"
    then show "absorbs tr 64 h0 (m @ pad_of m) h
      (overwrite (overwrite dat u [0x80]) (Suc u) (replicate (55 - u) 0))"
      using absorbs_keep[OF ab, of "0x80 # replicate (55 - u) 0"] u ov[of "55 - u"] by (simp add: pad_of_def)
  }
qed

lemma absorbs_finish:
  assumes ab: "absorbs tr 64 h0 m h dat" and m: "length m mod 64 = 56" and b: "length b = 8"
  shows "tr h (overwrite dat 56 b) = hash_blocks tr 64 h0 (m @ b)"
  using absorbs_full(1)[OF ab, of b dat] ab m b by (simp add: absorbs_def)

section \<open>States that buffer one block\<close>

text \<open>
  What MD5 and SHA-1 share: a chaining value, a block buffer and the loop over whole blocks. The
  block operation may leave anything of the right length in the buffer, as that of SHA-1 does.
\<close>

locale block_state =
  fixes tr :: "'h \<Rightarrow> u8 list \<Rightarrow> 'h" and iv :: 'h and buf :: "'s \<Rightarrow> 'h" and dat :: "'s \<Rightarrow> u8 list"
    and put :: "u8 list \<Rightarrow> 's \<Rightarrow> 's" and blk :: "'s \<Rightarrow> 's" and chunks :: "u8 list \<Rightarrow> 's \<Rightarrow> 's"
  assumes put_sel [simp]: "buf (put b s) = buf s" "dat (put b s) = b"
    and blk_sel: "length (dat s) = 64 \<Longrightarrow> buf (blk s) = tr (buf s) (dat s)"
      "length (dat s) = 64 \<Longrightarrow> length (dat (blk s)) = 64"
    and chunks_eq: "chunks d s =
      (if 64 \<le> length d then chunks (drop 64 d) (blk (put (overwrite (dat s) 0 (take 64 d)) s))
       else put (overwrite (dat s) 0 d) s)"
begin

definition absorbed :: "u8 list \<Rightarrow> 's \<Rightarrow> bool" where
  "absorbed m s \<longleftrightarrow> absorbs tr 64 iv m (buf s) (dat s)"

definition feed :: "nat \<Rightarrow> u8 list \<Rightarrow> 's \<Rightarrow> 's" where
  "feed off d s =
     (if off \<noteq> 0
      then if length d < 64 - off then put (overwrite (dat s) off d) s
           else chunks (drop (64 - off) d) (blk (put (overwrite (dat s) off (take (64 - off) d)) s))
      else chunks d s)"

definition pad :: "nat \<Rightarrow> 's \<Rightarrow> 's" where
  "pad used s =
     (let s1 = put (overwrite (dat s) used [0x80]) s; count = 64 - 1 - used
      in if count < 8
         then let t = blk (put (overwrite (dat s1) (used + 1) (replicate count 0)) s1)
              in put (overwrite (dat t) 0 (replicate 56 0)) t
         else put (overwrite (dat s1) (used + 1) (replicate (count - 8) 0)) s1)"

lemma dat_length: "absorbed m s \<Longrightarrow> length (dat s) = 64"
  by (simp add: absorbed_def absorbs_def)

lemma keep_absorbed:
  "absorbed m s \<Longrightarrow> length m mod 64 + length d < 64 \<Longrightarrow>
   absorbed (m @ d) (put (overwrite (dat s) (length m mod 64) d) s)"
  using absorbs_keep by (simp add: absorbed_def)

lemma full_absorbed:
  assumes "absorbed m s" "length m mod 64 + length d = 64"
  shows "absorbed (m @ d) (blk (put (overwrite (dat s) (length m mod 64) d) s))" "length (m @ d) mod 64 = 0"
  using absorbs_full[of tr 64 iv m "buf s" "dat s" d] assms dat_length[OF assms(1)]
  by (simp_all add: absorbed_def blk_sel)

lemma chunks_absorbed: "absorbed m s \<Longrightarrow> length m mod 64 = 0 \<Longrightarrow> absorbed (m @ d) (chunks d s)"
proof (induction "length d" arbitrary: d m s rule: less_induct)
  case less
  show ?case
  proof (cases "64 \<le> length d")
    case True
    let ?t = "blk (put (overwrite (dat s) 0 (take 64 d)) s)"
    have "absorbed (m @ take 64 d) ?t" "length (m @ take 64 d) mod 64 = 0"
      using full_absorbed[OF less.prems(1), of "take 64 d"] True less.prems(2) by simp_all
    from less.hyps[OF _ this, of "drop 64 d"] True show ?thesis by (simp add: chunks_eq[of d s])
  next
    case False
    then show ?thesis using keep_absorbed[OF less.prems(1), of d] less.prems(2) by (simp add: chunks_eq[of d s])
  qed
qed

lemma feed_absorbed:
  assumes "absorbed m s"
  shows "absorbed (m @ d) (feed (length m mod 64) d s)"
proof -
  let ?off = "length m mod 64" let ?r = "64 - ?off"
  consider (aligned) "?off = 0" | (short) "?off \<noteq> 0" "length d < ?r" | (fill) "?off \<noteq> 0" "?r \<le> length d"
    by linarith
  then show ?thesis
  proof cases
    case fill
    then have "absorbed (m @ take ?r d) (blk (put (overwrite (dat s) ?off (take ?r d)) s))"
      "length (m @ take ?r d) mod 64 = 0"
      using full_absorbed[OF assms, of "take ?r d"] by simp_all
    from chunks_absorbed[OF this, of "drop ?r d"] fill show ?thesis by (simp add: feed_def)
  qed (use assms chunks_absorbed keep_absorbed in \<open>simp_all add: feed_def\<close>)
qed

lemma pad_absorbed:
  assumes "absorbed m s"
  shows "absorbed (m @ pad_of m) (pad (length m mod 64) s)"
proof -
  let ?u = "length m mod 64"
  have ab: "absorbs tr 64 iv m (buf s) (dat s)" using assms by (simp add: absorbed_def)
  have dat: "length (dat s) = 64" using assms by (rule dat_length)
  show ?thesis
  proof (cases "?u \<le> 55")
    case True
    then have "\<not> 63 - ?u < 8" by simp
    then show ?thesis using absorbs_pad(2)[OF ab refl dat] True
      by (simp add: pad_def Let_def absorbed_def)
  next
    case False
    let ?s = "put (overwrite (overwrite (dat s) ?u [0x80]) (Suc ?u) (replicate (63 - ?u) 0)) s"
    have small: "63 - ?u < 8" using False by simp
    have len: "length (dat ?s) = 64" using dat by simp
    have "pad ?u s = put (overwrite (dat (blk (put (dat ?s) (put (overwrite (dat s) ?u [0x80]) s)))) 0 (replicate 56 0))
        (blk (put (dat ?s) (put (overwrite (dat s) ?u [0x80]) s)))"
      using small by (simp add: pad_def Let_def)
    then show ?thesis
      using absorbs_pad(1)[OF ab refl, of "dat (blk (put (dat ?s) (put (overwrite (dat s) ?u [0x80]) s)))"] False len
      by (simp add: absorbed_def blk_sel)
  qed
qed

lemma chunks_length: "length (dat s) = 64 \<Longrightarrow> length (dat (chunks d s)) = 64"
proof (induction "length d" arbitrary: d s rule: less_induct)
  case less
  then show ?case by (cases "64 \<le> length d") (simp_all add: chunks_eq[of d s] blk_sel)
qed

lemma feed_length: "length (dat s) = 64 \<Longrightarrow> off < 64 \<Longrightarrow> length (dat (feed off d s)) = 64"
  by (simp add: feed_def chunks_length blk_sel)

lemma pad_length: "length (dat s) = 64 \<Longrightarrow> used < 64 \<Longrightarrow> length (dat (pad used s)) = 64"
  by (auto simp: pad_def Let_def blk_sel)

lemma finish_hash:
  assumes "absorbed m s" "length m mod 64 = 56" "length b = 8"
  shows "tr (buf s) (overwrite (dat s) 56 b) = hash_blocks tr 64 iv (m @ b)"
  using absorbs_finish assms by (simp add: absorbed_def)

end

section \<open>MD5\<close>

definition md5_comp :: "u32 list \<Rightarrow> u8 list \<Rightarrow> u32 list" where
  "md5_comp h b = md5_transform h (le_words b)"

definition md5_iv :: "u32 list" where
  "md5_iv = [0x67452301, 0xefcdab89, 0x98badcfe, 0x10325476]"

definition md5_ref :: "u8 list \<Rightarrow> u8 list" where
  "md5_ref m = concat (map le_bytes (hash_blocks md5_comp 64 md5_iv
                 (m @ pad_of m @ le_bytes (bitlen0 m) @ le_bytes (bitlen1 m))))"


interpretation md5b: block_state md5_comp md5_iv md5_buf md5_data "\<lambda>b s. s\<lparr>md5_data := b\<rparr>" md5_block md5_chunks
  by unfold_locales (simp_all add: md5_block_def md5_comp_def md5_chunks.simps[of d s for d s])

definition md5_absorbed :: "u8 list \<Rightarrow> md5sum \<Rightarrow> bool" where
  "md5_absorbed m s \<longleftrightarrow> md5b.absorbed m s \<and> md5_bits0 s = bitlen0 m \<and> md5_bits1 s = bitlen1 m"

declare md5_chunks.simps [simp del]

lemma md5_block_bits [simp]: "md5_bits0 (md5_block s) = md5_bits0 s" "md5_bits1 (md5_block s) = md5_bits1 s"
  by (simp_all add: md5_block_def)

lemma md5_chunks_bits [simp]:
  "md5_bits0 (md5_chunks d s) = md5_bits0 s" "md5_bits1 (md5_chunks d s) = md5_bits1 s"
  by (induction d s rule: md5_chunks.induct; subst md5_chunks.simps; simp)+

lemma md5_update_absorbed:
  assumes a: "md5_absorbed m s"
  shows "md5_absorbed (m @ d) (md5_sum_update s d)"
proof -
  let ?s = "s\<lparr>md5_bits0 := bitlen0 (m @ d), md5_bits1 := bitlen1 (m @ d)\<rparr>"
  have b: "md5_bits0 s = bitlen0 m" "md5_bits1 s = bitlen1 m" and ab: "md5b.absorbed m ?s"
    using a by (simp_all add: md5_absorbed_def md5b.absorbed_def)
  have "md5_sum_update s d = md5b.feed (length m mod 64) d ?s"
    by (simp add: md5_sum_update_def md5b.feed_def Let_def b count_bits_len used_bitlen)
  moreover have "md5_bits0 (md5b.feed k d ?s) = bitlen0 (m @ d)" "md5_bits1 (md5b.feed k d ?s) = bitlen1 (m @ d)" for k
    by (simp_all add: md5b.feed_def)
  ultimately show ?thesis using md5b.feed_absorbed[OF ab, of d] by (simp add: md5_absorbed_def)
qed

lemma md5_sum_close_pad:
  "md5_digest (md5_sum_close s) =
     (let s2 = md5b.pad (unat (drop_bit 3 (md5_bits0 s) AND 0x3F)) s
      in concat (map le_bytes (md5_comp (md5_buf s2) (overwrite (md5_data s2) 56
           (le_bytes (md5_bits0 s2) @ le_bytes (md5_bits1 s2))))))"
  by (simp add: md5_sum_close_def md5b.pad_def Let_def md5_block_def md5_comp_def)

lemma md5_close_digest:
  assumes a: "md5_absorbed m s"
  shows "md5_digest (md5_sum_close s) = md5_ref m"
proof -
  let ?p = "md5b.pad (length m mod 64) s" and ?b = "le_bytes (bitlen0 m) @ le_bytes (bitlen1 m)"
  have b: "md5_bits0 s = bitlen0 m" "md5_bits1 s = bitlen1 m" and ab: "md5b.absorbed m s"
    using a by (simp_all add: md5_absorbed_def)
  have pb: "md5_bits0 ?p = bitlen0 m" "md5_bits1 ?p = bitlen1 m"
    by (simp_all add: md5b.pad_def Let_def b)
  have "md5_digest (md5_sum_close s) = concat (map le_bytes (md5_comp (md5_buf ?p) (overwrite (md5_data ?p) 56 ?b)))"
    by (simp only: md5_sum_close_pad b used_bitlen Let_def pb)
  also have "\<dots> = md5_ref m"
    using md5b.finish_hash[OF md5b.pad_absorbed[OF ab], of ?b] absorbs_pad(3)[of md5_comp md5_iv m "md5_buf s" "md5_data s"]
      ab md5b.dat_length[OF ab]
    by (simp add: md5_ref_def md5b.absorbed_def)
  finally show ?thesis .
qed

interpretation md5: incremental_sum md5_sum_update md5_sum_close md5_digest md5_absorbed "\<lambda>m d. True" md5_ref
  by unfold_locales (simp_all add: md5_update_absorbed md5_close_digest)

section \<open>SHA-1\<close>

definition sha1_comp :: "u32 list \<Rightarrow> u8 list \<Rightarrow> u32 list" where
  "sha1_comp h b = sha1_fips h (be_words b)"

definition sha1_iv :: "u32 list" where
  "sha1_iv = [0x67452301, 0xEFCDAB89, 0x98BADCFE, 0x10325476, 0xC3D2E1F0]"

definition sha1_ref :: "u8 list \<Rightarrow> u8 list" where
  "sha1_ref m = concat (map PUT_UINT32 (hash_blocks sha1_comp 64 sha1_iv
                  (m @ pad_of m @ PUT_UINT32 (bitlen1 m) @ PUT_UINT32 (bitlen0 m))))"

lemma sha1_block_sel:
  assumes "length (sha1_data s) = 64"
  shows "sha1_buf (sha1_block 64 s) = sha1_comp (sha1_buf s) (sha1_data s)"
    "length (sha1_data (sha1_block 64 s)) = 64"
proof -
  have W: "sha_byte_reverse 64 (le_words (sha1_data s)) = be_words (sha1_data s)"
    using assms by (simp add: sha_byte_reverse_def map_swap_le_words)
  have "length (be_words (sha1_data s)) = 16" using assms by simp
  from sha1_transform_fips[OF this] show "sha1_buf (sha1_block 64 s) = sha1_comp (sha1_buf s) (sha1_data s)"
    "length (sha1_data (sha1_block 64 s)) = 64"
    by (simp_all add: sha1_block_def W sha1_comp_def split_beta)
qed

interpretation sha1b: block_state sha1_comp sha1_iv sha1_buf sha1_data "\<lambda>b s. s\<lparr>sha1_data := b\<rparr>"
    "sha1_block 64" sha1_chunks
  by unfold_locales (simp_all add: sha1_block_sel sha1_chunks.simps[of d s for d s])

definition sha1_absorbed :: "u8 list \<Rightarrow> sha1sum \<Rightarrow> bool" where
  "sha1_absorbed m s \<longleftrightarrow> sha1b.absorbed m s \<and> sha1_bits0 s = bitlen0 m \<and> sha1_bits1 s = bitlen1 m"

declare sha1_chunks.simps [simp del]

lemma sha1_block_bits [simp]:
  "sha1_bits0 (sha1_block k s) = sha1_bits0 s" "sha1_bits1 (sha1_block k s) = sha1_bits1 s"
  by (simp_all add: sha1_block_def split_beta)

lemma sha1_chunks_bits [simp]:
  "sha1_bits0 (sha1_chunks d s) = sha1_bits0 s" "sha1_bits1 (sha1_chunks d s) = sha1_bits1 s"
  by (induction d s rule: sha1_chunks.induct; subst sha1_chunks.simps; simp)+

lemma sha1_update_absorbed:
  assumes a: "sha1_absorbed m s"
  shows "sha1_absorbed (m @ d) (sha1_sum_update s d)"
proof -
  let ?s = "s\<lparr>sha1_bits0 := bitlen0 (m @ d), sha1_bits1 := bitlen1 (m @ d)\<rparr>"
  have b: "sha1_bits0 s = bitlen0 m" "sha1_bits1 s = bitlen1 m" and ab: "sha1b.absorbed m ?s"
    using a by (simp_all add: sha1_absorbed_def sha1b.absorbed_def)
  have "sha1_sum_update s d = sha1b.feed (length m mod 64) d ?s"
    by (simp add: sha1_sum_update_def sha1b.feed_def Let_def b count_bits_len used_bitlen)
  moreover have "sha1_bits0 (sha1b.feed k d ?s) = bitlen0 (m @ d)" "sha1_bits1 (sha1b.feed k d ?s) = bitlen1 (m @ d)" for k
    by (simp_all add: sha1b.feed_def)
  ultimately show ?thesis using sha1b.feed_absorbed[OF ab, of d] by (simp add: sha1_absorbed_def)
qed

text \<open>The last block: fourteen words swapped, the two length words in host order.\<close>

lemma sha1_last_block:
  assumes "length (sha1_data s) = 64"
  shows "sha1_buf (sha1_block 56 (s\<lparr>sha1_data := overwrite (sha1_data s) 56 (le_bytes hi @ le_bytes lo)\<rparr>)) =
    sha1_comp (sha1_buf s) (overwrite (sha1_data s) 56 (PUT_UINT32 hi @ PUT_UINT32 lo))"
proof -
  let ?d = "take 56 (sha1_data s)"
  have o: "overwrite (sha1_data s) 56 (p @ q) = ?d @ p @ q" if "length p = 4" "length q = 4" for p q
    using assms that by (simp add: overwrite_def)
  have w: "sha_byte_reverse 56 (le_words (?d @ le_bytes hi @ le_bytes lo)) = be_words ?d @ [hi, lo]"
    using assms le_words_le_bytes[of lo "[]"]
    by (simp add: le_words_append le_words_le_bytes sha_byte_reverse_def map_swap_le_words)
  have be: "be_words (?d @ PUT_UINT32 hi @ PUT_UINT32 lo) = be_words ?d @ [hi, lo]"
    using assms be_words_PUT[of lo "[]"] by (simp add: be_words_append be_words_PUT)
  show ?thesis
    using sha1_transform_fips(1)[of "be_words ?d @ [hi, lo]" "sha1_buf s"] assms
    by (simp add: sha1_block_def split_beta sha1_comp_def o w be)
qed

lemma sha1_sum_close_pad:
  "sha1_digest (sha1_sum_close s) =
     (let s2 = sha1b.pad (unat (drop_bit 3 (sha1_bits0 s) AND 0x3F)) s;
          s3 = sha1_block 56 (s2\<lparr>sha1_data := overwrite (sha1_data s2) 56
                 (le_bytes (sha1_bits1 s2) @ le_bytes (sha1_bits0 s2))\<rparr>)
      in concat (map le_bytes (sha_byte_reverse 20 (sha1_buf s3))))"
  by (simp add: sha1_sum_close_def sha1b.pad_def Let_def)

lemma length_sha1_fips: "length (sha1_fips h M) = 5"
  by (simp add: sha1_fips_def split: prod.split)

lemma sha1_close_digest:
  assumes a: "sha1_absorbed m s"
  shows "sha1_digest (sha1_sum_close s) = sha1_ref m"
proof -
  let ?p = "sha1b.pad (length m mod 64) s" and ?b = "PUT_UINT32 (bitlen1 m) @ PUT_UINT32 (bitlen0 m)"
  let ?h = "sha1_comp (sha1_buf ?p) (overwrite (sha1_data ?p) 56 ?b)"
  have b: "sha1_bits0 s = bitlen0 m" "sha1_bits1 s = bitlen1 m" and ab: "sha1b.absorbed m s"
    using a by (simp_all add: sha1_absorbed_def)
  note pab = sha1b.pad_absorbed[OF ab]
  have pb: "sha1_bits0 ?p = bitlen0 m" "sha1_bits1 ?p = bitlen1 m"
    by (simp_all add: sha1b.pad_def Let_def b)
  have rev: "concat (map le_bytes (sha_byte_reverse 20 ?h)) = concat (map PUT_UINT32 ?h)"
    by (simp add: sha_byte_reverse_def sha1_comp_def length_sha1_fips le_bytes_swap comp_def)
  have "sha1_digest (sha1_sum_close s) = concat (map PUT_UINT32 ?h)"
    by (simp only: sha1_sum_close_pad b used_bitlen Let_def pb sha1_last_block[OF sha1b.dat_length[OF pab]] rev)
  also have "\<dots> = sha1_ref m"
    using sha1b.finish_hash[OF pab, of ?b] absorbs_pad(3)[of sha1_comp sha1_iv m "sha1_buf s" "sha1_data s"]
      ab sha1b.dat_length[OF ab]
    by (simp add: sha1_ref_def sha1b.absorbed_def)
  finally show ?thesis .
qed

interpretation sha1: incremental_sum sha1_sum_update sha1_sum_close sha1_digest sha1_absorbed "\<lambda>m d. True" sha1_ref
  by unfold_locales (simp_all add: sha1_update_absorbed sha1_close_digest)

section \<open>SHA-256\<close>

definition sha256_iv :: "u32 list" where
  "sha256_iv = [0x6a09e667, 0xbb67ae85, 0x3c6ef372, 0xa54ff53a, 0x510e527f, 0x9b05688c, 0x1f83d9ab, 0x5be0cd19]"

definition sha256_ref :: "u8 list \<Rightarrow> u8 list" where
  "sha256_ref m = concat (map PUT_UINT32 (hash_blocks sha256_transform 64 sha256_iv
                    (m @ pad_of m @ PUT_UINT32 (bitlen1 m) @ PUT_UINT32 (bitlen0 m))))"

definition sha256_in :: "u8 list \<Rightarrow> sha256sum \<Rightarrow> bool" where
  "sha256_in m s \<longleftrightarrow> absorbs sha256_transform 64 sha256_iv m (sha256_buf s) (sha256_data s) \<and>
     sha256_bits0 s = of_nat (length m)"

definition sha256_absorbed :: "u8 list \<Rightarrow> sha256sum \<Rightarrow> bool" where
  "sha256_absorbed m s \<longleftrightarrow> sha256_in m s \<and> sha256_bits1 s = of_nat (length m div 2 ^ 32)"

declare sha256_chunks.simps [simp del]

lemma sha256_chunks_bits [simp]:
  "sha256_bits0 (sha256_chunks k d s) = sha256_bits0 s" "sha256_bits1 (sha256_chunks k d s) = sha256_bits1 s"
  by (induction k d s rule: sha256_chunks.induct; subst sha256_chunks.simps; simp)+

lemma sha256_chunks_absorbs:
  "absorbs sha256_transform 64 sha256_iv m (sha256_buf s) (sha256_data s) \<Longrightarrow> length m mod 64 = 0 \<Longrightarrow>
   absorbs sha256_transform 64 sha256_iv (m @ d) (sha256_buf (sha256_chunks 0 d s)) (sha256_data (sha256_chunks 0 d s))"
proof (induction "length d" arbitrary: d m s rule: less_induct)
  case less
  have dat: "length (sha256_data s) = 64" using less.prems(1) by (simp add: absorbs_def)
  consider "64 \<le> length d" | "length d < 64" "d \<noteq> []" | "d = []" by linarith
  then show ?case
  proof cases
    case 1
    let ?t = "s\<lparr>sha256_buf := sha256_transform (sha256_buf s) (take 64 d)\<rparr>"
    have "absorbs sha256_transform 64 sha256_iv (m @ take 64 d) (sha256_buf ?t) (sha256_data ?t)"
      "length (m @ take 64 d) mod 64 = 0"
      using absorbs_full[OF less.prems(1), of "take 64 d" "sha256_data s"] 1 less.prems(2) dat
      by (simp_all add: overwrite_0_full)
    from less.hyps[OF _ this, of "drop 64 d"] 1 show ?thesis by (simp add: sha256_chunks.simps[of 0 d s])
  next
    case 2
    then show ?thesis using absorbs_keep[OF less.prems(1), of d] less.prems(2)
      by (simp add: sha256_chunks.simps[of 0 d s])
  qed (use less.prems in \<open>simp add: sha256_chunks.simps[of 0 "[]" s]\<close>)
qed

text \<open>Blocks are hashed rightly whatever the high counter does.\<close>

lemma and_all_ones: "(w :: u32) AND 0xFFFFFFFF = w"
proof -
  have "(0xFFFFFFFF :: u32) = -1" by simp
  then show ?thesis by (simp only: and.right_neutral)
qed

lemma sha256_update_in:
  assumes a: "sha256_in m s"
  shows "sha256_in (m @ d) (sha256_sum_update s d)"
proof (cases "d = []")
  case False
  let ?off = "length m mod 64" let ?r = "64 - ?off"
  define high where "high = (if unat (sha256_bits0 s + of_nat (length d)) < length d then sha256_bits1 s + 1 else sha256_bits1 s)"
  define t where "t = s\<lparr>sha256_bits0 := of_nat (length (m @ d)), sha256_bits1 := high\<rparr>"
  have ab: "absorbs sha256_transform 64 sha256_iv m (sha256_buf t) (sha256_data t)"
    and b: "sha256_bits0 s = of_nat (length m)"
    using a by (simp_all add: sha256_in_def t_def)
  have off: "unat (sha256_bits0 s AND 0x3F) = ?off" by (simp add: b used_bytes)
  have dat: "length (sha256_data t) = 64" using ab by (simp add: absorbs_def)
  have u: "sha256_sum_update s d =
    (if 0 < ?off \<and> ?r \<le> length d
     then sha256_chunks 0 (drop ?r d) (t\<lparr>sha256_data := overwrite (sha256_data t) ?off (take ?r d),
            sha256_buf := sha256_transform (sha256_buf t) (overwrite (sha256_data t) ?off (take ?r d))\<rparr>)
     else sha256_chunks ?off d t)"
    unfolding sha256_sum_update_def off Let_def and_all_ones high_def[symmetric]
    using False by (simp add: t_def b)
  have bits: "sha256_bits0 t = of_nat (length (m @ d))" by (simp add: t_def)
  consider (fill) "0 < ?off" "?r \<le> length d" | (short) "0 < ?off" "length d < ?r" | (aligned) "?off = 0"
    by linarith
  then show ?thesis
  proof cases
    case fill
    let ?t = "t\<lparr>sha256_data := overwrite (sha256_data t) ?off (take ?r d),
            sha256_buf := sha256_transform (sha256_buf t) (overwrite (sha256_data t) ?off (take ?r d))\<rparr>"
    have "absorbs sha256_transform 64 sha256_iv (m @ take ?r d) (sha256_buf ?t) (sha256_data ?t)"
      "length (m @ take ?r d) mod 64 = 0"
      using absorbs_full[OF ab, of "take ?r d" "sha256_data ?t"] fill dat by simp_all
    from sha256_chunks_absorbs[OF this, of "drop ?r d"] fill show ?thesis
      by (simp add: u sha256_in_def bits)
  next
    case short
    then have "sha256_sum_update s d = t\<lparr>sha256_data := overwrite (sha256_data t) ?off d\<rparr>"
      using False by (simp add: u sha256_chunks.simps[of ?off d t])
    then show ?thesis using absorbs_keep[OF ab, of d] short by (simp add: sha256_in_def bits)
  next
    case aligned
    then show ?thesis using sha256_chunks_absorbs[OF ab, of d] by (simp add: u sha256_in_def bits)
  qed
qed (use assms in \<open>simp add: sha256_sum_update_def\<close>)

lemma byte_carry:
  assumes "L \<le> n" "0 < n"
  shows "(b + L) div n = b div n + (if (b + L) mod n < L then 1 else 0 :: nat)"
proof (cases "L = n")
  case False
  define r q where "r = b mod n" and "q = b div n"
  have b: "b = q * n + r" "r < n" "L < n" using assms False by (simp_all add: r_def q_def)
  have "(b + L) mod n < L \<longleftrightarrow> n \<le> r + L"
    using carry_iff[OF b(3,2)] mod_mult_self3[of q n "L + r"] by (simp add: b(1) ac_simps)
  moreover have "(b + L) div n = q + (if n \<le> r + L then 1 else 0)"
    using carry_div[OF b(2,3), of q] by (simp add: b(1) add.assoc)
  ultimately show ?thesis by (simp add: q_def)
qed (use assms in \<open>simp add: div_add_self2\<close>)

lemma sha256_update_absorbed:
  assumes a: "sha256_absorbed m s" and L: "length d \<le> 2 ^ 32"
  shows "sha256_absorbed (m @ d) (sha256_sum_update s d)"
proof -
  have i: "sha256_in m s" and b1: "sha256_bits1 s = of_nat (length m div 2 ^ 32)"
    using a by (simp_all add: sha256_absorbed_def)
  have b0: "sha256_bits0 s = of_nat (length m)" using i by (simp add: sha256_in_def)
  have low: "unat ((of_nat (length m) :: u32) + of_nat (length d)) = (length m + length d) mod 2 ^ 32"
    using unat_of_nat[of "length m + length d", where 'a = 32] by simp
  have "sha256_bits1 (sha256_sum_update s d) =
      (if d \<noteq> [] \<and> (length m + length d) mod 2 ^ 32 < length d then sha256_bits1 s + 1 else sha256_bits1 s)"
    by (simp add: sha256_sum_update_def Let_def and_all_ones b0 low)
  also have "\<dots> = of_nat (length m div 2 ^ 32 + (if (length m + length d) mod 2 ^ 32 < length d then 1 else 0))"
    by (auto simp: b1)
  also have "\<dots> = of_nat (length (m @ d) div 2 ^ 32)"
    using byte_carry[OF L, of "length m"] by simp
  finally show ?thesis using sha256_update_in[OF i, of d] by (simp add: sha256_absorbed_def)
qed

lemma sha256_msglen:
  "drop_bit 29 (of_nat n :: u32) OR push_bit 3 (of_nat (n div 2 ^ 32)) = of_nat (8 * n div 2 ^ 32)"
  "push_bit 3 (of_nat n :: u32) = of_nat (8 * n)"
proof -
  have e: "8 * n div 2 ^ 32 = drop_bit 29 n" "n div 2 ^ 32 = drop_bit 32 n"
    by (simp_all add: drop_bit_eq_div)
  show "drop_bit 29 (of_nat n :: u32) OR push_bit 3 (of_nat (n div 2 ^ 32)) = of_nat (8 * n div 2 ^ 32)"
    unfolding e by (rule bit_word_eqI) (auto simp: bit_simps add.commute)
  show "push_bit 3 (of_nat n :: u32) = of_nat (8 * n)" by (simp add: push_bit_eq_mult)
qed

lemma sha256_close_digest:
  assumes a: "sha256_absorbed m s"
  shows "sha256_digest (sha256_sum_close s) = sha256_ref m"
proof -
  let ?b = "PUT_UINT32 (bitlen1 m) @ PUT_UINT32 (bitlen0 m)"
  have i: "sha256_in m s" and b1: "sha256_bits1 s = of_nat (length m div 2 ^ 32)"
    and b0: "sha256_bits0 s = of_nat (length m)"
    using a by (simp_all add: sha256_absorbed_def sha256_in_def)
  have p: "take (if length m mod 64 < 56 then 56 - length m mod 64 else 120 - length m mod 64) sha256_padding = pad_of m"
    by (auto simp: sha256_padding_def pad_of_def take_Cons' min_def)
  have u: "sha256_digest (sha256_sum_close s) =
      concat (map PUT_UINT32 (sha256_buf (sha256_sum_update (sha256_sum_update s (pad_of m)) ?b)))"
    unfolding sha256_sum_close_def Let_def b0 b1 sha256_msglen(1) used_bytes p bitlen0_def bitlen1_def
    unfolding sha256_msglen(2) by simp
  have "sha256_in ((m @ pad_of m) @ ?b) (sha256_sum_update (sha256_sum_update s (pad_of m)) ?b)"
    by (intro sha256_update_in i)
  then show ?thesis unfolding u sha256_ref_def by (simp add: sha256_in_def absorbs_def)
qed

interpretation sha256: incremental_sum sha256_sum_update sha256_sum_close sha256_digest sha256_absorbed
    "\<lambda>m d. length d \<le> 2 ^ 32" sha256_ref
  by unfold_locales (simp_all only: sha256_update_absorbed sha256_close_digest)

section \<open>SHA-512\<close>

definition sha512_iv :: "u64 list" where
  "sha512_iv = [0x6a09e667f3bcc908, 0xbb67ae8584caa73b, 0x3c6ef372fe94f82b, 0xa54ff53a5f1d36f1,
                0x510e527fade682d1, 0x9b05688c2b3e6c1f, 0x1f83d9abfb41bd6b, 0x5be0cd19137e2179]"

definition pad512 :: "u8 list \<Rightarrow> u8 list" where
  "pad512 m = 0x80 # replicate (if length m mod 128 < 112 then 111 - length m mod 128 else 239 - length m mod 128) 0"

definition sha512_ref :: "u8 list \<Rightarrow> u8 list" where
  "sha512_ref m = concat (map PUT_UINT64 (hash_blocks sha512_transform 128 sha512_iv
     (m @ pad512 m @ PUT_UINT64 (of_nat (8 * length m div 2 ^ 64)) @ PUT_UINT64 (of_nat (8 * length m)))))"

definition sha512_in :: "u8 list \<Rightarrow> sha512sum \<Rightarrow> bool" where
  "sha512_in m s \<longleftrightarrow> absorbs sha512_transform 128 sha512_iv m (sha512_H s) (sha512_blk s) \<and>
     sha512_block_len s = length m mod 128"

definition sha512_absorbed :: "u8 list \<Rightarrow> sha512sum \<Rightarrow> bool" where
  "sha512_absorbed m s \<longleftrightarrow> sha512_in m s \<and> 8 * length m < 2 ^ 64 \<and>
     sha512_data_len0 s = of_nat (8 * length m) \<and> sha512_data_len1 s = 0"

declare sha512_chunks.simps [simp del]

lemma sha512_chunks_len [simp]:
  "sha512_data_len0 (sha512_chunks d s) = sha512_data_len0 s" "sha512_data_len1 (sha512_chunks d s) = sha512_data_len1 s"
  by (induction d s rule: sha512_chunks.induct; subst sha512_chunks.simps; simp add: Let_def)+

lemma sha512_chunks_Nil [simp]: "sha512_chunks [] s = s"
  by (simp add: sha512_chunks.simps[of "[]" s])

lemma sha512_chunks_in:
  "sha512_in m s \<Longrightarrow> length m mod 128 = 0 \<Longrightarrow> sha512_in (m @ d) (sha512_chunks d s)"
proof (induction "length d" arbitrary: d m s rule: less_induct)
  case less
  have ab: "absorbs sha512_transform 128 sha512_iv m (sha512_H s) (sha512_blk s)" and bl: "sha512_block_len s = 0"
    using less.prems by (simp_all add: sha512_in_def)
  have dat: "length (sha512_blk s) = 128" using ab by (simp add: absorbs_def)
  consider "128 \<le> length d" | "length d < 128" "d \<noteq> []" | "d = []" by linarith
  then show ?case
  proof cases
    case 1
    let ?b = "overwrite (sha512_blk s) 0 (take 128 d)"
    let ?t = "s\<lparr>sha512_blk := ?b, sha512_H := sha512_transform (sha512_H s) ?b\<rparr>"
    have "absorbs sha512_transform 128 sha512_iv (m @ take 128 d) (sha512_H ?t) (sha512_blk ?t)"
      and z: "length (m @ take 128 d) mod 128 = 0"
      using absorbs_full[OF ab, of "take 128 d" ?b] 1 less.prems(2) dat by simp_all
    then have "sha512_in (m @ take 128 d) ?t" using bl by (simp add: sha512_in_def)
    from less.hyps[OF _ this z, of "drop 128 d"] 1 show ?thesis by (simp add: sha512_chunks.simps[of d s] Let_def)
  next
    case 2
    moreover have "length (m @ d) mod 128 = length d" using 2(1) less.prems(2) mod_add_left_eq[of "length m" 128 "length d"] by simp
    ultimately show ?thesis using absorbs_keep[OF ab, of d] less.prems(2)
      by (simp add: sha512_chunks.simps[of d s] sha512_in_def)
  qed (use less.prems in simp)
qed

lemma sha512_update_in:
  assumes a: "sha512_in m s"
  shows "sha512_in (m @ d) (sha512_sum_update s d)"
proof (cases "d = []")
  case False
  let ?off = "length m mod 128" let ?r = "128 - ?off"
  define low where "low = sha512_data_len0 s + of_nat (length d) * 8"
  define high where "high = (if low < of_nat (length d) then sha512_data_len1 s + 1 else sha512_data_len1 s)"
  define t where "t = s\<lparr>sha512_data_len0 := low, sha512_data_len1 := high\<rparr>"
  have ab: "absorbs sha512_transform 128 sha512_iv m (sha512_H t) (sha512_blk t)"
    and bl: "sha512_block_len t = ?off" and same: "sha512_block_len s = ?off" "sha512_blk s = sha512_blk t"
    using a by (simp_all add: sha512_in_def t_def)
  have dat: "length (sha512_blk t) = 128" using ab by (simp add: absorbs_def)
  let ?t = "\<lambda>k. t\<lparr>sha512_blk := overwrite (sha512_blk t) ?off (take k d), sha512_block_len := ?off + k\<rparr>"
  have u: "sha512_sum_update s d = (let k = min ?r (length d) in
      sha512_chunks (drop k d) (if ?off + k = 128
        then (?t k)\<lparr>sha512_H := sha512_transform (sha512_H t) (overwrite (sha512_blk t) ?off (take k d)), sha512_block_len := 0\<rparr>
        else ?t k))"
    unfolding sha512_sum_update_def using False bl
    by (simp add: Let_def low_def[symmetric] high_def[symmetric] t_def[symmetric] same)
  show ?thesis
  proof (cases "?r \<le> length d")
    case True
    let ?b = "overwrite (sha512_blk t) ?off (take ?r d)"
    let ?s = "(?t ?r)\<lparr>sha512_H := sha512_transform (sha512_H t) ?b, sha512_block_len := 0\<rparr>"
    have "absorbs sha512_transform 128 sha512_iv (m @ take ?r d) (sha512_H ?s) (sha512_blk ?s)"
      and z: "length (m @ take ?r d) mod 128 = 0"
      using absorbs_full[OF ab, of "take ?r d" ?b] True dat by simp_all
    then have "sha512_in (m @ take ?r d) ?s" by (simp add: sha512_in_def)
    from sha512_chunks_in[OF this z, of "drop ?r d"] True show ?thesis by (simp add: u min_absorb1 Let_def)
  next
    case short: False
    then have r: "?off + length d < 128" "?off + length d \<noteq> 128" by linarith+
    then have "length (m @ d) mod 128 = ?off + length d"
      using mod_add_left_eq[of "length m" 128 "length d"] by simp
    then show ?thesis using absorbs_keep[OF ab r(1)] r(2) short by (simp add: u sha512_in_def min_absorb2 Let_def)
  qed
qed (use assms in \<open>simp add: sha512_sum_update_def\<close>)

lemma sha512_update_absorbed:
  assumes a: "sha512_absorbed m s" and L: "8 * (length m + length d) < 2 ^ 64"
  shows "sha512_absorbed (m @ d) (sha512_sum_update s d)"
proof -
  have i: "sha512_in m s" and l0: "sha512_data_len0 s = of_nat (8 * length m)" and l1: "sha512_data_len1 s = 0"
    using a by (simp_all add: sha512_absorbed_def)
  let ?low = "of_nat (8 * length m) + of_nat (length d) * 8 :: u64"
  have low: "?low = of_nat (8 * length (m @ d))" by (simp add: algebra_simps)
  have "unat ?low = 8 * (length m + length d)" "unat (of_nat (length d) :: u64) = length d"
    unfolding low unat_of_nat using L by simp_all
  then have c: "\<not> ?low < of_nat (length d)" by (simp add: word_less_nat_alt)
  have "sha512_data_len0 (sha512_sum_update s d) = of_nat (8 * length (m @ d))"
    "sha512_data_len1 (sha512_sum_update s d) = 0"
    using c by (simp_all add: sha512_sum_update_def Let_def l0 l1 algebra_simps)
  then show ?thesis using sha512_update_in[OF i, of d] L by (simp add: sha512_absorbed_def)
qed

lemma sha512_zeros:
  assumes "u < 128"
  shows "nat (((if 896 - (int u * 8 + 1) < 0 then 896 - (int u * 8 + 1) + 128 * 8 else 896 - (int u * 8 + 1)) - 7) div 8)
    = (if u < 112 then 111 - u else 239 - u)"
proof (cases "u < 112")
  case True
  then have c: "\<not> 896 - (int u * 8 + 1) < 0" and e: "896 - (int u * 8 + 1) - 7 = int (111 - u) * 8" by linarith+
  show ?thesis unfolding if_not_P[OF c] e using True by simp
next
  case False
  with assms have c: "896 - (int u * 8 + 1) < 0" and e: "896 - (int u * 8 + 1) + 128 * 8 - 7 = int (239 - u) * 8" by linarith+
  show ?thesis unfolding if_P[OF c] e using False by simp
qed

lemma sha512_close_digest:
  assumes a: "sha512_absorbed m s"
  shows "sha512_digest (sha512_sum_close s) = sha512_ref m"
proof -
  let ?p = "pad512 m @ PUT_UINT64 (of_nat (8 * length m div 2 ^ 64)) @ PUT_UINT64 (of_nat (8 * length m))"
  have i: "sha512_in m s" and l0: "sha512_data_len0 s = of_nat (8 * length m)" and l1: "sha512_data_len1 s = 0"
    and L: "8 * length m < 2 ^ 64" and bl: "sha512_block_len s = length m mod 128"
    using a by (simp_all add: sha512_absorbed_def sha512_in_def)
  have h: "8 * length m div 2 ^ 64 = 0" using L by (rule div_less)
  have "length m mod 128 < 128" by simp
  note z = sha512_zeros[OF this]
  have u: "sha512_digest (sha512_sum_close s) = concat (map PUT_UINT64 (sha512_H (sha512_sum_update s ?p)))"
    unfolding sha512_sum_close_def Let_def l0 l1 bl z pad512_def h by simp
  show ?thesis using sha512_update_in[OF i, of ?p] unfolding u sha512_ref_def by (simp add: sha512_in_def absorbs_def)
qed

interpretation sha512: incremental_sum sha512_sum_update sha512_sum_close sha512_digest sha512_absorbed
    "\<lambda>m d. 8 * (length m + length d) < 2 ^ 64" sha512_ref
  by unfold_locales (simp_all only: sha512_update_absorbed sha512_close_digest)

section \<open>Initial states\<close>

lemma init_absorbed:
  "length (md5_data a) = 64 \<Longrightarrow> md5_absorbed [] (md5_sum_init a)"
  "length (sha1_data b) = 64 \<Longrightarrow> sha1_absorbed [] (sha1_sum_init b)"
  "length (sha256_data c) = 64 \<Longrightarrow> sha256_absorbed [] (sha256_sum_init c)"
  "length (sha512_blk d) = 128 \<Longrightarrow> sha512_absorbed [] (sha512_sum_init d)"
  by (simp_all add: md5_absorbed_def md5b.absorbed_def md5_sum_init_def md5_iv_def[symmetric]
      sha1_absorbed_def sha1b.absorbed_def sha1_sum_init_def sha1_iv_def[symmetric]
      sha256_absorbed_def sha256_in_def sha256_sum_init_def sha256_iv_def[symmetric]
      sha512_absorbed_def sha512_in_def sha512_sum_init_def sha512_iv_def[symmetric]
      absorbs_start bitlen0_def bitlen1_def)

section \<open>Buffers keep their length\<close>

lemma low_six: "unat (w AND 0x3F :: u32) < 64"
proof -
  have "w AND 0x3F \<le> 0x3F" by (rule word_and_le1)
  then show ?thesis unfolding word_le_nat_alt by simp
qed

lemma update_length:
  "length (md5_data a) = 64 \<Longrightarrow> length (md5_data (md5_sum_update a d)) = 64"
  "length (sha1_data b) = 64 \<Longrightarrow> length (sha1_data (sha1_sum_update b d)) = 64"
proof -
  let ?u = "\<lambda>w. unat (drop_bit 3 w AND 0x3F :: u32)"
  have "md5_sum_update a d = (let (low, high) = count_bits (length d) (md5_bits0 a) (md5_bits1 a)
      in md5b.feed (?u (md5_bits0 a)) d (a\<lparr>md5_bits0 := low, md5_bits1 := high\<rparr>))"
    by (simp add: md5_sum_update_def md5b.feed_def Let_def split: prod.split)
  then show "length (md5_data a) = 64 \<Longrightarrow> length (md5_data (md5_sum_update a d)) = 64"
    by (simp add: md5b.feed_length low_six split: prod.split)
  have "sha1_sum_update b d = (let (low, high) = count_bits (length d) (sha1_bits0 b) (sha1_bits1 b)
      in sha1b.feed (?u (sha1_bits0 b)) d (b\<lparr>sha1_bits0 := low, sha1_bits1 := high\<rparr>))"
    by (simp add: sha1_sum_update_def sha1b.feed_def Let_def split: prod.split)
  then show "length (sha1_data b) = 64 \<Longrightarrow> length (sha1_data (sha1_sum_update b d)) = 64"
    by (simp add: sha1b.feed_length low_six split: prod.split)
qed

lemma close_length:
  "length (md5_data (md5_sum_close a)) = 64" "length (sha1_data (sha1_sum_close b)) = 64"
  by (simp_all add: md5_sum_close_def sha1_sum_close_def Let_def)

lemma sha256_chunks_length:
  "length (sha256_data s) = 64 \<Longrightarrow> k = 0 \<or> k + length d \<le> 64 \<Longrightarrow> length (sha256_data (sha256_chunks k d s)) = 64"
proof (induction "length d" arbitrary: d k s rule: less_induct)
  case less
  show ?case
  proof (cases "64 \<le> length d")
    case True
    then have "k = 0" using less.prems(2) by auto
    moreover have "length (drop 64 d) < length d" using True by simp
    ultimately show ?thesis using less.hyps[of "drop 64 d" _ 0] less.prems(1) True
      by (simp add: sha256_chunks.simps[of 0 d s])
  next
    case False
    then show ?thesis using less.prems by (auto simp: sha256_chunks.simps[of k d s])
  qed
qed

lemma sha256_update_length:
  "length (sha256_data s) = 64 \<Longrightarrow> length (sha256_data (sha256_sum_update s d)) = 64"
  using low_six[of "sha256_bits0 s"]
  by (auto simp: sha256_sum_update_def Let_def intro!: sha256_chunks_length)

lemma sha256_close_length:
  "length (sha256_data s) = 64 \<Longrightarrow> length (sha256_data (sha256_sum_close s)) = 64"
  by (simp add: sha256_sum_close_def Let_def sha256_update_length)

definition sha512_buffer :: "sha512sum \<Rightarrow> bool" where
  "sha512_buffer s \<longleftrightarrow> length (sha512_blk s) = 128 \<and> sha512_block_len s < 128"

lemma sha512_chunks_buffer: "sha512_buffer s \<Longrightarrow> sha512_buffer (sha512_chunks d s)"
proof (induction "length d" arbitrary: d s rule: less_induct)
  case less
  then show ?case
    by (cases "128 \<le> length d") (auto simp: sha512_chunks.simps[of d s] sha512_buffer_def Let_def)
qed

lemma sha512_update_buffer:
  assumes "sha512_buffer s"
  shows "sha512_buffer (sha512_sum_update s d)"
  using assms
  by (auto simp: sha512_sum_update_def Let_def sha512_buffer_def[of s] min_def
      intro!: sha512_chunks_buffer) (auto simp: sha512_buffer_def)

lemma sha512_close_buffer: "sha512_buffer s \<Longrightarrow> sha512_buffer (sha512_sum_close s)"
  using sha512_update_buffer by (simp add: sha512_sum_close_def Let_def sha512_buffer_def)

end
