(* ===== verification/Glib_Checksum_Props.thy ===== *)
theory Glib_Checksum_Props
  imports Glib_Checksum_Laws
begin

text \<open>
  The public checksum functions: the invariant of a \<open>GChecksum\<close>, that no operation reaches the
  assertion of the code, and that the digest is the reference digest of the bytes fed to it.
\<close>

unbundle bit_operations_syntax

fun checksum_ref :: "GChecksumType \<Rightarrow> u8 list \<Rightarrow> u8 list" where
  "checksum_ref G_CHECKSUM_MD5 m = md5_ref m"
| "checksum_ref G_CHECKSUM_SHA1 m = sha1_ref m"
| "checksum_ref G_CHECKSUM_SHA256 m = sha256_ref m"
| "checksum_ref G_CHECKSUM_SHA512 m = sha512_ref m"
| "checksum_ref (G_CHECKSUM_OTHER n) m = []"

fun sum_in :: "GChecksumType \<Rightarrow> u8 list \<Rightarrow> checksum_sum \<Rightarrow> bool" where
  "sum_in G_CHECKSUM_MD5 m (Md5 s) = md5_absorbed m s"
| "sum_in G_CHECKSUM_SHA1 m (Sha1 s) = sha1_absorbed m s"
| "sum_in G_CHECKSUM_SHA256 m (Sha256 s) = sha256_absorbed m s"
| "sum_in G_CHECKSUM_SHA512 m (Sha512 s) = sha512_absorbed m s"
| "sum_in _ m _ = False"

text \<open>The counters are exact for a piece: no limit for MD5 and SHA-1.\<close>

fun piece_fits :: "GChecksumType \<Rightarrow> nat \<Rightarrow> nat \<Rightarrow> bool" where
  "piece_fits G_CHECKSUM_SHA256 before len = (len \<le> 2 ^ 32)"
| "piece_fits G_CHECKSUM_SHA512 before len = (8 * (before + len) < 2 ^ 64)"
| "piece_fits _ before len = True"

fun pieces_fit :: "GChecksumType \<Rightarrow> nat \<Rightarrow> nat list \<Rightarrow> bool" where
  "pieces_fit t before [] = True"
| "pieces_fit t before (n # ns) = (piece_fits t before n \<and> pieces_fit t (before + n) ns)"

fun g_checksum_feed :: "GChecksum \<Rightarrow> u8 list list \<Rightarrow> GChecksum option" where
  "g_checksum_feed c [] = Some c"
| "g_checksum_feed c (d # ds) =
     (case g_checksum_update c d (int (length d)) of None \<Rightarrow> None | Some c' \<Rightarrow> g_checksum_feed c' ds)"

lemma sum_update_in:
  assumes "sum_in t m s" "piece_fits t (length m) (length d)"
  shows "\<exists>s'. sum_update t s d = Some s' \<and> sum_in t (m @ d) s'"
  using assms
  by (cases t; cases s)
     (simp_all add: md5_update_absorbed sha1_update_absorbed sha256_update_absorbed sha512_update_absorbed
        del: power_numeral)

lemma sum_close_in:
  assumes "sum_in t m s"
  shows "\<exists>s'. sum_close t s = Some (s', digest_to_string (checksum_ref t m)) \<and> sum_digest s' = checksum_ref t m"
  using assms
  by (cases t; cases s)
     (simp_all add: Let_def md5_sum_to_string_def sha1_sum_to_string_def sha256_sum_to_string_def
        sha512_sum_to_string_def md5_close_digest sha1_close_digest sha256_close_digest sha512_close_digest)

lemma new_in:
  assumes "IS_VALID_TYPE t"
  shows "\<exists>c. g_checksum_new t = Some c \<and> ck_type c = t \<and> digest_str c = None \<and> sum_in t [] (sum_of c)"
  using assms
  by (cases t)
     (simp_all add: g_checksum_new_def g_checksum_reset_def init_absorbed)

lemma feed_in:
  "digest_str c = None \<Longrightarrow> sum_in (ck_type c) m (sum_of c) \<Longrightarrow>
   pieces_fit (ck_type c) (length m) (map length ds) \<Longrightarrow>
   \<exists>c'. g_checksum_feed c ds = Some c' \<and> ck_type c' = ck_type c \<and> digest_str c' = None \<and>
     sum_in (ck_type c) (m @ concat ds) (sum_of c')"
proof (induction ds arbitrary: c m)
  case (Cons d ds)
  from Cons.prems sum_update_in[of "ck_type c" m "sum_of c" d]
  obtain s' where s: "sum_update (ck_type c) (sum_of c) d = Some s'" "sum_in (ck_type c) (m @ d) s'" by auto
  let ?c = "c\<lparr>sum_of := s'\<rparr>"
  have "g_checksum_update c d (int (length d)) = Some ?c"
    using Cons.prems(1) s by (simp add: g_checksum_update_def data_of_def)
  then show ?case using Cons.IH[of ?c "m @ d"] Cons.prems s by simp
qed simp

lemma get_string_in:
  assumes "digest_str c = None" "sum_in (ck_type c) m (sum_of c)"
  shows "map_option fst (g_checksum_get_string c) = Some (digest_to_string (checksum_ref (ck_type c) m))"
  using sum_close_in[OF assms(2)] assms(1) by (auto simp: g_checksum_get_string_def)

fun sum_ok :: "GChecksumType \<Rightarrow> checksum_sum \<Rightarrow> bool" where
  "sum_ok G_CHECKSUM_MD5 (Md5 s) = (length (md5_data s) = 64)"
| "sum_ok G_CHECKSUM_SHA1 (Sha1 s) = (length (sha1_data s) = 64)"
| "sum_ok G_CHECKSUM_SHA256 (Sha256 s) = (length (sha256_data s) = 64)"
| "sum_ok G_CHECKSUM_SHA512 (Sha512 s) = sha512_buffer s"
| "sum_ok _ _ = False"

text \<open>
  The invariant: the union holds the sum of the type, with buffers of the right size, and a stored
  string is the text of the stored digest.
\<close>

definition checksum_ok :: "GChecksum \<Rightarrow> bool" where
  "checksum_ok c \<longleftrightarrow> sum_ok (ck_type c) (sum_of c) \<and>
     (case digest_str c of None \<Rightarrow> True | Some str \<Rightarrow> str = digest_to_string (sum_digest (sum_of c)))"

lemma sum_init_ok:
  "sum_ok t s \<Longrightarrow> \<exists>s'. sum_init t s = Some s' \<and> sum_ok t s' \<and> sum_in t [] s'"
  by (cases t; cases s)
     (simp_all add: init_absorbed sha512_buffer_def, simp_all add: md5_sum_init_def sha1_sum_init_def
        sha256_sum_init_def sha512_sum_init_def)

lemma sum_update_ok: "sum_ok t s \<Longrightarrow> \<exists>s'. sum_update t s d = Some s' \<and> sum_ok t s'"
  by (cases t; cases s) (simp_all add: update_length sha256_update_length sha512_update_buffer)

lemma sum_close_ok:
  "sum_ok t s \<Longrightarrow> \<exists>s'. sum_close t s = Some (s', digest_to_string (sum_digest s')) \<and> sum_ok t s'"
  by (cases t; cases s)
     (simp_all add: Let_def md5_sum_to_string_def sha1_sum_to_string_def sha256_sum_to_string_def
        sha512_sum_to_string_def close_length sha256_close_length sha512_close_buffer)

lemma reset_ok:
  "checksum_ok c \<Longrightarrow> \<exists>c'. g_checksum_reset c = Some c' \<and> checksum_ok c' \<and> ck_type c' = ck_type c \<and>
     digest_str c' = None \<and> sum_in (ck_type c) [] (sum_of c')"
  using sum_init_ok[of "ck_type c" "sum_of c"] by (auto simp: checksum_ok_def g_checksum_reset_def)

lemma update_ok: "checksum_ok c \<Longrightarrow> \<exists>c'. g_checksum_update c d n = Some c' \<and> checksum_ok c'"
  using sum_update_ok[of "ck_type c" "sum_of c" "data_of d n"]
  by (cases "digest_str c") (auto simp: checksum_ok_def g_checksum_update_def)

lemma get_string_ok:
  "checksum_ok c \<Longrightarrow> \<exists>str c'. g_checksum_get_string c = Some (str, c') \<and> checksum_ok c' \<and> digest_str c' = Some str"
  using sum_close_ok[of "ck_type c" "sum_of c"]
  by (cases "digest_str c") (auto simp: checksum_ok_def g_checksum_get_string_def)

lemma get_digest_ok:
  assumes "checksum_ok c"
  shows "\<exists>r. g_checksum_get_digest c n = Some r \<and> (case r of Inl u \<Rightarrow> True | Inr (bs, len, c') \<Rightarrow> checksum_ok c')"
  using get_string_ok[OF assms] by (auto simp: g_checksum_get_digest_def Let_def)

lemma new_ok: "IS_VALID_TYPE t \<Longrightarrow> \<exists>c. g_checksum_new t = Some c \<and> checksum_ok c"
  using reset_ok[of "\<lparr>ck_type = t, digest_str = None, sum_of = zero_sum t\<rparr>"]
  by (cases t) (auto simp: g_checksum_new_def checksum_ok_def sha512_buffer_def)

section \<open>Properties\<close>

text \<open>
  C16: A checksum of a valid type that is fed a message in any pieces yields the hexadecimal digest
  of the whole message: the four algorithms over the padded message, block by block. The bounds on
  the pieces are those of the counters, 2^32 bytes in a piece for SHA-256 and 2^61 bytes in all for
  SHA-512.
\<close>
theorem checksum_pieces:
  assumes "IS_VALID_TYPE t" "pieces_fit t 0 (map length ds)"
  shows "\<exists>c c'. g_checksum_new t = Some c \<and> g_checksum_feed c ds = Some c' \<and>
    map_option fst (g_checksum_get_string c') = Some (digest_to_string (checksum_ref t (concat ds)))"
proof -
  obtain c where c: "g_checksum_new t = Some c" "ck_type c = t" "digest_str c = None" "sum_in t [] (sum_of c)"
    using new_in[OF assms(1)] by blast
  then obtain c' where "g_checksum_feed c ds = Some c'" "ck_type c' = t" "digest_str c' = None"
      "sum_in t (concat ds) (sum_of c')"
    using feed_in[of c "[]" ds] assms(2) by auto
  with c get_string_in[of c' "concat ds"] show ?thesis by auto
qed

theorem checksum_pieces_witness:
  "\<exists>c c'. g_checksum_new G_CHECKSUM_SHA256 = Some c \<and> g_checksum_feed c [[1, 2], [], [3]] = Some c' \<and>
    map_option fst (g_checksum_get_string c') = Some (digest_to_string (sha256_ref [1, 2, 3]))"
  using checksum_pieces[of G_CHECKSUM_SHA256 "[[1, 2], [], [3]]"] by simp

text \<open>
  C19: No operation on a checksum that has been made for a valid type reaches the assertion of the
  code: each returns and keeps the invariant that the union holds the sum of the type, with a block
  buffer of the right size, and that a stored string is the text of the stored digest.
\<close>
theorem checksum_never_asserts:
  assumes "checksum_ok c"
  shows "(\<exists>c'. g_checksum_reset c = Some c' \<and> checksum_ok c' \<and> digest_str c' = None) \<and>
    (\<exists>c'. g_checksum_update c dat len = Some c' \<and> checksum_ok c') \<and>
    (\<exists>str c'. g_checksum_get_string c = Some (str, c') \<and> checksum_ok c' \<and> digest_str c' = Some str) \<and>
    (\<exists>r. g_checksum_get_digest c n = Some r \<and> (case r of Inl u \<Rightarrow> True | Inr (bs, k, c') \<Rightarrow> checksum_ok c'))"
  using reset_ok[OF assms] update_ok[OF assms] get_string_ok[OF assms] get_digest_ok[OF assms] by blast

theorem checksum_never_asserts_witness:
  "\<exists>c. g_checksum_new G_CHECKSUM_MD5 = Some c \<and> (\<exists>c'. g_checksum_update c [7] (-1) = Some c' \<and> checksum_ok c')"
  using new_ok[of G_CHECKSUM_MD5] checksum_never_asserts[of _ "[7]" "-1" 0] by fastforce

text \<open>
  C18: A closed checksum stays as it is: a further update is ignored, the string is returned again, and
  the digest bytes are those of the string. After a reset it computes digests as a new one does.
\<close>
theorem checksum_closed:
  assumes "checksum_ok c" "g_checksum_get_string c = Some (str, c1)"
    and "pieces_fit (ck_type c) 0 (map length ds)"
  shows "g_checksum_update c1 dat len = Some c1 \<and> g_checksum_get_string c1 = Some (str, c1) \<and>
    (case g_checksum_get_digest c1 64 of
       Some (Inr (bs, k, c2)) \<Rightarrow> digest_to_string bs = str \<and> k = g_checksum_type_get_length (ck_type c) \<and> c2 = c1
     | _ \<Rightarrow> False) \<and>
    (\<exists>c2 c3. g_checksum_reset c1 = Some c2 \<and> g_checksum_feed c2 ds = Some c3 \<and>
       map_option fst (g_checksum_get_string c3) = Some (digest_to_string (checksum_ref (ck_type c) (concat ds))))"
proof -
  have c1: "digest_str c1 = Some str" "checksum_ok c1"
    using get_string_ok[OF assms(1)] assms(2) by auto
  have ty: "ck_type c1 = ck_type c"
    using assms(2) by (auto simp: g_checksum_get_string_def split: option.splits)
  have str: "digest_to_string (sum_digest (sum_of c1)) = str" and valid: "sum_ok (ck_type c) (sum_of c1)"
    using c1 ty by (auto simp: checksum_ok_def)
  have again: "g_checksum_get_string c1 = Some (str, c1)" using c1 by (simp add: g_checksum_get_string_def)
  have len: "g_checksum_type_get_length (ck_type c) \<in> {16, 20, 32, 64}" using valid by (cases "ck_type c") auto
  then have dg: "g_checksum_get_digest c1 64 =
      Some (Inr (sum_digest (sum_of c1), g_checksum_type_get_length (ck_type c), c1))"
    by (auto simp: g_checksum_get_digest_def Let_def again ty)
  obtain c2 where c2: "g_checksum_reset c1 = Some c2" "ck_type c2 = ck_type c" "digest_str c2 = None"
      "sum_in (ck_type c) [] (sum_of c2)"
    using reset_ok[OF c1(2)] ty by auto
  then obtain c3 where c3: "g_checksum_feed c2 ds = Some c3" "ck_type c3 = ck_type c" "digest_str c3 = None"
      "sum_in (ck_type c) (concat ds) (sum_of c3)"
    using feed_in[of c2 "[]" ds] assms(3) by auto
  show ?thesis
    using c1 again dg str c2(1) c3(1) get_string_in[of c3 "concat ds"] c3 by (simp add: g_checksum_update_def)
qed

theorem checksum_closed_witness:
  "\<exists>c str c1. g_checksum_new G_CHECKSUM_SHA1 = Some c \<and> g_checksum_get_string c = Some (str, c1) \<and>
    g_checksum_update c1 [1, 2, 3] 3 = Some c1"
proof -
  obtain c where c: "g_checksum_new G_CHECKSUM_SHA1 = Some c" "checksum_ok c"
    using new_ok[of G_CHECKSUM_SHA1] by auto
  from get_string_ok[OF c(2)] obtain str c1 where s: "g_checksum_get_string c = Some (str, c1)" by blast
  from checksum_closed[OF c(2) s, of "[]" "[1, 2, 3]" 3] c s show ?thesis by auto
qed

text \<open>
  C17: The SHA-1 compression function, with its circular buffer of sixteen words and its shortened
  round functions, is the function of the standard: eighty rounds over the eighty words of the
  message schedule, with the functions Ch, Parity and Maj.
\<close>
theorem sha1_transform_standard:
  assumes "length inw = 16"
  shows "fst (sha1_transform buf inw) = sha1_fips buf inw"
  using assms by (rule sha1_transform_fips(1))

theorem sha1_transform_standard_witness:
  "fst (sha1_transform [1, 2, 3, 4, 5] (replicate 16 7)) = sha1_fips [1, 2, 3, 4, 5] (replicate 16 7)"
  by (rule sha1_transform_standard) simp

text \<open>
  C20: A single update of SHA-256 with 2^33 bytes adds one, not two, to the high word of the byte
  count, so that the length that goes into the padding is wrong.
\<close>
theorem sha256_long_update:
  assumes "length d = 2 ^ 33" "sha256_absorbed [] s"
  shows "sha256_bits1 (sha256_sum_update s d) = 1 \<and> (of_nat (length d div 2 ^ 32) :: u32) = 2"
proof -
  have s: "sha256_bits0 s = 0" "sha256_bits1 s = 0"
    using assms(2) by (simp_all add: sha256_absorbed_def sha256_in_def)
  have d: "d \<noteq> []" using assms(1) by auto
  have "(of_nat (length d) :: u32) = 0" unfolding assms(1) by simp
  then show ?thesis using d s by (simp add: sha256_sum_update_def Let_def assms(1))
qed

theorem sha256_long_update_witness:
  "\<exists>s. sha256_absorbed [] s \<and> sha256_bits1 (sha256_sum_update s (replicate (2 ^ 33) 0)) = 1"
proof -
  let ?s = "sha256_sum_init \<lparr>sha256_buf = [], sha256_bits0 = 0, sha256_bits1 = 0,
      sha256_data = replicate 64 0, sha256_digest = []\<rparr>"
  have s: "sha256_absorbed [] ?s" by (rule init_absorbed) simp
  have "length (replicate (2 ^ 33) (0 :: u8)) = 2 ^ 33" by (rule length_replicate)
  from sha256_long_update[OF this s] s show ?thesis by blast
qed

end
