(* ===== verification/Glib_Date.thy ===== *)
theory Glib_Date
  imports OSC_Prelude
begin

text \<open>
  Calendar dates (\<open>gdate.c\<close>). A \<open>GDate\<close> holds a day number, a day-month-year triple or both, with a
  flag for each; the operations fill in the missing one on demand, so that also the readers return
  the structure they leave. Fields and locals are integers, reduced to their width in bits wherever
  the code stores or computes them. A failed \<open>g_return_if_fail\<close> returns the state reached so far.
\<close>

section \<open>Widths\<close>

definition w8 :: "int \<Rightarrow> int" where "w8 x = x mod 2 ^ 8"
definition w16 :: "int \<Rightarrow> int" where "w16 x = x mod 2 ^ 16"
definition w32 :: "int \<Rightarrow> int" where "w32 x = x mod 2 ^ 32"
definition s32 :: "int \<Rightarrow> int" where "s32 x = (x + 2 ^ 31) mod 2 ^ 32 - 2 ^ 31"

section \<open>The structure\<close>

record GDate =
  jdays :: int
  has_julian :: bool
  has_dmy :: bool
  d_day :: int
  d_month :: int
  d_year :: int

text \<open>The assignments of the three fields, bit-fields of 6, 4 and 16 bits.\<close>

definition store_dmy :: "int \<Rightarrow> int \<Rightarrow> int \<Rightarrow> GDate \<Rightarrow> GDate" where
  "store_dmy dd m y d = d\<lparr>d_month := m mod 2 ^ 4, d_day := dd mod 2 ^ 6, d_year := y mod 2 ^ 16\<rparr>"

definition g_date_clear :: GDate where
  "g_date_clear = \<lparr>jdays = 0, has_julian = False, has_dmy = False, d_day = 0, d_month = 0, d_year = 0\<rparr>"

definition g_date_new :: GDate where
  "g_date_new = g_date_clear"

definition g_date_valid :: "GDate \<Rightarrow> bool" where
  "g_date_valid d \<longleftrightarrow> has_julian d \<or> has_dmy d"

definition days_in_months :: "int list list" where
  "days_in_months =
     [[0, 31, 28, 31, 30, 31, 30, 31, 31, 30, 31, 30, 31],
      [0, 31, 29, 31, 30, 31, 30, 31, 31, 30, 31, 30, 31]]"

definition days_in_year :: "int list list" where
  "days_in_year =
     [[0, 0, 31, 59, 90, 120, 151, 181, 212, 243, 273, 304, 334, 365],
      [0, 0, 31, 60, 91, 121, 152, 182, 213, 244, 274, 305, 335, 366]]"

definition g_date_valid_month :: "int \<Rightarrow> bool" where
  "g_date_valid_month m \<longleftrightarrow> 0 < m \<and> m < 13"

definition g_date_valid_year :: "int \<Rightarrow> bool" where
  "g_date_valid_year y \<longleftrightarrow> 0 < y"

definition g_date_valid_day :: "int \<Rightarrow> bool" where
  "g_date_valid_day dd \<longleftrightarrow> 0 < dd \<and> dd < 32"

definition g_date_valid_weekday :: "int \<Rightarrow> bool" where
  "g_date_valid_weekday w \<longleftrightarrow> 0 < w \<and> w < 8"

definition g_date_valid_julian :: "int \<Rightarrow> bool" where
  "g_date_valid_julian j \<longleftrightarrow> 0 < j"

definition g_date_is_leap_year :: "int \<Rightarrow> bool" where
  "g_date_is_leap_year y \<longleftrightarrow>
     g_date_valid_year y \<and> ((y mod 4 = 0 \<and> y mod 100 \<noteq> 0) \<or> y mod 400 = 0)"

definition leap_idx :: "int \<Rightarrow> nat" where
  "leap_idx y = (if g_date_is_leap_year y then 1 else 0)"

definition g_date_valid_dmy :: "int \<Rightarrow> int \<Rightarrow> int \<Rightarrow> bool" where
  "g_date_valid_dmy dd m y \<longleftrightarrow> 0 < m \<and> m < 13 \<and> 0 < dd \<and> 0 < y \<and>
     dd \<le> days_in_months ! leap_idx y ! nat m"

definition g_date_get_days_in_month :: "int \<Rightarrow> int \<Rightarrow> int" where
  "g_date_get_days_in_month m y =
     (if \<not> g_date_valid_year y \<or> \<not> g_date_valid_month m then 0 else days_in_months ! leap_idx y ! nat m)"

definition g_date_new_dmy :: "int \<Rightarrow> int \<Rightarrow> int \<Rightarrow> GDate option" where
  "g_date_new_dmy dd m y =
     (if \<not> g_date_valid_dmy dd m y then None
      else Some (store_dmy dd m y \<lparr>jdays = 0, has_julian = False, has_dmy = True, d_day = 0, d_month = 0, d_year = 0\<rparr>))"

definition g_date_new_julian :: "int \<Rightarrow> GDate option" where
  "g_date_new_julian j =
     (if \<not> g_date_valid_julian j then None
      else Some \<lparr>jdays = j, has_julian = True, has_dmy = False, d_day = 0, d_month = 0, d_year = 0\<rparr>)"

section \<open>Conversions\<close>

definition g_date_update_julian :: "GDate \<Rightarrow> GDate" where
  "g_date_update_julian d =
     (if \<not> has_dmy d \<or> has_julian d \<or> \<not> g_date_valid_dmy (d_day d) (d_month d) (d_year d) then d
      else let yr = w16 (d_year d - 1);
               j = w32 (yr * 365);
               yr = yr div 4;
               j = w32 (j + yr);
               yr = yr div 25;
               j = w32 (j - yr);
               j = w32 (j + yr div 4);
               j = w32 (j + (days_in_year ! leap_idx (d_year d) ! nat (d_month d) + d_day d))
           in if \<not> g_date_valid_julian j then d\<lparr>jdays := j\<rparr> else d\<lparr>jdays := j, has_julian := True\<rparr>)"

text \<open>The day, month and year of a day number, on 32 bits, cut down to the types of the three locals.\<close>

definition dmy_of_julian :: "int \<Rightarrow> int \<times> int \<times> int" where
  "dmy_of_julian j =
     (let A = w32 (w32 (j + 1721425) + 32045);
          B = w32 (w32 (4 * w32 (A + 36524)) div 146097 - 1);
          C = w32 (A - w32 (146097 * B) div 4);
          D = w32 (w32 (4 * w32 (C + 365)) div 1461 - 1);
          E = w32 (C - w32 (1461 * D) div 4);
          M = w32 (w32 (5 * w32 (E - 1)) + 2) div 153
      in (w8 (E - w32 (153 * M + 2) div 5),
          w32 (M + 3 - 12 * (M div 10)),
          w16 (w32 (100 * B) + D - 4800 + M div 10)))"

definition g_date_update_dmy :: "GDate \<Rightarrow> GDate" where
  "g_date_update_dmy d =
     (if \<not> has_julian d \<or> has_dmy d \<or> \<not> g_date_valid_julian (jdays d) then d
      else let (dd, m, y) = dmy_of_julian (jdays d) in (store_dmy dd m y d)\<lparr>has_dmy := True\<rparr>)"

definition need_julian :: "GDate \<Rightarrow> GDate" where
  "need_julian d = (if \<not> has_julian d then g_date_update_julian d else d)"

definition need_dmy :: "GDate \<Rightarrow> GDate" where
  "need_dmy d = (if \<not> has_dmy d then g_date_update_dmy d else d)"

text \<open>A reader: check, fill in, check again, read.\<close>

definition read_julian :: "(GDate \<Rightarrow> 'a) \<Rightarrow> 'a \<Rightarrow> GDate \<Rightarrow> 'a \<times> GDate" where
  "read_julian f bad d =
     (if \<not> g_date_valid d then (bad, d)
      else let d = need_julian d in if \<not> has_julian d then (bad, d) else (f d, d))"

definition read_dmy :: "(GDate \<Rightarrow> 'a) \<Rightarrow> 'a \<Rightarrow> GDate \<Rightarrow> 'a \<times> GDate" where
  "read_dmy f bad d =
     (if \<not> g_date_valid d then (bad, d)
      else let d = need_dmy d in if \<not> has_dmy d then (bad, d) else (f d, d))"

definition g_date_get_weekday :: "GDate \<Rightarrow> int \<times> GDate" where
  "g_date_get_weekday = read_julian (\<lambda>d. w32 (jdays d - 1) mod 7 + 1) 0"

definition g_date_get_month :: "GDate \<Rightarrow> int \<times> GDate" where
  "g_date_get_month = read_dmy d_month 0"

definition g_date_get_year :: "GDate \<Rightarrow> int \<times> GDate" where
  "g_date_get_year = read_dmy d_year 0"

definition g_date_get_day :: "GDate \<Rightarrow> int \<times> GDate" where
  "g_date_get_day = read_dmy d_day 0"

definition g_date_get_julian :: "GDate \<Rightarrow> int \<times> GDate" where
  "g_date_get_julian = read_julian jdays 0"

definition day_of_year :: "GDate \<Rightarrow> int" where
  "day_of_year d = days_in_year ! leap_idx (d_year d) ! nat (d_month d) + d_day d"

definition g_date_get_day_of_year :: "GDate \<Rightarrow> int \<times> GDate" where
  "g_date_get_day_of_year = read_dmy day_of_year 0"

section \<open>Setting\<close>

definition g_date_set_dmy :: "int \<Rightarrow> int \<Rightarrow> int \<Rightarrow> GDate \<Rightarrow> GDate" where
  "g_date_set_dmy dd m y d =
     (if \<not> g_date_valid_dmy dd m y then d
      else (store_dmy dd m y d)\<lparr>has_julian := False, has_dmy := True\<rparr>)"

definition g_date_set_julian :: "int \<Rightarrow> GDate \<Rightarrow> GDate" where
  "g_date_set_julian j d =
     (if \<not> g_date_valid_julian j then d else d\<lparr>jdays := j, has_julian := True, has_dmy := False\<rparr>)"

text \<open>What the three setters of one field share: convert, drop the day number, store, check.\<close>

definition set_field :: "(GDate \<Rightarrow> GDate) \<Rightarrow> GDate \<Rightarrow> GDate" where
  "set_field upd d =
     (let d = (if has_julian d \<and> \<not> has_dmy d then g_date_update_dmy d else d);
          d = upd (d\<lparr>has_julian := False\<rparr>)
      in d\<lparr>has_dmy := g_date_valid_dmy (d_day d) (d_month d) (d_year d)\<rparr>)"

definition g_date_set_month :: "int \<Rightarrow> GDate \<Rightarrow> GDate" where
  "g_date_set_month m d =
     (if \<not> g_date_valid_month m then d else set_field (\<lambda>d. d\<lparr>d_month := m mod 2 ^ 4\<rparr>) d)"

definition g_date_set_day :: "int \<Rightarrow> GDate \<Rightarrow> GDate" where
  "g_date_set_day dd d =
     (if \<not> g_date_valid_day dd then d else set_field (\<lambda>d. d\<lparr>d_day := dd mod 2 ^ 6\<rparr>) d)"

definition g_date_set_year :: "int \<Rightarrow> GDate \<Rightarrow> GDate" where
  "g_date_set_year y d =
     (if \<not> g_date_valid_year y then d else set_field (\<lambda>d. d\<lparr>d_year := y mod 2 ^ 16\<rparr>) d)"

text \<open>\<open>localtime_r\<close> is an argument: the day of the month, the month from 0 and the years since 1900.\<close>

definition g_date_set_time_t :: "('t \<Rightarrow> int \<times> int \<times> int) \<Rightarrow> 't \<Rightarrow> GDate \<Rightarrow> GDate" where
  "g_date_set_time_t localtime t d =
     (let (mday, mon, yr) = localtime t;
          d = store_dmy mday (mon + 1) (yr + 1900) (d\<lparr>has_julian := False\<rparr>)
      in if \<not> g_date_valid_dmy (d_day d) (d_month d) (d_year d) then d else d\<lparr>has_dmy := True\<rparr>)"

section \<open>Weeks\<close>

definition g_date_get_monday_week_of_year :: "GDate \<Rightarrow> int \<times> GDate" where
  "g_date_get_monday_week_of_year =
     read_dmy (\<lambda>d. let wd = w32 (fst (g_date_get_weekday (g_date_set_dmy 1 1 (d_year d) g_date_clear)) - 1);
                      dy = w32 (day_of_year d - 1)
                  in w32 (dy + wd) div 7 + (if wd = 0 then 1 else 0)) 0"

definition g_date_get_sunday_week_of_year :: "GDate \<Rightarrow> int \<times> GDate" where
  "g_date_get_sunday_week_of_year =
     read_dmy (\<lambda>d. let wd = fst (g_date_get_weekday (g_date_set_dmy 1 1 (d_year d) g_date_clear));
                      wd = (if wd = 7 then 0 else wd);
                      dy = w32 (day_of_year d - 1)
                  in w32 (dy + wd) div 7 + (if wd = 0 then 1 else 0)) 0"

definition g_date_get_iso8601_week_of_year :: "GDate \<Rightarrow> int \<times> GDate" where
  "g_date_get_iso8601_week_of_year =
     read_julian (\<lambda>d. let j = w32 (jdays d + 1721425);
                         d4 = w32 (w32 (j + 31741) - j mod 7) mod 146097 mod 36524 mod 1461;
                         L = d4 div 1460;
                         d1 = w32 (d4 - L) mod 365 + L
                     in d1 div 7 + 1) 0"

definition weeks_in_year :: "int \<Rightarrow> int \<Rightarrow> int" where
  "weeks_in_year wd y =
     (let on = (\<lambda>dd m. fst (g_date_get_weekday (g_date_set_dmy dd m y g_date_clear)) = wd)
      in if on 1 1 then 53 else if on 31 12 then 53
         else if g_date_is_leap_year y \<and> (on 2 1 \<or> on 30 12) then 53 else 52)"

definition g_date_get_monday_weeks_in_year :: "int \<Rightarrow> int" where
  "g_date_get_monday_weeks_in_year y = (if \<not> g_date_valid_year y then 0 else weeks_in_year 1 y)"

definition g_date_get_sunday_weeks_in_year :: "int \<Rightarrow> int" where
  "g_date_get_sunday_weeks_in_year y = (if \<not> g_date_valid_year y then 0 else weeks_in_year 7 y)"

section \<open>Arithmetic\<close>

definition g_date_days_between :: "GDate \<Rightarrow> GDate \<Rightarrow> int \<times> GDate \<times> GDate" where
  "g_date_days_between d1 d2 =
     (if \<not> g_date_valid d1 \<or> \<not> g_date_valid d2 then (0, d1, d2)
      else let (j2, d2) = g_date_get_julian d2; (j1, d1) = g_date_get_julian d1
           in (s32 (s32 j2 - s32 j1), d1, d2))"

definition g_date_is_first_of_month :: "GDate \<Rightarrow> bool \<times> GDate" where
  "g_date_is_first_of_month = read_dmy (\<lambda>d. d_day d = 1) False"

definition g_date_is_last_of_month :: "GDate \<Rightarrow> bool \<times> GDate" where
  "g_date_is_last_of_month =
     read_dmy (\<lambda>d. d_day d = days_in_months ! leap_idx (d_year d) ! nat (d_month d)) False"

definition g_date_add_days :: "int \<Rightarrow> GDate \<Rightarrow> GDate" where
  "g_date_add_days n d =
     (if \<not> g_date_valid d then d
      else let d = need_julian d
           in if \<not> has_julian d then d else d\<lparr>jdays := w32 (jdays d + n), has_dmy := False\<rparr>)"

definition g_date_subtract_days :: "int \<Rightarrow> GDate \<Rightarrow> GDate" where
  "g_date_subtract_days n d =
     (if \<not> g_date_valid d then d
      else let d = need_julian d
           in if \<not> has_julian d \<or> \<not> n < jdays d then d
              else d\<lparr>jdays := w32 (jdays d - n), has_dmy := False\<rparr>)"

definition clip_day :: "GDate \<Rightarrow> GDate" where
  "clip_day d =
     (let last = days_in_months ! leap_idx (d_year d) ! nat (d_month d)
      in if last < d_day d then d\<lparr>d_day := last mod 2 ^ 6\<rparr> else d)"

definition g_date_add_months :: "int \<Rightarrow> GDate \<Rightarrow> GDate" where
  "g_date_add_months n d =
     (if \<not> g_date_valid d then d
      else let d = need_dmy d
           in if \<not> has_dmy d then d
              else let nmonths = w32 (n + (d_month d - 1));
                       years = nmonths div 12;
                       months = nmonths mod 12;
                       d = d\<lparr>d_month := (months + 1) mod 2 ^ 4, d_year := (d_year d + years) mod 2 ^ 16\<rparr>
                   in (clip_day d)\<lparr>has_julian := False\<rparr>)"

definition g_date_subtract_months :: "int \<Rightarrow> GDate \<Rightarrow> GDate" where
  "g_date_subtract_months n d =
     (if \<not> g_date_valid d then d
      else let d = need_dmy d
           in if \<not> has_dmy d then d
              else let years = n div 12; months = n mod 12
                   in if \<not> years < d_year d then d
                      else let d = d\<lparr>d_year := (d_year d - years) mod 2 ^ 16\<rparr>;
                               d = (if months < d_month d then d\<lparr>d_month := (d_month d - months) mod 2 ^ 4\<rparr>
                                    else let months = months - d_month d
                                         in d\<lparr>d_month := (12 - months) mod 2 ^ 4, d_year := (d_year d - 1) mod 2 ^ 16\<rparr>)
                           in (clip_day d)\<lparr>has_julian := False\<rparr>)"

definition fix_feb_29 :: "GDate \<Rightarrow> GDate" where
  "fix_feb_29 d =
     (if d_month d = 2 \<and> d_day d = 29 \<and> \<not> g_date_is_leap_year (d_year d) then d\<lparr>d_day := 28\<rparr> else d)"

definition g_date_add_years :: "int \<Rightarrow> GDate \<Rightarrow> GDate" where
  "g_date_add_years n d =
     (if \<not> g_date_valid d then d
      else let d = need_dmy d
           in if \<not> has_dmy d then d
              else (fix_feb_29 (d\<lparr>d_year := (d_year d + n) mod 2 ^ 16\<rparr>))\<lparr>has_julian := False\<rparr>)"

definition g_date_subtract_years :: "int \<Rightarrow> GDate \<Rightarrow> GDate" where
  "g_date_subtract_years n d =
     (if \<not> g_date_valid d then d
      else let d = need_dmy d
           in if \<not> has_dmy d \<or> \<not> n < d_year d then d
              else (fix_feb_29 (d\<lparr>d_year := (d_year d - n) mod 2 ^ 16\<rparr>))\<lparr>has_julian := False\<rparr>)"

section \<open>Order\<close>

definition cmp3 :: "int \<Rightarrow> int \<Rightarrow> int \<Rightarrow> int" where
  "cmp3 a b eq = (if a < b then -1 else if b < a then 1 else eq)"

text \<open>The loop goes round once more at most, when both sides have got a day number.\<close>

definition g_date_compare :: "GDate \<Rightarrow> GDate \<Rightarrow> int \<times> GDate \<times> GDate" where
  "g_date_compare l r =
     (if \<not> g_date_valid l \<or> \<not> g_date_valid r then (0, l, r)
      else if has_julian l \<and> has_julian r then (cmp3 (jdays l) (jdays r) 0, l, r)
      else if has_dmy l \<and> has_dmy r
      then (cmp3 (d_year l) (d_year r) (cmp3 (d_month l) (d_month r) (cmp3 (d_day l) (d_day r) 0)), l, r)
      else let l = need_julian l; r = need_julian r
           in if \<not> has_julian l \<or> \<not> has_julian r then (0, l, r)
              else (cmp3 (jdays l) (jdays r) 0, l, r))"

definition g_date_order :: "GDate \<Rightarrow> GDate \<Rightarrow> GDate \<times> GDate" where
  "g_date_order d1 d2 =
     (if \<not> g_date_valid d1 \<or> \<not> g_date_valid d2 then (d1, d2)
      else let (c, d1, d2) = g_date_compare d1 d2 in if 0 < c then (d2, d1) else (d1, d2))"

text \<open>The bounds may be absent; they too may have been filled in.\<close>

definition clamp_low :: "GDate \<Rightarrow> GDate option \<Rightarrow> GDate \<times> GDate option" where
  "clamp_low d lo =
     (case lo of None \<Rightarrow> (d, None)
      | Some m \<Rightarrow> let (c, d, m) = g_date_compare d m in (if c < 0 then m else d, Some m))"

definition clamp_high :: "GDate \<Rightarrow> GDate option \<Rightarrow> GDate \<times> GDate option" where
  "clamp_high d hi =
     (case hi of None \<Rightarrow> (d, None)
      | Some m \<Rightarrow> let (c, m, d) = g_date_compare m d in (if c < 0 then m else d, Some m))"

definition g_date_clamp :: "GDate \<Rightarrow> GDate option \<Rightarrow> GDate option \<Rightarrow> GDate \<times> GDate option \<times> GDate option" where
  "g_date_clamp d lo hi =
     (if \<not> g_date_valid d \<or> (\<exists>m \<in> set_option lo. \<not> g_date_valid m) \<or> (\<exists>m \<in> set_option hi. \<not> g_date_valid m)
      then (d, lo, hi)
      else let (bad, lo, hi) =
                 (case (lo, hi) of
                    (Some a, Some b) \<Rightarrow> let (c, a, b) = g_date_compare a b in (0 < c, Some a, Some b)
                  | _ \<Rightarrow> (False, lo, hi))
           in if bad then (d, lo, hi)
              else let (d, lo) = clamp_low d lo; (d, hi) = clamp_high d hi in (d, lo, hi))"

section \<open>Broken-down time\<close>

record struct_tm =
  tm_mday :: int
  tm_mon :: int
  tm_year :: int
  tm_wday :: int
  tm_yday :: int
  tm_isdst :: int

definition g_date_to_struct_tm :: "GDate \<Rightarrow> struct_tm option \<times> GDate" where
  "g_date_to_struct_tm d =
     (if \<not> g_date_valid d then (None, d)
      else let d = need_dmy d
           in if \<not> has_dmy d then (None, d)
              else let (wd, d1) = g_date_get_weekday d;
                       wd = (if wd = 7 then 0 else wd)
                   in (Some \<lparr>tm_mday = d_day d, tm_mon = d_month d - 1, tm_year = d_year d - 1900,
                             tm_wday = wd, tm_yday = day_of_year d - 1, tm_isdst = -1\<rparr>, d1))"

end
