(* ===== verification/Glib_Date_Laws.thy ===== *)
theory Glib_Date_Laws
  imports Glib_Date
begin

text \<open>
  The arithmetic behind \<open>gdate.c\<close>: day numbers as a sum over years and months, the division formulas
  of the code as their inverse, and every day number up to the last of the year 65535 as the number
  of exactly one date.
\<close>

section \<open>Day numbers\<close>

definition days_before :: "int \<Rightarrow> int" where
  "days_before y = 365 * (y - 1) + (y - 1) div 4 - (y - 1) div 100 + (y - 1) div 400"

definition days_to_month :: "int \<Rightarrow> int \<Rightarrow> int" where
  "days_to_month m y = days_in_year ! leap_idx y ! nat m"

definition month_days :: "int \<Rightarrow> int \<Rightarrow> int" where
  "month_days m y = days_in_months ! leap_idx y ! nat m"

definition julian :: "int \<Rightarrow> int \<Rightarrow> int \<Rightarrow> int" where
  "julian dd m y = days_before y + days_to_month m y + dd"

definition leap :: "int \<Rightarrow> int" where
  "leap y = (if g_date_is_leap_year y then 1 else 0)"

definition max_julian :: int where
  "max_julian = 23936166"

lemma month_cases:
  assumes "0 < m" "m < (13 :: int)"
  obtains "m = 1" | "m = 2" | "m = 3" | "m = 4" | "m = 5" | "m = 6" | "m = 7" | "m = 8" | "m = 9"
    | "m = 10" | "m = 11" | "m = 12"
proof -
  have "m \<in> set [1..12]" using assms by simp
  then have "m = 1 \<or> m = 2 \<or> m = 3 \<or> m = 4 \<or> m = 5 \<or> m = 6 \<or> m = 7 \<or> m = 8 \<or> m = 9 \<or> m = 10 \<or> m = 11 \<or> m = 12"
    by (simp add: upto.simps del: set_upto)
  then show ?thesis using that by blast
qed

lemma leap_range: "0 \<le> leap y" "leap y \<le> 1" "leap_idx y = nat (leap y)"
  by (auto simp: leap_def leap_idx_def)

lemma days_to_month_eq:
  assumes "0 < m" "m < 13"
  shows "days_to_month m y = (153 * ((m + 9) mod 12) + 2) div 5 + (if m \<le> 2 then - 306 else 59 + leap y)"
  by (rule month_cases[OF assms]; simp add: days_to_month_def days_in_year_def leap_idx_def leap_def)

lemma month_days_eq:
  assumes "0 < m" "m < 13"
  shows "month_days m y = days_to_month (m + 1) y - days_to_month m y"
  by (rule month_cases[OF assms];
      simp add: month_days_def days_to_month_def days_in_year_def days_in_months_def leap_idx_def)

lemma days_to_month_1: "days_to_month 1 y = 0" "days_to_month 13 y = 365 + leap y"
  by (simp_all add: days_to_month_def days_in_year_def leap_idx_def leap_def)

lemma month_days_range:
  assumes "0 < m" "m < 13"
  shows "28 \<le> month_days m y" "month_days m y \<le> 31"
  by (rule month_cases[OF assms]; simp add: month_days_def days_in_months_def leap_idx_def)+

lemma valid_dmy_iff:
  "g_date_valid_dmy dd m y \<longleftrightarrow> 0 < y \<and> 0 < m \<and> m < 13 \<and> 0 < dd \<and> dd \<le> month_days m y"
  by (auto simp: g_date_valid_dmy_def month_days_def)

lemma div_pred:
  assumes "0 < (n :: int)"
  shows "y div n - (y - 1) div n = (if y mod n = 0 then 1 else 0)"
proof -
  define q r where "q = y div n" and "r = y mod n"
  have y: "y = q * n + r" "0 \<le> r" "r < n" using assms by (simp_all add: q_def r_def)
  show ?thesis
  proof (cases "r = 0")
    case True
    have "(y - 1) div n = q - 1" by (rule int_div_pos_eq[of _ _ _ "n - 1"]) (use y True assms in \<open>simp_all add: algebra_simps\<close>)
    then show ?thesis using True by (simp add: q_def r_def)
  next
    case False
    have "(y - 1) div n = q" by (rule int_div_pos_eq[of _ _ _ "r - 1"]) (use y False in \<open>simp_all add: algebra_simps\<close>)
    then show ?thesis using False by (simp add: q_def r_def)
  qed
qed

lemma leap_count:
  assumes "0 < y"
  shows "y div 4 - (y - 1) div 4 - (y div 100 - (y - 1) div 100) + (y div 400 - (y - 1) div 400) = leap y"
proof -
  have "y mod 400 = 0 \<Longrightarrow> y mod 100 = 0" "y mod 100 = 0 \<Longrightarrow> y mod 4 = 0"
    using mod_mod_cancel[of 100 400 y] mod_mod_cancel[of 4 100 y] by auto
  then show ?thesis using assms by (simp add: div_pred leap_def g_date_is_leap_year_def g_date_valid_year_def)
qed

lemma days_before_Suc: "0 < y \<Longrightarrow> days_before (y + 1) = days_before y + 365 + leap y"
  using leap_count[of y] by (simp add: days_before_def)

lemma days_before_diff:
  "0 < y \<Longrightarrow> 365 * int n \<le> days_before (y + int n) - days_before y"
proof (induction n)
  case (Suc n)
  have "days_before (y + int (Suc n)) = days_before (y + int n) + 365 + leap (y + int n)"
    using days_before_Suc[of "y + int n"] Suc.prems by (simp add: ac_simps)
  then show ?case using Suc leap_range(1)[of "y + int n"] by simp
qed simp

lemma days_before_mono: "0 < y \<Longrightarrow> y \<le> z \<Longrightarrow> days_before y \<le> days_before z"
  using days_before_diff[of y "nat (z - y)"] by simp

lemma days_before_1: "days_before 1 = 0" "days_before 65536 = max_julian"
  by (simp_all add: days_before_def max_julian_def)

lemma day_of_year_range:
  assumes "g_date_valid_dmy dd m y"
  shows "0 < days_to_month m y + dd" "days_to_month m y + dd \<le> 365 + leap y"
proof -
  have p: "0 < m" "m < 13" "0 < dd" "dd \<le> month_days m y" using assms by (simp_all add: valid_dmy_iff)
  have "0 \<le> days_to_month m y" "days_to_month (m + 1) y \<le> 365 + leap y"
    by (rule month_cases[OF p(1,2)]; simp add: days_to_month_def days_in_year_def leap_idx_def leap_def)+
  then show "0 < days_to_month m y + dd" "days_to_month m y + dd \<le> 365 + leap y"
    using p(3,4) month_days_eq[OF p(1,2), of y] by simp_all
qed

lemma julian_year:
  assumes "g_date_valid_dmy dd m y"
  shows "days_before y < julian dd m y" "julian dd m y \<le> days_before (y + 1)"
  using day_of_year_range[OF assms] days_before_Suc[of y] assms
  by (simp_all add: julian_def valid_dmy_iff)

lemma julian_bounds:
  assumes "g_date_valid_dmy dd m y" "y < 65536"
  shows "0 < julian dd m y" "julian dd m y \<le> max_julian"
  using julian_year[OF assms(1)] days_before_mono[of 1 y] days_before_mono[of "y + 1" 65536] assms
  by (simp_all add: days_before_1 valid_dmy_iff)

section \<open>The formulas of the conversions\<close>

text \<open>
  The year that starts in March, \<open>100 * B + D\<close>, and the month \<open>M\<close> in it, counted from 0; \<open>E\<close> is the
  day in that year.
\<close>

lemma julian_march:
  assumes "0 < m" "m < 13" "0 < y"
  defines "Y \<equiv> (if m \<le> 2 then y + 4799 else y + 4800)" and "M \<equiv> (m + 9) mod 12"
  shows "julian dd m y + 1753470 = dd + (153 * M + 2) div 5 + 365 * Y + Y div 4 - Y div 100 + Y div 400"
proof -
  have d: "(x + 4800) div 4 = x div 4 + 1200" "(x + 4800) div 100 = x div 100 + 48"
    "(x + 4800) div 400 = x div 400 + 12" for x :: int
    using div_mult_self1[of 4 x 1200] div_mult_self1[of 100 x 48] div_mult_self1[of 400 x 12] by simp_all
  define K where "K = (153 * M + 2) div 5"
  define a b c where "a = (y - 1) div 4" and "b = (y - 1) div 100" and "c = (y - 1) div 400"
  have l: "y div 4 - a - (y div 100 - b) + (y div 400 - c) = leap y"
    unfolding a_def b_def c_def by (rule leap_count[OF assms(3)])
  have j: "julian dd m y = 365 * (y - 1) + a - b + c + (K + (if m \<le> 2 then - 306 else 59 + leap y)) + dd"
    unfolding julian_def days_to_month_eq[OF assms(1,2)] K_def M_def days_before_def a_def b_def c_def ..
  show ?thesis
  proof (cases "m \<le> 2")
    case True
    then have Y: "Y = (y - 1) + 4800" by (simp add: Y_def)
    have e: "Y div 4 = a + 1200" "Y div 100 = b + 48" "Y div 400 = c + 12"
      unfolding Y by (simp_all only: d a_def b_def c_def)
    show ?thesis unfolding j e K_def[symmetric] if_P[OF True] unfolding Y by simp
  next
    case False
    then have Y: "Y = y + 4800" by (simp add: Y_def)
    have e: "Y div 4 = y div 4 + 1200" "Y div 100 = y div 100 + 48" "Y div 400 = y div 400 + 12"
      unfolding Y by (simp_all only: d)
    show ?thesis unfolding j e K_def[symmetric] if_not_P[OF False] l[symmetric] unfolding Y by simp
  qed
qed

lemma century_day:
  fixes B C :: int
  assumes "A = C + 36524 * B + B div 4" "1 \<le> C" "C \<le> 36524 \<or> C = 36525 \<and> B mod 4 = 3"
  shows "(4 * (A + 36524)) div 146097 - 1 = B" "A - (146097 * B) div 4 = C"
proof -
  have q: "4 * (B div 4) = B - B mod 4" "0 \<le> B mod 4" "B mod 4 \<le> 3"
    by (simp_all add: minus_mod_eq_mult_div[symmetric])
  have "4 * (A + 36524) = 146097 * (B + 1) + (4 * C - 1 - B mod 4)" using assms(1) q(1) by simp
  moreover have "0 \<le> 4 * C - 1 - B mod 4" "4 * C - 1 - B mod 4 < 146097" using assms(2,3) q by auto
  ultimately have "(4 * (A + 36524)) div 146097 = B + 1"
    by (intro int_div_pos_eq[of _ _ _ "4 * C - 1 - B mod 4"]) simp_all
  then show "(4 * (A + 36524)) div 146097 - 1 = B" by simp
  have "146097 * B = B + 4 * (36524 * B)" by simp
  then have "(146097 * B) div 4 = B div 4 + 36524 * B" by (simp only: div_mult_self2)
  then show "A - (146097 * B) div 4 = C" using assms(1) by simp
qed

lemma year_day:
  fixes D E :: int
  assumes "C = E + 365 * D + D div 4" "1 \<le> E" "E \<le> 365 \<or> E = 366 \<and> D mod 4 = 3"
  shows "(4 * (C + 365)) div 1461 - 1 = D" "C - (1461 * D) div 4 = E"
proof -
  have q: "4 * (D div 4) = D - D mod 4" "0 \<le> D mod 4" "D mod 4 \<le> 3"
    by (simp_all add: minus_mod_eq_mult_div[symmetric])
  have "4 * (C + 365) = 1461 * (D + 1) + (4 * E - 1 - D mod 4)" using assms(1) q(1) by simp
  moreover have "0 \<le> 4 * E - 1 - D mod 4" "4 * E - 1 - D mod 4 < 1461" using assms(2,3) q by auto
  ultimately have "(4 * (C + 365)) div 1461 = D + 1"
    by (intro int_div_pos_eq[of _ _ _ "4 * E - 1 - D mod 4"]) simp_all
  then show "(4 * (C + 365)) div 1461 - 1 = D" by simp
  have "1461 * D = D + 4 * (365 * D)" by simp
  then have "(1461 * D) div 4 = D div 4 + 365 * D" by (simp only: div_mult_self2)
  then show "C - (1461 * D) div 4 = E" using assms(1) by simp
qed

lemma month_day:
  fixes M dd :: int
  assumes "0 \<le> M" "M < 12" "1 \<le> dd" "dd \<le> 31" "M \<in> {1, 3, 6, 8, 11} \<longrightarrow> dd \<le> 30"
  shows "(5 * (dd + (153 * M + 2) div 5 - 1) + 2) div 153 = M"
proof -
  have "M \<in> set [0..11]" using assms(1,2) by simp
  then have "M = 0 \<or> M = 1 \<or> M = 2 \<or> M = 3 \<or> M = 4 \<or> M = 5 \<or> M = 6 \<or> M = 7 \<or> M = 8 \<or> M = 9 \<or> M = 10 \<or> M = 11"
    by (simp add: upto.simps del: set_upto)
  then show ?thesis by (elim disjE) (use assms(3-5) in simp_all)
qed

text \<open>The same on 32 bits: nothing wraps for the day numbers of the years up to 65535.\<close>

lemma w32_id [simp]: "0 \<le> x \<Longrightarrow> x < 2 ^ 32 \<Longrightarrow> w32 x = x"
  by (simp add: w32_def)

lemma dmy_of_julian_steps:
  fixes A B C D E M j :: int
  assumes j: "j + 1753470 = A" "0 < j" "A < 2 ^ 29"
    and B: "(4 * (A + 36524)) div 146097 - 1 = B" "A - (146097 * B) div 4 = C"
    and C: "1 \<le> C" "C \<le> 36525"
    and D: "(4 * (C + 365)) div 1461 - 1 = D" "C - (1461 * D) div 4 = E"
    and E: "0 < E" "E \<le> 366" and M: "(5 * (E - 1) + 2) div 153 = M"
  shows "dmy_of_julian j = (w8 (E - (153 * M + 2) div 5), w32 (M + 3 - 12 * (M div 10)),
    w16 (100 * B + D - 4800 + M div 10))"
proof -
  have B0: "0 \<le> B" "146097 * B < 2 ^ 32" "100 * B < 2 ^ 32"
  proof -
    have "1 \<le> (4 * (A + 36524)) div 146097" using j by simp
    then show "0 \<le> B" using B(1) by simp
    have "(146097 * B) div 4 \<le> A" "A < 536870912" using B(2) C(1) j(3) by simp_all
    then have "146097 * B < 4294967296" by linarith
    then show "146097 * B < 2 ^ 32" "100 * B < 2 ^ 32" using \<open>0 \<le> B\<close> by simp_all
  qed
  have D0: "0 \<le> D" "1461 * D < 2 ^ 32"
  proof -
    have "1 \<le> (4 * (C + 365)) div 1461" using C by simp
    then show "0 \<le> D" using D(1) by simp
    have "1461 * D < 4294967296" using D(2) C(2) E(1) by linarith
    then show "1461 * D < 2 ^ 32" by simp
  qed
  have "M \<le> 11" using zdiv_mono1[of "5 * (E - 1) + 2" 1827 153] M E by simp
  moreover have "0 \<le> M" unfolding M[symmetric] using E by simp
  ultimately have M0: "0 \<le> M" "153 * M + 2 < 2 ^ 32" by simp_all
  have wA: "w32 (w32 (j + 1721425) + 32045) = A" "w32 (4 * w32 (A + 36524)) = 4 * (A + 36524)"
    using j by simp_all
  have wB: "w32 ((4 * (A + 36524)) div 146097 - 1) = B" "w32 (146097 * B) = 146097 * B" "w32 (100 * B) = 100 * B"
    "w32 (A - 146097 * B div 4) = C"
    unfolding B using B0 C by simp_all
  have wC: "w32 (4 * w32 (C + 365)) = 4 * (C + 365)" using C by simp
  have wD: "w32 ((4 * (C + 365)) div 1461 - 1) = D" "w32 (1461 * D) = 1461 * D" "w32 (C - 1461 * D div 4) = E"
    unfolding D using D0 E by simp_all
  have wE: "w32 (w32 (5 * w32 (E - 1)) + 2) = 5 * (E - 1) + 2" using E by simp
  have wM: "w32 (153 * M + 2) = 153 * M + 2" using M0 by simp
  show ?thesis unfolding dmy_of_julian_def Let_def wA wB wC wD wE M wM ..
qed

lemma leap_shift:
  assumes "g_date_is_leap_year y"
  shows "(y + 4799) mod 4 = 3" "(y + 4799) mod 100 = 99 \<Longrightarrow> (y + 4799) mod 400 = 399"
proof -
  have l: "(y mod 4 = 0 \<and> y mod 100 \<noteq> 0) \<or> y mod 400 = 0" using assms by (simp add: g_date_is_leap_year_def)
  have "y mod 4 = 0" using l mod_mod_cancel[of 4 400 y] by auto
  then show "(y + 4799) mod 4 = 3" using mod_add_left_eq[of y 4 4799] by simp
  assume "(y + 4799) mod 100 = 99"
  then have "(y + 4800) mod 100 = 0" using mod_add_left_eq[of "y + 4799" 100 1] by (simp add: add.commute)
  then have "y mod 400 = 0" using l mod_mult_self2[of y 100 48] by simp
  then show "(y + 4799) mod 400 = 399" using mod_add_left_eq[of y 400 4799] by simp
qed

lemma dmy_of_julian:
  assumes v: "g_date_valid_dmy dd m y" and y: "y < 65536"
  shows "dmy_of_julian (julian dd m y) = (dd, m, y)"
proof -
  have p: "0 < y" "0 < m" "m < 13" "0 < dd" "dd \<le> month_days m y" using v by (simp_all add: valid_dmy_iff)
  define Y where "Y = (if m \<le> 2 then y + 4799 else y + 4800)"
  define M where "M = (m + 9) mod 12"
  define B D E C where "B = Y div 100" and "D = Y mod 100" and "E = dd + (153 * M + 2) div 5"
    and "C = E + 365 * D + D div 4"
  have dd: "dd \<le> 31" using p(5) month_days_range[OF p(2,3), of y] by simp
  have M: "0 \<le> M" "M < 12" by (simp_all add: M_def)
  have unshift: "M + 3 - 12 * (M div 10) = m" "M div 10 = (if m \<le> 2 then 1 else 0)"
    by (rule month_cases[OF p(2,3)]; simp add: M_def)+
  have short: "M \<in> {1, 3, 6, 8, 11} \<longrightarrow> dd \<le> 30"
    using p(5) by (rule_tac month_cases[OF p(2,3)])
      (simp_all add: M_def month_days_def days_in_months_def leap_idx_def split: if_splits)
  have feb: "E \<le> 365 \<or> E = 366 \<and> m = 2 \<and> g_date_is_leap_year y"
    using p(5) by (rule_tac month_cases[OF p(2,3)])
      (auto simp: E_def M_def month_days_def days_in_months_def leap_idx_def split: if_splits)
  have E1: "1 \<le> E" using p(4) M by (simp add: E_def)
  have Y: "Y = 100 * B + D" "0 \<le> D" "D < 100" by (simp_all add: B_def D_def)
  have leapY: "Y mod 4 = 3 \<and> (Y mod 100 = 99 \<longrightarrow> Y mod 400 = 399)" if "E = 366"
  proof -
    from that feb have "m = 2" "g_date_is_leap_year y" by auto
    then show ?thesis using leap_shift[of y] by (simp add: Y_def)
  qed
  have Ebound: "E \<le> 365 \<or> E = 366 \<and> D mod 4 = 3"
    using feb leapY mod_mod_cancel[of 4 100 Y] by (auto simp: D_def)
  have Cbound: "C \<le> 36524 \<or> C = 36525 \<and> B mod 4 = 3"
  proof (cases "E \<le> 365")
    case True
    have "D div 4 \<le> 24" using Y(3) by simp
    then show ?thesis using True Y(3) by (simp add: C_def)
  next
    case False
    with Ebound have e: "E = 366" "D mod 4 = 3" by auto
    show ?thesis
    proof (cases "D = 99")
      case True
      then have "Y mod 400 = 399" using leapY[OF e(1)] by (simp add: D_def)
      then have "B mod 4 = 3" using True zmod_zmult2_eq[of 4 Y 100] by (simp add: B_def D_def)
      then show ?thesis using True e by (simp add: C_def)
    next
      case False
      moreover have "D = 4 * (D div 4) + 3" using mult_div_mod_eq[of 4 D] e(2) by simp
      ultimately have "D div 4 \<noteq> 24" "D div 4 \<le> 24" using Y(3) by auto
      with \<open>D = 4 * (D div 4) + 3\<close> have "D \<le> 95" by linarith
      then have "D div 4 \<le> 23" by simp
      then show ?thesis using \<open>D \<le> 95\<close> e by (simp add: C_def)
    qed
  qed
  have A: "julian dd m y + 1753470 = C + 36524 * B + B div 4"
  proof -
    have "Y div 4 = 25 * B + D div 4" unfolding Y(1) by simp
    moreover have "Y div 400 = B div 4" unfolding B_def by simp
    ultimately show ?thesis
      using julian_march[OF p(2,3,1), of dd] unfolding Y_def[symmetric] M_def[symmetric] C_def E_def
      using Y by (simp add: B_def[symmetric])
  qed
  have C0: "0 \<le> C" "1 \<le> C" using E1 Y(2) by (simp_all add: C_def)
  note cd = century_day[OF A C0(2) Cbound] and yd = year_day[OF C_def E1 Ebound]
  have md: "(5 * (E - 1) + 2) div 153 = M"
    unfolding E_def by (rule month_day[OF M _ dd short]) (use p(4) in simp)
  have j: "0 < julian dd m y" "julian dd m y + 1753470 < 2 ^ 29" using julian_bounds[OF v y] by (simp_all add: max_julian_def)
  have "dmy_of_julian (julian dd m y) = (w8 (E - (153 * M + 2) div 5), w32 (M + 3 - 12 * (M div 10)),
    w16 (100 * B + D - 4800 + M div 10))"
    by (rule dmy_of_julian_steps[OF refl j cd C0(2) _ yd _ _ md]) (use Cbound Ebound E1 in auto)
  also have "\<dots> = (dd, m, y)"
    using p y dd unshift Y(1) by (simp add: E_def w8_def w16_def Y_def split: if_splits)
  finally show ?thesis .
qed

section \<open>Every day has a date\<close>

lemma next_day:
  assumes "g_date_valid_dmy dd m y"
  shows "\<exists>dd' m' y'. g_date_valid_dmy dd' m' y' \<and> julian dd' m' y' = julian dd m y + 1"
proof -
  have p: "0 < y" "0 < m" "m < 13" "0 < dd" "dd \<le> month_days m y" using assms by (simp_all add: valid_dmy_iff)
  consider "dd < month_days m y" | "dd = month_days m y" "m < 12" | "dd = month_days m y" "m = 12"
    using p by linarith
  then show ?thesis
  proof cases
    case 1
    then show ?thesis using p by (intro exI[of _ "dd + 1"] exI[of _ m] exI[of _ y]) (simp add: valid_dmy_iff julian_def)
  next
    case 2
    then show ?thesis using p month_days_eq[OF p(2,3), of y] month_days_range[of "m + 1" y]
      by (intro exI[of _ 1] exI[of _ "m + 1"] exI[of _ y]) (simp add: valid_dmy_iff julian_def)
  next
    case 3
    then show ?thesis using p month_days_eq[of 12 y] month_days_range[of 1 "y + 1"] days_before_Suc[OF p(1)]
      by (intro exI[of _ 1] exI[of _ 1] exI[of _ "y + 1"]) (simp add: valid_dmy_iff julian_def days_to_month_1)
  qed
qed

lemma date_of_julian: "\<exists>dd m y. g_date_valid_dmy dd m y \<and> julian dd m y = int (Suc n)"
proof (induction n)
  case 0
  have "g_date_valid_dmy 1 1 1 \<and> julian 1 1 1 = 1"
    using month_days_range[of 1 1] by (simp add: valid_dmy_iff julian_def days_before_1 days_to_month_1)
  then show ?case by fastforce
next
  case (Suc n)
  then obtain dd m y where "g_date_valid_dmy dd m y" "julian dd m y = int (Suc n)" by blast
  with next_day[of dd m y] show ?case by fastforce
qed

lemma dmy_of_julian_valid:
  assumes "0 < j" "j \<le> max_julian"
  obtains dd m y where "dmy_of_julian j = (dd, m, y)" "g_date_valid_dmy dd m y" "y < 65536" "julian dd m y = j"
proof -
  obtain dd m y where v: "g_date_valid_dmy dd m y" and "julian dd m y = int (Suc (nat (j - 1)))"
    using date_of_julian[of "nat (j - 1)"] by blast
  then have j: "julian dd m y = j" using assms(1) by simp
  have "y < 65536"
  proof (rule ccontr)
    assume "\<not> y < 65536"
    then have "max_julian < j" using julian_year(1)[OF v] days_before_mono[of 65536 y] j by (simp add: days_before_1)
    then show False using assms(2) by simp
  qed
  with that v j dmy_of_julian[OF v] show ?thesis by auto
qed

lemma julian_inj:
  "g_date_valid_dmy dd m y \<Longrightarrow> y < 65536 \<Longrightarrow> g_date_valid_dmy dd' m' y' \<Longrightarrow> y' < 65536 \<Longrightarrow>
   julian dd m y = julian dd' m' y' \<longleftrightarrow> dd = dd' \<and> m = m' \<and> y = y'"
  by (metis dmy_of_julian prod.inject)

end
