(* ===== verification/Glib_Date_Parse.thy ===== *)
theory Glib_Date_Parse
  imports Glib_Date "HOL-Library.Monad_Syntax"
begin

text \<open>
  The date parser of \<open>gdate.c\<close>: collecting the numbers and the month name of a text, learning the
  order of the parts from the locale, and choosing day, month and year. The locale is an argument:
  its name, \<open>g_date_strftime\<close> in it, and case folding with normalisation.
\<close>

datatype GDateDMY = G_DATE_DAY | G_DATE_MONTH | G_DATE_YEAR

record parse_tokens =
  pt_ints :: nat
  pt_n :: "int list"
  pt_month :: int

text \<open>The static variables of the parser.\<close>

record parse_info =
  current_locale :: "string option"
  long_month_names :: "string option list"
  short_month_names :: "string option list"
  dmy_order :: "GDateDMY list"
  using_twodigit_years :: bool
  locale_era_adjust :: int

definition parse_info_init :: parse_info where
  "parse_info_init = \<lparr>current_locale = None, long_month_names = replicate 13 None,
     short_month_names = replicate 13 None, dmy_order = [G_DATE_DAY, G_DATE_MONTH, G_DATE_YEAR],
     using_twodigit_years = False, locale_era_adjust = 0\<rparr>"

definition twodigit_start_year :: int where
  "twodigit_start_year = 1930"

definition ascii_digit :: "char \<Rightarrow> bool" where
  "ascii_digit c \<longleftrightarrow> 48 \<le> (of_char c :: nat) \<and> (of_char c :: nat) \<le> 57"

text \<open>The runs of digits, of ten digits at most; the character after each run is skipped.\<close>

function scan_ints :: "nat \<Rightarrow> string \<Rightarrow> string list" where
  "scan_ints k s =
     (if s = [] \<or> 4 \<le> k then []
      else let ds = takeWhile ascii_digit (take 10 s);
               r = drop (length ds) s;
               k' = (if ds = [] then k else k + 1);
               more = (if r = [] then [] else scan_ints k' (tl r))
           in if ds = [] then more else ds # more)"
  by auto
termination
  by (relation "measure (length \<circ> snd)") (auto simp: length_tl diff_less Suc_le_eq not_le intro: diff_less)

declare scan_ints.simps [simp del]

text \<open>The C library reads a \<open>long\<close> of 64 bits and converts it: ten digits can wrap.\<close>

definition atoi :: "string \<Rightarrow> int" where
  "atoi ds = s32 (foldl (\<lambda>n c. 10 * n + (of_char c - 48)) 0 ds)"

fun strstr :: "string \<Rightarrow> string \<Rightarrow> bool" where
  "strstr [] n = (n = [])"
| "strstr (c # cs) n = (take (length n) (c # cs) = n \<or> strstr cs n)"

definition has_name :: "string \<Rightarrow> string option \<Rightarrow> bool" where
  "has_name s nm = (case nm of None \<Rightarrow> False | Some n \<Rightarrow> strstr s n)"

definition find_month :: "parse_info \<Rightarrow> string \<Rightarrow> int" where
  "find_month pi s =
     (case filter (\<lambda>i. has_name s (long_month_names pi ! i) \<or> has_name s (short_month_names pi ! i)) [1..<13] of
        [] \<Rightarrow> 0 | i # is \<Rightarrow> int i)"

definition g_date_fill_parse_tokens :: "(string \<Rightarrow> string) \<Rightarrow> parse_info \<Rightarrow> string \<Rightarrow> parse_tokens" where
  "g_date_fill_parse_tokens norm pi str =
     (let nums = scan_ints 0 str; k = length nums
      in \<lparr>pt_ints = k,
          pt_n = map (\<lambda>i. if i < k then atoi (nums ! i) else 0) [0, 1, 2],
          pt_month = (if k < 3 then find_month pi (norm str) else 0)\<rparr>)"

text \<open>
  One number of the sample date 4 July 1976, at its place \<open>i\<close>. The loop runs to \<open>num_ints\<close>, which is
  counted up to 4: with four numbers its last round reads \<open>testpt.n[3]\<close> and writes \<open>dmy_order[3]\<close>, both
  behind arrays of three, which is \<open>None\<close>.
\<close>

definition learn_number :: "parse_info \<Rightarrow> nat \<Rightarrow> int \<Rightarrow> parse_info" where
  "learn_number pi i n =
     (if n = 7 then pi\<lparr>dmy_order := (dmy_order pi)[i := G_DATE_MONTH]\<rparr>
      else if n = 4 then pi\<lparr>dmy_order := (dmy_order pi)[i := G_DATE_DAY]\<rparr>
      else if n = 76 then pi\<lparr>using_twodigit_years := True, dmy_order := (dmy_order pi)[i := G_DATE_YEAR]\<rparr>
      else if n = 1976 then pi\<lparr>dmy_order := (dmy_order pi)[i := G_DATE_YEAR]\<rparr>
      else pi\<lparr>locale_era_adjust := 1976 - n, dmy_order := (dmy_order pi)[i := G_DATE_YEAR]\<rparr>)"

definition learn_order :: "parse_tokens \<Rightarrow> parse_info \<Rightarrow> parse_info option" where
  "learn_order testpt pi =
     foldl (\<lambda>acc i. case acc of None \<Rightarrow> None
        | Some pi \<Rightarrow> if 3 \<le> i then None else Some (learn_number pi i (pt_n testpt ! i)))
       (Some pi) [0..<pt_ints testpt]"

definition g_date_prepare_to_parse ::
  "string \<Rightarrow> (string \<Rightarrow> GDate \<Rightarrow> string) \<Rightarrow> (string \<Rightarrow> string) \<Rightarrow> string \<Rightarrow> parse_info
    \<Rightarrow> (parse_tokens \<times> parse_info) option" where
  "g_date_prepare_to_parse locale strftime norm str pi0 =
     do { pi \<leftarrow>
        (if current_locale pi0 = Some locale then Some pi0
         else let name = (\<lambda>fmt i. Some (norm (strftime fmt (g_date_set_dmy 1 (int i) 1 g_date_clear))));
                  pi = pi0\<lparr>current_locale := Some locale,
                          short_month_names := Some ''Error'' # map (name ''%b'') [1..<13],
                          long_month_names := Some ''Error'' # map (name ''%B'') [1..<13]\<rparr>;
                  testpt = g_date_fill_parse_tokens norm pi (strftime ''%x'' (g_date_set_dmy 4 7 1976 g_date_clear))
              in learn_order testpt pi);
        Some (g_date_fill_parse_tokens norm pi str, pi) }"

text \<open>Division of signed integers rounds to zero.\<close>

definition c_quot :: "int \<Rightarrow> int \<Rightarrow> int" where
  "c_quot a b = (if a < 0 then - ((- a) div b) else a div b)"

definition c_rem :: "int \<Rightarrow> int \<Rightarrow> int" where
  "c_rem a b = a - c_quot a b * b"

text \<open>A year below 100 moved into the hundred years from the start year.\<close>

definition full_year :: "parse_info \<Rightarrow> int \<Rightarrow> int" where
  "full_year pi y =
     (if using_twodigit_years pi \<and> y < 100
      then let two = twodigit_start_year mod 100; century = (twodigit_start_year div 100) * 100
           in w32 (y + (if y < two then century + 100 else century))
      else y)"

text \<open>The loop over the numbers \<open>i\<close> and the places \<open>j\<close> of the order.\<close>

function assign_parts :: "parse_info \<Rightarrow> parse_tokens \<Rightarrow> nat \<Rightarrow> nat \<Rightarrow> int \<times> int \<times> int \<Rightarrow> int \<times> int \<times> int" where
  "assign_parts pi pt i j (dd, m, y) =
     (if \<not> (i < pt_ints pt \<and> j < 3) then (dd, m, y)
      else case dmy_order pi ! j of
             G_DATE_MONTH \<Rightarrow>
               if pt_ints pt = 2 \<and> pt_month pt \<noteq> 0 then assign_parts pi pt i (j + 1) (dd, pt_month pt, y)
               else assign_parts pi pt (i + 1) (j + 1) (dd, w32 (pt_n pt ! i), y)
           | G_DATE_DAY \<Rightarrow>
               if pt_ints pt = 2 \<and> pt_month pt = 0 then assign_parts pi pt i (j + 1) (1, m, y)
               else assign_parts pi pt (i + 1) (j + 1) (w32 (pt_n pt ! i), m, y)
           | G_DATE_YEAR \<Rightarrow>
               let y = w32 (pt_n pt ! i);
                   y = (if locale_era_adjust pi \<noteq> 0 then w32 (y + locale_era_adjust pi) else full_year pi y)
               in assign_parts pi pt (i + 1) (j + 1) (dd, m, y))"
  by auto
termination by (relation "measure (\<lambda>(pi, pt, i, j, p). 3 - j)") auto

declare assign_parts.simps [simp del]

text \<open>The call of \<open>g_date_valid_dmy\<close> passes the day as 8 and the year as 16 bits.\<close>

definition valid_args :: "int \<Rightarrow> int \<Rightarrow> int \<Rightarrow> bool" where
  "valid_args dd m y = g_date_valid_dmy (w8 dd) m (w16 y)"

definition choose_dmy :: "parse_info \<Rightarrow> parse_tokens \<Rightarrow> int \<times> int \<times> int" where
  "choose_dmy pi pt =
     (if 1 < pt_ints pt
      then let (dd, m, y) = assign_parts pi pt 0 0 (0, 0, 0)
           in if pt_ints pt = 3 \<and> \<not> valid_args dd m y
              then let y = w32 (pt_n pt ! 0)
                   in (w32 (pt_n pt ! 2), w32 (pt_n pt ! 1), if using_twodigit_years pi \<and> y < 100 then 0 else y)
              else if pt_ints pt = 2 \<and> m = 0 \<and> pt_month pt \<noteq> 0 then (dd, pt_month pt, y)
              else (dd, m, y)
      else if pt_ints pt = 1
      then if pt_month pt \<noteq> 0 then (1, pt_month pt, w32 (pt_n pt ! 0))
           else let n = pt_n pt ! 0
                in (w32 (c_rem n 100), w32 (c_rem (c_quot n 100) 100), full_year pi (w32 (c_quot n 10000)))
      else (0, 0, 0))"

definition set_parsed :: "parse_info \<Rightarrow> parse_tokens \<Rightarrow> GDate" where
  "set_parsed pi pt =
     (if pt_ints pt = 4 then g_date_clear
      else let (dd, m, y) = choose_dmy pi pt
           in if y < 8000 \<and> valid_args dd m y then (store_dmy dd m y g_date_clear)\<lparr>has_dmy := True\<rparr>
              else g_date_clear)"

definition g_date_set_parse ::
  "string \<Rightarrow> (string \<Rightarrow> GDate \<Rightarrow> string) \<Rightarrow> (string \<Rightarrow> string) \<Rightarrow> string \<Rightarrow> parse_info
    \<Rightarrow> (GDate \<times> parse_info) option" where
  "g_date_set_parse locale strftime norm str pi =
     do { (pt, pi) \<leftarrow> g_date_prepare_to_parse locale strftime norm str pi; Some (set_parsed pi pt, pi) }"

end
