(* ===== verification/Glib_Date_Written.thy ===== *)
theory Glib_Date_Written
  imports Glib_Date_Laws Glib_Date_Parse
begin

text \<open>
  What the date parser makes of a date written as three numbers: it finds the numbers, learns from
  the sample date in which order the locale writes the parts, and reads a date in that order.
\<close>

section \<open>Written dates\<close>

text \<open>A decimal number of one to nine digits, leading zeros allowed.\<close>

definition decimal_of :: "string \<Rightarrow> int" where
  "decimal_of ds = (\<Sum>i<length ds. (of_char (ds ! i) - 48) * 10 ^ (length ds - Suc i))"

definition writes :: "string \<Rightarrow> int \<Rightarrow> bool" where
  "writes ds n \<longleftrightarrow> ds \<noteq> [] \<and> length ds \<le> 9 \<and> list_all ascii_digit ds \<and> decimal_of ds = n"

definition no_digits :: "string \<Rightarrow> bool" where
  "no_digits s \<longleftrightarrow> list_all (\<lambda>c. \<not> ascii_digit c) s"

text \<open>Three numbers in a text that has no other digits.\<close>

definition three_numbers :: "string \<Rightarrow> int \<Rightarrow> int \<Rightarrow> int \<Rightarrow> bool" where
  "three_numbers s x y z \<longleftrightarrow>
     (\<exists>s0 a s1 b s2 c s3. s = s0 @ a @ s1 @ b @ s2 @ c @ s3 \<and> writes a x \<and> writes b y \<and> writes c z \<and>
        s1 \<noteq> [] \<and> s2 \<noteq> [] \<and> no_digits s0 \<and> no_digits s1 \<and> no_digits s2 \<and> no_digits s3)"

text \<open>A date written in an order of its parts.\<close>

fun part :: "int \<Rightarrow> int \<Rightarrow> int \<Rightarrow> GDateDMY \<Rightarrow> int" where
  "part d m y G_DATE_DAY = d"
| "part d m y G_DATE_MONTH = m"
| "part d m y G_DATE_YEAR = y"

definition date_text :: "GDateDMY list \<Rightarrow> int \<Rightarrow> int \<Rightarrow> int \<Rightarrow> string \<Rightarrow> bool" where
  "date_text ord d m y s \<longleftrightarrow> three_numbers s (part d m y (ord ! 0)) (part d m y (ord ! 1)) (part d m y (ord ! 2))"

lemma scan_skip: "no_digits s \<Longrightarrow> scan_ints k (s @ r) = scan_ints k r"
proof (induction s)
  case (Cons c s)
  then have "\<not> ascii_digit c" "scan_ints k (s @ r) = scan_ints k r" by (auto simp: no_digits_def)
  then show ?case by (cases "4 \<le> k") (simp_all add: scan_ints.simps[of k "c # s @ r"] scan_ints.simps[of k r])
qed simp

lemma scan_number:
  assumes "ds \<noteq> []" "length ds \<le> 9" "list_all ascii_digit ds" "k < 4" "no_digits r"
    and "r = [] \<Longrightarrow> t = []"
  shows "scan_ints k (ds @ r @ t) = ds # scan_ints (k + 1) t"
proof -
  have tw: "takeWhile ascii_digit (take 10 (ds @ r @ t)) = ds"
  proof (cases r)
    case (Cons c r')
    then have "take 10 (ds @ r @ t) = ds @ c # take (9 - length ds) (r' @ t)"
      using assms(2) by (simp add: take_Cons')
    moreover have "\<not> ascii_digit c" using Cons assms(5) by (simp add: no_digits_def)
    ultimately show ?thesis using assms(3) by (simp add: takeWhile_append2 list_all_iff)
  qed (use assms in \<open>simp add: list_all_iff takeWhile_id\<close>)
  show ?thesis
  proof (cases r)
    case Nil
    then show ?thesis using assms tw by (subst scan_ints.simps) (simp add: scan_ints.simps[of _ "[]"] takeWhile_id list_all_iff)
  next
    case (Cons c r')
    then have "scan_ints (k + 1) (r' @ t) = scan_ints (k + 1) t"
      using assms(5) by (intro scan_skip) (simp add: no_digits_def)
    then show ?thesis using assms tw Cons by (subst scan_ints.simps) simp
  qed
qed

lemma scan_three:
  assumes "three_numbers s x y z"
  obtains a b c where "scan_ints 0 s = [a, b, c]" "writes a x" "writes b y" "writes c z"
proof -
  from assms obtain s0 a s1 b s2 c s3 where s: "s = s0 @ a @ s1 @ b @ s2 @ c @ s3"
    "writes a x" "writes b y" "writes c z" "s1 \<noteq> []" "s2 \<noteq> []" "no_digits s0" "no_digits s1" "no_digits s2" "no_digits s3"
    unfolding three_numbers_def by blast
  have c: "scan_ints 2 (c @ s3) = [c]"
    using s scan_number[of c 2 s3 "[]"] by (simp add: writes_def scan_ints.simps[of _ "[]"])
  have b: "scan_ints 1 (b @ s2 @ c @ s3) = [b, c]"
    using s scan_number[of b 1 s2 "c @ s3"] c by (simp add: writes_def numeral_2_eq_2)
  have "scan_ints 0 (a @ s1 @ b @ s2 @ c @ s3) = [a, b, c]"
    using s scan_number[of a 0 s1 "b @ s2 @ c @ s3"] b by (simp add: writes_def)
  then show thesis using that s scan_skip[of s0 0] by simp
qed

lemma decimal_snoc: "decimal_of (ds @ [c]) = 10 * decimal_of ds + (of_char c - 48)"
proof -
  have "(\<Sum>i<length ds. (of_char (ds ! i) - 48) * 10 ^ (Suc (length ds) - Suc i)) = 10 * decimal_of ds"
    unfolding decimal_of_def sum_distrib_left
    by (rule sum.cong) (auto simp: nth_append Suc_diff_Suc simp flip: power_Suc)
  then show ?thesis by (simp add: decimal_of_def nth_append)
qed

lemma decimal_foldl: "foldl (\<lambda>n c. 10 * n + (of_char c - 48)) 0 ds = decimal_of ds"
  by (induction ds rule: rev_induct) (simp_all add: decimal_snoc, simp add: decimal_of_def)

lemma decimal_bounds: "list_all ascii_digit ds \<Longrightarrow> 0 \<le> decimal_of ds \<and> decimal_of ds < 10 ^ length ds"
proof (induction ds rule: rev_induct)
  case (snoc c ds)
  have "0 \<le> (of_char c - 48 :: int)" "(of_char c - 48 :: int) \<le> 9"
  proof -
    have "(of_char c :: int) = int (of_char c)" by (rule of_nat_of_char[symmetric])
    moreover have "48 \<le> (of_char c :: nat)" "(of_char c :: nat) \<le> 57" using snoc.prems by (auto simp: ascii_digit_def)
    ultimately show "0 \<le> (of_char c - 48 :: int)" "(of_char c - 48 :: int) \<le> 9" by linarith+
  qed
  with snoc show ?case by (simp add: decimal_snoc)
qed (simp add: decimal_of_def)

lemma atoi_writes: "writes ds n \<Longrightarrow> atoi ds = n \<and> 0 \<le> n \<and> n < 1000000000"
proof -
  assume w: "writes ds n"
  then have "0 \<le> n" "n < 10 ^ length ds" using decimal_bounds[of ds] by (auto simp: writes_def)
  moreover have "(10 :: int) ^ length ds \<le> 10 ^ 9" using w by (intro power_increasing) (simp_all add: writes_def)
  ultimately show ?thesis using w by (simp add: atoi_def decimal_foldl writes_def s32_def)
qed

lemma tokens_three:
  assumes "three_numbers s x y z"
  shows "g_date_fill_parse_tokens norm pi s = \<lparr>pt_ints = 3, pt_n = [x, y, z], pt_month = 0\<rparr>"
    and "0 \<le> x" "x < 1000000000" "0 \<le> y" "y < 1000000000" "0 \<le> z" "z < 1000000000"
proof -
  obtain a b c where "scan_ints 0 s = [a, b, c]" "writes a x" "writes b y" "writes c z"
    using scan_three[OF assms] .
  then show "g_date_fill_parse_tokens norm pi s = \<lparr>pt_ints = 3, pt_n = [x, y, z], pt_month = 0\<rparr>"
    and "0 \<le> x" "x < 1000000000" "0 \<le> y" "y < 1000000000" "0 \<le> z" "z < 1000000000"
    using atoi_writes by (auto simp: g_date_fill_parse_tokens_def Let_def)
qed

definition orders :: "GDateDMY list list" where
  "orders = [[G_DATE_DAY, G_DATE_MONTH, G_DATE_YEAR], [G_DATE_DAY, G_DATE_YEAR, G_DATE_MONTH],
     [G_DATE_MONTH, G_DATE_DAY, G_DATE_YEAR], [G_DATE_MONTH, G_DATE_YEAR, G_DATE_DAY],
     [G_DATE_YEAR, G_DATE_DAY, G_DATE_MONTH], [G_DATE_YEAR, G_DATE_MONTH, G_DATE_DAY]]"

text \<open>The parser has learned that a locale writes dates in an order, and its years with two digits or in full.\<close>

definition knows :: "string \<Rightarrow> GDateDMY list \<Rightarrow> bool \<Rightarrow> parse_info \<Rightarrow> bool" where
  "knows locale ord two pi \<longleftrightarrow>
     current_locale pi = Some locale \<and> dmy_order pi = ord \<and> using_twodigit_years pi = two \<and> locale_era_adjust pi = 0"

text \<open>From the sample date 4 July 1976 the parser learns the order in which the locale writes it.\<close>

lemma learn_order_three:
  "learn_order \<lparr>pt_ints = 3, pt_n = [x, y, z], pt_month = 0\<rparr> pi =
     Some (learn_number (learn_number (learn_number pi 0 x) 1 y) 2 z)"
  by (simp add: learn_order_def upt_rec numeral_2_eq_2 numeral_3_eq_3)

lemma learns:
  assumes "ord \<in> set orders" and "ys = 1976 \<or> ys = 76" and "date_text ord 4 7 ys sample"
    and "length (dmy_order pi) = 3" "\<not> using_twodigit_years pi" "locale_era_adjust pi = 0" "current_locale pi = Some locale"
  obtains pi' where "learn_order (g_date_fill_parse_tokens norm pi sample) pi = Some pi'" "knows locale ord (ys = 76) pi'"
proof -
  obtain p q r where o: "dmy_order pi = [p, q, r]"
    using assms(4) by (auto simp: length_Suc_conv numeral_3_eq_3)
  have t: "g_date_fill_parse_tokens norm pi sample =
      \<lparr>pt_ints = 3, pt_n = [part 4 7 ys (ord ! 0), part 4 7 ys (ord ! 1), part 4 7 ys (ord ! 2)], pt_month = 0\<rparr>"
    using assms(3) by (intro tokens_three(1)) (simp add: date_text_def)
  have "knows locale ord (ys = 76) (learn_number (learn_number (learn_number pi 0 (part 4 7 ys (ord ! 0)))
      1 (part 4 7 ys (ord ! 1))) 2 (part 4 7 ys (ord ! 2)))"
    using assms(1) unfolding orders_def list.set insert_iff empty_iff
    by (elim disjE) (rule disjE[OF assms(2)], simp_all add: knows_def learn_number_def o assms(5-7))+
  then show thesis by (rule that[rotated]) (simp only: t learn_order_three)
qed

lemma valid_args_id: "0 \<le> d \<Longrightarrow> d < 256 \<Longrightarrow> 0 \<le> y \<Longrightarrow> y < 65536 \<Longrightarrow> valid_args d m y = g_date_valid_dmy d m y"
  by (simp add: valid_args_def w8_def w16_def)

text \<open>Year and the number that is written for it: in full, or its last two digits where the locale does so.\<close>

definition writes_year :: "bool \<Rightarrow> int \<Rightarrow> int \<Rightarrow> bool" where
  "writes_year two y n \<longleftrightarrow> 100 \<le> n \<and> n = y \<or> \<not> two \<and> n = y \<or> two \<and> n = y mod 100 \<and> 1930 \<le> y \<and> y < 2030"

lemma full_year_written:
  assumes "writes_year (using_twodigit_years pi) y n" "0 < y" "y < 8000"
  shows "full_year pi n = y"
proof (cases "using_twodigit_years pi \<and> n < 100")
  case True
  then have n: "n = y mod 100" "1930 \<le> y" "y < 2030" using assms(1) by (auto simp: writes_year_def)
  have "n + (if n < 30 then 2000 else 1900) = y" unfolding n(1) using n(2,3) by presburger
  moreover have "w32 y = y" using assms(2,3) by (simp add: w32_def)
  ultimately show ?thesis using True by (simp add: full_year_def twodigit_start_year_def split: if_splits)
next
  case False
  then show ?thesis using assms by (auto simp: full_year_def writes_year_def)
qed

lemma assign_step: "i < pt_ints pt \<Longrightarrow> j < 3 \<Longrightarrow> pt_ints pt = 3 \<Longrightarrow> locale_era_adjust pi = 0 \<Longrightarrow>
  assign_parts pi pt i j (dd, m, y) = assign_parts pi pt (i + 1) (j + 1)
    (case dmy_order pi ! j of G_DATE_MONTH \<Rightarrow> (dd, w32 (pt_n pt ! i), y) | G_DATE_DAY \<Rightarrow> (w32 (pt_n pt ! i), m, y)
      | G_DATE_YEAR \<Rightarrow> (dd, m, full_year pi (w32 (pt_n pt ! i))))"
  by (subst assign_parts.simps) (simp split: GDateDMY.split)

lemma reads_in_order:
  assumes "ord \<in> set orders" "knows locale ord two pi" "date_text ord d m n str" "writes_year two y n"
    and "g_date_valid_dmy d m y" "y < 8000"
  shows "set_parsed pi (g_date_fill_parse_tokens norm pi str) = g_date_set_dmy d m y g_date_clear"
proof -
  have d: "0 < d" "d < 32" "0 < m" "m < 13" "0 < y"
    using assms(5) month_days_range[of m y] by (auto simp: valid_dmy_iff)
  have t: "three_numbers str (part d m n (ord ! 0)) (part d m n (ord ! 1)) (part d m n (ord ! 2))"
    using assms(3) by (simp add: date_text_def)
  let ?pt = "\<lparr>pt_ints = 3, pt_n = [part d m n (ord ! 0), part d m n (ord ! 1), part d m n (ord ! 2)], pt_month = 0\<rparr> :: parse_tokens"
  have n: "0 \<le> n" "n < 1000000000" using tokens_three(2-)[OF t] assms(1) by (auto simp: orders_def)
  have fy: "full_year pi n = y" using assms(2,4,6) d by (intro full_year_written) (simp_all add: knows_def)
  have w: "w32 d = d" "w32 m = m" "w32 n = n" using d n by (simp_all add: w32_def)
  have "assign_parts pi ?pt 0 0 (0, 0, 0) = (d, m, y)"
    using assms(1,2)
    by (auto simp: orders_def knows_def assign_step numeral_2_eq_2 numeral_3_eq_3 w fy assign_parts.simps[of pi _ "Suc (Suc (Suc 0))"])
  then have "choose_dmy pi ?pt = (d, m, y)"
    using assms(5,6) d by (simp add: choose_dmy_def valid_args_id)
  then show ?thesis
    unfolding tokens_three(1)[OF t] using assms(5,6) d
    by (simp add: set_parsed_def valid_args_id g_date_set_dmy_def g_date_clear_def store_dmy_def)
qed

end
