(* ===== verification/Glib_Date_Props.thy ===== *)
theory Glib_Date_Props
  imports Glib_Date_Laws Glib_Date_Written
begin

text \<open>
  What the date functions promise: the invariant of a \<open>GDate\<close>, the day number as its abstract value,
  and the operations over that value.
\<close>

section \<open>Invariant and abstract value\<close>

definition widths_ok :: "GDate \<Rightarrow> bool" where
  "widths_ok d \<longleftrightarrow> 0 \<le> d_day d \<and> d_day d < 2 ^ 6 \<and> 0 \<le> d_month d \<and> d_month d < 2 ^ 4 \<and>
     0 \<le> d_year d \<and> d_year d < 2 ^ 16"

definition date_ok :: "GDate \<Rightarrow> bool" where
  "date_ok d \<longleftrightarrow> widths_ok d \<and>
     (has_dmy d \<longrightarrow> g_date_valid_dmy (d_day d) (d_month d) (d_year d)) \<and>
     (has_julian d \<longrightarrow> 0 < jdays d \<and> jdays d \<le> max_julian) \<and>
     (has_dmy d \<and> has_julian d \<longrightarrow> jdays d = julian (d_day d) (d_month d) (d_year d))"

definition day_no :: "GDate \<Rightarrow> int" where
  "day_no d = (if has_julian d then jdays d else julian (d_day d) (d_month d) (d_year d))"

lemma store_dmy_id:
  assumes "g_date_valid_dmy dd m y" "y < 65536"
  shows "store_dmy dd m y d = d\<lparr>d_month := m, d_day := dd, d_year := y\<rparr>"
proof -
  have "0 < m" "m < 13" "0 < dd" "dd \<le> 31" "0 < y"
    using assms month_days_range[of m y] by (auto simp: valid_dmy_iff)
  then show ?thesis using assms(2) by (simp add: store_dmy_def)
qed

lemma valid_dmy_widths:
  assumes "g_date_valid_dmy dd m y"
  shows "0 \<le> dd" "dd < 64" "0 \<le> m" "m < 16" "0 \<le> y"
  using assms month_days_range[of m y] by (auto simp: valid_dmy_iff)

lemma w32_add: "w32 (w32 a + b) = w32 (a + b)" "w32 (w32 a - b) = w32 (a - b)"
  by (simp_all add: w32_def mod_add_left_eq mod_diff_left_eq)

lemma update_julian_ok:
  assumes "date_ok d" "has_dmy d" "\<not> has_julian d"
  shows "g_date_update_julian d = d\<lparr>jdays := julian (d_day d) (d_month d) (d_year d), has_julian := True\<rparr>"
proof -
  define y where "y = d_year d"
  define a b c where "a = (y - 1) div 4" and "b = (y - 1) div 100" and "c = (y - 1) div 400"
  define T where "T = days_in_year ! leap_idx y ! nat (d_month d)"
  let ?j = "julian (d_day d) (d_month d) y"
  have v: "g_date_valid_dmy (d_day d) (d_month d) y" and y: "y < 65536" and y0: "0 < y"
    using assms by (auto simp: date_ok_def widths_ok_def valid_dmy_iff y_def)
  have j: "0 < ?j" "?j < 2 ^ 32" using julian_bounds[OF v y] by (simp_all add: max_julian_def)
  have q: "a div 25 = b" "b div 4 = c"
    unfolding a_def b_def c_def using zdiv_zmult2_eq[of 25 "y - 1" 4] zdiv_zmult2_eq[of 4 "y - 1" 100] by simp_all
  have w: "w16 (y - 1) = y - 1" using y y0 by (simp add: w16_def)
  have "?j = (y - 1) * 365 + a - b + c + (T + d_day d)"
    unfolding julian_def days_before_def days_to_month_def a_def[symmetric] b_def[symmetric] c_def[symmetric]
      T_def[symmetric] by simp
  then have s: "w32 (w32 (w32 (w32 (w32 ((y - 1) * 365) + a) - b) + c) + (T + d_day d)) = ?j"
    unfolding w32_add using j by simp
  show ?thesis
    using assms v j(1) unfolding g_date_update_julian_def Let_def y_def[symmetric] w a_def[symmetric] q T_def[symmetric] s
    by (simp add: g_date_valid_julian_def)
qed

lemma update_dmy_ok:
  assumes "date_ok d" "has_julian d" "\<not> has_dmy d"
  shows "\<exists>dd m y. g_date_update_dmy d = d\<lparr>d_month := m, d_day := dd, d_year := y, has_dmy := True\<rparr> \<and>
    g_date_valid_dmy dd m y \<and> y < 65536 \<and> julian dd m y = jdays d"
proof -
  have j: "0 < jdays d" "jdays d \<le> max_julian" using assms by (auto simp: date_ok_def)
  then obtain dd m y where "dmy_of_julian (jdays d) = (dd, m, y)" "g_date_valid_dmy dd m y" "y < 65536"
      "julian dd m y = jdays d"
    using dmy_of_julian_valid by blast
  then show ?thesis using assms j
    by (intro exI[of _ dd] exI[of _ m] exI[of _ y])
      (simp add: g_date_update_dmy_def g_date_valid_julian_def store_dmy_id)
qed

lemma need_julian_ok:
  assumes "date_ok d" "g_date_valid d"
  shows "date_ok (need_julian d)" "has_julian (need_julian d)" "jdays (need_julian d) = day_no d"
    "has_dmy (need_julian d) = has_dmy d" "day_no (need_julian d) = day_no d"
  using assms update_julian_ok[of d] julian_bounds[of "d_day d" "d_month d" "d_year d"]
  by (auto simp: need_julian_def g_date_valid_def date_ok_def day_no_def widths_ok_def)

lemma need_dmy_ok:
  assumes "date_ok d" "g_date_valid d"
  shows "date_ok (need_dmy d)" "has_dmy (need_dmy d)" "day_no (need_dmy d) = day_no d"
    "julian (d_day (need_dmy d)) (d_month (need_dmy d)) (d_year (need_dmy d)) = day_no d"
    "g_date_valid_dmy (d_day (need_dmy d)) (d_month (need_dmy d)) (d_year (need_dmy d))"
    "d_year (need_dmy d) < 65536"
  using assms update_dmy_ok[of d]
  by (auto simp: need_dmy_def g_date_valid_def date_ok_def day_no_def widths_ok_def valid_dmy_widths)

lemma set_dmy_ok:
  assumes "g_date_valid_dmy dd m y" "y < 65536"
  shows "date_ok (g_date_set_dmy dd m y d)" "g_date_valid (g_date_set_dmy dd m y d)"
    "day_no (g_date_set_dmy dd m y d) = julian dd m y"
  using assms
  by (simp_all add: g_date_set_dmy_def store_dmy_id date_ok_def g_date_valid_def day_no_def widths_ok_def valid_dmy_widths)

lemma set_julian_ok:
  assumes "date_ok d" "0 < j" "j \<le> max_julian"
  shows "date_ok (g_date_set_julian j d)" "g_date_valid (g_date_set_julian j d)" "day_no (g_date_set_julian j d) = j"
  using assms
  by (simp_all add: g_date_set_julian_def date_ok_def g_date_valid_def day_no_def g_date_valid_julian_def widths_ok_def)

lemma get_julian_ok: "date_ok d \<Longrightarrow> g_date_valid d \<Longrightarrow> fst (g_date_get_julian d) = day_no d"
  using need_julian_ok[of d] by (simp add: g_date_get_julian_def read_julian_def Let_def)

lemma get_dmy_ok:
  assumes "date_ok d" "g_date_valid d" "g_date_valid_dmy dd m y" "y < 65536" "day_no d = julian dd m y"
  shows "fst (g_date_get_day d) = dd \<and> fst (g_date_get_month d) = m \<and> fst (g_date_get_year d) = y"
  using need_dmy_ok[OF assms(1,2)] julian_inj[OF _ _ assms(3,4)] assms
  by (simp add: g_date_get_day_def g_date_get_month_def g_date_get_year_def read_dmy_def Let_def)

section \<open>Order\<close>

lemma days_to_month_le: "0 < m \<Longrightarrow> m + int k < 14 \<Longrightarrow> days_to_month m y \<le> days_to_month (m + int k) y"
proof (induction k)
  case (Suc k)
  then have "0 < m + int k" "m + int k < 13" by simp_all
  with month_days_eq[OF this, of y] month_days_range[OF this, of y] Suc show ?case by (simp add: ac_simps)
qed simp

lemma julian_less:
  assumes "g_date_valid_dmy dd m y" "g_date_valid_dmy dd' m' y'"
    and "y < y' \<or> y = y' \<and> (m < m' \<or> m = m' \<and> dd < dd')"
  shows "julian dd m y < julian dd' m' y'"
proof -
  have v: "0 < y" "0 < m" "m < 13" "dd \<le> month_days m y" "m' < 13" "0 < dd'"
    using assms(1,2) by (simp_all add: valid_dmy_iff)
  consider "y < y'" | "y = y'" "m < m'" | "y = y'" "m = m'" "dd < dd'" using assms(3) by blast
  then show ?thesis
  proof cases
    case 1
    then have "days_before (y + 1) \<le> days_before y'" using v(1) by (intro days_before_mono) simp_all
    then show ?thesis using julian_year[OF assms(1)] julian_year[OF assms(2)] by simp
  next
    case 2
    then have "days_to_month (m + 1) y \<le> days_to_month m' y"
      using days_to_month_le[of "m + 1" "nat (m' - (m + 1))" y] v by simp
    then show ?thesis using 2 month_days_eq[OF v(2,3), of y] v by (simp add: julian_def)
  qed (simp add: julian_def)
qed

lemma cmp3_julian:
  assumes "g_date_valid_dmy dd m y" "g_date_valid_dmy dd' m' y'"
  shows "cmp3 y y' (cmp3 m m' (cmp3 dd dd' 0)) = sgn (julian dd m y - julian dd' m' y')"
proof -
  consider (lt) "y < y' \<or> y = y' \<and> (m < m' \<or> m = m' \<and> dd < dd')"
    | (gt) "y' < y \<or> y' = y \<and> (m' < m \<or> m' = m \<and> dd' < dd)" | (eq) "y = y'" "m = m'" "dd = dd'"
    by linarith
  then show ?thesis
  proof cases
    case lt
    then show ?thesis using julian_less[OF assms lt] by (auto simp: cmp3_def sgn_if)
  next
    case gt
    then show ?thesis using julian_less[OF assms(2,1) gt] by (auto simp: cmp3_def sgn_if)
  qed (simp add: cmp3_def)
qed

lemma compare_ok:
  assumes "date_ok l" "g_date_valid l" "date_ok r" "g_date_valid r"
  shows "\<exists>l' r'. g_date_compare l r = (sgn (day_no l - day_no r), l', r') \<and> date_ok l' \<and> date_ok r' \<and>
    g_date_valid l' \<and> g_date_valid r' \<and> day_no l' = day_no l \<and> day_no r' = day_no r"
proof -
  note nl = need_julian_ok[OF assms(1,2)] and nr = need_julian_ok[OF assms(3,4)]
  have s: "cmp3 a b 0 = sgn (a - b)" for a b by (simp add: cmp3_def sgn_if)
  consider "has_julian l \<and> has_julian r" | "\<not> (has_julian l \<and> has_julian r)" "has_dmy l \<and> has_dmy r"
    | "\<not> (has_julian l \<and> has_julian r)" "\<not> (has_dmy l \<and> has_dmy r)" by blast
  then show ?thesis
  proof cases
    case 1
    then show ?thesis using assms by (simp add: g_date_compare_def s day_no_def)
  next
    case 2
    then have "g_date_valid_dmy (d_day l) (d_month l) (d_year l)" "g_date_valid_dmy (d_day r) (d_month r) (d_year r)"
      "day_no l = julian (d_day l) (d_month l) (d_year l)" "day_no r = julian (d_day r) (d_month r) (d_year r)"
      using assms by (auto simp: date_ok_def day_no_def)
    then have "g_date_compare l r = (sgn (day_no l - day_no r), l, r)"
      using 2 assms(2,4) cmp3_julian unfolding g_date_compare_def by (simp only: if_False if_True simp_thms)
    then show ?thesis using assms by simp
  next
    case 3
    then show ?thesis using assms nl nr by (auto simp: g_date_compare_def s Let_def g_date_valid_def)
  qed
qed

section \<open>Operations\<close>

lemma clear_ok: "date_ok g_date_clear"
  by (simp add: date_ok_def g_date_clear_def widths_ok_def)

lemma set_field_ok:
  assumes "date_ok d" and upd: "\<And>x. widths_ok x \<Longrightarrow> widths_ok (upd x) \<and> has_julian (upd x) = has_julian x"
  shows "date_ok (set_field upd d)"
proof -
  let ?c = "if has_julian d \<and> \<not> has_dmy d then g_date_update_dmy d else d"
  have "widths_ok ?c"
    using assms(1) update_dmy_ok[of d] valid_dmy_widths by (fastforce simp: date_ok_def widths_ok_def)
  then have "widths_ok (?c\<lparr>has_julian := False\<rparr>)" by (simp add: widths_ok_def)
  from upd[OF this] show ?thesis by (simp add: set_field_def Let_def date_ok_def widths_ok_def)
qed

lemma setters_ok:
  assumes "date_ok d"
  shows "date_ok (g_date_set_day dd d)" "date_ok (g_date_set_month m d)" "date_ok (g_date_set_year y d)"
    "y < 65536 \<Longrightarrow> date_ok (g_date_set_dmy dd m y d)" "j \<le> max_julian \<Longrightarrow> date_ok (g_date_set_julian j d)"
proof -
  show "date_ok (g_date_set_day dd d)" "date_ok (g_date_set_month m d)" "date_ok (g_date_set_year y d)"
    using assms by (auto simp: g_date_set_day_def g_date_set_month_def g_date_set_year_def widths_ok_def
      intro!: set_field_ok)
  show "date_ok (g_date_set_dmy dd m y d)" if "y < 65536"
    using assms set_dmy_ok(1)[of dd m y d] that by (cases "g_date_valid_dmy dd m y") (simp_all add: g_date_set_dmy_def)
  show "date_ok (g_date_set_julian j d)" if "j \<le> max_julian"
    using assms set_julian_ok(1)[of d j] that by (cases "0 < j") (simp_all add: g_date_set_julian_def g_date_valid_julian_def)
qed

lemma add_days_ok:
  assumes "date_ok d" "g_date_valid d"
  shows "0 \<le> n \<Longrightarrow> day_no d + n \<le> max_julian \<Longrightarrow>
      date_ok (g_date_add_days n d) \<and> g_date_valid (g_date_add_days n d) \<and> day_no (g_date_add_days n d) = day_no d + n"
    "0 \<le> n \<Longrightarrow> n < day_no d \<Longrightarrow>
      date_ok (g_date_subtract_days n d) \<and> g_date_valid (g_date_subtract_days n d) \<and>
      day_no (g_date_subtract_days n d) = day_no d - n"
proof -
  note nj = need_julian_ok[OF assms]
  have r: "0 < day_no d" "day_no d \<le> max_julian" using nj(1-3) by (auto simp: date_ok_def)
  have w: "widths_ok (need_julian d)" using nj(1) by (simp add: date_ok_def)
  {
    assume n: "0 \<le> n" "day_no d + n \<le> max_julian"
    then have "w32 (day_no d + n) = day_no d + n" using r by (simp add: max_julian_def)
    then show "date_ok (g_date_add_days n d) \<and> g_date_valid (g_date_add_days n d) \<and> day_no (g_date_add_days n d) = day_no d + n"
      using assms nj r w n by (simp add: g_date_add_days_def Let_def date_ok_def g_date_valid_def day_no_def widths_ok_def)
  next
    assume n: "0 \<le> n" "n < day_no d"
    then have "w32 (day_no d - n) = day_no d - n" using r by (simp add: max_julian_def)
    then show "date_ok (g_date_subtract_days n d) \<and> g_date_valid (g_date_subtract_days n d) \<and>
        day_no (g_date_subtract_days n d) = day_no d - n"
      using assms nj r w n by (simp add: g_date_subtract_days_def Let_def date_ok_def g_date_valid_def day_no_def widths_ok_def)
  }
qed

lemma clip_day_ok:
  assumes "0 < d_day d" "d_day d \<le> 31" "0 < d_month d" "d_month d < 13" "0 < d_year d" "d_year d < 65536" "has_dmy d"
  shows "date_ok ((clip_day d)\<lparr>has_julian := False\<rparr>)"
    "d_day (clip_day d) = min (d_day d) (month_days (d_month d) (d_year d))"
    "d_month (clip_day d) = d_month d" "d_year (clip_day d) = d_year d" "has_dmy (clip_day d)"
  using assms month_days_range[OF assms(3,4), of "d_year d"]
  by (auto simp: clip_day_def Let_def month_days_def[symmetric] date_ok_def widths_ok_def valid_dmy_iff)

text \<open>The months from year 0, and the date that many months later.\<close>

definition month_no :: "int \<Rightarrow> int \<Rightarrow> int" where
  "month_no m y = 12 * y + (m - 1)"

definition at_month :: "int \<Rightarrow> int \<Rightarrow> GDate \<Rightarrow> bool" where
  "at_month dd t d \<longleftrightarrow> date_ok d \<and> has_dmy d \<and> d_year d = t div 12 \<and> d_month d = t mod 12 + 1 \<and>
     d_day d = min dd (g_date_get_days_in_month (t mod 12 + 1) (t div 12))"

lemma days_in_month_eq: "0 < y \<Longrightarrow> 0 < m \<Longrightarrow> m < 13 \<Longrightarrow> g_date_get_days_in_month m y = month_days m y"
  by (simp add: g_date_get_days_in_month_def g_date_valid_year_def g_date_valid_month_def month_days_def)

lemma clip_at_month:
  assumes "0 < dd" "dd \<le> 31" "12 \<le> t" "t < 12 * 65536" "has_dmy d" "d_day d = dd"
    "d_month d = t mod 12 + 1" "d_year d = t div 12"
  shows "at_month dd t ((clip_day d)\<lparr>has_julian := False\<rparr>)"
proof -
  have p: "0 < d_month d" "d_month d < 13" "0 < d_year d" "d_year d < 65536" using assms by simp_all
  have "0 < d_day d" "d_day d \<le> 31" using assms by simp_all
  note c = clip_day_ok[OF this p assms(5)]
  show ?thesis
    using c days_in_month_eq[OF p(3,1,2)] assms(5-8) by (simp add: at_month_def)
qed

lemma need_dmy_fields:
  assumes "date_ok d" "g_date_valid d" "day_no d = julian dd m y" "g_date_valid_dmy dd m y" "y < 65536"
  shows "d_day (need_dmy d) = dd" "d_month (need_dmy d) = m" "d_year (need_dmy d) = y" "has_dmy (need_dmy d)"
  using need_dmy_ok[OF assms(1,2)] julian_inj[OF _ _ assms(4,5)] assms(3) by auto

lemma div_mod_12:
  fixes y k :: int
  assumes "t = 12 * y + k" "0 \<le> k" "k < 12"
  shows "t div 12 = y" "t mod 12 = k"
  using assms by simp_all

lemma add_months_ok:
  assumes d: "date_ok d" "g_date_valid d" "day_no d = julian dd m y" "g_date_valid_dmy dd m y" "y < 65536"
    and n: "0 \<le> n" "month_no m y + n < 12 * 65536"
  shows "at_month dd (month_no m y + n) (g_date_add_months n d)"
proof -
  let ?d = "need_dmy d" and ?t = "month_no m y + n"
  note f = need_dmy_fields[OF d]
  have v: "0 < y" "0 < m" "m < 13" "0 < dd" "dd \<le> 31"
    using d(4) month_days_range[of m y] by (auto simp: valid_dmy_iff)
  define q r where "q = (n + (m - 1)) div 12" and "r = (n + (m - 1)) mod 12"
  have qr: "n + (m - 1) = 12 * q + r" "0 \<le> r" "r < 12" by (simp_all add: q_def r_def)
  have t: "?t = 12 * (y + q) + r" using qr(1) by (simp add: month_no_def)
  note tt = div_mod_12[OF t qr(2,3)]
  have w: "w32 (n + (m - 1)) = n + (m - 1)" using n v by (simp add: month_no_def)
  have "0 \<le> q" using n(1) v(2) by (simp add: q_def)
  moreover have "y + q < 65536" using n(2) unfolding t using qr(2) by simp
  ultimately have e: "(r + 1) mod 16 = r + 1" "(y + q) mod 65536 = y + q" using qr(2,3) v(1) by simp_all
  have "g_date_add_months n d = (clip_day (?d\<lparr>d_month := r + 1, d_year := y + q\<rparr>))\<lparr>has_julian := False\<rparr>"
    using d(2) f unfolding g_date_add_months_def Let_def f w q_def[symmetric] r_def[symmetric] by (simp add: e)
  moreover have "12 \<le> ?t" using t qr(2) v(1) \<open>0 \<le> q\<close> by simp
  ultimately show ?thesis using clip_at_month[OF v(4,5) _ n(2), of "?d\<lparr>d_month := r + 1, d_year := y + q\<rparr>"] tt f by simp
qed

lemma year_month_swap: "d\<lparr>d_year := a, d_month := b\<rparr> = d\<lparr>d_month := b, d_year := (a :: int)\<rparr>"
  by (cases d) simp

lemma subtract_months_ok:
  assumes d: "date_ok d" "g_date_valid d" "day_no d = julian dd m y" "g_date_valid_dmy dd m y" "y < 65536"
    and n: "0 \<le> n" "12 \<le> month_no m y - n"
  shows "at_month dd (month_no m y - n) (g_date_subtract_months n d)"
proof -
  let ?d = "need_dmy d" and ?t = "month_no m y - n"
  note f = need_dmy_fields[OF d]
  have v: "0 < y" "0 < m" "m < 13" "0 < dd" "dd \<le> 31"
    using d(4) month_days_range[of m y] by (auto simp: valid_dmy_iff)
  define q r where "q = n div 12" and "r = n mod 12"
  have qr: "n = 12 * q + r" "0 \<le> r" "r < 12" "0 \<le> q" using n(1) by (simp_all add: q_def r_def)
  have "12 * q < 12 * y" using n(2) qr v by (simp add: month_no_def)
  then have g: "q < y" by simp
  have bound: "?t < 12 * 65536" using n(1) d(5) v by (simp add: month_no_def)
  define m' y' where "m' = (if r < m then m - r else 12 - (r - m))" and "y' = (if r < m then y - q else y - q - 1)"
  have t: "?t = 12 * y' + (m' - 1)" "0 \<le> m' - 1" "m' - 1 < 12"
    using qr v by (simp_all add: month_no_def m'_def y'_def)
  note tt = div_mod_12[OF t]
  have e: "(y - q) mod 65536 = y - q" "(y - q - 1) mod 65536 = y - q - 1" "r < m \<Longrightarrow> (m - r) mod 16 = m - r"
    "\<not> r < m \<Longrightarrow> (12 - (r - m)) mod 16 = 12 - (r - m)"
    using g qr v d(5) by simp_all
  have "g_date_subtract_months n d = (clip_day (?d\<lparr>d_month := m', d_year := y'\<rparr>))\<lparr>has_julian := False\<rparr>"
    using d(2) f g unfolding g_date_subtract_months_def Let_def q_def[symmetric] r_def[symmetric]
    by (cases "r < m") (simp_all add: e m'_def y'_def year_month_swap)
  then show ?thesis
    using clip_at_month[OF v(4,5) n(2) bound, of "?d\<lparr>d_month := m', d_year := y'\<rparr>"] tt f by simp
qed

section \<open>Parsing\<close>

lemma assign_parts_year:
  "0 \<le> snd (snd p) \<Longrightarrow> 0 \<le> snd (snd (assign_parts pi pt i j p))"
proof (induction pi pt i j p rule: assign_parts.induct)
  case (1 pi pt i j dd m y)
  have f: "0 \<le> full_year pi (w32 x)" "0 \<le> w32 x" for x
    by (simp_all add: full_year_def w32_def Let_def)
  show ?case
    using "1.prems" "1.IH" f by (subst assign_parts.simps) (auto simp: Let_def split: GDateDMY.split)
qed

lemma choose_year: "choose_dmy pi pt = (dd, m, y) \<Longrightarrow> 0 \<le> y"
proof -
  have f: "0 \<le> full_year pi (w32 x)" "0 \<le> w32 x" for x
    by (simp_all add: full_year_def w32_def Let_def)
  assume "choose_dmy pi pt = (dd, m, y)"
  then show ?thesis using f assign_parts_year[of "(0, 0, 0)" pi pt 0 0]
    by (auto simp: choose_dmy_def Let_def split: if_splits prod.splits)
qed

lemma set_parsed_ok: "date_ok (set_parsed pi pt) \<and> (g_date_valid (set_parsed pi pt) \<longrightarrow> d_year (set_parsed pi pt) < 8000)"
proof -
  obtain dd m y where c: "choose_dmy pi pt = (dd, m, y)" by (metis prod.exhaust)
  have y: "0 \<le> y" using choose_year[OF c] .
  show ?thesis
  proof (cases "pt_ints pt \<noteq> 4 \<and> y < 8000 \<and> valid_args dd m y")
    case True
    then have "y < 8000" and v: "g_date_valid_dmy (w8 dd) m (w16 y)" by (auto simp: valid_args_def)
    then have y16: "w16 y = y" using y by (simp add: w16_def)
    have "dd mod 64 = w8 dd mod 64" by (simp add: w8_def mod_mod_cancel)
    then have "store_dmy dd m y g_date_clear = store_dmy (w8 dd) m y g_date_clear"
      by (simp add: store_dmy_def)
    also have "\<dots> = g_date_clear\<lparr>d_month := m, d_day := w8 dd, d_year := y\<rparr>"
      using v \<open>y < 8000\<close> unfolding y16 by (simp add: store_dmy_id)
    finally show ?thesis using True v \<open>y < 8000\<close> valid_dmy_widths[OF v] unfolding y16
      by (simp add: set_parsed_def c date_ok_def widths_ok_def g_date_clear_def)
  next
    case False
    then have "set_parsed pi pt = g_date_clear" by (auto simp: set_parsed_def c)
    then show ?thesis using clear_ok by (simp add: g_date_valid_def g_date_clear_def)
  qed
qed

section \<open>Properties\<close>

text \<open>
  C21: For every date of the years 1 to 65535, the day number that \<open>GDate\<close> computes from day, month and
  year converts back to the same day, month and year.
\<close>
theorem date_dmy_roundtrip:
  assumes "g_date_valid_dmy dd m y" "y < 65536" "date_ok d"
  shows "let j = fst (g_date_get_julian (g_date_set_dmy dd m y d)); e = g_date_set_julian j d
    in fst (g_date_get_day e) = dd \<and> fst (g_date_get_month e) = m \<and> fst (g_date_get_year e) = y"
proof -
  note s = set_dmy_ok[OF assms(1,2), of d]
  have j: "fst (g_date_get_julian (g_date_set_dmy dd m y d)) = julian dd m y"
    using get_julian_ok[OF s(1,2)] s(3) by simp
  note e = set_julian_ok[OF assms(3) julian_bounds[OF assms(1,2)]]
  show ?thesis unfolding Let_def j using get_dmy_ok[OF e(1,2) assms(1,2) e(3)] .
qed

theorem date_dmy_roundtrip_witness:
  "let j = fst (g_date_get_julian (g_date_set_dmy 29 2 2000 g_date_clear)); e = g_date_set_julian j g_date_clear
    in fst (g_date_get_day e) = 29 \<and> fst (g_date_get_month e) = 2 \<and> fst (g_date_get_year e) = 2000"
  by (rule date_dmy_roundtrip[OF _ _ clear_ok])
     (simp_all add: g_date_valid_dmy_def days_in_months_def leap_idx_def g_date_is_leap_year_def g_date_valid_year_def)

text \<open>
  Every day number from 1 to the last day of the year 65535 converts to a valid day, month and
  year, and the day number of these is the one it came from.
\<close>
theorem date_julian_roundtrip:
  assumes "0 < j" "j \<le> max_julian" "date_ok d"
  shows "let e = g_date_set_julian j d; dd = fst (g_date_get_day e); m = fst (g_date_get_month e); y = fst (g_date_get_year e)
    in g_date_valid_dmy dd m y \<and> fst (g_date_get_julian (g_date_set_dmy dd m y d)) = j"
proof -
  obtain dd m y where v: "g_date_valid_dmy dd m y" "y < 65536" "julian dd m y = j"
    using dmy_of_julian_valid[OF assms(1,2)] by metis
  note e = set_julian_ok[OF assms(3,1,2)]
  have g: "fst (g_date_get_day (g_date_set_julian j d)) = dd" "fst (g_date_get_month (g_date_set_julian j d)) = m"
    "fst (g_date_get_year (g_date_set_julian j d)) = y"
    using get_dmy_ok[OF e(1,2) v(1,2)] e(3) v(3) by simp_all
  note s = set_dmy_ok[OF v(1,2), of d]
  show ?thesis unfolding Let_def g using v get_julian_ok[OF s(1,2)] s(3) by simp
qed

theorem date_julian_roundtrip_witness:
  "let e = g_date_set_julian 730179 g_date_clear; dd = fst (g_date_get_day e); m = fst (g_date_get_month e);
       y = fst (g_date_get_year e)
    in g_date_valid_dmy dd m y \<and> fst (g_date_get_julian (g_date_set_dmy dd m y g_date_clear)) = 730179"
  by (rule date_julian_roundtrip[OF _ _ clear_ok]) (simp_all add: max_julian_def)

text \<open>
  Comparing two valid dates gives the sign of the difference of their day numbers, in whichever
  of the two representations each of them is; neither changes its value by being compared.
\<close>
theorem date_compare_sign:
  assumes "date_ok l" "g_date_valid l" "date_ok r" "g_date_valid r"
  shows "\<exists>l' r'. g_date_compare l r = (sgn (day_no l - day_no r), l', r') \<and> date_ok l' \<and> date_ok r' \<and>
    day_no l' = day_no l \<and> day_no r' = day_no r"
  using compare_ok[OF assms] by blast

theorem date_compare_sign_witness:
  "fst (g_date_compare (g_date_set_julian 5 g_date_clear) (g_date_set_dmy 1 1 1 g_date_clear)) = 1"
proof -
  have v: "g_date_valid_dmy 1 1 1"
    by (simp add: g_date_valid_dmy_def days_in_months_def leap_idx_def g_date_is_leap_year_def g_date_valid_year_def)
  have "max_julian = 23936166" by (rule max_julian_def)
  then have j: "5 \<le> max_julian" by simp
  note a = set_julian_ok[OF clear_ok _ j] and b = set_dmy_ok[OF v, of g_date_clear]
  have "julian 1 1 1 = 1" by (simp add: julian_def days_before_1 days_to_month_1)
  then show ?thesis using date_compare_sign[OF a(1,2) b(1,2)] a(3) b(3) by fastforce
qed

text \<open>
  C23: Adding or subtracting months moves the count of months by exactly that number and keeps the
  day, or takes the last day of the new month when that is shorter, as long as the year stays
  between 1 and 65535.
\<close>
theorem date_months:
  assumes "date_ok d" "g_date_valid d" "day_no d = julian dd m y" "g_date_valid_dmy dd m y" "y < 65536" "0 \<le> n"
  shows "(month_no m y + n < 12 * 65536 \<longrightarrow> at_month dd (month_no m y + n) (g_date_add_months n d)) \<and>
    (12 \<le> month_no m y - n \<longrightarrow> at_month dd (month_no m y - n) (g_date_subtract_months n d))"
  using add_months_ok[OF assms] subtract_months_ok[OF assms] by blast

theorem date_months_witness:
  "at_month 31 (month_no 1 2001 + 13) (g_date_add_months 13 (g_date_set_dmy 31 1 2001 g_date_clear))"
proof -
  have v: "g_date_valid_dmy 31 1 2001"
    by (simp add: g_date_valid_dmy_def days_in_months_def leap_idx_def g_date_is_leap_year_def g_date_valid_year_def)
  note s = set_dmy_ok[OF v, of g_date_clear]
  show ?thesis using date_months[OF s(1,2,3) v, of 13] by (simp add: month_no_def)
qed

text \<open>
  C22: The operations keep a date consistent: the fields within their bit-fields, the triple valid when
  it is marked as set, the day number in range, and both in agreement when both are set. Days are
  added and subtracted exactly while the result is a day of the years 1 to 65535.
\<close>
theorem date_ops_keep_ok:
  assumes "date_ok d"
  shows "date_ok (g_date_set_day dd d) \<and> date_ok (g_date_set_month m d) \<and> date_ok (g_date_set_year y d) \<and>
    (y < 65536 \<longrightarrow> date_ok (g_date_set_dmy dd m y d)) \<and> (j \<le> max_julian \<longrightarrow> date_ok (g_date_set_julian j d)) \<and>
    (g_date_valid d \<and> 0 \<le> n \<and> day_no d + n \<le> max_julian \<longrightarrow>
       date_ok (g_date_add_days n d) \<and> day_no (g_date_add_days n d) = day_no d + n) \<and>
    (g_date_valid d \<and> 0 \<le> n \<and> n < day_no d \<longrightarrow>
       date_ok (g_date_subtract_days n d) \<and> day_no (g_date_subtract_days n d) = day_no d - n)"
  using setters_ok[OF assms] add_days_ok[OF assms] by blast

theorem date_ops_keep_ok_witness:
  "date_ok (g_date_set_month 2 (g_date_set_day 30 g_date_clear))"
  using date_ops_keep_ok[OF date_ops_keep_ok[OF clear_ok, THEN conjunct1, of 30]] by blast

text \<open>
  At the ends of the range the functions leave a date that is marked valid and is not: a year after
  31 December 65535 the year has wrapped to 0, and so it is a month before January of the year 1.
\<close>
theorem date_year_zero:
  "(let d = g_date_add_years 1 (g_date_set_dmy 31 12 65535 g_date_clear)
    in g_date_valid d \<and> d_year d = 0 \<and> \<not> g_date_valid_dmy (d_day d) (d_month d) (d_year d)) \<and>
   (let d = g_date_subtract_months 1 (g_date_set_dmy 15 1 1 g_date_clear)
    in g_date_valid d \<and> d_year d = 0 \<and> \<not> g_date_valid_dmy (d_day d) (d_month d) (d_year d))"
  by (simp add: g_date_add_years_def g_date_subtract_months_def g_date_set_dmy_def g_date_clear_def store_dmy_def
      g_date_valid_def need_dmy_def fix_feb_29_def clip_day_def Let_def g_date_valid_dmy_def days_in_months_def
      leap_idx_def g_date_is_leap_year_def g_date_valid_year_def)

lemma parse_reads:
  assumes "ord \<in> set orders" and "ys = 1976 \<or> ys = 76"
    and "date_text ord 4 7 ys (strftime ''%x'' (g_date_set_dmy 4 7 1976 g_date_clear))"
    and "pi = parse_info_init \<or> knows locale ord (ys = 76) pi"
  obtains pi' where "knows locale ord (ys = 76) pi'"
    "g_date_set_parse locale strftime norm str pi = Some (set_parsed pi' (g_date_fill_parse_tokens norm pi' str), pi')"
proof (cases "current_locale pi = Some locale")
  case True
  then have "knows locale ord (ys = 76) pi" using assms(4) by (auto simp: parse_info_init_def)
  with True show thesis by (intro that[of pi]) (simp_all add: g_date_set_parse_def g_date_prepare_to_parse_def)
next
  case False
  define name where "name = (\<lambda>fmt i. Some (norm (strftime fmt (g_date_set_dmy 1 (int i) 1 g_date_clear))))"
  define p0 where "p0 = pi\<lparr>current_locale := Some locale, short_month_names := Some ''Error'' # map (name ''%b'') [1..<13],
      long_month_names := Some ''Error'' # map (name ''%B'') [1..<13]\<rparr>"
  have "pi = parse_info_init" using False assms(4) by (auto simp: knows_def)
  then have "length (dmy_order p0) = 3" "\<not> using_twodigit_years p0" "locale_era_adjust p0 = 0" "current_locale p0 = Some locale"
    by (simp_all add: p0_def parse_info_init_def)
  from learns[OF assms(1-3) this]
  obtain pi' where pi': "learn_order (g_date_fill_parse_tokens norm p0 (strftime ''%x'' (g_date_set_dmy 4 7 1976 g_date_clear))) p0
      = Some pi'" "knows locale ord (ys = 76) pi'" .
  show thesis
    by (rule that[OF pi'(2)])
      (use False pi'(1) in \<open>simp add: g_date_set_parse_def g_date_prepare_to_parse_def Let_def p0_def name_def\<close>)
qed

text \<open>
  C24: In a locale whose sample date 4 July 1976 is written as three numbers, in any order and with any
  separators, the year with two digits or in full, the parser reads every valid date before the year
  8000 that is written in the same way: the result is exactly that date. Two digits stand for the
  years 1930 to 2029. What it learned of the locale stays, so that the same holds of the next call; and
  whatever other text it is given in between, it returns a consistent date, not set or before the year 8000.
\<close>
theorem date_parse_reads:
  assumes "ord \<in> set orders" and "ys = 1976 \<or> ys = 76"
    and "date_text ord 4 7 ys (strftime ''%x'' (g_date_set_dmy 4 7 1976 g_date_clear))"
    and "pi = parse_info_init \<or> knows locale ord (ys = 76) pi"
    and "g_date_valid_dmy d m y" "y < 8000" "writes_year (ys = 76) y n" "date_text ord d m n str"
  shows "\<exists>pi' pi'' e.
    g_date_set_parse locale strftime norm str pi = Some (g_date_set_dmy d m y g_date_clear, pi') \<and>
    knows locale ord (ys = 76) pi' \<and>
    g_date_set_parse locale strftime norm other pi = Some (e, pi'') \<and>
    knows locale ord (ys = 76) pi'' \<and> date_ok e \<and> (g_date_valid e \<longrightarrow> d_year e < 8000)"
proof -
  obtain p where p: "knows locale ord (ys = 76) p"
    "g_date_set_parse locale strftime norm str pi = Some (set_parsed p (g_date_fill_parse_tokens norm p str), p)"
    by (rule parse_reads[OF assms(1,2) _ assms(4), where strftime = strftime and norm = norm and str = str, OF assms(3)])
  obtain q where q: "knows locale ord (ys = 76) q"
    "g_date_set_parse locale strftime norm other pi = Some (set_parsed q (g_date_fill_parse_tokens norm q other), q)"
    by (rule parse_reads[OF assms(1,2) _ assms(4), where strftime = strftime and norm = norm and str = other, OF assms(3)])
  show ?thesis
    using p q reads_in_order[OF assms(1) p(1) assms(8,7,5,6), of norm] set_parsed_ok[of q "g_date_fill_parse_tokens norm q other"]
    by (intro exI[of _ p] exI[of _ q] exI[of _ "set_parsed q (g_date_fill_parse_tokens norm q other)"]) simp
qed

text \<open>The example of a locale that writes the month first and two digits of the year.\<close>

lemma writes_example:
  "writes ''07'' 7" "writes ''04'' 4" "writes ''76'' 76" "writes ''2'' 2" "writes ''29'' 29" "writes ''00'' 0"
  by (simp_all add: writes_def decimal_of_def ascii_digit_def numeral_2_eq_2)

lemma three_example: "writes a x \<Longrightarrow> writes b y \<Longrightarrow> writes c z \<Longrightarrow> three_numbers (a @ ''/'' @ b @ ''/'' @ c) x y z"
  unfolding three_numbers_def
  by (intro exI[of _ "[]"] exI[of _ a] exI[of _ "''/''"] exI[of _ b] exI[of _ c]) (simp add: no_digits_def ascii_digit_def)

theorem date_parse_reads_witness:
  "\<exists>pi'. g_date_set_parse ''en_US'' (\<lambda>fmt d. ''07/04/76'') (\<lambda>s. s) ''2/29/00'' parse_info_init =
     Some (g_date_set_dmy 29 2 2000 g_date_clear, pi')"
proof -
  let ?o = "[G_DATE_MONTH, G_DATE_DAY, G_DATE_YEAR]"
  have "?o \<in> set orders" "date_text ?o 4 7 76 ''07/04/76''" "date_text ?o 29 2 0 ''2/29/00''"
    using three_example[OF writes_example(1-3)] three_example[OF writes_example(4-6)]
    by (simp_all add: orders_def date_text_def)
  moreover have "g_date_valid_dmy 29 2 2000" "writes_year (76 = (76 :: int)) 2000 0"
    by (simp_all add: g_date_valid_dmy_def days_in_months_def leap_idx_def g_date_is_leap_year_def
        g_date_valid_year_def writes_year_def)
  ultimately show ?thesis
    using date_parse_reads[of ?o 76 "\<lambda>fmt d. ''07/04/76''" parse_info_init "''en_US''" 29 2 2000 0 "''2/29/00''" "\<lambda>s. s" "[]"]
    by auto
qed

text \<open>
  The sample date may contain four numbers, as in a locale whose short date also has the day of the
  week as a number; then the loop that learns the order runs past its arrays, before any text is read.
\<close>
theorem date_learn_overrun:
  "g_date_set_parse ''xx'' (\<lambda>fmt d. if fmt = ''%x'' then ''1976-07-04 (7)'' else ''month'') (\<lambda>s. s) str parse_info_init = None"
proof -
  have a: "scan_ints 0 ''1976-07-04 (7)'' = [''1976'', ''07'', ''04'', ''7'']"
    by (simp add: scan_ints.simps Let_def ascii_digit_def)
  show ?thesis
    by (simp add: g_date_set_parse_def g_date_prepare_to_parse_def parse_info_init_def Let_def g_date_fill_parse_tokens_def a
        learn_order_def upt_rec)
qed

text \<open>
  A day number is checked as 8 bits. In a locale that writes the day first and the year with two
  digits, the text 2049-12-31 is read as day 2049, which is 1 modulo 256: the result is the first of
  December 1931, and the order year, month, day is not tried.
\<close>
theorem date_parse_iso_2049:
  "\<exists>d pi. g_date_set_parse ''en_GB'' (\<lambda>fmt d. if fmt = ''%x'' then ''04/07/76'' else ''month'')
       (\<lambda>s. s) ''2049-12-31'' parse_info_init = Some (d, pi) \<and>
     g_date_valid d \<and> d_day d = 1 \<and> d_month d = 12 \<and> d_year d = 1931"
proof -
  have a: "scan_ints 0 ''04/07/76'' = [''04'', ''07'', ''76'']"
    by (simp add: scan_ints.simps Let_def ascii_digit_def)
  have b: "scan_ints 0 ''2049-12-31'' = [''2049'', ''12'', ''31'']"
    by (simp add: scan_ints.simps Let_def ascii_digit_def)
  let ?strf = "\<lambda>fmt d. if fmt = ''%x'' then ''04/07/76'' else ''month''"
  let ?pi = "\<lparr>current_locale = Some ''en_GB'', long_month_names = Some ''Error'' # replicate 12 (Some ''month''),
    short_month_names = Some ''Error'' # replicate 12 (Some ''month''),
    dmy_order = [G_DATE_DAY, G_DATE_MONTH, G_DATE_YEAR], using_twodigit_years = True, locale_era_adjust = 0\<rparr>"
  have p: "g_date_prepare_to_parse ''en_GB'' ?strf (\<lambda>s. s) ''2049-12-31'' parse_info_init =
     Some (\<lparr>pt_ints = 3, pt_n = [2049, 12, 31], pt_month = 0\<rparr>, ?pi)"
    by (simp add: g_date_prepare_to_parse_def parse_info_init_def Let_def g_date_fill_parse_tokens_def a b
        atoi_def s32_def learn_order_three[unfolded numeral_3_eq_3] learn_number_def map_replicate_const)
  show ?thesis unfolding g_date_set_parse_def p
    by (simp add: set_parsed_def choose_dmy_def assign_parts.simps valid_args_def w8_def w16_def w32_def full_year_def
       twodigit_start_year_def Let_def g_date_valid_dmy_def days_in_months_def leap_idx_def g_date_is_leap_year_def
       g_date_valid_year_def store_dmy_def g_date_clear_def g_date_valid_def)
qed

end
