(* ===== verification/Glib_Pattern.thy ===== *)
theory Glib_Pattern
  imports Glib_Utf8
begin

text \<open>
  Glob patterns (\<open>gpattern.c\<close>): a pattern is put into a canonical form and given a match type, and a
  string is matched by comparing, by comparing at one end, or by the general matcher, forwards or on
  the reversed texts. Texts are the bytes before the NUL, so that reading past the end gives \<open>[]\<close>.
\<close>

datatype GMatchType = G_MATCH_ALL | G_MATCH_ALL_TAIL | G_MATCH_HEAD | G_MATCH_TAIL | G_MATCH_EXACT

record GPatternSpec =
  match_type :: GMatchType
  pattern_length :: nat
  min_length :: nat
  max_length :: nat
  pattern :: "u8 list"

text \<open>Counts are unsigned and of 32 bits.\<close>

definition guint :: "nat \<Rightarrow> nat" where
  "guint n = n mod 2 ^ 32"

abbreviation joker :: u8 where "joker \<equiv> 63"
abbreviation wildcard :: u8 where "wildcard \<equiv> 42"

section \<open>The general matcher\<close>

text \<open>After a wildcard: further wildcards and jokers. \<open>None\<close> is a joker with nothing left to take.\<close>

fun skip_jokers :: "u8 list \<Rightarrow> u8 list \<Rightarrow> (u8 list \<times> u8 list) option" where
  "skip_jokers [] s = Some ([], s)"
| "skip_jokers (ch # p) s =
     (if ch = joker then if s = [] then None else skip_jokers p (g_utf8_next_char s)
      else if ch = wildcard then skip_jokers p s
      else Some (ch # p, s))"

text \<open>
  The loop over the places where the character after a wildcard occurs; \<open>f\<close> is the match of the rest
  of the pattern, with whether it got to its next wildcard. When the string is used up, the loop of
  the caller goes on with the rest of the pattern.
\<close>

function star_scan :: "(u8 list \<Rightarrow> bool \<times> bool) \<Rightarrow> u8 \<Rightarrow> u8 list \<Rightarrow> bool" where
  "star_scan f ch s =
     (if s = [] then False
      else if ch \<noteq> hd s then star_scan f ch (g_utf8_next_char s)
      else let (result, next_wildcard_reached) = f (tl s)
           in if result then True
              else if next_wildcard_reached then False
              else if tl s \<noteq> [] then star_scan f ch (tl s)
              else fst (f []))"
  by auto
termination by (relation "measure (\<lambda>(f, ch, s). length s)") auto

declare star_scan.simps [simp del]

lemma skip_jokers_length: "skip_jokers p s = Some (q, t) \<Longrightarrow> length q \<le> length p"
  by (induction p s rule: skip_jokers.induct) (auto split: if_splits)

text \<open>The result, and the value left in the flag for the wildcard.\<close>

function g_pattern_ph_match :: "u8 list \<Rightarrow> u8 list \<Rightarrow> bool \<times> bool" where
  "g_pattern_ph_match p s =
     (case p of
        [] \<Rightarrow> (s = [], False)
      | ch # p \<Rightarrow>
          if ch = joker then if s = [] then (False, False) else g_pattern_ph_match p (g_utf8_next_char s)
          else if ch = wildcard
          then (case skip_jokers p s of
                  None \<Rightarrow> (False, True)
                | Some ([], t) \<Rightarrow> (True, True)
                | Some (c # q, t) \<Rightarrow> (star_scan (g_pattern_ph_match q) c t, True))
          else if s \<noteq> [] \<and> ch = hd s then g_pattern_ph_match p (tl s)
          else (False, False))"
  by pat_completeness auto
termination
proof (relation "measure (length \<circ> fst)", goal_cases)
  case (3 p s x xs q t c u v)
  then show ?case using skip_jokers_length by fastforce
qed (auto dest: skip_jokers_length)

declare g_pattern_ph_match.simps [simp del]

section \<open>Matching against a specification\<close>

definition g_pattern_match :: "GPatternSpec \<Rightarrow> nat \<Rightarrow> u8 list \<Rightarrow> u8 list option \<Rightarrow> bool" where
  "g_pattern_match pspec string_length string string_reversed =
     (if string_length < min_length pspec \<or> max_length pspec < string_length then False
      else case match_type pspec of
             G_MATCH_ALL \<Rightarrow> fst (g_pattern_ph_match (pattern pspec) string)
           | G_MATCH_ALL_TAIL \<Rightarrow>
               (case string_reversed of
                  Some r \<Rightarrow> fst (g_pattern_ph_match (pattern pspec) r)
                | None \<Rightarrow> fst (g_pattern_ph_match (pattern pspec) (g_utf8_strreverse string (int string_length))))
           | G_MATCH_HEAD \<Rightarrow>
               if pattern_length pspec = string_length then pattern pspec = string
               else if pattern_length pspec \<noteq> 0
               then take (pattern_length pspec) (pattern pspec) = take (pattern_length pspec) string
               else True
           | G_MATCH_TAIL \<Rightarrow>
               if pattern_length pspec \<noteq> 0 then pattern pspec = drop (string_length - pattern_length pspec) string
               else True
           | G_MATCH_EXACT \<Rightarrow> if pattern_length pspec \<noteq> string_length then False else pattern pspec = string)"

section \<open>Making a specification\<close>

text \<open>The locals of the loop; \<open>out\<close> is what has been written, positions are \<open>None\<close> for -1.\<close>

record canon =
  out :: "u8 list"
  plen :: nat
  minl :: nat
  maxl :: nat
  pos :: nat
  hw_pos :: "nat option"
  tw_pos :: "nat option"
  hj_pos :: "nat option"
  tj_pos :: "nat option"
  follows_wildcard :: bool
  pending_jokers :: nat

definition first_pos :: "nat option \<Rightarrow> nat \<Rightarrow> nat option" where
  "first_pos p i = (case p of None \<Rightarrow> Some i | Some j \<Rightarrow> Some j)"

fun flush_jokers :: "nat \<Rightarrow> bool \<Rightarrow> canon \<Rightarrow> canon" where
  "flush_jokers 0 count s = s\<lparr>pending_jokers := 0\<rparr>"
| "flush_jokers (Suc n) count s =
     flush_jokers n count (s\<lparr>out := out s @ [joker], hj_pos := first_pos (hj_pos s) (pos s), tj_pos := Some (pos s),
       pos := (if count then pos s + 1 else pos s)\<rparr>)"

definition canon_step :: "u8 \<Rightarrow> canon \<Rightarrow> canon" where
  "canon_step c s =
     (if c = wildcard
      then if follows_wildcard s then s\<lparr>plen := plen s - 1\<rparr>
           else s\<lparr>follows_wildcard := True, hw_pos := first_pos (hw_pos s) (pos s), tw_pos := Some (pos s),
                  out := out s @ [c], pos := pos s + 1\<rparr>
      else if c = joker
      then s\<lparr>pending_jokers := guint (pending_jokers s + 1), minl := guint (minl s + 1), maxl := guint (maxl s + 4)\<rparr>
      else let s = flush_jokers (pending_jokers s) True s
           in s\<lparr>follows_wildcard := False, minl := guint (minl s + 1), maxl := guint (maxl s + 1),
                out := out s @ [c], pos := pos s + 1\<rparr>)"

definition canon_init :: "u8 list \<Rightarrow> canon" where
  "canon_init p = \<lparr>out = [], plen = guint (length p), minl = 0, maxl = 0, pos = 0, hw_pos = None, tw_pos = None,
     hj_pos = None, tj_pos = None, follows_wildcard = False, pending_jokers = 0\<rparr>"

definition int_pos :: "nat option \<Rightarrow> int" where
  "int_pos p = (case p of None \<Rightarrow> -1 | Some i \<Rightarrow> int i)"

definition g_pattern_spec_new :: "u8 list \<Rightarrow> GPatternSpec" where
  "g_pattern_spec_new p =
     (let s = fold canon_step p (canon_init p);
          s = flush_jokers (pending_jokers s) False s;
          seen_joker = (hj_pos s \<noteq> None);
          seen_wildcard = (hw_pos s \<noteq> None);
          more_wildcards = (seen_wildcard \<and> hw_pos s \<noteq> tw_pos s);
          maxl = (if seen_wildcard then 2 ^ 32 - 1 else maxl s);
          spec = \<lparr>match_type = G_MATCH_EXACT, pattern_length = plen s, min_length = minl s,
                  max_length = maxl, pattern = out s\<rparr>
      in if \<not> seen_joker \<and> \<not> more_wildcards \<and> out s \<noteq> [] \<and> hd (out s) = wildcard
         then spec\<lparr>match_type := G_MATCH_TAIL, pattern_length := plen s - 1, pattern := tl (out s)\<rparr>
         else if \<not> seen_joker \<and> \<not> more_wildcards \<and> 0 < plen s \<and> out s ! (plen s - 1) = wildcard
         then spec\<lparr>match_type := G_MATCH_HEAD, pattern_length := plen s - 1, pattern := take (plen s - 1) (out s)\<rparr>
         else if \<not> seen_joker \<and> \<not> more_wildcards \<and> \<not> seen_wildcard then spec
         else let tw = int (plen s) - 1 - int_pos (tw_pos s);
                  tj = int (plen s) - 1 - int_pos (tj_pos s);
                  tail = (if seen_wildcard then int_pos (hw_pos s) < tw else int_pos (hj_pos s) < tj)
              in if tail
                 then spec\<lparr>match_type := G_MATCH_ALL_TAIL, pattern := g_utf8_strreverse (out s) (int (plen s))\<rparr>
                 else spec\<lparr>match_type := G_MATCH_ALL\<rparr>)"

definition g_pattern_spec_equal :: "GPatternSpec \<Rightarrow> GPatternSpec \<Rightarrow> bool" where
  "g_pattern_spec_equal a b \<longleftrightarrow>
     pattern_length a = pattern_length b \<and> match_type a = match_type b \<and> pattern a = pattern b"

definition g_pattern_match_string :: "GPatternSpec \<Rightarrow> u8 list \<Rightarrow> bool" where
  "g_pattern_match_string pspec string = g_pattern_match pspec (guint (length string)) string None"

definition g_pattern_match_simple :: "u8 list \<Rightarrow> u8 list \<Rightarrow> bool" where
  "g_pattern_match_simple p string = g_pattern_match (g_pattern_spec_new p) (guint (length string)) string None"

end
