(* ===== verification/Glib_Pattern_Laws.thy ===== *)
theory Glib_Pattern_Laws
  imports Glib_Pattern Glib_Utf8_Valid
begin

text \<open>
  Glob matching on characters as the reference, and the matcher of \<open>gpattern.c\<close> on UTF-8 bytes
  against it: the leftmost scan after a wildcard, the reversed match, the canonical form.
\<close>

section \<open>The reference\<close>

abbreviation any_char :: u32 where "any_char \<equiv> 63"
abbreviation star :: u32 where "star \<equiv> 42"

function glob :: "u32 list \<Rightarrow> u32 list \<Rightarrow> bool" where
  "glob [] s = (s = [])"
| "glob (c # p) [] = (c = star \<and> glob p [])"
| "glob (c # p) (d # s) =
     (if c = star then glob p (d # s) \<or> glob (c # p) s else (c = any_char \<or> c = d) \<and> glob p s)"
  by pat_completeness auto
termination by (relation "measure (\<lambda>(p, s). length p + length s)") auto

lemma glob_lit: "c \<noteq> star \<Longrightarrow> glob (c # p) s \<longleftrightarrow> s \<noteq> [] \<and> (c = any_char \<or> c = hd s) \<and> glob p (tl s)"
  by (cases s) simp_all

lemma drop_some: "(\<exists>k. P (drop k (d # s))) \<longleftrightarrow> P (d # s) \<or> (\<exists>k. P (drop k s))"
  by (metis drop0 drop_Suc_Cons not0_implies_Suc)

lemma glob_star: "glob (star # p) s \<longleftrightarrow> (\<exists>k. glob p (drop k s))"
proof (induction s)
  case (Cons d s)
  then show ?case unfolding drop_some[of "glob p"] by simp
qed simp

declare glob.simps(3) [simp del]

lemma glob_append: "glob (p @ q) s \<longleftrightarrow> (\<exists>k. glob p (take k s) \<and> glob q (drop k s))"
proof (induction p arbitrary: s)
  case Nil
  show ?case by (auto intro: exI[of _ 0])
next
  case (Cons c p)
  show ?case
  proof (cases "c = star")
    case True
    have "glob (star # p @ q) s \<longleftrightarrow> (\<exists>j k. glob p (take k (drop j s)) \<and> glob q (drop (k + j) s))"
      by (simp add: glob_star Cons)
    also have "\<dots> \<longleftrightarrow> (\<exists>m j. glob p (drop j (take m s)) \<and> glob q (drop m s))"
    proof (intro iffI; elim exE conjE)
      fix j k assume "glob p (take k (drop j s))" "glob q (drop (k + j) s)"
      then show "\<exists>m j. glob p (drop j (take m s)) \<and> glob q (drop m s)"
        by (intro exI[of _ "k + j"] exI[of _ j]) (simp_all add: drop_take)
    next
      fix m j assume a: "glob p (drop j (take m s))" "glob q (drop m s)"
      then have "glob p (take (m - min m j) (drop (min m j) s))"
        by (cases "j \<le> m") (simp_all add: drop_take min_absorb1 min_absorb2)
      with a show "\<exists>j k. glob p (take k (drop j s)) \<and> glob q (drop (k + j) s)"
        by (intro exI[of _ "min m j"] exI[of _ "m - min m j"]) simp
    qed
    finally show ?thesis using True by (simp add: glob_star)
  next
    case False
    then have n: "\<not> glob (c # p) []" by simp
    show ?thesis
    proof (cases s)
      case (Cons d t)
      have "(\<exists>k. glob (c # p) (take k (d # t)) \<and> glob q (drop k (d # t))) \<longleftrightarrow>
          (\<exists>k. glob (c # p) (d # take k t) \<and> glob q (drop k t))"
      proof (intro iffI; elim exE conjE)
        fix k assume a: "glob (c # p) (take k (d # t))" "glob q (drop k (d # t))"
        with n obtain j where "k = Suc j" by (cases k) auto
        with a show "\<exists>k. glob (c # p) (d # take k t) \<and> glob q (drop k t)" by (intro exI[of _ j]) simp
      next
        fix k assume "glob (c # p) (d # take k t)" "glob q (drop k t)"
        then show "\<exists>k. glob (c # p) (take k (d # t)) \<and> glob q (drop k (d # t))" by (intro exI[of _ "Suc k"]) simp
      qed
      then show ?thesis using False Cons Cons.IH[of t] by (simp add: glob_lit)
    qed (use False in simp)
  qed
qed

lemma glob_single: "c \<noteq> star \<Longrightarrow> glob [c] s \<longleftrightarrow> (\<exists>d. s = [d] \<and> (c = any_char \<or> c = d))"
  by (cases s) (auto simp: glob_lit)

lemma glob_only_star [simp]: "glob [star] s"
  unfolding glob_star by (rule exI[of _ "length s"]) simp

lemma glob_appendI: "glob p x \<Longrightarrow> glob q y \<Longrightarrow> glob (p @ q) (x @ y)"
  unfolding glob_append by (rule exI[of _ "length x"]) simp

lemma glob_rev_imp: "glob p s \<Longrightarrow> glob (rev p) (rev s)"
proof (induction p arbitrary: s)
  case (Cons c p)
  show ?case
  proof (cases "c = star")
    case True
    with Cons.prems obtain k where "glob p (drop k s)" by (auto simp: glob_star)
    then have "glob (rev p @ [star]) (rev (drop k s) @ rev (take k s))"
      by (intro glob_appendI Cons.IH) simp_all
    then show ?thesis using True by (simp add: rev_append[symmetric])
  next
    case False
    with Cons.prems obtain d t where "s = d # t" "c = any_char \<or> c = d" "glob p t"
      by (cases s) (auto simp: glob_lit)
    with False show ?thesis by (auto intro!: glob_appendI Cons.IH simp: glob_single)
  qed
qed simp

lemma glob_rev: "glob (rev p) (rev s) \<longleftrightarrow> glob p s"
  using glob_rev_imp[of p s] glob_rev_imp[of "rev p" "rev s"] by auto

section \<open>Wildcards that commute\<close>

definition glob_eq :: "u32 list \<Rightarrow> u32 list \<Rightarrow> bool" where
  "glob_eq p q \<longleftrightarrow> (\<forall>s. glob p s = glob q s)"

lemma glob_eq_trans [trans]: "glob_eq p q \<Longrightarrow> glob_eq q r \<Longrightarrow> glob_eq p r"
  by (simp add: glob_eq_def)

lemma glob_eq_refl [simp]: "glob_eq p p"
  by (simp add: glob_eq_def)

lemma glob_eq_append: "glob_eq p q \<Longrightarrow> glob_eq (r @ p) (r @ q)"
  by (simp add: glob_eq_def glob_append)

lemma glob_eq_Cons: "glob_eq p q \<Longrightarrow> glob_eq (c # p) (c # q)"
  using glob_eq_append[of p q "[c]"] by simp

lemma star_star: "glob_eq (star # star # p) (star # p)"
proof -
  have "(\<exists>k j. glob p (drop (j + k) s)) \<longleftrightarrow> (\<exists>k. glob p (drop k s))" for s
    by (metis add_0)
  then show ?thesis by (simp add: glob_eq_def glob_star)
qed

lemma any_star: "glob_eq (any_char # star # p) (star # any_char # p)"
proof -
  have "glob (any_char # star # p) s \<longleftrightarrow> glob (star # any_char # p) s" for s
  proof -
    have "glob (star # any_char # p) s \<longleftrightarrow> (\<exists>k. k < length s \<and> glob p (drop (Suc k) s))"
      by (simp add: glob_star glob_lit not_le drop_Suc tl_drop)
    also have "\<dots> \<longleftrightarrow> s \<noteq> [] \<and> (\<exists>k. glob p (drop (Suc k) s))"
    proof (intro iffI conjI; elim exE conjE)
      fix k assume "s \<noteq> []" "glob p (drop (Suc k) s)"
      then show "\<exists>k. k < length s \<and> glob p (drop (Suc k) s)"
        by (cases "k < length s") (blast, auto intro!: exI[of _ "length s - 1"])
    qed auto
    also have "\<dots> \<longleftrightarrow> glob (any_char # star # p) s"
      by (simp add: glob_lit glob_star drop_Suc)
    finally show ?thesis by simp
  qed
  then show ?thesis by (simp add: glob_eq_def)
qed

lemma anys_star: "glob_eq (replicate k any_char @ star # p) (star # replicate k any_char @ p)"
proof (induction k)
  case (Suc k)
  have "glob_eq (any_char # replicate k any_char @ star # p) (any_char # star # replicate k any_char @ p)"
    by (rule glob_eq_Cons[OF Suc])
  also have "glob_eq \<dots> (star # any_char # replicate k any_char @ p)" by (rule any_star)
  finally show ?case by simp
qed simp

section \<open>Characters and their bytes\<close>

abbreviation enc :: "u32 list \<Rightarrow> u8 list" where
  "enc cs \<equiv> concat (map g_unichar_to_utf8 cs)"

definition chars :: "u32 list \<Rightarrow> bool" where
  "chars cs \<longleftrightarrow> (\<forall>c \<in> set cs. c \<noteq> 0 \<and> UNICODE_VALID c)"

lemma chars_Nil [simp]: "chars []"
  by (simp add: chars_def)

lemma chars_Cons [simp]: "chars (c # cs) \<longleftrightarrow> c \<noteq> 0 \<and> UNICODE_VALID c \<and> chars cs"
  by (auto simp: chars_def)

lemma chars_append [simp]: "chars (cs @ ds) \<longleftrightarrow> chars cs \<and> chars ds"
  by (auto simp: chars_def)

lemma chars_rev [simp]: "chars (rev cs) \<longleftrightarrow> chars cs"
  by (simp add: chars_def)

lemma chars_drop: "chars cs \<Longrightarrow> chars (drop k cs)" and chars_take: "chars cs \<Longrightarrow> chars (take k cs)"
  by (auto simp: chars_def dest: in_set_dropD in_set_takeD)

lemma enc_joker [simp]: "g_unichar_to_utf8 any_char = [joker]" and enc_wildcard [simp]: "g_unichar_to_utf8 star = [wildcard]"
  by (simp_all add: encode_ascii)

lemma valid_jw [simp]: "UNICODE_VALID any_char" "UNICODE_VALID star"
  by (simp_all add: valid_scalar scalar_def)

text \<open>A valid character: a lead byte, which no continuation byte is, and its continuation bytes.\<close>

lemma char_bytes:
  assumes "c \<noteq> 0" and "UNICODE_VALID c"
  obtains b bs where "g_unichar_to_utf8 c = b # bs" "\<not> is_cont b" "\<forall>x \<in> set bs. is_cont x" "g_utf8_skip b = Suc (length bs)"
    "length bs < 4" "\<forall>x \<in> set (b # bs). x \<noteq> 0"
proof -
  have c: "c < 0x80000000" by (rule valid_below[OF assms(2)])
  have l: "UTF8_LENGTH c \<le> 4" using assms(2) by (auto simp: UTF8_LENGTH_def valid_scalar scalar_def word_less_nat_alt)
  note e = encode_skip[OF c]
  show thesis
  proof (cases "c < 0x80")
    case True
    have "\<not> is_cont (ucast c)"
    proof -
      have "\<not> bit (ucast c :: u8) 7" using bits_ge_not[of c 7 7] True by (simp add: bit_simps word_less_nat_alt)
      then have "\<not> bit ((ucast c :: u8) AND 0xC0) 7" by (simp add: bit_simps)
      moreover have "bit (0x80 :: u8) 7" by (simp add: bit_numeral_rec bit_1_iff)
      ultimately show ?thesis unfolding is_cont_def by metis
    qed
    with e(2)[of "[]"] e(3)[of "[]"] True assms(1) show thesis
      by (intro that[of "ucast c" "[]"]) (simp_all add: encode_ascii UTF8_LENGTH_def)
  next
    case False
    then have "0x80 \<le> c" by simp
    then obtain b n where "g_unichar_to_utf8 c = b # conts n c" "UTF8_LENGTH c = Suc n" "g_utf8_skip b = Suc n" "b \<noteq> 0" "\<not> is_cont b"
      using encode_long[OF _ c] by metis
    with l conts_are_cont[of _ n c] show thesis by (intro that[of b "conts n c"]) auto
  qed
qed

lemma cont_not_jw [simp]: "\<not> is_cont joker" "\<not> is_cont wildcard"
  by (simp_all add: is_cont_def)

lemma char_literal:
  assumes "c \<noteq> any_char" "c \<noteq> star" "UNICODE_VALID c" "x \<in> set (g_unichar_to_utf8 c)"
  shows "x \<noteq> joker" "x \<noteq> wildcard"
proof -
  have c: "c < 0x80000000" by (rule valid_below[OF assms(3)])
  have "x \<noteq> joker \<and> x \<noteq> wildcard"
  proof (cases "c < 0x80")
    case True
    then have "x = ucast c" using assms(4) by (simp add: encode_ascii)
    then have "ucast x = c" using ascii_byte(1)[OF True] by simp
    with assms(1,2) show ?thesis by auto
  next
    case False
    then have "0x80 \<le> c" by simp
    then obtain b n where b: "g_unichar_to_utf8 c = b # conts n c" "0x80 \<le> (ucast b :: u32)"
      using encode_long[OF _ c] by metis
    from b(2) have "b \<noteq> joker \<and> b \<noteq> wildcard" by auto
    with b(1) assms(4) conts_are_cont[of x n c] show ?thesis by auto
  qed
  then show "x \<noteq> joker" "x \<noteq> wildcard" by simp_all
qed

lemma enc_eq_Cons: "UNICODE_VALID c \<Longrightarrow> UNICODE_VALID d \<Longrightarrow> g_unichar_to_utf8 c @ r = g_unichar_to_utf8 d @ s \<longleftrightarrow> c = d \<and> r = s"
  by (metis get_char_encode same_append_eq valid_below)

lemma enc_eq_Nil [simp]: "chars cs \<Longrightarrow> enc cs = [] \<longleftrightarrow> cs = []"
  by (cases cs) (auto elim: char_bytes)

lemma char_nonempty: "c \<noteq> 0 \<Longrightarrow> UNICODE_VALID c \<Longrightarrow> g_unichar_to_utf8 c \<noteq> []"
  by (auto elim: char_bytes)

lemma enc_inj: "chars cs \<Longrightarrow> chars ds \<Longrightarrow> enc cs = enc ds \<longleftrightarrow> cs = ds"
proof (induction cs arbitrary: ds)
  case Nil
  then show ?case using enc_eq_Nil[of ds] by auto
next
  case (Cons c cs)
  then show ?case using char_nonempty by (cases ds) (auto simp: enc_eq_Cons)
qed

lemma next_char_enc [simp]: "UNICODE_VALID c \<Longrightarrow> g_utf8_next_char (g_unichar_to_utf8 c @ r) = r"
  by (simp add: encode_skip(4) valid_below)

lemma cont_skip: "is_cont b \<Longrightarrow> g_utf8_skip b = 1"
proof -
  have "list_all (\<lambda>i. is_cont (of_nat i) \<longrightarrow> utf8_skip_data ! i = 1) [0..<256]"
    by (simp add: utf8_skip_data_def upt_rec is_cont_def)
  moreover have "unat b < 256" using unat_bound[of b] by simp
  moreover have "of_nat (unat b) = b" by simp
  ultimately show "is_cont b \<Longrightarrow> g_utf8_skip b = 1"
    unfolding list_all_iff g_utf8_skip_def by (metis atLeastLessThan_iff atLeast_upt set_upt zero_le)
qed

lemma next_char_cont: "is_cont b \<Longrightarrow> g_utf8_next_char (b # s) = s"
  by (simp add: g_utf8_next_char_def cont_skip)

section \<open>The matcher\<close>

text \<open>Whether the pattern gets to its first wildcard on the characters.\<close>

fun reach :: "u32 list \<Rightarrow> u32 list \<Rightarrow> bool" where
  "reach [] s = False"
| "reach (c # p) s = (c = star \<or> s \<noteq> [] \<and> (c = any_char \<or> c = hd s) \<and> reach p (tl s))"

lemma reach_earliest: "reach q s \<Longrightarrow> glob q (drop k s) \<Longrightarrow> glob q s"
proof (induction q arbitrary: s k)
  case (Cons c q)
  show ?case
  proof (cases "c = star")
    case True
    with Cons.prems(2) obtain j where "glob q (drop (j + k) s)" by (auto simp: glob_star)
    with True show ?thesis by (auto simp: glob_star)
  next
    case False
    with Cons.prems show ?thesis using Cons.IH[of "tl s" k]
      by (simp add: glob_lit tl_drop)
  qed
qed simp

lemma ph_literals:
  "\<forall>x \<in> set bs. x \<noteq> joker \<and> x \<noteq> wildcard \<Longrightarrow>
   g_pattern_ph_match (bs @ p) s =
     (if bs = take (length bs) s then g_pattern_ph_match p (drop (length bs) s) else (False, False))"
proof (induction bs arbitrary: s)
  case (Cons b bs)
  then show ?case by (cases s) (auto simp: g_pattern_ph_match.simps[of "b # bs @ p"])
qed simp

lemma ph_joker: "g_pattern_ph_match (joker # p) s = (if s = [] then (False, False) else g_pattern_ph_match p (g_utf8_next_char s))"
  by (simp add: g_pattern_ph_match.simps[of "joker # p"])

lemma ph_wildcard:
  "g_pattern_ph_match (wildcard # p) s =
     (case skip_jokers p s of None \<Rightarrow> (False, True) | Some ([], t) \<Rightarrow> (True, True)
      | Some (c # q, t) \<Rightarrow> (star_scan (g_pattern_ph_match q) c t, True))"
  by (simp add: g_pattern_ph_match.simps[of "wildcard # p"])

lemma prefix_char:
  assumes "c \<noteq> 0" "UNICODE_VALID c" "chars s"
  shows "g_unichar_to_utf8 c = take (length (g_unichar_to_utf8 c)) (enc s) \<longleftrightarrow> s \<noteq> [] \<and> hd s = c"
proof (cases s)
  case (Cons d t)
  show ?thesis
  proof
    assume "g_unichar_to_utf8 c = take (length (g_unichar_to_utf8 c)) (enc s)"
    then have "enc s = g_unichar_to_utf8 c @ drop (length (g_unichar_to_utf8 c)) (enc s)" by (metis append_take_drop_id)
    then show "s \<noteq> [] \<and> hd s = c" using Cons assms enc_eq_Cons[of d c] by auto
  qed (use Cons in auto)
qed (use char_nonempty[OF assms(1,2)] in auto)

text \<open>One literal character.\<close>

lemma ph_char:
  assumes "c \<noteq> 0" "UNICODE_VALID c" "c \<noteq> any_char" "c \<noteq> star" "chars s"
  shows "g_pattern_ph_match (g_unichar_to_utf8 c @ p) (enc s) =
    (if s \<noteq> [] \<and> hd s = c then g_pattern_ph_match p (enc (tl s)) else (False, False))"
proof -
  have l: "\<forall>x \<in> set (g_unichar_to_utf8 c). x \<noteq> joker \<and> x \<noteq> wildcard"
    using char_literal[OF assms(3,4,2)] by blast
  show ?thesis unfolding ph_literals[OF l] prefix_char[OF assms(1,2,5)] by (cases s) auto
qed

text \<open>What follows a wildcard, on characters.\<close>

fun skip_chars :: "u32 list \<Rightarrow> u32 list \<Rightarrow> (u32 list \<times> u32 list) option" where
  "skip_chars [] s = Some ([], s)"
| "skip_chars (c # p) s =
     (if c = any_char then if s = [] then None else skip_chars p (tl s)
      else if c = star then skip_chars p s else Some (c # p, s))"

lemma skip_jokers_enc:
  "chars p \<Longrightarrow> chars s \<Longrightarrow> skip_jokers (enc p) (enc s) = map_option (map_prod enc enc) (skip_chars p s)"
proof (induction p s rule: skip_chars.induct)
  case (2 c p s)
  consider "c = any_char" "s = []" | d t where "c = any_char" "s = d # t" | "c = star" | "c \<noteq> any_char" "c \<noteq> star"
    by (cases s) auto
  then show ?case
  proof cases
    case 4
    with "2.prems" obtain b bs where b: "g_unichar_to_utf8 c = b # bs" by (auto elim: char_bytes)
    with 4 "2.prems" char_literal[of c b] show ?thesis by simp
  qed (use 2 char_nonempty in simp_all)
qed simp

lemma skip_chars_glob:
  "glob (star # p) s \<longleftrightarrow> (case skip_chars p s of None \<Rightarrow> False | Some (q, t) \<Rightarrow> glob (star # q) t)"
proof (induction p s rule: skip_chars.induct)
  case (2 c p s)
  consider "c = any_char" | "c = star" | "c \<noteq> any_char" "c \<noteq> star" by auto
  then show ?case
  proof cases
    case 1
    have "glob (star # c # p) s \<longleftrightarrow> glob (c # star # p) s" using any_star[of p] 1 by (simp add: glob_eq_def)
    also have "\<dots> \<longleftrightarrow> s \<noteq> [] \<and> glob (star # p) (tl s)" using 1 by (simp add: glob_lit)
    finally show ?thesis using 2 1 by simp
  next
    case 2
    then show ?thesis using "2.IH"(2) star_star[of p] by (simp add: glob_eq_def)
  qed simp
qed simp

lemma skip_chars_Some:
  "skip_chars p s = Some (q, t) \<Longrightarrow> chars p \<Longrightarrow> chars s \<Longrightarrow>
     length q \<le> length p \<and> chars q \<and> chars t \<and> (q = [] \<or> hd q \<noteq> any_char \<and> hd q \<noteq> star)"
proof (induction p s rule: skip_chars.induct)
  case (2 c p s)
  then show ?case by (cases s) (auto split: if_splits)
qed simp

lemma star_scan_conts:
  "\<forall>x \<in> set es. is_cont x \<Longrightarrow> \<not> is_cont b \<Longrightarrow> star_scan f b (es @ r) = star_scan f b r"
proof (induction es)
  case (Cons e es)
  then show ?case using next_char_cont[of e "es @ r"] by (subst star_scan.simps) auto
qed simp

lemma star_scan_enc:
  assumes c: "c \<noteq> 0" "UNICODE_VALID c" "c \<noteq> any_char" "c \<noteq> star" and b: "g_unichar_to_utf8 c = b # bs" "\<not> is_cont b"
    and ih: "\<And>s. chars s \<Longrightarrow> g_pattern_ph_match (enc q) (enc s) = (glob q s, reach q s)"
  shows "chars s \<Longrightarrow> star_scan (g_pattern_ph_match (bs @ enc q)) b (enc s) = glob (star # c # q) s"
proof (induction s)
  case Nil
  show ?case using c(4) by (simp add: star_scan.simps)
next
  case (Cons d s)
  let ?f = "g_pattern_ph_match (bs @ enc q)"
  from Cons.prems obtain e es where e: "g_unichar_to_utf8 d = e # es" "\<forall>x \<in> set es. is_cont x"
    by (auto elim: char_bytes)
  have st: "glob (star # c # q) (d # s) \<longleftrightarrow> d = c \<and> glob q s \<or> glob (star # c # q) s"
    using c(3,4) by (subst glob.simps(3)) (auto simp: glob_lit)
  have ih': "star_scan ?f b (enc s) = glob (star # c # q) s" using Cons by simp
  show ?case
  proof (cases "b = e")
    case False
    then have "d \<noteq> c" using b(1) e(1) by auto
    moreover have "star_scan ?f b (enc (d # s)) = star_scan ?f b (enc s)"
      using False e(1) next_char_enc[of d "enc s"] Cons.prems by (subst star_scan.simps) simp
    ultimately show ?thesis using st ih' by simp
  next
    case True
    have lit: "b \<noteq> joker" "b \<noteq> wildcard" using char_literal[OF c(3,4,2)] b(1) by auto
    have "?f (es @ enc s) = g_pattern_ph_match (g_unichar_to_utf8 c @ enc q) (enc (d # s))"
      using lit True b(1) e(1) by (simp add: g_pattern_ph_match.simps[of "e # bs @ enc q"])
    also have "\<dots> = (if d = c then (glob q s, reach q s) else (False, False))"
      using Cons.prems ph_char[OF c, of "d # s"] ih[of s] by simp
    finally have f: "?f (es @ enc s) = (if d = c then (glob q s, reach q s) else (False, False))" .
    have early: "\<not> glob (star # c # q) (d # s)" if "reach q s" "\<not> glob q s"
    proof
      assume "glob (star # c # q) (d # s)"
      then obtain k where "glob (c # q) (drop k (d # s))" by (auto simp: glob_star)
      then have "glob q (drop k s)" using c(4) by (simp add: glob_lit tl_drop)
      with that show False using reach_earliest by blast
    qed
    have skip: "star_scan ?f b (es @ enc s) = glob (star # c # q) s"
      using star_scan_conts[OF e(2) b(2)] ih' by simp
    have nil: "glob (star # c # q) s \<longleftrightarrow> False" if "es @ enc s = []"
      using skip star_scan.simps[of ?f b "[]"] that by simp
    define r where "r = es @ enc s"
    have "star_scan ?f b (enc (d # s)) = star_scan ?f b (b # r)" using True e(1) by (simp add: r_def)
    also have "\<dots> = (if fst (?f r) then True else if snd (?f r) then False
        else if r \<noteq> [] then star_scan ?f b r else fst (?f []))"
      by (subst star_scan.simps) (simp add: split_beta)
    also have "\<dots> \<longleftrightarrow> glob (star # c # q) (d # s)"
      using f skip nil early st unfolding r_def[symmetric] by (cases "r = []") (auto split: if_splits)
    finally show ?thesis .
  qed
qed

text \<open>The matcher decides the reference, and its flag is whether it got to a wildcard.\<close>

lemma ph_match_enc:
  "chars p \<Longrightarrow> chars s \<Longrightarrow> g_pattern_ph_match (enc p) (enc s) = (glob p s, reach p s)"
proof (induction p arbitrary: s rule: length_induct)
  case (1 p)
  show ?case
  proof (cases p)
    case Nil
    with 1 enc_eq_Nil[of s] show ?thesis by (simp add: g_pattern_ph_match.simps del: concat_eq_Nil_conv)
  next
    case (Cons c q)
    then have q: "chars q" "c \<noteq> 0" "UNICODE_VALID c" using "1.prems" by simp_all
    have ih: "g_pattern_ph_match (enc r) (enc t) = (glob r t, reach r t)" if "length r \<le> length q" "chars r" "chars t" for r t
      using 1 that Cons by simp
    consider "c = star" | "c = any_char" | "c \<noteq> any_char" "c \<noteq> star" by auto
    then show ?thesis
    proof cases
      case 1
      then have g: "glob p s = (case skip_chars q s of None \<Rightarrow> False | Some (q, t) \<Rightarrow> glob (star # q) t)"
        using skip_chars_glob[of q s] Cons by simp
      show ?thesis
      proof (cases "skip_chars q s")
        case None
        with 1 g Cons show ?thesis using q(1) "1.prems" by (simp add: ph_wildcard skip_jokers_enc)
      next
        case (Some qt)
        obtain r t where qt: "qt = (r, t)" by fastforce
        note sk = skip_chars_Some[OF Some[unfolded qt] q(1) "1.prems"(2)]
        show ?thesis
        proof (cases r)
          case Nil
          with 1 g Cons Some qt show ?thesis using q(1) "1.prems" by (simp add: ph_wildcard skip_jokers_enc)
        next
          case (Cons d u)
          with sk have d: "d \<noteq> 0" "UNICODE_VALID d" "d \<noteq> any_char" "d \<noteq> star" "chars u" "chars t" "length u \<le> length q"
            by auto
          obtain b bs where b: "g_unichar_to_utf8 d = b # bs" "\<not> is_cont b" using d(1,2) by (auto elim: char_bytes)
          have "star_scan (g_pattern_ph_match (bs @ enc u)) b (enc t) = glob (star # d # u) t"
            by (rule star_scan_enc[OF d(1-4) b ih[OF d(7,5)] d(6)])
          with 1 g Some qt Cons b \<open>p = c # q\<close> show ?thesis using q(1) "1.prems" by (simp add: ph_wildcard skip_jokers_enc)
        qed
      qed
    next
      case 2
      with Cons q ih "1.prems" char_nonempty show ?thesis
        by (cases s) (simp_all add: ph_joker glob_lit)
    next
      case 3
      with Cons q ih[of q "tl s"] "1.prems" ph_char[OF q(2,3), of s "enc q"] show ?thesis
        by (cases s) (auto simp: glob_lit)
    qed
  qed
qed

end
