(* ===== verification/Glib_Pattern_Props.thy ===== *)
theory Glib_Pattern_Props
  imports Glib_Pattern_Laws
begin

text \<open>
  The canonical form of a pattern and the match type chosen for it: every match type decides the
  reference on the original pattern.
\<close>

section \<open>The canonical form\<close>

lemma glob_eq_sym: "glob_eq p q \<Longrightarrow> glob_eq q p"
  by (simp add: glob_eq_def)

text \<open>What the loop writes: \<open>k\<close> jokers are pending, \<open>fw\<close> tells whether a wildcard was the last to be written.\<close>

fun canonical :: "'a \<Rightarrow> 'a \<Rightarrow> nat \<Rightarrow> bool \<Rightarrow> 'a list \<Rightarrow> 'a list" where
  "canonical j w k fw [] = replicate k j"
| "canonical j w k fw (c # p) =
     (if c = w then if fw then canonical j w k fw p else w # canonical j w k True p
      else if c = j then canonical j w (Suc k) fw p
      else replicate k j @ c # canonical j w 0 False p)"

lemma canonical_glob:
  "glob_eq (canonical any_char star k False p) (replicate k any_char @ p)"
  "glob_eq (star # canonical any_char star k True p) (star # replicate k any_char @ p)"
proof (induction p arbitrary: k)
  case (Cons c p)
  consider "c = star" | "c = any_char" | "c \<noteq> star" "c \<noteq> any_char" by auto
  note cs = this
  {
    case 1
    show ?case using cs
    proof cases
      case 1
      have "glob_eq (star # canonical any_char star k True p) (star # replicate k any_char @ p)" by (rule Cons(2))
      also have "glob_eq \<dots> (replicate k any_char @ star # p)" by (rule glob_eq_sym[OF anys_star])
      finally show ?thesis using 1 by simp
    next
      case 2
      then show ?thesis using Cons(1)[of "Suc k"] by (simp add: replicate_app_Cons_same)
    next
      case 3
      then show ?thesis using Cons(1)[of 0] glob_eq_append[of "c # canonical any_char star 0 False p" "c # p"] by (simp add: glob_eq_Cons)
    qed
  next
    case 2
    show ?case using cs
    proof cases
      case 1
      have "glob_eq (star # canonical any_char star k True p) (star # replicate k any_char @ p)" by (rule Cons(2))
      also have "glob_eq \<dots> (star # star # replicate k any_char @ p)" by (rule glob_eq_sym[OF star_star])
      also have "glob_eq \<dots> (star # replicate k any_char @ star # p)"
        by (rule glob_eq_Cons[OF glob_eq_sym[OF anys_star]])
      finally show ?thesis using 1 by simp
    next
      case 2
      then show ?thesis using Cons(2)[of "Suc k"] by (simp add: replicate_app_Cons_same)
    next
      case 3
      then show ?thesis using Cons(1)[of 0] glob_eq_append[of "c # canonical any_char star 0 False p" "c # p" "star # replicate k any_char"] by (simp add: glob_eq_Cons)
    qed
  }
qed simp_all

lemma canonical_literals:
  "\<forall>x \<in> set bs. x \<noteq> j \<and> x \<noteq> w \<Longrightarrow> bs \<noteq> [] \<Longrightarrow>
   canonical j w k fw (bs @ p) = replicate k j @ bs @ canonical j w 0 False p"
proof (induction bs arbitrary: k fw)
  case (Cons b bs)
  then show ?case by (cases "bs = []") simp_all
qed simp

lemma enc_replicate [simp]: "enc (replicate k any_char) = replicate k joker"
  by (induction k) simp_all

lemma canonical_enc:
  "chars p \<Longrightarrow> canonical joker wildcard k fw (enc p) = enc (canonical any_char star k fw p)"
proof (induction p arbitrary: k fw)
  case (Cons c p)
  then show ?case
  proof (cases "c = star \<or> c = any_char")
    case False
    then show ?thesis using Cons char_literal[of c] char_nonempty[of c]
      canonical_literals[of "g_unichar_to_utf8 c" joker wildcard k fw "enc p"] by auto
  qed auto
qed simp

lemma set_canonical: "set (canonical j w k fw p) \<subseteq> {j, w} \<union> set p"
  by (induction j w k fw p rule: canonical.induct) auto

lemma chars_canonical: "chars p \<Longrightarrow> chars (canonical any_char star k fw p)"
  using set_canonical[of any_char star k fw p] unfolding chars_def by fastforce

lemma length_canonical: "length (canonical j w k fw p) \<le> k + length p"
  by (induction j w k fw p rule: canonical.induct) auto

section \<open>The loop that canonicalises\<close>

lemma first_pos_simps [simp]: "first_pos (first_pos p i) k = first_pos p i" "first_pos p i \<noteq> None" "first_pos None i = Some i"
  by (simp_all add: first_pos_def split: option.splits)

lemma flush_jokers_out: "out (flush_jokers n b s) = out s @ replicate n joker"
  by (induction n b s rule: flush_jokers.induct) (simp_all add: replicate_app_Cons_same)

lemma flush_jokers_same [simp]:
  "plen (flush_jokers n b s) = plen s" "minl (flush_jokers n b s) = minl s" "maxl (flush_jokers n b s) = maxl s"
  "hw_pos (flush_jokers n b s) = hw_pos s" "tw_pos (flush_jokers n b s) = tw_pos s"
  "follows_wildcard (flush_jokers n b s) = follows_wildcard s" "pending_jokers (flush_jokers n b s) = 0"
  "hj_pos (flush_jokers n b s) = None \<longleftrightarrow> n = 0 \<and> hj_pos s = None"
  by (induction n b s rule: flush_jokers.induct) auto

lemma flush_jokers_pos: "i < pos s \<Longrightarrow> i \<le> pos (flush_jokers n b s)"
  by (induction n b s rule: flush_jokers.induct) (auto split: if_splits)

definition min_of :: "u8 list \<Rightarrow> nat" where
  "min_of xs = (\<Sum>x\<leftarrow>xs. if x = wildcard then 0 else 1)"

definition max_of :: "u8 list \<Rightarrow> nat" where
  "max_of xs = (\<Sum>x\<leftarrow>xs. if x = wildcard then 0 else if x = joker then 4 else 1)"

lemma min_max_of [simp]:
  "min_of [] = 0" "max_of [] = 0" "min_of (xs @ ys) = min_of xs + min_of ys" "max_of (xs @ ys) = max_of xs + max_of ys"
  "min_of (x # xs) = (if x = wildcard then 0 else 1) + min_of xs"
  "max_of (x # xs) = (if x = wildcard then 0 else if x = joker then 4 else 1) + max_of xs"
  "min_of (replicate n joker) = n" "max_of (replicate n joker) = 4 * n"
  by (simp_all add: min_of_def max_of_def sum_list_replicate)

lemma min_max_bounds: "min_of xs \<le> length xs" "max_of xs \<le> 4 * length xs"
  by (induction xs) (auto simp: split: if_splits)

text \<open>The invariant, with \<open>r\<close> bytes still to be read.\<close>

definition canon_ok :: "canon \<Rightarrow> nat \<Rightarrow> bool" where
  "canon_ok s r \<longleftrightarrow>
     (hw_pos s = None \<longleftrightarrow> wildcard \<notin> set (out s)) \<and> (hj_pos s = None \<longleftrightarrow> joker \<notin> set (out s)) \<and>
     (hw_pos s = tw_pos s \<longleftrightarrow> count_list (out s) wildcard \<le> 1) \<and>
     (\<forall>i. hw_pos s = Some i \<longrightarrow> i < pos s) \<and>
     plen s = length (out s) + pending_jokers s + r \<and> minl s = min_of (out s) + pending_jokers s \<and>
     maxl s = max_of (out s) + 4 * pending_jokers s \<and> plen s < 2 ^ 30"

lemma guint_id: "n < 2 ^ 32 \<Longrightarrow> guint n = n"
  by (simp add: guint_def)

lemma canon_ok_guint:
  assumes "canon_ok s (Suc r)"
  shows "guint (pending_jokers s + 1) = pending_jokers s + 1" "guint (minl s + 1) = minl s + 1"
    "guint (maxl s + 4) = maxl s + 4" "guint (maxl s + 1) = maxl s + 1"
  using assms min_max_bounds[of "out s"] by (auto simp: canon_ok_def intro!: guint_id)

lemma canon_step_ok:
  assumes "canon_ok s (Suc r)"
  shows "canon_ok (canon_step c s) r"
    "out (canon_step c s) @ canonical joker wildcard (pending_jokers (canon_step c s)) (follows_wildcard (canon_step c s)) p =
     out s @ canonical joker wildcard (pending_jokers s) (follows_wildcard s) (c # p)"
proof -
  note g = canon_ok_guint[OF assms] and gs = canon_ok_guint[OF assms, simplified]
  have z: "count_list (out s) wildcard = 0 \<longleftrightarrow> hw_pos s = None"
    using assms by (simp add: canon_ok_def count_list_0_iff)
  show "canon_ok (canon_step c s) r"
  proof (cases "c = wildcard")
    case True
    then show ?thesis using assms z
      by (cases "hw_pos s") (auto simp: canon_step_def canon_ok_def first_pos_def less_Suc_eq)
  next
    case False
    show ?thesis
    proof (cases "c = joker")
      case True
      then have "canon_step c s = s\<lparr>pending_jokers := pending_jokers s + 1, minl := minl s + 1, maxl := maxl s + 4\<rparr>"
        by (simp only: canon_step_def g) simp
      with assms show ?thesis by (simp add: canon_ok_def)
    next
      case lit: False
      let ?s = "flush_jokers (pending_jokers s) True s"
      from assms False lit show ?thesis
        by (simp add: canon_step_def Let_def gs flush_jokers_out) (auto simp: canon_ok_def flush_jokers_out less_Suc_eq_le flush_jokers_pos)
    qed
  qed
  show "out (canon_step c s) @ canonical joker wildcard (pending_jokers (canon_step c s)) (follows_wildcard (canon_step c s)) p =
     out s @ canonical joker wildcard (pending_jokers s) (follows_wildcard s) (c # p)"
    by (simp add: canon_step_def Let_def gs flush_jokers_out)
qed

lemma canon_fold:
  "canon_ok s (length p) \<Longrightarrow> canon_ok (fold canon_step p s) 0 \<and>
     out (fold canon_step p s) @ replicate (pending_jokers (fold canon_step p s)) joker =
     out s @ canonical joker wildcard (pending_jokers s) (follows_wildcard s) p"
proof (induction p arbitrary: s)
  case (Cons c p)
  then have "canon_ok s (Suc (length p))" by simp
  from Cons.IH[OF canon_step_ok(1)[OF this]] canon_step_ok(2)[OF this] show ?case by simp
qed simp

lemma canon_init_ok: "length p < 2 ^ 30 \<Longrightarrow> canon_ok (canon_init p) (length p)"
  by (simp add: canon_ok_def canon_init_def guint_id)

section \<open>The match types\<close>

text \<open>What \<open>g_pattern_spec_new\<close> makes of a pattern, by the canonical form.\<close>

lemma count_list_jokers [simp]: "count_list (replicate n joker) wildcard = 0"
  by (simp add: count_list_0_iff)

definition few_wildcards :: "u8 list \<Rightarrow> bool" where
  "few_wildcards cf \<longleftrightarrow> joker \<notin> set cf \<and> count_list cf wildcard \<le> 1"

lemma spec_new_eq:
  assumes "length p < 2 ^ 30"
  defines "cf \<equiv> canonical joker wildcard 0 False p"
  shows "\<exists>tail. g_pattern_spec_new p =
     (let spec = \<lparr>match_type = G_MATCH_EXACT, pattern_length = length cf, min_length = min_of cf,
                  max_length = if wildcard \<in> set cf then 2 ^ 32 - 1 else max_of cf, pattern = cf\<rparr>
      in if few_wildcards cf \<and> cf \<noteq> [] \<and> hd cf = wildcard
         then spec\<lparr>match_type := G_MATCH_TAIL, pattern_length := length cf - 1, pattern := tl cf\<rparr>
         else if few_wildcards cf \<and> cf \<noteq> [] \<and> last cf = wildcard
         then spec\<lparr>match_type := G_MATCH_HEAD, pattern_length := length cf - 1, pattern := butlast cf\<rparr>
         else if few_wildcards cf \<and> wildcard \<notin> set cf then spec
         else if tail then spec\<lparr>match_type := G_MATCH_ALL_TAIL, pattern := g_utf8_strreverse cf (int (length cf))\<rparr>
         else spec\<lparr>match_type := G_MATCH_ALL\<rparr>)"
proof -
  let ?t = "fold canon_step p (canon_init p)"
  define s where "s = flush_jokers (pending_jokers ?t) False ?t"
  have t: "canon_ok ?t 0" "out ?t @ replicate (pending_jokers ?t) joker = cf"
    using canon_fold[OF canon_init_ok[OF assms(1)]] by (simp_all add: cf_def canon_init_def)
  have o: "out s = cf" using t(2) by (simp add: s_def flush_jokers_out)
  have hw: "hw_pos s = None \<longleftrightarrow> wildcard \<notin> set cf" and hj: "hj_pos s = None \<longleftrightarrow> joker \<notin> set cf"
    and tw: "hw_pos s = tw_pos s \<longleftrightarrow> count_list cf wildcard \<le> 1"
    and l: "plen s = length cf" "minl s = min_of cf" "maxl s = max_of cf"
    using t(1) unfolding s_def t(2)[symmetric] by (auto simp: canon_ok_def)
  have "count_list cf wildcard = 0 \<longleftrightarrow> wildcard \<notin> set cf" by (simp add: count_list_0_iff)
  then have few: "\<not> (hj_pos s \<noteq> None) \<and> \<not> (hw_pos s \<noteq> None \<and> hw_pos s \<noteq> tw_pos s) \<longleftrightarrow> few_wildcards cf"
    unfolding few_wildcards_def using hw hj tw by auto
  have lst: "0 < length cf \<and> cf ! (length cf - 1) = wildcard \<longleftrightarrow> cf \<noteq> [] \<and> last cf = wildcard"
    by (auto simp: last_conv_nth)
  show ?thesis
    unfolding g_pattern_spec_new_def Let_def s_def[symmetric] o l conj_assoc[symmetric] few
    unfolding conj_assoc lst butlast_conv_take[symmetric] hw[THEN arg_cong[of _ _ Not]] not_not
    by (rule exI) (rule refl)
qed

text \<open>Lengths that match, in bytes.\<close>

lemma char_length: "c \<noteq> 0 \<Longrightarrow> UNICODE_VALID c \<Longrightarrow> 1 \<le> length (g_unichar_to_utf8 c) \<and> length (g_unichar_to_utf8 c) \<le> 4"
  by (auto elim: char_bytes)

lemma min_max_literal:
  assumes "c \<noteq> star" "c \<noteq> any_char" "UNICODE_VALID c"
  shows "min_of (g_unichar_to_utf8 c) = length (g_unichar_to_utf8 c)" "max_of (g_unichar_to_utf8 c) = length (g_unichar_to_utf8 c)"
proof -
  have "min_of xs = length xs \<and> max_of xs = length xs" if "\<forall>x \<in> set xs. x \<noteq> joker \<and> x \<noteq> wildcard" for xs
    using that by (induction xs) auto
  with char_literal[OF assms(2,1,3)]
  show "min_of (g_unichar_to_utf8 c) = length (g_unichar_to_utf8 c)" "max_of (g_unichar_to_utf8 c) = length (g_unichar_to_utf8 c)"
    by blast+
qed

lemma glob_length:
  "glob p s \<Longrightarrow> chars p \<Longrightarrow> chars s \<Longrightarrow>
     min_of (enc p) \<le> length (enc s) \<and> (star \<notin> set p \<longrightarrow> length (enc s) \<le> max_of (enc p))"
proof (induction p arbitrary: s)
  case (Cons c p)
  show ?case
  proof (cases "c = star")
    case True
    with Cons.prems(1) obtain k where "glob p (drop k s)" by (auto simp: glob_star)
    then have "min_of (enc p) \<le> length (enc (drop k s))" using Cons chars_drop by simp
    also have "\<dots> \<le> length (enc (take k s)) + length (enc (drop k s))" by simp
    also have "\<dots> = length (enc s)" by (simp only: length_append[symmetric] concat_append[symmetric] map_append[symmetric] append_take_drop_id)
    finally show ?thesis using True by simp
  next
    case False
    with Cons.prems(1) obtain d t where s: "s = d # t" "c = any_char \<or> c = d" "glob p t"
      by (cases s) (auto simp: glob_lit)
    with Cons have "min_of (enc p) \<le> length (enc t)" "star \<notin> set p \<longrightarrow> length (enc t) \<le> max_of (enc p)" by simp_all
    with s False Cons.prems char_length[of d] min_max_literal[of c] show ?thesis
      by (cases "c = any_char") auto
  qed
qed simp

section \<open>Matching at one end\<close>

lemma enc_prefix: "chars d \<Longrightarrow> chars s \<Longrightarrow> enc s = enc d @ y \<Longrightarrow> \<exists>t. s = d @ t"
proof (induction d arbitrary: s)
  case (Cons c d)
  then obtain e t where s: "s = e # t" using char_nonempty by (cases s) auto
  with Cons.prems have "e = c" "enc t = enc d @ y" using enc_eq_Cons[of e c] by simp_all
  with s Cons show ?case by fastforce
qed simp

lemma enc_suffix: "chars d \<Longrightarrow> chars s \<Longrightarrow> enc s = x @ enc d \<Longrightarrow> \<exists>t. s = t @ d"
proof (induction s arbitrary: x)
  case (Cons c s)
  then obtain b bs where c: "g_unichar_to_utf8 c = b # bs" "\<forall>x \<in> set bs. is_cont x" by (auto elim: char_bytes)
  show ?case
  proof (cases x)
    case Nil
    then show ?thesis using Cons.prems enc_inj[of "c # s" d] by (auto intro: exI[of _ "[]"])
  next
    case (Cons e x')
    then have eq: "bs @ enc s = x' @ enc d" using Cons.prems(3) c(1) by simp
    from eq consider us where "x' = bs @ us" "enc s = us @ enc d" | u us where "bs = x' @ u # us" "u # us @ enc s = enc d"
      unfolding append_eq_append_conv2 by (metis append_Nil2 append_Cons append_Nil neq_Nil_conv)
    then show ?thesis
    proof cases
      case 1
      from Cons.IH[OF Cons.prems(1) _ this(2)] Cons.prems(2) obtain t where "s = t @ d" by auto
      then show ?thesis by (intro exI[of _ "c # t"]) simp
    next
      case 2
      then have "is_cont u" using c(2) by simp
      moreover obtain f d' where "d = f # d'" using 2 by (cases d) auto
      ultimately show ?thesis using Cons.prems(1) 2(2) by (auto elim: char_bytes)
    qed
  qed
next
  case Nil
  then show ?case using enc_eq_Nil[of d] by (auto intro: exI[of _ "[]"])
qed

lemma glob_literal: "star \<notin> set p \<Longrightarrow> any_char \<notin> set p \<Longrightarrow> glob p s \<longleftrightarrow> s = p"
proof (induction p arbitrary: s)
  case (Cons c p)
  then show ?case by (cases s) (auto simp: glob_lit)
qed simp

lemma glob_suffix: "star \<notin> set p \<Longrightarrow> any_char \<notin> set p \<Longrightarrow> glob (star # p) s \<longleftrightarrow> (\<exists>t. s = t @ p)"
proof
  assume p: "star \<notin> set p" "any_char \<notin> set p" and "glob (star # p) s"
  then obtain k where "drop k s = p" by (auto simp: glob_star glob_literal)
  then have "s = take k s @ p" by (metis append_take_drop_id)
  then show "\<exists>t. s = t @ p" ..
next
  assume p: "star \<notin> set p" "any_char \<notin> set p" and "\<exists>t. s = t @ p"
  then obtain t where "s = t @ p" by blast
  then have "drop (length t) s = p" by simp
  with p show "glob (star # p) s" unfolding glob_star by (intro exI[of _ "length t"]) (simp add: glob_literal)
qed

lemma glob_prefix:
  assumes "star \<notin> set p" "any_char \<notin> set p"
  shows "glob (p @ [star]) s \<longleftrightarrow> (\<exists>t. s = p @ t)"
proof -
  have "glob (p @ [star]) s \<longleftrightarrow> (\<exists>t. rev s = t @ rev p)"
    using glob_rev[of "p @ [star]" s] glob_suffix[of "rev p" "rev s"] assms by simp
  also have "\<dots> \<longleftrightarrow> (\<exists>t. s = p @ t)" by (metis rev_append rev_rev_ident)
  finally show ?thesis .
qed

lemma enc_members:
  assumes "chars p"
  shows "wildcard \<in> set (enc p) \<longleftrightarrow> star \<in> set p" "joker \<in> set (enc p) \<longleftrightarrow> any_char \<in> set p"
proof -
  have "(wildcard \<in> set (enc p) \<longleftrightarrow> star \<in> set p) \<and> (joker \<in> set (enc p) \<longleftrightarrow> any_char \<in> set p)"
    using assms
  proof (induction p)
    case (Cons c p)
    have c: "wildcard \<notin> set (g_unichar_to_utf8 c)" "joker \<notin> set (g_unichar_to_utf8 c)" if "c \<noteq> star" "c \<noteq> any_char"
      using char_literal[OF that(2,1)] Cons.prems by auto
    consider "c = star" | "c = any_char" | "c \<noteq> star" "c \<noteq> any_char" by blast
    then show ?case using Cons c by cases auto
  qed simp
  then show "wildcard \<in> set (enc p) \<longleftrightarrow> star \<in> set p" "joker \<in> set (enc p) \<longleftrightarrow> any_char \<in> set p"
    by blast+
qed

lemma strreverse_enc: "chars p \<Longrightarrow> strreverse_loop (enc p) (length (enc p)) = enc (rev p)"
proof (induction p)
  case (Cons c p)
  then have c: "c < 0x80000000" by (simp add: valid_below)
  let ?n = "length (g_unichar_to_utf8 c)"
  have "map (byte_at (g_unichar_to_utf8 c @ enc p)) [0..<?n] = g_unichar_to_utf8 c"
    by (rule nth_equalityI) simp_all
  moreover have "0 < ?n" using Cons.prems by (auto elim: char_bytes)
  ultimately show ?case using Cons encode_skip(1)[OF c] encode_skip(2)[OF c, of "enc p"]
    by (subst strreverse_loop.simps) (simp add: Let_def)
qed (simp add: strreverse_loop.simps)

lemma strreverse_length: "chars p \<Longrightarrow> g_utf8_strreverse (enc p) (int (length (enc p))) = enc (rev p)"
  by (simp add: g_utf8_strreverse_def strreverse_enc)

lemma spec_new_cases:
  assumes "length p < 2 ^ 30"
  defines "cf \<equiv> canonical joker wildcard 0 False p" and "sp \<equiv> g_pattern_spec_new p"
  shows "min_length sp = min_of cf \<and> max_length sp = (if wildcard \<in> set cf then 2 ^ 32 - 1 else max_of cf)"
    and "(\<exists>t. cf = wildcard # t \<and> joker \<notin> set t \<and> wildcard \<notin> set t \<and>
            match_type sp = G_MATCH_TAIL \<and> pattern_length sp = length t \<and> pattern sp = t) \<or>
         (\<exists>t. cf = t @ [wildcard] \<and> joker \<notin> set t \<and> wildcard \<notin> set t \<and>
            match_type sp = G_MATCH_HEAD \<and> pattern_length sp = length t \<and> pattern sp = t) \<or>
         joker \<notin> set cf \<and> wildcard \<notin> set cf \<and>
           match_type sp = G_MATCH_EXACT \<and> pattern_length sp = length cf \<and> pattern sp = cf \<or>
         match_type sp = G_MATCH_ALL \<and> pattern sp = cf \<or>
         match_type sp = G_MATCH_ALL_TAIL \<and> pattern sp = g_utf8_strreverse cf (int (length cf))"
proof -
  obtain tail where eq: "sp = (let spec = \<lparr>match_type = G_MATCH_EXACT, pattern_length = length cf, min_length = min_of cf,
                  max_length = if wildcard \<in> set cf then 2 ^ 32 - 1 else max_of cf, pattern = cf\<rparr>
      in if few_wildcards cf \<and> cf \<noteq> [] \<and> hd cf = wildcard
         then spec\<lparr>match_type := G_MATCH_TAIL, pattern_length := length cf - 1, pattern := tl cf\<rparr>
         else if few_wildcards cf \<and> cf \<noteq> [] \<and> last cf = wildcard
         then spec\<lparr>match_type := G_MATCH_HEAD, pattern_length := length cf - 1, pattern := butlast cf\<rparr>
         else if few_wildcards cf \<and> wildcard \<notin> set cf then spec
         else if tail then spec\<lparr>match_type := G_MATCH_ALL_TAIL, pattern := g_utf8_strreverse cf (int (length cf))\<rparr>
         else spec\<lparr>match_type := G_MATCH_ALL\<rparr>)"
    using spec_new_eq[OF assms(1)] unfolding cf_def[symmetric] sp_def[symmetric] by blast
  show "min_length sp = min_of cf \<and> max_length sp = (if wildcard \<in> set cf then 2 ^ 32 - 1 else max_of cf)"
    unfolding eq Let_def by simp
  have one: "wildcard \<notin> set u \<and> joker \<notin> set u" if "few_wildcards cf" "cf = wildcard # u \<or> cf = u @ [wildcard]" for u
    using that by (auto simp: few_wildcards_def count_list_0_iff)
  consider "few_wildcards cf" "cf \<noteq> []" "hd cf = wildcard"
    | "few_wildcards cf" "cf \<noteq> []" "hd cf \<noteq> wildcard" "last cf = wildcard"
    | "few_wildcards cf" "wildcard \<notin> set cf"
    | "\<not> few_wildcards cf \<or> wildcard \<in> set cf \<and> hd cf \<noteq> wildcard \<and> last cf \<noteq> wildcard" by force
  then show "(\<exists>t. cf = wildcard # t \<and> joker \<notin> set t \<and> wildcard \<notin> set t \<and>
            match_type sp = G_MATCH_TAIL \<and> pattern_length sp = length t \<and> pattern sp = t) \<or>
         (\<exists>t. cf = t @ [wildcard] \<and> joker \<notin> set t \<and> wildcard \<notin> set t \<and>
            match_type sp = G_MATCH_HEAD \<and> pattern_length sp = length t \<and> pattern sp = t) \<or>
         joker \<notin> set cf \<and> wildcard \<notin> set cf \<and>
           match_type sp = G_MATCH_EXACT \<and> pattern_length sp = length cf \<and> pattern sp = cf \<or>
         match_type sp = G_MATCH_ALL \<and> pattern sp = cf \<or>
         match_type sp = G_MATCH_ALL_TAIL \<and> pattern sp = g_utf8_strreverse cf (int (length cf))"
  proof cases
    case 1
    then have "cf = wildcard # tl cf" by (metis list.collapse)
    with one[OF 1(1), of "tl cf"] 1 show ?thesis by (intro disjI1 exI[of _ "tl cf"]) (simp add: eq Let_def)
  next
    case 2
    then have "cf = butlast cf @ [wildcard]" by (metis append_butlast_last_id)
    with one[OF 2(1), of "butlast cf"] 2 show ?thesis
      by (intro disjI2[OF disjI1] exI[of _ "butlast cf"]) (simp add: eq Let_def)
  next
    case 3
    then have "\<not> (cf \<noteq> [] \<and> hd cf = wildcard)" "\<not> (cf \<noteq> [] \<and> last cf = wildcard)"
      by (metis hd_in_set, metis last_in_set)
    with 3 show ?thesis unfolding eq Let_def by (auto simp: few_wildcards_def)
  next
    case 4
    then show ?thesis unfolding eq Let_def by auto
  qed
qed

text \<open>Every match type decides the reference.\<close>

lemma min_of_length: "wildcard \<notin> set xs \<Longrightarrow> min_of xs = length xs"
  by (induction xs) auto

lemma pattern_ends:
  assumes "chars q" "chars s"
  shows "enc q = wildcard # t \<Longrightarrow> \<exists>r. q = star # r \<and> t = enc r"
    and "enc q = t @ [wildcard] \<Longrightarrow> \<exists>r. q = r @ [star] \<and> t = enc r"
proof -
  have st: "chars [star]" "enc [star] = [wildcard]" by simp_all
  show "\<exists>r. q = star # r \<and> t = enc r" if "enc q = wildcard # t"
    using enc_prefix[OF st(1) assms(1), of t] that st(2) by auto
  show "\<exists>r. q = r @ [star] \<and> t = enc r" if "enc q = t @ [wildcard]"
    using enc_suffix[OF st(1) assms(1), of t] that st(2) by auto
qed

lemma tail_match:
  assumes "chars r" "chars s" "star \<notin> set r" "any_char \<notin> set r" "length (enc r) \<le> length (enc s)"
  shows "enc r = drop (length (enc s) - length (enc r)) (enc s) \<longleftrightarrow> glob (star # r) s"
proof
  assume "enc r = drop (length (enc s) - length (enc r)) (enc s)"
  then have "enc s = take (length (enc s) - length (enc r)) (enc s) @ enc r" by (metis append_take_drop_id)
  from enc_suffix[OF assms(1,2) this] show "glob (star # r) s" using glob_suffix assms(3,4) by simp
next
  assume "glob (star # r) s"
  then obtain t where "s = t @ r" using glob_suffix assms(3,4) by auto
  then show "enc r = drop (length (enc s) - length (enc r)) (enc s)" by simp
qed

lemma head_match:
  assumes "chars r" "chars s" "star \<notin> set r" "any_char \<notin> set r"
  shows "enc r = take (length (enc r)) (enc s) \<longleftrightarrow> glob (r @ [star]) s"
proof
  assume "enc r = take (length (enc r)) (enc s)"
  then have "enc s = enc r @ drop (length (enc r)) (enc s)" by (metis append_take_drop_id)
  from enc_prefix[OF assms(1,2) this] show "glob (r @ [star]) s" using glob_prefix assms(3,4) by simp
next
  assume "glob (r @ [star]) s"
  then obtain t where "s = r @ t" using glob_prefix assms(3,4) by auto
  then show "enc r = take (length (enc r)) (enc s)" by simp
qed

lemma match_glob:
  assumes p: "chars p" "length (enc p) < 2 ^ 30" and s: "chars s" "length (enc s) < 2 ^ 30"
    and r: "r = None \<or> r = Some (enc (rev s))"
  shows "g_pattern_match (g_pattern_spec_new (enc p)) (length (enc s)) (enc s) r \<longleftrightarrow> glob p s"
proof -
  define q where "q = canonical any_char star 0 False p"
  have q: "chars q" "canonical joker wildcard 0 False (enc p) = enc q"
    using p(1) by (simp_all add: q_def chars_canonical canonical_enc)
  have g: "glob p s = glob q s" using canonical_glob(1)[of 0 p] by (simp add: glob_eq_def q_def)
  let ?sp = "g_pattern_spec_new (enc p)" and ?n = "length (enc s)"
  note sp = spec_new_cases[OF p(2), unfolded q(2)] and mem = enc_members[OF q(1)]
  have fit: "min_length ?sp \<le> ?n \<and> ?n \<le> max_length ?sp" if "glob q s"
    using glob_length[OF that q(1) s(1)] sp(1) s(2) mem(1) by simp
  have "g_pattern_match ?sp ?n (enc s) r \<longleftrightarrow> glob q s" if f: "min_length ?sp \<le> ?n \<and> ?n \<le> max_length ?sp"
    using sp(2)
  proof (elim disjE exE conjE)
    fix t assume t: "enc q = wildcard # t" "joker \<notin> set t" "wildcard \<notin> set t"
      and m: "match_type ?sp = G_MATCH_TAIL" "pattern_length ?sp = length t" "pattern ?sp = t"
    obtain u where u: "q = star # u" "t = enc u" using pattern_ends(1)[OF q(1) s(1) t(1)] by blast
    then have n: "chars u" "star \<notin> set u" "any_char \<notin> set u" using t q(1) enc_members[of u] by auto
    have "length t \<le> ?n" using f sp(1) t(1) min_of_length[OF t(3)] by simp
    then have "t = drop (?n - length t) (enc s) \<longleftrightarrow> glob q s"
      using tail_match[OF n(1) s(1) n(2,3)] u by simp
    then show ?thesis using f m by (auto simp: g_pattern_match_def)
  next
    fix t assume t: "enc q = t @ [wildcard]" "joker \<notin> set t" "wildcard \<notin> set t"
      and m: "match_type ?sp = G_MATCH_HEAD" "pattern_length ?sp = length t" "pattern ?sp = t"
    obtain u where u: "q = u @ [star]" "t = enc u" using pattern_ends(2)[OF q(1) s(1) t(1)] by blast
    then have n: "chars u" "star \<notin> set u" "any_char \<notin> set u" using t q(1) enc_members[of u] by auto
    have "t = take (length t) (enc s) \<longleftrightarrow> glob q s" using head_match[OF n(1) s(1) n(2,3)] u by simp
    then show ?thesis using f m by (auto simp: g_pattern_match_def)
  next
    assume t: "joker \<notin> set (enc q)" "wildcard \<notin> set (enc q)"
      and m: "match_type ?sp = G_MATCH_EXACT" "pattern_length ?sp = length (enc q)" "pattern ?sp = enc q"
    show ?thesis
      using f m mem t enc_inj[OF q(1) s(1)] by (auto simp: g_pattern_match_def glob_literal)
  next
    assume m: "match_type ?sp = G_MATCH_ALL" "pattern ?sp = enc q"
    show ?thesis using f m ph_match_enc[OF q(1) s(1)] by (simp add: g_pattern_match_def)
  next
    assume m: "match_type ?sp = G_MATCH_ALL_TAIL" "pattern ?sp = g_utf8_strreverse (enc q) (int (length (enc q)))"
    have "fst (g_pattern_ph_match (enc (rev q)) (enc (rev s))) = glob q s"
      using ph_match_enc[of "rev q" "rev s"] q(1) s(1) by (simp add: glob_rev)
    then show ?thesis using f m r strreverse_length[OF q(1)] strreverse_length[OF s(1)]
      by (auto simp: g_pattern_match_def)
  qed
  moreover have "\<not> g_pattern_match ?sp ?n (enc s) r" if "\<not> (min_length ?sp \<le> ?n \<and> ?n \<le> max_length ?sp)"
    using that by (auto simp: g_pattern_match_def)
  ultimately show ?thesis using fit g by blast
qed

text \<open>The canonical form is recovered from the match type and the pattern kept.\<close>

definition uncut :: "GMatchType \<Rightarrow> u8 list \<Rightarrow> u8 list" where
  "uncut m xs = (case m of G_MATCH_TAIL \<Rightarrow> wildcard # xs | G_MATCH_HEAD \<Rightarrow> xs @ [wildcard] | _ \<Rightarrow> xs)"

lemma canonical_kept:
  assumes "chars p" "length (enc p) < 2 ^ 30"
  defines "q \<equiv> canonical any_char star 0 False p" and "sp \<equiv> g_pattern_spec_new (enc p)"
  shows "uncut (match_type sp) (pattern sp) = enc (if match_type sp = G_MATCH_ALL_TAIL then rev q else q)"
proof -
  have q: "chars q" unfolding q_def using assms(1) by (rule chars_canonical)
  note c = spec_new_cases(2)[OF assms(2), unfolded canonical_enc[OF assms(1)], folded q_def sp_def, unfolded strreverse_length[OF q]]
  from c show ?thesis by (elim disjE exE conjE) (simp_all add: uncut_def)
qed

lemma canonical_same:
  assumes "chars p" "length (enc p) < 2 ^ 30" "chars p'" "length (enc p') < 2 ^ 30"
    and "g_pattern_spec_equal (g_pattern_spec_new (enc p)) (g_pattern_spec_new (enc p'))"
  shows "canonical any_char star 0 False p = canonical any_char star 0 False p'"
proof -
  let ?q = "canonical any_char star 0 False" and ?m = "match_type (g_pattern_spec_new (enc p)) = G_MATCH_ALL_TAIL"
  have q: "chars (?q p)" "chars (?q p')" using assms(1,3) chars_canonical by blast+
  have "enc (if ?m then rev (?q p) else ?q p) = enc (if ?m then rev (?q p') else ?q p')"
    using canonical_kept[OF assms(1,2)] canonical_kept[OF assms(3,4)] assms(5) by (simp only: g_pattern_spec_equal_def)
  then have "(if ?m then rev (?q p) else ?q p) = (if ?m then rev (?q p') else ?q p')"
    by (subst (asm) enc_inj) (use q in simp_all)
  then show ?thesis by (simp split: if_splits)
qed

text \<open>
  C25: Matching a pattern decides glob matching on the characters: \<open>*\<close> stands for any text, \<open>?\<close> for any
  one character, and a character for itself, for all valid UTF-8 patterns and strings below 2^30 bytes,
  whichever match type is chosen and whether or not the caller brings the reversed string.
\<close>
theorem pattern_match_glob:
  assumes "chars p" "length (enc p) < 2 ^ 30" "chars s" "length (enc s) < 2 ^ 30"
  shows "(g_pattern_match_simple (enc p) (enc s) \<longleftrightarrow> glob p s) \<and>
    (g_pattern_match_string (g_pattern_spec_new (enc p)) (enc s) \<longleftrightarrow> glob p s) \<and>
    (g_pattern_match (g_pattern_spec_new (enc p)) (length (enc s)) (enc s) (Some (g_utf8_strreverse (enc s) (-1))) \<longleftrightarrow> glob p s)"
proof -
  have "guint (length (enc s)) = length (enc s)" using assms(4) by (simp add: guint_id)
  moreover have "g_pattern_match (g_pattern_spec_new (enc p)) (length (enc s)) (enc s) (Some (g_utf8_strreverse (enc s) (-1))) = glob p s"
    by (rule match_glob[OF assms]) (simp add: g_utf8_strreverse_def strreverse_enc[OF assms(3)])
  ultimately show ?thesis
    using match_glob[OF assms, of None] by (simp add: g_pattern_match_simple_def g_pattern_match_string_def)
qed

theorem pattern_match_glob_witness:
  "g_pattern_match_simple (enc [star, 0xE9, any_char, star, 0x62]) (enc [0x61, 0xE9, 0x20AC, 0x61, 0x62]) \<and>
   \<not> g_pattern_match_simple (enc [star, 0xE9, any_char, star, 0x62]) (enc [0x61, 0xE9, 0x62])"
proof -
  have v: "chars [star, 0xE9, any_char, star, 0x62]" "chars [0x61, 0xE9, 0x20AC, 0x61, 0x62]" "chars [0x61, 0xE9, 0x62]"
    by (simp_all add: valid_scalar scalar_def)
  have l: "length (enc [star, 0xE9, any_char, star, 0x62]) < 2 ^ 30" "length (enc [0x61, 0xE9, 0x20AC, 0x61, 0x62]) < 2 ^ 30"
    "length (enc [0x61, 0xE9, 0x62]) < 2 ^ 30"
    by (simp_all add: encode_skip(1) UTF8_LENGTH_def)
  show ?thesis
    using pattern_match_glob[OF v(1) l(1) v(2) l(2)] pattern_match_glob[OF v(1) l(1) v(3) l(3)]
    by (simp add: glob.simps)
qed

text \<open>
  C26: Two compiled patterns that compare equal match the same strings, although their length bounds are not
  compared.
\<close>
theorem pattern_equal_sound:
  assumes "chars p" "length (enc p) < 2 ^ 30" "chars p'" "length (enc p') < 2 ^ 30"
    and "g_pattern_spec_equal (g_pattern_spec_new (enc p)) (g_pattern_spec_new (enc p'))"
    and "chars s" "length (enc s) < 2 ^ 30"
  shows "g_pattern_match_simple (enc p) (enc s) = g_pattern_match_simple (enc p') (enc s)"
proof -
  have "glob p s = glob p' s"
    using canonical_same[OF assms(1-5)] canonical_glob(1)[of 0 p] canonical_glob(1)[of 0 p'] by (simp add: glob_eq_def)
  moreover have "guint (length (enc s)) = length (enc s)" using assms(7) by (simp add: guint_id)
  ultimately show ?thesis using match_glob[OF assms(1,2,6,7), of None] match_glob[OF assms(3,4,6,7), of None]
    by (simp add: g_pattern_match_simple_def)
qed

theorem pattern_equal_sound_witness:
  "g_pattern_match_simple (enc [0x61, any_char, star, star]) (enc [0x61, 0x62]) =
   g_pattern_match_simple (enc [0x61, star, any_char]) (enc [0x61, 0x62])"
proof (rule pattern_equal_sound)
  show "g_pattern_spec_equal (g_pattern_spec_new (enc [0x61, any_char, star, star])) (g_pattern_spec_new (enc [0x61, star, any_char]))"
    by (simp add: encode_ascii g_pattern_spec_new_def canon_init_def canon_step_def guint_def first_pos_def Let_def
        g_pattern_spec_equal_def int_pos_def)
qed (simp_all add: valid_scalar scalar_def encode_ascii)

end
