(* ===== verification/Glib_Types.thy ===== *)
theory Glib_Types
  imports OSC_Prelude
begin

text \<open>
  What the containers of GLib share: a pointer is 64 bits wide and \<open>NULL\<close> is 0. Of the destroy
  functions a container records whether they are given; operations list the calls they make to them.
\<close>

type_synonym gpointer = u64

abbreviation NULL :: gpointer where "NULL \<equiv> 0"

text \<open>A call of a destroy function.\<close>

datatype destroyed = Key gpointer | Value gpointer

section \<open>The order of the keys\<close>

text \<open>What the sorted containers rely on: the comparison that they are given orders the values, up to equivalence.\<close>

locale key_order =
  fixes compare :: "gpointer \<Rightarrow> gpointer \<Rightarrow> int"
  assumes antisym: "compare a b < 0 \<longleftrightarrow> 0 < compare b a"
    and trans: "compare a b \<le> 0 \<Longrightarrow> compare b c \<le> 0 \<Longrightarrow> compare a c \<le> 0"
begin

lemma refl: "compare a a = 0"
  using antisym[of a a] by linarith

lemma less_trans: "compare a b < 0 \<Longrightarrow> compare b c < 0 \<Longrightarrow> compare a c < 0"
  using trans[of a b c] trans[of c a b] antisym[of a b] antisym[of b c] antisym[of a c] by (smt (verit))

lemma eq_sym: "compare a b = 0 \<longleftrightarrow> compare b a = 0"
  using antisym[of a b] antisym[of b a] by linarith

lemma eq_less: "compare a b = 0 \<Longrightarrow> compare b c < 0 \<Longrightarrow> compare a c < 0"
  using trans[of a b c] trans[of c a b] antisym[of b c] antisym[of a c] by (smt (verit))

lemma less_eq: "compare a b < 0 \<Longrightarrow> compare b c = 0 \<Longrightarrow> compare a c < 0"
  using trans[of a b c] trans[of b c a] eq_sym[of b c] antisym[of b a] antisym[of a b] antisym[of c a] antisym[of a c] by (smt (verit))

lemma greater_trans: "0 < compare a b \<Longrightarrow> 0 < compare b c \<Longrightarrow> 0 < compare a c"
  using less_trans[of c b a] by (simp flip: antisym)

end

end
