(* ===== verification/Glib_HashTable.thy ===== *)
theory Glib_HashTable
  imports Glib_Types
begin

text \<open>
  Hash tables (\<open>ghash.c\<close>): open addressing with quadratic probing and tombstones. The three arrays are
  lists; \<open>vals\<close> is \<open>None\<close> while the values are the very array of the keys, as for a table used as a set.
  The hash function and the comparison are members of the table,
  functions of the pointer; \<open>None\<close> stands for not returning: a loop without an end or
  a failed assertion.
\<close>

unbundle bit_operations_syntax

definition HASH_TABLE_MIN_SHIFT :: nat where
  "HASH_TABLE_MIN_SHIFT = 3"

definition HASH_IS_UNUSED :: "u32 \<Rightarrow> bool" where
  "HASH_IS_UNUSED h \<longleftrightarrow> h = 0"

definition HASH_IS_TOMBSTONE :: "u32 \<Rightarrow> bool" where
  "HASH_IS_TOMBSTONE h \<longleftrightarrow> h = 1"

definition HASH_IS_REAL :: "u32 \<Rightarrow> bool" where
  "HASH_IS_REAL h \<longleftrightarrow> 2 \<le> h"

record GHashTable =
  ht_size :: nat
  ht_mod :: nat
  ht_mask :: u32
  nnodes :: int
  noccupied :: int
  keys :: "gpointer list"
  hashes :: "u32 list"
  vals :: "gpointer list option"
  hash_func :: "gpointer \<Rightarrow> u32"
  key_equal_func :: "(gpointer \<Rightarrow> gpointer \<Rightarrow> bool) option"
  ref_count :: int
  version :: int
  key_destroy_func :: bool
  value_destroy_func :: bool

record RealIter =
  position :: int
  iter_version :: int

definition value_at :: "GHashTable \<Rightarrow> nat \<Rightarrow> gpointer" where
  "value_at ht i = (case vals ht of None \<Rightarrow> keys ht | Some vs \<Rightarrow> vs) ! i"

section \<open>Sizes\<close>

definition prime_mod :: "nat list" where
  "prime_mod =
     [1, 2, 3, 7, 13, 31, 61, 127, 251, 509, 1021, 2039, 4093, 8191, 16381, 32749, 65521, 131071, 262139,
      524287, 1048573, 2097143, 4194301, 8388593, 16777213, 33554393, 67108859, 134217689, 268435399,
      536870909, 1073741789, 2147483647]"

fun mask_loop :: "nat \<Rightarrow> u32 \<Rightarrow> u32" where
  "mask_loop 0 m = m"
| "mask_loop (Suc n) m = mask_loop n (push_bit 1 m OR 1)"

definition g_hash_table_set_shift :: "GHashTable \<Rightarrow> nat \<Rightarrow> GHashTable" where
  "g_hash_table_set_shift ht shift =
     ht\<lparr>ht_size := 2 ^ shift, ht_mod := prime_mod ! shift, ht_mask := mask_loop shift 0\<rparr>"

text \<open>A negative number is never shifted to zero.\<close>

partial_function (option) shift_loop :: "int \<Rightarrow> nat \<Rightarrow> nat option" where
  "shift_loop n i = (if n = 0 then Some i else shift_loop (n div 2) (i + 1))"

definition g_hash_table_find_closest_shift :: "int \<Rightarrow> nat option" where
  "g_hash_table_find_closest_shift n = shift_loop n 0"

definition g_hash_table_set_shift_from_size :: "GHashTable \<Rightarrow> int \<Rightarrow> GHashTable option" where
  "g_hash_table_set_shift_from_size ht n =
     map_option (\<lambda>shift. g_hash_table_set_shift ht (max shift HASH_TABLE_MIN_SHIFT)) (g_hash_table_find_closest_shift n)"

section \<open>Finding a node\<close>

definition node_matches :: "GHashTable \<Rightarrow> u32 \<Rightarrow> gpointer \<Rightarrow> bool" where
  "node_matches ht i key =
     (let node_key = keys ht ! unat i
      in case key_equal_func ht of Some eq \<Rightarrow> eq node_key key | None \<Rightarrow> node_key = key)"

partial_function (option) lookup_loop :: "GHashTable \<Rightarrow> gpointer \<Rightarrow> u32 \<Rightarrow> u32 \<Rightarrow> u32 \<Rightarrow> u32 option \<Rightarrow> u32 option" where
  "lookup_loop ht key hash_value node_index step first_tombstone =
     (let node_hash = hashes ht ! unat node_index
      in if HASH_IS_UNUSED node_hash
         then Some (case first_tombstone of Some t \<Rightarrow> t | None \<Rightarrow> node_index)
         else if node_hash = hash_value \<and> node_matches ht node_index key then Some node_index
         else lookup_loop ht key hash_value ((node_index + (step + 1)) AND ht_mask ht) (step + 1)
                (if node_hash \<noteq> hash_value \<and> HASH_IS_TOMBSTONE node_hash \<and> first_tombstone = None
                 then Some node_index else first_tombstone))"

definition hash_of :: "GHashTable \<Rightarrow> gpointer \<Rightarrow> u32" where
  "hash_of ht key = (let hash_value = hash_func ht key in if \<not> HASH_IS_REAL hash_value then 2 else hash_value)"

definition g_hash_table_lookup_node :: "GHashTable \<Rightarrow> gpointer \<Rightarrow> (u32 \<times> u32) option" where
  "g_hash_table_lookup_node ht key =
     (if 0 < ref_count ht
      then let hash_value = hash_of ht key
           in map_option (\<lambda>i. (i, hash_value)) (lookup_loop ht key hash_value (hash_value mod of_nat (ht_mod ht)) 0 None)
      else None)"

section \<open>Removing nodes\<close>

definition destroy_calls :: "GHashTable \<Rightarrow> bool \<Rightarrow> bool \<Rightarrow> gpointer \<Rightarrow> gpointer \<Rightarrow> destroyed list" where
  "destroy_calls ht k v key val =
     (if k \<and> key_destroy_func ht then [Key key] else []) @ (if v \<and> value_destroy_func ht then [Value val] else [])"

definition g_hash_table_remove_node :: "GHashTable \<Rightarrow> nat \<Rightarrow> bool \<Rightarrow> GHashTable \<times> destroyed list" where
  "g_hash_table_remove_node ht i notify =
     (ht\<lparr>hashes := (hashes ht)[i := 1], keys := (keys ht)[i := NULL],
         vals := map_option (\<lambda>vs. vs[i := NULL]) (vals ht), nnodes := nnodes ht - 1\<rparr>,
      destroy_calls ht notify notify (keys ht ! i) (value_at ht i))"

definition fresh_arrays :: "GHashTable \<Rightarrow> GHashTable" where
  "fresh_arrays ht = ht\<lparr>keys := replicate (ht_size ht) NULL, vals := None, hashes := replicate (ht_size ht) 0\<rparr>"

definition g_hash_table_remove_all_nodes :: "GHashTable \<Rightarrow> bool \<Rightarrow> bool \<Rightarrow> GHashTable \<times> destroyed list" where
  "g_hash_table_remove_all_nodes ht notify destruction =
     (if nnodes ht = 0 then (ht, [])
      else let ht' = ht\<lparr>nnodes := 0, noccupied := 0\<rparr>
           in if \<not> notify \<or> \<not> key_destroy_func ht \<and> \<not> value_destroy_func ht
              then (if \<not> destruction
                    then ht'\<lparr>hashes := replicate (ht_size ht) 0, keys := replicate (ht_size ht) NULL,
                             vals := map_option (\<lambda>_. replicate (ht_size ht) NULL) (vals ht)\<rparr>
                    else ht', [])
              else let ht' = g_hash_table_set_shift ht' HASH_TABLE_MIN_SHIFT
                   in (if \<not> destruction then fresh_arrays ht' else ht'\<lparr>keys := [], vals := None, hashes := []\<rparr>,
                       concat (map (\<lambda>i. if HASH_IS_REAL (hashes ht ! i)
                                        then destroy_calls ht True True (keys ht ! i) (value_at ht i) else [])
                                   [0..<ht_size ht])))"

section \<open>Resizing\<close>

partial_function (option) free_slot :: "u32 list \<Rightarrow> u32 \<Rightarrow> u32 \<Rightarrow> u32 \<Rightarrow> u32 option" where
  "free_slot new_hashes m hash_val step =
     (if HASH_IS_UNUSED (new_hashes ! unat hash_val) then Some hash_val
      else free_slot new_hashes m ((hash_val + (step + 1)) AND m) (step + 1))"

text \<open>A node of the old arrays goes into the new ones.\<close>

definition move_node :: "GHashTable \<Rightarrow> nat \<Rightarrow> GHashTable \<Rightarrow> GHashTable option" where
  "move_node old i new =
     (let node_hash = hashes old ! i
      in if \<not> HASH_IS_REAL node_hash then Some new
         else map_option (\<lambda>j. new\<lparr>hashes := (hashes new)[unat j := node_hash], keys := (keys new)[unat j := keys old ! i],
                                  vals := map_option (\<lambda>vs. vs[unat j := value_at old i]) (vals new)\<rparr>)
                (free_slot (hashes new) (ht_mask new) (node_hash mod of_nat (ht_mod new)) 0))"

fun move_nodes :: "GHashTable \<Rightarrow> nat list \<Rightarrow> GHashTable \<Rightarrow> GHashTable option" where
  "move_nodes old [] new = Some new"
| "move_nodes old (i # is) new = Option.bind (move_node old i new) (move_nodes old is)"

definition g_hash_table_resize :: "GHashTable \<Rightarrow> GHashTable option" where
  "g_hash_table_resize ht =
     Option.bind (g_hash_table_set_shift_from_size ht (nnodes ht * 2)) (\<lambda>new.
       map_option (\<lambda>new. new\<lparr>noccupied := nnodes ht\<rparr>)
         (move_nodes ht [0..<ht_size ht]
           (new\<lparr>keys := replicate (ht_size new) NULL, vals := map_option (\<lambda>_. replicate (ht_size new) NULL) (vals ht),
                hashes := replicate (ht_size new) 0\<rparr>)))"

definition g_hash_table_maybe_resize :: "GHashTable \<Rightarrow> GHashTable option" where
  "g_hash_table_maybe_resize ht =
     (let size = int (ht_size ht)
      in if size > nnodes ht * 4 \<and> size > 2 ^ HASH_TABLE_MIN_SHIFT \<or> size \<le> noccupied ht + noccupied ht div 16
         then g_hash_table_resize ht else Some ht)"

section \<open>New tables\<close>

definition g_direct_hash :: "gpointer \<Rightarrow> u32" where
  "g_direct_hash v = ucast v"

definition g_hash_table_new_full ::
    "(gpointer \<Rightarrow> u32) option \<Rightarrow> (gpointer \<Rightarrow> gpointer \<Rightarrow> bool) option \<Rightarrow> bool \<Rightarrow> bool \<Rightarrow> GHashTable" where
  "g_hash_table_new_full hash eq kd vd =
     (let ht = \<lparr>ht_size = 0, ht_mod = 0, ht_mask = 0, nnodes = 0, noccupied = 0, keys = [], hashes = [], vals = None,
                hash_func = (case hash of Some h \<Rightarrow> h | None \<Rightarrow> g_direct_hash), key_equal_func = eq,
                ref_count = 1, version = 0, key_destroy_func = kd, value_destroy_func = vd\<rparr>
      in fresh_arrays (g_hash_table_set_shift ht HASH_TABLE_MIN_SHIFT))"

definition g_hash_table_new :: "(gpointer \<Rightarrow> u32) option \<Rightarrow> (gpointer \<Rightarrow> gpointer \<Rightarrow> bool) option \<Rightarrow> GHashTable" where
  "g_hash_table_new hash eq = g_hash_table_new_full hash eq False False"

section \<open>Inserting\<close>

definition g_hash_table_insert_node ::
    "GHashTable \<Rightarrow> nat \<Rightarrow> u32 \<Rightarrow> gpointer \<Rightarrow> gpointer \<Rightarrow> bool \<Rightarrow> bool \<Rightarrow> (GHashTable \<times> bool \<times> destroyed list) option" where
  "g_hash_table_insert_node ht i key_hash new_key new_value keep_new_key reusing_key =
     (let old_hash = hashes ht ! i;
          already_exists = HASH_IS_REAL old_hash;
          value_to_free = value_at ht i;
          key_to_free = (if keep_new_key then keys ht ! i else new_key);
          ht1 = (if already_exists
                 then if keep_new_key then ht\<lparr>keys := (keys ht)[i := new_key]\<rparr> else ht
                 else ht\<lparr>hashes := (hashes ht)[i := key_hash], keys := (keys ht)[i := new_key]\<rparr>);
          ht2 = (if vals ht1 = None \<and> keys ht1 ! i \<noteq> new_value then ht1\<lparr>vals := Some (keys ht1)\<rparr> else ht1);
          ht3 = ht2\<lparr>vals := map_option (\<lambda>vs. vs[i := new_value]) (vals ht2)\<rparr>
      in if already_exists
         then Some (ht3, False, destroy_calls ht (\<not> reusing_key) True key_to_free value_to_free)
         else let ht4 = ht3\<lparr>nnodes := nnodes ht3 + 1\<rparr>
              in map_option (\<lambda>ht5. (ht5\<lparr>version := version ht5 + 1\<rparr>, True, []))
                   (if HASH_IS_UNUSED old_hash
                    then g_hash_table_maybe_resize (ht4\<lparr>noccupied := noccupied ht4 + 1\<rparr>)
                    else Some ht4))"

definition g_hash_table_insert_internal ::
    "GHashTable \<Rightarrow> gpointer \<Rightarrow> gpointer \<Rightarrow> bool \<Rightarrow> (GHashTable \<times> bool \<times> destroyed list) option" where
  "g_hash_table_insert_internal ht key val keep_new_key =
     Option.bind (g_hash_table_lookup_node ht key)
       (\<lambda>(i, key_hash). g_hash_table_insert_node ht (unat i) key_hash key val keep_new_key False)"

definition g_hash_table_insert :: "GHashTable \<Rightarrow> gpointer \<Rightarrow> gpointer \<Rightarrow> (GHashTable \<times> bool \<times> destroyed list) option" where
  "g_hash_table_insert ht key val = g_hash_table_insert_internal ht key val False"

definition g_hash_table_replace :: "GHashTable \<Rightarrow> gpointer \<Rightarrow> gpointer \<Rightarrow> (GHashTable \<times> bool \<times> destroyed list) option" where
  "g_hash_table_replace ht key val = g_hash_table_insert_internal ht key val True"

definition g_hash_table_add :: "GHashTable \<Rightarrow> gpointer \<Rightarrow> (GHashTable \<times> bool \<times> destroyed list) option" where
  "g_hash_table_add ht key = g_hash_table_insert_internal ht key key True"

section \<open>Looking up and removing\<close>

definition g_hash_table_lookup :: "GHashTable \<Rightarrow> gpointer \<Rightarrow> gpointer option" where
  "g_hash_table_lookup ht key =
     map_option (\<lambda>(i, _). if HASH_IS_REAL (hashes ht ! unat i) then value_at ht (unat i) else NULL)
       (g_hash_table_lookup_node ht key)"

text \<open>The original key and the value, if there is a node.\<close>

definition g_hash_table_lookup_extended :: "GHashTable \<Rightarrow> gpointer \<Rightarrow> (gpointer \<times> gpointer) option option" where
  "g_hash_table_lookup_extended ht key =
     map_option (\<lambda>(i, _). if \<not> HASH_IS_REAL (hashes ht ! unat i) then None
                           else Some (keys ht ! unat i, value_at ht (unat i)))
       (g_hash_table_lookup_node ht key)"

definition g_hash_table_contains :: "GHashTable \<Rightarrow> gpointer \<Rightarrow> bool option" where
  "g_hash_table_contains ht key =
     map_option (\<lambda>(i, _). HASH_IS_REAL (hashes ht ! unat i)) (g_hash_table_lookup_node ht key)"

definition g_hash_table_remove_internal :: "GHashTable \<Rightarrow> gpointer \<Rightarrow> bool \<Rightarrow> (GHashTable \<times> bool \<times> destroyed list) option" where
  "g_hash_table_remove_internal ht key notify =
     Option.bind (g_hash_table_lookup_node ht key) (\<lambda>(i, _).
       if \<not> HASH_IS_REAL (hashes ht ! unat i) then Some (ht, False, [])
       else let (ht1, calls) = g_hash_table_remove_node ht (unat i) notify
            in map_option (\<lambda>ht2. (ht2\<lparr>version := version ht2 + 1\<rparr>, True, calls)) (g_hash_table_maybe_resize ht1))"

definition g_hash_table_remove :: "GHashTable \<Rightarrow> gpointer \<Rightarrow> (GHashTable \<times> bool \<times> destroyed list) option" where
  "g_hash_table_remove ht key = g_hash_table_remove_internal ht key True"

definition g_hash_table_steal :: "GHashTable \<Rightarrow> gpointer \<Rightarrow> (GHashTable \<times> bool \<times> destroyed list) option" where
  "g_hash_table_steal ht key = g_hash_table_remove_internal ht key False"

definition remove_or_steal_all :: "GHashTable \<Rightarrow> bool \<Rightarrow> (GHashTable \<times> destroyed list) option" where
  "remove_or_steal_all ht notify =
     (let ht1 = (if nnodes ht \<noteq> 0 then ht\<lparr>version := version ht + 1\<rparr> else ht);
          (ht2, calls) = g_hash_table_remove_all_nodes ht1 notify False
      in map_option (\<lambda>ht3. (ht3, calls)) (g_hash_table_maybe_resize ht2))"

definition g_hash_table_remove_all :: "GHashTable \<Rightarrow> (GHashTable \<times> destroyed list) option" where
  "g_hash_table_remove_all ht = remove_or_steal_all ht True"

definition g_hash_table_steal_all :: "GHashTable \<Rightarrow> (GHashTable \<times> destroyed list) option" where
  "g_hash_table_steal_all ht = remove_or_steal_all ht False"

section \<open>References\<close>

definition g_hash_table_ref :: "GHashTable \<Rightarrow> GHashTable" where
  "g_hash_table_ref ht = ht\<lparr>ref_count := ref_count ht + 1\<rparr>"

text \<open>The table is gone when the last reference is.\<close>

definition g_hash_table_unref :: "GHashTable \<Rightarrow> GHashTable option \<times> destroyed list" where
  "g_hash_table_unref ht =
     (let ht1 = ht\<lparr>ref_count := ref_count ht - 1\<rparr>
      in if ref_count ht1 = 0 then (None, snd (g_hash_table_remove_all_nodes ht1 True True)) else (Some ht1, []))"

definition g_hash_table_destroy :: "GHashTable \<Rightarrow> (GHashTable option \<times> destroyed list) option" where
  "g_hash_table_destroy ht =
     map_option (\<lambda>(ht1, calls1). let (r, calls2) = g_hash_table_unref ht1 in (r, calls1 @ calls2)) (g_hash_table_remove_all ht)"

section \<open>Iterators\<close>

definition g_hash_table_iter_init :: "GHashTable \<Rightarrow> RealIter" where
  "g_hash_table_iter_init ht = \<lparr>position = -1, iter_version = version ht\<rparr>"

text \<open>The positions that are tried after one, up to the first with a node.\<close>

function next_real :: "GHashTable \<Rightarrow> int \<Rightarrow> int" where
  "next_real ht p =
     (if p + 1 \<ge> int (ht_size ht) then p + 1
      else if HASH_IS_REAL (hashes ht ! nat (p + 1)) then p + 1
      else next_real ht (p + 1))"
  by auto
termination by (relation "measure (\<lambda>(ht, p). nat (int (ht_size ht) - p))") auto

declare next_real.simps [simp del]

definition g_hash_table_iter_next :: "RealIter \<Rightarrow> GHashTable \<Rightarrow> RealIter \<times> (gpointer \<times> gpointer) option" where
  "g_hash_table_iter_next ri ht =
     (if iter_version ri \<noteq> version ht then (ri, None)
      else if \<not> position ri < int (ht_size ht) then (ri, None)
      else let p = next_real ht (position ri)
           in (ri\<lparr>position := p\<rparr>,
               if p \<ge> int (ht_size ht) then None else Some (keys ht ! nat p, value_at ht (nat p))))"

definition iter_remove_or_steal :: "RealIter \<Rightarrow> GHashTable \<Rightarrow> bool \<Rightarrow> RealIter \<times> GHashTable \<times> destroyed list" where
  "iter_remove_or_steal ri ht notify =
     (if iter_version ri \<noteq> version ht \<or> position ri < 0 \<or> \<not> position ri < int (ht_size ht) then (ri, ht, [])
      else let (ht1, calls) = g_hash_table_remove_node ht (nat (position ri)) notify
           in (ri\<lparr>iter_version := iter_version ri + 1\<rparr>, ht1\<lparr>version := version ht1 + 1\<rparr>, calls))"

definition g_hash_table_iter_remove :: "RealIter \<Rightarrow> GHashTable \<Rightarrow> RealIter \<times> GHashTable \<times> destroyed list" where
  "g_hash_table_iter_remove ri ht = iter_remove_or_steal ri ht True"

definition g_hash_table_iter_steal :: "RealIter \<Rightarrow> GHashTable \<Rightarrow> RealIter \<times> GHashTable \<times> destroyed list" where
  "g_hash_table_iter_steal ri ht = iter_remove_or_steal ri ht False"

definition g_hash_table_iter_replace :: "RealIter \<Rightarrow> GHashTable \<Rightarrow> gpointer \<Rightarrow> (RealIter \<times> GHashTable \<times> destroyed list) option" where
  "g_hash_table_iter_replace ri ht val =
     (if iter_version ri \<noteq> version ht \<or> position ri < 0 \<or> \<not> position ri < int (ht_size ht) then Some (ri, ht, [])
      else let i = nat (position ri)
           in map_option (\<lambda>(ht1, _, calls). (ri\<lparr>iter_version := iter_version ri + 1\<rparr>, ht1\<lparr>version := version ht1 + 1\<rparr>, calls))
                (g_hash_table_insert_node ht i (hashes ht ! i) (keys ht ! i) val True True))"

section \<open>Going through the nodes\<close>

text \<open>
  The function the caller gives sees keys and values and a state of its own (\<open>user_data\<close>), and leaves
  the table alone.
\<close>

fun foreach_remove_loop ::
    "(gpointer \<Rightarrow> gpointer \<Rightarrow> 's \<Rightarrow> bool \<times> 's) \<Rightarrow> bool \<Rightarrow> nat list \<Rightarrow> GHashTable \<Rightarrow> 's \<Rightarrow> nat \<Rightarrow> destroyed list \<Rightarrow>
       GHashTable \<times> 's \<times> nat \<times> destroyed list" where
  "foreach_remove_loop f notify [] ht s deleted calls = (ht, s, deleted, calls)"
| "foreach_remove_loop f notify (i # is) ht s deleted calls =
     (if HASH_IS_REAL (hashes ht ! i)
      then let (r, s') = f (keys ht ! i) (value_at ht i) s
           in if r then let (ht', new) = g_hash_table_remove_node ht i notify
                        in foreach_remove_loop f notify is ht' s' (deleted + 1) (calls @ new)
              else foreach_remove_loop f notify is ht s' deleted calls
      else foreach_remove_loop f notify is ht s deleted calls)"

definition g_hash_table_foreach_remove_or_steal ::
    "GHashTable \<Rightarrow> (gpointer \<Rightarrow> gpointer \<Rightarrow> 's \<Rightarrow> bool \<times> 's) \<Rightarrow> 's \<Rightarrow> bool \<Rightarrow> (GHashTable \<times> 's \<times> nat \<times> destroyed list) option" where
  "g_hash_table_foreach_remove_or_steal ht f s notify =
     (let (ht1, s', deleted, calls) = foreach_remove_loop f notify [0..<ht_size ht] ht s 0 []
      in map_option (\<lambda>ht2. (if 0 < deleted then ht2\<lparr>version := version ht2 + 1\<rparr> else ht2, s', deleted, calls))
           (g_hash_table_maybe_resize ht1))"

definition g_hash_table_foreach_remove ::
    "GHashTable \<Rightarrow> (gpointer \<Rightarrow> gpointer \<Rightarrow> 's \<Rightarrow> bool \<times> 's) \<Rightarrow> 's \<Rightarrow> (GHashTable \<times> 's \<times> nat \<times> destroyed list) option" where
  "g_hash_table_foreach_remove ht f s = g_hash_table_foreach_remove_or_steal ht f s True"

definition g_hash_table_foreach_steal ::
    "GHashTable \<Rightarrow> (gpointer \<Rightarrow> gpointer \<Rightarrow> 's \<Rightarrow> bool \<times> 's) \<Rightarrow> 's \<Rightarrow> (GHashTable \<times> 's \<times> nat \<times> destroyed list) option" where
  "g_hash_table_foreach_steal ht f s = g_hash_table_foreach_remove_or_steal ht f s False"

fun foreach_loop :: "(gpointer \<Rightarrow> gpointer \<Rightarrow> 's \<Rightarrow> 's) \<Rightarrow> GHashTable \<Rightarrow> nat list \<Rightarrow> 's \<Rightarrow> 's" where
  "foreach_loop f ht [] s = s"
| "foreach_loop f ht (i # is) s =
     foreach_loop f ht is (if HASH_IS_REAL (hashes ht ! i) then f (keys ht ! i) (value_at ht i) s else s)"

definition g_hash_table_foreach :: "GHashTable \<Rightarrow> (gpointer \<Rightarrow> gpointer \<Rightarrow> 's \<Rightarrow> 's) \<Rightarrow> 's \<Rightarrow> 's" where
  "g_hash_table_foreach ht f s = foreach_loop f ht [0..<ht_size ht] s"

fun find_loop :: "(gpointer \<Rightarrow> gpointer \<Rightarrow> 's \<Rightarrow> bool \<times> 's) \<Rightarrow> GHashTable \<Rightarrow> nat list \<Rightarrow> 's \<Rightarrow> gpointer \<times> 's" where
  "find_loop f ht [] s = (NULL, s)"
| "find_loop f ht (i # is) s =
     (if HASH_IS_REAL (hashes ht ! i)
      then let (match, s') = f (keys ht ! i) (value_at ht i) s
           in if match then (value_at ht i, s') else find_loop f ht is s'
      else find_loop f ht is s)"

definition g_hash_table_find :: "GHashTable \<Rightarrow> (gpointer \<Rightarrow> gpointer \<Rightarrow> 's \<Rightarrow> bool \<times> 's) \<Rightarrow> 's \<Rightarrow> gpointer \<times> 's" where
  "g_hash_table_find ht f s = find_loop f ht [0..<ht_size ht] s"

definition g_hash_table_size :: "GHashTable \<Rightarrow> u32" where
  "g_hash_table_size ht = word_of_int (nnodes ht)"

definition real_nodes :: "GHashTable \<Rightarrow> nat list" where
  "real_nodes ht = filter (\<lambda>i. HASH_IS_REAL (hashes ht ! i)) [0..<ht_size ht]"

definition g_hash_table_get_keys :: "GHashTable \<Rightarrow> gpointer list" where
  "g_hash_table_get_keys ht = fold (\<lambda>i retval. keys ht ! i # retval) (real_nodes ht) []"

definition g_hash_table_get_values :: "GHashTable \<Rightarrow> gpointer list" where
  "g_hash_table_get_values ht = fold (\<lambda>i retval. value_at ht i # retval) (real_nodes ht) []"

text \<open>The array ends in a \<open>NULL\<close> that the length does not count; the count of the nodes is asserted.\<close>

definition g_hash_table_get_keys_as_array :: "GHashTable \<Rightarrow> (gpointer list \<times> nat) option" where
  "g_hash_table_get_keys_as_array ht =
     (let result = map (\<lambda>i. keys ht ! i) (real_nodes ht)
      in if int (length result) = nnodes ht then Some (result @ [NULL], length result) else None)"

section \<open>Hash functions\<close>

text \<open>The functions read what the pointer points at: a text before its NUL, or a number.\<close>

definition g_str_equal :: "u8 list \<Rightarrow> u8 list \<Rightarrow> bool" where
  "g_str_equal string1 string2 \<longleftrightarrow> string1 = string2"

definition g_str_hash :: "u8 list \<Rightarrow> u32" where
  "g_str_hash v = foldl (\<lambda>h p. push_bit 5 h + h + scast p) 5381 v"

definition g_direct_equal :: "gpointer \<Rightarrow> gpointer \<Rightarrow> bool" where
  "g_direct_equal v1 v2 \<longleftrightarrow> v1 = v2"

definition g_int_equal :: "u32 \<Rightarrow> u32 \<Rightarrow> bool" where
  "g_int_equal v1 v2 \<longleftrightarrow> v1 = v2"

definition g_int_hash :: "u32 \<Rightarrow> u32" where
  "g_int_hash v = v"

definition g_int64_equal :: "u64 \<Rightarrow> u64 \<Rightarrow> bool" where
  "g_int64_equal v1 v2 \<longleftrightarrow> v1 = v2"

definition g_int64_hash :: "u64 \<Rightarrow> u32" where
  "g_int64_hash v = ucast v"

end
