(* ===== verification/Glib_HashTable_Laws.thy ===== *)
theory Glib_HashTable_Laws
  imports Glib_HashTable "HOL-Library.Multiset"
begin

text \<open>
  Laws of the hash table: the quadratic probing of a table of a power of two slots gets to every slot, so
  that the loops end; the slots of the table under the operations; the invariant.
\<close>

section \<open>Probing\<close>

definition tri :: "nat \<Rightarrow> nat" where
  "tri m = m * (m + 1) div 2"

lemma tri_0 [simp]: "tri 0 = 0"
  by (simp add: tri_def)

lemma tri_Suc [simp]: "tri (Suc m) = tri m + m + 1"
proof -
  have "Suc m * (Suc m + 1) = m * (m + 1) + 2 * (m + 1)" by simp
  then show ?thesis by (simp add: tri_def)
qed

lemma tri_mono: "i \<le> j \<Longrightarrow> tri i \<le> tri j"
  by (rule lift_Suc_mono_le[of tri]) simp_all

lemma tri_double: "2 * tri m = m * (m + 1)"
  by (induction m) simp_all

definition probe :: "nat \<Rightarrow> nat \<Rightarrow> nat \<Rightarrow> nat" where
  "probe n b m = (b + tri m) mod 2 ^ n"

lemma probe_less [simp]: "probe n b m < 2 ^ n"
  by (simp add: probe_def)

lemma probe_0: "b < 2 ^ n \<Longrightarrow> probe n b 0 = b"
  by (simp add: probe_def)

lemma probe_Suc: "probe n b (Suc m) = (probe n b m + (m + 1)) mod 2 ^ n"
  unfolding probe_def tri_Suc mod_add_left_eq by (simp only: add.assoc)

text \<open>
  Two of the first \<open>2^n\<close> triangular numbers differ modulo \<open>2^n\<close>: twice their difference is the product
  of two numbers below \<open>2^(n+1)\<close>, one of which is odd.
\<close>

lemma tri_inj:
  assumes "(2::nat) ^ n dvd tri j - tri i" "i \<le> j" "j < 2 ^ n"
  shows "i = j"
proof (rule ccontr)
  assume "i \<noteq> j"
  with assms(2) have ij: "i < j" by simp
  have "tri i \<le> tri j" using assms(2) by (rule tri_mono)
  then have "2 * (tri j - tri i) = (j - i) * (j + i + 1)"
  proof -
    obtain d where d: "j = i + d" using assms(2) le_Suc_ex by blast
    have "2 * tri j = 2 * tri i + (j - i) * (j + i + 1)" unfolding tri_double d by (simp add: algebra_simps)
    then show ?thesis by simp
  qed
  moreover have "2 ^ Suc n dvd 2 * (tri j - tri i)" using assms(1) by simp
  ultimately have d: "2 ^ Suc n dvd (j - i) * (j + i + 1)" by simp
  show False
  proof (cases "even (j - i)")
    case True
    then have "odd (j + i + 1)" using assms(2) by simp
    then have "coprime (2 ^ Suc n) (j + i + 1)" by simp
    with d have "2 ^ Suc n dvd j - i" using coprime_dvd_mult_left_iff by blast
    then have "2 ^ Suc n \<le> j - i" using ij by (simp add: dvd_imp_le)
    with assms(3) show False by simp
  next
    case False
    then have "coprime (2 ^ Suc n) (j - i)" by simp
    with d have "2 ^ Suc n dvd j + i + 1" using coprime_dvd_mult_right_iff by blast
    then have "2 ^ Suc n \<le> j + i + 1" by (simp add: dvd_imp_le)
    with assms(3) ij show False by simp
  qed
qed

lemma probe_inj: "inj_on (probe n b) {..<2 ^ n}"
proof (rule linorder_inj_onI')
  fix i j :: nat assume ij: "i \<in> {..<2 ^ n}" "j \<in> {..<2 ^ n}" "i < j"
  show "probe n b i \<noteq> probe n b j"
  proof
    assume "probe n b i = probe n b j"
    then have "(b + tri j) mod 2 ^ n = (b + tri i) mod 2 ^ n" by (simp add: probe_def)
    moreover have "tri i \<le> tri j" using ij(3) by (intro tri_mono) simp
    ultimately have "2 ^ n dvd (b + tri j) - (b + tri i)" by (metis add_le_cancel_left mod_eq_dvd_iff_nat)
    then have "2 ^ n dvd tri j - tri i" by simp
    from tri_inj[OF this] ij show False by simp
  qed
qed

lemma probe_covers: "i < 2 ^ n \<Longrightarrow> \<exists>m < 2 ^ n. probe n b m = i"
proof -
  have "probe n b ` {..<2 ^ n} = {..<2 ^ n}"
    by (rule endo_inj_surj) (auto simp: probe_inj)
  moreover assume "i < 2 ^ n"
  ultimately have "i \<in> probe n b ` {..<2 ^ n}" by simp
  then show ?thesis by auto
qed

text \<open>The step of the code, on words.\<close>

lemma probe_word:
  assumes "n \<le> 30"
  shows "((of_nat (probe n b m) :: u32) + (of_nat m + 1)) AND mask n = of_nat (probe n b (Suc m))"
    and "unat (of_nat (probe n b m) :: u32) = probe n b m"
proof -
  have "((of_nat (probe n b m) :: u32) + (of_nat m + 1)) AND mask n = take_bit n (of_nat (probe n b m + (m + 1)))"
    by (simp only: take_bit_eq_mask of_nat_add of_nat_1)
  also have "\<dots> = of_nat (take_bit n (probe n b m + (m + 1)))" by (rule take_bit_of_nat)
  also have "\<dots> = of_nat (probe n b (Suc m))" by (simp add: take_bit_eq_mod probe_Suc)
  finally show "((of_nat (probe n b m) :: u32) + (of_nat m + 1)) AND mask n = of_nat (probe n b (Suc m))" .
  have "probe n b m < 2 ^ 32"
    by (rule less_le_trans[OF probe_less]) (use assms in \<open>simp add: power_increasing_iff[of 2 n 32, simplified]\<close>)
  then show "unat (of_nat (probe n b m) :: u32) = probe n b m" by (simp add: unat_of_nat)
qed

lemma mask_loop_mask: "mask_loop k (mask j) = mask (j + k)"
proof (induction k arbitrary: j)
  case (Suc k)
  have "push_bit 1 (mask j) OR 1 = (mask (Suc j) :: u32)"
    by (simp add: mask_Suc_double or.commute push_bit_eq_mult mult.commute)
  then show ?case using Suc[of "Suc j"] by simp
qed simp

lemma mask_loop: "mask_loop n 0 = mask n"
  using mask_loop_mask[of n 0] by simp

lemma shift_loop: "0 \<le> k \<Longrightarrow> \<exists>n. shift_loop k i = Some (i + n) \<and> k < 2 ^ n \<and> (n = 0 \<or> 2 ^ n \<le> 2 * k)"
proof (induction "nat k" arbitrary: k i rule: less_induct)
  case less
  show ?case
  proof (cases "k = 0")
    case False
    with less.prems have "nat (k div 2) < nat k" "0 \<le> k div 2" by simp_all
    from less.hyps[OF this, of "i + 1"] obtain n where
      n: "shift_loop (k div 2) (i + 1) = Some (i + 1 + n)" "k div 2 < 2 ^ n" "n = 0 \<or> 2 ^ n \<le> 2 * (k div 2)" by blast
    have "k < 2 ^ Suc n" using n(2) by simp
    moreover have "2 ^ Suc n \<le> 2 * k" using n(3) False less.prems by auto
    ultimately show ?thesis using n(1) False by (intro exI[of _ "Suc n"]) (simp add: shift_loop.simps[of k])
  qed (simp add: shift_loop.simps[of 0])
qed

section \<open>Slots\<close>

text \<open>The arrays as one list of slots: hash, key and value.\<close>

type_synonym slot = "u32 \<times> gpointer \<times> gpointer"

definition slots :: "GHashTable \<Rightarrow> slot list" where
  "slots ht = map (\<lambda>i. (hashes ht ! i, keys ht ! i, value_at ht i)) [0..<ht_size ht]"

abbreviation live :: "slot \<Rightarrow> bool" where "live s \<equiv> HASH_IS_REAL (fst s)"
abbreviation used :: "slot \<Rightarrow> bool" where "used s \<equiv> \<not> HASH_IS_UNUSED (fst s)"

abbreviation entry :: "slot \<Rightarrow> gpointer \<times> gpointer" where "entry \<equiv> snd"

lemma live_used [simp]: "HASH_IS_REAL h \<Longrightarrow> \<not> HASH_IS_UNUSED h" "\<not> HASH_IS_REAL 0" "\<not> HASH_IS_REAL 1" "HASH_IS_UNUSED 0"
  "\<not> HASH_IS_UNUSED 1" "HASH_IS_UNUSED h \<Longrightarrow> \<not> HASH_IS_REAL h"
  by (auto simp: HASH_IS_REAL_def HASH_IS_UNUSED_def word_le_nat_alt)

definition num :: "('a \<Rightarrow> bool) \<Rightarrow> 'a list \<Rightarrow> nat" where
  "num P xs = length (filter P xs)"

lemma num_update:
  assumes "i < length xs"
  shows "num P (xs[i := x]) + (if P (xs ! i) then 1 else 0) = num P xs + (if P x then 1 else 0)"
  using assms
proof (induction xs arbitrary: i)
  case (Cons y xs)
  then show ?case by (cases i) (auto simp: num_def)
qed simp

lemma num_le: "(\<And>x. P x \<Longrightarrow> Q x) \<Longrightarrow> num P xs \<le> num Q xs"
  unfolding num_def by (induction xs) auto

lemma num_less: "num P xs < length xs \<longleftrightarrow> (\<exists>i < length xs. \<not> P (xs ! i))"
proof -
  have "num P xs < length xs \<longleftrightarrow> (\<exists>x \<in> set xs. \<not> P x)"
    unfolding num_def using length_filter_less[of _ xs P] by (metis filter_True less_irrefl)
  then show ?thesis by (metis in_set_conv_nth)
qed

text \<open>A slot is on the path of a hash when the slots before it are used.\<close>

definition on_path :: "nat \<Rightarrow> slot list \<Rightarrow> nat \<Rightarrow> nat \<Rightarrow> bool" where
  "on_path n sl b i \<longleftrightarrow> (\<exists>m < 2 ^ n. probe n b m = i \<and> (\<forall>k < m. used (sl ! probe n b k)))"

lemma on_path_update: "on_path n sl b i \<Longrightarrow> length sl = 2 ^ n \<Longrightarrow> used x \<Longrightarrow> on_path n (sl[j := x]) b i"
proof -
  assume l: "length sl = 2 ^ n" and x: "used x" and "on_path n sl b i"
  then obtain m where "m < 2 ^ n" "probe n b m = i" "\<forall>k < m. used (sl ! probe n b k)" by (auto simp: on_path_def)
  moreover have "used (sl[j := x] ! p)" if "used (sl ! p)" "p < 2 ^ n" for p
    using that x l by (cases "p = j") simp_all
  ultimately show ?thesis unfolding on_path_def by (intro exI[of _ m]) simp
qed

text \<open>
  The first stop: an unused slot or one that satisfies \<open>P\<close>. With one slot unused there is one within
  the first \<open>2^n\<close> probes.
\<close>

lemma first_stop:
  assumes "length sl = 2 ^ n" "num used sl < 2 ^ n"
  obtains M where "M < 2 ^ n" "\<not> used (sl ! probe n b M) \<or> P (probe n b M)"
    "\<forall>k < M. used (sl ! probe n b k) \<and> \<not> P (probe n b k)"
proof -
  let ?stop = "\<lambda>m. \<not> used (sl ! probe n b m) \<or> P (probe n b m)"
  obtain i where "i < 2 ^ n" "\<not> used (sl ! i)" using assms num_less[of used sl] by auto
  then obtain m where m: "m < 2 ^ n" "?stop m" using probe_covers[of i n b] by auto
  show thesis
  proof (rule that)
    show "(LEAST m. ?stop m) < 2 ^ n" using Least_le[of ?stop m] m by simp
    show "?stop (LEAST m. ?stop m)" using m(2) by (rule LeastI)
    show "\<forall>k < (LEAST m. ?stop m). used (sl ! probe n b k) \<and> \<not> P (probe n b k)" using not_less_Least[of _ ?stop] by blast
  qed
qed

section \<open>The invariant\<close>

text \<open>What the caller promises of the functions of a table.\<close>

locale hash_keys =
  fixes hash :: "gpointer \<Rightarrow> u32" and eq :: "gpointer \<Rightarrow> gpointer \<Rightarrow> bool"
  assumes refl: "eq k k"
    and sym: "eq k l \<Longrightarrow> eq l k"
    and trans: "eq k l \<Longrightarrow> eq l m \<Longrightarrow> eq k m"
    and hash_eq: "eq k l \<Longrightarrow> hash k = hash l"

text \<open>The functions the library offers keep the promise, whatever the pointers point at.\<close>

interpretation direct: hash_keys g_direct_hash g_direct_equal
  by unfold_locales (auto simp: g_direct_equal_def)

interpretation str: hash_keys "\<lambda>p. g_str_hash (mem p)" "\<lambda>p q. g_str_equal (mem p) (mem q)" for mem :: "gpointer \<Rightarrow> u8 list"
  by unfold_locales (auto simp: g_str_equal_def)

interpretation int32: hash_keys "\<lambda>p. g_int_hash (mem p)" "\<lambda>p q. g_int_equal (mem p) (mem q)" for mem :: "gpointer \<Rightarrow> u32"
  by unfold_locales (auto simp: g_int_equal_def)

interpretation int64: hash_keys "\<lambda>p. g_int64_hash (mem p)" "\<lambda>p q. g_int64_equal (mem p) (mem q)" for mem :: "gpointer \<Rightarrow> u64"
  by unfold_locales (auto simp: g_int64_equal_def)

definition key_eq :: "GHashTable \<Rightarrow> gpointer \<Rightarrow> gpointer \<Rightarrow> bool" where
  "key_eq ht = (case key_equal_func ht of Some eq \<Rightarrow> eq | None \<Rightarrow> (=))"

definition home :: "nat \<Rightarrow> u32 \<Rightarrow> nat" where
  "home md h = unat h mod md"

definition slots_ok :: "nat \<Rightarrow> nat \<Rightarrow> (gpointer \<Rightarrow> u32) \<Rightarrow> (gpointer \<Rightarrow> gpointer \<Rightarrow> bool) \<Rightarrow> slot list \<Rightarrow> bool" where
  "slots_ok n md hash eq sl \<longleftrightarrow> length sl = 2 ^ n \<and>
     (\<forall>i < 2 ^ n. live (sl ! i) \<longrightarrow> on_path n sl (home md (fst (sl ! i))) i \<and> hash (fst (snd (sl ! i))) = fst (sl ! i)) \<and>
     (\<forall>i < 2 ^ n. \<forall>j < 2 ^ n. live (sl ! i) \<longrightarrow> live (sl ! j) \<longrightarrow> eq (fst (snd (sl ! i))) (fst (snd (sl ! j))) \<longrightarrow> i = j)"

definition shape :: "nat \<Rightarrow> GHashTable \<Rightarrow> bool" where
  "shape n ht \<longleftrightarrow> 3 \<le> n \<and> n \<le> 30 \<and> ht_size ht = 2 ^ n \<and> ht_mod ht = prime_mod ! n \<and> ht_mask ht = mask n \<and>
     length (keys ht) = 2 ^ n \<and> length (hashes ht) = 2 ^ n \<and> (\<forall>vs. vals ht = Some vs \<longrightarrow> length vs = 2 ^ n)"

definition load_ok :: "GHashTable \<Rightarrow> bool" where
  "load_ok ht \<longleftrightarrow> noccupied ht + noccupied ht div 16 < int (ht_size ht)"

definition sound :: "nat \<Rightarrow> GHashTable \<Rightarrow> bool" where
  "sound n ht \<longleftrightarrow> 0 < ref_count ht \<and> nnodes ht = int (num live (slots ht)) \<and> noccupied ht = int (num used (slots ht)) \<and>
     shape n ht \<and> slots_ok n (ht_mod ht) (hash_of ht) (key_eq ht) (slots ht)"

definition ht_ok :: "GHashTable \<Rightarrow> bool" where
  "ht_ok ht \<longleftrightarrow> load_ok ht \<and> (\<exists>n. sound n ht)"

text \<open>The entries of a table, and what it maps a key to.\<close>

definition entries :: "slot list \<Rightarrow> (gpointer \<times> gpointer) list" where
  "entries sl = map entry (filter live sl)"

definition ht_map :: "GHashTable \<Rightarrow> gpointer \<Rightarrow> (gpointer \<times> gpointer) option" where
  "ht_map ht key = find (\<lambda>e. key_eq ht (fst e) key) (entries (slots ht))"

section \<open>The slots under the operations\<close>

lemma slots_length [simp]: "length (slots ht) = ht_size ht"
  by (simp add: slots_def)

lemma slots_nth: "i < ht_size ht \<Longrightarrow> slots ht ! i = (hashes ht ! i, keys ht ! i, value_at ht i)"
  by (simp add: slots_def)

lemma shape_bounds: "shape n ht \<Longrightarrow> n \<le> 30 \<and> ht_size ht = 2 ^ n \<and> 0 < ht_mod ht \<and> ht_mod ht \<le> 2 ^ n \<and> ht_mod ht < 2 ^ 32"
proof -
  assume s: "shape n ht"
  have "list_all (\<lambda>n. 0 < prime_mod ! n \<and> prime_mod ! n \<le> 2 ^ n \<and> prime_mod ! n < 2 ^ 32) [0..<31]"
    by (simp add: prime_mod_def upt_rec)
  moreover have "n \<in> set [0..<31]" using s by (simp add: shape_def)
  ultimately show ?thesis using s unfolding list_all_iff by (auto simp: shape_def)
qed

lemma slots_more [simp]:
  "slots (ht\<lparr>nnodes := x\<rparr>) = slots ht" "slots (ht\<lparr>noccupied := x\<rparr>) = slots ht" "slots (ht\<lparr>version := y\<rparr>) = slots ht"
  "slots (ht\<lparr>ref_count := x\<rparr>) = slots ht"
  by (auto simp: slots_def value_at_def split: option.split)

lemma set_shift_shape:
  "3 \<le> n \<Longrightarrow> n \<le> 30 \<Longrightarrow> length ks = 2 ^ n \<Longrightarrow> length hs = 2 ^ n \<Longrightarrow> (\<forall>vs. vv = Some vs \<longrightarrow> length vs = 2 ^ n) \<Longrightarrow>
   shape n ((g_hash_table_set_shift ht n)\<lparr>keys := ks, vals := vv, hashes := hs\<rparr>)"
  by (simp add: shape_def g_hash_table_set_shift_def mask_loop)

text \<open>Writing a slot, whether the values share the array of the keys or not.\<close>

definition put_slot :: "nat \<Rightarrow> slot \<Rightarrow> GHashTable \<Rightarrow> GHashTable" where
  "put_slot i s ht =
     ht\<lparr>hashes := (hashes ht)[i := fst s], keys := (keys ht)[i := fst (snd s)],
        vals := map_option (\<lambda>vs. vs[i := snd (snd s)]) (vals ht)\<rparr>"

lemma slots_put:
  assumes "shape n ht" "i < 2 ^ n" "vals ht = None \<Longrightarrow> fst (snd s) = snd (snd s)"
  shows "slots (put_slot i s ht) = (slots ht)[i := s]" "shape n (put_slot i s ht)"
proof -
  show "shape n (put_slot i s ht)" using assms(1) by (auto simp: put_slot_def shape_def)
  show "slots (put_slot i s ht) = (slots ht)[i := s]"
  proof (rule nth_equalityI)
    fix j assume "j < length (slots (put_slot i s ht))"
    then have "j < 2 ^ n" using assms(1) by (simp add: put_slot_def shape_def)
    then show "slots (put_slot i s ht) ! j = (slots ht)[i := s] ! j"
      using assms by (cases "vals ht"; cases "j = i"; cases s) (auto simp: put_slot_def slots_nth shape_def value_at_def)
  qed (simp add: put_slot_def)
qed

lemma remove_node_slots:
  assumes "shape n ht" "i < 2 ^ n"
  shows "fst (g_hash_table_remove_node ht i b) = (put_slot i (1, NULL, NULL) ht)\<lparr>nnodes := nnodes ht - 1\<rparr>"
  by (simp add: g_hash_table_remove_node_def put_slot_def)

section \<open>Finding a node\<close>

text \<open>What a lookup finds: a live slot of the key, or a slot on its path that can take it.\<close>

definition free_for :: "nat \<Rightarrow> slot list \<Rightarrow> nat \<Rightarrow> nat \<Rightarrow> bool" where
  "free_for n sl b i \<longleftrightarrow> i < 2 ^ n \<and> \<not> live (sl ! i) \<and> on_path n sl b i"

lemma free_slot_spec:
  assumes "length sl = 2 ^ n" "num used sl < 2 ^ n" "n \<le> 30" "b < 2 ^ n" "hs = map fst sl"
  shows "\<exists>i. free_slot hs (mask n) (of_nat b) 0 = Some (of_nat i) \<and> i < 2 ^ n \<and> \<not> used (sl ! i) \<and> on_path n sl b i"
proof -
  obtain M where M: "M < 2 ^ n" "\<not> used (sl ! probe n b M)" "\<forall>k < M. used (sl ! probe n b k)"
    using first_stop[OF assms(1,2), of b "\<lambda>_. False"] by auto
  have "m \<le> M \<Longrightarrow> free_slot hs (mask n) (of_nat (probe n b m)) (of_nat m) = Some (of_nat (probe n b M))" for m
  proof (induction "M - m" arbitrary: m)
    case 0
    then show ?case using M assms by (subst free_slot.simps) (simp add: probe_word(2))
  next
    case (Suc d)
    then have "used (sl ! probe n b m)" using M(3) by simp
    then have u: "HASH_IS_UNUSED (hs ! unat (of_nat (probe n b m) :: u32)) = False"
      using assms by (simp add: probe_word(2))
    have "free_slot hs (mask n) (of_nat (probe n b m)) (of_nat m) = free_slot hs (mask n) (of_nat (probe n b (Suc m))) (of_nat (Suc m))"
      unfolding free_slot.simps[of hs "mask n" "of_nat (probe n b m)"] u if_False probe_word(1)[OF assms(3)] of_nat_Suc[of m]
        add.commute[of 1 "of_nat m"] ..
    also have "\<dots> = Some (of_nat (probe n b M))" using Suc by (intro Suc.hyps(1)) simp_all
    finally show ?case .
  qed
  from this[of 0] have "free_slot hs (mask n) (of_nat b) 0 = Some (of_nat (probe n b M))" using assms(4) by (simp add: probe_0)
  then show ?thesis using M by (intro exI[of _ "probe n b M"]) (auto simp: on_path_def)
qed

text \<open>The loop of the lookup: what it returns at the first stop, with the tombstones it has passed.\<close>

definition first_tomb :: "slot list \<Rightarrow> nat list \<Rightarrow> u32 option" where
  "first_tomb sl is = map_option of_nat (find (\<lambda>i. HASH_IS_TOMBSTONE (fst (sl ! i))) is)"

lemma find_snoc: "find P (xs @ [x]) = (case find P xs of Some y \<Rightarrow> Some y | None \<Rightarrow> if P x then Some x else None)"
  by (induction xs) auto

lemma lookup_loop_spec:
  assumes t: "shape n ht" and b: "b < 2 ^ n" and hv: "HASH_IS_REAL hv" and M: "M < 2 ^ n"
    and stop: "\<not> used (slots ht ! probe n b M) \<or> fst (slots ht ! probe n b M) = hv \<and> node_matches ht (of_nat (probe n b M)) key"
    and go: "\<forall>k < M. used (slots ht ! probe n b k) \<and>
      \<not> (fst (slots ht ! probe n b k) = hv \<and> node_matches ht (of_nat (probe n b k)) key)"
  shows "lookup_loop ht key hv (of_nat b) 0 None =
    Some (if used (slots ht ! probe n b M) then of_nat (probe n b M)
          else case first_tomb (slots ht) (map (probe n b) [0..<M]) of Some i \<Rightarrow> i | None \<Rightarrow> of_nat (probe n b M))"
proof -
  have n: "n \<le> 30" and mk: "ht_mask ht = mask n" using t by (simp_all add: shape_def)
  have h: "hashes ht ! unat (of_nat (probe n b m) :: u32) = fst (slots ht ! probe n b m)" for m
    using t by (simp add: probe_word(2)[OF n] slots_nth shape_def)
  let ?tomb = "\<lambda>m. first_tomb (slots ht) (map (probe n b) [0..<m])"
  have "m \<le> M \<Longrightarrow> lookup_loop ht key hv (of_nat (probe n b m)) (of_nat m) (?tomb m) =
    Some (if used (slots ht ! probe n b M) then of_nat (probe n b M)
          else case ?tomb M of Some i \<Rightarrow> i | None \<Rightarrow> of_nat (probe n b M))" for m
  proof (induction "M - m" arbitrary: m)
    case 0
    then have "m = M" by simp
    with stop show ?case by (subst lookup_loop.simps) (auto simp: h Let_def)
  next
    case (Suc d)
    then have m: "m < M" by simp
    with go have u: "HASH_IS_UNUSED (fst (slots ht ! probe n b m)) = False"
      and nm: "(fst (slots ht ! probe n b m) = hv \<and> node_matches ht (of_nat (probe n b m)) key) = False" by auto
    have tm: "(if fst (slots ht ! probe n b m) \<noteq> hv \<and> HASH_IS_TOMBSTONE (fst (slots ht ! probe n b m)) \<and> ?tomb m = None
        then Some (of_nat (probe n b m)) else ?tomb m) = ?tomb (Suc m)"
      using hv by (auto simp: first_tomb_def find_snoc HASH_IS_TOMBSTONE_def split: option.splits)
    have "lookup_loop ht key hv (of_nat (probe n b m)) (of_nat m) (?tomb m) =
      lookup_loop ht key hv (of_nat (probe n b (Suc m))) (of_nat (Suc m)) (?tomb (Suc m))"
      unfolding lookup_loop.simps[of ht key hv "of_nat (probe n b m)"] Let_def h u nm if_False mk probe_word(1)[OF n] tm
        of_nat_Suc[of m] add.commute[of 1 "of_nat m"] ..
    also have "\<dots> = Some (if used (slots ht ! probe n b M) then of_nat (probe n b M)
          else case ?tomb M of Some i \<Rightarrow> i | None \<Rightarrow> of_nat (probe n b M))"
      using Suc by (intro Suc.hyps(1)) simp_all
    finally show ?case .
  qed
  from this[of 0] show ?thesis using b by (simp add: probe_0 first_tomb_def)
qed

lemma find_Some_in: "find P xs = Some x \<Longrightarrow> x \<in> set xs \<and> P x"
  by (auto simp: find_Some_iff in_set_conv_nth)

lemma lookup_loop_result:
  assumes t: "shape n ht" and b: "b < 2 ^ n" and hv: "HASH_IS_REAL hv" and u: "num used (slots ht) < 2 ^ n"
  shows "\<exists>i. lookup_loop ht key hv (of_nat b) 0 None = Some (of_nat i) \<and> i < 2 ^ n \<and>
    (fst (slots ht ! i) = hv \<and> node_matches ht (of_nat i) key \<or>
     free_for n (slots ht) b i \<and>
       (\<forall>j. on_path n (slots ht) b j \<longrightarrow> \<not> (fst (slots ht ! j) = hv \<and> node_matches ht (of_nat j) key)))"
proof -
  let ?sl = "slots ht" and ?hit = "\<lambda>i. fst (slots ht ! i) = hv \<and> node_matches ht (of_nat i) key"
  have l: "length ?sl = 2 ^ n" using t by (simp add: shape_def)
  obtain M where M: "M < 2 ^ n" "\<not> used (?sl ! probe n b M) \<or> ?hit (probe n b M)"
    "\<forall>k < M. used (?sl ! probe n b k) \<and> \<not> ?hit (probe n b k)"
    using first_stop[OF l u, of b ?hit] by blast
  note r = lookup_loop_spec[OF t b hv M]
  show ?thesis
  proof (cases "used (?sl ! probe n b M)")
    case True
    with M(2) r show ?thesis by (intro exI[of _ "probe n b M"]) simp
  next
    case False
    have none: "\<not> ?hit j" if "on_path n ?sl b j" for j
    proof -
      from that obtain m where m: "m < 2 ^ n" "probe n b m = j" "\<forall>k < m. used (?sl ! probe n b k)" by (auto simp: on_path_def)
      consider "m < M" | "m = M" | "M < m" by linarith
      then show ?thesis
      proof cases
        case 2
        with False m(2) hv show ?thesis by auto
      qed (use M(3) m False in auto)
    qed
    show ?thesis
    proof (cases "find (\<lambda>i. HASH_IS_TOMBSTONE (fst (?sl ! i))) (map (probe n b) [0..<M])")
      case None
      with False r none M show ?thesis
        by (intro exI[of _ "probe n b M"]) (auto simp: first_tomb_def free_for_def on_path_def)
    next
      case (Some i)
      from find_Some_in[OF this] obtain m where "m < M" "i = probe n b m" "HASH_IS_TOMBSTONE (fst (?sl ! i))" by auto
      moreover from this M have "on_path n ?sl b i" unfolding on_path_def by (intro exI[of _ m]) auto
      ultimately show ?thesis using False r none Some
        by (intro exI[of _ i]) (auto simp: first_tomb_def free_for_def HASH_IS_TOMBSTONE_def)
    qed
  qed
qed

section \<open>Writing slots\<close>

lemma slots_okD:
  assumes "slots_ok n md hash eq sl"
  shows "length sl = 2 ^ n"
    "i < 2 ^ n \<Longrightarrow> live (sl ! i) \<Longrightarrow> on_path n sl (home md (fst (sl ! i))) i"
    "i < 2 ^ n \<Longrightarrow> live (sl ! i) \<Longrightarrow> hash (fst (snd (sl ! i))) = fst (sl ! i)"
    "i < 2 ^ n \<Longrightarrow> j < 2 ^ n \<Longrightarrow> live (sl ! i) \<Longrightarrow> live (sl ! j) \<Longrightarrow> eq (fst (snd (sl ! i))) (fst (snd (sl ! j))) \<Longrightarrow> i = j"
  using assms unfolding slots_ok_def by blast+

lemma slots_ok_update:
  assumes ok: "slots_ok n md hash eq sl" and s: "used s"
    and i: "live s \<Longrightarrow> on_path n sl (home md (fst s)) i \<and> hash (fst (snd s)) = fst s"
    and uniq: "\<And>j. live s \<Longrightarrow> j < 2 ^ n \<Longrightarrow> j \<noteq> i \<Longrightarrow> live (sl ! j) \<Longrightarrow>
      \<not> eq (fst (snd s)) (fst (snd (sl ! j))) \<and> \<not> eq (fst (snd (sl ! j))) (fst (snd s))"
  shows "slots_ok n md hash eq (sl[i := s])"
proof -
  note d = slots_okD[OF ok]
  show ?thesis unfolding slots_ok_def
  proof (intro conjI allI impI)
    show "length (sl[i := s]) = 2 ^ n" using d(1) by simp
    fix j assume j: "j < 2 ^ n" "live (sl[i := s] ! j)"
    show "on_path n (sl[i := s]) (home md (fst (sl[i := s] ! j))) j"
      using j i d(1,2) by (cases "j = i") (auto intro!: on_path_update s)
    show "hash (fst (snd (sl[i := s] ! j))) = fst (sl[i := s] ! j)"
      using j i d(1,3) by (cases "j = i") auto
    fix k assume k: "k < 2 ^ n" "live (sl[i := s] ! k)" "eq (fst (snd (sl[i := s] ! j))) (fst (snd (sl[i := s] ! k)))"
    show "j = k"
      using j k uniq[of j] uniq[of k] d(1) d(4)[of j k] by (cases "j = i"; cases "k = i") auto
  qed
qed

lemma slots_ok_bury: "slots_ok n md hash eq sl \<Longrightarrow> slots_ok n md hash eq (sl[i := (1, k, v)])"
  by (rule slots_ok_update) simp_all

lemma entries_update:
  assumes "i < length sl"
  shows "mset (entries (sl[i := s])) + (if live (sl ! i) then {#entry (sl ! i)#} else {#}) =
    mset (entries sl) + (if live s then {#entry s#} else {#})"
  using assms
proof (induction sl arbitrary: i)
  case (Cons x sl)
  show ?case
  proof (cases i)
    case (Suc j)
    with Cons.IH[of j] Cons.prems show ?thesis by (auto simp: entries_def ac_simps)
  qed (auto simp: entries_def)
qed simp

lemma length_entries: "length (entries sl) = num live sl"
  by (simp add: entries_def num_def)

lemma entries_nth: "e \<in> set (entries sl) \<longleftrightarrow> (\<exists>i < length sl. live (sl ! i) \<and> e = entry (sl ! i))"
  by (auto simp: entries_def in_set_conv_nth)

lemma hashes_slots: "shape n ht \<Longrightarrow> hashes ht = map fst (slots ht)"
  by (rule nth_equalityI) (auto simp: shape_def slots_def)

lemma home_word: "shape n ht \<Longrightarrow> h mod of_nat (ht_mod ht) = of_nat (home (ht_mod ht) h) \<and> home (ht_mod ht) h < 2 ^ n"
proof
  assume s: "shape n ht"
  note b = shape_bounds[OF s]
  show "h mod of_nat (ht_mod ht) = of_nat (home (ht_mod ht) h)"
    using b by (simp add: home_def word_unat_eq_iff unat_mod unat_of_nat)
      (metis mod_less mod_less_divisor less_trans)
  show "home (ht_mod ht) h < 2 ^ n" unfolding home_def using b mod_less_divisor[of "ht_mod ht" "unat h"] by linarith
qed

section \<open>Resizing\<close>

text \<open>Only the arrays differ.\<close>

definition arrays_only :: "GHashTable \<Rightarrow> GHashTable \<Rightarrow> bool" where
  "arrays_only a b \<longleftrightarrow> b = a\<lparr>keys := keys b, hashes := hashes b, vals := vals b\<rparr>"

lemma arrays_only_refl [simp]: "arrays_only a a"
  by (simp add: arrays_only_def)

lemma arrays_only_trans: "arrays_only a b \<Longrightarrow> arrays_only b c \<Longrightarrow> arrays_only a c"
  unfolding arrays_only_def by (cases a; cases b; cases c) simp

lemma arrays_only_put [simp]: "arrays_only a (put_slot i s a)"
  by (simp add: arrays_only_def put_slot_def)

text \<open>One node into the new arrays.\<close>

lemma move_node_ok:
  assumes new: "shape n new" "slots_ok n (ht_mod new) hash eq (slots new)" "num used (slots new) < 2 ^ n"
    and s: "slots old ! i = (h, k, v)" "i < ht_size old" "hash k = h"
    and share: "vals new = None \<longrightarrow> vals old = None"
    and uniq: "\<forall>j. live (slots old ! i) \<longrightarrow> j < 2 ^ n \<longrightarrow> live (slots new ! j) \<longrightarrow>
      \<not> eq k (fst (snd (slots new ! j))) \<and> \<not> eq (fst (snd (slots new ! j))) k"
  shows "\<exists>new'. move_node old i new = Some new' \<and> shape n new' \<and> slots_ok n (ht_mod new') hash eq (slots new') \<and>
    mset (entries (slots new')) = mset (entries (slots new)) + (if live (slots old ! i) then {#(k, v)#} else {#}) \<and>
    num used (slots new') = num used (slots new) + (if live (slots old ! i) then 1 else 0) \<and>
    (vals new' = None \<longleftrightarrow> vals new = None) \<and>
    arrays_only new new'"
proof (cases "live (slots old ! i)")
  case False
  then show ?thesis using assms by (intro exI[of _ new]) (simp add: move_node_def slots_nth)
next
  case True
  let ?b = "home (ht_mod new) h"
  have n: "n \<le> 30" and mk: "ht_mask new = mask n" using new(1) by (simp_all add: shape_def)
  have h: "hashes old ! i = h" "keys old ! i = k" "value_at old i = v" using s by (simp_all add: slots_nth)
  note home = home_word[OF new(1), of h]
  obtain j where j: "free_slot (hashes new) (mask n) (of_nat ?b) 0 = Some (of_nat j)" "j < 2 ^ n"
    "\<not> used (slots new ! j)" "on_path n (slots new) ?b j"
    using free_slot_spec[OF slots_okD(1)[OF new(2)] new(3) n _ hashes_slots[OF new(1)], of ?b] home by blast
  have "j < 2 ^ 32" using j(2) n power_increasing[of n 32 "2 :: nat"] by linarith
  then have u: "unat (of_nat j :: u32) = j" by (simp add: unat_of_nat)
  have "vals new = None \<Longrightarrow> k = v" using share h by (simp add: value_at_def)
  then have put: "slots (put_slot j (h, k, v) new) = (slots new)[j := (h, k, v)]" "shape n (put_slot j (h, k, v) new)"
    by (intro slots_put[OF new(1) j(2)]; simp)+
  have mv: "move_node old i new = Some (put_slot j (h, k, v) new)"
    using True s(1) j(1) home by (simp add: move_node_def h mk u put_slot_def)
  have "slots_ok n (ht_mod new) hash eq ((slots new)[j := (h, k, v)])"
    using True s j uniq by (intro slots_ok_update[OF new(2)]) auto
  moreover have "\<not> live (slots new ! j)" using j(3) by simp
  ultimately show ?thesis
    using mv put entries_update[of j "slots new" "(h, k, v)"] num_update[of j "slots new" used "(h, k, v)"] j(2,3) new(1) True s(1)
    by (intro exI[of _ "put_slot j (h, k, v) new"]) (auto simp: put_slot_def shape_def arrays_only_def)
qed

lemma entries_take_Suc:
  "p < length sl \<Longrightarrow> entries (take (Suc p) sl) = entries (take p sl) @ (if live (sl ! p) then [entry (sl ! p)] else [])"
  by (simp add: entries_def take_Suc_conv_app_nth)

lemma num_take_le: "num P (take p sl) \<le> num P sl"
proof -
  have "num P sl = num P (take p sl) + num P (drop p sl)"
    unfolding num_def by (metis append_take_drop_id filter_append length_append)
  then show ?thesis by simp
qed

text \<open>All the nodes from one on, the slots before it having been moved.\<close>

definition moved :: "nat \<Rightarrow> (gpointer \<Rightarrow> u32) \<Rightarrow> (gpointer \<Rightarrow> gpointer \<Rightarrow> bool) \<Rightarrow> GHashTable \<Rightarrow> nat \<Rightarrow> GHashTable \<Rightarrow> bool" where
  "moved n hash eq old p new \<longleftrightarrow> shape n new \<and> slots_ok n (ht_mod new) hash eq (slots new) \<and>
     mset (entries (slots new)) = mset (entries (take p (slots old))) \<and>
     num used (slots new) = num live (take p (slots old)) \<and> (vals new = None \<longrightarrow> vals old = None)"

lemma move_nodes_ok:
  assumes old: "slots_ok n0 md0 hash eq (slots old)" "num live (slots old) < 2 ^ n" and sym: "\<And>k l. eq k l \<Longrightarrow> eq l k"
    and p: "p \<le> ht_size old" and new: "moved n hash eq old p new"
  shows "\<exists>new'. move_nodes old [p..<ht_size old] new = Some new' \<and> moved n hash eq old (ht_size old) new' \<and>
    arrays_only new new'"
  using p new
proof (induction "ht_size old - p" arbitrary: p new)
  case 0
  then have "p = ht_size old" by simp
  with 0 show ?case by (intro exI[of _ new]) simp
next
  case (Suc d)
  then have p: "p < ht_size old" by simp
  obtain h k v where s: "slots old ! p = (h, k, v)" by (metis prod_cases3)
  have m1: "shape n new" and m2: "slots_ok n (ht_mod new) hash eq (slots new)"
    and m3: "mset (entries (slots new)) = mset (entries (take p (slots old)))"
    and m4: "num used (slots new) = num live (take p (slots old))" and m5: "vals new = None \<longrightarrow> vals old = None"
    using Suc.prems(2) unfolding moved_def by blast+
  note m = m1 m2 m3 m4 m5
  have sz: "ht_size old = 2 ^ n0" using slots_okD(1)[OF old(1)] by simp
  have k: "live (slots old ! p) \<Longrightarrow> hash k = h" using slots_okD(3)[OF old(1), of p] s p sz by simp
  have room: "num used (slots new) < 2 ^ n" using m4 num_take_le[of live p "slots old"] old(2) by linarith
  have uniq: "\<forall>j. live (slots old ! p) \<longrightarrow> j < 2 ^ n \<longrightarrow> live (slots new ! j) \<longrightarrow>
      \<not> eq k (fst (snd (slots new ! j))) \<and> \<not> eq (fst (snd (slots new ! j))) k"
  proof (intro allI impI)
    fix j assume that: "live (slots old ! p)" "j < 2 ^ n" "live (slots new ! j)"
    have "entry (slots new ! j) \<in> set (entries (slots new))"
      using that m1 by (auto simp: entries_nth shape_def)
    then have "entry (slots new ! j) \<in> set (entries (take p (slots old)))" using mset_eq_setD[OF m3] by simp
    then obtain i where i: "i < p" "live (slots old ! i)" "entry (slots new ! j) = entry (slots old ! i)"
      by (auto simp: entries_nth)
    then have "\<not> eq k (fst (snd (slots old ! i)))" "\<not> eq (fst (snd (slots old ! i))) k"
      using slots_okD(4)[OF old(1), of i p] slots_okD(4)[OF old(1), of p i] that(1) p sz s by auto
    with i show "\<not> eq k (fst (snd (slots new ! j))) \<and> \<not> eq (fst (snd (slots new ! j))) k" by simp
  qed
  have "\<exists>new'. move_node old p new = Some new' \<and> moved n hash eq old (Suc p) new' \<and>
    arrays_only new new'"
  proof (cases "live (slots old ! p)")
    case True
    obtain new' where mv: "move_node old p new = Some new'" "shape n new'" "slots_ok n (ht_mod new') hash eq (slots new')"
      "mset (entries (slots new')) = mset (entries (slots new)) + (if live (slots old ! p) then {#(k, v)#} else {#})"
      "num used (slots new') = num used (slots new) + (if live (slots old ! p) then 1 else 0)"
      "vals new' = None \<longleftrightarrow> vals new = None" "arrays_only new new'"
      using move_node_ok[of n new hash eq old p h k v, OF m1 m2 room s p k[OF True] m5 uniq]
      by (elim exE conjE) (rule that)
    have "num live (take (Suc p) (slots old)) = num live (take p (slots old)) + 1"
      using p True by (simp add: num_def take_Suc_conv_app_nth)
    moreover have "mset (entries (take (Suc p) (slots old))) = mset (entries (take p (slots old))) + {#(k, v)#}"
      using p True s by (simp add: entries_take_Suc)
    ultimately have "moved n hash eq old (Suc p) new'" using mv True m3 m4 m5 unfolding moved_def by simp
    with mv show ?thesis by blast
  next
    case False
    then have "move_node old p new = Some new" using p s by (simp add: move_node_def slots_nth)
    moreover have "num live (take (Suc p) (slots old)) = num live (take p (slots old))"
      using p False by (simp add: num_def take_Suc_conv_app_nth)
    ultimately show ?thesis using False p m by (intro exI[of _ new]) (simp add: moved_def entries_take_Suc)
  qed
  then obtain new1 where n1: "move_node old p new = Some new1" "moved n hash eq old (Suc p) new1"
    "arrays_only new new1" by blast
  obtain new2 where n2: "move_nodes old [Suc p..<ht_size old] new1 = Some new2" "moved n hash eq old (ht_size old) new2"
    "arrays_only new1 new2"
    using Suc.hyps(1)[of "Suc p" new1, OF _ _ n1(2)] Suc.hyps(2) p by fastforce
  have "arrays_only new new2" using arrays_only_trans n1(3) n2(3) .
  with n1 n2 p show ?case by (intro exI[of _ new2]) (simp add: upt_conv_Cons)
qed

lemma replicate_slots:
  "ht_size ht = N \<Longrightarrow> keys ht = replicate N NULL \<Longrightarrow> hashes ht = replicate N 0 \<Longrightarrow> vals ht \<in> {None, Some (replicate N NULL)} \<Longrightarrow>
   slots ht = replicate N (0, NULL, NULL)"
  by (rule nth_equalityI) (auto simp: slots_nth value_at_def)

lemma replicate_ok: "slots_ok n md hash eq (replicate (2 ^ n) (0, k, v))"
  by (auto simp: slots_ok_def)

lemma replicate_counts [simp]: "num live (replicate N (0, k, v)) = 0" "num used (replicate N (0, k, v)) = 0" "entries (replicate N (0, k, v)) = []"
  by (simp_all add: num_def entries_def)

text \<open>A table resized: the same entries, no tombstones, and room.\<close>

definition same_but_arrays :: "GHashTable \<Rightarrow> GHashTable \<Rightarrow> bool" where
  "same_but_arrays ht ht' \<longleftrightarrow> hash_func ht' = hash_func ht \<and> key_equal_func ht' = key_equal_func ht \<and> ref_count ht' = ref_count ht \<and>
     version ht' = version ht \<and> key_destroy_func ht' = key_destroy_func ht \<and> value_destroy_func ht' = value_destroy_func ht"

lemma resize_ok:
  assumes old: "slots_ok n0 md0 (hash_of ht) (key_eq ht) (slots ht)"
    and nn: "nnodes ht = int (num live (slots ht))" "num live (slots ht) < 2 ^ 29" and rc: "0 < ref_count ht"
    and sym: "\<And>k l. key_eq ht k l \<Longrightarrow> key_eq ht l k"
  shows "\<exists>ht'. g_hash_table_resize ht = Some ht' \<and> ht_ok ht' \<and> mset (entries (slots ht')) = mset (entries (slots ht)) \<and>
    same_but_arrays ht ht' \<and> nnodes ht' = nnodes ht"
proof -
  let ?c = "num live (slots ht)"
  have "0 \<le> nnodes ht * 2" using nn by simp
  from shift_loop[OF this, of 0] obtain m where m: "shift_loop (nnodes ht * 2) 0 = Some m" "int ?c * 2 < 2 ^ m" "m = 0 \<or> 2 ^ m \<le> 4 * int ?c"
    using nn(1) by auto
  define n where "n = max m 3"
  have "m \<le> 30"
  proof (rule ccontr)
    assume "\<not> m \<le> 30"
    then have "(2::int) ^ 31 \<le> 2 ^ m" by (intro power_increasing) auto
    with m(3) nn(2) show False using \<open>\<not> m \<le> 30\<close> by auto
  qed
  then have n: "3 \<le> n" "n \<le> 30" by (simp_all add: n_def)
  have "(2::int) ^ m \<le> 2 ^ n" by (intro power_increasing) (simp_all add: n_def)
  with m(2) have "int ?c * 2 < 2 ^ n" by (rule less_le_trans)
  note ci = this
  then have "int (?c * 2) < int (2 ^ n)" by simp
  then have c: "?c * 2 < 2 ^ n" by (simp only: of_nat_less_iff)
  define new where "new = (g_hash_table_set_shift ht n)\<lparr>keys := replicate (2 ^ n) NULL,
     vals := map_option (\<lambda>_. replicate (2 ^ n) NULL) (vals ht), hashes := replicate (2 ^ n) 0\<rparr>"
  have sl: "slots new = replicate (2 ^ n) (0, NULL, NULL)"
    by (rule replicate_slots) (auto simp: new_def g_hash_table_set_shift_def split: option.split)
  have shape: "shape n new" unfolding new_def using n by (intro set_shift_shape) auto
  have "moved n (hash_of ht) (key_eq ht) ht 0 new"
    using shape by (simp add: moved_def sl replicate_ok) (simp add: new_def num_def entries_def)
  from move_nodes_ok[OF old _ sym _ this] c obtain new' where
    mv: "move_nodes ht [0..<ht_size ht] new = Some new'" "moved n (hash_of ht) (key_eq ht) ht (ht_size ht) new'"
      "arrays_only new new'" by auto
  let ?ht = "new'\<lparr>noccupied := nnodes ht\<rparr>"
  have fr: "same_but_arrays ht ?ht" "nnodes ?ht = nnodes ht" "ht_size ?ht = 2 ^ n"
    by (subst mv(3)[unfolded arrays_only_def], simp add: new_def g_hash_table_set_shift_def same_but_arrays_def)+
  have rs: "g_hash_table_resize ht = Some ?ht"
    using m(1) mv(1) unfolding g_hash_table_resize_def g_hash_table_set_shift_from_size_def g_hash_table_find_closest_shift_def
    by (simp add: HASH_TABLE_MIN_SHIFT_def n_def[symmetric]) (simp add: new_def g_hash_table_set_shift_def)
  have take: "take (ht_size ht) (slots ht) = slots ht" by simp
  note mm = mv(2)[unfolded moved_def take]
  have "hash_of ?ht = hash_of ht" "key_eq ?ht = key_eq ht"
    using fr(1) by (simp_all add: hash_of_def[abs_def] key_eq_def same_but_arrays_def)
  moreover have "num live (slots new') = ?c" using mm by (metis length_entries size_mset)
  moreover have "shape n ?ht" using mm by (simp add: shape_def)
  moreover have "load_ok ?ht"
  proof -
    have "int ?c div 16 \<le> int ?c" by simp
    with ci have "int ?c + int ?c div 16 < 2 ^ n" by linarith
    then show ?thesis using fr(3) nn(1) by (simp add: load_ok_def)
  qed
  moreover have "0 < ref_count ?ht" using fr(1) rc unfolding same_but_arrays_def by simp
  ultimately have "ht_ok ?ht" unfolding ht_ok_def sound_def using mm nn(1) fr(2) by auto
  with rs fr mm show ?thesis by (intro exI[of _ ?ht]) simp
qed

lemma maybe_resize_ok:
  assumes ht: "sound n ht" "nnodes ht < 2 ^ 29" and sym: "\<And>k l. key_eq ht k l \<Longrightarrow> key_eq ht l k"
  shows "\<exists>ht'. g_hash_table_maybe_resize ht = Some ht' \<and> ht_ok ht' \<and> mset (entries (slots ht')) = mset (entries (slots ht)) \<and>
    same_but_arrays ht ht' \<and> nnodes ht' = nnodes ht"
proof (cases "int (ht_size ht) > nnodes ht * 4 \<and> int (ht_size ht) > 2 ^ HASH_TABLE_MIN_SHIFT \<or>
    int (ht_size ht) \<le> noccupied ht + noccupied ht div 16")
  case True
  then have "g_hash_table_maybe_resize ht = g_hash_table_resize ht" by (simp add: g_hash_table_maybe_resize_def Let_def)
  with resize_ok[of n "ht_mod ht" ht] ht sym show ?thesis by (simp add: sound_def)
next
  case False
  then have "g_hash_table_maybe_resize ht = Some ht" by (auto simp add: g_hash_table_maybe_resize_def Let_def)
  moreover have "load_ok ht" using False by (simp add: load_ok_def)
  ultimately show ?thesis using ht by (auto simp: ht_ok_def same_but_arrays_def)
qed

section \<open>Entries as a map\<close>

definition key_uniq :: "(gpointer \<Rightarrow> gpointer \<Rightarrow> bool) \<Rightarrow> (gpointer \<times> gpointer) list \<Rightarrow> bool" where
  "key_uniq eq es \<longleftrightarrow> distinct es \<and> (\<forall>e \<in> set es. \<forall>e' \<in> set es. eq (fst e) (fst e') \<longrightarrow> e = e')"

abbreviation find_key :: "(gpointer \<Rightarrow> gpointer \<Rightarrow> bool) \<Rightarrow> gpointer \<Rightarrow> (gpointer \<times> gpointer) list \<Rightarrow> (gpointer \<times> gpointer) option" where
  "find_key eq k \<equiv> find (\<lambda>e. eq (fst e) k)"

definition mset_opt :: "'a option \<Rightarrow> 'a multiset" where
  "mset_opt x = (case x of None \<Rightarrow> {#} | Some e \<Rightarrow> {#e#})"

lemma mset_opt_simps [simp]: "mset_opt None = {#}" "mset_opt (Some e) = {#e#}"
  by (simp_all add: mset_opt_def)

lemma in_mset_opt: "e \<in># mset_opt x \<longleftrightarrow> x = Some e"
  by (cases x) auto

context hash_keys begin

lemma find_key_iff:
  assumes "key_uniq eq es"
  shows "find_key eq k es = Some e \<longleftrightarrow> e \<in> set es \<and> eq (fst e) k"
proof
  assume e: "e \<in> set es \<and> eq (fst e) k"
  then have "find_key eq k es \<noteq> None" unfolding find_None_iff by blast
  then obtain e' where e': "find_key eq k es = Some e'" by blast
  then have "e' \<in> set es" "eq (fst e') k" using find_Some_in by fast+
  with e assms have "e' = e" using trans sym unfolding key_uniq_def by blast
  with e' show "find_key eq k es = Some e" by simp
qed (auto dest: find_Some_in)

lemma find_key_eq: "eq k l \<Longrightarrow> find_key eq k es = find_key eq l es"
  using trans sym by (intro find_cong[OF HOL.refl]) blast

text \<open>An entry of a key replaced, put in or taken out changes the map at the keys equal to it.\<close>

lemma find_key_update:
  assumes es: "key_uniq eq es" "key_uniq eq es'" and x: "\<And>e. x = Some e \<Longrightarrow> eq (fst e) k"
    and upd: "mset es' + mset_opt (find_key eq k es) = mset es + mset_opt x"
  shows "find_key eq l es' = (if eq k l then x else find_key eq l es)"
proof -
  let ?old = "find_key eq k es"
  have old: "e \<in> set es \<and> eq (fst e) k" if "?old = Some e" for e
    using that find_key_iff[OF es(1)] by blast
  have mem: "e \<in> set es' \<or> ?old = Some e \<longleftrightarrow> e \<in> set es \<or> x = Some e" for e
    using arg_cong[OF upd, of "\<lambda>m. e \<in># m"] by (simp add: in_mset_opt)
  show ?thesis
  proof (cases "eq k l")
    case True
    have "find_key eq l es' = find_key eq k es'" using find_key_eq[OF True] by simp
    also have "\<dots> = x"
    proof (cases x)
      case (Some e)
      have "e \<in> set es'"
      proof (cases "?old = Some e")
        case True
        then have "mset es' = mset es" using upd Some by simp
        then show ?thesis using old[OF True] by (metis mset_eq_setD)
      qed (use mem[of e] Some in blast)
      with Some x show ?thesis using find_key_iff[OF es(2)] by simp
    next
      case None
      have "\<not> (e \<in> set es' \<and> eq (fst e) k)" for e
      proof
        assume e: "e \<in> set es' \<and> eq (fst e) k"
        then have "e \<in> set es" using mem[of e] None old by auto
        with e have "?old = Some e" using find_key_iff[OF es(1)] by blast
        then have "mset es = mset es' + {#e#}" using upd None by simp
        then have "mset es = mset (e # es')" by simp
        then have "distinct (e # es')" using es(1) unfolding key_uniq_def by (metis mset_eq_imp_distinct_iff)
        with e show False by simp
      qed
      then show ?thesis using None by (auto simp: find_None_iff)
    qed
    finally show ?thesis using True by simp
  next
    case False
    have "find_key eq l es' = Some e \<longleftrightarrow> find_key eq l es = Some e" for e
    proof -
      have "x \<noteq> Some e" "?old \<noteq> Some e" if "eq (fst e) l"
        using x[of e] old[of e] that False sym trans by blast+
      then show ?thesis using mem[of e] find_key_iff[OF es(1)] find_key_iff[OF es(2)] by blast
    qed
    with False show ?thesis by (metis not_Some_eq)
  qed
qed

end

lemma entries_index: "entries sl = map (\<lambda>i. entry (sl ! i)) (filter (\<lambda>i. live (sl ! i)) [0..<length sl])"
proof -
  have "filter live sl = filter live (map ((!) sl) [0..<length sl])" by (simp add: map_nth)
  also have "\<dots> = map ((!) sl) (filter (\<lambda>i. live (sl ! i)) [0..<length sl])" by (simp add: filter_map o_def)
  finally show ?thesis by (simp add: entries_def)
qed

lemma slots_ok_uniq:
  assumes "slots_ok n md hash eq sl" and "\<And>k. eq k k"
  shows "key_uniq eq (entries sl)"
  unfolding key_uniq_def
proof
  note d = slots_okD[OF assms(1)]
  show "distinct (entries sl)"
    unfolding entries_index distinct_map
  proof (intro conjI inj_onI)
    fix i j assume "i \<in> set (filter (\<lambda>i. live (sl ! i)) [0..<length sl])" "j \<in> set (filter (\<lambda>i. live (sl ! i)) [0..<length sl])"
      "entry (sl ! i) = entry (sl ! j)"
    then show "i = j" using d(1) d(4)[of i j] assms(2) by simp
  qed simp
  show "\<forall>e \<in> set (entries sl). \<forall>e' \<in> set (entries sl). eq (fst e) (fst e') \<longrightarrow> e = e'"
  proof (intro ballI impI)
    fix e e' assume "e \<in> set (entries sl)" "e' \<in> set (entries sl)" and eq: "eq (fst e) (fst e')"
    then obtain i j where "i < 2 ^ n" "j < 2 ^ n" "live (sl ! i)" "live (sl ! j)" "e = entry (sl ! i)" "e' = entry (sl ! j)"
      using d(1) unfolding entries_nth by auto
    with eq d(4)[of i j] show "e = e'" by simp
  qed
qed

end
