(* ===== verification/Glib_HashTable_Props.thy ===== *)
theory Glib_HashTable_Props
  imports Glib_HashTable_Laws
begin

text \<open>
  The operations of a hash table against a map of keys: what a lookup finds, what is inserted, replaced and
  removed, which calls the destroy functions get, and that every call returns.
\<close>

section \<open>Finding\<close>

definition keys_ok :: "GHashTable \<Rightarrow> bool" where
  "keys_ok ht \<longleftrightarrow> hash_keys (hash_func ht) (key_eq ht)"

lemma hash_of_real: "HASH_IS_REAL (hash_of ht k)"
  by (simp add: hash_of_def Let_def HASH_IS_REAL_def)

lemma keys_okD:
  assumes "keys_ok ht"
  shows "hash_keys (hash_of ht) (key_eq ht)"
proof -
  note h = assms[unfolded keys_ok_def]
  have "hash_of ht k = hash_of ht l" if "key_eq ht k l" for k l
    using hash_keys.hash_eq[OF h that] by (simp add: hash_of_def)
  with hash_keys.refl[OF h] hash_keys.sym[OF h] hash_keys.trans[OF h] show ?thesis by (intro hash_keys.intro)
qed

lemma node_matches_eq: "shape n ht \<Longrightarrow> i < 2 ^ n \<Longrightarrow> node_matches ht (of_nat i) k = key_eq ht (fst (snd (slots ht ! i))) k"
proof -
  assume s: "shape n ht" and i: "i < 2 ^ n"
  have "(2::nat) ^ n \<le> 2 ^ 30" using s by (intro power_increasing) (simp_all add: shape_def)
  with i have "unat (of_nat i :: u32) = i" by (simp add: unat_of_nat)
  with s i show ?thesis
    by (simp add: node_matches_def key_eq_def slots_nth shape_def Let_def split: option.split)
qed

lemma load_free: "load_ok ht \<Longrightarrow> sound n ht \<Longrightarrow> num used (slots ht) < 2 ^ n"
proof -
  assume l: "load_ok ht" and s: "sound n ht"
  have "int (num used (slots ht)) \<le> int (num used (slots ht)) + int (num used (slots ht)) div 16" by simp
  also have "\<dots> < int (ht_size ht)" using l s by (simp add: load_ok_def sound_def)
  also have "ht_size ht = 2 ^ n" using s by (simp add: sound_def shape_def)
  finally show ?thesis by (simp only: of_nat_less_iff)
qed

text \<open>A lookup returns; the node it finds is that of the key, or one that can take it.\<close>

lemma lookup_node:
  assumes k: "keys_ok ht" and s: "sound n ht" "load_ok ht"
  shows "\<exists>i. g_hash_table_lookup_node ht key = Some (of_nat i, hash_of ht key) \<and> i < 2 ^ n \<and> unat (of_nat i :: u32) = i \<and>
    (live (slots ht ! i) \<and> fst (slots ht ! i) = hash_of ht key \<and> key_eq ht (fst (snd (slots ht ! i))) key \<or>
     free_for n (slots ht) (home (ht_mod ht) (hash_of ht key)) i \<and>
       (\<forall>j < 2 ^ n. live (slots ht ! j) \<longrightarrow> \<not> key_eq ht (fst (snd (slots ht ! j))) key))"
proof -
  note hk = keys_okD[OF k]
  have sh: "shape n ht" and ok: "slots_ok n (ht_mod ht) (hash_of ht) (key_eq ht) (slots ht)" and rc: "0 < ref_count ht"
    using s(1) by (simp_all add: sound_def)
  let ?hv = "hash_of ht key"
  note home = home_word[OF sh, of ?hv]
  obtain i where i: "lookup_loop ht key ?hv (of_nat (home (ht_mod ht) ?hv)) 0 None = Some (of_nat i)" "i < 2 ^ n"
    "fst (slots ht ! i) = ?hv \<and> node_matches ht (of_nat i) key \<or>
     free_for n (slots ht) (home (ht_mod ht) ?hv) i \<and>
       (\<forall>j. on_path n (slots ht) (home (ht_mod ht) ?hv) j \<longrightarrow> \<not> (fst (slots ht ! j) = ?hv \<and> node_matches ht (of_nat j) key))"
    using lookup_loop_result[OF sh _ hash_of_real load_free[OF s(2,1)], where b = "home (ht_mod ht) ?hv" and key = key] home by blast
  have "(2::nat) ^ n \<le> 2 ^ 30" using sh by (intro power_increasing) (simp_all add: shape_def)
  with i(2) have u: "unat (of_nat i :: u32) = i" by (simp add: unat_of_nat)
  have r: "g_hash_table_lookup_node ht key = Some (of_nat i, ?hv)"
    using rc i(1) home by (simp add: g_hash_table_lookup_node_def Let_def)
  from i(3) show ?thesis
  proof (elim disjE conjE)
    assume "fst (slots ht ! i) = ?hv" "node_matches ht (of_nat i) key"
    then show ?thesis using r u i(2) node_matches_eq[OF sh i(2)] hash_of_real[of ht key]
      by (intro exI[of _ i]) simp
  next
    assume f: "free_for n (slots ht) (home (ht_mod ht) ?hv) i"
      "\<forall>j. on_path n (slots ht) (home (ht_mod ht) ?hv) j \<longrightarrow> \<not> (fst (slots ht ! j) = ?hv \<and> node_matches ht (of_nat j) key)"
    have "\<not> key_eq ht (fst (snd (slots ht ! j))) key" if j: "j < 2 ^ n" "live (slots ht ! j)" for j
    proof
      assume eq: "key_eq ht (fst (snd (slots ht ! j))) key"
      then have h: "fst (slots ht ! j) = ?hv" using hash_keys.hash_eq[OF hk eq] slots_okD(3)[OF ok j] by simp
      then have "on_path n (slots ht) (home (ht_mod ht) ?hv) j" using slots_okD(2)[OF ok j] by simp
      with f(2)[rule_format, of j] h eq node_matches_eq[OF sh j(1), of key] show False by simp
    qed
    with f(1) r u i(2) show ?thesis by (intro exI[of _ i]) blast
  qed
qed

text \<open>The entry that the map gives a key is that of the live node of the key.\<close>

lemma entries_ok: "keys_ok ht \<Longrightarrow> sound n ht \<Longrightarrow> key_uniq (key_eq ht) (entries (slots ht))"
  by (rule slots_ok_uniq[of n "ht_mod ht" "hash_of ht"]) (auto simp: sound_def keys_ok_def hash_keys.refl)

lemma ht_map_live:
  assumes "keys_ok ht" "sound n ht" "i < 2 ^ n" "live (slots ht ! i)" "key_eq ht (fst (snd (slots ht ! i))) key"
  shows "ht_map ht key = Some (entry (slots ht ! i))"
proof -
  have "entry (slots ht ! i) \<in> set (entries (slots ht))" using assms(2-4) by (auto simp: entries_nth sound_def shape_def)
  then show ?thesis using hash_keys.find_key_iff[OF keys_okD[OF assms(1)] entries_ok[OF assms(1,2)]] assms(5)
    by (simp add: ht_map_def)
qed

lemma ht_map_free:
  assumes "sound n ht" "\<forall>j < 2 ^ n. live (slots ht ! j) \<longrightarrow> \<not> key_eq ht (fst (snd (slots ht ! j))) key"
  shows "ht_map ht key = None"
  unfolding ht_map_def find_None_iff
proof
  assume "\<exists>e. e \<in> set (entries (slots ht)) \<and> key_eq ht (fst e) key"
  then obtain e where e: "e \<in> set (entries (slots ht))" "key_eq ht (fst e) key" by blast
  then obtain j where "j < length (slots ht)" "live (slots ht ! j)" "e = entry (slots ht ! j)" unfolding entries_nth by blast
  with e(2) assms(1) have "j < 2 ^ n" "live (slots ht ! j)" "key_eq ht (fst (snd (slots ht ! j))) key"
    by (simp_all add: sound_def shape_def)
  with assms(2) show False by blast
qed

text \<open>The two outcomes, as a case distinction for the operations.\<close>

lemma lookup_cases:
  assumes "keys_ok ht" "sound n ht" "load_ok ht"
  obtains (found) i where "g_hash_table_lookup_node ht key = Some (of_nat i, hash_of ht key)" "i < 2 ^ n" "unat (of_nat i :: u32) = i"
      "live (slots ht ! i)" "fst (slots ht ! i) = hash_of ht key" "key_eq ht (fst (snd (slots ht ! i))) key"
      "ht_map ht key = Some (entry (slots ht ! i))"
    | (free) i where "g_hash_table_lookup_node ht key = Some (of_nat i, hash_of ht key)" "i < 2 ^ n" "unat (of_nat i :: u32) = i"
      "\<not> live (slots ht ! i)" "on_path n (slots ht) (home (ht_mod ht) (hash_of ht key)) i"
      "\<forall>j < 2 ^ n. live (slots ht ! j) \<longrightarrow> \<not> key_eq ht (fst (snd (slots ht ! j))) key" "ht_map ht key = None"
proof -
  from lookup_node[OF assms, of key] obtain i where
    i: "g_hash_table_lookup_node ht key = Some (of_nat i, hash_of ht key)" "i < 2 ^ n" "unat (of_nat i :: u32) = i" and
    d: "live (slots ht ! i) \<and> fst (slots ht ! i) = hash_of ht key \<and> key_eq ht (fst (snd (slots ht ! i))) key \<or>
     free_for n (slots ht) (home (ht_mod ht) (hash_of ht key)) i \<and>
       (\<forall>j < 2 ^ n. live (slots ht ! j) \<longrightarrow> \<not> key_eq ht (fst (snd (slots ht ! j))) key)"
    by blast
  from d show thesis
  proof (elim disjE conjE)
    assume "live (slots ht ! i)" "fst (slots ht ! i) = hash_of ht key" "key_eq ht (fst (snd (slots ht ! i))) key"
    then show thesis using found[OF i] ht_map_live[OF assms(1,2) i(2)] by blast
  next
    assume "free_for n (slots ht) (home (ht_mod ht) (hash_of ht key)) i"
      "\<forall>j < 2 ^ n. live (slots ht ! j) \<longrightarrow> \<not> key_eq ht (fst (snd (slots ht ! j))) key"
    then show thesis using free[OF i] ht_map_free[OF assms(2)] by (auto simp: free_for_def)
  qed
qed

lemma slot_parts:
  assumes "sound n ht" "i < 2 ^ n"
  shows "hashes ht ! i = fst (slots ht ! i)" "keys ht ! i = fst (snd (slots ht ! i))" "value_at ht i = snd (snd (slots ht ! i))"
  using assms by (simp_all add: sound_def shape_def slots_nth)

lemma lookup_map:
  assumes "keys_ok ht" "ht_ok ht"
  shows "g_hash_table_lookup_extended ht key = Some (ht_map ht key)"
    "g_hash_table_lookup ht key = Some (case ht_map ht key of None \<Rightarrow> NULL | Some (_, v) \<Rightarrow> v)"
    "g_hash_table_contains ht key = Some (ht_map ht key \<noteq> None)"
proof -
  from assms(2) obtain n where n: "sound n ht" "load_ok ht" by (auto simp: ht_ok_def)
  have "g_hash_table_lookup_extended ht key = Some (ht_map ht key) \<and>
    g_hash_table_lookup ht key = Some (case ht_map ht key of None \<Rightarrow> NULL | Some (_, v) \<Rightarrow> v) \<and>
    g_hash_table_contains ht key = Some (ht_map ht key \<noteq> None)"
  proof (cases rule: lookup_cases[OF assms(1) n, where key = key, case_names found free])
    case (found i)
    then show ?thesis using slot_parts[OF n(1) found(2)]
      by (cases "slots ht ! i") (simp add: g_hash_table_lookup_extended_def g_hash_table_lookup_def g_hash_table_contains_def)
  next
    case (free i)
    then show ?thesis using slot_parts[OF n(1) free(2)]
      by (simp add: g_hash_table_lookup_extended_def g_hash_table_lookup_def g_hash_table_contains_def)
  qed
  then show "g_hash_table_lookup_extended ht key = Some (ht_map ht key)"
    "g_hash_table_lookup ht key = Some (case ht_map ht key of None \<Rightarrow> NULL | Some (_, v) \<Rightarrow> v)"
    "g_hash_table_contains ht key = Some (ht_map ht key \<noteq> None)" by blast+
qed

section \<open>Inserting\<close>

text \<open>The three writes of an insertion: the key, the split of shared arrays, the value.\<close>

definition write_node :: "nat \<Rightarrow> slot \<Rightarrow> GHashTable \<Rightarrow> GHashTable" where
  "write_node i s ht =
     (let ht1 = ht\<lparr>hashes := (hashes ht)[i := fst s], keys := (keys ht)[i := fst (snd s)]\<rparr>;
          ht2 = (if vals ht1 = None \<and> keys ht1 ! i \<noteq> snd (snd s) then ht1\<lparr>vals := Some (keys ht1)\<rparr> else ht1)
      in ht2\<lparr>vals := map_option (\<lambda>vs. vs[i := snd (snd s)]) (vals ht2)\<rparr>)"

lemma write_node_frame [simp]:
  "nnodes (write_node i s ht) = nnodes ht" "noccupied (write_node i s ht) = noccupied ht" "ht_mod (write_node i s ht) = ht_mod ht"
  "ref_count (write_node i s ht) = ref_count ht" "same_but_arrays ht (write_node i s ht)" "ht_size (write_node i s ht) = ht_size ht"
  by (simp_all add: write_node_def Let_def same_but_arrays_def)

lemma slots_write:
  assumes "shape n ht" "i < 2 ^ n"
  shows "slots (write_node i s ht) = (slots ht)[i := s]" "shape n (write_node i s ht)"
proof -
  show "shape n (write_node i s ht)" using assms by (auto simp: write_node_def shape_def Let_def)
  show "slots (write_node i s ht) = (slots ht)[i := s]"
  proof (rule nth_equalityI)
    fix j assume "j < length (slots (write_node i s ht))"
    then have "j < 2 ^ n" using assms(1) by (simp add: shape_def)
    then show "slots (write_node i s ht) ! j = (slots ht)[i := s] ! j"
      using assms by (cases "vals ht"; cases "j = i"; cases s) (auto simp: write_node_def slots_nth shape_def value_at_def Let_def)
  qed simp
qed

lemma same_funcs:
  assumes "same_but_arrays ht ht'"
  shows "hash_of ht' = hash_of ht" "key_eq ht' = key_eq ht" "keys_ok ht' = keys_ok ht" "ref_count ht' = ref_count ht"
    "destroy_calls ht' = destroy_calls ht"
  using assms by (simp_all add: same_but_arrays_def hash_of_def[abs_def] key_eq_def keys_ok_def destroy_calls_def[abs_def])

lemma keys_okE: "keys_ok ht \<Longrightarrow> key_eq ht k l \<Longrightarrow> key_eq ht l k"
  unfolding keys_ok_def by (rule hash_keys.sym)

lemma ht_map_frame [simp]: "ht_map (ht\<lparr>version := v\<rparr>) = ht_map ht" "ht_ok (ht\<lparr>version := v\<rparr>) = ht_ok ht" "keys_ok (ht\<lparr>version := v\<rparr>) = keys_ok ht"
  "key_eq (ht\<lparr>version := v\<rparr>) = key_eq ht" "destroy_calls (ht\<lparr>version := v\<rparr>) = destroy_calls ht"
proof -
  have k: "key_eq (ht\<lparr>version := v\<rparr>) = key_eq ht" and h: "hash_of (ht\<lparr>version := v\<rparr>) = hash_of ht"
    by (simp_all add: key_eq_def hash_of_def[abs_def])
  have "shape n (ht\<lparr>version := v\<rparr>) = shape n ht" for n by (simp add: shape_def)
  with k h show "ht_map (ht\<lparr>version := v\<rparr>) = ht_map ht" "ht_ok (ht\<lparr>version := v\<rparr>) = ht_ok ht" "keys_ok (ht\<lparr>version := v\<rparr>) = keys_ok ht"
    "key_eq (ht\<lparr>version := v\<rparr>) = key_eq ht" "destroy_calls (ht\<lparr>version := v\<rparr>) = destroy_calls ht"
    by (simp_all add: ht_map_def[abs_def] ht_ok_def sound_def load_ok_def keys_ok_def destroy_calls_def[abs_def])
qed

text \<open>What an operation does: an entry out, an entry in, and the map changed at the keys equal to the key.\<close>

definition changes :: "GHashTable \<Rightarrow> gpointer \<Rightarrow> (gpointer \<times> gpointer) option \<Rightarrow> GHashTable \<Rightarrow> bool" where
  "changes ht k x ht' \<longleftrightarrow> ht_ok ht' \<and> (hash_func ht' = hash_func ht \<and> key_equal_func ht' = key_equal_func ht \<and>
       key_destroy_func ht' = key_destroy_func ht \<and> value_destroy_func ht' = value_destroy_func ht) \<and>
     mset (entries (slots ht')) + mset_opt (ht_map ht k) = mset (entries (slots ht)) + mset_opt x \<and>
     nnodes ht' + (if ht_map ht k = None then 0 else 1) = nnodes ht + (if x = None then 0 else 1) \<and>
     ht_map ht' = (\<lambda>l. if key_eq ht k l then x else ht_map ht l)"

lemma ht_ok_entries: "ht_ok ht \<Longrightarrow> nnodes ht = int (length (entries (slots ht)))"
  by (auto simp: ht_ok_def sound_def length_entries)

lemma changesI:
  assumes "keys_ok ht" "ht_ok ht" "ht_ok ht'" "same_but_arrays ht ht'" and x: "\<And>e. x = Some e \<Longrightarrow> key_eq ht (fst e) k"
    and m: "mset (entries (slots ht')) + mset_opt (ht_map ht k) = mset (entries (slots ht)) + mset_opt x"
  shows "changes ht k x (ht'\<lparr>version := v\<rparr>)"
proof -
  note f = same_funcs[OF assms(4)]
  obtain n n' where s: "sound n ht" "sound n' ht'" using assms(2,3) by (auto simp: ht_ok_def)
  have u: "key_uniq (key_eq ht) (entries (slots ht))" "key_uniq (key_eq ht) (entries (slots ht'))"
    using entries_ok[OF assms(1) s(1)] entries_ok[OF _ s(2)] assms(1) f by simp_all
  have "ht_map ht' l = (if key_eq ht k l then x else ht_map ht l)" for l
    using hash_keys.find_key_update[OF keys_okD[OF assms(1)] u x m[unfolded ht_map_def]] f(2) by (simp add: ht_map_def)
  moreover have "nnodes ht' + (if ht_map ht k = None then 0 else 1) = nnodes ht + (if x = None then 0 else 1)"
    using arg_cong[OF m, of size] ht_ok_entries[OF assms(2)] ht_ok_entries[OF assms(3)] by (auto simp: mset_opt_def split: option.splits)
  ultimately show ?thesis using assms(3,4) m by (simp add: changes_def same_but_arrays_def fun_eq_iff)
qed

text \<open>A live node written over, and a free one taken.\<close>

lemma write_live:
  fixes v :: gpointer
  assumes "keys_ok ht" "sound n ht" "i < 2 ^ n" "live (slots ht ! i)" "key_eq ht (fst (snd (slots ht ! i))) k"
  defines "ht' \<equiv> write_node i (fst (slots ht ! i), k, v) ht"
  shows "sound n ht'" "slots ht' = (slots ht)[i := (fst (slots ht ! i), k, v)]"
    "mset (entries (slots ht')) + {#entry (slots ht ! i)#} = mset (entries (slots ht)) + {#(k, v)#}"
proof -
  let ?s = "slots ht ! i"
  have sh: "shape n ht" and ok: "slots_ok n (ht_mod ht) (hash_of ht) (key_eq ht) (slots ht)" using assms(2) by (simp_all add: sound_def)
  have l: "i < length (slots ht)" using assms(3) sh by (simp add: shape_def)
  note hk = keys_okD[OF assms(1)] and w = slots_write[OF sh assms(3), of "(fst ?s, k, v)", folded ht'_def]
  show "slots ht' = (slots ht)[i := (fst ?s, k, v)]" by (rule w(1))
  show "mset (entries (slots ht')) + {#entry ?s#} = mset (entries (slots ht)) + {#(k, v)#}"
    using entries_update[OF l, of "(fst ?s, k, v)"] assms(4) w(1) by simp
  have "slots_ok n (ht_mod ht) (hash_of ht) (key_eq ht) ((slots ht)[i := (fst ?s, k, v)])"
  proof (rule slots_ok_update[OF ok])
    show "on_path n (slots ht) (home (ht_mod ht) (fst (fst ?s, k, v))) i \<and> hash_of ht (fst (snd (fst ?s, k, v))) = fst (fst ?s, k, v)"
      using slots_okD(2,3)[OF ok assms(3,4)] hash_keys.hash_eq[OF hk assms(5)] by simp
    fix j assume j: "j < 2 ^ n" "j \<noteq> i" "live (slots ht ! j)"
    have ne: "\<not> key_eq ht (fst (snd ?s)) (fst (snd (slots ht ! j)))" "\<not> key_eq ht (fst (snd (slots ht ! j))) (fst (snd ?s))"
      using slots_okD(4)[OF ok assms(3) j(1) assms(4) j(3)] slots_okD(4)[OF ok j(1) assms(3) j(3) assms(4)] j(2) by auto
    then show "\<not> key_eq ht (fst (snd (fst ?s, k, v))) (fst (snd (slots ht ! j))) \<and> \<not> key_eq ht (fst (snd (slots ht ! j))) (fst (snd (fst ?s, k, v)))"
      using hash_keys.trans[OF hk assms(5)] hash_keys.trans[OF hk _ hash_keys.sym[OF hk assms(5)]] by auto
  qed (use assms(4) in simp)
  moreover have "num live (slots ht') = num live (slots ht)" "num used (slots ht') = num used (slots ht)"
    using num_update[OF l, of live "(fst ?s, k, v)"] num_update[OF l, of used "(fst ?s, k, v)"] assms(4) w(1) by simp_all
  ultimately show "sound n ht'" using assms(2) w same_funcs[of ht ht'] write_node_frame(5)[of ht i "(fst ?s, k, v)", folded ht'_def]
    by (simp add: sound_def) (simp add: ht'_def)
qed

lemma write_free:
  fixes v :: gpointer
  assumes "keys_ok ht" "sound n ht" "i < 2 ^ n" "\<not> live (slots ht ! i)" "on_path n (slots ht) (home (ht_mod ht) (hash_of ht k)) i"
    "\<forall>j < 2 ^ n. live (slots ht ! j) \<longrightarrow> \<not> key_eq ht (fst (snd (slots ht ! j))) k"
  defines "ht' \<equiv> (write_node i (hash_of ht k, k, v) ht)\<lparr>nnodes := nnodes ht + 1, noccupied := noccupied ht + (if used (slots ht ! i) then 0 else 1)\<rparr>"
  shows "sound n ht'" "mset (entries (slots ht')) = mset (entries (slots ht)) + {#(k, v)#}"
proof -
  let ?w = "write_node i (hash_of ht k, k, v) ht"
  have sh: "shape n ht" and ok: "slots_ok n (ht_mod ht) (hash_of ht) (key_eq ht) (slots ht)" using assms(2) by (simp_all add: sound_def)
  have l: "i < length (slots ht)" using assms(3) sh by (simp add: shape_def)
  note w = slots_write[OF sh assms(3), of "(hash_of ht k, k, v)"] and r = hash_of_real[of ht k]
  have sl: "slots ht' = (slots ht)[i := (hash_of ht k, k, v)]" using w(1) by (simp add: ht'_def)
  show "mset (entries (slots ht')) = mset (entries (slots ht)) + {#(k, v)#}"
    using entries_update[OF l, of "(hash_of ht k, k, v)"] assms(4) sl r by simp
  have "slots_ok n (ht_mod ht) (hash_of ht) (key_eq ht) ((slots ht)[i := (hash_of ht k, k, v)])"
    using assms(5,6) r keys_okE[OF assms(1)] by (intro slots_ok_update[OF ok]) auto
  moreover have "num live (slots ht') = num live (slots ht) + 1" "num used (slots ht') = num used (slots ht) + (if used (slots ht ! i) then 0 else 1)"
    using num_update[OF l, of live "(hash_of ht k, k, v)"] num_update[OF l, of used "(hash_of ht k, k, v)"] assms(4) sl r by auto
  moreover have "shape n ht'" using w(2) by (simp add: ht'_def shape_def)
  moreover have "hash_of ht' = hash_of ht" "key_eq ht' = key_eq ht"
    using same_funcs[of ht ?w] write_node_frame(5)[of ht i "(hash_of ht k, k, v)"] by (simp_all add: ht'_def hash_of_def[abs_def] key_eq_def)
  ultimately show "sound n ht'" using assms(2) sl by (simp add: sound_def) (simp add: ht'_def)
qed

lemma upd_same [simp]: "ht\<lparr>hashes := hashes ht\<rparr> = ht" "ht\<lparr>keys := keys ht\<rparr> = ht" "ht\<lparr>version := version ht\<rparr> = ht"
  by (cases ht, simp)+

definition replaced :: "GHashTable \<Rightarrow> gpointer \<Rightarrow> bool \<Rightarrow> destroyed list" where
  "replaced ht k keep = (case ht_map ht k of None \<Rightarrow> [] | Some (k0, v0) \<Rightarrow> destroy_calls ht True True (if keep then k0 else k) v0)"

definition new_entry :: "GHashTable \<Rightarrow> gpointer \<Rightarrow> gpointer \<Rightarrow> bool \<Rightarrow> gpointer \<times> gpointer" where
  "new_entry ht k v keep = (case ht_map ht k of None \<Rightarrow> k | Some (k0, _) \<Rightarrow> if keep then k else k0, v)"

lemma insert_ok:
  assumes "keys_ok ht" "ht_ok ht" "nnodes ht + 1 < 2 ^ 29"
  shows "\<exists>ht'. g_hash_table_insert_internal ht k v keep = Some (ht', ht_map ht k = None, replaced ht k keep) \<and>
    changes ht k (Some (new_entry ht k v keep)) ht'"
proof -
  from assms(2) obtain n where s: "sound n ht" and load: "load_ok ht" by (auto simp: ht_ok_def)
  have refl: "key_eq ht k k" using assms(1) unfolding keys_ok_def by (rule hash_keys.refl)
  show ?thesis
  proof (cases rule: lookup_cases[OF assms(1) s load, where key = k, case_names found free])
    case (found i)
    obtain h k0 v0 where sl: "slots ht ! i = (h, k0, v0)" by (metis prod_cases3)
    note p = slot_parts[OF s found(2)]
    let ?k = "if keep then k else k0"
    let ?w = "write_node i (h, ?k, v) ht"
    have eq: "key_eq ht (fst (snd (slots ht ! i))) ?k"
      using found(6) sl assms(1) by (auto simp: keys_ok_def hash_keys.refl)
    note w = write_live[OF assms(1) s found(2,4) eq, of v, unfolded sl fst_conv]
    have "g_hash_table_insert_internal ht k v keep = Some (?w, False, destroy_calls ht True True (if keep then k0 else k) v0)"
      using found(1,3,4) sl p list_update_id[of "hashes ht" i] list_update_id[of "keys ht" i]
      by (simp add: g_hash_table_insert_internal_def g_hash_table_insert_node_def write_node_def Let_def)
    moreover have "ht_ok ?w" using w(1) load by (auto simp: ht_ok_def load_ok_def)
    then have "changes ht k (Some (?k, v)) (?w\<lparr>version := version ?w\<rparr>)"
      using w(3) found(6,7) sl assms(1,2) refl by (intro changesI) auto
    ultimately show ?thesis using found(7) sl by (intro exI[of _ ?w]) (simp add: replaced_def new_entry_def)
  next
    case (free i)
    note p = slot_parts[OF s free(2)]
    let ?w = "write_node i (hash_of ht k, k, v) ht"
    let ?w' = "?w\<lparr>nnodes := nnodes ht + 1, noccupied := noccupied ht + (if used (slots ht ! i) then 0 else 1)\<rparr>"
    note w = write_free[OF assms(1) s free(2,4,5,6), of v]
    have sb: "same_but_arrays ht ?w'" using write_node_frame(5)[of ht i "(hash_of ht k, k, v)"] by (simp add: same_but_arrays_def)
    have ins: "g_hash_table_insert_internal ht k v keep = map_option (\<lambda>ht5. (ht5\<lparr>version := version ht5 + 1\<rparr>, True, []))
        (if used (slots ht ! i) then Some ?w' else g_hash_table_maybe_resize ?w')"
      using free(1,3,4) p
      by (simp add: g_hash_table_insert_internal_def g_hash_table_insert_node_def write_node_def Let_def cong: if_cong)
    have "\<exists>ht5. (if used (slots ht ! i) then Some ?w' else g_hash_table_maybe_resize ?w') = Some ht5 \<and> ht_ok ht5 \<and>
      mset (entries (slots ht5)) = mset (entries (slots ?w')) \<and> same_but_arrays ?w' ht5"
    proof (cases "used (slots ht ! i)")
      case True
      then have "load_ok ?w'" using load by (simp add: load_ok_def)
      with True w(1) show ?thesis by (auto simp: ht_ok_def same_but_arrays_def)
    next
      case False
      have "\<And>k l. key_eq ?w' k l \<Longrightarrow> key_eq ?w' l k" using keys_okE[OF assms(1)] same_funcs[OF sb] by simp
      with maybe_resize_ok[OF w(1) _ this] assms(3) False show ?thesis by auto
    qed
    then obtain ht5 where h5: "(if used (slots ht ! i) then Some ?w' else g_hash_table_maybe_resize ?w') = Some ht5" "ht_ok ht5"
      "mset (entries (slots ht5)) = mset (entries (slots ?w'))" "same_but_arrays ?w' ht5" by blast
    have "same_but_arrays ht ht5" using sb h5(4) by (simp add: same_but_arrays_def)
    then have "changes ht k (Some (k, v)) (ht5\<lparr>version := version ht5 + 1\<rparr>)"
      using w(2) h5(2,3) free(7) assms(1,2) refl by (intro changesI) auto
    with ins h5(1) free(7) show ?thesis
      by (intro exI[of _ "ht5\<lparr>version := version ht5 + 1\<rparr>"]) (simp add: replaced_def new_entry_def)
  qed
qed

section \<open>Removing\<close>

lemma remove_slots:
  fixes b :: bool
  assumes "sound n ht" "i < 2 ^ n" "live (slots ht ! i)"
  defines "ht' \<equiv> fst (g_hash_table_remove_node ht i b)"
  shows "sound n ht'" "mset (entries (slots ht')) + {#entry (slots ht ! i)#} = mset (entries (slots ht))" "same_but_arrays ht ht'"
    "slots ht' = (slots ht)[i := (1, NULL, NULL)]" "noccupied ht' = noccupied ht" "nnodes ht' = nnodes ht - 1" "ht_size ht' = ht_size ht"
    "snd (g_hash_table_remove_node ht i b) = destroy_calls ht b b (fst (snd (slots ht ! i))) (snd (snd (slots ht ! i)))"
proof -
  have sh: "shape n ht" and ok: "slots_ok n (ht_mod ht) (hash_of ht) (key_eq ht) (slots ht)" using assms(1) by (simp_all add: sound_def)
  have l: "i < length (slots ht)" using assms(2) sh by (simp add: shape_def)
  note put = slots_put[OF sh assms(2), of "(1, NULL, NULL)", simplified]
  have ht': "ht' = (put_slot i (1, NULL, NULL) ht)\<lparr>nnodes := nnodes ht - 1\<rparr>"
    unfolding ht'_def by (rule remove_node_slots[OF sh assms(2)])
  show sb: "same_but_arrays ht ht'" and no: "noccupied ht' = noccupied ht" and nn: "nnodes ht' = nnodes ht - 1" and "ht_size ht' = ht_size ht"
    by (simp_all add: ht' put_slot_def same_but_arrays_def)
  show sl: "slots ht' = (slots ht)[i := (1, NULL, NULL)]" using put(1) by (simp add: ht')
  show "mset (entries (slots ht')) + {#entry (slots ht ! i)#} = mset (entries (slots ht))"
    using entries_update[OF l, of "(1, NULL, NULL)"] assms(3) sl by simp
  show "snd (g_hash_table_remove_node ht i b) = destroy_calls ht b b (fst (snd (slots ht ! i))) (snd (snd (slots ht ! i)))"
    using slot_parts[OF assms(1,2)] by (simp add: g_hash_table_remove_node_def)
  have "num live (slots ht') + 1 = num live (slots ht)" "num used (slots ht') = num used (slots ht)"
    using num_update[OF l, of live "(1, NULL, NULL)"] num_update[OF l, of used "(1, NULL, NULL)"] assms(3) sl by simp_all
  moreover have "shape n ht'" using put(2) by (simp add: ht' shape_def)
  moreover have "ht_mod ht' = ht_mod ht" by (simp add: ht' put_slot_def)
  ultimately show "sound n ht'" using assms(1) slots_ok_bury[OF ok] sl no nn same_funcs[OF sb] by (simp add: sound_def)
qed

lemma remove_ok:
  assumes "keys_ok ht" "ht_ok ht" "nnodes ht < 2 ^ 29"
  shows "\<exists>ht'. g_hash_table_remove_internal ht k notify = Some (ht', ht_map ht k \<noteq> None,
      case ht_map ht k of None \<Rightarrow> [] | Some (k0, v0) \<Rightarrow> destroy_calls ht notify notify k0 v0) \<and>
    changes ht k None ht'"
proof -
  from assms(2) obtain n where s: "sound n ht" and load: "load_ok ht" by (auto simp: ht_ok_def)
  show ?thesis
  proof (cases rule: lookup_cases[OF assms(1) s load, where key = k, case_names found free])
    case (found i)
    note r = remove_slots[OF s found(2,4), of notify]
    let ?r = "fst (g_hash_table_remove_node ht i notify)"
    have "\<And>k l. key_eq ?r k l \<Longrightarrow> key_eq ?r l k" using keys_okE[OF assms(1)] same_funcs[OF r(3)] by simp
    from maybe_resize_ok[OF r(1) _ this] assms(3) r(6) obtain ht2 where h2: "g_hash_table_maybe_resize ?r = Some ht2" "ht_ok ht2"
      "mset (entries (slots ht2)) = mset (entries (slots ?r))" "same_but_arrays ?r ht2" by auto
    have "same_but_arrays ht ht2" using r(3) h2(4) by (simp add: same_but_arrays_def)
    then have "changes ht k None (ht2\<lparr>version := version ht2 + 1\<rparr>)"
      using r(2) h2(2,3) found(7) assms(1,2) by (intro changesI) auto
    moreover have "g_hash_table_remove_internal ht k notify = Some (ht2\<lparr>version := version ht2 + 1\<rparr>, True,
        destroy_calls ht notify notify (fst (entry (slots ht ! i))) (snd (entry (slots ht ! i))))"
      using found(1,3,4) slot_parts[OF s found(2)] h2(1) r(8)
      by (simp add: g_hash_table_remove_internal_def split_beta)
    ultimately show ?thesis using found(7) by (intro exI[of _ "ht2\<lparr>version := version ht2 + 1\<rparr>"]) (simp add: split_beta)
  next
    case (free i)
    have "changes ht k None (ht\<lparr>version := version ht\<rparr>)"
      using free(7) assms(1,2) by (intro changesI) (auto simp: same_but_arrays_def)
    moreover have "g_hash_table_remove_internal ht k notify = Some (ht, False, [])"
      using free(1,3,4) slot_parts[OF s free(2)] by (simp add: g_hash_table_remove_internal_def)
    ultimately show ?thesis using free(7) by (intro exI[of _ ht]) simp
  qed
qed

section \<open>Empty tables\<close>

lemma empty_sound:
  assumes "0 < ref_count ht" "nnodes ht = 0" "noccupied ht = 0" "shape n ht" "slots ht = replicate (2 ^ n) (0, NULL, NULL)"
  shows "sound n ht" "entries (slots ht) = []" "ht_map ht = Map.empty"
  using assms by (simp_all add: sound_def replicate_ok ht_map_def[abs_def])

lemma fresh_sound:
  assumes "0 < ref_count ht" "nnodes ht = 0" "noccupied ht = 0"
  shows "sound 3 (fresh_arrays (g_hash_table_set_shift ht HASH_TABLE_MIN_SHIFT))"
    "slots (fresh_arrays (g_hash_table_set_shift ht HASH_TABLE_MIN_SHIFT)) = replicate (2 ^ 3) (0, NULL, NULL)"
proof -
  let ?ht = "fresh_arrays (g_hash_table_set_shift ht HASH_TABLE_MIN_SHIFT)"
  show sl: "slots ?ht = replicate (2 ^ 3) (0, NULL, NULL)"
    by (rule replicate_slots) (simp_all add: fresh_arrays_def g_hash_table_set_shift_def HASH_TABLE_MIN_SHIFT_def)
  have "shape 3 ?ht"
    using mask_loop[of 3] by (simp add: shape_def fresh_arrays_def g_hash_table_set_shift_def HASH_TABLE_MIN_SHIFT_def)
  moreover have "0 < ref_count ?ht" "nnodes ?ht = 0" "noccupied ?ht = 0"
    using assms by (simp_all add: fresh_arrays_def g_hash_table_set_shift_def)
  ultimately show "sound 3 ?ht" using empty_sound(1) sl by blast
qed

lemma new_table_ok:
  "ht_ok (g_hash_table_new_full hash eq kd vd)" "ht_map (g_hash_table_new_full hash eq kd vd) = Map.empty"
  "entries (slots (g_hash_table_new_full hash eq kd vd)) = []" "nnodes (g_hash_table_new_full hash eq kd vd) = 0"
proof -
  let ?ht = "g_hash_table_new_full hash eq kd vd"
  have s: "sound 3 ?ht" and sl: "slots ?ht = replicate (2 ^ 3) (0, NULL, NULL)"
    unfolding g_hash_table_new_full_def Let_def by (intro fresh_sound; simp)+
  show "ht_map ?ht = Map.empty" "entries (slots ?ht) = []" using sl by (simp_all add: ht_map_def[abs_def])
  show nn: "nnodes ?ht = 0" using s sl by (simp add: sound_def)
  have "noccupied ?ht = 0" "ht_size ?ht = 8" using s sl by (simp_all add: sound_def shape_def)
  then show "ht_ok ?ht" using s by (auto simp: ht_ok_def load_ok_def)
qed

definition destroy_all :: "GHashTable \<Rightarrow> (gpointer \<times> gpointer) list \<Rightarrow> destroyed list" where
  "destroy_all ht es = concat (map (\<lambda>e. destroy_calls ht True True (fst e) (snd e)) es)"

lemma destroy_each:
  assumes "sound n ht"
  shows "concat (map (\<lambda>i. if HASH_IS_REAL (hashes ht ! i) then destroy_calls ht True True (keys ht ! i) (value_at ht i) else [])
     [0..<ht_size ht]) = destroy_all ht (entries (slots ht))"
proof -
  have sz: "ht_size ht = 2 ^ n" using assms by (simp add: sound_def shape_def)
  have "concat (map (\<lambda>i. if live (slots ht ! i) then destroy_calls ht True True (fst (entry (slots ht ! i))) (snd (entry (slots ht ! i))) else []) is) =
    concat (map (\<lambda>i. destroy_calls ht True True (fst (entry (slots ht ! i))) (snd (entry (slots ht ! i)))) (filter (\<lambda>i. live (slots ht ! i)) is))" for "is"
    by (induction "is") auto
  note c = this
  have m: "map (\<lambda>i. if HASH_IS_REAL (hashes ht ! i) then destroy_calls ht True True (keys ht ! i) (value_at ht i) else []) [0..<ht_size ht] =
    map (\<lambda>i. if live (slots ht ! i) then destroy_calls ht True True (fst (entry (slots ht ! i))) (snd (entry (slots ht ! i))) else []) [0..<ht_size ht]"
    using slot_parts[OF assms] sz by simp
  show ?thesis unfolding m c destroy_all_def entries_index by (simp add: o_def)
qed

lemma remove_all_ok:
  assumes "keys_ok ht" "ht_ok ht" "nnodes ht < 2 ^ 29"
  shows "\<exists>ht'. remove_or_steal_all ht notify = Some (ht', if notify then destroy_all ht (entries (slots ht)) else []) \<and>
    ht_ok ht' \<and> (hash_func ht' = hash_func ht \<and> key_equal_func ht' = key_equal_func ht \<and>
       key_destroy_func ht' = key_destroy_func ht \<and> value_destroy_func ht' = value_destroy_func ht) \<and>
    entries (slots ht') = [] \<and> ht_map ht' = Map.empty \<and> nnodes ht' = 0"
proof -
  from assms(2) obtain n where s: "sound n ht" and load: "load_ok ht" by (auto simp: ht_ok_def)
  define ht1 where "ht1 = (if nnodes ht \<noteq> 0 then ht\<lparr>version := version ht + 1\<rparr> else ht)"
  let ?r = "g_hash_table_remove_all_nodes ht1 notify False"
  have h1: "sound n ht1" "slots ht1 = slots ht" "nnodes ht1 = nnodes ht" "hash_func ht1 = hash_func ht" "key_equal_func ht1 = key_equal_func ht"
    "key_destroy_func ht1 = key_destroy_func ht" "value_destroy_func ht1 = value_destroy_func ht"
    using s by (auto simp: ht1_def sound_def shape_def hash_of_def[abs_def] key_eq_def)
  have dc: "destroy_all ht1 = destroy_all ht" using h1 by (simp add: destroy_all_def[abs_def] destroy_calls_def[abs_def])
  have e0: "nnodes ht = 0 \<Longrightarrow> entries (slots ht) = []" using ht_ok_entries[OF assms(2)] by simp
  have "(\<exists>m. sound m (fst ?r)) \<and> entries (slots (fst ?r)) = [] \<and> nnodes (fst ?r) = 0 \<and>
    snd ?r = (if notify then destroy_all ht (entries (slots ht)) else []) \<and>
    (hash_func (fst ?r) = hash_func ht \<and> key_equal_func (fst ?r) = key_equal_func ht \<and>
       key_destroy_func (fst ?r) = key_destroy_func ht \<and> value_destroy_func (fst ?r) = value_destroy_func ht)"
  proof (cases "nnodes ht = 0")
    case True
    then show ?thesis using h1 e0 by (auto simp: g_hash_table_remove_all_nodes_def destroy_all_def)
  next
    case False
    show ?thesis
    proof (cases "\<not> notify \<or> \<not> key_destroy_func ht \<and> \<not> value_destroy_func ht")
      case True
      let ?h = "ht1\<lparr>nnodes := 0, noccupied := 0, hashes := replicate (ht_size ht1) 0, keys := replicate (ht_size ht1) NULL,
        vals := map_option (\<lambda>_. replicate (ht_size ht1) NULL) (vals ht1)\<rparr>"
      have r: "?r = (?h, [])" using True False h1 by (simp add: g_hash_table_remove_all_nodes_def Let_def)
      have sz: "ht_size ht1 = 2 ^ n" using h1 by (simp add: sound_def shape_def)
      have "slots ?h = replicate (2 ^ n) (0, NULL, NULL)" by (rule replicate_slots) (auto simp: sz split: option.split)
      moreover have "shape n ?h" using h1(1) by (auto simp: sound_def shape_def)
      moreover have "0 < ref_count ?h" using h1(1) by (simp add: sound_def)
      ultimately have "sound n ?h" "entries (slots ?h) = []" using empty_sound[of ?h n] by simp_all
      moreover have "notify \<Longrightarrow> destroy_all ht es = []" for es using True by (induction es) (simp_all add: destroy_all_def destroy_calls_def)
      ultimately show ?thesis using r h1 by auto
    next
      case nf: False
      let ?h = "fresh_arrays (g_hash_table_set_shift (ht1\<lparr>nnodes := 0, noccupied := 0\<rparr>) HASH_TABLE_MIN_SHIFT)"
      have r: "?r = (?h, destroy_all ht (entries (slots ht)))"
        using nf False h1 destroy_each[OF h1(1)] dc by (auto simp add: g_hash_table_remove_all_nodes_def Let_def)
      have "sound 3 ?h" "slots ?h = replicate (2 ^ 3) (0, NULL, NULL)" using h1(1) by (intro fresh_sound; simp add: sound_def)+
      moreover have "nnodes ?h = 0" "hash_func ?h = hash_func ht" "key_equal_func ?h = key_equal_func ht"
        "key_destroy_func ?h = key_destroy_func ht" "value_destroy_func ?h = value_destroy_func ht"
        using h1 by (simp_all add: fresh_arrays_def g_hash_table_set_shift_def)
      ultimately show ?thesis using r nf by auto
    qed
  qed
  then obtain m where m: "sound m (fst ?r)" "entries (slots (fst ?r)) = []" "nnodes (fst ?r) = 0"
    "snd ?r = (if notify then destroy_all ht (entries (slots ht)) else [])"
    "hash_func (fst ?r) = hash_func ht" "key_equal_func (fst ?r) = key_equal_func ht"
    "key_destroy_func (fst ?r) = key_destroy_func ht" "value_destroy_func (fst ?r) = value_destroy_func ht" by blast
  have "\<And>k l. key_eq (fst ?r) k l \<Longrightarrow> key_eq (fst ?r) l k" using keys_okE[OF assms(1)] m(6) by (simp add: key_eq_def)
  from maybe_resize_ok[OF m(1) _ this] m(3) obtain ht3 where h3: "g_hash_table_maybe_resize (fst ?r) = Some ht3" "ht_ok ht3"
    "mset (entries (slots ht3)) = mset (entries (slots (fst ?r)))" "same_but_arrays (fst ?r) ht3" "nnodes ht3 = nnodes (fst ?r)" by auto
  have "remove_or_steal_all ht notify = Some (ht3, snd ?r)"
    using h3(1) by (simp add: remove_or_steal_all_def ht1_def[symmetric] Let_def split_beta)
  moreover have e: "entries (slots ht3) = []" using h3(3) m(2) by simp
  then have "ht_map ht3 = Map.empty" by (simp add: ht_map_def[abs_def])
  ultimately show ?thesis using h3 m e by (intro exI[of _ ht3]) (auto simp: same_but_arrays_def)
qed

section \<open>Runs\<close>

text \<open>The calls of a client, and what they return.\<close>

datatype ht_op = Insert gpointer gpointer | Replace gpointer gpointer | Add gpointer | Remove gpointer | Steal gpointer
  | Remove_all | Steal_all | Lookup gpointer

datatype ht_out = Flag bool | Found "(gpointer \<times> gpointer) option" | Done

fun ht_step :: "ht_op \<Rightarrow> GHashTable \<Rightarrow> (GHashTable \<times> ht_out \<times> destroyed list) option" where
  "ht_step (Insert k v) ht = map_option (\<lambda>(ht, b, c). (ht, Flag b, c)) (g_hash_table_insert ht k v)"
| "ht_step (Replace k v) ht = map_option (\<lambda>(ht, b, c). (ht, Flag b, c)) (g_hash_table_replace ht k v)"
| "ht_step (Add k) ht = map_option (\<lambda>(ht, b, c). (ht, Flag b, c)) (g_hash_table_add ht k)"
| "ht_step (Remove k) ht = map_option (\<lambda>(ht, b, c). (ht, Flag b, c)) (g_hash_table_remove ht k)"
| "ht_step (Steal k) ht = map_option (\<lambda>(ht, b, c). (ht, Flag b, c)) (g_hash_table_steal ht k)"
| "ht_step Remove_all ht = map_option (\<lambda>(ht, c). (ht, Done, c)) (g_hash_table_remove_all ht)"
| "ht_step Steal_all ht = map_option (\<lambda>(ht, c). (ht, Done, c)) (g_hash_table_steal_all ht)"
| "ht_step (Lookup k) ht = map_option (\<lambda>r. (ht, Found r, [])) (g_hash_table_lookup_extended ht k)"

fun ht_run :: "ht_op list \<Rightarrow> GHashTable \<Rightarrow> (GHashTable \<times> ht_out list \<times> destroyed list) option" where
  "ht_run [] ht = Some (ht, [], [])"
| "ht_run (op # ops) ht =
     Option.bind (ht_step op ht) (\<lambda>(ht1, out, calls1).
       map_option (\<lambda>(ht2, outs, calls2). (ht2, out # outs, calls1 @ calls2)) (ht_run ops ht1))"

text \<open>The specification: a map of the keys up to their equality.\<close>

type_synonym key_map = "gpointer \<Rightarrow> (gpointer \<times> gpointer) option"

definition key_put :: "(gpointer \<Rightarrow> gpointer \<Rightarrow> bool) \<Rightarrow> gpointer \<Rightarrow> (gpointer \<times> gpointer) option \<Rightarrow> key_map \<Rightarrow> key_map" where
  "key_put eq k x m = (\<lambda>l. if eq k l then x else m l)"

definition kept :: "gpointer \<Rightarrow> (gpointer \<times> gpointer) option \<Rightarrow> gpointer" where
  "kept k old = (case old of None \<Rightarrow> k | Some (k0, _) \<Rightarrow> k0)"

fun spec_step :: "(gpointer \<Rightarrow> gpointer \<Rightarrow> bool) \<Rightarrow> ht_op \<Rightarrow> key_map \<Rightarrow> key_map \<times> ht_out" where
  "spec_step eq (Insert k v) m = (key_put eq k (Some (kept k (m k), v)) m, Flag (m k = None))"
| "spec_step eq (Replace k v) m = (key_put eq k (Some (k, v)) m, Flag (m k = None))"
| "spec_step eq (Add k) m = (key_put eq k (Some (k, k)) m, Flag (m k = None))"
| "spec_step eq (Remove k) m = (key_put eq k None m, Flag (m k \<noteq> None))"
| "spec_step eq (Steal k) m = (key_put eq k None m, Flag (m k \<noteq> None))"
| "spec_step eq Remove_all m = (Map.empty, Done)"
| "spec_step eq Steal_all m = (Map.empty, Done)"
| "spec_step eq (Lookup k) m = (m, Found (m k))"

fun spec_run :: "(gpointer \<Rightarrow> gpointer \<Rightarrow> bool) \<Rightarrow> ht_op list \<Rightarrow> key_map \<Rightarrow> key_map \<times> ht_out list" where
  "spec_run eq [] m = (m, [])"
| "spec_run eq (op # ops) m = (let (m1, out) = spec_step eq op m; (m2, outs) = spec_run eq ops m1 in (m2, out # outs))"

text \<open>What a client hands over, what it takes back, and what a table holds.\<close>

fun given :: "ht_op \<Rightarrow> destroyed list" where
  "given (Insert k v) = [Key k, Value v]"
| "given (Replace k v) = [Key k, Value v]"
| "given (Add k) = [Key k, Value k]"
| "given _ = []"

fun steals :: "ht_op \<Rightarrow> bool" where
  "steals (Steal k) = True"
| "steals Steal_all = True"
| "steals _ = False"

definition held :: "GHashTable \<Rightarrow> destroyed multiset" where
  "held ht = (\<Sum>e\<in>#mset (entries (slots ht)). {#Key (fst e), Value (snd e)#})"

definition same_client :: "GHashTable \<Rightarrow> GHashTable \<Rightarrow> bool" where
  "same_client ht ht' \<longleftrightarrow> hash_func ht' = hash_func ht \<and> key_equal_func ht' = key_equal_func ht \<and>
     key_destroy_func ht' = key_destroy_func ht \<and> value_destroy_func ht' = value_destroy_func ht"

lemma same_client_trans: "same_client a b \<Longrightarrow> same_client b c \<Longrightarrow> same_client a c"
  by (simp add: same_client_def)

lemma same_client_keys: "same_client ht ht' \<Longrightarrow> keys_ok ht' = keys_ok ht \<and> key_eq ht' = key_eq ht"
  by (simp add: same_client_def keys_ok_def key_eq_def)

lemma changes_held:
  assumes "changes ht k x ht'"
  shows "held ht' + (case ht_map ht k of None \<Rightarrow> {#} | Some e \<Rightarrow> {#Key (fst e), Value (snd e)#}) =
    held ht + (case x of None \<Rightarrow> {#} | Some e \<Rightarrow> {#Key (fst e), Value (snd e)#})"
proof -
  have "mset (entries (slots ht')) + mset_opt (ht_map ht k) = mset (entries (slots ht)) + mset_opt x"
    using assms by (simp add: changes_def)
  then have "(\<Sum>e\<in>#mset (entries (slots ht')) + mset_opt (ht_map ht k). {#Key (fst e), Value (snd e)#}) =
    (\<Sum>e\<in>#mset (entries (slots ht)) + mset_opt x. {#Key (fst e), Value (snd e)#})" by simp
  then show ?thesis by (auto simp: held_def mset_opt_def split: option.splits)
qed

text \<open>One call.\<close>

lemma ht_step_ok:
  assumes "keys_ok ht" "ht_ok ht" "nnodes ht + 1 < 2 ^ 29"
  shows "\<exists>ht' out calls. ht_step op ht = Some (ht', out, calls) \<and> ht_ok ht' \<and> same_client ht ht' \<and> nnodes ht' \<le> nnodes ht + 1 \<and>
    spec_step (key_eq ht) op (ht_map ht) = (ht_map ht', out) \<and>
    (key_destroy_func ht \<and> value_destroy_func ht \<and> \<not> steals op \<longrightarrow> held ht' + mset calls = held ht + mset (given op))"
proof -
  have ins: "\<exists>ht' out calls. map_option (\<lambda>(ht, b, c). (ht, Flag b, c)) (g_hash_table_insert_internal ht k v keep) = Some (ht', out, calls) \<and>
      ht_ok ht' \<and> same_client ht ht' \<and> nnodes ht' \<le> nnodes ht + 1 \<and>
      (key_put (key_eq ht) k (Some (new_entry ht k v keep)) (ht_map ht), Flag (ht_map ht k = None)) = (ht_map ht', out) \<and>
      (key_destroy_func ht \<and> value_destroy_func ht \<longrightarrow> held ht' + mset calls = held ht + {#Key k, Value v#})" for k v keep
  proof -
    from insert_ok[OF assms, of k v keep] obtain ht' where
      i: "g_hash_table_insert_internal ht k v keep = Some (ht', ht_map ht k = None, replaced ht k keep)" and
      c: "changes ht k (Some (new_entry ht k v keep)) ht'" by blast
    have "key_destroy_func ht \<Longrightarrow> value_destroy_func ht \<Longrightarrow> held ht' + mset (replaced ht k keep) = held ht + {#Key k, Value v#}"
      using changes_held[OF c] by (auto simp: replaced_def new_entry_def destroy_calls_def add_mset_commute split: option.splits if_splits)
    with i c show ?thesis by (auto simp: changes_def same_client_def key_put_def split: if_splits)
  qed
  have rem: "\<exists>ht' out calls. map_option (\<lambda>(ht, b, c). (ht, Flag b, c)) (g_hash_table_remove_internal ht k notify) = Some (ht', out, calls) \<and>
      ht_ok ht' \<and> same_client ht ht' \<and> nnodes ht' \<le> nnodes ht + 1 \<and>
      (key_put (key_eq ht) k None (ht_map ht), Flag (ht_map ht k \<noteq> None)) = (ht_map ht', out) \<and>
      (key_destroy_func ht \<and> value_destroy_func ht \<and> notify \<longrightarrow> held ht' + mset calls = held ht)" for k notify
  proof -
    have "nnodes ht < 2 ^ 29" using assms(3) by simp
    from remove_ok[OF assms(1,2) this, of k notify] obtain ht' where
      r: "g_hash_table_remove_internal ht k notify = Some (ht', ht_map ht k \<noteq> None,
        case ht_map ht k of None \<Rightarrow> [] | Some (k0, v0) \<Rightarrow> destroy_calls ht notify notify k0 v0)" and
      c: "changes ht k None ht'" by blast
    have "key_destroy_func ht \<Longrightarrow> value_destroy_func ht \<Longrightarrow> notify \<Longrightarrow>
      held ht' + mset (case ht_map ht k of None \<Rightarrow> [] | Some (k0, v0) \<Rightarrow> destroy_calls ht notify notify k0 v0) = held ht"
      using changes_held[OF c] by (auto simp: destroy_calls_def split: option.splits)
    with r c show ?thesis by (auto simp: changes_def same_client_def key_put_def split: if_splits)
  qed
  have all: "\<exists>ht' out calls. map_option (\<lambda>(ht, c). (ht, Done, c)) (remove_or_steal_all ht notify) = Some (ht', out, calls) \<and>
      ht_ok ht' \<and> same_client ht ht' \<and> nnodes ht' \<le> nnodes ht + 1 \<and> (Map.empty, Done) = (ht_map ht', out) \<and>
      (key_destroy_func ht \<and> value_destroy_func ht \<and> notify \<longrightarrow> held ht' + mset calls = held ht)" for notify
  proof -
    have "nnodes ht < 2 ^ 29" "0 \<le> nnodes ht" using assms(3) ht_ok_entries[OF assms(2)] by simp_all
    from remove_all_ok[OF assms(1,2) this(1), of notify] this(2) obtain ht' where
      r: "remove_or_steal_all ht notify = Some (ht', if notify then destroy_all ht (entries (slots ht)) else [])" "ht_ok ht'"
      "same_client ht ht'" "entries (slots ht') = []" "ht_map ht' = Map.empty" "nnodes ht' = 0" unfolding same_client_def by blast
    have "key_destroy_func ht \<Longrightarrow> value_destroy_func ht \<Longrightarrow> mset (destroy_all ht es) = (\<Sum>e\<in>#mset es. {#Key (fst e), Value (snd e)#})" for es
      by (induction es) (simp_all add: destroy_all_def destroy_calls_def)
    with r \<open>0 \<le> nnodes ht\<close> show ?thesis by (auto simp: held_def)
  qed
  show ?thesis
  proof (cases op)
    case (Insert k v)
    have "new_entry ht k v False = (kept k (ht_map ht k), v)" by (simp add: new_entry_def kept_def split: option.split)
    with Insert ins[of k v False] show ?thesis by (simp add: g_hash_table_insert_def)
  next
    case (Replace k v)
    have "new_entry ht k v True = (k, v)" by (simp add: new_entry_def split: option.split)
    with Replace ins[of k v True] show ?thesis by (simp add: g_hash_table_replace_def)
  next
    case (Add k)
    have "new_entry ht k k True = (k, k)" by (simp add: new_entry_def split: option.split)
    with Add ins[of k k True] show ?thesis by (simp add: g_hash_table_add_def)
  next
    case (Lookup k)
    with lookup_map(1)[OF assms(1,2)] assms(2) show ?thesis by (simp add: same_client_def)
  qed (use rem[of _ True] rem[of _ False] all[of True] all[of False] in
    \<open>simp_all add: g_hash_table_remove_def g_hash_table_steal_def g_hash_table_remove_all_def g_hash_table_steal_all_def\<close>)
qed

lemma add_chain:
  fixes a0 :: "'a multiset"
  assumes "a1 + c1 = a0 + g1" "a2 + c2 = a1 + g2"
  shows "a2 + (c1 + c2) = a0 + (g1 + g2)"
proof -
  have "a2 + (c1 + c2) = (a2 + c2) + c1" by (simp add: ac_simps)
  also have "\<dots> = (a1 + c1) + g2" unfolding assms(2) by (simp add: ac_simps)
  also have "\<dots> = a0 + (g1 + g2)" unfolding assms(1) by (simp add: ac_simps)
  finally show ?thesis .
qed

lemma ht_run_ok:
  assumes "keys_ok ht" "ht_ok ht" "nnodes ht + int (length ops) < 2 ^ 29"
  shows "\<exists>ht' outs calls. ht_run ops ht = Some (ht', outs, calls) \<and> ht_ok ht' \<and> same_client ht ht' \<and>
    spec_run (key_eq ht) ops (ht_map ht) = (ht_map ht', outs) \<and>
    (key_destroy_func ht \<and> value_destroy_func ht \<and> \<not> list_ex steals ops \<longrightarrow>
      held ht' + mset calls = held ht + mset (concat (map given ops)))"
  using assms
proof (induction ops arbitrary: ht)
  case Nil
  then show ?case by (simp add: same_client_def)
next
  case (Cons op ops)
  then have "nnodes ht + 1 < 2 ^ 29" by simp
  from ht_step_ok[OF Cons.prems(1,2) this, of op] obtain h1 out c1 where
    s: "ht_step op ht = Some (h1, out, c1)" "ht_ok h1" "same_client ht h1" "nnodes h1 \<le> nnodes ht + 1"
      "spec_step (key_eq ht) op (ht_map ht) = (ht_map h1, out)"
      "key_destroy_func ht \<and> value_destroy_func ht \<and> \<not> steals op \<longrightarrow> held h1 + mset c1 = held ht + mset (given op)"
    by (elim exE conjE) (rule that)
  have k: "keys_ok h1" "key_eq h1 = key_eq ht" using same_client_keys[OF s(3)] Cons.prems(1) by simp_all
  have "nnodes h1 + int (length ops) < 2 ^ 29" using s(4) Cons.prems(3) by simp
  from Cons.IH[OF k(1) s(2) this] obtain h2 outs c2 where
    r: "ht_run ops h1 = Some (h2, outs, c2)" "ht_ok h2" "same_client h1 h2" "spec_run (key_eq h1) ops (ht_map h1) = (ht_map h2, outs)"
      "key_destroy_func h1 \<and> value_destroy_func h1 \<and> \<not> list_ex steals ops \<longrightarrow> held h2 + mset c2 = held h1 + mset (concat (map given ops))"
    by (elim exE conjE) (rule that)
  have "key_destroy_func ht \<and> value_destroy_func ht \<and> \<not> list_ex steals (op # ops) \<longrightarrow>
    held h2 + mset (c1 @ c2) = held ht + mset (concat (map given (op # ops)))"
    using add_chain[of "held h1" "mset c1" "held ht" "mset (given op)" "held h2" "mset c2"] s(6) r(5) s(3)
    by (simp add: same_client_def)
  moreover have "ht_run (op # ops) ht = Some (h2, out # outs, c1 @ c2)" using s(1) r(1) by simp
  moreover have "spec_run (key_eq ht) (op # ops) (ht_map ht) = (ht_map h2, out # outs)" using s(5) r(4) k(2) by simp
  ultimately show ?case using r(2) same_client_trans[OF s(3) r(3)] by blast
qed

section \<open>Iterating\<close>

lemma next_real_slots:
  assumes "sound n ht" "-1 \<le> p"
  shows "next_real ht p = (case filter (\<lambda>i. live (slots ht ! i)) [nat (p + 1)..<ht_size ht] of
     [] \<Rightarrow> max (p + 1) (int (ht_size ht)) | i # _ \<Rightarrow> int i)"
  using assms(2)
proof (induction "nat (int (ht_size ht) - p)" arbitrary: p rule: less_induct)
  case less
  show ?case
  proof (cases "p + 1 \<ge> int (ht_size ht)")
    case True
    then show ?thesis by (subst next_real.simps) auto
  next
    case False
    then have l: "nat (p + 1) < ht_size ht" using less.prems by simp
    have sz: "ht_size ht = 2 ^ n" using assms(1) by (simp add: sound_def shape_def)
    have h: "hashes ht ! nat (p + 1) = fst (slots ht ! nat (p + 1))" using slot_parts(1)[OF assms(1)] l sz by simp
    have n: "nat (p + 1 + 1) = Suc (nat (p + 1))" using less.prems by simp
    show ?thesis
    proof (cases "live (slots ht ! nat (p + 1))")
      case True
      then show ?thesis using l h less.prems by (subst next_real.simps) (simp add: upt_conv_Cons)
    next
      case dead: False
      have "next_real ht (p + 1) = (case filter (\<lambda>i. live (slots ht ! i)) [nat (p + 1 + 1)..<ht_size ht] of
        [] \<Rightarrow> max (p + 1 + 1) (int (ht_size ht)) | i # _ \<Rightarrow> int i)"
        using False less.prems by (intro less.hyps) auto
      then show ?thesis using False dead l h n by (subst next_real.simps) (auto simp: upt_conv_Cons split: list.split)
    qed
  qed
qed

text \<open>The entries that so many calls of the iterator give.\<close>

fun iterate :: "nat \<Rightarrow> RealIter \<Rightarrow> GHashTable \<Rightarrow> (gpointer \<times> gpointer) list" where
  "iterate 0 ri ht = []"
| "iterate (Suc n) ri ht =
     (case g_hash_table_iter_next ri ht of (_, None) \<Rightarrow> [] | (ri', Some e) \<Rightarrow> e # iterate n ri' ht)"

lemma iterate_from:
  assumes s: "sound n ht" and v: "iter_version ri = version ht" and p: "-1 \<le> position ri"
    and f: "length (filter (\<lambda>i. live (slots ht ! i)) [nat (position ri + 1)..<ht_size ht]) \<le> m"
  shows "iterate m ri ht = map (\<lambda>i. entry (slots ht ! i)) (filter (\<lambda>i. live (slots ht ! i)) [nat (position ri + 1)..<ht_size ht])"
  using v p f
proof (induction m arbitrary: ri)
  case (Suc m)
  let ?rest = "filter (\<lambda>i. live (slots ht ! i)) [nat (position ri + 1)..<ht_size ht]"
  note nr = next_real_slots[OF s Suc.prems(2)]
  show ?case
  proof (cases ?rest)
    case Nil
    then show ?thesis using Suc.prems nr by (simp add: g_hash_table_iter_next_def Let_def)
  next
    case (Cons i js)
    then have "i \<in> set ?rest" by simp
    then have i: "nat (position ri + 1) \<le> i" "i < ht_size ht" "live (slots ht ! i)" by auto
    have "js = filter (\<lambda>i. live (slots ht ! i)) [Suc i..<ht_size ht]"
    proof -
      have sp: "[nat (position ri + 1)..<ht_size ht] = [nat (position ri + 1)..<i] @ i # [Suc i..<ht_size ht]"
        using i upt_add_eq_append[of "nat (position ri + 1)" i "ht_size ht - i"] by (simp add: upt_conv_Cons)
      have "filter (\<lambda>i. live (slots ht ! i)) [nat (position ri + 1)..<i] = []"
      proof (rule ccontr)
        assume "filter (\<lambda>i. live (slots ht ! i)) [nat (position ri + 1)..<i] \<noteq> []"
        then obtain j ks where js: "filter (\<lambda>i. live (slots ht ! i)) [nat (position ri + 1)..<i] = j # ks" by (meson neq_Nil_conv)
        then have "j \<in> set (filter (\<lambda>i. live (slots ht ! i)) [nat (position ri + 1)..<i])" by simp
        then have "j < i" by simp
        moreover have "j = i" using Cons sp js by simp
        ultimately show False by simp
      qed
      then show ?thesis using Cons sp i(3) by simp
    qed
    moreover have "position ri < int (ht_size ht)" using i(1,2) Suc.prems(2) by linarith
    moreover have sz: "ht_size ht = 2 ^ n" using s by (simp add: sound_def shape_def)
    moreover have "iterate m (ri\<lparr>position := int i\<rparr>) ht = map (\<lambda>i. entry (slots ht ! i)) (filter (\<lambda>i. live (slots ht ! i)) [Suc i..<ht_size ht])"
      using Suc.IH[of "ri\<lparr>position := int i\<rparr>"] Suc.prems Cons calculation(1) by (simp add: nat_add_distrib)
    ultimately show ?thesis using Cons nr Suc.prems i slot_parts[OF s, of i]
      by (simp add: g_hash_table_iter_next_def Let_def)
  qed
next
  case 0
  then show ?case by simp
qed

section \<open>Properties\<close>

lemma new_client:
  "same_client (g_hash_table_new_full (Some hash) eq kd vd) ht \<Longrightarrow>
     hash_func ht = hash \<and> key_equal_func ht = eq \<and> key_destroy_func ht = kd \<and> value_destroy_func ht = vd"
  by (simp add: same_client_def g_hash_table_new_full_def Let_def fresh_arrays_def g_hash_table_set_shift_def)

lemma new_keys:
  "keys_ok (g_hash_table_new_full (Some hash) (Some eq) kd vd) = hash_keys hash eq"
  "key_eq (g_hash_table_new_full (Some hash) (Some eq) kd vd) = eq"
  "key_destroy_func (g_hash_table_new_full (Some hash) (Some eq) kd vd) = kd"
  "value_destroy_func (g_hash_table_new_full (Some hash) (Some eq) kd vd) = vd"
  using new_client[of hash "Some eq" kd vd "g_hash_table_new_full (Some hash) (Some eq) kd vd"]
  by (simp_all add: same_client_def keys_ok_def key_eq_def)

text \<open>
  C27: A hash table is a map: every sequence of fewer than 2^29 insertions, replacements, removals, clearings and
  lookups on a new table returns, with the results of the map whose keys are taken up to the comparison function,
  and the table then holds what the map does; whatever the hash function, as long as equal keys hash alike.
\<close>
theorem hash_table_refines_map:
  assumes "hash_keys hash eq" and "length ops < 2 ^ 29"
  shows "\<exists>ht outs calls. ht_run ops (g_hash_table_new_full (Some hash) (Some eq) kd vd) = Some (ht, outs, calls) \<and>
    spec_run eq ops Map.empty = (ht_map ht, outs)"
proof -
  let ?new = "g_hash_table_new_full (Some hash) (Some eq) kd vd"
  have "int (length ops) < 2 ^ 29" using assms(2) by simp
  then show ?thesis
    using ht_run_ok[of ?new ops] assms(1) new_table_ok[of "Some hash" "Some eq" kd vd] new_keys[of hash eq kd vd] by auto
qed

theorem hash_table_refines_map_witness:
  "\<exists>ht calls. ht_run [Insert 5 1, Insert 0x100000005 2, Lookup 5, Insert 5 3, Remove 0x100000005, Lookup 5, Lookup 0x100000005]
     (g_hash_table_new_full (Some g_direct_hash) (Some g_direct_equal) False False) =
     Some (ht, [Flag True, Flag True, Found (Some (5, 1)), Flag False, Flag True, Found (Some (5, 3)), Found None], calls)"
proof -
  let ?ops = "[Insert 5 1, Insert 0x100000005 2, Lookup 5, Insert 5 3, Remove 0x100000005, Lookup 5, Lookup 0x100000005]"
  have "snd (spec_run g_direct_equal ?ops Map.empty) =
    [Flag True, Flag True, Found (Some (5, 1)), Flag False, Flag True, Found (Some (5, 3)), Found None]"
    by (simp add: key_put_def kept_def g_direct_equal_def)
  then show ?thesis
    using hash_table_refines_map[OF direct.hash_keys_axioms, of ?ops False False] by fastforce
qed

text \<open>
  C28: The loops of a table end: probing gets to every slot, and a table that keeps its load always has an unused
  one, so that a lookup of any key returns a slot of the table; and resizing finds room for every node, as long as
  there are fewer than 2^29.
\<close>
theorem hash_table_loops_end:
  assumes "keys_ok ht" "ht_ok ht" "nnodes ht < 2 ^ 29"
  shows "(\<exists>i h. g_hash_table_lookup_node ht key = Some (i, h) \<and> unat i < ht_size ht) \<and>
    (\<exists>ht'. g_hash_table_resize ht = Some ht' \<and> ht_ok ht') \<and> (\<exists>ht'. g_hash_table_maybe_resize ht = Some ht' \<and> ht_ok ht')"
proof -
  from assms(2) obtain n where s: "sound n ht" "load_ok ht" by (auto simp: ht_ok_def)
  have "ht_size ht = 2 ^ n" using s(1) by (simp add: sound_def shape_def)
  then have "\<exists>i h. g_hash_table_lookup_node ht key = Some (i, h) \<and> unat i < ht_size ht"
    using lookup_node[OF assms(1) s, of key] by auto
  moreover have "\<exists>ht'. g_hash_table_resize ht = Some ht' \<and> ht_ok ht'"
    using resize_ok[of n "ht_mod ht" ht] s(1) keys_okE[OF assms(1)] assms(3) by (auto simp: sound_def)
  moreover have "\<exists>ht'. g_hash_table_maybe_resize ht = Some ht' \<and> ht_ok ht'"
    using maybe_resize_ok[OF s(1) assms(3)] keys_okE[OF assms(1)] by blast
  ultimately show ?thesis by blast
qed

theorem hash_table_loops_end_witness:
  "\<exists>i h. g_hash_table_lookup_node (g_hash_table_new_full (Some (\<lambda>_. 7)) (Some g_direct_equal) True True) 9 = Some (i, h)"
proof -
  have "hash_keys (\<lambda>_. 7) g_direct_equal" by unfold_locales (auto simp: g_direct_equal_def)
  then show ?thesis
    using hash_table_loops_end[of "g_hash_table_new_full (Some (\<lambda>_. 7)) (Some g_direct_equal) True True" 9] new_table_ok new_keys by simp blast
qed

text \<open>
  C29: Nothing is leaked and nothing destroyed twice: with both destroy functions given and no key stolen, the
  pointers handed to a table are those it holds and those it has destroyed; and once the table is destroyed every
  key and every value has been destroyed exactly as often as it was handed over.
\<close>
theorem hash_table_destroys_once:
  assumes "hash_keys hash eq" and "length ops < 2 ^ 29" and "\<not> list_ex steals ops"
  shows "\<exists>ht outs calls. ht_run ops (g_hash_table_new_full (Some hash) (Some eq) True True) = Some (ht, outs, calls) \<and>
    held ht + mset calls = mset (concat (map given ops)) \<and>
    (\<exists>r calls'. g_hash_table_destroy ht = Some (r, calls') \<and> mset (calls @ calls') = mset (concat (map given ops)))"
proof -
  let ?new = "g_hash_table_new_full (Some hash) (Some eq) True True"
  have l: "int (length ops) < 2 ^ 29" using assms(2) by simp
  note new = new_table_ok[of "Some hash" "Some eq" True True] new_keys[of hash eq True True]
  have "held ?new = {#}" using new(3) by (simp add: held_def)
  with ht_run_ok[of ?new ops] assms l new obtain ht outs calls where r:
    "ht_run ops ?new = Some (ht, outs, calls)" "ht_ok ht" "same_client ?new ht" "held ht + mset calls = mset (concat (map given ops))"
    by auto
  have k: "keys_ok ht" using same_client_keys[OF r(3)] assms(1) new by simp
  have "nnodes ht < 2 ^ 29"
  proof -
    have "size (\<Sum>e\<in>#M. {#Key (fst e), Value (snd e)#}) = 2 * size M" for M :: "(gpointer \<times> gpointer) multiset"
      by (induction M) simp_all
    then have "size (held ht) = 2 * length (entries (slots ht))" by (simp add: held_def)
    moreover have "size (held ht) \<le> 2 * length ops"
    proof -
      have "size (mset (concat (map given ops))) \<le> 2 * length ops"
      proof (induction ops)
        case (Cons op ops)
        have "length (given op) \<le> 2" by (cases op) simp_all
        with Cons show ?case by simp
      qed simp
      then show ?thesis using arg_cong[OF r(4), of size] by simp
    qed
    ultimately show ?thesis using ht_ok_entries[OF r(2)] l by linarith
  qed
  from remove_all_ok[OF k r(2) this, of True] obtain ht' where h':
    "remove_or_steal_all ht True = Some (ht', destroy_all ht (entries (slots ht)))" "nnodes ht' = 0" by auto
  have "snd (g_hash_table_unref ht') = []" using h'(2) by (simp add: g_hash_table_unref_def Let_def g_hash_table_remove_all_nodes_def)
  then have d: "g_hash_table_destroy ht = Some (fst (g_hash_table_unref ht'), destroy_all ht (entries (slots ht)))"
    using h'(1) by (simp add: g_hash_table_destroy_def g_hash_table_remove_all_def split_beta)
  have f: "key_destroy_func ht" "value_destroy_func ht" using new_client[OF r(3)] by simp_all
  have "mset (destroy_all ht es) = (\<Sum>e\<in>#mset es. {#Key (fst e), Value (snd e)#})" for es
    using f by (induction es) (simp_all add: destroy_all_def destroy_calls_def)
  then have "mset (calls @ destroy_all ht (entries (slots ht))) = mset (concat (map given ops))"
    using r(4) by (simp add: held_def ac_simps)
  with r d show ?thesis by blast
qed

theorem hash_table_destroys_once_witness:
  "\<exists>ht outs calls. ht_run [Insert 5 1, Replace 5 2, Add 7] (g_hash_table_new_full (Some g_direct_hash) (Some g_direct_equal) True True) =
     Some (ht, outs, calls) \<and> held ht + mset calls = {#Key 5, Value 1, Key 5, Value 2, Key 7, Value 7#}"
  using hash_table_destroys_once[OF direct.hash_keys_axioms, of "[Insert 5 1, Replace 5 2, Add 7]"] by simp blast

text \<open>
  C30: An iterator visits every entry of the table once and then ends, in the order in which the keys are listed,
  and what it visits is what the map holds; listing the keys never fails its assertion.
\<close>
theorem hash_table_iteration:
  assumes "keys_ok ht" "ht_ok ht" "nnodes ht \<le> int m"
  shows "distinct (iterate m (g_hash_table_iter_init ht) ht) \<and>
    (e \<in> set (iterate m (g_hash_table_iter_init ht) ht) \<longleftrightarrow> ht_map ht (fst e) = Some e) \<and>
    g_hash_table_get_keys_as_array ht =
      Some (map fst (iterate m (g_hash_table_iter_init ht) ht) @ [NULL], length (iterate m (g_hash_table_iter_init ht) ht)) \<and>
    g_hash_table_get_keys ht = rev (map fst (iterate m (g_hash_table_iter_init ht) ht))"
proof -
  from assms(2) obtain n where s: "sound n ht" by (auto simp: ht_ok_def)
  have sz: "ht_size ht = 2 ^ n" using s by (simp add: sound_def shape_def)
  have e: "entries (slots ht) = map (\<lambda>i. entry (slots ht ! i)) (filter (\<lambda>i. live (slots ht ! i)) [0..<ht_size ht])"
    by (simp add: entries_index)
  have "length (filter (\<lambda>i. live (slots ht ! i)) [0..<ht_size ht]) = length (entries (slots ht))" by (simp add: e)
  then have it: "iterate m (g_hash_table_iter_init ht) ht = entries (slots ht)"
    unfolding e using assms(3) ht_ok_entries[OF assms(2)]
    by (subst iterate_from[OF s]) (simp_all add: g_hash_table_iter_init_def entries_index)
  have rn: "real_nodes ht = filter (\<lambda>i. live (slots ht ! i)) [0..<ht_size ht]"
    unfolding real_nodes_def using slot_parts(1)[OF s] sz by (intro filter_cong) simp_all
  have "map (\<lambda>i. keys ht ! i) (real_nodes ht) = map fst (entries (slots ht))"
    unfolding rn e using slot_parts(2)[OF s] sz by simp
  moreover have "fold (\<lambda>i r. f i # r) is acc = rev (map f is) @ acc" for f :: "nat \<Rightarrow> gpointer" and "is" acc
    by (induction "is" arbitrary: acc) simp_all
  moreover have "int (length (entries (slots ht))) = nnodes ht" using ht_ok_entries[OF assms(2)] by simp
  moreover note u = entries_ok[OF assms(1) s]
  have "e \<in> set (entries (slots ht)) \<longleftrightarrow> ht_map ht (fst e) = Some e"
    using hash_keys.find_key_iff[OF keys_okD[OF assms(1)] u, of "fst e" e] hash_keys.refl[OF keys_okD[OF assms(1)]]
    by (simp add: ht_map_def)
  ultimately show ?thesis unfolding it using u
    by (simp add: g_hash_table_get_keys_as_array_def g_hash_table_get_keys_def key_uniq_def)
qed

theorem hash_table_iteration_witness:
  "\<exists>ht outs calls m. ht_run [Insert 5 1, Insert 6 2, Remove 5] (g_hash_table_new_full (Some g_direct_hash) (Some g_direct_equal) True True) =
     Some (ht, outs, calls) \<and> set (iterate m (g_hash_table_iter_init ht) ht) = {(6, 2)}"
proof -
  let ?new = "g_hash_table_new_full (Some g_direct_hash) (Some g_direct_equal) True True" and ?ops = "[Insert 5 1, Insert 6 2, Remove 5]"
  from ht_run_ok[of ?new ?ops] obtain ht outs calls where
    r: "ht_run ?ops ?new = Some (ht, outs, calls)" "ht_ok ht" "same_client ?new ht" "spec_run g_direct_equal ?ops Map.empty = (ht_map ht, outs)"
    using new_table_ok new_keys direct.hash_keys_axioms by auto
  have k: "keys_ok ht" using same_client_keys[OF r(3)] new_keys direct.hash_keys_axioms by simp
  have m: "ht_map ht l = (if l = 6 then Some (6, 2) else None)" for l
  proof -
    have e: "ht_map ht = fst (spec_run g_direct_equal ?ops Map.empty)" unfolding r(4) by simp
    show ?thesis unfolding e by (simp add: key_put_def kept_def g_direct_equal_def)
  qed
  have "nnodes ht \<le> int (nat (nnodes ht))" by simp
  from hash_table_iteration[OF k r(2) this] have "set (iterate (nat (nnodes ht)) (g_hash_table_iter_init ht) ht) = {(6, 2)}"
    by (auto simp: m split: if_splits)
  with r(1) show ?thesis by blast
qed

end
