(* ===== verification/Glib_Tree.thy ===== *)
theory Glib_Tree
  imports Glib_Types "HOL-Library.Monad_Syntax"
begin

text \<open>
  Balanced binary trees (\<open>gtree.c\<close>): AVL trees whose empty child pointers are threads to the
  neighbours in key order. The nodes live in a heap, a map from their addresses; a function takes the heap and
  returns the new one. The comparison is a member of the tree, with \<open>key_compare_data\<close> applied. The address
  that \<open>g_slice_new\<close> gives is an argument of the functions that allocate. \<open>None\<close> stands for
  not going on: a dereference of a pointer to no node, a store past the end of \<open>path\<close>, a failed
  assertion, or a loop without an end.
\<close>

definition MAX_GTREE_HEIGHT :: nat where
  "MAX_GTREE_HEIGHT = 40"

record GTree =
  root :: gpointer
  key_compare :: "gpointer \<Rightarrow> gpointer \<Rightarrow> int"
  key_destroy_func :: bool
  value_destroy_func :: bool
  nnodes :: u32
  ref_count :: int

record GTreeNode =
  n_key :: gpointer
  n_value :: gpointer
  n_left :: gpointer
  n_right :: gpointer
  n_balance :: int
  n_left_child :: bool
  n_right_child :: bool

type_synonym gheap = "gpointer \<Rightarrow> GTreeNode option"

text \<open>A \<open>gint8\<close> keeps a stored number only modulo 256.\<close>

definition gint8 :: "int \<Rightarrow> int" where
  "gint8 i = (i + 128) mod 256 - 128"

text \<open>A store through a pointer to a node.\<close>

definition set_node :: "gheap \<Rightarrow> gpointer \<Rightarrow> (GTreeNode \<Rightarrow> GTreeNode) \<Rightarrow> gheap option" where
  "set_node h p f = map_option (\<lambda>n. h(p \<mapsto> f n)) (h p)"

definition set_path :: "gpointer list \<Rightarrow> nat \<Rightarrow> gpointer \<Rightarrow> gpointer list option" where
  "set_path path i p = (if i < length path then Some (path[i := p]) else None)"

section \<open>New trees\<close>

definition g_tree_node_new :: "gheap \<Rightarrow> gpointer \<Rightarrow> gpointer \<Rightarrow> gpointer \<Rightarrow> gheap" where
  "g_tree_node_new h addr key val =
     h(addr \<mapsto> \<lparr>n_key = key, n_value = val, n_left = NULL, n_right = NULL, n_balance = 0,
                  n_left_child = False, n_right_child = False\<rparr>)"

definition g_tree_new_full :: "(gpointer \<Rightarrow> gpointer \<Rightarrow> int) \<Rightarrow> bool \<Rightarrow> bool \<Rightarrow> GTree" where
  "g_tree_new_full compare kd vd =
     \<lparr>root = NULL, key_compare = compare, key_destroy_func = kd, value_destroy_func = vd, nnodes = 0, ref_count = 1\<rparr>"

definition g_tree_new :: "(gpointer \<Rightarrow> gpointer \<Rightarrow> int) \<Rightarrow> GTree" where
  "g_tree_new compare = g_tree_new_full compare False False"

definition g_tree_new_with_data :: "(gpointer \<Rightarrow> gpointer \<Rightarrow> gpointer \<Rightarrow> int) \<Rightarrow> gpointer \<Rightarrow> GTree" where
  "g_tree_new_with_data compare data = g_tree_new_full (\<lambda>a b. compare a b data) False False"

section \<open>Walking the nodes in key order\<close>

partial_function (option) leftmost :: "gheap \<Rightarrow> gpointer \<Rightarrow> gpointer option" where
  [code]: "leftmost h tmp = do { n \<leftarrow> h tmp; if n_left_child n then leftmost h (n_left n) else Some tmp }"

partial_function (option) rightmost :: "gheap \<Rightarrow> gpointer \<Rightarrow> gpointer option" where
  [code]: "rightmost h tmp = do { n \<leftarrow> h tmp; if n_right_child n then rightmost h (n_right n) else Some tmp }"

definition g_tree_first_node :: "gheap \<Rightarrow> GTree \<Rightarrow> gpointer option" where
  "g_tree_first_node h tree = (if root tree = NULL then Some NULL else leftmost h (root tree))"

definition g_tree_node_previous :: "gheap \<Rightarrow> gpointer \<Rightarrow> gpointer option" where
  "g_tree_node_previous h node =
     do { n \<leftarrow> h node; if n_left_child n then rightmost h (n_left n) else Some (n_left n) }"

definition g_tree_node_next :: "gheap \<Rightarrow> gpointer \<Rightarrow> gpointer option" where
  "g_tree_node_next h node =
     do { n \<leftarrow> h node; if n_right_child n then leftmost h (n_right n) else Some (n_right n) }"

section \<open>Rotations\<close>

definition g_tree_node_rotate_left :: "gheap \<Rightarrow> gpointer \<Rightarrow> (gheap \<times> gpointer) option" where
  "g_tree_node_rotate_left h node = do {
     n \<leftarrow> h node;
     let right = n_right n;
     rn \<leftarrow> h right;
     h \<leftarrow> (if n_left_child rn then set_node h node (n_right_update (\<lambda>_. n_left rn))
           else do { h \<leftarrow> set_node h node (n_right_child_update (\<lambda>_. False));
                     set_node h right (n_left_child_update (\<lambda>_. True)) });
     h \<leftarrow> set_node h right (n_left_update (\<lambda>_. node));
     let a_bal = n_balance n;
     let b_bal = n_balance rn;
     let (right_bal, node_bal) =
       (if b_bal \<le> 0 then (if a_bal \<ge> 1 then b_bal - 1 else a_bal + b_bal - 2, a_bal - 1)
        else (if a_bal \<le> b_bal then a_bal - 2 else b_bal - 1, a_bal - b_bal - 1));
     h \<leftarrow> set_node h right (n_balance_update (\<lambda>_. gint8 right_bal));
     h \<leftarrow> set_node h node (n_balance_update (\<lambda>_. gint8 node_bal));
     Some (h, right) }"

definition g_tree_node_rotate_right :: "gheap \<Rightarrow> gpointer \<Rightarrow> (gheap \<times> gpointer) option" where
  "g_tree_node_rotate_right h node = do {
     n \<leftarrow> h node;
     let left = n_left n;
     ln \<leftarrow> h left;
     h \<leftarrow> (if n_right_child ln then set_node h node (n_left_update (\<lambda>_. n_right ln))
           else do { h \<leftarrow> set_node h node (n_left_child_update (\<lambda>_. False));
                     set_node h left (n_right_child_update (\<lambda>_. True)) });
     h \<leftarrow> set_node h left (n_right_update (\<lambda>_. node));
     let a_bal = n_balance n;
     let b_bal = n_balance ln;
     let (left_bal, node_bal) =
       (if b_bal \<le> 0 then (if b_bal > a_bal then b_bal + 1 else a_bal + 2, a_bal - b_bal + 1)
        else (if a_bal \<le> -1 then b_bal + 1 else a_bal + b_bal + 2, a_bal + 1));
     h \<leftarrow> set_node h left (n_balance_update (\<lambda>_. gint8 left_bal));
     h \<leftarrow> set_node h node (n_balance_update (\<lambda>_. gint8 node_bal));
     Some (h, left) }"

definition g_tree_node_balance :: "gheap \<Rightarrow> gpointer \<Rightarrow> (gheap \<times> gpointer) option" where
  "g_tree_node_balance h node = do {
     n \<leftarrow> h node;
     if n_balance n < -1 then do {
       ln \<leftarrow> h (n_left n);
       h \<leftarrow> (if n_balance ln > 0
             then do { (h, p) \<leftarrow> g_tree_node_rotate_left h (n_left n); set_node h node (n_left_update (\<lambda>_. p)) }
             else Some h);
       g_tree_node_rotate_right h node }
     else if n_balance n > 1 then do {
       rn \<leftarrow> h (n_right n);
       h \<leftarrow> (if n_balance rn < 0
             then do { (h, p) \<leftarrow> g_tree_node_rotate_right h (n_right n); set_node h node (n_right_update (\<lambda>_. p)) }
             else Some h);
       g_tree_node_rotate_left h node }
     else Some (h, node) }"

section \<open>The way down\<close>

text \<open>
  The loop of insertion and removal, up to the node where it leaves it: the node with the key, or
  one without a child on the side of the key. The nodes above are pushed on \<open>path\<close>.
\<close>

partial_function (option) walk ::
    "(gpointer \<Rightarrow> gpointer \<Rightarrow> int) \<Rightarrow> gheap \<Rightarrow> gpointer \<Rightarrow> gpointer list \<Rightarrow> nat \<Rightarrow> gpointer \<Rightarrow>
     (gpointer list \<times> nat \<times> gpointer \<times> int) option" where
  [code]: "walk compare h key path idx node = do {
     n \<leftarrow> h node;
     let cmp = compare key (n_key n);
     if cmp < 0 \<and> n_left_child n then do {
       path \<leftarrow> set_path path idx node;
       walk compare h key path (idx + 1) (n_left n) }
     else if cmp > 0 \<and> n_right_child n then do {
       path \<leftarrow> set_path path idx node;
       walk compare h key path (idx + 1) (n_right n) }
     else Some (path, idx, node, cmp) }"

text \<open>The array \<open>path\<close> with \<open>NULL\<close> pushed; the other elements are not initialised.\<close>

definition new_path :: "gpointer list" where
  "new_path = replicate MAX_GTREE_HEIGHT NULL"

section \<open>Restoring the balance\<close>

text \<open>The child pointer of \<open>bparent\<close>, or the root, is set.\<close>

definition set_child :: "gheap \<Rightarrow> GTree \<Rightarrow> gpointer \<Rightarrow> bool \<Rightarrow> gpointer \<Rightarrow> (gheap \<times> GTree) option" where
  "set_child h tree bparent left_node node =
     (if bparent = NULL then Some (h, tree\<lparr>root := node\<rparr>)
      else map_option (\<lambda>h. (h, tree))
             (set_node h bparent (if left_node then n_left_update (\<lambda>_. node) else n_right_update (\<lambda>_. node))))"

text \<open>Whether a node is the left child of its parent, with the assertion that it is a child.\<close>

definition is_left_node :: "gheap \<Rightarrow> gpointer \<Rightarrow> gpointer \<Rightarrow> bool option" where
  "is_left_node h bparent node =
     (if bparent = NULL then Some False
      else do { b \<leftarrow> h bparent;
                if n_left b = node \<or> n_right b = node then Some (node = n_left b) else None })"

definition balance_and_set :: "gheap \<Rightarrow> GTree \<Rightarrow> gpointer \<Rightarrow> bool \<Rightarrow> gpointer \<Rightarrow> (gheap \<times> GTree \<times> gpointer) option" where
  "balance_and_set h tree bparent left_node node = do {
     n \<leftarrow> h node;
     if n_balance n < -1 \<or> n_balance n > 1 then do {
       (h, node) \<leftarrow> g_tree_node_balance h node;
       (h, tree) \<leftarrow> set_child h tree bparent left_node node;
       Some (h, tree, node) }
     else Some (h, tree, node) }"

definition add_balance :: "gheap \<Rightarrow> gpointer \<Rightarrow> int \<Rightarrow> gheap option" where
  "add_balance h p i = set_node h p (\<lambda>n. n\<lparr>n_balance := gint8 (n_balance n + i)\<rparr>)"

fun insert_balance :: "gheap \<Rightarrow> GTree \<Rightarrow> gpointer list \<Rightarrow> nat \<Rightarrow> gpointer \<Rightarrow> (gheap \<times> GTree) option" where
  "insert_balance h tree path 0 node = None"
| "insert_balance h tree path (Suc idx) node = do {
     let bparent = path ! idx;
     left_node \<leftarrow> is_left_node h bparent node;
     (h, tree, node) \<leftarrow> balance_and_set h tree bparent left_node node;
     n \<leftarrow> h node;
     if n_balance n = 0 \<or> bparent = NULL then Some (h, tree)
     else do {
       h \<leftarrow> add_balance h bparent (if left_node then -1 else 1);
       insert_balance h tree path idx bparent } }"

fun remove_balance :: "gheap \<Rightarrow> GTree \<Rightarrow> gpointer list \<Rightarrow> nat \<Rightarrow> gpointer \<Rightarrow> (gheap \<times> GTree) option" where
  "remove_balance h tree path 0 node = None"
| "remove_balance h tree path (Suc idx) node = do {
     let bparent = path ! idx;
     left_node \<leftarrow> is_left_node h bparent node;
     (h, tree, node) \<leftarrow> balance_and_set h tree bparent left_node node;
     n \<leftarrow> h node;
     if n_balance n \<noteq> 0 \<or> bparent = NULL then Some (h, tree)
     else do {
       h \<leftarrow> add_balance h bparent (if left_node then 1 else -1);
       remove_balance h tree path idx bparent } }"

section \<open>Inserting\<close>

definition call_destroy :: "GTree \<Rightarrow> destroyed list \<Rightarrow> destroyed list" where
  "call_destroy tree = filter (\<lambda>c. case c of Key _ \<Rightarrow> key_destroy_func tree | Value _ \<Rightarrow> value_destroy_func tree)"

definition insert_left :: "gheap \<Rightarrow> gpointer \<Rightarrow> gpointer \<Rightarrow> gpointer \<Rightarrow> gpointer \<Rightarrow> gheap option" where
  "insert_left h child key val node = do {
     let h = g_tree_node_new h child key val;
     n \<leftarrow> h node;
     h \<leftarrow> set_node h child (n_left_update (\<lambda>_. n_left n));
     h \<leftarrow> set_node h child (n_right_update (\<lambda>_. node));
     h \<leftarrow> set_node h node (\<lambda>n. n\<lparr>n_left := child, n_left_child := True\<rparr>);
     add_balance h node (-1) }"

definition insert_right :: "gheap \<Rightarrow> gpointer \<Rightarrow> gpointer \<Rightarrow> gpointer \<Rightarrow> gpointer \<Rightarrow> gheap option" where
  "insert_right h child key val node = do {
     let h = g_tree_node_new h child key val;
     n \<leftarrow> h node;
     h \<leftarrow> set_node h child (n_right_update (\<lambda>_. n_right n));
     h \<leftarrow> set_node h child (n_left_update (\<lambda>_. node));
     h \<leftarrow> set_node h node (\<lambda>n. n\<lparr>n_right := child, n_right_child := True\<rparr>);
     add_balance h node 1 }"

definition g_tree_insert_internal ::
    "gheap \<Rightarrow> GTree \<Rightarrow> gpointer \<Rightarrow> gpointer \<Rightarrow> gpointer \<Rightarrow> bool \<Rightarrow> (gheap \<times> GTree \<times> destroyed list) option" where
  "g_tree_insert_internal h tree addr key val replace =
     (if root tree = NULL
      then Some (g_tree_node_new h addr key val, tree\<lparr>root := addr, nnodes := nnodes tree + 1\<rparr>, [])
      else do {
        (path, idx, node, cmp) \<leftarrow> walk (key_compare tree) h key new_path 1 (root tree);
        if cmp = 0 then do {
          n \<leftarrow> h node;
          h \<leftarrow> set_node h node (n_value_update (\<lambda>_. val));
          if replace then do {
            h \<leftarrow> set_node h node (n_key_update (\<lambda>_. key));
            Some (h, tree, call_destroy tree [Value (n_value n), Key (n_key n)]) }
          else Some (h, tree, call_destroy tree [Value (n_value n), Key key]) }
        else do {
          h \<leftarrow> (if cmp < 0 then insert_left else insert_right) h addr key val node;
          (h, tree) \<leftarrow> insert_balance h (tree\<lparr>nnodes := nnodes tree + 1\<rparr>) path idx node;
          Some (h, tree, []) } })"

definition g_tree_insert ::
    "gheap \<Rightarrow> GTree \<Rightarrow> gpointer \<Rightarrow> gpointer \<Rightarrow> gpointer \<Rightarrow> (gheap \<times> GTree \<times> destroyed list) option" where
  "g_tree_insert h tree addr key val = g_tree_insert_internal h tree addr key val False"

definition g_tree_replace ::
    "gheap \<Rightarrow> GTree \<Rightarrow> gpointer \<Rightarrow> gpointer \<Rightarrow> gpointer \<Rightarrow> (gheap \<times> GTree \<times> destroyed list) option" where
  "g_tree_replace h tree addr key val = g_tree_insert_internal h tree addr key val True"


section \<open>Removing\<close>

text \<open>
  A node that has not both children is replaced by its only child, or by nothing: \<open>parent\<close> gets the pointer and
  loses one level on that side. The node whose thread led to the removed one gets its thread.
\<close>

definition set_child_shrunk :: "gheap \<Rightarrow> GTree \<Rightarrow> gpointer \<Rightarrow> bool \<Rightarrow> gpointer \<Rightarrow> (gheap \<times> GTree) option" where
  "set_child_shrunk h tree parent left_node child = do {
     (h, tree) \<leftarrow> set_child h tree parent left_node child;
     if parent = NULL then Some (h, tree)
     else map_option (\<lambda>h. (h, tree)) (add_balance h parent (if left_node then 1 else -1)) }"

definition remove_leaf :: "gheap \<Rightarrow> GTree \<Rightarrow> gpointer \<Rightarrow> bool \<Rightarrow> gpointer \<Rightarrow> (gheap \<times> GTree) option" where
  "remove_leaf h tree parent left_node node = do {
     n \<leftarrow> h node;
     if parent = NULL then Some (h, tree\<lparr>root := NULL\<rparr>)
     else do {
       h \<leftarrow> set_node h parent (if left_node then n_left_child_update (\<lambda>_. False) else n_right_child_update (\<lambda>_. False));
       set_child_shrunk h tree parent left_node (if left_node then n_left n else n_right n) } }"

definition remove_with_right :: "gheap \<Rightarrow> GTree \<Rightarrow> gpointer \<Rightarrow> bool \<Rightarrow> gpointer \<Rightarrow> (gheap \<times> GTree) option" where
  "remove_with_right h tree parent left_node node = do {
     n \<leftarrow> h node;
     tmp \<leftarrow> g_tree_node_next h node;
     h \<leftarrow> set_node h tmp (n_left_update (\<lambda>_. n_left n));
     set_child_shrunk h tree parent left_node (n_right n) }"

definition remove_with_left :: "gheap \<Rightarrow> GTree \<Rightarrow> gpointer \<Rightarrow> bool \<Rightarrow> gpointer \<Rightarrow> (gheap \<times> GTree) option" where
  "remove_with_left h tree parent left_node node = do {
     n \<leftarrow> h node;
     tmp \<leftarrow> g_tree_node_previous h node;
     h \<leftarrow> set_node h tmp (n_right_update (\<lambda>_. n_right n));
     set_child_shrunk h tree parent left_node (n_left n) }"

text \<open>The node after the removed one, with its parent; the path to it is pushed.\<close>

partial_function (option) find_next ::
    "gheap \<Rightarrow> gpointer list \<Rightarrow> nat \<Rightarrow> gpointer \<Rightarrow> gpointer \<Rightarrow> (gpointer list \<times> nat \<times> gpointer \<times> gpointer) option" where
  [code]: "find_next h path idx nextp next = do {
     n \<leftarrow> h next;
     if n_left_child n then do {
       path \<leftarrow> set_path path (idx + 1) next;
       find_next h path (idx + 1) next (n_left n) }
     else Some (path, idx, nextp, next) }"

text \<open>The node after the removed one leaves its place.\<close>

definition unlink_next :: "gheap \<Rightarrow> gpointer \<Rightarrow> gpointer \<Rightarrow> gpointer \<Rightarrow> gheap option" where
  "unlink_next h node nextp next =
     (if nextp \<noteq> node then do {
        nn \<leftarrow> h next;
        h \<leftarrow> (if n_right_child nn then set_node h nextp (n_left_update (\<lambda>_. n_right nn))
              else set_node h nextp (n_left_child_update (\<lambda>_. False)));
        h \<leftarrow> add_balance h nextp 1;
        h \<leftarrow> set_node h next (n_right_child_update (\<lambda>_. True));
        n \<leftarrow> h node;
        set_node h next (n_right_update (\<lambda>_. n_right n)) }
      else add_balance h node (-1))"

definition remove_with_both ::
    "gheap \<Rightarrow> GTree \<Rightarrow> gpointer list \<Rightarrow> nat \<Rightarrow> gpointer \<Rightarrow> bool \<Rightarrow> gpointer \<Rightarrow>
     (gheap \<times> GTree \<times> gpointer list \<times> nat \<times> gpointer) option" where
  "remove_with_both h tree path idx parent left_node node = do {
     n \<leftarrow> h node;
     let prev = n_left n;
     let old_idx = idx + 1;
     let idx = idx + 1;
     (path, idx, nextp, next) \<leftarrow> find_next h path idx node (n_right n);
     path \<leftarrow> set_path path old_idx next;
     let balance = path ! idx;
     h \<leftarrow> unlink_next h node nextp next;
     prev \<leftarrow> rightmost h prev;
     h \<leftarrow> set_node h prev (n_right_update (\<lambda>_. next));
     h \<leftarrow> set_node h next (n_left_child_update (\<lambda>_. True));
     n \<leftarrow> h node;
     h \<leftarrow> set_node h next (\<lambda>nn. nn\<lparr>n_left := n_left n, n_balance := n_balance n\<rparr>);
     (h, tree) \<leftarrow> set_child h tree parent left_node next;
     Some (h, tree, path, idx, balance) }"

definition remove_node ::
    "gheap \<Rightarrow> GTree \<Rightarrow> gpointer list \<Rightarrow> nat \<Rightarrow> gpointer \<Rightarrow> (gheap \<times> GTree \<times> gpointer list \<times> nat \<times> gpointer) option" where
  "remove_node h tree path idx node = do {
     let parent = path ! idx;
     left_node \<leftarrow> is_left_node h parent node;
     n \<leftarrow> h node;
     if n_left_child n \<and> n_right_child n then remove_with_both h tree path idx parent left_node node
     else do {
       (h, tree) \<leftarrow> (if n_left_child n then remove_with_left else if n_right_child n then remove_with_right
                     else remove_leaf) h tree parent left_node node;
       Some (h, tree, path, idx, parent) } }"

definition g_tree_remove_internal ::
    "gheap \<Rightarrow> GTree \<Rightarrow> gpointer \<Rightarrow> bool \<Rightarrow> (gheap \<times> GTree \<times> bool \<times> destroyed list) option" where
  "g_tree_remove_internal h tree key steal =
     (if root tree = NULL then Some (h, tree, False, [])
      else do {
        (path, idx, node, cmp) \<leftarrow> walk (key_compare tree) h key new_path 1 (root tree);
        if cmp \<noteq> 0 then Some (h, tree, False, [])
        else do {
          (h, tree, path, idx, balance) \<leftarrow> remove_node h tree path (idx - 1) node;
          (h, tree) \<leftarrow> (if balance = NULL then Some (h, tree) else remove_balance h tree path idx balance);
          n \<leftarrow> h node;
          let calls = (if steal then [] else call_destroy tree [Key (n_key n), Value (n_value n)]);
          Some (h(node := None), tree\<lparr>nnodes := nnodes tree - 1\<rparr>, True, calls) } })"

definition g_tree_remove :: "gheap \<Rightarrow> GTree \<Rightarrow> gpointer \<Rightarrow> (gheap \<times> GTree \<times> bool \<times> destroyed list) option" where
  "g_tree_remove h tree key = g_tree_remove_internal h tree key False"

definition g_tree_steal :: "gheap \<Rightarrow> GTree \<Rightarrow> gpointer \<Rightarrow> (gheap \<times> GTree \<times> bool \<times> destroyed list) option" where
  "g_tree_steal h tree key = g_tree_remove_internal h tree key True"

partial_function (option) remove_all_nodes :: "gheap \<Rightarrow> GTree \<Rightarrow> gpointer \<Rightarrow> destroyed list \<Rightarrow> (gheap \<times> destroyed list) option" where
  [code]: "remove_all_nodes h tree node calls =
     (if node = NULL then Some (h, calls)
      else do {
        next \<leftarrow> g_tree_node_next h node;
        n \<leftarrow> h node;
        remove_all_nodes (h(node := None)) tree next (calls @ call_destroy tree [Key (n_key n), Value (n_value n)]) })"

definition g_tree_remove_all :: "gheap \<Rightarrow> GTree \<Rightarrow> (gheap \<times> GTree \<times> destroyed list) option" where
  "g_tree_remove_all h tree = do {
     node \<leftarrow> g_tree_first_node h tree;
     (h, calls) \<leftarrow> remove_all_nodes h tree node [];
     Some (h, tree\<lparr>root := NULL, nnodes := 0\<rparr>, calls) }"

definition g_tree_ref :: "GTree \<Rightarrow> GTree" where
  "g_tree_ref tree = tree\<lparr>ref_count := ref_count tree + 1\<rparr>"

text \<open>The tree itself is gone (\<open>None\<close>) when the last reference is.\<close>

definition g_tree_unref :: "gheap \<Rightarrow> GTree \<Rightarrow> (gheap \<times> GTree option \<times> destroyed list) option" where
  "g_tree_unref h tree =
     (let tree = tree\<lparr>ref_count := ref_count tree - 1\<rparr>
      in if ref_count tree = 0
         then do { (h, tree, calls) \<leftarrow> g_tree_remove_all h tree; Some (h, None, calls) }
         else Some (h, Some tree, []))"

definition g_tree_destroy :: "gheap \<Rightarrow> GTree \<Rightarrow> (gheap \<times> GTree option \<times> destroyed list) option" where
  "g_tree_destroy h tree = do {
     (h, tree, calls) \<leftarrow> g_tree_remove_all h tree;
     (h, tree, calls') \<leftarrow> g_tree_unref h tree;
     Some (h, tree, calls @ calls') }"

section \<open>Looking up\<close>

partial_function (option) find_node_loop ::
    "(gpointer \<Rightarrow> gpointer \<Rightarrow> int) \<Rightarrow> gheap \<Rightarrow> gpointer \<Rightarrow> gpointer \<Rightarrow> gpointer option" where
  [code]: "find_node_loop compare h key node = do {
     n \<leftarrow> h node;
     let cmp = compare key (n_key n);
     if cmp = 0 then Some node
     else if cmp < 0 then (if \<not> n_left_child n then Some NULL else find_node_loop compare h key (n_left n))
     else (if \<not> n_right_child n then Some NULL else find_node_loop compare h key (n_right n)) }"

definition g_tree_find_node :: "gheap \<Rightarrow> GTree \<Rightarrow> gpointer \<Rightarrow> gpointer option" where
  "g_tree_find_node h tree key =
     (if root tree = NULL then Some NULL else find_node_loop (key_compare tree) h key (root tree))"

definition g_tree_lookup :: "gheap \<Rightarrow> GTree \<Rightarrow> gpointer \<Rightarrow> gpointer option" where
  "g_tree_lookup h tree key = do {
     node \<leftarrow> g_tree_find_node h tree key;
     if node = NULL then Some NULL else map_option n_value (h node) }"

text \<open>The original key and the value, if there is a node.\<close>

definition g_tree_lookup_extended :: "gheap \<Rightarrow> GTree \<Rightarrow> gpointer \<Rightarrow> (gpointer \<times> gpointer) option option" where
  "g_tree_lookup_extended h tree key = do {
     node \<leftarrow> g_tree_find_node h tree key;
     if node = NULL then Some None else map_option (\<lambda>n. Some (n_key n, n_value n)) (h node) }"

partial_function (option) g_tree_node_search :: "gheap \<Rightarrow> (gpointer \<Rightarrow> int) \<Rightarrow> gpointer \<Rightarrow> gpointer option" where
  [code]: "g_tree_node_search h search node = do {
     n \<leftarrow> h node;
     let dir = search (n_key n);
     if dir = 0 then Some (n_value n)
     else if dir < 0 then (if \<not> n_left_child n then Some NULL else g_tree_node_search h search (n_left n))
     else (if \<not> n_right_child n then Some NULL else g_tree_node_search h search (n_right n)) }"

definition g_tree_search :: "gheap \<Rightarrow> GTree \<Rightarrow> (gpointer \<Rightarrow> int) \<Rightarrow> gpointer option" where
  "g_tree_search h tree search = (if root tree \<noteq> NULL then g_tree_node_search h search (root tree) else Some NULL)"

partial_function (option) height_loop :: "gheap \<Rightarrow> gpointer \<Rightarrow> int \<Rightarrow> int option" where
  [code]: "height_loop h node height = do {
     n \<leftarrow> h node;
     let height = height + (1 + max (n_balance n) 0);
     if \<not> n_left_child n then Some height else height_loop h (n_left n) height }"

definition g_tree_height :: "gheap \<Rightarrow> GTree \<Rightarrow> int option" where
  "g_tree_height h tree = (if root tree = NULL then Some 0 else height_loop h (root tree) 0)"

definition g_tree_nnodes :: "GTree \<Rightarrow> int" where
  "g_tree_nnodes tree = sint (nnodes tree)"

section \<open>Visiting the nodes\<close>

text \<open>
  The function called at a node gets the user data, may change it, and says whether to stop.
\<close>

type_synonym 's visitor = "gpointer \<Rightarrow> gpointer \<Rightarrow> 's \<Rightarrow> bool \<times> 's"

partial_function (option) foreach_nodes :: "gheap \<Rightarrow> 's visitor \<Rightarrow> gpointer \<Rightarrow> 's \<Rightarrow> 's option" where
  [code]: "foreach_nodes h func node s =
     (if node = NULL then Some s
      else do {
        n \<leftarrow> h node;
        let (stop, s) = func (n_key n) (n_value n) s;
        if stop then Some s
        else do { next \<leftarrow> g_tree_node_next h node; foreach_nodes h func next s } })"

definition g_tree_foreach :: "gheap \<Rightarrow> GTree \<Rightarrow> 's visitor \<Rightarrow> 's \<Rightarrow> 's option" where
  "g_tree_foreach h tree func s =
     (if root tree = NULL then Some s
      else do { node \<leftarrow> g_tree_first_node h tree; foreach_nodes h func node s })"

partial_function (option) g_tree_node_pre_order :: "gheap \<Rightarrow> 's visitor \<Rightarrow> gpointer \<Rightarrow> 's \<Rightarrow> (bool \<times> 's) option" where
  [code]: "g_tree_node_pre_order h func node s = do {
     n \<leftarrow> h node;
     let (stop, s) = func (n_key n) (n_value n) s;
     if stop then Some (True, s)
     else do {
       (stop, s) \<leftarrow> (if n_left_child n then g_tree_node_pre_order h func (n_left n) s else Some (False, s));
       if stop then Some (True, s)
       else if n_right_child n then g_tree_node_pre_order h func (n_right n) s else Some (False, s) } }"

partial_function (option) g_tree_node_in_order :: "gheap \<Rightarrow> 's visitor \<Rightarrow> gpointer \<Rightarrow> 's \<Rightarrow> (bool \<times> 's) option" where
  [code]: "g_tree_node_in_order h func node s = do {
     n \<leftarrow> h node;
     (stop, s) \<leftarrow> (if n_left_child n then g_tree_node_in_order h func (n_left n) s else Some (False, s));
     if stop then Some (True, s)
     else let (stop, s) = func (n_key n) (n_value n) s
          in if stop then Some (True, s)
             else if n_right_child n then g_tree_node_in_order h func (n_right n) s else Some (False, s) }"

partial_function (option) g_tree_node_post_order :: "gheap \<Rightarrow> 's visitor \<Rightarrow> gpointer \<Rightarrow> 's \<Rightarrow> (bool \<times> 's) option" where
  [code]: "g_tree_node_post_order h func node s = do {
     n \<leftarrow> h node;
     (stop, s) \<leftarrow> (if n_left_child n then g_tree_node_post_order h func (n_left n) s else Some (False, s));
     if stop then Some (True, s)
     else do {
       (stop, s) \<leftarrow> (if n_right_child n then g_tree_node_post_order h func (n_right n) s else Some (False, s));
       if stop then Some (True, s) else Some (func (n_key n) (n_value n) s) } }"

datatype GTraverseType = G_IN_ORDER | G_PRE_ORDER | G_POST_ORDER | G_LEVEL_ORDER

definition g_tree_traverse :: "gheap \<Rightarrow> GTree \<Rightarrow> 's visitor \<Rightarrow> GTraverseType \<Rightarrow> 's \<Rightarrow> 's option" where
  "g_tree_traverse h tree func type s =
     (if root tree = NULL then Some s
      else case type of
        G_PRE_ORDER \<Rightarrow> map_option snd (g_tree_node_pre_order h func (root tree) s)
      | G_IN_ORDER \<Rightarrow> map_option snd (g_tree_node_in_order h func (root tree) s)
      | G_POST_ORDER \<Rightarrow> map_option snd (g_tree_node_post_order h func (root tree) s)
      | G_LEVEL_ORDER \<Rightarrow> Some s)"

section \<open>The check of \<open>G_TREE_DEBUG\<close>\<close>

partial_function (option) g_tree_node_height :: "gheap \<Rightarrow> gpointer \<Rightarrow> int option" where
  [code]: "g_tree_node_height h node =
     (if node = NULL then Some 0
      else do {
        n \<leftarrow> h node;
        left_height \<leftarrow> (if n_left_child n then g_tree_node_height h (n_left n) else Some 0);
        right_height \<leftarrow> (if n_right_child n then g_tree_node_height h (n_right n) else Some 0);
        Some (max left_height right_height + 1) })"

text \<open>\<open>None\<close> when an assertion fails.\<close>

partial_function (option) g_tree_node_check :: "gheap \<Rightarrow> gpointer \<Rightarrow> unit option" where
  [code]: "g_tree_node_check h node =
     (if node = NULL then Some ()
      else do {
        n \<leftarrow> h node;
        (if n_left_child n
         then do { tmp \<leftarrow> g_tree_node_previous h node; t \<leftarrow> h tmp; if n_right t = node then Some () else None }
         else Some ());
        (if n_right_child n
         then do { tmp \<leftarrow> g_tree_node_next h node; t \<leftarrow> h tmp; if n_left t = node then Some () else None }
         else Some ());
        left_height \<leftarrow> (if n_left_child n then g_tree_node_height h (n_left n) else Some 0);
        right_height \<leftarrow> (if n_right_child n then g_tree_node_height h (n_right n) else Some 0);
        if right_height - left_height \<noteq> n_balance n then None
        else do {
          (if n_left_child n then g_tree_node_check h (n_left n) else Some ());
          (if n_right_child n then g_tree_node_check h (n_right n) else Some ()) } })"

end
