(* ===== verification/Glib_Tree_Laws.thy ===== *)
theory Glib_Tree_Laws
  imports Glib_Tree "HOL-Library.Tree"
begin

text \<open>
  The shape of a tree in the heap: \<open>rep h lo hi t\<close> says that the nodes of \<open>t\<close> are in \<open>h\<close>, with
  \<open>lo\<close> and \<open>hi\<close> the threads of its first and of its last node. Contexts, the way back from a
  node to the root, are what \<open>path\<close> holds. Rotations keep the nodes in order and, when they are due, give an AVL
  tree again.
\<close>

named_theorems tree_rep \<open>the heap of a tree\<close>

section \<open>Trees in the heap\<close>

type_synonym cell = "gpointer \<times> gpointer \<times> gpointer \<times> int"

type_synonym tshape = "cell tree"

fun addr_of :: "tshape \<Rightarrow> gpointer" where
  "addr_of Leaf = NULL"
| "addr_of (Node l c r) = fst c"

fun bal_of :: "tshape \<Rightarrow> int" where
  "bal_of Leaf = 0"
| "bal_of (Node l c r) = snd (snd (snd c))"

lemma shape_Node:
  assumes "t \<noteq> Leaf"
  obtains l a k v b r where "t = Node l (a, k, v, b :: int) r"
  using assms by (cases t) auto

definition node_of :: "gpointer \<Rightarrow> gpointer \<Rightarrow> tshape \<Rightarrow> gpointer \<Rightarrow> gpointer \<Rightarrow> int \<Rightarrow> tshape \<Rightarrow> GTreeNode" where
  "node_of lo hi l k v b r =
     \<lparr>n_key = k, n_value = v, n_left = (if l = Leaf then lo else addr_of l),
      n_right = (if r = Leaf then hi else addr_of r), n_balance = b,
      n_left_child = (l \<noteq> Leaf), n_right_child = (r \<noteq> Leaf)\<rparr>"

lemma node_of_simps [simp]:
  "n_key (node_of lo hi l k v b r) = k" "n_value (node_of lo hi l k v b r) = v"
  "n_balance (node_of lo hi l k v b r) = b"
  "n_left_child (node_of lo hi l k v b r) \<longleftrightarrow> l \<noteq> Leaf" "n_right_child (node_of lo hi l k v b r) \<longleftrightarrow> r \<noteq> Leaf"
  "n_left (node_of lo hi l k v b r) = (if l = Leaf then lo else addr_of l)"
  "n_right (node_of lo hi l k v b r) = (if r = Leaf then hi else addr_of r)"
  by (simp_all add: node_of_def)

fun rep :: "gheap \<Rightarrow> gpointer \<Rightarrow> gpointer \<Rightarrow> tshape \<Rightarrow> bool" where
  "rep h lo hi Leaf \<longleftrightarrow> True"
| "rep h lo hi (Node l (a, k, v, b) r) \<longleftrightarrow>
     h a = Some (node_of lo hi l k v b r) \<and> rep h lo a l \<and> rep h a hi r"

text \<open>The nodes in key order, without their balances.\<close>

definition items :: "tshape \<Rightarrow> (gpointer \<times> gpointer \<times> gpointer) list" where
  "items t = map (\<lambda>(a, k, v, b). (a, k, v)) (inorder t)"

definition addrs :: "tshape \<Rightarrow> gpointer list" where
  "addrs t = map fst (items t)"

lemma items_simps [simp]:
  "items Leaf = []" "items (Node l (a, k, v, b) r) = items l @ (a, k, v) # items r"
  by (simp_all add: items_def)

lemma items_Nil [simp]: "items t = [] \<longleftrightarrow> t = Leaf"
  by (simp add: items_def)

lemma addrs_simps [simp]: "addrs Leaf = []" "addrs (Node l (a, k, v, b) r) = addrs l @ a # addrs r"
  by (simp_all add: addrs_def)

lemma addrs_eq: "items t = items t' \<Longrightarrow> addrs t = addrs t'"
  by (simp add: addrs_def)

lemma addr_of_mem: "t \<noteq> Leaf \<Longrightarrow> addr_of t \<in> set (addrs t)"
  by (cases t rule: tree.exhaust) auto

lemma length_items [simp]: "length (items t) = size t"
  by (simp add: items_def)

lemma rep_cong: "(\<And>x. x \<in> set (addrs t) \<Longrightarrow> h x = h' x) \<Longrightarrow> rep h lo hi t \<longleftrightarrow> rep h' lo hi t"
  by (induction h lo hi t rule: rep.induct) auto

lemma rep_upd [simp]: "x \<notin> set (addrs t) \<Longrightarrow> rep (h(x := n)) lo hi t \<longleftrightarrow> rep h lo hi t"
  by (rule rep_cong) auto

lemma gint8_id [simp]: "-128 \<le> i \<Longrightarrow> i < 128 \<Longrightarrow> gint8 i = i"
  by (simp add: gint8_def)

lemma set_node_simp [simp]: "h p = Some n \<Longrightarrow> set_node h p f = Some (h(p \<mapsto> f n))"
  by (simp add: set_node_def)

lemma bind_Some_split: "(do { x \<leftarrow> (m :: 'a option); f x }) = Some y \<longleftrightarrow> (\<exists>x. m = Some x \<and> f x = Some y)"
  by (auto simp: Option.bind_eq_Some_conv)

section \<open>Rotations\<close>

fun rotl :: "tshape \<Rightarrow> tshape" where
  "rotl (Node l (a, k, v, ba) (Node m (r, kr, vr, bb) rr)) =
     Node (Node l (a, k, v, if bb \<le> 0 then ba - 1 else ba - bb - 1) m)
       (r, kr, vr, if bb \<le> 0 then (if ba \<ge> 1 then bb - 1 else ba + bb - 2) else (if ba \<le> bb then ba - 2 else bb - 1)) rr"
| "rotl t = t"

fun rotr :: "tshape \<Rightarrow> tshape" where
  "rotr (Node (Node ll (l, kl, vl, bb) m) (a, k, v, ba) r) =
     Node ll (l, kl, vl, if bb \<le> 0 then (if bb > ba then bb + 1 else ba + 2) else (if ba \<le> -1 then bb + 1 else ba + bb + 2))
       (Node m (a, k, v, if bb \<le> 0 then ba - bb + 1 else ba + 1) r)"
| "rotr t = t"

lemma rotate_left_rep:
  assumes "rep h lo hi (Node l (a, k, v, ba) (Node m (r, kr, vr, bb) rr))"
    and "distinct (addrs (Node l (a, k, v, ba) (Node m (r, kr, vr, bb) rr)))" and "\<bar>ba\<bar> \<le> 9" and "\<bar>bb\<bar> \<le> 9"
  shows "\<exists>h'. g_tree_node_rotate_left h a = Some (h', r) \<and>
    rep h' lo hi (rotl (Node l (a, k, v, ba) (Node m (r, kr, vr, bb) rr))) \<and>
    (\<forall>x. x \<noteq> a \<longrightarrow> x \<noteq> r \<longrightarrow> h' x = h x)"
proof -
  let ?na = "node_of lo r l k v (if bb \<le> 0 then ba - 1 else ba - bb - 1) m"
  let ?rb = "if bb \<le> 0 then (if ba \<ge> 1 then bb - 1 else ba + bb - 2) else (if ba \<le> bb then ba - 2 else bb - 1)"
  let ?nr = "node_of lo hi (Node l (a, k, v, if bb \<le> 0 then ba - 1 else ba - bb - 1) m) kr vr ?rb rr"
  let ?h = "h(a \<mapsto> ?na, r \<mapsto> ?nr)"
  from assms have ne: "a \<noteq> r" "h a = Some (node_of lo hi l k v ba (Node m (r, kr, vr, bb) rr))"
    "h r = Some (node_of a hi m kr vr bb rr)" by auto
  have "g_tree_node_rotate_left h a = Some (?h, r)"
    using ne assms(3,4) by (auto simp: g_tree_node_rotate_left_def Let_def node_of_def fun_upd_twist)
  moreover have "rep ?h lo hi (rotl (Node l (a, k, v, ba) (Node m (r, kr, vr, bb) rr)))"
    using assms(1,2) by simp
  ultimately show ?thesis by fastforce
qed

lemma rotate_right_rep:
  assumes "rep h lo hi (Node (Node ll (l, kl, vl, bb) m) (a, k, v, ba) r)"
    and "distinct (addrs (Node (Node ll (l, kl, vl, bb) m) (a, k, v, ba) r))" and "\<bar>ba\<bar> \<le> 9" and "\<bar>bb\<bar> \<le> 9"
  shows "\<exists>h'. g_tree_node_rotate_right h a = Some (h', l) \<and>
    rep h' lo hi (rotr (Node (Node ll (l, kl, vl, bb) m) (a, k, v, ba) r)) \<and>
    (\<forall>x. x \<noteq> a \<longrightarrow> x \<noteq> l \<longrightarrow> h' x = h x)"
proof -
  let ?ab = "if bb \<le> 0 then ba - bb + 1 else ba + 1"
  let ?na = "node_of l hi m k v ?ab r"
  let ?lb = "if bb \<le> 0 then (if bb > ba then bb + 1 else ba + 2) else (if ba \<le> -1 then bb + 1 else ba + bb + 2)"
  let ?nl = "node_of lo hi ll kl vl ?lb (Node m (a, k, v, ?ab) r)"
  let ?h = "h(a \<mapsto> ?na, l \<mapsto> ?nl)"
  from assms have ne: "a \<noteq> l" "h a = Some (node_of lo hi (Node ll (l, kl, vl, bb) m) k v ba r)"
    "h l = Some (node_of lo a ll kl vl bb m)" by auto
  have "g_tree_node_rotate_right h a = Some (?h, l)"
    using ne assms(3,4) by (auto simp: g_tree_node_rotate_right_def Let_def node_of_def fun_upd_twist)
  moreover have "rep ?h lo hi (rotr (Node (Node ll (l, kl, vl, bb) m) (a, k, v, ba) r))"
    using assms(1,2) by auto
  ultimately show ?thesis by fastforce
qed

fun bal_ok :: "tshape \<Rightarrow> bool" where
  "bal_ok Leaf \<longleftrightarrow> True"
| "bal_ok (Node l (a, k, v, b) r) \<longleftrightarrow> b = int (height r) - int (height l) \<and> bal_ok l \<and> bal_ok r"

fun avl :: "tshape \<Rightarrow> bool" where
  "avl Leaf \<longleftrightarrow> True"
| "avl (Node l (a, k, v, b) r) \<longleftrightarrow> b = int (height r) - int (height l) \<and> \<bar>b\<bar> \<le> 1 \<and> avl l \<and> avl r"

lemma items_rotl: "items (rotl t) = items t"
  by (induction t rule: rotl.induct) auto

lemma items_rotr: "items (rotr t) = items t"
  by (induction t rule: rotr.induct) auto

text \<open>Whatever the heights are, the balances a rotation computes are the differences of the new ones.\<close>

lemma bal_ok_rotl: "bal_ok t \<Longrightarrow> bal_ok (rotl t)"
  by (induction t rule: rotl.induct) (auto simp: max_def)

lemma bal_ok_rotr: "bal_ok t \<Longrightarrow> bal_ok (rotr t)"
  by (induction t rule: rotr.induct) (auto simp: max_def)

lemma avl_bal_ok: "avl t \<Longrightarrow> bal_ok t"
  by (induction t rule: avl.induct) auto

text \<open>A node whose subtrees are AVL trees and whose balance may be off by one more.\<close>

fun almost :: "tshape \<Rightarrow> bool" where
  "almost Leaf \<longleftrightarrow> False"
| "almost (Node l (a, k, v, b) r) \<longleftrightarrow> b = int (height r) - int (height l) \<and> \<bar>b\<bar> \<le> 2 \<and> avl l \<and> avl r"

definition rebal :: "tshape \<Rightarrow> tshape" where
  "rebal t = (case t of Leaf \<Rightarrow> Leaf | Node l (a, k, v, b) r \<Rightarrow>
     if b < -1 then rotr (Node (if bal_of l > 0 then rotl l else l) (a, k, v, b) r)
     else if b > 1 then rotl (Node l (a, k, v, b) (if bal_of r < 0 then rotr r else r))
     else t)"

lemma items_rebal: "items (rebal t) = items t"
proof (cases t)
  case (Node l c r)
  then show ?thesis by (cases c) (auto simp: rebal_def items_rotl items_rotr)
qed (simp add: rebal_def)

lemma avl_cases:
  assumes "avl t"
  obtains (Leaf) "t = Leaf"
  | (Node) l a k v b r where "t = Node l (a, k, v, b) r" "b = int (height r) - int (height l)" "\<bar>b\<bar> \<le> 1" "avl l" "avl r"
proof (cases t)
  case (Node l c r)
  then show thesis using assms that(2) by (cases c) auto
qed (rule that(1))

text \<open>What the rotations restore: an AVL tree, which is lower by one unless the higher subtree was even.\<close>

lemma rebal_avl:
  assumes "almost t"
  shows "avl (rebal t) \<and> rebal t \<noteq> Leaf \<and>
    (if \<bar>bal_of t\<bar> \<le> 1 then rebal t = t
     else if bal_of (if bal_of t < 0 then left t else right t) = 0
     then height (rebal t) = height t \<and> bal_of (rebal t) \<noteq> 0
     else height t = Suc (height (rebal t)) \<and> bal_of (rebal t) = 0)"
proof (cases t)
  case (Node l c r)
  obtain a k v b where c: "c = (a, k, v, b)" by (cases c)
  note t = Node[unfolded c]
  from assms t have b: "b = int (height r) - int (height l)" "\<bar>b\<bar> \<le> 2" "avl l" "avl r" by auto
  consider "\<bar>b\<bar> \<le> 1" | "b = -2" | "b = 2" using b(2) by linarith
  then show ?thesis
  proof cases
    case 1 with t b show ?thesis by (auto simp: rebal_def)
  next
    case 2
    with b(1,3) obtain ll al kl vl bl lr where l: "l = Node ll (al, kl, vl, bl) lr"
      "bl = int (height lr) - int (height ll)" "\<bar>bl\<bar> \<le> 1" "avl ll" "avl lr"
      by (auto elim: avl_cases)
    show ?thesis
    proof (cases "bl > 0")
      case True
      with l obtain ml am km vm bm mr where "lr = Node ml (am, km, vm, bm) mr"
        "bm = int (height mr) - int (height ml)" "\<bar>bm\<bar> \<le> 1" "avl ml" "avl mr"
        by (auto elim: avl_cases)
      with True t 2 b l show ?thesis by (auto simp: rebal_def max_def)
    next
      case False
      with t 2 b l show ?thesis by (auto simp: rebal_def max_def)
    qed
  next
    case 3
    with b(1,4) obtain rl ar kr vr br rr where r: "r = Node rl (ar, kr, vr, br) rr"
      "br = int (height rr) - int (height rl)" "\<bar>br\<bar> \<le> 1" "avl rl" "avl rr"
      by (auto elim: avl_cases)
    show ?thesis
    proof (cases "br < 0")
      case True
      with r obtain ml am km vm bm mr where "rl = Node ml (am, km, vm, bm) mr"
        "bm = int (height mr) - int (height ml)" "\<bar>bm\<bar> \<le> 1" "avl ml" "avl mr"
        by (auto elim: avl_cases)
      with True t 3 b r show ?thesis by (auto simp: rebal_def max_def split: if_splits)
    next
      case False
      with t 3 b r show ?thesis by (auto simp: rebal_def max_def)
    qed
  qed
qed (use assms in simp)


text \<open>The rotations of the code, on any tree they apply to.\<close>

lemma rotl_rep:
  assumes "rep h lo hi t" and "distinct (addrs t)" and "t \<noteq> Leaf" and "right t \<noteq> Leaf" and "\<bar>bal_of t\<bar> \<le> 9" and "\<bar>bal_of (right t)\<bar> \<le> 9"
  shows "\<exists>h'. g_tree_node_rotate_left h (addr_of t) = Some (h', addr_of (rotl t)) \<and> rep h' lo hi (rotl t) \<and>
    (\<forall>x. x \<notin> set (addrs t) \<longrightarrow> h' x = h x)"
proof -
  obtain l a k v ba r0 where t0: "t = Node l (a, k, v, ba) r0" using assms(3) by (rule shape_Node)
  then have "r0 \<noteq> Leaf" using assms(4) by simp
  then obtain m r kr vr bb rr where "r0 = Node m (r, kr, vr, bb) rr" by (rule shape_Node)
  with t0 have t: "t = Node l (a, k, v, ba) (Node m (r, kr, vr, bb) rr)" by simp
  have "\<bar>ba\<bar> \<le> 9" "\<bar>bb\<bar> \<le> 9" using assms(5,6) t by simp_all
  from rotate_left_rep[OF assms(1)[unfolded t] assms(2)[unfolded t] this, folded t]
  obtain h' where "g_tree_node_rotate_left h a = Some (h', r)" "rep h' lo hi (rotl t)"
    "\<forall>y. y \<noteq> a \<longrightarrow> y \<noteq> r \<longrightarrow> h' y = h y" by blast
  moreover have "addr_of t = a" "addr_of (rotl t) = r" "{a, r} \<subseteq> set (addrs t)" using t by simp_all
  ultimately show ?thesis by (intro exI[of _ h']) (metis insert_subset)
qed

lemma rotr_rep:
  assumes "rep h lo hi t" and "distinct (addrs t)" and "t \<noteq> Leaf" and "left t \<noteq> Leaf" and "\<bar>bal_of t\<bar> \<le> 9" and "\<bar>bal_of (left t)\<bar> \<le> 9"
  shows "\<exists>h'. g_tree_node_rotate_right h (addr_of t) = Some (h', addr_of (rotr t)) \<and> rep h' lo hi (rotr t) \<and>
    (\<forall>x. x \<notin> set (addrs t) \<longrightarrow> h' x = h x)"
proof -
  obtain l0 a k v ba r where t0: "t = Node l0 (a, k, v, ba) r" using assms(3) by (rule shape_Node)
  then have "l0 \<noteq> Leaf" using assms(4) by simp
  then obtain ll l kl vl bb m where "l0 = Node ll (l, kl, vl, bb) m" by (rule shape_Node)
  with t0 have t: "t = Node (Node ll (l, kl, vl, bb) m) (a, k, v, ba) r" by simp
  have "\<bar>ba\<bar> \<le> 9" "\<bar>bb\<bar> \<le> 9" using assms(5,6) t by simp_all
  from rotate_right_rep[OF assms(1)[unfolded t] assms(2)[unfolded t] this, folded t]
  obtain h' where "g_tree_node_rotate_right h a = Some (h', l)" "rep h' lo hi (rotr t)"
    "\<forall>y. y \<noteq> a \<longrightarrow> y \<noteq> l \<longrightarrow> h' y = h y" by blast
  moreover have "addr_of t = a" "addr_of (rotr t) = l" "{a, l} \<subseteq> set (addrs t)" using t by simp_all
  ultimately show ?thesis by (intro exI[of _ h']) (metis insert_subset)
qed

text \<open>A subtree is exchanged for one with the same nodes.\<close>

lemma set_left_rep:
  assumes "rep h lo hi (Node l (a, k, v, b) r)" and "distinct (addrs (Node l (a, k, v, b) r))"
    and "rep h1 lo a l'" and "items l' = items l" and "l \<noteq> Leaf" and "\<forall>x. x \<notin> set (addrs l) \<longrightarrow> h1 x = h x"
  shows "\<exists>h'. set_node h1 a (n_left_update (\<lambda>_. addr_of l')) = Some h' \<and> rep h' lo hi (Node l' (a, k, v, b) r) \<and>
    (\<forall>x. x \<notin> set (addrs (Node l (a, k, v, b) r)) \<longrightarrow> h' x = h x)"
proof -
  let ?h = "h1(a \<mapsto> node_of lo hi l' k v b r)"
  have ne: "l' \<noteq> Leaf" "a \<notin> set (addrs l')" "a \<notin> set (addrs r)" using assms(2,4,5) by (auto simp: addrs_def dest: arg_cong[of _ _ set])
  have "h1 a = Some (node_of lo hi l k v b r)" using assms(1,2,6) by simp
  then have "set_node h1 a (n_left_update (\<lambda>_. addr_of l')) = Some ?h" using assms(5) ne by (simp add: node_of_def)
  moreover have "rep h1 a hi r" using assms(1,2,6) by (subst rep_cong[where h' = h]) auto
  ultimately show ?thesis using assms(3,6) ne by auto
qed

lemma set_right_rep:
  assumes "rep h lo hi (Node l (a, k, v, b) r)" and "distinct (addrs (Node l (a, k, v, b) r))"
    and "rep h1 a hi r'" and "items r' = items r" and "r \<noteq> Leaf" and "\<forall>x. x \<notin> set (addrs r) \<longrightarrow> h1 x = h x"
  shows "\<exists>h'. set_node h1 a (n_right_update (\<lambda>_. addr_of r')) = Some h' \<and> rep h' lo hi (Node l (a, k, v, b) r') \<and>
    (\<forall>x. x \<notin> set (addrs (Node l (a, k, v, b) r)) \<longrightarrow> h' x = h x)"
proof -
  let ?h = "h1(a \<mapsto> node_of lo hi l k v b r')"
  have ne: "r' \<noteq> Leaf" "a \<notin> set (addrs r')" "a \<notin> set (addrs l)" using assms(2,4,5) by (auto simp: addrs_def dest: arg_cong[of _ _ set])
  have "h1 a = Some (node_of lo hi l k v b r)" using assms(1,2,6) by simp
  then have "set_node h1 a (n_right_update (\<lambda>_. addr_of r')) = Some ?h" using assms(5) ne by (simp add: node_of_def)
  moreover have "rep h1 lo a l" using assms(1,2,6) by (subst rep_cong[where h' = h]) auto
  ultimately show ?thesis using assms(3,6) ne by auto
qed

text \<open>The code's balancing of a node.\<close>

lemma node_balance_left:
  assumes r: "rep h lo hi t" and d: "distinct (addrs t)" and t: "t = Node l (a, k, v, b) rr" and b: "b = -2"
    and l: "l \<noteq> Leaf" "\<bar>bal_of l\<bar> \<le> 1" "bal_of l > 0 \<Longrightarrow> right l \<noteq> Leaf \<and> \<bar>bal_of (right l)\<bar> \<le> 1"
  shows "\<exists>h'. g_tree_node_balance h a = Some (h', addr_of (rebal t)) \<and> rep h' lo hi (rebal t) \<and>
    (\<forall>x. x \<notin> set (addrs t) \<longrightarrow> h' x = h x)"
proof (cases "bal_of l > 0")
  case True
  obtain ll al kl vl bl lr where l': "l = Node ll (al, kl, vl, bl) lr" using l(1) by (rule shape_Node)
  from r t have ha: "h a = Some (node_of lo hi l k v b rr)" and hl: "h al = Some (node_of lo a ll kl vl bl lr)"
    and rl: "rep h lo a l" using l' by auto
  have dl: "distinct (addrs l)" using d t by simp
  obtain h1 where h1: "g_tree_node_rotate_left h al = Some (h1, addr_of (rotl l))" "rep h1 lo a (rotl l)"
    "\<forall>x. x \<notin> set (addrs l) \<longrightarrow> h1 x = h x"
    using rotl_rep[OF rl dl] l True l' by auto
  obtain h2 where h2: "set_node h1 a (n_left_update (\<lambda>_. addr_of (rotl l))) = Some h2"
    "rep h2 lo hi (Node (rotl l) (a, k, v, b) rr)" "\<forall>x. x \<notin> set (addrs t) \<longrightarrow> h2 x = h x"
    using set_left_rep[OF r[unfolded t] d[unfolded t] h1(2) items_rotl l(1) h1(3)] t by auto
  have d2: "distinct (addrs (Node (rotl l) (a, k, v, b) rr))" using d t by (simp add: addrs_def items_rotl)
  have "rotl l \<noteq> Leaf" "\<bar>bal_of (rotl l)\<bar> \<le> 9" using l(2,3) True l' by (cases lr; force)+
  then obtain h3 where h3: "g_tree_node_rotate_right h2 a = Some (h3, addr_of (rebal t))" "rep h3 lo hi (rebal t)"
    "\<forall>x. x \<notin> set (addrs (Node (rotl l) (a, k, v, b) rr)) \<longrightarrow> h3 x = h2 x"
    using rotr_rep[OF h2(2) d2] b True t by (auto simp: rebal_def)
  have "g_tree_node_balance h a = Some (h3, addr_of (rebal t))"
    using ha hl l' b True h1(1) h2(1) h3(1) by (simp add: g_tree_node_balance_def)
  moreover have "set (addrs (Node (rotl l) (a, k, v, b) rr)) = set (addrs t)" using t by (simp add: addrs_def items_rotl)
  ultimately show ?thesis using h3 h2(3) by auto
next
  case False
  obtain ll al kl vl bl lr where l': "l = Node ll (al, kl, vl, bl) lr" using l(1) by (rule shape_Node)
  from r t have ha: "h a = Some (node_of lo hi l k v b rr)" and hl: "h al = Some (node_of lo a ll kl vl bl lr)"
    using l' by auto
  obtain h3 where h3: "g_tree_node_rotate_right h a = Some (h3, addr_of (rebal t))" "rep h3 lo hi (rebal t)"
    "\<forall>x. x \<notin> set (addrs t) \<longrightarrow> h3 x = h x"
    using rotr_rep[OF r d] b False t l by (auto simp: rebal_def)
  have "g_tree_node_balance h a = Some (h3, addr_of (rebal t))"
    using ha hl l' b False h3(1) by (simp add: g_tree_node_balance_def)
  with h3 show ?thesis by auto
qed

lemma node_balance_right:
  assumes r: "rep h lo hi t" and d: "distinct (addrs t)" and t: "t = Node l (a, k, v, b) rr" and b: "b = 2"
    and rr: "rr \<noteq> Leaf" "\<bar>bal_of rr\<bar> \<le> 1" "bal_of rr < 0 \<Longrightarrow> left rr \<noteq> Leaf \<and> \<bar>bal_of (left rr)\<bar> \<le> 1"
  shows "\<exists>h'. g_tree_node_balance h a = Some (h', addr_of (rebal t)) \<and> rep h' lo hi (rebal t) \<and>
    (\<forall>x. x \<notin> set (addrs t) \<longrightarrow> h' x = h x)"
proof (cases "bal_of rr < 0")
  case True
  obtain rl ar kr vr br r2 where r': "rr = Node rl (ar, kr, vr, br) r2" using rr(1) by (rule shape_Node)
  from r t have ha: "h a = Some (node_of lo hi l k v b rr)" and hl: "h ar = Some (node_of a hi rl kr vr br r2)"
    and rl: "rep h a hi rr" using r' by auto
  have dl: "distinct (addrs rr)" using d t by simp
  obtain h1 where h1: "g_tree_node_rotate_right h ar = Some (h1, addr_of (rotr rr))" "rep h1 a hi (rotr rr)"
    "\<forall>x. x \<notin> set (addrs rr) \<longrightarrow> h1 x = h x"
    using rotr_rep[OF rl dl] rr True r' by auto
  obtain h2 where h2: "set_node h1 a (n_right_update (\<lambda>_. addr_of (rotr rr))) = Some h2"
    "rep h2 lo hi (Node l (a, k, v, b) (rotr rr))" "\<forall>x. x \<notin> set (addrs t) \<longrightarrow> h2 x = h x"
    using set_right_rep[OF r[unfolded t] d[unfolded t] h1(2) items_rotr rr(1) h1(3)] t by auto
  have d2: "distinct (addrs (Node l (a, k, v, b) (rotr rr)))" using d t by (simp add: addrs_def items_rotr)
  have "rotr rr \<noteq> Leaf" "\<bar>bal_of (rotr rr)\<bar> \<le> 9" using rr(2,3) True r' by (cases rl; force)+
  then obtain h3 where h3: "g_tree_node_rotate_left h2 a = Some (h3, addr_of (rebal t))" "rep h3 lo hi (rebal t)"
    "\<forall>x. x \<notin> set (addrs (Node l (a, k, v, b) (rotr rr))) \<longrightarrow> h3 x = h2 x"
    using rotl_rep[OF h2(2) d2] b True t by (auto simp: rebal_def)
  have "g_tree_node_balance h a = Some (h3, addr_of (rebal t))"
    using ha hl r' b True h1(1) h2(1) h3(1) by (simp add: g_tree_node_balance_def)
  moreover have "set (addrs (Node l (a, k, v, b) (rotr rr))) = set (addrs t)" using t by (simp add: addrs_def items_rotr)
  ultimately show ?thesis using h3 h2(3) by auto
next
  case False
  obtain rl ar kr vr br r2 where r': "rr = Node rl (ar, kr, vr, br) r2" using rr(1) by (rule shape_Node)
  from r t have ha: "h a = Some (node_of lo hi l k v b rr)" and hl: "h ar = Some (node_of a hi rl kr vr br r2)"
    using r' by auto
  obtain h3 where h3: "g_tree_node_rotate_left h a = Some (h3, addr_of (rebal t))" "rep h3 lo hi (rebal t)"
    "\<forall>x. x \<notin> set (addrs t) \<longrightarrow> h3 x = h x"
    using rotl_rep[OF r d] b False t rr by (auto simp: rebal_def)
  have "g_tree_node_balance h a = Some (h3, addr_of (rebal t))"
    using ha hl r' b False h3(1) by (simp add: g_tree_node_balance_def)
  with h3 show ?thesis by auto
qed

lemma avl_bal: "avl t \<Longrightarrow> \<bar>bal_of t\<bar> \<le> 1"
  by (cases t rule: avl.cases) auto

lemma avl_leaning:
  assumes "avl t"
  shows "bal_of t > 0 \<Longrightarrow> right t \<noteq> Leaf \<and> avl (right t)" and "bal_of t < 0 \<Longrightarrow> left t \<noteq> Leaf \<and> avl (left t)"
  using assms by (cases t rule: avl.cases; auto)+

lemma node_balance_rep:
  assumes r: "rep h lo hi t" and d: "distinct (addrs t)" and a: "almost t"
  shows "\<exists>h'. g_tree_node_balance h (addr_of t) = Some (h', addr_of (rebal t)) \<and> rep h' lo hi (rebal t) \<and>
    (\<forall>x. x \<notin> set (addrs t) \<longrightarrow> h' x = h x)"
proof (cases t)
  case (Node l c rr)
  obtain a0 k v b where c: "c = (a0, k, v, b)" by (cases c)
  note t = Node[unfolded c]
  from a t have b: "b = int (height rr) - int (height l)" "\<bar>b\<bar> \<le> 2" "avl l" "avl rr" by auto
  consider "\<bar>b\<bar> \<le> 1" | "b = -2" | "b = 2" using b(2) by linarith
  then show ?thesis
  proof cases
    case 1 with t r show ?thesis by (auto simp: rebal_def g_tree_node_balance_def)
  next
    case 2
    then have "l \<noteq> Leaf" using b(1) by auto
    from node_balance_left[OF r d t 2 this] show ?thesis using b(3) t by (auto simp: avl_bal avl_leaning)
  next
    case 3
    then have "rr \<noteq> Leaf" using b(1) by auto
    from node_balance_right[OF r d t 3 this] show ?thesis using b(4) t by (auto simp: avl_bal avl_leaning)
  qed
qed (use a in simp)

end
