(* ===== verification/Glib_Tree_Paths.thy ===== *)
theory Glib_Tree_Paths
  imports Glib_Tree_Laws
begin

text \<open>
  The way from the root to a node: a list of frames, from the node's parent up, each with the side on which
  the way goes on, the cell of the node and its other subtree. \<open>path\<close> holds their addresses, from the root down.
  The two loops that restore the balance go back along the frames.
\<close>

section \<open>Frames\<close>

type_synonym frame = "bool \<times> cell \<times> tshape"

fun plug :: "frame list \<Rightarrow> tshape \<Rightarrow> tshape" where
  "plug [] t = t"
| "plug ((True, c, s) # fs) t = plug fs (Node t c s)"
| "plug ((False, c, s) # fs) t = plug fs (Node s c t)"

fun lo_of :: "frame list \<Rightarrow> gpointer \<Rightarrow> gpointer" where
  "lo_of [] lo = lo"
| "lo_of ((True, c, s) # fs) lo = lo_of fs lo"
| "lo_of ((False, c, s) # fs) lo = fst c"

fun hi_of :: "frame list \<Rightarrow> gpointer \<Rightarrow> gpointer" where
  "hi_of [] hi = hi"
| "hi_of ((True, c, s) # fs) hi = fst c"
| "hi_of ((False, c, s) # fs) hi = hi_of fs hi"

text \<open>The nodes of the frames are in the heap, when the hole is filled with \<open>t\<close>.\<close>

fun crep :: "gheap \<Rightarrow> gpointer \<Rightarrow> gpointer \<Rightarrow> frame list \<Rightarrow> tshape \<Rightarrow> bool" where
  "crep h lo hi [] t \<longleftrightarrow> True"
| "crep h lo hi ((True, (a, k, v, b), s) # fs) t \<longleftrightarrow>
     h a = Some (node_of (lo_of fs lo) (hi_of fs hi) t k v b s) \<and> rep h a (hi_of fs hi) s \<and>
     crep h lo hi fs (Node t (a, k, v, b) s)"
| "crep h lo hi ((False, (a, k, v, b), s) # fs) t \<longleftrightarrow>
     h a = Some (node_of (lo_of fs lo) (hi_of fs hi) s k v b t) \<and> rep h (lo_of fs lo) a s \<and>
     crep h lo hi fs (Node s (a, k, v, b) t)"

fun pre :: "frame list \<Rightarrow> (gpointer \<times> gpointer \<times> gpointer) list" where
  "pre [] = []"
| "pre ((True, c, s) # fs) = pre fs"
| "pre ((False, (a, k, v, b), s) # fs) = pre fs @ items s @ [(a, k, v)]"

fun post :: "frame list \<Rightarrow> (gpointer \<times> gpointer \<times> gpointer) list" where
  "post [] = []"
| "post ((True, (a, k, v, b), s) # fs) = (a, k, v) # items s @ post fs"
| "post ((False, c, s) # fs) = post fs"

definition caddrs :: "frame list \<Rightarrow> gpointer set" where
  "caddrs fs = fst ` (set (pre fs) \<union> set (post fs))"

lemma frames_cases [case_names Nil Left Right]:
  fixes fs :: "frame list"
  obtains "fs = []"
  | a k v b s fs' where "fs = (True, (a, k, v, b), s) # fs'"
  | a k v b s fs' where "fs = (False, (a, k, v, b), s) # fs'"
proof (cases fs)
  case (Cons f fs')
  obtain l a k v b s where "f = (l, (a, k, v, b), s)" by (cases f) auto
  with Cons that(2,3) show thesis by (cases l) auto
qed (rule that(1))

lemma frames_induct [case_names Nil Left Right]:
  fixes P :: "frame list \<Rightarrow> bool"
  assumes "P []" and "\<And>a k v b s fs. P fs \<Longrightarrow> P ((True, (a, k, v, b), s) # fs)"
    and "\<And>a k v b s fs. P fs \<Longrightarrow> P ((False, (a, k, v, b), s) # fs)"
  shows "P fs"
proof (induction fs)
  case (Cons f fs)
  obtain l a k v b s where "f = (l, (a, k, v, b), s)" by (cases f) auto
  with Cons assms(2,3) show ?case by (cases l) auto
qed (rule assms(1))

lemma caddrs_simps [simp]:
  "caddrs [] = {}"
  "caddrs ((True, (a, k, v, b), s) # fs) = insert a (set (addrs s) \<union> caddrs fs)"
  "caddrs ((False, (a, k, v, b), s) # fs) = insert a (set (addrs s) \<union> caddrs fs)"
  by (auto simp: caddrs_def addrs_def image_Un)

lemma items_plug: "items (plug fs t) = pre fs @ items t @ post fs"
  by (induction fs arbitrary: t rule: frames_induct) simp_all

lemma addrs_plug: "addrs (plug fs t) = map fst (pre fs) @ addrs t @ map fst (post fs)"
  by (simp add: addrs_def items_plug)

lemma set_addrs_plug: "set (addrs (plug fs t)) = caddrs fs \<union> set (addrs t)"
  by (auto simp: addrs_plug caddrs_def image_Un)

lemma distinct_plug: "distinct (addrs (plug fs t)) \<Longrightarrow> distinct (addrs t) \<and> set (addrs t) \<inter> caddrs fs = {}"
  by (auto simp: addrs_plug caddrs_def)

lemma plug_Leaf: "plug fs t = Leaf \<longleftrightarrow> fs = [] \<and> t = Leaf"
  by (induction fs arbitrary: t rule: frames_induct) simp_all

lemma addr_of_plug: "fs \<noteq> [] \<Longrightarrow> addr_of (plug fs t) = addr_of (plug fs t')"
  by (induction fs arbitrary: t t' rule: frames_induct; (case_tac "fs = []")?) auto

lemma crep_cong:
  "(\<And>x. x \<in> caddrs fs \<Longrightarrow> h x = h' x) \<Longrightarrow> addr_of t = addr_of t' \<Longrightarrow> t = Leaf \<longleftrightarrow> t' = Leaf \<Longrightarrow>
   crep h lo hi fs t \<longleftrightarrow> crep h' lo hi fs t'"
proof (induction fs arbitrary: t t' rule: frames_induct)
  case (Left a k v b s fs)
  have "crep h lo hi fs (Node t (a, k, v, b) s) \<longleftrightarrow> crep h' lo hi fs (Node t' (a, k, v, b) s)"
    by (rule Left.IH) (use Left.prems in auto)
  moreover have "rep h a (hi_of fs hi) s \<longleftrightarrow> rep h' a (hi_of fs hi) s" by (rule rep_cong) (use Left.prems in simp)
  ultimately show ?case using Left.prems by (simp add: node_of_def)
next
  case (Right a k v b s fs)
  have "crep h lo hi fs (Node s (a, k, v, b) t) \<longleftrightarrow> crep h' lo hi fs (Node s (a, k, v, b) t')"
    by (rule Right.IH) (use Right.prems in auto)
  moreover have "rep h (lo_of fs lo) a s \<longleftrightarrow> rep h' (lo_of fs lo) a s" by (rule rep_cong) (use Right.prems in simp)
  ultimately show ?case using Right.prems by (simp add: node_of_def)
qed simp

lemma crep_upd [simp]: "x \<notin> caddrs fs \<Longrightarrow> crep (h(x := n)) lo hi fs t \<longleftrightarrow> crep h lo hi fs t"
  by (rule crep_cong) auto

lemma rep_plug: "rep h lo hi (plug fs t) \<longleftrightarrow> rep h (lo_of fs lo) (hi_of fs hi) t \<and> crep h lo hi fs t"
  by (induction fs arbitrary: t rule: frames_induct) auto

lemma lo_of_mem: "lo_of fs lo = lo \<or> lo_of fs lo \<in> caddrs fs"
  by (induction fs rule: frames_induct) auto

lemma hi_of_mem: "hi_of fs hi = hi \<or> hi_of fs hi \<in> caddrs fs"
  by (induction fs rule: frames_induct) auto

section \<open>The array\<close>

definition faddr :: "frame \<Rightarrow> gpointer" where
  "faddr f = fst (fst (snd f))"

lemma faddr_simp [simp]: "faddr (l, (a, k, v, b), s) = a"
  by (simp add: faddr_def)

definition parent_of :: "frame list \<Rightarrow> gpointer" where
  "parent_of fs = (case fs of [] \<Rightarrow> NULL | f # _ \<Rightarrow> faddr f)"

definition path_is :: "gpointer list \<Rightarrow> nat \<Rightarrow> frame list \<Rightarrow> bool" where
  "path_is path idx fs \<longleftrightarrow> length path = MAX_GTREE_HEIGHT \<and> idx = Suc (length fs) \<and> idx \<le> MAX_GTREE_HEIGHT \<and>
     take idx path = NULL # map faddr (rev fs)"

lemma path_is_new: "path_is new_path 1 []"
  by (simp add: path_is_def new_path_def MAX_GTREE_HEIGHT_def)

lemma path_is_push:
  assumes "path_is path idx fs" and "idx < MAX_GTREE_HEIGHT"
  shows "set_path path idx (faddr f) = Some (path[idx := faddr f]) \<and> path_is (path[idx := faddr f]) (idx + 1) (f # fs)"
  using assms by (auto simp: path_is_def set_path_def take_Suc_conv_app_nth)

lemma path_is_pop:
  assumes "path_is path idx fs"
  obtains n where "idx = Suc n" "path ! n = parent_of fs" "fs \<noteq> [] \<longrightarrow> path_is path n (tl fs)"
proof -
  from assms have idx: "idx = Suc (length fs)" and le: "idx \<le> length path"
    and t: "take idx path = NULL # map faddr (rev fs)" and len: "length path = MAX_GTREE_HEIGHT"
    by (auto simp: path_is_def)
  have "path ! length fs = take idx path ! length fs" using idx by simp
  also have "\<dots> = parent_of fs" unfolding t
    by (cases fs) (simp_all add: parent_of_def nth_append)
  finally have "path ! length fs = parent_of fs" .
  moreover have "path_is path (length fs) (tl fs)" if "fs \<noteq> []"
  proof -
    have "take (length fs) path = take (length fs) (take idx path)" using idx by (simp add: take_take min_def)
    also have "\<dots> = NULL # map faddr (rev (tl fs))" unfolding t using that by (cases fs) (simp_all)
    finally show ?thesis using that le len idx by (cases fs) (auto simp: path_is_def)
  qed
  ultimately show thesis using that idx by blast
qed

section \<open>Heights\<close>

text \<open>The balances of the frames are right for a subtree of height \<open>n\<close> in the hole.\<close>

fun cavl :: "frame list \<Rightarrow> nat \<Rightarrow> bool" where
  "cavl [] n \<longleftrightarrow> True"
| "cavl ((True, (a, k, v, b), s) # fs) n \<longleftrightarrow>
     b = int (height s) - int n \<and> \<bar>b\<bar> \<le> 1 \<and> avl s \<and> cavl fs (Suc (max n (height s)))"
| "cavl ((False, (a, k, v, b), s) # fs) n \<longleftrightarrow>
     b = int n - int (height s) \<and> \<bar>b\<bar> \<le> 1 \<and> avl s \<and> cavl fs (Suc (max n (height s)))"

lemma avl_plug: "avl (plug fs t) \<longleftrightarrow> avl t \<and> cavl fs (height t)"
  by (induction fs arbitrary: t rule: frames_induct) (auto simp: max.commute)

text \<open>A subtree that was of height \<open>n\<close> before something was inserted in it, or removed from it.\<close>

definition grown :: "tshape \<Rightarrow> nat \<Rightarrow> bool" where
  "grown t n \<longleftrightarrow> almost t \<and> height t = (if bal_of t = 0 then n else Suc n) \<and>
     (1 < \<bar>bal_of t\<bar> \<longrightarrow> bal_of (if bal_of t < 0 then left t else right t) \<noteq> 0)"

definition shrunk :: "tshape \<Rightarrow> nat \<Rightarrow> bool" where
  "shrunk t n \<longleftrightarrow> almost t \<and> n = (if bal_of t = 0 then Suc (height t) else height t)"

lemma rebal_grown:
  assumes "grown t n"
  shows "avl (rebal t) \<and> rebal t \<noteq> Leaf \<and> height (rebal t) = (if bal_of (rebal t) = 0 then n else Suc n)"
  using assms rebal_avl[of t] by (auto simp: grown_def split: if_splits)

lemma rebal_shrunk:
  assumes "shrunk t n"
  shows "avl (rebal t) \<and> rebal t \<noteq> Leaf \<and> n = (if bal_of (rebal t) = 0 then Suc (height (rebal t)) else height (rebal t))"
  using assms rebal_avl[of t] by (auto simp: shrunk_def split: if_splits)

lemma grown_Left:
  "cavl ((True, (a, k, v, b), s) # fs) n \<Longrightarrow> avl t \<Longrightarrow> t \<noteq> Leaf \<Longrightarrow> bal_of t \<noteq> 0 \<Longrightarrow> height t = Suc n \<Longrightarrow>
   grown (Node t (a, k, v, b - 1) s) (Suc (max n (height s)))"
  by (auto simp: grown_def max_def)

lemma grown_Right:
  "cavl ((False, (a, k, v, b), s) # fs) n \<Longrightarrow> avl t \<Longrightarrow> t \<noteq> Leaf \<Longrightarrow> bal_of t \<noteq> 0 \<Longrightarrow> height t = Suc n \<Longrightarrow>
   grown (Node s (a, k, v, b + 1) t) (Suc (max n (height s)))"
  by (auto simp: grown_def max_def)

lemma shrunk_Left:
  "cavl ((True, (a, k, v, b), s) # fs) n \<Longrightarrow> avl t \<Longrightarrow> n = Suc (height t) \<Longrightarrow>
   shrunk (Node t (a, k, v, b + 1) s) (Suc (max n (height s)))"
  by (auto simp: shrunk_def max_def)

lemma shrunk_Right:
  "cavl ((False, (a, k, v, b), s) # fs) n \<Longrightarrow> avl t \<Longrightarrow> n = Suc (height t) \<Longrightarrow>
   shrunk (Node s (a, k, v, b - 1) t) (Suc (max n (height s)))"
  by (auto simp: shrunk_def max_def)

section \<open>One step back\<close>

text \<open>A tree in the heap, with its root in the tree's record.\<close>

definition tree_at :: "gheap \<Rightarrow> GTree \<Rightarrow> tshape \<Rightarrow> bool" where
  "tree_at h tree t \<longleftrightarrow> rep h NULL NULL t \<and> distinct (addrs t) \<and> NULL \<notin> set (addrs t) \<and> root tree = addr_of t"

lemma tree_at_upd_record: "tree_at h tree t \<Longrightarrow> root tree' = root tree \<Longrightarrow> tree_at h tree' t"
  by (simp add: tree_at_def)

lemma parent_of_NULL: "NULL \<notin> set (addrs (plug fs t)) \<Longrightarrow> parent_of fs = NULL \<longleftrightarrow> fs = []"
  by (cases fs rule: frames_cases) (auto simp: parent_of_def set_addrs_plug)

definition side_of :: "frame list \<Rightarrow> bool" where
  "side_of fs = (case fs of [] \<Rightarrow> False | (l, c, s) # _ \<Rightarrow> l)"

lemma is_left_node_frame:
  assumes "tree_at h tree (plug fs t)" and "t \<noteq> Leaf"
  shows "is_left_node h (parent_of fs) (addr_of t) = Some (side_of fs)"
proof (cases fs rule: frames_cases)
  case (Left a k v b s fs')
  have "a \<noteq> NULL" using assms(1) Left by (auto simp: tree_at_def set_addrs_plug)
  then show ?thesis using assms Left
    by (simp add: tree_at_def rep_plug is_left_node_def parent_of_def side_of_def)
next
  case (Right a k v b s fs')
  have d: "distinct (addrs (plug fs t))" "NULL \<notin> set (addrs (plug fs t))" using assms(1) by (auto simp: tree_at_def)
  have m: "addr_of t \<in> set (addrs t)" using assms(2) by (rule addr_of_mem)
  from d(1) have "set (addrs t) \<inter> caddrs fs = {}" by (simp add: distinct_plug)
  with m have out: "addr_of t \<notin> caddrs fs" by auto
  have "s \<noteq> Leaf \<Longrightarrow> addr_of s \<noteq> addr_of t" using out Right addr_of_mem[of s] by auto
  moreover have "lo_of fs' NULL \<noteq> addr_of t"
    using lo_of_mem[of fs' NULL] out m d(2) Right by (auto simp: set_addrs_plug)
  moreover have "a \<noteq> NULL" using d(2) Right by (simp add: set_addrs_plug)
  ultimately show ?thesis using assms Right
    by (auto simp: tree_at_def rep_plug is_left_node_def parent_of_def side_of_def)
qed (simp add: is_left_node_def parent_of_def side_of_def)

text \<open>Another subtree is put in the hole.\<close>

lemma set_child_frame:
  assumes t: "tree_at h tree (plug fs t)" and ne: "t \<noteq> Leaf" "t' \<noteq> Leaf" and sub: "set (addrs t') \<subseteq> set (addrs t)"
    and r: "rep h1 (lo_of fs NULL) (hi_of fs NULL) t'" and out: "\<forall>x. x \<notin> set (addrs t) \<longrightarrow> h1 x = h x"
    and d: "distinct (addrs t')"
  shows "\<exists>h' tree'. set_child h1 tree (parent_of fs) (side_of fs) (addr_of t') = Some (h', tree') \<and>
    tree_at h' tree' (plug fs t') \<and> tree' = tree\<lparr>root := addr_of (plug fs t')\<rparr> \<and>
    (\<forall>x. x \<notin> set (addrs (plug fs t)) \<longrightarrow> h' x = h x) \<and> (\<forall>x. x \<in> set (addrs t) \<longrightarrow> h' x = h1 x)"
proof -
  have d0: "distinct (addrs (plug fs t))" "NULL \<notin> set (addrs (plug fs t))" "rep h NULL NULL (plug fs t)"
    using t by (auto simp: tree_at_def)
  then have dis: "set (addrs t) \<inter> caddrs fs = {}" by (simp add: distinct_plug)
  have dp: "distinct (addrs (plug fs t'))" using d0(1) d sub by (auto simp: addrs_plug)
  have nul: "NULL \<notin> set (addrs (plug fs t'))" using d0(2) sub by (auto simp: set_addrs_plug)
  have cr: "crep h1 NULL NULL fs t"
  proof -
    have "crep h NULL NULL fs t" using d0(3) by (simp add: rep_plug)
    then show ?thesis using out dis by (subst crep_cong[where h' = h and t' = t]) auto
  qed
  show ?thesis
  proof (cases fs rule: frames_cases)
    case Nil
    then show ?thesis using r dp nul out by (simp add: set_child_def parent_of_def tree_at_def)
  next
    case (Left a k v b s fs')
    let ?h = "h1(a \<mapsto> node_of (lo_of fs' NULL) (hi_of fs' NULL) t' k v b s)"
    have a: "a \<noteq> NULL" "a \<notin> set (addrs t')" "a \<notin> set (addrs t)" using d0(2) dis sub Left by (auto simp: set_addrs_plug)
    have h1: "h1 a = Some (node_of (lo_of fs' NULL) (hi_of fs' NULL) t k v b s)" using cr Left by simp
    have as: "a \<notin> set (addrs s)" "a \<notin> caddrs fs'" using distinct_plug[of fs' "Node t (a, k, v, b) s"] d0(1) Left by auto
    have sc: "set_child h1 tree (parent_of fs) (side_of fs) (addr_of t') = Some (?h, tree)"
      using h1 a(1) ne Left by (simp add: set_child_def parent_of_def side_of_def node_of_def)
    have "crep h1 NULL NULL fs' (Node t (a, k, v, b) s)" using cr Left by simp
    then have "crep h1 NULL NULL fs' (Node t' (a, k, v, b) s)"
      by (subst crep_cong[where h' = h1 and t' = "Node t (a, k, v, b) s"]) auto
    then have "rep ?h NULL NULL (plug fs t')" using cr r a as Left by (simp add: rep_plug)
    moreover have "tree\<lparr>root := addr_of (plug fs t')\<rparr> = tree" using t addr_of_plug[of fs t t'] Left
      by (simp add: tree_at_def)
    moreover have "\<forall>x. x \<notin> set (addrs (plug fs t)) \<longrightarrow> ?h x = h x" using out Left by (auto simp: set_addrs_plug)
    ultimately show ?thesis using sc dp nul a(3) t addr_of_plug[of fs t t'] Left by (auto simp: tree_at_def)
  next
    case (Right a k v b s fs')
    let ?h = "h1(a \<mapsto> node_of (lo_of fs' NULL) (hi_of fs' NULL) s k v b t')"
    have a: "a \<noteq> NULL" "a \<notin> set (addrs t')" "a \<notin> set (addrs t)" using d0(2) dis sub Right by (auto simp: set_addrs_plug)
    have h1: "h1 a = Some (node_of (lo_of fs' NULL) (hi_of fs' NULL) s k v b t)" using cr Right by simp
    have as: "a \<notin> set (addrs s)" "a \<notin> caddrs fs'" using distinct_plug[of fs' "Node s (a, k, v, b) t"] d0(1) Right by auto
    have sc: "set_child h1 tree (parent_of fs) (side_of fs) (addr_of t') = Some (?h, tree)"
      using h1 a(1) ne Right by (simp add: set_child_def parent_of_def side_of_def node_of_def)
    have "crep h1 NULL NULL fs' (Node s (a, k, v, b) t)" using cr Right by simp
    then have "crep h1 NULL NULL fs' (Node s (a, k, v, b) t')"
      by (subst crep_cong[where h' = h1 and t' = "Node s (a, k, v, b) t"]) auto
    then have "rep ?h NULL NULL (plug fs t')" using cr r a as Right by (simp add: rep_plug)
    moreover have "tree\<lparr>root := addr_of (plug fs t')\<rparr> = tree" using t addr_of_plug[of fs t t'] Right
      by (simp add: tree_at_def)
    moreover have "\<forall>x. x \<notin> set (addrs (plug fs t)) \<longrightarrow> ?h x = h x" using out Right by (auto simp: set_addrs_plug)
    ultimately show ?thesis using sc dp nul a(3) t addr_of_plug[of fs t t'] Right by (auto simp: tree_at_def)
  qed
qed

lemma balance_and_set_frame:
  assumes t: "tree_at h tree (plug fs t)" and al: "almost t"
  shows "\<exists>h' tree'. balance_and_set h tree (parent_of fs) (side_of fs) (addr_of t) = Some (h', tree', addr_of (rebal t)) \<and>
    tree_at h' tree' (plug fs (rebal t)) \<and> tree' = tree\<lparr>root := addr_of (plug fs (rebal t))\<rparr> \<and>
    (\<forall>x. x \<notin> set (addrs (plug fs t)) \<longrightarrow> h' x = h x)"
proof -
  have ne: "t \<noteq> Leaf" using al by auto
  then obtain l a k v b r where tt: "t = Node l (a, k, v, b) r" by (rule shape_Node)
  have r: "rep h (lo_of fs NULL) (hi_of fs NULL) t" and d: "distinct (addrs t)"
    using t distinct_plug[of fs t] by (auto simp: tree_at_def rep_plug)
  have ha: "h (addr_of t) = Some (node_of (lo_of fs NULL) (hi_of fs NULL) l k v b r)" using r tt by simp
  show ?thesis
  proof (cases "b < -1 \<or> b > 1")
    case True
    obtain h1 where h1: "g_tree_node_balance h (addr_of t) = Some (h1, addr_of (rebal t))"
      "rep h1 (lo_of fs NULL) (hi_of fs NULL) (rebal t)" "\<forall>x. x \<notin> set (addrs t) \<longrightarrow> h1 x = h x"
      using node_balance_rep[OF r d al] by blast
    have rn: "rebal t \<noteq> Leaf" using rebal_avl[OF al] by simp
    have ad: "addrs (rebal t) = addrs t" using items_rebal by (rule addrs_eq)
    obtain h' tree' where sc: "set_child h1 tree (parent_of fs) (side_of fs) (addr_of (rebal t)) = Some (h', tree')"
      and rest: "tree_at h' tree' (plug fs (rebal t))" "tree' = tree\<lparr>root := addr_of (plug fs (rebal t))\<rparr>"
      "\<forall>x. x \<notin> set (addrs (plug fs t)) \<longrightarrow> h' x = h x"
      using set_child_frame[OF t ne rn _ h1(2,3)] ad d by auto
    have "balance_and_set h tree (parent_of fs) (side_of fs) (addr_of t) = Some (h', tree', addr_of (rebal t))"
      using ha True h1(1) sc by (simp add: balance_and_set_def)
    with rest show ?thesis by blast
  next
    case False
    then have "rebal t = t" using tt by (simp add: rebal_def)
    moreover have "tree\<lparr>root := addr_of (plug fs t)\<rparr> = tree" using t by (simp add: tree_at_def)
    ultimately show ?thesis using ha False t by (auto simp: balance_and_set_def)
  qed
qed

lemma add_balance_frame:
  assumes t: "tree_at h tree (plug fs (Node l (a, k, v, b) r))" and b: "\<bar>b\<bar> \<le> 9" "\<bar>i\<bar> \<le> 9"
  shows "\<exists>h'. add_balance h a i = Some h' \<and> tree_at h' tree (plug fs (Node l (a, k, v, b + i) r)) \<and>
    (\<forall>x. x \<noteq> a \<longrightarrow> h' x = h x)"
proof -
  let ?t = "Node l (a, k, v, b) r" and ?t' = "Node l (a, k, v, b + i) r"
  let ?h = "h(a \<mapsto> node_of (lo_of fs NULL) (hi_of fs NULL) l k v (b + i) r)"
  have d0: "distinct (addrs (plug fs ?t))" "NULL \<notin> set (addrs (plug fs ?t))" "rep h NULL NULL (plug fs ?t)"
    using t by (auto simp: tree_at_def)
  have dis: "a \<notin> caddrs fs" "a \<notin> set (addrs l)" "a \<notin> set (addrs r)" using distinct_plug[OF d0(1)] by auto
  have ad: "addrs (plug fs ?t') = addrs (plug fs ?t)" by (simp add: addrs_plug)
  have ha: "h a = Some (node_of (lo_of fs NULL) (hi_of fs NULL) l k v b r)" using d0(3) by (simp add: rep_plug)
  have "crep h NULL NULL fs ?t'" using d0(3) by (subst crep_cong[where h' = h and t' = ?t]) (auto simp: rep_plug)
  then have "rep ?h NULL NULL (plug fs ?t')" using d0(3) dis by (simp add: rep_plug)
  moreover have "addr_of (plug fs ?t') = addr_of (plug fs ?t)" using addr_of_plug[of fs ?t ?t'] by (cases "fs = []") auto
  moreover have "add_balance h a i = Some ?h" using ha b by (simp add: add_balance_def node_of_def)
  ultimately show ?thesis using t ad by (auto simp: tree_at_def)
qed

section \<open>The loops\<close>

definition restored :: "gheap \<Rightarrow> gheap \<Rightarrow> GTree \<Rightarrow> GTree \<Rightarrow> tshape \<Rightarrow> tshape \<Rightarrow> bool" where
  "restored h h' tree tree' t t' \<longleftrightarrow> tree_at h' tree' t' \<and> items t' = items t \<and> avl t' \<and>
     tree' = tree\<lparr>root := addr_of t'\<rparr> \<and> (\<forall>x. x \<notin> set (addrs t) \<longrightarrow> h' x = h x)"

lemma restored_trans:
  assumes "restored h1 h2 tree1 tree2 t1 t2" and "items t1 = items t" and "tree1 = tree\<lparr>root := addr_of t0\<rparr>"
    and "\<forall>x. x \<notin> set (addrs t) \<longrightarrow> h1 x = h x"
  shows "restored h h2 tree tree2 t t2"
  using assms addrs_eq[OF assms(2)] by (auto simp: restored_def)

lemma items_plug_eq: "items t = items t' \<Longrightarrow> items (plug fs t) = items (plug fs t')"
  by (simp add: items_plug)

lemma bal_of_at:
  assumes "tree_at h tree (plug fs t)" and "t \<noteq> Leaf"
  obtains n where "h (addr_of t) = Some n" "n_balance n = bal_of t"
proof -
  obtain l a k v b r where "t = Node l (a, k, v, b) r" using assms(2) by (rule shape_Node)
  then show thesis using assms(1) that by (simp add: tree_at_def rep_plug)
qed

fun fill :: "frame \<Rightarrow> tshape \<Rightarrow> tshape" where
  "fill (True, c, s) t = Node t c s"
| "fill (False, c, s) t = Node s c t"

lemma plug_Cons: "plug (f # fs) t = plug fs (fill f t)"
  by (cases "(f, t)" rule: fill.cases) simp_all

text \<open>What both loops do before they look whether to go on.\<close>

lemma loop_step:
  assumes t: "tree_at h tree (plug fs t)" and al: "almost t" and p: "path_is path idx fs" and av: "avl (rebal t)"
  obtains m h1 tree1 nd where "idx = Suc m" "path ! m = parent_of fs" "fs \<noteq> [] \<longrightarrow> path_is path m (tl fs)"
    "is_left_node h (parent_of fs) (addr_of t) = Some (side_of fs)"
    "balance_and_set h tree (parent_of fs) (side_of fs) (addr_of t) = Some (h1, tree1, addr_of (rebal t))"
    "h1 (addr_of (rebal t)) = Some nd" "n_balance nd = bal_of (rebal t)" "tree_at h1 tree1 (plug fs (rebal t))"
    "cavl fs (height (rebal t)) \<Longrightarrow> restored h h1 tree tree1 (plug fs t) (plug fs (rebal t))"
    "tree1 = tree\<lparr>root := addr_of (plug fs (rebal t))\<rparr>" "\<forall>x. x \<notin> set (addrs (plug fs t)) \<longrightarrow> h1 x = h x"
proof -
  from p obtain m where m: "idx = Suc m" "path ! m = parent_of fs" "fs \<noteq> [] \<longrightarrow> path_is path m (tl fs)"
    by (rule path_is_pop)
  have ne: "t \<noteq> Leaf" "rebal t \<noteq> Leaf" using al rebal_avl[OF al] by auto
  obtain h1 tree1 where s: "balance_and_set h tree (parent_of fs) (side_of fs) (addr_of t) = Some (h1, tree1, addr_of (rebal t))"
    "tree_at h1 tree1 (plug fs (rebal t))" "tree1 = tree\<lparr>root := addr_of (plug fs (rebal t))\<rparr>"
    "\<forall>x. x \<notin> set (addrs (plug fs t)) \<longrightarrow> h1 x = h x"
    using balance_and_set_frame[OF t al] by blast
  obtain nd where nd: "h1 (addr_of (rebal t)) = Some nd" "n_balance nd = bal_of (rebal t)"
    using s(2) ne(2) by (rule bal_of_at)
  have r: "restored h h1 tree tree1 (plug fs t) (plug fs (rebal t))" if "cavl fs (height (rebal t))"
    using s(2-4) that av items_plug_eq[OF items_rebal, of fs t] by (simp add: restored_def avl_plug)
  show thesis by (rule that[OF m is_left_node_frame[OF t ne(1)] s(1) nd s(2) r s(3,4)])
qed

text \<open>A change of the parent's balance.\<close>

lemma step_up:
  assumes "tree_at h tree (plug ((l, (a, k, v, b), s) # fs) t)" and "\<bar>b\<bar> \<le> 1" and "\<bar>i\<bar> \<le> 1"
  obtains h' where "add_balance h a i = Some h'" "tree_at h' tree (plug fs (fill (l, (a, k, v, b + i), s) t))"
    "\<forall>x. x \<noteq> a \<longrightarrow> h' x = h x"
  using assms that add_balance_frame[of h tree fs t a k v b s i] add_balance_frame[of h tree fs s a k v b t i]
  by (cases l) auto

lemma restored_up:
  assumes "restored h2 h3 tree1 tree3 (plug fs (fill (l, (a, k, v, b + i), s) (rebal t))) t3"
    and "tree1 = tree\<lparr>root := r\<rparr>" and "\<forall>x. x \<notin> set (addrs (plug ((l, (a, k, v, b), s) # fs) t)) \<longrightarrow> h1 x = h x"
    and "\<forall>x. x \<noteq> a \<longrightarrow> h2 x = h1 x"
  shows "restored h h3 tree tree3 (plug ((l, (a, k, v, b), s) # fs) t) t3"
proof -
  have it: "items (plug fs (fill (l, (a, k, v, b + i), s) (rebal t))) = items (plug ((l, (a, k, v, b), s) # fs) t)"
    by (cases l) (simp_all add: items_plug items_rebal)
  have "a \<in> set (addrs (plug ((l, (a, k, v, b), s) # fs) t))" by (cases l) (simp_all add: set_addrs_plug)
  then show ?thesis using assms addrs_eq[OF it] it by (auto simp: restored_def)
qed

lemma insert_balance_rep:
  assumes "tree_at h tree (plug fs t)" and "grown t n" and "cavl fs n" and "path_is path idx fs"
  shows "\<exists>h' tree' t'. insert_balance h tree path idx (addr_of t) = Some (h', tree') \<and> restored h h' tree tree' (plug fs t) t'"
  using assms
proof (induction fs arbitrary: h tree t n idx)
  case (Cons f fs)
  obtain l a k v b s where f: "f = (l, (a, k, v, b), s)" by (cases f) auto
  have al: "almost t" using Cons.prems(2) by (simp add: grown_def)
  have av: "avl (rebal t)" "rebal t \<noteq> Leaf" "height (rebal t) = (if bal_of (rebal t) = 0 then n else Suc n)"
    using rebal_grown[OF Cons.prems(2)] by simp_all
  from Cons.prems(1) al Cons.prems(4) av(1) show ?case
  proof (rule loop_step)
    fix m h1 tree1 nd
    assume st: "idx = Suc m" "path ! m = parent_of (f # fs)" "f # fs \<noteq> [] \<longrightarrow> path_is path m (tl (f # fs))"
      "is_left_node h (parent_of (f # fs)) (addr_of t) = Some (side_of (f # fs))"
      "balance_and_set h tree (parent_of (f # fs)) (side_of (f # fs)) (addr_of t) = Some (h1, tree1, addr_of (rebal t))"
      "h1 (addr_of (rebal t)) = Some nd" "n_balance nd = bal_of (rebal t)" "tree_at h1 tree1 (plug (f # fs) (rebal t))"
      "cavl (f # fs) (height (rebal t)) \<Longrightarrow> restored h h1 tree tree1 (plug (f # fs) t) (plug (f # fs) (rebal t))"
      "tree1 = tree\<lparr>root := addr_of (plug (f # fs) (rebal t))\<rparr>" "\<forall>x. x \<notin> set (addrs (plug (f # fs) t)) \<longrightarrow> h1 x = h x"
    have a0: "a \<noteq> NULL" using Cons.prems(1) f by (cases l) (auto simp: tree_at_def set_addrs_plug)
    show ?case
    proof (cases "bal_of (rebal t) = 0")
      case True
      then show ?thesis using st av(3) Cons.prems(3) by auto
    next
      case False
      let ?i = "if l then -1 else 1 :: int"
      let ?t = "fill (l, (a, k, v, b + ?i), s) (rebal t)"
      have b: "\<bar>b\<bar> \<le> 1" "cavl fs (Suc (max n (height s)))" using Cons.prems(3) f by (cases l; simp)+
      have g: "grown ?t (Suc (max n (height s)))"
        using Cons.prems(3) av False f grown_Left[of a k v b s fs n "rebal t"] grown_Right[of a k v b s fs n "rebal t"]
        by (cases l) auto
      obtain h2 where h2: "add_balance h1 a ?i = Some h2" "tree_at h2 tree1 (plug fs ?t)" "\<forall>x. x \<noteq> a \<longrightarrow> h2 x = h1 x"
        using st(8) f b(1) by (auto elim: step_up[where i = "?i"])
      have ad: "addr_of ?t = a" by (cases l) simp_all
      obtain h3 tree3 t3 where h3: "insert_balance h2 tree1 path m a = Some (h3, tree3)" "restored h2 h3 tree1 tree3 (plug fs ?t) t3"
        using Cons.IH[OF h2(2) g b(2), of m] st(3) ad by auto
      have "insert_balance h tree path idx (addr_of t) = Some (h3, tree3)"
        using st False h2(1) h3(1) a0 f by (simp add: parent_of_def side_of_def)
      moreover have "restored h h3 tree tree3 (plug (f # fs) t) t3"
        using h3(2) st(10,11) h2(3) unfolding f by (rule restored_up)
      ultimately show ?thesis by blast
    qed
  qed
next
  case Nil
  have al: "almost t" using Nil.prems(2) by (simp add: grown_def)
  have av: "avl (rebal t)" using rebal_grown[OF Nil.prems(2)] by simp
  from Nil.prems(1) al Nil.prems(4) av show ?case
    by (rule loop_step) (auto simp: parent_of_def)
qed

lemma remove_balance_rep:
  assumes "tree_at h tree (plug fs t)" and "shrunk t n" and "cavl fs n" and "path_is path idx fs"
  shows "\<exists>h' tree' t'. remove_balance h tree path idx (addr_of t) = Some (h', tree') \<and> restored h h' tree tree' (plug fs t) t'"
  using assms
proof (induction fs arbitrary: h tree t n idx)
  case (Cons f fs)
  obtain l a k v b s where f: "f = (l, (a, k, v, b), s)" by (cases f) auto
  have al: "almost t" using Cons.prems(2) by (simp add: shrunk_def)
  have av: "avl (rebal t)" "rebal t \<noteq> Leaf" "n = (if bal_of (rebal t) = 0 then Suc (height (rebal t)) else height (rebal t))"
    using rebal_shrunk[OF Cons.prems(2)] by simp_all
  from Cons.prems(1) al Cons.prems(4) av(1) show ?case
  proof (rule loop_step)
    fix m h1 tree1 nd
    assume st: "idx = Suc m" "path ! m = parent_of (f # fs)" "f # fs \<noteq> [] \<longrightarrow> path_is path m (tl (f # fs))"
      "is_left_node h (parent_of (f # fs)) (addr_of t) = Some (side_of (f # fs))"
      "balance_and_set h tree (parent_of (f # fs)) (side_of (f # fs)) (addr_of t) = Some (h1, tree1, addr_of (rebal t))"
      "h1 (addr_of (rebal t)) = Some nd" "n_balance nd = bal_of (rebal t)" "tree_at h1 tree1 (plug (f # fs) (rebal t))"
      "cavl (f # fs) (height (rebal t)) \<Longrightarrow> restored h h1 tree tree1 (plug (f # fs) t) (plug (f # fs) (rebal t))"
      "tree1 = tree\<lparr>root := addr_of (plug (f # fs) (rebal t))\<rparr>" "\<forall>x. x \<notin> set (addrs (plug (f # fs) t)) \<longrightarrow> h1 x = h x"
    have a0: "a \<noteq> NULL" using Cons.prems(1) f by (cases l) (auto simp: tree_at_def set_addrs_plug)
    show ?case
    proof (cases "bal_of (rebal t) \<noteq> 0")
      case True
      then show ?thesis using st av(3) Cons.prems(3) by auto
    next
      case False
      let ?i = "if l then 1 else -1 :: int"
      let ?t = "fill (l, (a, k, v, b + ?i), s) (rebal t)"
      have b: "\<bar>b\<bar> \<le> 1" "cavl fs (Suc (max n (height s)))" using Cons.prems(3) f by (cases l; simp)+
      have g: "shrunk ?t (Suc (max n (height s)))"
        using Cons.prems(3) av False f shrunk_Left[of a k v b s fs n "rebal t"] shrunk_Right[of a k v b s fs n "rebal t"]
        by (cases l) auto
      obtain h2 where h2: "add_balance h1 a ?i = Some h2" "tree_at h2 tree1 (plug fs ?t)" "\<forall>x. x \<noteq> a \<longrightarrow> h2 x = h1 x"
        using st(8) f b(1) by (auto elim: step_up[where i = "?i"])
      have ad: "addr_of ?t = a" by (cases l) simp_all
      obtain h3 tree3 t3 where h3: "remove_balance h2 tree1 path m a = Some (h3, tree3)" "restored h2 h3 tree1 tree3 (plug fs ?t) t3"
        using Cons.IH[OF h2(2) g b(2), of m] st(3) ad by auto
      have "remove_balance h tree path idx (addr_of t) = Some (h3, tree3)"
        using st False h2(1) h3(1) a0 f by (simp add: parent_of_def side_of_def)
      moreover have "restored h h3 tree tree3 (plug (f # fs) t) t3"
        using h3(2) st(10,11) h2(3) unfolding f by (rule restored_up)
      ultimately show ?thesis by blast
    qed
  qed
next
  case Nil
  have al: "almost t" using Nil.prems(2) by (simp add: shrunk_def)
  have av: "avl (rebal t)" using rebal_shrunk[OF Nil.prems(2)] by simp
  from Nil.prems(1) al Nil.prems(4) av show ?case
    by (rule loop_step) (auto simp: parent_of_def)
qed

end
