(* ===== verification/Glib_Tree_Insert.thy ===== *)
theory Glib_Tree_Insert
  imports Glib_Tree_Paths
begin

text \<open>
  The way down to a key, and insertion. The comparison has to order the keys; then the nodes before the
  place of a key are smaller and those after it are greater. A tree of a height that \<open>path\<close> has room for
  takes the new node where it belongs.
\<close>

section \<open>The order of the keys\<close>

text \<open>The comparison of the tree's tests (\<open>tests/tree.c\<close>): the first characters of two keys.\<close>

definition my_compare :: "(gpointer \<Rightarrow> u8) \<Rightarrow> gpointer \<Rightarrow> gpointer \<Rightarrow> int" where
  "my_compare mem a b = sint (mem a) - sint (mem b)"

interpretation chars: key_order "my_compare mem" for mem
  by unfold_locales (auto simp: my_compare_def)

definition ordered :: "(gpointer \<Rightarrow> gpointer \<Rightarrow> int) \<Rightarrow> (gpointer \<times> gpointer \<times> gpointer) list \<Rightarrow> bool" where
  "ordered compare xs \<longleftrightarrow> sorted_wrt (\<lambda>x y. compare (fst (snd x)) (fst (snd y)) < 0) xs"

text \<open>The frames are on the way to the key.\<close>

definition goes :: "(gpointer \<Rightarrow> gpointer \<Rightarrow> int) \<Rightarrow> gpointer \<Rightarrow> frame list \<Rightarrow> bool" where
  "goes compare key fs \<longleftrightarrow> (\<forall>(l, (a, k, v, b), s) \<in> set fs. if l then compare key k < 0 else 0 < compare key k)"

lemma goes_simps [simp]:
  "goes compare key []"
  "goes compare key ((True, (a, k, v, b), s) # fs) \<longleftrightarrow> compare key k < 0 \<and> goes compare key fs"
  "goes compare key ((False, (a, k, v, b), s) # fs) \<longleftrightarrow> 0 < compare key k \<and> goes compare key fs"
  by (auto simp: goes_def)

context key_order
begin

lemma goes_pre_post:
  "ordered compare (items (plug fs t)) \<Longrightarrow> goes compare key fs \<Longrightarrow>
   (\<forall>x \<in> set (pre fs). 0 < compare key (fst (snd x))) \<and> (\<forall>x \<in> set (post fs). compare key (fst (snd x)) < 0)"
proof (induction fs arbitrary: t rule: frames_induct)
  case (Left a k v b s fs)
  have "\<forall>x \<in> set (items s). compare k (fst (snd x)) < 0"
    using Left.prems(1) by (auto simp: items_plug ordered_def sorted_wrt_append)
  then have "\<forall>x \<in> set (items s). compare key (fst (snd x)) < 0"
    using Left.prems(2) by (auto intro: less_trans)
  moreover have "(\<forall>x \<in> set (pre fs). 0 < compare key (fst (snd x))) \<and> (\<forall>x \<in> set (post fs). compare key (fst (snd x)) < 0)"
    by (rule Left.IH) (use Left.prems in simp_all)
  ultimately show ?case using Left.prems(2) by auto
next
  case (Right a k v b s fs)
  have "\<forall>x \<in> set (items s). compare (fst (snd x)) k < 0"
    using Right.prems(1) by (auto simp: items_plug ordered_def sorted_wrt_append)
  then have "\<forall>x \<in> set (items s). 0 < compare key (fst (snd x))"
    using Right.prems(2) by (auto simp: antisym intro: greater_trans)
  moreover have "(\<forall>x \<in> set (pre fs). 0 < compare key (fst (snd x))) \<and> (\<forall>x \<in> set (post fs). compare key (fst (snd x)) < 0)"
    by (rule Right.IH) (use Right.prems in simp_all)
  ultimately show ?case using Right.prems(2) by auto
qed simp

end

section \<open>The way down\<close>

lemma walk_rep:
  assumes "rep h NULL NULL (plug fs t)" and "t \<noteq> Leaf" and "path_is path (Suc (length fs)) fs" and "goes compare key fs"
    and "length fs + height t \<le> MAX_GTREE_HEIGHT"
  shows "\<exists>path' fs' l a k v b r.
    walk compare h key path (Suc (length fs)) (addr_of t) = Some (path', Suc (length fs'), a, compare key k) \<and>
    path_is path' (Suc (length fs')) fs' \<and> plug fs' (Node l (a, k, v, b) r) = plug fs t \<and>
    (compare key k < 0 \<longrightarrow> l = Leaf) \<and> (0 < compare key k \<longrightarrow> r = Leaf) \<and> goes compare key fs'"
  using assms
proof (induction t arbitrary: fs path)
  case (Node l c r)
  obtain a k v b where c: "c = (a, k, v, b)" by (cases c) auto
  have ha: "h a = Some (node_of (lo_of fs NULL) (hi_of fs NULL) l k v b r)" using Node.prems(1) c by (simp add: rep_plug)
  show ?case
  proof (cases "compare key k < 0 \<and> l \<noteq> Leaf")
    case True
    let ?f = "(True, (a, k, v, b), r)"
    have "1 \<le> height l" using True by (cases l) auto
    then have lt: "Suc (length fs) < MAX_GTREE_HEIGHT" using Node.prems(5) by simp
    have push: "set_path path (Suc (length fs)) a = Some (path[Suc (length fs) := a])"
      "path_is (path[Suc (length fs) := a]) (Suc (length (?f # fs))) (?f # fs)"
      using path_is_push[OF Node.prems(3) lt, of ?f] by auto
    have "walk compare h key path (Suc (length fs)) a =
        walk compare h key (path[Suc (length fs) := a]) (Suc (length (?f # fs))) (addr_of l)"
      using ha push(1) True by (subst walk.simps) (simp add: Let_def)
    moreover have "length (?f # fs) + height l \<le> MAX_GTREE_HEIGHT" using Node.prems(5) by simp
    ultimately show ?thesis
      using Node.IH(1)[of "?f # fs", OF _ _ push(2)] Node.prems(1,4) True c by simp
  next
    case nl: False
    show ?thesis
    proof (cases "0 < compare key k \<and> r \<noteq> Leaf")
      case True
      let ?f = "(False, (a, k, v, b), l)"
      have "1 \<le> height r" using True by (cases r) auto
      then have lt: "Suc (length fs) < MAX_GTREE_HEIGHT" using Node.prems(5) by simp
      have push: "set_path path (Suc (length fs)) a = Some (path[Suc (length fs) := a])"
        "path_is (path[Suc (length fs) := a]) (Suc (length (?f # fs))) (?f # fs)"
        using path_is_push[OF Node.prems(3) lt, of ?f] by auto
      have "walk compare h key path (Suc (length fs)) a =
          walk compare h key (path[Suc (length fs) := a]) (Suc (length (?f # fs))) (addr_of r)"
        using ha push(1) True by (subst walk.simps) (simp add: Let_def)
      moreover have "length (?f # fs) + height r \<le> MAX_GTREE_HEIGHT" using Node.prems(5) by simp
      ultimately show ?thesis
        using Node.IH(2)[of "?f # fs", OF _ _ push(2)] Node.prems(1,4) True c by simp
    next
      case False
      then have "walk compare h key path (Suc (length fs)) a = Some (path, Suc (length fs), a, compare key k)"
        using ha nl by (subst walk.simps) (auto simp: Let_def)
      then show ?thesis using Node.prems c nl False
        by (intro exI[of _ path] exI[of _ fs] exI[of _ l] exI[of _ a] exI[of _ k] exI[of _ v] exI[of _ b] exI[of _ r]) auto
    qed
  qed
qed simp

lemma walk_root:
  assumes "tree_at h tree t" and "t \<noteq> Leaf" and "height t \<le> MAX_GTREE_HEIGHT"
  obtains path fs l a k v b r where
    "walk compare h key new_path 1 (root tree) = Some (path, Suc (length fs), a, compare key k)"
    "path_is path (Suc (length fs)) fs" "t = plug fs (Node l (a, k, v, b) r)"
    "compare key k < 0 \<Longrightarrow> l = Leaf" "0 < compare key k \<Longrightarrow> r = Leaf" "goes compare key fs"
proof -
  have r: "rep h NULL NULL (plug [] t)" "root tree = addr_of t" using assms(1) by (simp_all add: tree_at_def)
  have p: "path_is new_path (Suc (length [])) []" using path_is_new by simp
  have g: "goes compare key []" and le: "length [] + height t \<le> MAX_GTREE_HEIGHT" using assms(3) by simp_all
  from walk_rep[OF r(1) assms(2) p g le] obtain path fs l a k v b r where
    w: "walk compare h key new_path (Suc (length ([] :: frame list))) (addr_of t) = Some (path, Suc (length fs), a, compare key k)"
    "path_is path (Suc (length fs)) fs" "plug fs (Node l (a, k, v, b) r) = plug [] t"
    "compare key k < 0 \<longrightarrow> l = Leaf" "0 < compare key k \<longrightarrow> r = Leaf" "goes compare key fs"
    by (elim exE conjE) (rule that)
  show thesis by (rule that[of path fs a k l v b r]) (use w \<open>root tree = addr_of t\<close> in simp_all)
qed

section \<open>The entries\<close>

type_synonym entry = "gpointer \<times> gpointer"

definition tree_entries :: "tshape \<Rightarrow> entry list" where
  "tree_entries t = map snd (items t)"

text \<open>What a sorted list of entries becomes when one is put in it.\<close>

fun put_entry :: "(gpointer \<Rightarrow> gpointer \<Rightarrow> int) \<Rightarrow> bool \<Rightarrow> gpointer \<Rightarrow> gpointer \<Rightarrow> entry list \<Rightarrow> entry list" where
  "put_entry compare replace key val [] = [(key, val)]"
| "put_entry compare replace key val ((k, v) # es) =
     (if compare key k < 0 then (key, val) # (k, v) # es
      else if compare key k = 0 then (if replace then key else k, val) # es
      else (k, v) # put_entry compare replace key val es)"

lemma put_entry_after:
  "\<forall>e \<in> set xs. 0 < compare key (fst e) \<Longrightarrow>
   put_entry compare replace key val (xs @ ys) = xs @ put_entry compare replace key val ys"
  by (induction xs) auto

lemma put_entry_before:
  "\<forall>e \<in> set ys. compare key (fst e) < 0 \<Longrightarrow> put_entry compare replace key val ys = (key, val) # ys"
  by (cases ys) auto

text \<open>A tree with all that the operations keep.\<close>

definition gtree :: "gheap \<Rightarrow> GTree \<Rightarrow> tshape \<Rightarrow> bool" where
  "gtree h tree t \<longleftrightarrow> tree_at h tree t \<and> avl t \<and> ordered (key_compare tree) (items t) \<and>
     nnodes tree = of_nat (size t)"

section \<open>A new node\<close>

lemma insert_left_rep:
  assumes t: "tree_at h tree (plug fs (Node Leaf (a, k, v, b) r))" and b: "\<bar>b\<bar> \<le> 1"
    and c: "child \<noteq> NULL" "child \<notin> set (addrs (plug fs (Node Leaf (a, k, v, b) r)))"
  obtains h' where "insert_left h child key val a = Some h'"
    "tree_at h' tree (plug fs (Node (Node Leaf (child, key, val, 0) Leaf) (a, k, v, b - 1) r))"
    "\<forall>x. x \<noteq> child \<longrightarrow> x \<noteq> a \<longrightarrow> h' x = h x"
proof -
  let ?t = "Node Leaf (a, k, v, b) r" and ?c = "Node Leaf (child, key, val, 0) Leaf"
  let ?t' = "Node ?c (a, k, v, b - 1) r"
  let ?lo = "lo_of fs NULL" and ?hi = "hi_of fs NULL"
  let ?h = "h(child \<mapsto> node_of ?lo a Leaf key val 0 Leaf, a \<mapsto> node_of ?lo ?hi ?c k v (b - 1) r)"
  have d: "distinct (addrs (plug fs ?t))" "NULL \<notin> set (addrs (plug fs ?t))" "rep h NULL NULL (plug fs ?t)"
    "root tree = addr_of (plug fs ?t)" using t by (auto simp: tree_at_def)
  have a: "a \<notin> caddrs fs" "a \<notin> set (addrs r)" using distinct_plug[OF d(1)] by auto
  have ch: "child \<noteq> a" "child \<notin> caddrs fs" "child \<notin> set (addrs r)" using c(2) by (auto simp: set_addrs_plug)
  have ha: "h a = Some (node_of ?lo ?hi Leaf k v b r)" and cr: "crep h NULL NULL fs ?t" using d(3) by (simp_all add: rep_plug)
  have "insert_left h child key val a = Some ?h"
    using ha ch(1) b by (simp add: insert_left_def g_tree_node_new_def add_balance_def node_of_def Let_def fun_upd_twist)
  moreover have "crep h NULL NULL fs ?t'" using cr by (subst crep_cong[where h' = h and t' = ?t]) auto
  then have "rep ?h NULL NULL (plug fs ?t')" using d(3) a ch by (auto simp: rep_plug)
  moreover have "addr_of (plug fs ?t') = addr_of (plug fs ?t)" using addr_of_plug[of fs ?t ?t'] by (cases "fs = []") auto
  moreover have "distinct (addrs (plug fs ?t'))" using d(1) ch by (auto simp: addrs_plug caddrs_def)
  moreover have "NULL \<notin> set (addrs (plug fs ?t'))" using d(2) c(1) by (auto simp: set_addrs_plug)
  ultimately show thesis using that[of ?h] d(4) by (simp add: tree_at_def)
qed

lemma insert_right_rep:
  assumes t: "tree_at h tree (plug fs (Node l (a, k, v, b) Leaf))" and b: "\<bar>b\<bar> \<le> 1"
    and c: "child \<noteq> NULL" "child \<notin> set (addrs (plug fs (Node l (a, k, v, b) Leaf)))"
  obtains h' where "insert_right h child key val a = Some h'"
    "tree_at h' tree (plug fs (Node l (a, k, v, b + 1) (Node Leaf (child, key, val, 0) Leaf)))"
    "\<forall>x. x \<noteq> child \<longrightarrow> x \<noteq> a \<longrightarrow> h' x = h x"
proof -
  let ?t = "Node l (a, k, v, b) Leaf" and ?c = "Node Leaf (child, key, val, 0) Leaf"
  let ?t' = "Node l (a, k, v, b + 1) ?c"
  let ?lo = "lo_of fs NULL" and ?hi = "hi_of fs NULL"
  let ?h = "h(child \<mapsto> node_of a ?hi Leaf key val 0 Leaf, a \<mapsto> node_of ?lo ?hi l k v (b + 1) ?c)"
  have d: "distinct (addrs (plug fs ?t))" "NULL \<notin> set (addrs (plug fs ?t))" "rep h NULL NULL (plug fs ?t)"
    "root tree = addr_of (plug fs ?t)" using t by (auto simp: tree_at_def)
  have a: "a \<notin> caddrs fs" "a \<notin> set (addrs l)" using distinct_plug[OF d(1)] by auto
  have ch: "child \<noteq> a" "child \<notin> caddrs fs" "child \<notin> set (addrs l)" using c(2) by (auto simp: set_addrs_plug)
  have ha: "h a = Some (node_of ?lo ?hi l k v b Leaf)" and cr: "crep h NULL NULL fs ?t" using d(3) by (simp_all add: rep_plug)
  have "insert_right h child key val a = Some ?h"
    using ha ch(1) b by (simp add: insert_right_def g_tree_node_new_def add_balance_def node_of_def Let_def fun_upd_twist)
  moreover have "crep h NULL NULL fs ?t'" using cr by (subst crep_cong[where h' = h and t' = ?t]) auto
  then have "rep ?h NULL NULL (plug fs ?t')" using d(3) a ch by (auto simp: rep_plug)
  moreover have "addr_of (plug fs ?t') = addr_of (plug fs ?t)" using addr_of_plug[of fs ?t ?t'] by (cases "fs = []") auto
  moreover have "distinct (addrs (plug fs ?t'))" using d(1) ch by (auto simp: addrs_plug caddrs_def)
  moreover have "NULL \<notin> set (addrs (plug fs ?t'))" using d(2) c(1) by (auto simp: set_addrs_plug)
  ultimately show thesis using that[of ?h] d(4) by (simp add: tree_at_def)
qed

text \<open>A node gets a new key and a new value.\<close>

lemma set_entry_frame:
  assumes t: "tree_at h tree (plug fs (Node l (a, k, v, b) r))"
  shows "tree_at (h(a \<mapsto> node_of (lo_of fs NULL) (hi_of fs NULL) l k' v' b r)) tree (plug fs (Node l (a, k', v', b) r))"
proof -
  let ?t = "Node l (a, k, v, b) r" and ?t' = "Node l (a, k', v', b) r"
  have d: "distinct (addrs (plug fs ?t))" "rep h NULL NULL (plug fs ?t)" using t by (auto simp: tree_at_def)
  have a: "a \<notin> caddrs fs" "a \<notin> set (addrs l)" "a \<notin> set (addrs r)" using distinct_plug[OF d(1)] by auto
  have "crep h NULL NULL fs ?t'" using d(2) by (subst crep_cong[where h' = h and t' = ?t]) (auto simp: rep_plug)
  moreover have "addr_of (plug fs ?t') = addr_of (plug fs ?t)" using addr_of_plug[of fs ?t ?t'] by (cases "fs = []") auto
  ultimately show ?thesis using t d(2) a by (simp add: tree_at_def rep_plug addrs_plug set_addrs_plug)
qed

section \<open>Insertion\<close>

definition find_entry :: "(gpointer \<Rightarrow> gpointer \<Rightarrow> int) \<Rightarrow> gpointer \<Rightarrow> entry list \<Rightarrow> entry option" where
  "find_entry compare key es = find (\<lambda>e. compare key (fst e) = 0) es"

lemma find_entry_middle:
  "\<forall>e \<in> set xs. 0 < compare key (fst e) \<Longrightarrow> \<forall>e \<in> set ys. compare key (fst e) < 0 \<Longrightarrow>
   find_entry compare key (xs @ zs @ ys) = find_entry compare key zs"
  by (induction xs; induction zs; induction ys) (auto simp: find_entry_def)

lemma tree_entries_plug: "tree_entries (plug fs t) = map snd (pre fs) @ tree_entries t @ map snd (post fs)"
  by (simp add: tree_entries_def items_plug)

lemma tree_entries_simps [simp]:
  "tree_entries Leaf = []" "tree_entries (Node l (a, k, v, b) r) = tree_entries l @ (k, v) # tree_entries r"
  by (simp_all add: tree_entries_def)

context key_order
begin

lemma ordered_put:
  assumes "ordered compare (xs @ zs @ ys)"
    and "\<forall>x \<in> set xs. 0 < compare key (fst (snd x))" and "\<forall>x \<in> set ys. compare key (fst (snd x)) < 0"
  shows "ordered compare (xs @ (a, key, val) # ys)"
  using assms by (auto simp: ordered_def sorted_wrt_append antisym)

text \<open>The frames on the way to a key split the other nodes; a node found has the key.\<close>

lemma way_pre_post:
  assumes o: "ordered compare (items (plug fs (Node l (a, k, v, b) r)))" and g: "goes compare key fs"
    and c: "compare key k = 0"
  shows "(\<forall>x \<in> set (pre fs @ items l). 0 < compare key (fst (snd x))) \<and>
    (\<forall>x \<in> set (items r @ post fs). compare key (fst (snd x)) < 0)"
proof -
  have "\<forall>x \<in> set (items l). compare (fst (snd x)) k < 0" "\<forall>x \<in> set (items r). compare k (fst (snd x)) < 0"
    using o by (auto simp: items_plug ordered_def sorted_wrt_append)
  then have "\<forall>x \<in> set (items l). 0 < compare key (fst (snd x))" "\<forall>x \<in> set (items r). compare key (fst (snd x)) < 0"
    using c by (auto simp: eq_sym[of key] simp flip: antisym intro: less_eq eq_less)
  with goes_pre_post[OF o g] show ?thesis by auto
qed

lemma way_pre_post_left:
  assumes o: "ordered compare (items (plug fs (Node Leaf (a, k, v, b) r)))" and g: "goes compare key fs"
    and c: "compare key k < 0"
  shows "(\<forall>x \<in> set (pre fs). 0 < compare key (fst (snd x))) \<and>
    (\<forall>x \<in> set ((a, k, v) # items r @ post fs). compare key (fst (snd x)) < 0)"
proof -
  have "\<forall>x \<in> set (items r). compare k (fst (snd x)) < 0"
    using o by (auto simp: items_plug ordered_def sorted_wrt_append)
  then have "\<forall>x \<in> set (items r). compare key (fst (snd x)) < 0" using c by (auto intro: less_trans)
  with goes_pre_post[OF o g] c show ?thesis by auto
qed

lemma way_pre_post_right:
  assumes o: "ordered compare (items (plug fs (Node l (a, k, v, b) Leaf)))" and g: "goes compare key fs"
    and c: "0 < compare key k"
  shows "(\<forall>x \<in> set (pre fs @ items l @ [(a, k, v)]). 0 < compare key (fst (snd x))) \<and>
    (\<forall>x \<in> set (post fs). compare key (fst (snd x)) < 0)"
proof -
  have "\<forall>x \<in> set (items l). compare (fst (snd x)) k < 0"
    using o by (auto simp: items_plug ordered_def sorted_wrt_append)
  then have "\<forall>x \<in> set (items l). 0 < compare key (fst (snd x))" using c by (auto simp: antisym intro: greater_trans)
  with goes_pre_post[OF o g] c show ?thesis by auto
qed

end

text \<open>What insertion leaves: a tree with the entry put in, whose nodes are the old ones and perhaps the new one.\<close>

definition inserted ::
    "gheap \<Rightarrow> GTree \<Rightarrow> tshape \<Rightarrow> gpointer \<Rightarrow> gpointer \<Rightarrow> gpointer \<Rightarrow> bool \<Rightarrow> gheap \<Rightarrow> GTree \<Rightarrow> tshape \<Rightarrow> bool" where
  "inserted h tree t addr key val replace h' tree' t' \<longleftrightarrow>
     gtree h' tree' t' \<and> tree_entries t' = put_entry (key_compare tree) replace key val (tree_entries t) \<and>
     tree' = tree\<lparr>root := addr_of t', nnodes := of_nat (size t')\<rparr> \<and>
     set (addrs t') = set (addrs t) \<union>
       (if find_entry (key_compare tree) key (tree_entries t) = None then {addr} else {}) \<and>
     (\<forall>x. x \<notin> set (addrs t') \<longrightarrow> h' x = h x)"

lemma insert_new:
  assumes g: "gtree h tree t" and it: "items t = xs @ ys" and ko: "key_order (key_compare tree)"
    and xs: "\<forall>x \<in> set xs. 0 < key_compare tree key (fst (snd x))"
    and ys: "\<forall>x \<in> set ys. key_compare tree key (fst (snd x)) < 0"
    and it1: "items t1 = xs @ (addr, key, val) # ys"
    and r: "restored h1 h' (tree\<lparr>nnodes := nnodes tree + 1\<rparr>) tree' t1 t'"
    and out: "\<forall>x. x \<notin> set (addrs t1) \<longrightarrow> h1 x = h x"
  shows "inserted h tree t addr key val replace h' tree' t'"
    and "find_entry (key_compare tree) key (tree_entries t) = None"
proof -
  have e: "tree_entries t = map snd xs @ map snd ys" "tree_entries t' = map snd xs @ (key, val) # map snd ys"
    and tr: "items t' = xs @ (addr, key, val) # ys" using it it1 r by (simp_all add: tree_entries_def restored_def)
  have xs': "\<forall>e \<in> set (map snd xs). 0 < key_compare tree key (fst e)" using xs by auto
  have ys': "\<forall>e \<in> set (map snd ys). key_compare tree key (fst e) < 0" using ys by auto
  show fe: "find_entry (key_compare tree) key (tree_entries t) = None"
    using find_entry_middle[where compare = "key_compare tree", OF xs' ys', of "[]"] by (simp add: e find_entry_def)
  have "tree_entries t' = put_entry (key_compare tree) replace key val (tree_entries t)"
    using put_entry_after[where compare = "key_compare tree", OF xs', of replace val "map snd ys"] put_entry_before[where compare = "key_compare tree", OF ys'] by (simp add: e)
  moreover have "ordered (key_compare tree) (items t')"
    unfolding tr using key_order.ordered_put[OF ko, of xs "[]" ys key addr] g it xs ys by (simp add: gtree_def)
  moreover have "size t' = Suc (size t)" using tr it by (simp flip: length_items)
  moreover have "set (addrs t') = insert addr (set (addrs t))" using tr it by (simp add: addrs_def)
  moreover have "set (addrs t1) = set (addrs t')" using it1 tr by (simp add: addrs_def)
  ultimately show "inserted h tree t addr key val replace h' tree' t'"
    using r g fe out by (auto simp: inserted_def gtree_def restored_def intro: tree_at_upd_record)
qed

lemma insert_found:
  assumes g: "gtree h tree t" and t: "t = plug fs (Node l (a, k, v, b) r)" and ko: "key_order (key_compare tree)"
    and go: "goes (key_compare tree) key fs" and c: "key_compare tree key k = 0"
  shows "inserted h tree t addr key val replace
      (h(a \<mapsto> node_of (lo_of fs NULL) (hi_of fs NULL) l (if replace then key else k) val b r)) tree
      (plug fs (Node l (a, if replace then key else k, val, b) r))"
    and "find_entry (key_compare tree) key (tree_entries t) = Some (k, v)"
proof -
  let ?key = "if replace then key else k"
  let ?t = "plug fs (Node l (a, ?key, val, b) r)"
  have or: "ordered (key_compare tree) (items t)" using g by (simp add: gtree_def)
  note pp = key_order.way_pre_post[OF ko or[unfolded t] go c]
  have kk: "key_compare tree ?key k = 0" using c key_order.refl[OF ko] by simp
  have xs': "\<forall>e \<in> set (map snd (pre fs @ items l)). 0 < key_compare tree key (fst e)"
    using pp by (simp add: image_Un ball_Un)
  have ys': "\<forall>e \<in> set (map snd (items r @ post fs)). key_compare tree key (fst e) < 0"
    using pp by (simp add: image_Un ball_Un)
  have e: "tree_entries t = map snd (pre fs @ items l) @ (k, v) # map snd (items r @ post fs)"
    "tree_entries ?t = map snd (pre fs @ items l) @ (?key, val) # map snd (items r @ post fs)"
    by (simp_all add: t tree_entries_def items_plug)
  show fe: "find_entry (key_compare tree) key (tree_entries t) = Some (k, v)"
    using find_entry_middle[where compare = "key_compare tree", OF xs' ys', of "[(k, v)]"] c unfolding e by (simp add: find_entry_def)
  have "tree_entries ?t = put_entry (key_compare tree) replace key val (tree_entries t)"
    unfolding e put_entry_after[where compare = "key_compare tree", OF xs'] using c by simp
  moreover have "ordered (key_compare tree) (items ?t)"
  proof -
    have o: "ordered (key_compare tree) ((pre fs @ items l) @ [(a, k, v)] @ (items r @ post fs))"
      using or t by (simp add: items_plug)
    have "\<forall>x \<in> set (pre fs @ items l). 0 < key_compare tree k (fst (snd x))"
      "\<forall>x \<in> set (items r @ post fs). key_compare tree k (fst (snd x)) < 0"
      using o by (auto simp: ordered_def sorted_wrt_append key_order.antisym[OF ko])
    with key_order.ordered_put[OF ko o, of k a val] key_order.ordered_put[OF ko o, of key a val] pp
    show ?thesis by (simp add: items_plug)
  qed
  moreover have "addrs ?t = addrs t" by (simp add: t addrs_plug)
  moreover have "avl ?t" using g unfolding t gtree_def avl_plug by auto
  moreover have "size ?t = size t" by (simp add: t items_plug flip: length_items)
  moreover have "tree_at (h(a \<mapsto> node_of (lo_of fs NULL) (hi_of fs NULL) l ?key val b r)) tree ?t"
    by (rule set_entry_frame[where k = k and v = v]) (use g in \<open>simp add: gtree_def t\<close>)
  moreover have "a \<in> set (addrs t)" by (simp add: t addrs_plug)
  ultimately show "inserted h tree t addr key val replace
      (h(a \<mapsto> node_of (lo_of fs NULL) (hi_of fs NULL) l ?key val b r)) tree ?t"
    using g fe by (auto simp: inserted_def gtree_def tree_at_def)
qed

definition insert_calls :: "GTree \<Rightarrow> tshape \<Rightarrow> gpointer \<Rightarrow> bool \<Rightarrow> destroyed list" where
  "insert_calls tree t key replace =
     (case find_entry (key_compare tree) key (tree_entries t) of
        None \<Rightarrow> []
      | Some (k, v) \<Rightarrow> call_destroy tree [Value v, Key (if replace then k else key)])"

lemma new_left_grown:
  "avl (Node Leaf (a, k, v, b) r) \<Longrightarrow>
   grown (Node (Node Leaf (child, key, val, 0) Leaf) (a, k, v, b - 1) r) (height (Node Leaf (a, k, v, b) r))"
  by (auto simp: grown_def max_def not_less_eq_eq le_Suc_eq)

lemma new_right_grown:
  "avl (Node l (a, k, v, b) Leaf) \<Longrightarrow>
   grown (Node l (a, k, v, b + 1) (Node Leaf (child, key, val, 0) Leaf)) (height (Node l (a, k, v, b) Leaf))"
  by (auto simp: grown_def max_def not_less_eq_eq le_Suc_eq)

lemma insert_internal_rep:
  assumes g: "gtree h tree t" and ko: "key_order (key_compare tree)" and H: "height t \<le> MAX_GTREE_HEIGHT"
    and new: "addr \<noteq> NULL" "addr \<notin> set (addrs t)"
  shows "\<exists>h' tree' t'. g_tree_insert_internal h tree addr key val replace = Some (h', tree', insert_calls tree t key replace) \<and>
    inserted h tree t addr key val replace h' tree' t'"
proof (cases "t = Leaf")
  case True
  let ?t' = "Node Leaf (addr, key, val, 0) Leaf :: tshape"
  have rt: "root tree = NULL" using g True by (simp add: gtree_def tree_at_def)
  have tr: "gtree (g_tree_node_new h addr key val) (tree\<lparr>root := addr, nnodes := nnodes tree + 1\<rparr>) ?t'"
    using g new True by (simp add: gtree_def tree_at_def g_tree_node_new_def node_of_def ordered_def)
  then have "inserted h tree t addr key val replace (g_tree_node_new h addr key val) (tree\<lparr>root := addr, nnodes := nnodes tree + 1\<rparr>) ?t'"
    using True g by (auto simp: inserted_def find_entry_def g_tree_node_new_def gtree_def)
  moreover have "g_tree_insert_internal h tree addr key val replace =
      Some (g_tree_node_new h addr key val, tree\<lparr>root := addr, nnodes := nnodes tree + 1\<rparr>, insert_calls tree t key replace)"
    using rt True by (simp add: g_tree_insert_internal_def insert_calls_def find_entry_def)
  ultimately show ?thesis by blast
next
  case False
  have ta: "tree_at h tree t" and av: "avl t" and or: "ordered (key_compare tree) (items t)" using g by (simp_all add: gtree_def)
  have rt: "root tree \<noteq> NULL" using ta False addr_of_mem[of t] by (auto simp: tree_at_def)
  obtain path fs l a k v b r where
    w: "walk (key_compare tree) h key new_path 1 (root tree) = Some (path, Suc (length fs), a, key_compare tree key k)"
    and p: "path_is path (Suc (length fs)) fs" and t: "t = plug fs (Node l (a, k, v, b) r)"
    and ends: "key_compare tree key k < 0 \<Longrightarrow> l = Leaf" "0 < key_compare tree key k \<Longrightarrow> r = Leaf"
    and go: "goes (key_compare tree) key fs"
    by (rule walk_root[OF ta False H, of "key_compare tree" key]) (rule that)
  have ha: "h a = Some (node_of (lo_of fs NULL) (hi_of fs NULL) l k v b r)" using ta t by (simp add: tree_at_def rep_plug)
  have avs: "avl (Node l (a, k, v, b) r)" and cv: "cavl fs (height (Node l (a, k, v, b) r))"
    using av unfolding t avl_plug by blast+
  have b: "\<bar>b\<bar> \<le> 1" using avs by auto
  let ?tree = "tree\<lparr>nnodes := nnodes tree + 1\<rparr>"
  consider "key_compare tree key k = 0" | "key_compare tree key k < 0" | "0 < key_compare tree key k" by linarith
  then show ?thesis
  proof cases
    case 1
    have "g_tree_insert_internal h tree addr key val replace = Some (
        h(a \<mapsto> node_of (lo_of fs NULL) (hi_of fs NULL) l (if replace then key else k) val b r), tree,
        insert_calls tree t key replace)"
      using rt w 1 ha insert_found(2)[OF g t ko go 1]
      by (simp add: g_tree_insert_internal_def insert_calls_def node_of_def)
    with insert_found(1)[OF g t ko go 1] show ?thesis by blast
  next
    case 2
    have tl: "tree_at h tree (plug fs (Node Leaf (a, k, v, b) r))" using ta t ends(1)[OF 2] by simp
    obtain h1 where h1: "insert_left h addr key val a = Some h1"
      "tree_at h1 tree (plug fs (Node (Node Leaf (addr, key, val, 0) Leaf) (a, k, v, b - 1) r))"
      "\<forall>x. x \<noteq> addr \<longrightarrow> x \<noteq> a \<longrightarrow> h1 x = h x"
      using insert_left_rep[OF tl b new(1)] new(2) t ends(1)[OF 2] by auto
    let ?t1 = "plug fs (Node (Node Leaf (addr, key, val, 0) Leaf) (a, k, v, b - 1) r)"
    have h1': "tree_at h1 ?tree ?t1" using h1(2) by (rule tree_at_upd_record) simp
    have gr: "grown (Node (Node Leaf (addr, key, val, 0) Leaf) (a, k, v, b - 1) r) (height (Node l (a, k, v, b) r))"
      using new_left_grown avs ends(1)[OF 2] by blast
    obtain h' tree' t' where ib: "insert_balance h1 ?tree path (Suc (length fs)) a = Some (h', tree')"
      and re: "restored h1 h' ?tree tree' ?t1 t'"
      using insert_balance_rep[OF h1' gr cv p] by auto
    have pp: "(\<forall>x \<in> set (pre fs). 0 < key_compare tree key (fst (snd x))) \<and>
        (\<forall>x \<in> set ((a, k, v) # items r @ post fs). key_compare tree key (fst (snd x)) < 0)"
      using key_order.way_pre_post_left[OF ko _ go 2] or t ends(1)[OF 2] by blast
    have out: "\<forall>x. x \<notin> set (addrs ?t1) \<longrightarrow> h1 x = h x" using h1(3) by (auto simp: addrs_plug)
    have ins: "inserted h tree t addr key val replace h' tree' t'" "find_entry (key_compare tree) key (tree_entries t) = None"
      using insert_new[OF g _ ko _ _ _ re out, of "pre fs" "(a, k, v) # items r @ post fs"] pp t ends(1)[OF 2]
      by (simp_all add: items_plug)
    have "g_tree_insert_internal h tree addr key val replace = Some (h', tree', insert_calls tree t key replace)"
      using rt w 2 h1(1) ib ins(2) by (simp add: g_tree_insert_internal_def insert_calls_def)
    with ins(1) show ?thesis by blast
  next
    case 3
    have tl: "tree_at h tree (plug fs (Node l (a, k, v, b) Leaf))" using ta t ends(2)[OF 3] by simp
    obtain h1 where h1: "insert_right h addr key val a = Some h1"
      "tree_at h1 tree (plug fs (Node l (a, k, v, b + 1) (Node Leaf (addr, key, val, 0) Leaf)))"
      "\<forall>x. x \<noteq> addr \<longrightarrow> x \<noteq> a \<longrightarrow> h1 x = h x"
      using insert_right_rep[OF tl b new(1)] new(2) t ends(2)[OF 3] by auto
    let ?t1 = "plug fs (Node l (a, k, v, b + 1) (Node Leaf (addr, key, val, 0) Leaf))"
    have h1': "tree_at h1 ?tree ?t1" using h1(2) by (rule tree_at_upd_record) simp
    have gr: "grown (Node l (a, k, v, b + 1) (Node Leaf (addr, key, val, 0) Leaf)) (height (Node l (a, k, v, b) r))"
      using new_right_grown avs ends(2)[OF 3] by blast
    obtain h' tree' t' where ib: "insert_balance h1 ?tree path (Suc (length fs)) a = Some (h', tree')"
      and re: "restored h1 h' ?tree tree' ?t1 t'"
      using insert_balance_rep[OF h1' gr cv p] by auto
    have pp: "(\<forall>x \<in> set (pre fs @ items l @ [(a, k, v)]). 0 < key_compare tree key (fst (snd x))) \<and>
        (\<forall>x \<in> set (post fs). key_compare tree key (fst (snd x)) < 0)"
      using key_order.way_pre_post_right[OF ko _ go 3] or t ends(2)[OF 3] by blast
    have out: "\<forall>x. x \<notin> set (addrs ?t1) \<longrightarrow> h1 x = h x" using h1(3) by (auto simp: addrs_plug)
    have ins: "inserted h tree t addr key val replace h' tree' t'" "find_entry (key_compare tree) key (tree_entries t) = None"
      using insert_new[OF g _ ko _ _ _ re out, of "pre fs @ items l @ [(a, k, v)]" "post fs"] pp t ends(2)[OF 3]
      by (simp_all add: items_plug)
    have "g_tree_insert_internal h tree addr key val replace = Some (h', tree', insert_calls tree t key replace)"
      using rt w 3 h1(1) ib ins(2) by (simp add: g_tree_insert_internal_def insert_calls_def)
    with ins(1) show ?thesis by blast
  qed
qed

end
