(* ===== verification/Glib_Tree_Remove.thy ===== *)
theory Glib_Tree_Remove
  imports Glib_Tree_Insert
begin

text \<open>
  Removal. A node with at most one child is replaced by it; a node with two is replaced by the next one, which
  leaves its own place. Either way a subtree gets lower by one, in a context whose innermost frame has been
  told so (\<open>lowered\<close>), and the balance is restored from there. The threads that led to the removed node lead past it.
\<close>

section \<open>First and last nodes\<close>

lemma leftmost_rep:
  "rep h lo hi t \<Longrightarrow> t \<noteq> Leaf \<Longrightarrow> leftmost h (addr_of t) = Some (fst (hd (items t)))"
proof (induction t arbitrary: hi)
  case (Node l c r)
  obtain a k v b where c: "c = (a, k, v, b)" by (cases c) auto
  show ?case using Node.prems c Node.IH(1)[of a] by (cases "l = Leaf") (subst leftmost.simps; simp)+
qed simp

lemma rightmost_rep:
  "rep h lo hi t \<Longrightarrow> t \<noteq> Leaf \<Longrightarrow> rightmost h (addr_of t) = Some (fst (last (items t)))"
proof (induction t arbitrary: lo)
  case (Node l c r)
  obtain a k v b where c: "c = (a, k, v, b)" by (cases c) auto
  show ?case using Node.prems c Node.IH(2)[of a] by (cases "r = Leaf") (subst rightmost.simps; simp)+
qed simp

lemma first_addr: "t \<noteq> Leaf \<Longrightarrow> fst (hd (items t)) \<in> set (addrs t)"
  by (simp add: addrs_def)

lemma last_addr: "t \<noteq> Leaf \<Longrightarrow> fst (last (items t)) \<in> set (addrs t)"
  by (simp add: addrs_def)

lemma node_of_threads:
  "(node_of lo hi Leaf k v b r)\<lparr>n_left := lo'\<rparr> = node_of lo' hi Leaf k v b r"
  "(node_of lo hi l k v b Leaf)\<lparr>n_right := hi'\<rparr> = node_of lo hi' l k v b Leaf"
  by (simp_all add: node_of_def)

text \<open>The thread of the first node, and of the last one, gets another end.\<close>

lemma set_first_left:
  "rep h lo hi t \<Longrightarrow> t \<noteq> Leaf \<Longrightarrow> distinct (addrs t) \<Longrightarrow>
   \<exists>n. h (fst (hd (items t))) = Some n \<and> rep (h(fst (hd (items t)) \<mapsto> n\<lparr>n_left := lo'\<rparr>)) lo' hi t"
proof (induction t arbitrary: hi)
  case (Node l c r)
  obtain a k v b where c: "c = (a, k, v, b)" by (cases c) auto
  show ?case
  proof (cases "l = Leaf")
    case True
    have "rep (h(a \<mapsto> node_of lo' hi Leaf k v b r)) lo' hi (Node Leaf (a, k, v, b) r)" using Node.prems c by simp
    moreover have "h a = Some (node_of lo hi Leaf k v b r)" "fst (hd (items (Node l c r))) = a" using Node.prems c True by simp_all
    ultimately show ?thesis unfolding True c by (metis node_of_threads(1))
  next
    case False
    obtain n where n: "h (fst (hd (items l))) = Some n" "rep (h(fst (hd (items l)) \<mapsto> n\<lparr>n_left := lo'\<rparr>)) lo' a l"
    proof -
      have "rep h lo a l" "distinct (addrs l)" using Node.prems c by simp_all
      then show thesis using Node.IH(1)[of a] False that by blast
    qed
    have "fst (hd (items l)) \<in> set (addrs l)" using False by (rule first_addr)
    then have "fst (hd (items l)) \<noteq> a" "fst (hd (items l)) \<notin> set (addrs r)" using Node.prems(3) c by auto
    moreover define h1 where "h1 = h(fst (hd (items l)) \<mapsto> n\<lparr>n_left := lo'\<rparr>)"
    ultimately have "h1 a = h a" "rep h1 a hi r" using Node.prems(1) c rep_upd[of "fst (hd (items l))" r h] by simp_all
    moreover have "rep h1 lo' a l" using n(2) unfolding h1_def .
    ultimately have "rep h1 lo' hi (Node l c r)" using Node.prems(1) c False by (simp add: node_of_def)
    moreover have "hd (items (Node l c r)) = hd (items l)" using False c by simp
    ultimately show ?thesis using n(1) unfolding h1_def by metis
  qed
qed simp

lemma set_last_right:
  "rep h lo hi t \<Longrightarrow> t \<noteq> Leaf \<Longrightarrow> distinct (addrs t) \<Longrightarrow>
   \<exists>n. h (fst (last (items t))) = Some n \<and> rep (h(fst (last (items t)) \<mapsto> n\<lparr>n_right := hi'\<rparr>)) lo hi' t"
proof (induction t arbitrary: lo)
  case (Node l c r)
  obtain a k v b where c: "c = (a, k, v, b)" by (cases c) auto
  show ?case
  proof (cases "r = Leaf")
    case True
    have "rep (h(a \<mapsto> node_of lo hi' l k v b Leaf)) lo hi' (Node l (a, k, v, b) Leaf)" using Node.prems c by simp
    moreover have "h a = Some (node_of lo hi l k v b Leaf)" "fst (last (items (Node l c r))) = a" using Node.prems c True by simp_all
    ultimately show ?thesis unfolding True c by (metis node_of_threads(2))
  next
    case False
    obtain n where n: "h (fst (last (items r))) = Some n" "rep (h(fst (last (items r)) \<mapsto> n\<lparr>n_right := hi'\<rparr>)) a hi' r"
    proof -
      have "rep h a hi r" "distinct (addrs r)" using Node.prems c by simp_all
      then show thesis using Node.IH(2)[of a] False that by blast
    qed
    have "fst (last (items r)) \<in> set (addrs r)" using False by (rule last_addr)
    then have "fst (last (items r)) \<noteq> a" "fst (last (items r)) \<notin> set (addrs l)" using Node.prems(3) c by auto
    moreover define h1 where "h1 = h(fst (last (items r)) \<mapsto> n\<lparr>n_right := hi'\<rparr>)"
    ultimately have "h1 a = h a" "rep h1 lo a l" using Node.prems(1) c rep_upd[of "fst (last (items r))" l h] by simp_all
    moreover have "rep h1 a hi' r" using n(2) unfolding h1_def .
    ultimately have "rep h1 lo hi' (Node l c r)" using Node.prems(1) c False by (simp add: node_of_def)
    moreover have "last (items (Node l c r)) = last (items r)" using False c by simp
    ultimately show ?thesis using n(1) unfolding h1_def by metis
  qed
qed simp

section \<open>A lower subtree\<close>

definition lowered :: "frame list \<Rightarrow> tshape \<Rightarrow> tshape" where
  "lowered fs t = (case fs of [] \<Rightarrow> t
     | (l, (a, k, v, b), s) # fs' \<Rightarrow> plug fs' (fill (l, (a, k, v, b + (if l then 1 else -1)), s) t))"

lemma lowered_simps [simp]:
  "lowered [] t = t"
  "lowered ((l, (a, k, v, b), s) # fs) t = plug fs (fill (l, (a, k, v, b + (if l then 1 else -1)), s) t)"
  by (simp_all add: lowered_def)

lemma items_lower: "items (lowered fs t) = pre fs @ items t @ post fs"
  by (cases fs rule: frames_cases) (simp_all add: items_plug)

text \<open>Where the balance has to be restored from, if it has: \<open>balance\<close> with the path above it.\<close>

definition unbalanced :: "gheap \<Rightarrow> GTree \<Rightarrow> gpointer list \<Rightarrow> nat \<Rightarrow> gpointer \<Rightarrow> (gpointer \<times> gpointer \<times> gpointer) list \<Rightarrow> bool" where
  "unbalanced h tree path idx balance xs \<longleftrightarrow>
     (if balance = NULL then \<exists>t. tree_at h tree t \<and> avl t \<and> items t = xs
      else \<exists>fs t n. balance = addr_of t \<and> tree_at h tree (plug fs t) \<and> shrunk t n \<and> cavl fs n \<and> path_is path idx fs \<and>
             items (plug fs t) = xs)"

lemma lower_unbalanced:
  assumes t: "tree_at h tree (lowered fs t)" and a: "avl t" and c: "cavl fs (Suc (height t))" and p: "path_is path (Suc idx) fs"
  shows "unbalanced h tree path idx (parent_of fs) (pre fs @ items t @ post fs)"
proof (cases fs)
  case Nil
  then show ?thesis using t a by (auto simp: unbalanced_def parent_of_def)
next
  case (Cons f fs')
  obtain l k v b s x where f: "f = (l, (x, k, v, b), s)" by (cases f) auto
  let ?t = "fill (l, (x, k, v, b + (if l then 1 else -1)), s) t"
  have x: "addr_of ?t = x" "x \<in> set (addrs ?t)" by (cases l; simp)+
  have at: "tree_at h tree (plug fs' ?t)" using t Cons f by simp
  then have "x \<noteq> NULL" using x(2) by (auto simp: tree_at_def set_addrs_plug)
  moreover have "shrunk ?t (Suc (max (Suc (height t)) (height s)))"
    using c Cons f shrunk_Left[of x k v b s fs' "Suc (height t)" t] shrunk_Right[of x k v b s fs' "Suc (height t)" t] a
    by (cases l) (simp_all del: cavl.simps)
  moreover have "cavl fs' (Suc (max (Suc (height t)) (height s)))" using c Cons f by (cases l) simp_all
  moreover have "path_is path idx fs'" using p Cons by (elim path_is_pop) simp
  moreover have "items (plug fs' ?t) = pre fs @ items t @ post fs" using items_lower[of fs t] Cons f by simp
  ultimately have "unbalanced h tree path idx x (pre fs @ items t @ post fs)"
    using at x(1) unfolding unbalanced_def by (auto intro!: exI[of _ fs'] exI[of _ ?t])
  then show ?thesis using Cons f by (simp add: parent_of_def)
qed

lemma set_child_shrunk_frame:
  assumes t: "tree_at h tree (plug fs t)" and ne: "t \<noteq> Leaf" "t' \<noteq> Leaf" and sub: "set (addrs t') \<subseteq> set (addrs t)"
    and r: "rep h1 (lo_of fs NULL) (hi_of fs NULL) t'" and out: "\<forall>x. x \<notin> set (addrs t) \<longrightarrow> h1 x = h x"
    and d: "distinct (addrs t')" and c: "cavl fs n"
  shows "\<exists>h' tree'. set_child_shrunk h1 tree (parent_of fs) (side_of fs) (addr_of t') = Some (h', tree') \<and>
    tree_at h' tree' (lowered fs t') \<and> tree' = tree\<lparr>root := root tree'\<rparr> \<and>
    (\<forall>x. x \<notin> set (addrs (plug fs t)) \<longrightarrow> h' x = h x) \<and> (\<forall>x. x \<in> set (addrs t) \<longrightarrow> h' x = h1 x)"
proof -
  obtain h2 tree2 where s: "set_child h1 tree (parent_of fs) (side_of fs) (addr_of t') = Some (h2, tree2)"
    "tree_at h2 tree2 (plug fs t')" "tree2 = tree\<lparr>root := addr_of (plug fs t')\<rparr>"
    "\<forall>x. x \<notin> set (addrs (plug fs t)) \<longrightarrow> h2 x = h x" "\<forall>x. x \<in> set (addrs t) \<longrightarrow> h2 x = h1 x"
    using set_child_frame[OF t ne sub r out d] by blast
  show ?thesis
  proof (cases fs)
    case Nil
    then show ?thesis using s by (auto simp: set_child_shrunk_def parent_of_def)
  next
    case (Cons f fs')
    obtain l k v b s0 x where f: "f = (l, (x, k, v, b), s0)" by (cases f) auto
    have b: "\<bar>b\<bar> \<le> 1" using c Cons f by (cases l) auto
    have x: "x \<in> caddrs fs" using Cons f by (cases l) simp_all
    moreover have "NULL \<notin> set (addrs (plug fs t))" "set (addrs t) \<inter> caddrs fs = {}"
      using t distinct_plug[of fs t] by (auto simp: tree_at_def)
    ultimately have x': "x \<noteq> NULL" "x \<notin> set (addrs t)" by (auto simp: set_addrs_plug)
    obtain h3 where h3: "add_balance h2 x (if l then 1 else -1) = Some h3" "tree_at h3 tree2 (lowered fs t')"
      "\<forall>y. y \<noteq> x \<longrightarrow> h3 y = h2 y"
      by (rule step_up[of h2 tree2 l x k v b s0 fs' t' "if l then 1 else -1"]) (use s(2) b Cons f in auto)
    have "set_child_shrunk h1 tree (parent_of fs) (side_of fs) (addr_of t') = Some (h3, tree2)"
      using s(1) h3(1) x'(1) Cons f by (simp add: set_child_shrunk_def parent_of_def side_of_def)
    moreover have "tree2 = tree\<lparr>root := root tree2\<rparr>" using s(3) by simp
    moreover have "\<forall>y. y \<notin> set (addrs (plug fs t)) \<longrightarrow> h3 y = h y" using h3(3) s(4) x by (auto simp: set_addrs_plug)
    moreover have "\<forall>y. y \<in> set (addrs t) \<longrightarrow> h3 y = h1 y" using h3(3) s(5) x'(2) by auto
    ultimately show ?thesis using h3(2) by blast
  qed
qed

section \<open>A node with at most one child\<close>

text \<open>What taking a node out of its place leaves; the node itself is not changed in key and value.\<close>

definition taken_out ::
    "gheap \<Rightarrow> GTree \<Rightarrow> tshape \<Rightarrow> gpointer \<times> gpointer \<times> gpointer \<Rightarrow> gheap \<Rightarrow> GTree \<Rightarrow> tshape \<Rightarrow> bool" where
  "taken_out h tree t x h' tree' t' \<longleftrightarrow>
     tree_at h' tree' t' \<and> tree' = tree\<lparr>root := root tree'\<rparr> \<and> (\<forall>y. y \<notin> set (addrs t) \<longrightarrow> h' y = h y) \<and>
     (\<exists>n. h' (fst x) = Some n \<and> n_key n = fst (snd x) \<and> n_value n = snd (snd x))"

lemma remove_with_right_rep:
  assumes t: "tree_at h tree (plug fs (Node Leaf (a, k, v, b) r))" and r: "r \<noteq> Leaf" and c: "cavl fs n"
  shows "\<exists>h' tree'. remove_with_right h tree (parent_of fs) (side_of fs) a = Some (h', tree') \<and>
    taken_out h tree (plug fs (Node Leaf (a, k, v, b) r)) (a, k, v) h' tree' (lowered fs r)"
proof -
  let ?t = "Node Leaf (a, k, v, b) r" and ?lo = "lo_of fs NULL" and ?hi = "hi_of fs NULL"
  let ?x = "fst (hd (items r))"
  have "rep h ?lo ?hi ?t" "distinct (addrs ?t)" using t distinct_plug[of fs ?t] by (auto simp: tree_at_def rep_plug)
  then have ha: "h a = Some (node_of ?lo ?hi Leaf k v b r)" and rr: "rep h a ?hi r"
    and d: "a \<notin> set (addrs r)" "distinct (addrs r)" by simp_all
  have lm: "leftmost h (addr_of r) = Some ?x" using rr r by (rule leftmost_rep)
  obtain n where n: "h ?x = Some n" "rep (h(?x \<mapsto> n\<lparr>n_left := ?lo\<rparr>)) ?lo ?hi r"
    using set_first_left[OF rr r d(2)] by blast
  have x: "?x \<in> set (addrs r)" using r by (rule first_addr)
  define h1 where "h1 = h(?x \<mapsto> n\<lparr>n_left := ?lo\<rparr>)"
  have h1: "rep h1 ?lo ?hi r" "\<forall>y. y \<notin> set (addrs ?t) \<longrightarrow> h1 y = h y" "h1 a = h a" "set_node h ?x (n_left_update (\<lambda>_. ?lo)) = Some h1"
    using n x d(1) by (auto simp: h1_def)
  obtain h' tree' where s: "set_child_shrunk h1 tree (parent_of fs) (side_of fs) (addr_of r) = Some (h', tree')"
    "tree_at h' tree' (lowered fs r)" "tree' = tree\<lparr>root := root tree'\<rparr>"
    "\<forall>y. y \<notin> set (addrs (plug fs ?t)) \<longrightarrow> h' y = h y" "\<forall>y. y \<in> set (addrs ?t) \<longrightarrow> h' y = h1 y"
    using set_child_shrunk_frame[OF t _ r _ h1(1,2) d(2) c] by auto
  have "remove_with_right h tree (parent_of fs) (side_of fs) a = Some (h', tree')"
    using ha lm h1(4) s(1) r by (simp add: remove_with_right_def g_tree_node_next_def)
  moreover have "h' a = h a" using s(5) h1(3) by simp
  ultimately show ?thesis using s(2-4) ha by (auto simp: taken_out_def)
qed

lemma remove_with_left_rep:
  assumes t: "tree_at h tree (plug fs (Node l (a, k, v, b) Leaf))" and l: "l \<noteq> Leaf" and c: "cavl fs n"
  shows "\<exists>h' tree'. remove_with_left h tree (parent_of fs) (side_of fs) a = Some (h', tree') \<and>
    taken_out h tree (plug fs (Node l (a, k, v, b) Leaf)) (a, k, v) h' tree' (lowered fs l)"
proof -
  let ?t = "Node l (a, k, v, b) Leaf" and ?lo = "lo_of fs NULL" and ?hi = "hi_of fs NULL"
  let ?x = "fst (last (items l))"
  have "rep h ?lo ?hi ?t" "distinct (addrs ?t)" using t distinct_plug[of fs ?t] by (auto simp: tree_at_def rep_plug)
  then have ha: "h a = Some (node_of ?lo ?hi l k v b Leaf)" and ll: "rep h ?lo a l"
    and d: "a \<notin> set (addrs l)" "distinct (addrs l)" by simp_all
  have rm: "rightmost h (addr_of l) = Some ?x" using ll l by (rule rightmost_rep)
  obtain n where n: "h ?x = Some n" "rep (h(?x \<mapsto> n\<lparr>n_right := ?hi\<rparr>)) ?lo ?hi l"
    using set_last_right[OF ll l d(2)] by blast
  have x: "?x \<in> set (addrs l)" using l by (rule last_addr)
  define h1 where "h1 = h(?x \<mapsto> n\<lparr>n_right := ?hi\<rparr>)"
  have h1: "rep h1 ?lo ?hi l" "\<forall>y. y \<notin> set (addrs ?t) \<longrightarrow> h1 y = h y" "h1 a = h a" "set_node h ?x (n_right_update (\<lambda>_. ?hi)) = Some h1"
    using n x d(1) by (auto simp: h1_def)
  obtain h' tree' where s: "set_child_shrunk h1 tree (parent_of fs) (side_of fs) (addr_of l) = Some (h', tree')"
    "tree_at h' tree' (lowered fs l)" "tree' = tree\<lparr>root := root tree'\<rparr>"
    "\<forall>y. y \<notin> set (addrs (plug fs ?t)) \<longrightarrow> h' y = h y" "\<forall>y. y \<in> set (addrs ?t) \<longrightarrow> h' y = h1 y"
    using set_child_shrunk_frame[OF t _ l _ h1(1,2) d(2) c] by auto
  have "remove_with_left h tree (parent_of fs) (side_of fs) a = Some (h', tree')"
    using ha rm h1(4) s(1) l by (simp add: remove_with_left_def g_tree_node_previous_def)
  moreover have "h' a = h a" using s(5) h1(3) by simp
  ultimately show ?thesis using s(2-4) ha by (auto simp: taken_out_def)
qed

lemma remove_leaf_rep:
  assumes t: "tree_at h tree (plug fs (Node Leaf (a, k, v, b) Leaf))" and c: "cavl fs n"
  shows "\<exists>h' tree'. remove_leaf h tree (parent_of fs) (side_of fs) a = Some (h', tree') \<and>
    taken_out h tree (plug fs (Node Leaf (a, k, v, b) Leaf)) (a, k, v) h' tree' (lowered fs Leaf)"
proof (cases fs rule: frames_cases)
  case Nil
  then show ?thesis using t by (auto simp: remove_leaf_def parent_of_def taken_out_def tree_at_def)
next
  case (Left p pk pv pb s fs')
  let ?t = "Node Leaf (a, k, v, b) Leaf"
  let ?lo = "lo_of fs' NULL" and ?hi = "hi_of fs' NULL"
  let ?h = "h(p \<mapsto> node_of ?lo ?hi Leaf pk pv (pb + 1) s)"
  have at: "rep h NULL NULL (plug fs ?t)" "distinct (addrs (plug fs ?t))" "NULL \<notin> set (addrs (plug fs ?t))"
    "root tree = addr_of (plug fs ?t)" using t by (auto simp: tree_at_def)
  have ha: "h a = Some (node_of ?lo p Leaf k v b Leaf)" and hp: "h p = Some (node_of ?lo ?hi ?t pk pv pb s)"
    and hs: "rep h p ?hi s" and cr: "crep h NULL NULL fs' (Node ?t (p, pk, pv, pb) s)"
    using at(1) Left by (auto simp: rep_plug)
  have d: "p \<noteq> a" "p \<notin> set (addrs s)" "p \<notin> caddrs fs'"
    using distinct_plug[of fs' "Node ?t (p, pk, pv, pb) s"] at(2) Left by auto
  have p0: "p \<noteq> NULL" using at(3) Left by (auto simp: set_addrs_plug)
  have pb: "\<bar>pb\<bar> \<le> 1" using c Left by auto
  have "remove_leaf h tree (parent_of fs) (side_of fs) a = Some (?h, tree)"
    using ha hp p0 pb d(1) Left
    by (simp add: remove_leaf_def set_child_shrunk_def set_child_def add_balance_def parent_of_def side_of_def node_of_def)
  moreover have "tree_at ?h tree (lowered fs Leaf)"
  proof -
    have "crep h NULL NULL fs' (Node Leaf (p, pk, pv, pb + 1) s)"
      using cr by (subst crep_cong[where h' = h and t' = "Node ?t (p, pk, pv, pb) s"]) auto
    then have "rep ?h NULL NULL (lowered fs Leaf)" using hs d Left by (simp add: rep_plug)
    moreover have "addr_of (lowered fs Leaf) = addr_of (plug fs ?t)"
      using Left addr_of_plug[of fs' "Node Leaf (p, pk, pv, pb + 1) s" "Node ?t (p, pk, pv, pb) s"] by (cases "fs' = []") auto
    ultimately show ?thesis using at Left by (simp add: tree_at_def addrs_plug)
  qed
  ultimately show ?thesis using ha d(1) Left by (auto simp: taken_out_def set_addrs_plug)
next
  case (Right p pk pv pb s fs')
  let ?t = "Node Leaf (a, k, v, b) Leaf"
  let ?lo = "lo_of fs' NULL" and ?hi = "hi_of fs' NULL"
  let ?h = "h(p \<mapsto> node_of ?lo ?hi s pk pv (pb + -1) Leaf)"
  have at: "rep h NULL NULL (plug fs ?t)" "distinct (addrs (plug fs ?t))" "NULL \<notin> set (addrs (plug fs ?t))"
    "root tree = addr_of (plug fs ?t)" using t by (auto simp: tree_at_def)
  have ha: "h a = Some (node_of p ?hi Leaf k v b Leaf)" and hp: "h p = Some (node_of ?lo ?hi s pk pv pb ?t)"
    and hs: "rep h ?lo p s" and cr: "crep h NULL NULL fs' (Node s (p, pk, pv, pb) ?t)"
    using at(1) Right by (auto simp: rep_plug)
  have d: "p \<noteq> a" "p \<notin> set (addrs s)" "p \<notin> caddrs fs'"
    using distinct_plug[of fs' "Node s (p, pk, pv, pb) ?t"] at(2) Right by auto
  have p0: "p \<noteq> NULL" using at(3) Right by (auto simp: set_addrs_plug)
  have pb: "\<bar>pb\<bar> \<le> 1" using c Right by auto
  have "remove_leaf h tree (parent_of fs) (side_of fs) a = Some (?h, tree)"
    using ha hp p0 pb d(1) Right
    by (simp add: remove_leaf_def set_child_shrunk_def set_child_def add_balance_def parent_of_def side_of_def node_of_def)
  moreover have "tree_at ?h tree (lowered fs Leaf)"
  proof -
    have "crep h NULL NULL fs' (Node s (p, pk, pv, pb + -1) Leaf)"
      using cr by (subst crep_cong[where h' = h and t' = "Node s (p, pk, pv, pb) ?t"]) auto
    then have "rep ?h NULL NULL (lowered fs Leaf)" using hs d Right by (simp add: rep_plug)
    moreover have "addr_of (lowered fs Leaf) = addr_of (plug fs ?t)"
      using Right addr_of_plug[of fs' "Node s (p, pk, pv, pb + -1) Leaf" "Node s (p, pk, pv, pb) ?t"] by (cases "fs' = []") auto
    ultimately show ?thesis using at Right by (simp add: tree_at_def addrs_plug)
  qed
  ultimately show ?thesis using ha d(1) Right by (auto simp: taken_out_def set_addrs_plug)
qed

section \<open>A node with both children\<close>

lemma plug_append: "plug (fs @ gs) t = plug gs (plug fs t)"
  by (induction fs arbitrary: t rule: frames_induct) simp_all

text \<open>Frames that all go to the left: those between a node and the first one after it.\<close>

definition all_left :: "frame list \<Rightarrow> bool" where
  "all_left fs \<longleftrightarrow> (\<forall>f \<in> set fs. fst f)"

lemma all_left_simps [simp]:
  "all_left []" "all_left ((l, c, s) # fs) \<longleftrightarrow> l \<and> all_left fs"
  by (auto simp: all_left_def)

lemma all_left_append [simp]: "all_left (fs @ gs) \<longleftrightarrow> all_left fs \<and> all_left gs"
  by (auto simp: all_left_def)

lemma lo_of_all_left: "all_left fs \<Longrightarrow> lo_of fs lo = lo"
  by (induction fs rule: frames_induct) simp_all

lemma crep_all_left: "all_left fs \<Longrightarrow> t \<noteq> Leaf \<Longrightarrow> crep h lo hi fs t \<longleftrightarrow> crep h lo' hi fs t"
  by (induction fs arbitrary: t rule: frames_induct) (simp_all add: node_of_def)

lemma find_next_rep:
  assumes "rep h lo hi t" and "t \<noteq> Leaf" and "length path = MAX_GTREE_HEIGHT" and "idx + height t \<le> MAX_GTREE_HEIGHT"
  shows "\<exists>path' cr x k v b r. find_next h path idx nextp (addr_of t) =
      Some (path', idx + length cr, if cr = [] then nextp else faddr (hd cr), x) \<and>
    t = plug cr (Node Leaf (x, k, v, b) r) \<and> all_left cr \<and> length path' = MAX_GTREE_HEIGHT \<and>
    idx + length cr < MAX_GTREE_HEIGHT \<and>
    take (Suc (idx + length cr)) path' = take (Suc idx) path @ map faddr (rev cr)"
  using assms
proof (induction t arbitrary: hi path idx nextp)
  case (Node l c r)
  obtain a k v b where c: "c = (a, k, v, b)" by (cases c) auto
  show ?case
  proof (cases "l = Leaf")
    case True
    have "find_next h path idx nextp a = Some (path, idx, nextp, a)"
      using Node.prems(1) c True by (subst find_next.simps) simp
    moreover have "idx < MAX_GTREE_HEIGHT" using Node.prems(4) by simp
    ultimately show ?thesis using Node.prems(3) c True
      by (intro exI[of _ path] exI[of _ "[]"] exI[of _ a] exI[of _ k] exI[of _ v] exI[of _ b] exI[of _ r]) simp
  next
    case False
    let ?f = "(True, (a, k, v, b), r)" and ?path = "path[Suc idx := a]"
    have "1 \<le> height l" using False by (cases l) auto
    then have lt: "Suc idx < MAX_GTREE_HEIGHT" using Node.prems(4) by simp
    have "find_next h path idx nextp a = find_next h ?path (Suc idx) a (addr_of l)"
      using Node.prems(1,3) c False lt by (subst find_next.simps) (simp add: set_path_def)
    moreover obtain path' cr x k' v' b' r' where w: "find_next h ?path (Suc idx) a (addr_of l) =
        Some (path', Suc idx + length cr, if cr = [] then a else faddr (hd cr), x)"
      "l = plug cr (Node Leaf (x, k', v', b') r')" "all_left cr" "length path' = MAX_GTREE_HEIGHT"
      "Suc idx + length cr < MAX_GTREE_HEIGHT"
      "take (Suc (Suc idx + length cr)) path' = take (Suc (Suc idx)) ?path @ map faddr (rev cr)"
    proof -
      have "rep h lo a l" "length ?path = MAX_GTREE_HEIGHT" "Suc idx + height l \<le> MAX_GTREE_HEIGHT"
        using Node.prems c by simp_all
      from Node.IH(1)[OF this(1) False this(2,3), of a] show thesis by (elim exE conjE) (rule that)
    qed
    moreover have "take (Suc (Suc idx)) ?path = take (Suc idx) path @ [a]"
      using lt Node.prems(3) by (simp add: take_Suc_conv_app_nth)
    moreover have "plug (cr @ [?f]) t = Node (plug cr t) (a, k, v, b) r" for t by (simp add: plug_append)
    ultimately show ?thesis using c
      by (intro exI[of _ path'] exI[of _ "cr @ [?f]"] exI[of _ x] exI[of _ k'] exI[of _ v'] exI[of _ b'] exI[of _ r'])
        (simp add: hd_append)
  qed
qed simp

text \<open>The next node leaves its place in the right subtree, whose first thread is to lead to it.\<close>

definition unlinked ::
    "gheap \<Rightarrow> gpointer \<Rightarrow> gpointer \<Rightarrow> tshape \<Rightarrow> cell \<Rightarrow> tshape \<Rightarrow> cell \<Rightarrow> tshape \<Rightarrow> gheap \<Rightarrow> bool" where
  "unlinked h lo hi l c r x r' h' \<longleftrightarrow>
     (\<exists>n. h' (fst x) = Some n \<and> n_key n = fst (snd x) \<and> n_value n = fst (snd (snd x)) \<and>
          n_right n = (if r' = Leaf then hi else addr_of r') \<and> n_right_child n = (r' \<noteq> Leaf)) \<and>
     rep h' (fst x) hi r' \<and>
     h' (fst c) = Some (node_of lo hi l (fst (snd c)) (fst (snd (snd c))) (snd (snd (snd c))) r) \<and>
     (\<forall>y. y \<noteq> fst c \<longrightarrow> y \<notin> set (addrs r) \<longrightarrow> h' y = h y)"

lemma unlink_right_child:
  assumes "h a = Some (node_of lo hi l k v b r)" and "rep h a hi r" and r: "r = Node Leaf (x, xk, xv, xb) rn"
    and "a \<notin> set (addrs r)" and "distinct (addrs r)" and "\<bar>b\<bar> \<le> 1"
  shows "\<exists>h'. unlink_next h a a x = Some h' \<and> unlinked h lo hi l (a, k, v, b - 1) r (x, xk, xv, xb) rn h'"
proof -
  let ?h = "h(a \<mapsto> node_of lo hi l k v (b - 1) r)"
  have "unlink_next h a a x = Some ?h" using assms(1,6) by (simp add: unlink_next_def add_balance_def node_of_def)
  moreover have "unlinked h lo hi l (a, k, v, b - 1) r (x, xk, xv, xb) rn ?h"
    using assms by (auto simp: unlinked_def)
  ultimately show ?thesis by blast
qed

lemma unlink_deeper:
  assumes ha: "h a = Some (node_of lo hi l k v b r)" and rr: "rep h a hi r"
    and r: "r = plug ((True, (p, pk, pv, pb), s) # cr) (Node Leaf (x, xk, xv, xb) rn)" and al: "all_left cr"
    and d: "a \<notin> set (addrs r)" "distinct (addrs r)" and pb: "\<bar>pb\<bar> \<le> 1"
  shows "\<exists>h'. unlink_next h a p x = Some h' \<and>
    unlinked h lo hi l (a, k, v, b) r (x, xk, xv, xb) (plug cr (Node rn (p, pk, pv, pb + 1) s)) h'"
proof -
  let ?x = "Node Leaf (x, xk, xv, xb) rn" and ?hi = "hi_of cr hi"
  let ?r' = "plug cr (Node rn (p, pk, pv, pb + 1) s)"
  have r0: "r = plug cr (Node ?x (p, pk, pv, pb) s)" using r by simp
  have lo: "lo_of cr a = a" using al by (rule lo_of_all_left)
  have rp: "h x = Some (node_of a p Leaf xk xv xb rn)" "rep h x p rn" "h p = Some (node_of a ?hi ?x pk pv pb s)"
    "rep h p ?hi s" "crep h a hi cr (Node ?x (p, pk, pv, pb) s)"
    using rr unfolding r0 rep_plug lo by simp_all
  have ne: "p \<noteq> x" "p \<notin> set (addrs rn)" "p \<notin> set (addrs s)" "x \<notin> set (addrs rn)" "x \<notin> set (addrs s)"
    "p \<notin> caddrs cr" "x \<notin> caddrs cr" "a \<noteq> p" "a \<noteq> x"
    using distinct_plug[of cr "Node ?x (p, pk, pv, pb) s"] d unfolding r0 by (auto simp: set_addrs_plug)
  have mem: "p \<in> set (addrs r)" "x \<in> set (addrs r)" unfolding r0 by (simp_all add: set_addrs_plug)
  have rne: "r \<noteq> Leaf" "?r' \<noteq> Leaf" unfolding r0 by (simp_all add: plug_Leaf)
  have ar: "addr_of ?r' = addr_of r"
    using addr_of_plug[of cr "Node rn (p, pk, pv, pb + 1) s" "Node ?x (p, pk, pv, pb) s"] unfolding r0 by (cases "cr = []") auto
  let ?nx = "\<lparr>n_key = xk, n_value = xv, n_left = a, n_right = addr_of r, n_balance = xb, n_left_child = False, n_right_child = True\<rparr>"
  let ?h = "h(p \<mapsto> node_of x ?hi rn pk pv (pb + 1) s, x \<mapsto> ?nx)"
  have "unlink_next h a p x = Some ?h"
    using ha rp(1,3) ne rne pb by (simp add: unlink_next_def add_balance_def node_of_def Let_def fun_upd_twist)
  moreover have "rep ?h x hi ?r'"
  proof -
    have "crep h x hi cr (Node rn (p, pk, pv, pb + 1) s)"
    proof -
      have "crep h x hi cr (Node ?x (p, pk, pv, pb) s)"
        using rp(5) crep_all_left[OF al, of "Node ?x (p, pk, pv, pb) s" h a hi x] by simp
      then show ?thesis by (subst crep_cong[where h' = h and t' = "Node ?x (p, pk, pv, pb) s"]) auto
    qed
    then show ?thesis using rp ne lo_of_all_left[OF al, of x] by (simp add: rep_plug)
  qed
  ultimately show ?thesis using ha ne mem ar rne by (auto simp: unlinked_def)
qed

text \<open>The next node takes the place: the thread of the last node on the left leads to it, and it gets the left subtree.\<close>

lemma replace_by_next:
  assumes u: "unlinked h lo hi l (a, k, v, b) r (x, xk, xv, xb) r' h1" and ll: "rep h lo a l" "l \<noteq> Leaf"
    and d: "distinct (addrs l)" "a \<notin> set (addrs l)" "x \<notin> set (addrs l)" "a \<noteq> x" "set (addrs l) \<inter> set (addrs r) = {}"
    and r': "set (addrs r') \<subseteq> set (addrs r)" "x \<notin> set (addrs r')" and x: "x \<in> set (addrs r)"
  shows "\<exists>h4. (do { prev \<leftarrow> rightmost h1 (addr_of l);
      h \<leftarrow> set_node h1 prev (n_right_update (\<lambda>_. x));
      h \<leftarrow> set_node h x (n_left_child_update (\<lambda>_. True));
      n \<leftarrow> h a;
      set_node h x (\<lambda>nn. nn\<lparr>n_left := n_left n, n_balance := n_balance n\<rparr>) }) = Some h4 \<and>
    rep h4 lo hi (Node l (x, xk, xv, b) r') \<and> h4 a = Some (node_of lo hi l k v b r) \<and>
    (\<forall>y. y \<noteq> a \<longrightarrow> y \<notin> set (addrs l) \<longrightarrow> y \<notin> set (addrs r) \<longrightarrow> h4 y = h y)"
proof -
  let ?p = "fst (last (items l))"
  have p: "?p \<in> set (addrs l)" using ll(2) by (rule last_addr)
  have h1: "rep h1 x hi r'" "h1 a = Some (node_of lo hi l k v b r)" "\<forall>y. y \<noteq> a \<longrightarrow> y \<notin> set (addrs r) \<longrightarrow> h1 y = h y"
    using u by (simp_all add: unlinked_def)
  obtain n1 where n1: "h1 x = Some n1" "n_key n1 = xk" "n_value n1 = xv"
    "n_right n1 = (if r' = Leaf then hi else addr_of r')" "n_right_child n1 = (r' \<noteq> Leaf)"
    using u by (auto simp: unlinked_def)
  have l1: "rep h1 lo a l" using ll(1) h1(3) d by (subst rep_cong[where h' = h]) auto
  have rm: "rightmost h1 (addr_of l) = Some ?p" using l1 ll(2) by (rule rightmost_rep)
  obtain n where n: "h1 ?p = Some n" "rep (h1(?p \<mapsto> n\<lparr>n_right := x\<rparr>)) lo x l"
    using set_last_right[OF l1 ll(2) d(1)] by blast
  define h2 where "h2 = h1(?p \<mapsto> n\<lparr>n_right := x\<rparr>)"
  have ne: "?p \<noteq> x" "?p \<noteq> a" "?p \<notin> set (addrs r')" using p d r'(1) by auto
  have h2: "set_node h1 ?p (n_right_update (\<lambda>_. x)) = Some h2" "rep h2 lo x l" "h2 x = Some n1" "h2 a = h1 a"
    "rep h2 x hi r'" "\<forall>y. y \<noteq> ?p \<longrightarrow> h2 y = h1 y"
    using n n1(1) ne h1(1) by (simp_all add: h2_def)
  let ?h4 = "h2(x \<mapsto> node_of lo hi l xk xv b r')"
  have "n1\<lparr>n_left_child := True, n_left := addr_of l, n_balance := b\<rparr> = node_of lo hi l xk xv b r'"
    using n1(2-5) ll(2) by (cases n1) (simp add: node_of_def)
  then have "(do { prev \<leftarrow> rightmost h1 (addr_of l);
      h \<leftarrow> set_node h1 prev (n_right_update (\<lambda>_. x));
      h \<leftarrow> set_node h x (n_left_child_update (\<lambda>_. True));
      n \<leftarrow> h a;
      set_node h x (\<lambda>nn. nn\<lparr>n_left := n_left n, n_balance := n_balance n\<rparr>) }) = Some ?h4"
    using rm h2(1,3,4) h1(2) d(4) ll(2) by simp
  moreover have "rep ?h4 lo hi (Node l (x, xk, xv, b) r')" using h2(2,5) d(3) r'(2) by simp
  moreover have "?h4 a = Some (node_of lo hi l k v b r)" using h2(4) h1(2) d(4) by simp
  moreover have "\<forall>y. y \<noteq> a \<longrightarrow> y \<notin> set (addrs l) \<longrightarrow> y \<notin> set (addrs r) \<longrightarrow> ?h4 y = h y"
    using h2(6) h1(3) p x by auto
  ultimately show ?thesis by blast
qed

lemma set_addrs_sub: "items t = ys \<Longrightarrow> set ys \<subseteq> set xs \<Longrightarrow> items t' = xs \<Longrightarrow> set (addrs t) \<subseteq> set (addrs t')"
  by (auto simp: addrs_def)

lemma pre_append: "pre (fs @ gs) = pre gs @ pre fs"
  by (induction fs rule: frames_induct) simp_all

lemma post_append: "post (fs @ gs) = post fs @ post gs"
  by (induction fs rule: frames_induct) simp_all

lemma pre_all_left: "all_left fs \<Longrightarrow> pre fs = []"
  by (induction fs rule: frames_induct) simp_all

lemma cavl_cell: "cavl (cs @ (False, (a, k, v, b), l) # fs) n \<longleftrightarrow> cavl (cs @ (False, (a', k', v', b), l) # fs) n"
  by (induction cs arbitrary: n rule: frames_induct) simp_all

text \<open>Both places the next node can be in: the right child itself, or further down on the left.\<close>

lemma unlink_next_rep:
  assumes ha: "h a = Some (node_of lo hi l k v b r)" and rr: "rep h a hi r" and d: "a \<notin> set (addrs r)" "distinct (addrs r)"
    and r: "r = plug cr (Node Leaf (x, xk, xv, xb) rn)" and al: "all_left cr" and b: "\<bar>b\<bar> \<le> 1" and av: "avl r"
  shows "\<exists>h1 b' r'. unlink_next h a (if cr = [] then a else faddr (hd cr)) x = Some h1 \<and>
    unlinked h lo hi l (a, k, v, b') r (x, xk, xv, xb) r' h1 \<and> set (addrs r') \<subseteq> set (addrs r) \<and> x \<notin> set (addrs r') \<and>
    distinct (addrs r') \<and>
    (\<forall>fs. lowered (cr @ (False, (x, xk, xv, b), l) # fs) rn = plug fs (Node l (x, xk, xv, b') r'))"
proof (cases cr rule: frames_cases)
  case Nil
  then show ?thesis using unlink_right_child[OF ha rr _ d b, of x xk xv xb rn] r d(2) by auto
next
  case (Left p pk pv pb s cr')
  have r0: "r = plug ((True, (p, pk, pv, pb), s) # cr') (Node Leaf (x, xk, xv, xb) rn)" using r Left by simp
  have "\<bar>pb\<bar> \<le> 1" using av unfolding r0 avl_plug by auto
  then obtain h1 where "unlink_next h a p x = Some h1"
    "unlinked h lo hi l (a, k, v, b) r (x, xk, xv, xb) (plug cr' (Node rn (p, pk, pv, pb + 1) s)) h1"
    using unlink_deeper[OF ha rr r0 _ d] al Left by auto
  moreover have "items r = (x, xk, xv) # items (plug cr' (Node rn (p, pk, pv, pb + 1) s))"
    using al Left unfolding r0 by (simp add: items_plug pre_all_left)
  then have "addrs r = x # addrs (plug cr' (Node rn (p, pk, pv, pb + 1) s))" by (simp add: addrs_def)
  moreover have "lowered (cr @ (False, (x, xk, xv, b), l) # fs) rn =
      plug fs (Node l (x, xk, xv, b) (plug cr' (Node rn (p, pk, pv, pb + 1) s)))" for fs
    using Left by (simp add: plug_append)
  ultimately show ?thesis using d(2) Left by fastforce
qed (use al in simp)

lemma remove_with_both_rep:
  assumes t: "tree_at h tree (plug fs (Node l (a, k, v, b) r))" and lr: "l \<noteq> Leaf" "r \<noteq> Leaf"
    and av: "avl (Node l (a, k, v, b) r)" and cv: "cavl fs (height (Node l (a, k, v, b) r))"
    and p: "path_is path (Suc idx) fs" and H: "Suc idx + height (Node l (a, k, v, b) r) \<le> Suc MAX_GTREE_HEIGHT"
  shows "\<exists>h' tree' path' idx' gs t'. remove_with_both h tree path idx (parent_of fs) (side_of fs) a =
      Some (h', tree', path', idx', parent_of gs) \<and>
    taken_out h tree (plug fs (Node l (a, k, v, b) r)) (a, k, v) h' tree' (lowered gs t') \<and>
    path_is path' (Suc idx') gs \<and> avl t' \<and> cavl gs (Suc (height t')) \<and>
    pre gs @ items t' @ post gs = pre fs @ items l @ items r @ post fs"
proof -
  let ?t = "Node l (a, k, v, b) r" and ?lo = "lo_of fs NULL" and ?hi = "hi_of fs NULL"
  have idx: "idx = length fs" and lp: "length path = MAX_GTREE_HEIGHT" using p by (simp_all add: path_is_def)
  have d0: "rep h ?lo ?hi ?t" "distinct (addrs ?t)" using t distinct_plug[of fs ?t] by (auto simp: tree_at_def rep_plug)
  then have ha: "h a = Some (node_of ?lo ?hi l k v b r)" and ll: "rep h ?lo a l" and rr: "rep h a ?hi r" by simp_all
  have d: "a \<notin> set (addrs l)" "a \<notin> set (addrs r)" "distinct (addrs l)" "distinct (addrs r)" "set (addrs l) \<inter> set (addrs r) = {}"
    using d0(2) by auto
  have Hr: "Suc idx + height r \<le> MAX_GTREE_HEIGHT" using H by simp
  obtain path1 cr x xk xv xb rn where fn: "find_next h path (Suc idx) a (addr_of r) =
      Some (path1, Suc idx + length cr, if cr = [] then a else faddr (hd cr), x)"
    and r: "r = plug cr (Node Leaf (x, xk, xv, xb) rn)" and al: "all_left cr" and lp1: "length path1 = MAX_GTREE_HEIGHT"
    and lt: "Suc idx + length cr < MAX_GTREE_HEIGHT"
    and tk: "take (Suc (Suc idx + length cr)) path1 = take (Suc (Suc idx)) path @ map faddr (rev cr)"
    using find_next_rep[OF rr lr(2) lp Hr, of a] by (elim exE conjE) (rule that)
  have b: "\<bar>b\<bar> \<le> 1" "avl r" "avl l" using av by auto
  let ?gs = "cr @ (False, (x, xk, xv, b), l) # fs"
  have x: "x \<in> set (addrs r)" unfolding r by (simp add: set_addrs_plug)
  have xn: "x \<notin> set (addrs l)" "a \<noteq> x" using x d by auto
  obtain h1 b' r' where un: "unlink_next h a (if cr = [] then a else faddr (hd cr)) x = Some h1"
    and u: "unlinked h ?lo ?hi l (a, k, v, b') r (x, xk, xv, xb) r' h1" and r': "set (addrs r') \<subseteq> set (addrs r)"
    "x \<notin> set (addrs r')" "distinct (addrs r')"
    and lw: "\<forall>fs. lowered (cr @ (False, (x, xk, xv, b), l) # fs) rn = plug fs (Node l (x, xk, xv, b') r')"
    using unlink_next_rep[OF ha rr d(2,4) r al b(1,2)] by (elim exE conjE) (rule that)
  obtain h4 where h4: "(do { prev \<leftarrow> rightmost h1 (addr_of l);
      h \<leftarrow> set_node h1 prev (n_right_update (\<lambda>_. x));
      h \<leftarrow> set_node h x (n_left_child_update (\<lambda>_. True));
      n \<leftarrow> h a;
      set_node h x (\<lambda>nn. nn\<lparr>n_left := n_left n, n_balance := n_balance n\<rparr>) }) = Some h4"
    "rep h4 ?lo ?hi (Node l (x, xk, xv, b') r')" "h4 a = Some (node_of ?lo ?hi l k v b' r)"
    "\<forall>y. y \<noteq> a \<longrightarrow> y \<notin> set (addrs l) \<longrightarrow> y \<notin> set (addrs r) \<longrightarrow> h4 y = h y"
    using replace_by_next[OF u ll lr(1) d(3,1) xn d(5) r'(1,2) x] by blast
  obtain pr h2 h3 n where st: "rightmost h1 (addr_of l) = Some pr" "set_node h1 pr (n_right_update (\<lambda>_. x)) = Some h2"
    "set_node h2 x (n_left_child_update (\<lambda>_. True)) = Some h3" "h3 a = Some n"
    "set_node h3 x (\<lambda>nn. nn\<lparr>n_left := n_left n, n_balance := n_balance n\<rparr>) = Some h4"
    using h4(1) by (auto simp: Option.bind_eq_Some_conv)
  let ?t' = "Node l (x, xk, xv, b') r'"
  have sub: "set (addrs ?t') \<subseteq> set (addrs ?t)" using r' x by auto
  have dt: "distinct (addrs ?t')" using d r' xn by auto
  obtain h' tree' where sc: "set_child h4 tree (parent_of fs) (side_of fs) x = Some (h', tree')"
    "tree_at h' tree' (plug fs ?t')" "tree' = tree\<lparr>root := addr_of (plug fs ?t')\<rparr>"
    "\<forall>y. y \<notin> set (addrs (plug fs ?t)) \<longrightarrow> h' y = h y" "\<forall>y. y \<in> set (addrs ?t) \<longrightarrow> h' y = h4 y"
    using set_child_frame[OF t _ _ sub h4(2) _ dt] h4(4) by auto
  define path' where "path' = path1[Suc idx := x]"
  have sp: "set_path path1 (Suc idx) x = Some path'" using lt lp1 by (simp add: set_path_def path'_def)
  have pi: "path_is path' (Suc (Suc idx + length cr)) ?gs"
  proof -
    have "take (Suc (Suc idx + length cr)) path' = (take (Suc (Suc idx)) path @ map faddr (rev cr))[Suc idx := x]"
      unfolding path'_def take_update_swap tk ..
    also have "\<dots> = take (Suc idx) path @ x # map faddr (rev cr)"
      using lt lp by (simp add: take_Suc_conv_app_nth[of "Suc idx" path] list_update_append)
    also have "\<dots> = NULL # map faddr (rev ?gs)" using p by (auto simp: path_is_def)
    finally show ?thesis using lp1 lt idx by (simp add: path_is_def path'_def)
  qed
  then obtain m where m: "Suc (Suc idx + length cr) = Suc m" "path' ! m = parent_of ?gs" by (rule path_is_pop)
  have rb: "remove_with_both h tree path idx (parent_of fs) (side_of fs) a =
      Some (h', tree', path', Suc idx + length cr, parent_of ?gs)"
    using ha lr fn sp un st sc(1) m by (simp add: remove_with_both_def Let_def)
  have tk: "taken_out h tree (plug fs ?t) (a, k, v) h' tree' (lowered ?gs rn)"
    using sc(2-5) h4(3) lw by (simp add: taken_out_def)
  have pt: "plug (cr @ (False, (a, k, v, b), l) # fs) (Node Leaf (x, xk, xv, xb) rn) = plug fs ?t"
    using r by (simp add: plug_append)
  have "avl (plug fs ?t)" using av cv by (simp only: avl_plug)
  then have "avl (Node Leaf (x, xk, xv, xb) rn)" "cavl (cr @ (False, (a, k, v, b), l) # fs) (Suc (height rn))"
    unfolding pt[symmetric] avl_plug by auto
  then have "avl rn" "cavl ?gs (Suc (height rn))" using cavl_cell[of cr a k v b l fs _ x xk xv] by auto
  moreover have "pre ?gs @ items rn @ post ?gs = pre fs @ items l @ items r @ post fs"
    using al r by (simp add: pre_append post_append pre_all_left items_plug)
  ultimately show ?thesis using rb tk pi by blast
qed

section \<open>Removal\<close>

lemma remove_node_rep:
  assumes t: "tree_at h tree (plug fs (Node l (a, k, v, b) r))"
    and av: "avl (Node l (a, k, v, b) r)" and cv: "cavl fs (height (Node l (a, k, v, b) r))"
    and p: "path_is path (Suc idx) fs" and H: "Suc idx + height (Node l (a, k, v, b) r) \<le> Suc MAX_GTREE_HEIGHT"
  shows "\<exists>h' tree' path' idx' balance t'. remove_node h tree path idx a = Some (h', tree', path', idx', balance) \<and>
    taken_out h tree (plug fs (Node l (a, k, v, b) r)) (a, k, v) h' tree' t' \<and>
    unbalanced h' tree' path' idx' balance (pre fs @ items l @ items r @ post fs) \<and>
    items t' = pre fs @ items l @ items r @ post fs"
proof -
  let ?t = "Node l (a, k, v, b) r"
  from p obtain m where m: "Suc idx = Suc m" "path ! m = parent_of fs" by (rule path_is_pop)
  have il: "is_left_node h (parent_of fs) a = Some (side_of fs)" using is_left_node_frame[OF t] by simp
  have ha: "h a = Some (node_of (lo_of fs NULL) (hi_of fs NULL) l k v b r)" using t by (simp add: tree_at_def rep_plug)
  consider (both) "l \<noteq> Leaf" "r \<noteq> Leaf" | (left) "l \<noteq> Leaf" "r = Leaf" | (right) "l = Leaf" "r \<noteq> Leaf" | (leaf) "l = Leaf" "r = Leaf"
    by blast
  then show ?thesis
  proof cases
    case both
    obtain h' tree' path' idx' gs t' where w: "remove_with_both h tree path idx (parent_of fs) (side_of fs) a =
        Some (h', tree', path', idx', parent_of gs)"
      "taken_out h tree (plug fs ?t) (a, k, v) h' tree' (lowered gs t')" "path_is path' (Suc idx') gs" "avl t'"
      "cavl gs (Suc (height t'))" "pre gs @ items t' @ post gs = pre fs @ items l @ items r @ post fs"
      using remove_with_both_rep[OF t both av cv p H] by (elim exE conjE) (rule that)
    have "unbalanced h' tree' path' idx' (parent_of gs) (pre fs @ items l @ items r @ post fs)"
      using lower_unbalanced[OF _ w(4,5,3)] w(2,6) by (simp add: taken_out_def)
    moreover have "remove_node h tree path idx a = Some (h', tree', path', idx', parent_of gs)"
      using m il ha both w(1) by (simp add: remove_node_def)
    ultimately show ?thesis using w(2,6) items_lower[of gs t'] by auto
  next
    case left
    obtain h' tree' where w: "remove_with_left h tree (parent_of fs) (side_of fs) a = Some (h', tree')"
      "taken_out h tree (plug fs ?t) (a, k, v) h' tree' (lowered fs l)"
      using remove_with_left_rep[OF _ left(1) cv] t left(2) by blast
    have "avl l" "cavl fs (Suc (height l))" using av cv left by auto
    then have "unbalanced h' tree' path idx (parent_of fs) (pre fs @ items l @ items r @ post fs)"
      using lower_unbalanced[OF _ _ _ p, of h' tree' l] w(2) left by (simp add: taken_out_def)
    moreover have "remove_node h tree path idx a = Some (h', tree', path, idx, parent_of fs)"
      using m il ha left w(1) by (simp add: remove_node_def)
    ultimately show ?thesis using w(2) items_lower[of fs l] left by auto
  next
    case right
    obtain h' tree' where w: "remove_with_right h tree (parent_of fs) (side_of fs) a = Some (h', tree')"
      "taken_out h tree (plug fs ?t) (a, k, v) h' tree' (lowered fs r)"
      using remove_with_right_rep[OF _ right(2) cv] t right(1) by blast
    have "avl r" "cavl fs (Suc (height r))" using av cv right by auto
    then have "unbalanced h' tree' path idx (parent_of fs) (pre fs @ items l @ items r @ post fs)"
      using lower_unbalanced[OF _ _ _ p, of h' tree' r] w(2) right by (simp add: taken_out_def)
    moreover have "remove_node h tree path idx a = Some (h', tree', path, idx, parent_of fs)"
      using m il ha right w(1) by (simp add: remove_node_def)
    ultimately show ?thesis using w(2) items_lower[of fs r] right by auto
  next
    case leaf
    obtain h' tree' where w: "remove_leaf h tree (parent_of fs) (side_of fs) a = Some (h', tree')"
      "taken_out h tree (plug fs ?t) (a, k, v) h' tree' (lowered fs Leaf)"
      using remove_leaf_rep[OF _ cv] t leaf by blast
    have "cavl fs (Suc (height (Leaf :: tshape)))" using cv leaf by simp
    then have "unbalanced h' tree' path idx (parent_of fs) (pre fs @ items l @ items r @ post fs)"
      using lower_unbalanced[OF _ _ _ p, of h' tree' Leaf] w(2) leaf by (simp add: taken_out_def)
    moreover have "remove_node h tree path idx a = Some (h', tree', path, idx, parent_of fs)"
      using m il ha leaf w(1) by (simp add: remove_node_def)
    ultimately show ?thesis using w(2) items_lower[of fs Leaf] leaf by auto
  qed
qed

lemma unbalanced_restored:
  assumes "unbalanced h tree path idx balance xs"
  shows "\<exists>h' tree' t'. (if balance = NULL then Some (h, tree) else remove_balance h tree path idx balance) = Some (h', tree') \<and>
    tree_at h' tree' t' \<and> items t' = xs \<and> avl t' \<and> tree' = tree\<lparr>root := addr_of t'\<rparr> \<and>
    (\<forall>x. x \<notin> fst ` set xs \<longrightarrow> h' x = h x)"
proof (cases "balance = NULL")
  case True
  then show ?thesis using assms by (auto simp: unbalanced_def tree_at_def)
next
  case False
  then obtain fs t n where "balance = addr_of t" "tree_at h tree (plug fs t)" "shrunk t n" "cavl fs n" "path_is path idx fs"
    "items (plug fs t) = xs" using assms by (auto simp: unbalanced_def)
  moreover from this obtain h' tree' t' where "remove_balance h tree path idx (addr_of t) = Some (h', tree')"
    "restored h h' tree tree' (plug fs t) t'" using remove_balance_rep by blast
  ultimately show ?thesis using False by (auto simp: restored_def addrs_def)
qed

definition del_entry :: "(gpointer \<Rightarrow> gpointer \<Rightarrow> int) \<Rightarrow> gpointer \<Rightarrow> entry list \<Rightarrow> entry list" where
  "del_entry compare key es = filter (\<lambda>e. compare key (fst e) \<noteq> 0) es"

lemma del_entry_middle:
  "\<forall>e \<in> set xs. 0 < compare key (fst e) \<Longrightarrow> \<forall>e \<in> set ys. compare key (fst e) < 0 \<Longrightarrow>
   del_entry compare key (xs @ zs @ ys) = xs @ del_entry compare key zs @ ys"
proof -
  assume "\<forall>e \<in> set xs. 0 < compare key (fst e)" "\<forall>e \<in> set ys. compare key (fst e) < 0"
  then have "filter (\<lambda>e. compare key (fst e) \<noteq> 0) xs = xs" "filter (\<lambda>e. compare key (fst e) \<noteq> 0) ys = ys"
    by (auto simp: filter_id_conv)
  then show ?thesis by (simp add: del_entry_def)
qed

text \<open>What removal leaves: a tree without the entry, and no node where the entry's was.\<close>

definition removed :: "gheap \<Rightarrow> GTree \<Rightarrow> tshape \<Rightarrow> gpointer \<Rightarrow> gheap \<Rightarrow> GTree \<Rightarrow> tshape \<Rightarrow> bool" where
  "removed h tree t key h' tree' t' \<longleftrightarrow>
     gtree h' tree' t' \<and> tree_entries t' = del_entry (key_compare tree) key (tree_entries t) \<and>
     tree' = tree\<lparr>root := addr_of t', nnodes := of_nat (size t')\<rparr> \<and> set (addrs t') \<subseteq> set (addrs t) \<and>
     (\<forall>x. x \<notin> set (addrs t') \<longrightarrow> h' x = (if x \<in> set (addrs t) then None else h x))"

definition remove_calls :: "GTree \<Rightarrow> tshape \<Rightarrow> gpointer \<Rightarrow> bool \<Rightarrow> destroyed list" where
  "remove_calls tree t key steal =
     (case find_entry (key_compare tree) key (tree_entries t) of
        None \<Rightarrow> []
      | Some (k, v) \<Rightarrow> if steal then [] else call_destroy tree [Key k, Value v])"

lemma height_plug: "length fs + height t \<le> height (plug fs t)"
proof (induction fs arbitrary: t rule: frames_induct)
  case (Left a k v b s fs)
  then show ?case using Left.IH[of "Node t (a, k, v, b) s"] by simp
next
  case (Right a k v b s fs)
  then show ?case using Right.IH[of "Node s (a, k, v, b) t"] by simp
qed simp

lemma ordered_drop: "ordered compare (xs @ x # ys) \<Longrightarrow> ordered compare (xs @ ys)"
  by (auto simp: ordered_def sorted_wrt_append)

lemma remove_found:
  assumes g: "gtree h tree t" and it: "items t = xs @ (a, k, v) # ys" and ko: "key_order (key_compare tree)"
    and xs: "\<forall>x \<in> set xs. 0 < key_compare tree key (fst (snd x))"
    and ys: "\<forall>x \<in> set ys. key_compare tree key (fst (snd x)) < 0" and c: "key_compare tree key k = 0"
    and t': "tree_at h' tree' t'" "items t' = xs @ ys" "avl t'" "tree' = tree\<lparr>root := addr_of t'\<rparr>"
    and out: "\<forall>x. x \<notin> set (addrs t) \<longrightarrow> h' x = h x"
  shows "removed h tree t key (h'(a := None)) (tree'\<lparr>nnodes := nnodes tree' - 1\<rparr>) t'"
    and "find_entry (key_compare tree) key (tree_entries t) = Some (k, v)"
proof -
  have e: "tree_entries t = map snd xs @ [(k, v)] @ map snd ys" "tree_entries t' = map snd xs @ map snd ys"
    using it t'(2) by (simp_all add: tree_entries_def)
  have xs': "\<forall>e \<in> set (map snd xs). 0 < key_compare tree key (fst e)" using xs by auto
  have ys': "\<forall>e \<in> set (map snd ys). key_compare tree key (fst e) < 0" using ys by auto
  show "find_entry (key_compare tree) key (tree_entries t) = Some (k, v)"
    using find_entry_middle[where compare = "key_compare tree", OF xs' ys', of "[(k, v)]"] c unfolding e
    by (simp add: find_entry_def)
  have "tree_entries t' = del_entry (key_compare tree) key (tree_entries t)"
    using del_entry_middle[where compare = "key_compare tree", OF xs' ys', of "[(k, v)]"] c unfolding e
    by (simp add: del_entry_def)
  moreover have "ordered (key_compare tree) (items t')" using g it t'(2) by (auto simp: gtree_def intro: ordered_drop)
  moreover have "size t = Suc (size t')" using it t'(2) by (simp flip: length_items)
  moreover have ad: "a \<notin> set (addrs t')" "set (addrs t) = insert a (set (addrs t'))"
    using g it t'(2) by (auto simp: gtree_def tree_at_def addrs_def)
  moreover have "tree_at (h'(a := None)) (tree'\<lparr>nnodes := nnodes tree' - 1\<rparr>) t'"
    using t'(1) ad(1) by (simp add: tree_at_def)
  ultimately show "removed h tree t key (h'(a := None)) (tree'\<lparr>nnodes := nnodes tree' - 1\<rparr>) t'"
    using g t'(3,4) out by (auto simp: removed_def gtree_def)
qed

lemma remove_missing:
  assumes g: "gtree h tree t" and it: "items t = xs @ ys"
    and xs: "\<forall>x \<in> set xs. 0 < key_compare tree key (fst (snd x))"
    and ys: "\<forall>x \<in> set ys. key_compare tree key (fst (snd x)) < 0"
  shows "removed h tree t key h tree t" and "find_entry (key_compare tree) key (tree_entries t) = None"
proof -
  have xs': "\<forall>e \<in> set (map snd xs). 0 < key_compare tree key (fst e)" using xs by auto
  have ys': "\<forall>e \<in> set (map snd ys). key_compare tree key (fst e) < 0" using ys by auto
  have e: "tree_entries t = map snd xs @ [] @ map snd ys" using it by (simp add: tree_entries_def)
  show "find_entry (key_compare tree) key (tree_entries t) = None"
    using find_entry_middle[where compare = "key_compare tree", OF xs' ys', of "[]"] unfolding e by (simp add: find_entry_def)
  have "tree_entries t = del_entry (key_compare tree) key (tree_entries t)"
    using del_entry_middle[where compare = "key_compare tree", OF xs' ys', of "[]"] unfolding e by (simp add: del_entry_def)
  then show "removed h tree t key h tree t" using g by (simp add: removed_def gtree_def tree_at_def)
qed

lemma remove_internal_rep:
  assumes g: "gtree h tree t" and ko: "key_order (key_compare tree)" and H: "height t \<le> MAX_GTREE_HEIGHT"
  shows "\<exists>h' tree' t'. g_tree_remove_internal h tree key steal =
      Some (h', tree', find_entry (key_compare tree) key (tree_entries t) \<noteq> None, remove_calls tree t key steal) \<and>
    removed h tree t key h' tree' t'"
proof (cases "t = Leaf")
  case True
  have "g_tree_remove_internal h tree key steal = Some (h, tree, False, [])"
    using g True by (simp add: g_tree_remove_internal_def gtree_def tree_at_def)
  then show ?thesis using remove_missing[OF g, of "[]" "[]" key] True by (auto simp: remove_calls_def)
next
  case False
  have ta: "tree_at h tree t" and av: "avl t" and or: "ordered (key_compare tree) (items t)" using g by (simp_all add: gtree_def)
  have rt: "root tree \<noteq> NULL" using ta False addr_of_mem[of t] by (auto simp: tree_at_def)
  obtain path fs l a k v b r where
    w: "walk (key_compare tree) h key new_path 1 (root tree) = Some (path, Suc (length fs), a, key_compare tree key k)"
    and p: "path_is path (Suc (length fs)) fs" and t: "t = plug fs (Node l (a, k, v, b) r)"
    and ends: "key_compare tree key k < 0 \<Longrightarrow> l = Leaf" "0 < key_compare tree key k \<Longrightarrow> r = Leaf"
    and go: "goes (key_compare tree) key fs"
    by (rule walk_root[OF ta False H, of "key_compare tree" key]) (rule that)
  consider "key_compare tree key k = 0" | "key_compare tree key k < 0" | "0 < key_compare tree key k" by linarith
  then show ?thesis
  proof cases
    case 1
    have avs: "avl (Node l (a, k, v, b) r)" and cv: "cavl fs (height (Node l (a, k, v, b) r))"
      using av unfolding t avl_plug by blast+
    have H': "Suc (length fs) + height (Node l (a, k, v, b) r) \<le> Suc MAX_GTREE_HEIGHT"
      using H height_plug[of fs "Node l (a, k, v, b) r"] t by simp
    obtain h1 tree1 path1 idx1 balance t1 where r: "remove_node h tree path (length fs) a = Some (h1, tree1, path1, idx1, balance)"
      "taken_out h tree t (a, k, v) h1 tree1 t1"
      "unbalanced h1 tree1 path1 idx1 balance (pre fs @ items l @ items r @ post fs)"
      "items t1 = pre fs @ items l @ items r @ post fs"
      using remove_node_rep[OF ta[unfolded t] avs cv p H', folded t] by (elim exE conjE) (rule that)
    obtain h2 tree2 t2 where s: "(if balance = NULL then Some (h1, tree1) else remove_balance h1 tree1 path1 idx1 balance) = Some (h2, tree2)"
      "tree_at h2 tree2 t2" "items t2 = pre fs @ items l @ items r @ post fs" "avl t2" "tree2 = tree1\<lparr>root := addr_of t2\<rparr>"
      "\<forall>x. x \<notin> fst ` set (pre fs @ items l @ items r @ post fs) \<longrightarrow> h2 x = h1 x"
      using unbalanced_restored[OF r(3)] by (elim exE conjE) (rule that)
    have it: "items t = (pre fs @ items l) @ (a, k, v) # (items r @ post fs)" unfolding t by (simp add: items_plug)
    have d: "distinct (addrs t)" using ta by (simp add: tree_at_def)
    have sub: "fst ` set (pre fs @ items l @ items r @ post fs) \<subseteq> set (addrs t)" "a \<notin> fst ` set (pre fs @ items l @ items r @ post fs)"
      using d unfolding addrs_def it by auto
    obtain n where n: "h1 a = Some n" "n_key n = k" "n_value n = v" using r(2) by (auto simp: taken_out_def)
    have ha: "h2 a = Some n" using s(6) sub(2) n(1) by auto
    have out: "\<forall>x. x \<notin> set (addrs t) \<longrightarrow> h2 x = h x"
    proof (intro allI impI)
      fix x assume x: "x \<notin> set (addrs t)"
      then have "x \<notin> fst ` set (pre fs @ items l @ items r @ post fs)" using sub(1) by blast
      then have "h2 x = h1 x" using s(6) by blast
      also have "h1 x = h x" using r(2) x unfolding taken_out_def by blast
      finally show "h2 x = h x" .
    qed
    obtain z where "tree1 = tree\<lparr>root := z\<rparr>" using r(2) unfolding taken_out_def by blast
    then have tr2: "tree2 = tree\<lparr>root := addr_of t2\<rparr>" using s(5) by simp
    note pp = key_order.way_pre_post[OF ko or[unfolded t] go 1]
    note rf = remove_found[OF g it ko _ _ 1 s(2) _ s(4) tr2 out]
    have "g_tree_remove_internal h tree key steal =
        Some (h2(a := None), tree2\<lparr>nnodes := nnodes tree2 - 1\<rparr>, True, remove_calls tree t key steal)"
      using rt w 1 r(1) s(1) ha n rf(2) pp s(3) tr2
      by (simp add: g_tree_remove_internal_def remove_calls_def call_destroy_def Let_def)
    moreover have "removed h tree t key (h2(a := None)) (tree2\<lparr>nnodes := nnodes tree2 - 1\<rparr>) t2"
      using rf(1) pp s(3) by simp
    moreover have "find_entry (key_compare tree) key (tree_entries t) = Some (k, v)" using rf(2) pp s(3) by simp
    ultimately show ?thesis by auto
  next
    case 2
    have "g_tree_remove_internal h tree key steal = Some (h, tree, False, [])"
      using rt w 2 by (simp add: g_tree_remove_internal_def)
    moreover have pp: "(\<forall>x \<in> set (pre fs). 0 < key_compare tree key (fst (snd x))) \<and>
        (\<forall>x \<in> set ((a, k, v) # items r @ post fs). key_compare tree key (fst (snd x)) < 0)"
      using key_order.way_pre_post_left[OF ko _ go 2] or t ends(1)[OF 2] by blast
    ultimately show ?thesis using remove_missing[OF g, of "pre fs" "(a, k, v) # items r @ post fs" key] t ends(1)[OF 2]
      by (auto simp: items_plug remove_calls_def)
  next
    case 3
    have "g_tree_remove_internal h tree key steal = Some (h, tree, False, [])"
      using rt w 3 by (simp add: g_tree_remove_internal_def)
    moreover have pp: "(\<forall>x \<in> set (pre fs @ items l @ [(a, k, v)]). 0 < key_compare tree key (fst (snd x))) \<and>
        (\<forall>x \<in> set (post fs). key_compare tree key (fst (snd x)) < 0)"
      using key_order.way_pre_post_right[OF ko _ go 3] or t ends(2)[OF 3] by blast
    ultimately show ?thesis using remove_missing[OF g, of "pre fs @ items l @ [(a, k, v)]" "post fs" key] t ends(2)[OF 3]
      by (auto simp: items_plug remove_calls_def)
  qed
qed

end
