(* ===== verification/Glib_Tree_Visit.thy ===== *)
theory Glib_Tree_Visit
  imports Glib_Tree_Remove
begin

text \<open>
  What the operations that only read a tree give: lookups, the height, the visits of the nodes in the several
  orders, and the check of \<open>G_TREE_DEBUG\<close>; and the destruction of all nodes.
\<close>

section \<open>The neighbour in key order\<close>

lemma items_split:
  "items t = xs @ (a, k, v) # ys \<Longrightarrow>
   \<exists>fs l b r. t = plug fs (Node l (a, k, v, b) r) \<and> xs = pre fs @ items l \<and> ys = items r @ post fs"
proof (induction t arbitrary: xs ys)
  case (Node l c r)
  obtain a' k' v' b' where c: "c = (a', k', v', b')" by (cases c) auto
  have eq: "items l @ (a', k', v') # items r = xs @ (a, k, v) # ys" using Node.prems c by simp
  then consider (here) "items l = xs" "(a', k', v') = (a, k, v)" "items r = ys"
    | (left) zs where "items l = xs @ (a, k, v) # zs" "ys = zs @ (a', k', v') # items r"
    | (right) zs where "xs = items l @ (a', k', v') # zs" "items r = zs @ (a, k, v) # ys"
    by (auto simp: append_eq_append_conv2 Cons_eq_append_conv append_eq_Cons_conv)
  then show ?case
  proof cases
    case here
    then show ?thesis using c by (intro exI[of _ "[]"] exI[of _ l] exI[of _ b'] exI[of _ r]) simp
  next
    case left
    from Node.IH(1)[OF left(1)] obtain fs l1 b1 r1 where
      "l = plug fs (Node l1 (a, k, v, b1) r1)" "xs = pre fs @ items l1" "zs = items r1 @ post fs" by blast
    then show ?thesis using left(2) c
      by (intro exI[of _ "fs @ [(True, (a', k', v', b'), r)]"] exI[of _ l1] exI[of _ b1] exI[of _ r1])
        (simp add: plug_append pre_append post_append)
  next
    case right
    from Node.IH(2)[OF right(2)] obtain fs l1 b1 r1 where
      "r = plug fs (Node l1 (a, k, v, b1) r1)" "zs = pre fs @ items l1" "ys = items r1 @ post fs" by blast
    then show ?thesis using right(1) c
      by (intro exI[of _ "fs @ [(False, (a', k', v', b'), l)]"] exI[of _ l1] exI[of _ b1] exI[of _ r1])
        (simp add: plug_append pre_append post_append)
  qed
qed simp

definition addr_hd :: "(gpointer \<times> gpointer \<times> gpointer) list \<Rightarrow> gpointer" where
  "addr_hd xs = (case xs of [] \<Rightarrow> NULL | x # _ \<Rightarrow> fst x)"

lemma addr_hd_simps [simp]: "addr_hd [] = NULL" "addr_hd (x # xs) = fst x"
  by (simp_all add: addr_hd_def)

lemma hi_of_post: "hi_of fs NULL = addr_hd (post fs)"
  by (induction fs rule: frames_induct) simp_all

lemma addr_hd_append: "xs \<noteq> [] \<Longrightarrow> addr_hd (xs @ ys) = fst (hd xs)"
  by (cases xs) simp_all

text \<open>Only the nodes from a node on are looked at to find the next one.\<close>

lemma node_next_rep:
  assumes t: "rep h NULL NULL t" and it: "items t = xs @ (a, k, v) # ys"
    and eq: "\<forall>x \<in> fst ` set ((a, k, v) # ys). h' x = h x"
  shows "g_tree_node_next h' a = Some (addr_hd ys)" and "\<exists>n. h' a = Some n \<and> n_key n = k \<and> n_value n = v"
proof -
  obtain fs l b r where z: "t = plug fs (Node l (a, k, v, b) r)" "ys = items r @ post fs" using items_split[OF it] by blast
  have ha: "h' a = Some (node_of (lo_of fs NULL) (hi_of fs NULL) l k v b r)" using t z(1) eq by (simp add: rep_plug)
  then show "\<exists>n. h' a = Some n \<and> n_key n = k \<and> n_value n = v" by simp
  have "rep h a (hi_of fs NULL) r" using t z(1) by (simp add: rep_plug)
  then have rr: "rep h' a (hi_of fs NULL) r" using eq z(2) by (subst rep_cong[where h' = h]) (auto simp: addrs_def)
  show "g_tree_node_next h' a = Some (addr_hd ys)"
  proof (cases "r = Leaf")
    case True
    then show ?thesis using ha z(2) by (simp add: g_tree_node_next_def hi_of_post)
  next
    case False
    then show ?thesis using ha leftmost_rep[OF rr False] z(2) by (simp add: g_tree_node_next_def addr_hd_append)
  qed
qed

lemma first_node_rep:
  assumes "tree_at h tree t"
  shows "g_tree_first_node h tree = Some (addr_hd (items t))"
proof (cases "t = Leaf")
  case False
  then have "root tree \<noteq> NULL" using assms addr_of_mem[of t] by (auto simp: tree_at_def)
  then show ?thesis using assms leftmost_rep[OF _ False] addr_hd_append[of "items t" "[]"] False
    by (auto simp: g_tree_first_node_def tree_at_def)
qed (use assms in \<open>simp add: g_tree_first_node_def tree_at_def\<close>)

section \<open>All nodes in order\<close>

text \<open>A function is called for the entries one after the other, until it says to stop.\<close>

fun visit :: "'s visitor \<Rightarrow> entry list \<Rightarrow> 's \<Rightarrow> bool \<times> 's" where
  "visit func [] s = (False, s)"
| "visit func ((k, v) # es) s = (let (stop, s) = func k v s in if stop then (True, s) else visit func es s)"

lemma visit_append: "visit func (es @ es') s = (let (stop, s) = visit func es s in if stop then (True, s) else visit func es' s)"
  by (induction func es s rule: visit.induct) (auto split: prod.splits)

lemma foreach_nodes_rep:
  assumes "rep h NULL NULL t" and "NULL \<notin> set (addrs t)"
  shows "items t = xs @ ys \<Longrightarrow> foreach_nodes h func (addr_hd ys) s = Some (snd (visit func (map snd ys) s))"
proof (induction ys arbitrary: xs s)
  case (Cons y ys)
  obtain a k v where y: "y = (a, k, v)" by (cases y)
  have it: "items t = xs @ (a, k, v) # ys" using Cons.prems y by simp
  obtain n where n: "h a = Some n" "n_key n = k" "n_value n = v" using node_next_rep(2)[OF assms(1) it] by auto
  have nx: "g_tree_node_next h a = Some (addr_hd ys)" using node_next_rep(1)[OF assms(1) it] by simp
  have a0: "a \<noteq> NULL" using assms(2) it by (auto simp: addrs_def)
  obtain stop s' where f: "func k v s = (stop, s')" by force
  have "foreach_nodes h func (addr_hd ys) s' = Some (snd (visit func (map snd ys) s'))"
    using Cons.IH[of "xs @ [(a, k, v)]"] it by simp
  then show ?case using n nx a0 f y by (subst foreach_nodes.simps) simp
qed (subst foreach_nodes.simps, simp)

lemma foreach_rep:
  assumes "tree_at h tree t"
  shows "g_tree_foreach h tree func s = Some (snd (visit func (tree_entries t) s))"
proof (cases "t = Leaf")
  case False
  then have "root tree \<noteq> NULL" using assms addr_of_mem[of t] by (auto simp: tree_at_def)
  moreover have "foreach_nodes h func (addr_hd (items t)) s = Some (snd (visit func (tree_entries t) s))"
    using foreach_nodes_rep[of h t "[]" "items t"] assms by (simp add: tree_at_def tree_entries_def)
  ultimately show ?thesis using first_node_rep[OF assms] by (simp add: g_tree_foreach_def)
qed (use assms in \<open>simp add: g_tree_foreach_def tree_at_def\<close>)

lemma remove_all_nodes_rep:
  assumes "rep h NULL NULL t" and "NULL \<notin> set (addrs t)" and "distinct (addrs t)"
  shows "items t = xs @ ys \<Longrightarrow>
    remove_all_nodes (\<lambda>x. if x \<in> fst ` set xs then None else h x) tree (addr_hd ys) calls =
      Some (\<lambda>x. if x \<in> set (addrs t) then None else h x,
            calls @ concat (map (\<lambda>(a, k, v). call_destroy tree [Key k, Value v]) ys))"
proof (induction ys arbitrary: xs calls)
  case (Cons y ys)
  obtain a k v where y: "y = (a, k, v)" by (cases y)
  let ?h = "\<lambda>x. if x \<in> fst ` set xs then None else h x"
  have it: "items t = xs @ (a, k, v) # ys" using Cons.prems y by simp
  have eq: "\<forall>x \<in> fst ` set ((a, k, v) # ys). ?h x = h x" using assms(3) it by (auto simp: addrs_def)
  obtain n where n: "?h a = Some n" "n_key n = k" "n_value n = v" using node_next_rep(2)[OF assms(1) it eq] by auto
  have nx: "g_tree_node_next ?h a = Some (addr_hd ys)" using node_next_rep(1)[OF assms(1) it eq] .
  have a0: "a \<noteq> NULL" using assms(2) it by (auto simp: addrs_def)
  have "?h(a := None) = (\<lambda>x. if x \<in> fst ` set (xs @ [(a, k, v)]) then None else h x)" by (auto simp: fun_eq_iff)
  moreover have "a \<notin> fst ` set xs" using assms(3) it by (auto simp: addrs_def)
  ultimately show ?case using Cons.IH[of "xs @ [(a, k, v)]"] it n nx a0 y by (subst remove_all_nodes.simps) simp
qed (subst remove_all_nodes.simps, simp add: addrs_def)

lemma remove_all_rep:
  assumes "tree_at h tree t"
  shows "g_tree_remove_all h tree = Some (\<lambda>x. if x \<in> set (addrs t) then None else h x, tree\<lparr>root := NULL, nnodes := 0\<rparr>,
    concat (map (\<lambda>(k, v). call_destroy tree [Key k, Value v]) (tree_entries t)))"
proof -
  have "(\<lambda>x. if x \<in> fst ` set [] then None else h x) = h" by (simp add: fun_eq_iff)
  then show ?thesis
    using remove_all_nodes_rep[of h t "[]" "items t" tree "[]"] first_node_rep[OF assms] assms
    by (simp add: g_tree_remove_all_def tree_at_def tree_entries_def o_def case_prod_beta')
qed

section \<open>Looking up\<close>

lemma find_append: "find P (xs @ ys) = (case find P xs of None \<Rightarrow> find P ys | Some x \<Rightarrow> Some x)"
  by (induction xs) auto

lemma find_None: "\<forall>x \<in> set xs. \<not> P x \<Longrightarrow> find P xs = None"
  by (simp add: find_None_iff)

context key_order
begin

lemma find_node_loop_rep:
  "rep h lo hi t \<Longrightarrow> t \<noteq> Leaf \<Longrightarrow> ordered compare (items t) \<Longrightarrow>
   find_node_loop compare h key (addr_of t) =
     Some (case find (\<lambda>x. compare key (fst (snd x)) = 0) (items t) of None \<Rightarrow> NULL | Some x \<Rightarrow> fst x)"
proof (induction t arbitrary: lo hi)
  case (Node l c r)
  obtain a k v b where c: "c = (a, k, v, b)" by (cases c) auto
  have o: "ordered compare (items l)" "ordered compare (items r)"
    "\<forall>x \<in> set (items l). compare (fst (snd x)) k < 0" "\<forall>x \<in> set (items r). compare k (fst (snd x)) < 0"
    using Node.prems(3) c by (auto simp: ordered_def sorted_wrt_append)
  have ha: "h a = Some (node_of lo hi l k v b r)" and ll: "rep h lo a l" and rr: "rep h a hi r" using Node.prems(1) c by simp_all
  let ?P = "\<lambda>x. compare key (fst (snd x)) = 0"
  consider "compare key k = 0" | "compare key k < 0" | "0 < compare key k" by linarith
  then show ?case
  proof cases
    case 1
    then have "\<forall>x \<in> set (items l). \<not> ?P x" using o(3) less_eq[of _ k key] eq_sym[of key] by (metis less_irrefl)
    then show ?thesis using ha c 1 by (subst find_node_loop.simps) (simp add: find_append find_None)
  next
    case 2
    then have "\<forall>x \<in> set (items r). compare key (fst (snd x)) < 0" using o(4) by (auto intro: less_trans)
    then have "\<forall>x \<in> set ((a, k, v) # items r). \<not> ?P x" using 2 by auto
    then have "find ?P ((a, k, v) # items r) = None" by (rule find_None)
    then show ?thesis using ha c 2 Node.IH(1)[OF ll _ o(1)]
      by (subst find_node_loop.simps) (auto simp: find_append Let_def split: option.splits)
  next
    case 3
    then have "\<forall>x \<in> set (items l). 0 < compare key (fst (snd x))" using o(3) by (auto simp: antisym intro: greater_trans)
    then have "find ?P (items l) = None" by (intro find_None) auto
    then show ?thesis using ha c 3 Node.IH(2)[OF rr _ o(2)]
      by (subst find_node_loop.simps) (auto simp: find_append Let_def)
  qed
qed simp

end

lemma find_entry_items: "find_entry compare key (map snd xs) = map_option snd (find (\<lambda>x. compare key (fst (snd x)) = 0) xs)"
  by (induction xs) (auto simp: find_entry_def)

lemma lookup_extended_rep:
  assumes g: "gtree h tree t" and ko: "key_order (key_compare tree)"
  shows "g_tree_lookup_extended h tree key = Some (find_entry (key_compare tree) key (tree_entries t))"
    and "g_tree_lookup h tree key = Some (case find_entry (key_compare tree) key (tree_entries t) of None \<Rightarrow> NULL | Some (k, v) \<Rightarrow> v)"
proof -
  let ?f = "find (\<lambda>x. key_compare tree key (fst (snd x)) = 0) (items t)"
  have t: "rep h NULL NULL t" "NULL \<notin> set (addrs t)" "root tree = addr_of t" using g by (auto simp: gtree_def tree_at_def)
  have fn: "g_tree_find_node h tree key = Some (case ?f of None \<Rightarrow> NULL | Some x \<Rightarrow> fst x)"
  proof (cases "t = Leaf")
    case False
    then have "root tree \<noteq> NULL" using t addr_of_mem[of t] by auto
    then show ?thesis using key_order.find_node_loop_rep[OF ko t(1) False] g t(3) by (simp add: g_tree_find_node_def gtree_def)
  qed (use t in \<open>simp add: g_tree_find_node_def\<close>)
  have fe: "find_entry (key_compare tree) key (tree_entries t) = map_option snd ?f" by (simp add: tree_entries_def find_entry_items)
  have "g_tree_lookup_extended h tree key = Some (map_option snd ?f) \<and>
    g_tree_lookup h tree key = Some (case map_option snd ?f of None \<Rightarrow> NULL | Some (k, v) \<Rightarrow> v)"
  proof (cases ?f)
    case None
    then show ?thesis using fn by (simp add: g_tree_lookup_extended_def g_tree_lookup_def)
  next
    case (Some x)
    obtain a k v where x: "x = (a, k, v)" by (cases x)
    have "x \<in> set (items t)" using Some by (auto simp: find_Some_iff)
    then obtain xs ys where it: "items t = xs @ (a, k, v) # ys" unfolding x by (auto dest: split_list)
    obtain n where "h a = Some n" "n_key n = k" "n_value n = v" using node_next_rep(2)[OF t(1) it] by auto
    moreover have "a \<noteq> NULL" using t(2) it by (auto simp: addrs_def)
    ultimately show ?thesis using fn Some x by (simp add: g_tree_lookup_extended_def g_tree_lookup_def)
  qed
  then show "g_tree_lookup_extended h tree key = Some (find_entry (key_compare tree) key (tree_entries t))"
    "g_tree_lookup h tree key = Some (case find_entry (key_compare tree) key (tree_entries t) of None \<Rightarrow> NULL | Some (k, v) \<Rightarrow> v)"
    unfolding fe by simp_all
qed

text \<open>
  A search whose function tells on which side to go on: as its documentation has it, a negative answer asks for smaller
  keys, a positive one for greater keys.
\<close>

definition search_ok :: "(gpointer \<Rightarrow> int) \<Rightarrow> entry list \<Rightarrow> bool" where
  "search_ok search es \<longleftrightarrow> sorted_wrt (\<lambda>x y. (search (fst x) \<le> 0 \<longrightarrow> search (fst y) < 0) \<and> (0 \<le> search (fst y) \<longrightarrow> 0 < search (fst x))) es"

lemma node_search_rep:
  "rep h lo hi t \<Longrightarrow> t \<noteq> Leaf \<Longrightarrow> search_ok search (tree_entries t) \<Longrightarrow>
   g_tree_node_search h search (addr_of t) =
     Some (case find (\<lambda>e. search (fst e) = 0) (tree_entries t) of None \<Rightarrow> NULL | Some e \<Rightarrow> snd e)"
proof (induction t arbitrary: lo hi)
  case (Node l c r)
  obtain a k v b where c: "c = (a, k, v, b)" by (cases c) auto
  have o: "search_ok search (tree_entries l)" "search_ok search (tree_entries r)"
    "0 \<le> search k \<Longrightarrow> \<forall>e \<in> set (tree_entries l). 0 < search (fst e)" "search k \<le> 0 \<Longrightarrow> \<forall>e \<in> set (tree_entries r). search (fst e) < 0"
    using Node.prems(3) c by (auto simp: search_ok_def sorted_wrt_append)
  have ha: "h a = Some (node_of lo hi l k v b r)" and ll: "rep h lo a l" and rr: "rep h a hi r" using Node.prems(1) c by simp_all
  let ?P = "\<lambda>e. search (fst e) = 0"
  have fl: "find ?P (tree_entries l) = None" if "0 \<le> search k" using o(3)[OF that] by (intro find_None) auto
  consider "search k = 0" | "search k < 0" | "0 < search k" by linarith
  then show ?case
  proof cases
    case 1
    then show ?thesis using ha c fl by (subst g_tree_node_search.simps) (simp add: find_append)
  next
    case 2
    have "\<forall>e \<in> set (tree_entries r). \<not> ?P e" using o(4) 2 by auto
    then have "find ?P ((k, v) # tree_entries r) = None" using 2 by (simp add: find_None)
    then show ?thesis using ha c 2 Node.IH(1)[OF ll _ o(1)]
      by (subst g_tree_node_search.simps) (auto simp: find_append Let_def split: option.splits)
  next
    case 3
    then show ?thesis using ha c fl Node.IH(2)[OF rr _ o(2)]
      by (subst g_tree_node_search.simps) (auto simp: find_append Let_def)
  qed
qed simp

lemma search_rep:
  assumes "tree_at h tree t" and "search_ok search (tree_entries t)"
  shows "g_tree_search h tree search = Some (case find (\<lambda>e. search (fst e) = 0) (tree_entries t) of None \<Rightarrow> NULL | Some e \<Rightarrow> snd e)"
proof (cases "t = Leaf")
  case False
  then have "root tree \<noteq> NULL" using assms addr_of_mem[of t] by (auto simp: tree_at_def)
  then show ?thesis using node_search_rep[OF _ False assms(2)] assms(1) by (auto simp: g_tree_search_def tree_at_def)
qed (use assms in \<open>simp add: g_tree_search_def tree_at_def\<close>)

section \<open>Heights and the check\<close>

lemma height_loop_rep:
  "rep h lo hi t \<Longrightarrow> t \<noteq> Leaf \<Longrightarrow> bal_ok t \<Longrightarrow> height_loop h (addr_of t) n = Some (n + int (height t))"
proof (induction t arbitrary: lo hi n)
  case (Node l c r)
  obtain a k v b where c: "c = (a, k, v, b)" by (cases c) auto
  have b: "b = int (height r) - int (height l)" and ha: "h a = Some (node_of lo hi l k v b r)" and ll: "rep h lo a l" "bal_ok l"
    using Node.prems c by simp_all
  show ?case
  proof (cases "l = Leaf")
    case True
    then show ?thesis using ha b c by (subst height_loop.simps) simp
  next
    case False
    have "height_loop h a n = height_loop h (addr_of l) (n + (1 + max b 0))"
      using ha False by (subst height_loop.simps) simp
    also have "\<dots> = Some (n + (1 + max b 0) + int (height l))" using ll(1) False ll(2) by (rule Node.IH(1))
    finally show ?thesis using b c by (simp add: max_def)
  qed
qed simp

lemma height_rep:
  assumes "gtree h tree t"
  shows "g_tree_height h tree = Some (int (height t))"
proof (cases "t = Leaf")
  case False
  then have "root tree \<noteq> NULL" using assms addr_of_mem[of t] by (auto simp: gtree_def tree_at_def)
  then show ?thesis using height_loop_rep[OF _ False, of h NULL NULL 0] assms
    by (simp add: g_tree_height_def gtree_def tree_at_def avl_bal_ok)
qed (use assms in \<open>simp add: g_tree_height_def gtree_def tree_at_def\<close>)

lemma node_height_rep:
  "rep h lo hi t \<Longrightarrow> NULL \<notin> set (addrs t) \<Longrightarrow> g_tree_node_height h (addr_of t) = Some (int (height t))"
proof (induction t arbitrary: lo hi)
  case (Node l c r)
  obtain a k v b where c: "c = (a, k, v, b)" by (cases c) auto
  have "a \<noteq> NULL" "h a = Some (node_of lo hi l k v b r)" "g_tree_node_height h (addr_of l) = Some (int (height l))"
    "g_tree_node_height h (addr_of r) = Some (int (height r))"
    using Node c by auto
  then show ?case using c by (subst g_tree_node_height.simps) (auto simp: max_def)
qed (subst g_tree_node_height.simps, simp)

lemma first_thread: "rep h lo hi t \<Longrightarrow> t \<noteq> Leaf \<Longrightarrow> \<exists>n. h (fst (hd (items t))) = Some n \<and> n_left n = lo"
proof (induction t arbitrary: hi)
  case (Node l c r)
  obtain a k v b where c: "c = (a, k, v, b)" by (cases c) auto
  show ?case using Node.prems c Node.IH(1)[of a] by (cases "l = Leaf") auto
qed simp

lemma last_thread: "rep h lo hi t \<Longrightarrow> t \<noteq> Leaf \<Longrightarrow> \<exists>n. h (fst (last (items t))) = Some n \<and> n_right n = hi"
proof (induction t arbitrary: lo)
  case (Node l c r)
  obtain a k v b where c: "c = (a, k, v, b)" by (cases c) auto
  show ?case using Node.prems c Node.IH(2)[of a] by (cases "r = Leaf") auto
qed simp

lemma node_check_rep:
  "rep h lo hi t \<Longrightarrow> NULL \<notin> set (addrs t) \<Longrightarrow> bal_ok t \<Longrightarrow> g_tree_node_check h (addr_of t) = Some ()"
proof (induction t arbitrary: lo hi)
  case (Node l c r)
  obtain a k v b where c: "c = (a, k, v, b)" by (cases c) auto
  have n: "a \<noteq> NULL" "h a = Some (node_of lo hi l k v b r)" "rep h lo a l" "rep h a hi r" "NULL \<notin> set (addrs l)" "NULL \<notin> set (addrs r)"
    "b = int (height r) - int (height l)" using Node.prems c by auto
  have hs: "g_tree_node_height h (addr_of l) = Some (int (height l))" "g_tree_node_height h (addr_of r) = Some (int (height r))"
    using n by (auto intro: node_height_rep)
  have ih: "g_tree_node_check h (addr_of l) = Some ()" "g_tree_node_check h (addr_of r) = Some ()"
    using Node.IH Node.prems(3) n c by auto
  have p: "\<exists>x m. g_tree_node_previous h a = Some x \<and> h x = Some m \<and> n_right m = a" if "l \<noteq> Leaf"
    using rightmost_rep[OF n(3) that] last_thread[OF n(3) that] n(2) that by (auto simp: g_tree_node_previous_def)
  have s: "\<exists>x m. g_tree_node_next h a = Some x \<and> h x = Some m \<and> n_left m = a" if "r \<noteq> Leaf"
    using leftmost_rep[OF n(4) that] first_thread[OF n(4) that] n(2) that by (auto simp: g_tree_node_next_def)
  show ?case
    using n(1,2,7) hs ih p s c by (cases "l = Leaf"; cases "r = Leaf") (subst g_tree_node_check.simps; fastforce)+
qed (subst g_tree_node_check.simps, simp)

section \<open>The other orders\<close>

definition entry_of :: "cell \<Rightarrow> entry" where
  "entry_of c = (fst (snd c), fst (snd (snd c)))"

lemma entry_of_simp [simp]: "entry_of (a, k, v, b) = (k, v)"
  by (simp add: entry_of_def)

lemma pre_order_rep:
  "rep h lo hi t \<Longrightarrow> t \<noteq> Leaf \<Longrightarrow> g_tree_node_pre_order h func (addr_of t) s = Some (visit func (map entry_of (preorder t)) s)"
proof (induction t arbitrary: lo hi s)
  case (Node l c r)
  obtain a k v b where c: "c = (a, k, v, b)" by (cases c) auto
  show ?case using Node.prems Node.IH(1)[of lo a] Node.IH(2)[of a hi] c
    by (subst g_tree_node_pre_order.simps)
      (auto simp: visit_append split: prod.splits if_splits)
qed simp

lemma in_order_rep:
  "rep h lo hi t \<Longrightarrow> t \<noteq> Leaf \<Longrightarrow> g_tree_node_in_order h func (addr_of t) s = Some (visit func (tree_entries t) s)"
proof (induction t arbitrary: lo hi s)
  case (Node l c r)
  obtain a k v b where c: "c = (a, k, v, b)" by (cases c) auto
  show ?case using Node.prems Node.IH(1)[of lo a] Node.IH(2)[of a hi] c
    by (subst g_tree_node_in_order.simps)
      (auto simp: visit_append split: prod.splits if_splits)
qed simp

lemma post_order_rep:
  "rep h lo hi t \<Longrightarrow> t \<noteq> Leaf \<Longrightarrow> g_tree_node_post_order h func (addr_of t) s = Some (visit func (map entry_of (postorder t)) s)"
proof (induction t arbitrary: lo hi s)
  case (Node l c r)
  obtain a k v b where c: "c = (a, k, v, b)" by (cases c) auto
  show ?case using Node.prems Node.IH(1)[of lo a] Node.IH(2)[of a hi] c
    by (subst g_tree_node_post_order.simps)
      (auto simp: visit_append split: prod.splits if_splits)
qed simp

end
