(* ===== verification/Glib_Tree_Props.thy ===== *)
theory Glib_Tree_Props
  imports Glib_Tree_Visit
begin

text \<open>
  The properties of balanced trees. Between calls a tree is \<open>gtree\<close>: its nodes are in the heap with all pointers and
  threads, the stored balances are the differences of the heights and at most one, and the keys ascend.
\<close>

section \<open>How high a tree can be\<close>

fun min_nodes :: "nat \<Rightarrow> nat" where
  "min_nodes 0 = 0"
| "min_nodes (Suc 0) = 1"
| "min_nodes (Suc (Suc n)) = min_nodes (Suc n) + min_nodes n + 1"

lemma min_nodes_8:
  assumes "min_nodes n = a" and "min_nodes (n + 1) = b"
  shows "min_nodes (n + 8) = 13 * a + 21 * b + 33" and "min_nodes (n + 9) = 21 * a + 34 * b + 54"
  using assms by (simp_all add: eval_nat_numeral)

lemma min_nodes_41: "min_nodes 41 = 433494436"
proof -
  have 8: "min_nodes 8 = 54" "min_nodes 9 = 88" using min_nodes_8[of 0 0 1] by simp_all
  have 16: "min_nodes 16 = 2583" "min_nodes 17 = 4180" using min_nodes_8[of 8, OF 8(1)] 8(2) by simp_all
  have 24: "min_nodes 24 = 121392" "min_nodes 25 = 196417" using min_nodes_8[of 16, OF 16(1)] 16(2) by simp_all
  have 32: "min_nodes 32 = 5702886" "min_nodes 33 = 9227464" using min_nodes_8[of 24, OF 24(1)] 24(2) by simp_all
  show ?thesis using min_nodes_8[of 32, OF 32(1)] 32(2) by simp
qed

lemma min_nodes_Suc: "min_nodes n \<le> min_nodes (Suc n)"
  by (cases n rule: min_nodes.cases) auto

lemma min_nodes_mono: "m \<le> n \<Longrightarrow> min_nodes m \<le> min_nodes n"
  using lift_Suc_mono_le[of min_nodes] min_nodes_Suc by blast

lemma avl_min_nodes: "avl t \<Longrightarrow> min_nodes (height t) \<le> size t"
proof (induction t rule: avl.induct)
  case (2 l a k v b r)
  have ih: "min_nodes (height l) \<le> size l" "min_nodes (height r) \<le> size r" and d: "\<bar>int (height r) - int (height l)\<bar> \<le> 1"
    using 2 by auto
  then consider "height l = height r" | "height l = Suc (height r)" | "height r = Suc (height l)" by linarith
  then show ?case
  proof cases
    case 1
    then show ?thesis using ih min_nodes_Suc[of "height r - 1"] by (cases "height r") (auto simp: max_def)
  next
    case 2 then show ?thesis using ih by (simp add: max_def)
  next
    case 3 then show ?thesis using ih by (simp add: max_def)
  qed
qed simp

lemma path_room:
  assumes "avl t" and "size t < 433494436"
  shows "height t \<le> MAX_GTREE_HEIGHT"
proof (rule ccontr)
  assume "\<not> height t \<le> MAX_GTREE_HEIGHT"
  then have "min_nodes 41 \<le> min_nodes (height t)" by (intro min_nodes_mono) (simp add: MAX_GTREE_HEIGHT_def)
  then show False using avl_min_nodes[OF assms(1)] assms(2) by (simp add: min_nodes_41)
qed

section \<open>A tree too high\<close>

text \<open>The AVL trees with the fewest nodes, with the numbers from \<open>s\<close> on as keys and as addresses.\<close>

fun lean_tree :: "nat \<Rightarrow> nat \<Rightarrow> tshape" where
  "lean_tree 0 s = Leaf"
| "lean_tree (Suc 0) s = Node Leaf (of_nat s, of_nat s, NULL, 0) Leaf"
| "lean_tree (Suc (Suc n)) s =
     (let m = s + min_nodes (Suc n)
      in Node (lean_tree (Suc n) s) (of_nat m, of_nat m, NULL, -1) (lean_tree n (Suc m)))"

lemma height_lean: "height (lean_tree n s) = n"
  by (induction n s rule: lean_tree.induct) (simp_all add: Let_def)

lemma avl_lean: "avl (lean_tree n s)"
  by (induction n s rule: lean_tree.induct) (simp_all add: Let_def height_lean)

lemma items_lean: "items (lean_tree n s) = map (\<lambda>i. (of_nat i, of_nat i, NULL)) [s..<s + min_nodes n]"
proof (induction n s rule: lean_tree.induct)
  case (3 n s)
  let ?m = "s + min_nodes (Suc n)"
  have "[s..<s + min_nodes (Suc (Suc n))] = [s..<?m + (1 + min_nodes n)]" by (simp add: algebra_simps)
  also have "\<dots> = [s..<?m] @ [?m..<?m + (1 + min_nodes n)]" by (rule upt_add_eq_append) simp
  also have "[?m..<?m + (1 + min_nodes n)] = ?m # [Suc ?m..<Suc ?m + min_nodes n]" by (subst upt_conv_Cons) simp_all
  finally show ?case using 3 by (simp add: Let_def del: upt_Suc)
qed simp_all

fun heap_of :: "gpointer \<Rightarrow> gpointer \<Rightarrow> tshape \<Rightarrow> gheap" where
  "heap_of lo hi Leaf = Map.empty"
| "heap_of lo hi (Node l (a, k, v, b) r) = (heap_of lo a l ++ heap_of a hi r)(a \<mapsto> node_of lo hi l k v b r)"

lemma dom_heap_of: "dom (heap_of lo hi t) = set (addrs t)"
proof (induction lo hi t rule: heap_of.induct)
  case (2 lo hi l a k v b r)
  then show ?case unfolding heap_of.simps dom_fun_upd dom_map_add by auto
qed simp

lemma rep_heap_of: "distinct (addrs t) \<Longrightarrow> rep (heap_of lo hi t) lo hi t"
proof (induction lo hi t rule: heap_of.induct)
  case (2 lo hi l a k v b r)
  let ?h = "heap_of lo a l ++ heap_of a hi r"
  have d: "a \<notin> set (addrs l)" "a \<notin> set (addrs r)" "set (addrs l) \<inter> set (addrs r) = {}"
    and ih: "rep (heap_of lo a l) lo a l" "rep (heap_of a hi r) a hi r" using 2 by auto
  have "rep ?h lo a l" using ih(1) d(3) dom_heap_of[of a hi r]
    by (subst rep_cong[where h' = "heap_of lo a l"]) (auto simp: map_add_def split: option.splits)
  then have 1: "rep (?h(a \<mapsto> node_of lo hi l k v b r)) lo a l" using d(1) by (subst rep_upd)
  have "rep ?h a hi r" using ih(2) dom_heap_of[of a hi r]
    by (subst rep_cong[where h' = "heap_of a hi r"]) (auto simp: map_add_def split: option.splits)
  then have 2: "rep (?h(a \<mapsto> node_of lo hi l k v b r)) a hi r" using d(2) by (subst rep_upd)
  show ?case unfolding heap_of.simps rep.simps using 1 2 fun_upd_same[of ?h a] by blast
qed simp

fun spine :: "tshape \<Rightarrow> nat" where
  "spine Leaf = 0"
| "spine (Node l c r) = Suc (spine l)"

lemma spine_lean: "spine (lean_tree n s) = n"
  by (induction n s rule: lean_tree.induct) (simp_all add: Let_def)

lemma walk_overrun:
  "rep h lo hi t \<Longrightarrow> t \<noteq> Leaf \<Longrightarrow> \<forall>x \<in> set (items t). compare key (fst (snd x)) < 0 \<Longrightarrow>
   length path = MAX_GTREE_HEIGHT \<Longrightarrow> idx \<le> MAX_GTREE_HEIGHT \<Longrightarrow> Suc MAX_GTREE_HEIGHT < idx + spine t \<Longrightarrow>
   walk compare h key path idx (addr_of t) = None"
proof (induction t arbitrary: hi path idx)
  case (Node l c r)
  obtain a k v b where c: "c = (a, k, v, b)" by (cases c) auto
  have l: "l \<noteq> Leaf" using Node.prems(5,6) by auto
  have ha: "h a = Some (node_of lo hi l k v b r)" and k: "compare key k < 0" using Node.prems(1,3) c by auto
  show ?case
  proof (cases "idx < MAX_GTREE_HEIGHT")
    case True
    have "walk compare h key (path[idx := a]) (Suc idx) (addr_of l) = None"
      using Node.IH(1)[of a "path[idx := a]" "Suc idx"] Node.prems l c True by auto
    then show ?thesis using ha k l c True Node.prems(4) by (subst walk.simps) (simp add: set_path_def)
  next
    case False
    then show ?thesis using ha k l c Node.prems(4) by (subst walk.simps) (simp add: set_path_def)
  qed
qed simp

text \<open>Pointers compared as numbers.\<close>

interpretation numbers: key_order "\<lambda>a b. uint a - uint b"
  by unfold_locales auto

definition lean_gtree :: GTree where
  "lean_gtree = (g_tree_new (\<lambda>a b. uint a - uint b))\<lparr>root := addr_of (lean_tree 41 1), nnodes := of_nat (min_nodes 41)\<rparr>"

lemma number_uint: "i \<le> min_nodes 41 \<Longrightarrow> uint (of_nat i :: gpointer) = int i"
  by (simp add: min_nodes_41 unsigned_of_nat take_bit_nat_eq_self)

lemma number_inj: "i \<le> min_nodes 41 \<Longrightarrow> j \<le> min_nodes 41 \<Longrightarrow> (of_nat i :: gpointer) = of_nat j \<longleftrightarrow> i = j"
  by (metis number_uint of_nat_eq_iff)

lemma gtree_lean: "gtree (heap_of NULL NULL (lean_tree 41 1)) lean_gtree (lean_tree 41 1)"
proof -
  let ?t = "lean_tree 41 1"
  obtain m where m: "m = min_nodes 41" by simp
  have it: "items ?t = map (\<lambda>i. (of_nat i, of_nat i, NULL)) [1..<Suc m]" unfolding items_lean m by simp
  then have ad: "addrs ?t = map of_nat [1..<Suc m]" by (simp add: addrs_def o_def del: upt_Suc)
  have "inj_on (of_nat :: nat \<Rightarrow> gpointer) (set [1..<Suc m])"
    by (rule inj_onI) (auto simp: number_inj m)
  then have d: "distinct (addrs ?t)" unfolding ad distinct_map by simp
  have "(of_nat i :: gpointer) \<noteq> NULL" if "i \<in> set [1..<Suc m]" for i
    using that number_inj[of i 0] by (auto simp: m)
  then have n: "NULL \<notin> set (addrs ?t)" unfolding ad by force
  have "sorted_wrt (<) [1..<Suc m]" by (rule sorted_wrt_upt)
  then have o: "ordered (\<lambda>a b. uint a - uint b) (items ?t)"
    unfolding ordered_def it sorted_wrt_map
    by (rule sorted_wrt_mono_rel[rotated]) (auto simp: number_uint m)
  have "size ?t = min_nodes 41" using it m by (simp flip: length_items)
  then show ?thesis using d n o rep_heap_of[OF d, of NULL NULL]
    by (simp add: gtree_def tree_at_def lean_gtree_def avl_lean g_tree_new_def g_tree_new_full_def)
qed

section \<open>The properties\<close>

lemma rep_dom: "rep h lo hi t \<Longrightarrow> x \<in> set (addrs t) \<Longrightarrow> h x \<noteq> None"
  by (induction h lo hi t rule: rep.induct) auto

text \<open>A tree of two nodes, which an insertion or a removal rotates or empties.\<close>

definition two_nodes :: tshape where
  "two_nodes = Node Leaf (16, 1, 101, 1) (Node Leaf (32, 2, 102, 0) Leaf)"

definition two_gtree :: GTree where
  "two_gtree = \<lparr>root = 16, key_compare = \<lambda>a b. uint a - uint b, key_destroy_func = True, value_destroy_func = False,
     nnodes = 2, ref_count = 1\<rparr>"

lemma gtree_two: "gtree (heap_of NULL NULL two_nodes) two_gtree two_nodes"
proof -
  have "distinct (addrs two_nodes)" by (simp add: two_nodes_def)
  from rep_heap_of[OF this, of NULL NULL] show ?thesis
    by (simp add: gtree_def tree_at_def two_nodes_def two_gtree_def ordered_def)
qed

lemma two_gtree_simps [simp]: "key_compare two_gtree = (\<lambda>a b. uint a - uint b)" "size two_nodes = 2"
  "tree_entries two_nodes = [(1, 101), (2, 102)]"
  by (simp_all add: two_gtree_def two_nodes_def)

text \<open>C31: inserting or replacing a key in a balanced tree with fewer than 433494436 nodes always succeeds, without
  leaving the array \<open>path\<close> and without a failed assertion. It leaves a balanced tree whose entries in order
  are those of the sorted list with the entry put in: a new key at its place; for an old key the new value, with the
  new key only when replacing. Exactly the old value and the key that is not kept are destroyed, the node count is
  right, and nothing else in the heap changes.\<close>

theorem tree_insert_refines:
  assumes "gtree h tree t" and "key_order (key_compare tree)" and "size t < 433494436" and "addr \<noteq> NULL" and "h addr = None"
  shows "\<exists>h' tree' t'. (if replace then g_tree_replace else g_tree_insert) h tree addr key val =
      Some (h', tree', insert_calls tree t key replace) \<and>
    gtree h' tree' t' \<and> tree_entries t' = put_entry (key_compare tree) replace key val (tree_entries t) \<and>
    tree' = tree\<lparr>root := addr_of t', nnodes := of_nat (size t')\<rparr> \<and>
    (\<forall>x. x \<notin> set (addrs t) \<longrightarrow> x \<noteq> addr \<longrightarrow> h' x = h x)"
proof -
  have "avl t" "rep h NULL NULL t" using assms(1) by (simp_all add: gtree_def tree_at_def)
  then have "height t \<le> MAX_GTREE_HEIGHT" "addr \<notin> set (addrs t)" using assms(3,5) rep_dom[of h NULL NULL t addr] path_room by auto
  from insert_internal_rep[OF assms(1,2) this(1) assms(4) this(2), of key val replace]
  obtain h' tree' t' where "g_tree_insert_internal h tree addr key val replace = Some (h', tree', insert_calls tree t key replace)"
    and i: "inserted h tree t addr key val replace h' tree' t'" by blast
  then have "(if replace then g_tree_replace else g_tree_insert) h tree addr key val = Some (h', tree', insert_calls tree t key replace)"
    by (cases replace) (simp_all add: g_tree_replace_def g_tree_insert_def)
  moreover have "\<forall>x. x \<notin> set (addrs t) \<longrightarrow> x \<noteq> addr \<longrightarrow> h' x = h x" using i by (simp add: inserted_def)
  ultimately show ?thesis using i unfolding inserted_def by blast
qed

theorem tree_insert_refines_witness:
  "\<exists>h' tree' t'. g_tree_insert (heap_of NULL NULL two_nodes) two_gtree 48 3 103 = Some (h', tree', []) \<and>
     gtree h' tree' t' \<and> tree_entries t' = [(1, 101), (2, 102), (3, 103)]"
  using tree_insert_refines[OF gtree_two, of 48 False 3 103] numbers.key_order_axioms
  by (auto simp: insert_calls_def find_entry_def dom_heap_of two_nodes_def)

text \<open>C32: removing or stealing a key always succeeds too. It says whether the key was there, and leaves a balanced
  tree whose entries are the others, in order. Removing destroys the stored key and value once, stealing does not; the
  node is freed and the node count is right, and nothing else in the heap changes.\<close>

theorem tree_remove_refines:
  assumes "gtree h tree t" and "key_order (key_compare tree)" and "size t < 433494436"
  shows "\<exists>h' tree' t'. (if steal then g_tree_steal else g_tree_remove) h tree key =
      Some (h', tree', find_entry (key_compare tree) key (tree_entries t) \<noteq> None, remove_calls tree t key steal) \<and>
    gtree h' tree' t' \<and> tree_entries t' = del_entry (key_compare tree) key (tree_entries t) \<and>
    tree' = tree\<lparr>root := addr_of t', nnodes := of_nat (size t')\<rparr> \<and> set (addrs t') \<subseteq> set (addrs t) \<and>
    (\<forall>x. x \<notin> set (addrs t') \<longrightarrow> h' x = (if x \<in> set (addrs t) then None else h x))"
proof -
  have "avl t" using assms(1) by (simp add: gtree_def)
  then have "height t \<le> MAX_GTREE_HEIGHT" using assms(3) by (rule path_room)
  from remove_internal_rep[OF assms(1,2) this, of key steal]
  obtain h' tree' t' where "g_tree_remove_internal h tree key steal =
      Some (h', tree', find_entry (key_compare tree) key (tree_entries t) \<noteq> None, remove_calls tree t key steal)"
    and i: "removed h tree t key h' tree' t'" by blast
  then have "(if steal then g_tree_steal else g_tree_remove) h tree key =
      Some (h', tree', find_entry (key_compare tree) key (tree_entries t) \<noteq> None, remove_calls tree t key steal)"
    by (cases steal) (simp_all add: g_tree_steal_def g_tree_remove_def)
  with i show ?thesis unfolding removed_def by blast
qed

theorem tree_remove_refines_witness:
  "\<exists>h' tree' t'. g_tree_remove (heap_of NULL NULL two_nodes) two_gtree 1 = Some (h', tree', True, [Key 1]) \<and>
     gtree h' tree' t' \<and> tree_entries t' = [(2, 102)]"
  using tree_remove_refines[OF gtree_two, of False 1] numbers.key_order_axioms
  by (auto simp: remove_calls_def find_entry_def del_entry_def call_destroy_def two_gtree_def)

text \<open>C33: looking a key up, searching with a function that agrees with the order, and visiting the nodes: every one of
  these loops ends. A lookup finds the entry of the key if there is one. A search finds the first entry on
  which the function is zero. The visits in key order call the function for the entries in order, those before and
  after the subtrees in the tree's preorder and postorder, until it says to stop.\<close>

theorem tree_reads:
  assumes "gtree h tree t" and "key_order (key_compare tree)" and "search_ok search (tree_entries t)"
  shows "g_tree_lookup_extended h tree key = Some (find_entry (key_compare tree) key (tree_entries t)) \<and>
    g_tree_lookup h tree key = Some (case find_entry (key_compare tree) key (tree_entries t) of None \<Rightarrow> NULL | Some (k, v) \<Rightarrow> v) \<and>
    g_tree_search h tree search = Some (case find (\<lambda>e. search (fst e) = 0) (tree_entries t) of None \<Rightarrow> NULL | Some e \<Rightarrow> snd e) \<and>
    g_tree_foreach h tree func s = Some (snd (visit func (tree_entries t) s)) \<and>
    g_tree_traverse h tree func G_IN_ORDER s = Some (snd (visit func (tree_entries t) s)) \<and>
    g_tree_traverse h tree func G_PRE_ORDER s = Some (snd (visit func (map entry_of (preorder t)) s)) \<and>
    g_tree_traverse h tree func G_POST_ORDER s = Some (snd (visit func (map entry_of (postorder t)) s))"
proof -
  have t: "tree_at h tree t" using assms(1) by (simp add: gtree_def)
  then have "g_tree_traverse h tree func type s = (if t = Leaf then Some s else case type of
      G_PRE_ORDER \<Rightarrow> map_option snd (g_tree_node_pre_order h func (addr_of t) s)
    | G_IN_ORDER \<Rightarrow> map_option snd (g_tree_node_in_order h func (addr_of t) s)
    | G_POST_ORDER \<Rightarrow> map_option snd (g_tree_node_post_order h func (addr_of t) s)
    | G_LEVEL_ORDER \<Rightarrow> Some s)" for type
    using addr_of_mem[of t] by (cases "t = Leaf") (auto simp: tree_at_def g_tree_traverse_def split: GTraverseType.split)
  moreover have "rep h NULL NULL t" using t by (simp add: tree_at_def)
  ultimately show ?thesis
    using lookup_extended_rep[OF assms(1,2), of key] search_rep[OF t assms(3)] foreach_rep[OF t, of func s]
    by (auto simp: pre_order_rep in_order_rep post_order_rep)
qed

theorem tree_reads_witness:
  "g_tree_lookup (heap_of NULL NULL two_nodes) two_gtree 2 = Some 102 \<and>
   g_tree_search (heap_of NULL NULL two_nodes) two_gtree (\<lambda>k. 1 - uint k) = Some 101 \<and>
   g_tree_foreach (heap_of NULL NULL two_nodes) two_gtree (\<lambda>k v ks. (False, ks @ [k])) [] = Some [1, 2]"
  using tree_reads[OF gtree_two, of "\<lambda>k. 1 - uint k" 2 "\<lambda>k v ks. (False, ks @ [k])" "[]"] numbers.key_order_axioms
  by (simp add: search_ok_def find_entry_def)

text \<open>C34: the code's own check of \<open>G_TREE_DEBUG\<close> never fails on a balanced tree of fewer than 433494436 nodes:
  the threads lead to the neighbours and the stored balances are the differences of the heights. The height it
  computes from the balances alone is the real one, and it is at most 40.\<close>

theorem tree_checked:
  assumes "gtree h tree t" and "size t < 433494436"
  shows "g_tree_node_check h (root tree) = Some () \<and> g_tree_height h tree = Some (int (height t)) \<and>
    g_tree_nnodes tree = int (size t) \<and> height t \<le> MAX_GTREE_HEIGHT"
proof -
  have t: "rep h NULL NULL t" "NULL \<notin> set (addrs t)" "root tree = addr_of t" "avl t" using assms(1) by (auto simp: gtree_def tree_at_def)
  have "g_tree_nnodes tree = int (size t)" using assms
    by (simp add: g_tree_nnodes_def gtree_def signed_of_nat signed_take_bit_int_eq_self)
  then show ?thesis using node_check_rep[OF t(1,2)] avl_bal_ok[OF t(4)] height_rep[OF assms(1)] path_room[OF t(4) assms(2)] t(3) by simp
qed

theorem tree_checked_witness:
  "g_tree_node_check (heap_of NULL NULL two_nodes) (root two_gtree) = Some () \<and>
   g_tree_height (heap_of NULL NULL two_nodes) two_gtree = Some 2"
  using tree_checked[OF gtree_two] by (simp add: two_nodes_def)

text \<open>C35: \<open>MAX_GTREE_HEIGHT\<close> is not enough for the node count, which has 32 bits: there is a balanced tree of 433494436 nodes
  into which inserting a key writes past the end of \<open>path\<close>.\<close>

theorem tree_path_overrun:
  "\<exists>h tree t addr key. gtree h tree t \<and> key_order (key_compare tree) \<and> size t = 433494436 \<and> uint (nnodes tree) = 433494436 \<and>
     addr \<noteq> NULL \<and> h addr = None \<and> g_tree_insert h tree addr key val = None"
proof -
  let ?t = "lean_tree 41 1" and ?key = "0 :: gpointer" and ?addr = "2 ^ 40 :: gpointer"
  let ?h = "heap_of NULL NULL ?t"
  have it: "items ?t = map (\<lambda>i. (of_nat i, of_nat i, NULL)) [1..<1 + min_nodes 41]" by (rule items_lean)
  then have sz: "size ?t = min_nodes 41" by (simp flip: length_items)
  have nn: "uint (nnodes lean_gtree) = int (min_nodes 41)" 
    by (simp add: lean_gtree_def min_nodes_41)
  have m: "\<forall>x \<in> set (items ?t). 0 < uint (fst (snd x)) \<and> uint (fst x) \<le> int (min_nodes 41)"
    unfolding it by (auto simp: number_uint simp del: upt_Suc)
  have "?addr \<notin> set (addrs ?t)" using m by (auto simp: addrs_def min_nodes_41)
  then have fresh: "?h ?addr = None" using dom_heap_of[of NULL NULL ?t] by (auto simp: domIff)
  have nl: "?t \<noteq> Leaf" using height_lean[of 41 1] by auto
  have rep: "rep ?h NULL NULL ?t" "NULL \<notin> set (addrs ?t)" using gtree_lean by (simp_all add: gtree_def tree_at_def)
  then have rt: "root lean_gtree \<noteq> NULL" "root lean_gtree = addr_of ?t" using addr_of_mem[OF nl] gtree_lean
    by (auto simp: gtree_def tree_at_def)
  have "walk (\<lambda>a b. uint a - uint b) ?h ?key new_path 1 (addr_of ?t) = None"
    by (rule walk_overrun[OF rep(1) nl]) (use m in \<open>auto simp: new_path_def MAX_GTREE_HEIGHT_def spine_lean\<close>)
  moreover have kc: "key_compare lean_gtree = (\<lambda>a b. uint a - uint b)" by (simp add: lean_gtree_def g_tree_new_def g_tree_new_full_def)
  ultimately have "g_tree_insert ?h lean_gtree ?addr ?key val = None"
    using rt by (simp add: g_tree_insert_def g_tree_insert_internal_def)
  moreover have "key_order (key_compare lean_gtree)" unfolding kc by (rule numbers.key_order_axioms)
  moreover have "uint (nnodes lean_gtree) = 433494436" "size ?t = 433494436" using nn sz by (simp_all add: min_nodes_41)
  ultimately show ?thesis using gtree_lean fresh by (intro exI[of _ ?h] exI[of _ lean_gtree] exI[of _ ?t] exI[of _ ?addr] exI[of _ ?key]) simp
qed

text \<open>C36: destroying a tree with one reference frees every node once, destroys the key and the value of every
  entry once, in key order, as far as destroy functions were given, and frees the tree.\<close>

theorem tree_destroy_frees:
  assumes "gtree h tree t" and "ref_count tree = 1"
  shows "g_tree_destroy h tree = Some (\<lambda>x. if x \<in> set (addrs t) then None else h x, None,
    concat (map (\<lambda>(k, v). call_destroy tree [Key k, Value v]) (tree_entries t)))"
proof -
  have t: "tree_at h tree t" using assms(1) by (simp add: gtree_def)
  have r: "g_tree_remove_all h' (tree\<lparr>root := NULL, nnodes := 0, ref_count := 0\<rparr>) =
      Some (h', tree\<lparr>root := NULL, nnodes := 0, ref_count := 0\<rparr>, [])" for h'
    by (simp add: g_tree_remove_all_def g_tree_first_node_def remove_all_nodes.simps)
  show ?thesis using remove_all_rep[OF t] r assms(2) by (simp add: g_tree_destroy_def g_tree_unref_def Let_def)
qed

theorem tree_destroy_frees_witness:
  "g_tree_destroy (heap_of NULL NULL two_nodes) two_gtree = Some (Map.empty, None, [Key 1, Key 2])"
  using tree_destroy_frees[OF gtree_two] dom_heap_of[of NULL NULL two_nodes]
  by (auto simp: two_gtree_def call_destroy_def fun_eq_iff)

end
