(* ===== verification/Glib_List.thy ===== *)
theory Glib_List
  imports Glib_Types "HOL-Library.Monad_Syntax"
begin

text \<open>
  Doubly linked lists (\<open>glist.c\<close>). A list is a pointer to its first element; the elements live in a heap,
  a map from their addresses. A function takes the heap and returns the new one; \<open>None\<close> stands for a dereference of
  a pointer to no element, or a loop without an end. The addresses that the allocator gives are arguments,
  and the pointers that it leaves unset are \<open>NULL\<close>: every one is written before it is read.
\<close>

record GList =
  l_data :: gpointer
  l_next :: gpointer
  l_prev :: gpointer

type_synonym lheap = "gpointer \<Rightarrow> GList option"

text \<open>Stores through a pointer to an element.\<close>

definition set_elem :: "lheap \<Rightarrow> gpointer \<Rightarrow> (GList \<Rightarrow> GList) \<Rightarrow> lheap option" where
  "set_elem h p f = map_option (\<lambda>n. h(p \<mapsto> f n)) (h p)"

definition set_next :: "lheap \<Rightarrow> gpointer \<Rightarrow> gpointer \<Rightarrow> lheap option" where
  "set_next h p q = set_elem h p (l_next_update (\<lambda>_. q))"

definition set_prev :: "lheap \<Rightarrow> gpointer \<Rightarrow> gpointer \<Rightarrow> lheap option" where
  "set_prev h p q = set_elem h p (l_prev_update (\<lambda>_. q))"

section \<open>Looking\<close>

definition g_list_alloc :: "lheap \<Rightarrow> gpointer \<Rightarrow> lheap" where
  "g_list_alloc h addr = h(addr \<mapsto> \<lparr>l_data = NULL, l_next = NULL, l_prev = NULL\<rparr>)"

partial_function (option) last_loop :: "lheap \<Rightarrow> gpointer \<Rightarrow> gpointer option" where
  [code]: "last_loop h list = do { n \<leftarrow> h list; if l_next n \<noteq> NULL then last_loop h (l_next n) else Some list }"

definition g_list_last :: "lheap \<Rightarrow> gpointer \<Rightarrow> gpointer option" where
  "g_list_last h list = (if list = NULL then Some NULL else last_loop h list)"

partial_function (option) first_loop :: "lheap \<Rightarrow> gpointer \<Rightarrow> gpointer option" where
  [code]: "first_loop h list = do { n \<leftarrow> h list; if l_prev n \<noteq> NULL then first_loop h (l_prev n) else Some list }"

definition g_list_first :: "lheap \<Rightarrow> gpointer \<Rightarrow> gpointer option" where
  "g_list_first h list = (if list = NULL then Some NULL else first_loop h list)"

partial_function (option) g_list_nth :: "lheap \<Rightarrow> gpointer \<Rightarrow> u32 \<Rightarrow> gpointer option" where
  [code]: "g_list_nth h list n =
    (if n > 0 \<and> list \<noteq> NULL then do { e \<leftarrow> h list; g_list_nth h (l_next e) (n - 1) } else Some list)"

partial_function (option) g_list_nth_prev :: "lheap \<Rightarrow> gpointer \<Rightarrow> u32 \<Rightarrow> gpointer option" where
  [code]: "g_list_nth_prev h list n =
    (if n > 0 \<and> list \<noteq> NULL then do { e \<leftarrow> h list; g_list_nth_prev h (l_prev e) (n - 1) } else Some list)"

definition g_list_nth_data :: "lheap \<Rightarrow> gpointer \<Rightarrow> u32 \<Rightarrow> gpointer option" where
  "g_list_nth_data h list n = do {
     list \<leftarrow> g_list_nth h list n;
     if list \<noteq> NULL then map_option l_data (h list) else Some NULL }"

partial_function (option) g_list_find :: "lheap \<Rightarrow> gpointer \<Rightarrow> gpointer \<Rightarrow> gpointer option" where
  [code]: "g_list_find h list data =
    (if list = NULL then Some NULL
     else do { e \<leftarrow> h list; if l_data e = data then Some list else g_list_find h (l_next e) data })"

partial_function (option) g_list_find_custom ::
    "lheap \<Rightarrow> gpointer \<Rightarrow> gpointer \<Rightarrow> (gpointer \<Rightarrow> gpointer \<Rightarrow> int) \<Rightarrow> gpointer option" where
  [code]: "g_list_find_custom h list data func =
    (if list = NULL then Some NULL
     else do { e \<leftarrow> h list; if func (l_data e) data = 0 then Some list else g_list_find_custom h (l_next e) data func })"

text \<open>The counter is a \<open>gint\<close>; its overflow is undefined.\<close>

definition next_gint :: "int \<Rightarrow> int option" where
  "next_gint i = (if i = 2147483647 then None else Some (i + 1))"

partial_function (option) position_loop :: "lheap \<Rightarrow> gpointer \<Rightarrow> gpointer \<Rightarrow> int \<Rightarrow> int option" where
  [code]: "position_loop h list llink i =
    (if list = NULL then Some (-1)
     else if list = llink then Some i
     else do { e \<leftarrow> h list; i \<leftarrow> next_gint i; position_loop h (l_next e) llink i })"

definition g_list_position :: "lheap \<Rightarrow> gpointer \<Rightarrow> gpointer \<Rightarrow> int option" where
  "g_list_position h list llink = position_loop h list llink 0"

partial_function (option) index_loop :: "lheap \<Rightarrow> gpointer \<Rightarrow> gpointer \<Rightarrow> int \<Rightarrow> int option" where
  [code]: "index_loop h list data i =
    (if list = NULL then Some (-1)
     else do { e \<leftarrow> h list; if l_data e = data then Some i else do { i \<leftarrow> next_gint i; index_loop h (l_next e) data i } })"

definition g_list_index :: "lheap \<Rightarrow> gpointer \<Rightarrow> gpointer \<Rightarrow> int option" where
  "g_list_index h list data = index_loop h list data 0"

partial_function (option) length_loop :: "lheap \<Rightarrow> gpointer \<Rightarrow> u32 \<Rightarrow> u32 option" where
  [code]: "length_loop h list n =
    (if list = NULL then Some n else do { e \<leftarrow> h list; length_loop h (l_next e) (n + 1) })"

definition g_list_length :: "lheap \<Rightarrow> gpointer \<Rightarrow> u32 option" where
  "g_list_length h list = length_loop h list 0"

text \<open>The function called gets the user data and may change it.\<close>

partial_function (option) g_list_foreach :: "lheap \<Rightarrow> gpointer \<Rightarrow> (gpointer \<Rightarrow> 's \<Rightarrow> 's) \<Rightarrow> 's \<Rightarrow> 's option" where
  [code]: "g_list_foreach h list func s =
    (if list = NULL then Some s else do { e \<leftarrow> h list; g_list_foreach h (l_next e) func (func (l_data e) s) })"

section \<open>Freeing\<close>

text \<open>\<open>g_slice_free_chain\<close> follows the \<open>next\<close> pointers.\<close>

partial_function (option) g_list_free :: "lheap \<Rightarrow> gpointer \<Rightarrow> lheap option" where
  [code]: "g_list_free h list = (if list = NULL then Some h else do { e \<leftarrow> h list; g_list_free (h(list := None)) (l_next e) })"

text \<open>\<open>g_slice_free\<close>: nothing on \<open>NULL\<close>, and no result on an address that is not allocated, or no longer.\<close>

definition g_list_free_1 :: "lheap \<Rightarrow> gpointer \<Rightarrow> lheap option" where
  "g_list_free_1 h list = (if list = NULL then Some h else do { e \<leftarrow> h list; Some (h(list := None)) })"

definition g_list_free_full :: "lheap \<Rightarrow> gpointer \<Rightarrow> (lheap \<times> destroyed list) option" where
  "g_list_free_full h list = do {
     calls \<leftarrow> g_list_foreach h list (\<lambda>d calls. calls @ [Value d]) [];
     h \<leftarrow> g_list_free h list;
     Some (h, calls) }"

section \<open>Inserting\<close>

definition g_list_append :: "lheap \<Rightarrow> gpointer \<Rightarrow> gpointer \<Rightarrow> gpointer \<Rightarrow> (lheap \<times> gpointer) option" where
  "g_list_append h addr list data = do {
     let h = h(addr \<mapsto> \<lparr>l_data = data, l_next = NULL, l_prev = NULL\<rparr>);
     if list \<noteq> NULL then do {
       last \<leftarrow> g_list_last h list;
       h \<leftarrow> set_next h last addr;
       h \<leftarrow> set_prev h addr last;
       Some (h, list) }
     else Some (h, addr) }"

definition g_list_prepend :: "lheap \<Rightarrow> gpointer \<Rightarrow> gpointer \<Rightarrow> gpointer \<Rightarrow> (lheap \<times> gpointer) option" where
  "g_list_prepend h addr list data = do {
     let h = h(addr \<mapsto> \<lparr>l_data = data, l_next = list, l_prev = NULL\<rparr>);
     if list \<noteq> NULL then do {
       e \<leftarrow> h list;
       h \<leftarrow> set_prev h addr (l_prev e);
       h \<leftarrow> (if l_prev e \<noteq> NULL then set_next h (l_prev e) addr else Some h);
       h \<leftarrow> set_prev h list addr;
       Some (h, addr) }
     else Some (h, addr) }"

text \<open>A new element goes before another one that has a predecessor.\<close>

definition put_before :: "lheap \<Rightarrow> gpointer \<Rightarrow> gpointer \<Rightarrow> gpointer \<Rightarrow> lheap option" where
  "put_before h addr data p = do {
     e \<leftarrow> h p;
     let h = h(addr \<mapsto> \<lparr>l_data = data, l_next = NULL, l_prev = l_prev e\<rparr>);
     h \<leftarrow> set_next h (l_prev e) addr;
     h \<leftarrow> set_next h addr p;
     set_prev h p addr }"

definition g_list_insert :: "lheap \<Rightarrow> gpointer \<Rightarrow> gpointer \<Rightarrow> gpointer \<Rightarrow> int \<Rightarrow> (lheap \<times> gpointer) option" where
  "g_list_insert h addr list data position =
     (if position < 0 then g_list_append h addr list data
      else if position = 0 then g_list_prepend h addr list data
      else do {
        tmp_list \<leftarrow> g_list_nth h list (of_int position);
        if tmp_list = NULL then g_list_append h addr list data
        else do { h \<leftarrow> put_before h addr data tmp_list; Some (h, list) } })"

definition g_list_insert_before :: "lheap \<Rightarrow> gpointer \<Rightarrow> gpointer \<Rightarrow> gpointer \<Rightarrow> gpointer \<Rightarrow> (lheap \<times> gpointer) option" where
  "g_list_insert_before h addr list sibling data =
     (if list = NULL then Some (h(addr \<mapsto> \<lparr>l_data = data, l_next = NULL, l_prev = NULL\<rparr>), addr)
      else if sibling \<noteq> NULL then do {
        e \<leftarrow> h sibling;
        let h = h(addr \<mapsto> \<lparr>l_data = data, l_next = sibling, l_prev = l_prev e\<rparr>);
        h \<leftarrow> set_prev h sibling addr;
        if l_prev e \<noteq> NULL then do { h \<leftarrow> set_next h (l_prev e) addr; Some (h, list) }
        else Some (h, addr) }
      else do {
        last \<leftarrow> last_loop h list;
        let h = h(addr \<mapsto> \<lparr>l_data = data, l_next = NULL, l_prev = last\<rparr>);
        h \<leftarrow> set_next h last addr;
        Some (h, list) })"

text \<open>The first element that the new one does not come after, or the last one; and the comparison with it.\<close>

partial_function (option) sorted_place ::
    "lheap \<Rightarrow> gpointer \<Rightarrow> gpointer \<Rightarrow> (gpointer \<Rightarrow> gpointer \<Rightarrow> int) \<Rightarrow> (gpointer \<times> int) option" where
  [code]: "sorted_place h data tmp_list func = do {
     e \<leftarrow> h tmp_list;
     let cmp = func data (l_data e);
     if l_next e \<noteq> NULL \<and> cmp > 0 then sorted_place h data (l_next e) func else Some (tmp_list, cmp) }"

definition g_list_insert_sorted_real ::
    "lheap \<Rightarrow> gpointer \<Rightarrow> gpointer \<Rightarrow> gpointer \<Rightarrow> (gpointer \<Rightarrow> gpointer \<Rightarrow> int) \<Rightarrow> (lheap \<times> gpointer) option" where
  "g_list_insert_sorted_real h addr list data func =
     (let new = \<lparr>l_data = data, l_next = NULL, l_prev = NULL\<rparr>
      in if list = NULL then Some (h(addr \<mapsto> new), addr)
         else do {
           (tmp_list, cmp) \<leftarrow> sorted_place h data list func;
           e \<leftarrow> h tmp_list;
           let h = h(addr \<mapsto> new);
           if l_next e = NULL \<and> cmp > 0 then do {
             h \<leftarrow> set_next h tmp_list addr;
             h \<leftarrow> set_prev h addr tmp_list;
             Some (h, list) }
           else do {
             h \<leftarrow> (if l_prev e \<noteq> NULL then do { h \<leftarrow> set_next h (l_prev e) addr; set_prev h addr (l_prev e) } else Some h);
             h \<leftarrow> set_next h addr tmp_list;
             h \<leftarrow> set_prev h tmp_list addr;
             Some (h, if tmp_list = list then addr else list) } })"

definition g_list_insert_sorted ::
    "lheap \<Rightarrow> gpointer \<Rightarrow> gpointer \<Rightarrow> gpointer \<Rightarrow> (gpointer \<Rightarrow> gpointer \<Rightarrow> int) \<Rightarrow> (lheap \<times> gpointer) option" where
  "g_list_insert_sorted h addr list data func = g_list_insert_sorted_real h addr list data func"

definition g_list_insert_sorted_with_data ::
    "lheap \<Rightarrow> gpointer \<Rightarrow> gpointer \<Rightarrow> gpointer \<Rightarrow> (gpointer \<Rightarrow> gpointer \<Rightarrow> 'u \<Rightarrow> int) \<Rightarrow> 'u \<Rightarrow> (lheap \<times> gpointer) option" where
  "g_list_insert_sorted_with_data h addr list data func user_data =
     g_list_insert_sorted_real h addr list data (\<lambda>a b. func a b user_data)"

definition g_list_concat :: "lheap \<Rightarrow> gpointer \<Rightarrow> gpointer \<Rightarrow> (lheap \<times> gpointer) option" where
  "g_list_concat h list1 list2 =
     (if list2 \<noteq> NULL then do {
        tmp_list \<leftarrow> g_list_last h list1;
        h \<leftarrow> (if tmp_list \<noteq> NULL then set_next h tmp_list list2 else Some h);
        h \<leftarrow> set_prev h list2 tmp_list;
        Some (h, if tmp_list \<noteq> NULL then list1 else list2) }
      else Some (h, list1))"

section \<open>Removing\<close>

text \<open>A neighbour that does not point back is left as it is, with a warning.\<close>

definition remove_link :: "lheap \<Rightarrow> gpointer \<Rightarrow> gpointer \<Rightarrow> (lheap \<times> gpointer) option" where
  "remove_link h list link =
     (if link = NULL then Some (h, list)
      else do {
        e \<leftarrow> h link;
        h \<leftarrow> (if l_prev e \<noteq> NULL
              then do { p \<leftarrow> h (l_prev e); if l_next p = link then set_next h (l_prev e) (l_next e) else Some h }
              else Some h);
        h \<leftarrow> (if l_next e \<noteq> NULL
              then do { n \<leftarrow> h (l_next e); if l_prev n = link then set_prev h (l_next e) (l_prev e) else Some h }
              else Some h);
        h \<leftarrow> set_next h link NULL;
        h \<leftarrow> set_prev h link NULL;
        Some (h, if link = list then l_next e else list) })"

definition g_list_remove_link :: "lheap \<Rightarrow> gpointer \<Rightarrow> gpointer \<Rightarrow> (lheap \<times> gpointer) option" where
  "g_list_remove_link h list llink = remove_link h list llink"

definition g_list_delete_link :: "lheap \<Rightarrow> gpointer \<Rightarrow> gpointer \<Rightarrow> (lheap \<times> gpointer) option" where
  "g_list_delete_link h list link = do { (h, list) \<leftarrow> remove_link h list link; h \<leftarrow> g_list_free_1 h link; Some (h, list) }"

partial_function (option) remove_loop :: "lheap \<Rightarrow> gpointer \<Rightarrow> gpointer \<Rightarrow> gpointer \<Rightarrow> (lheap \<times> gpointer) option" where
  [code]: "remove_loop h list tmp data =
    (if tmp = NULL then Some (h, list)
     else do {
       e \<leftarrow> h tmp;
       if l_data e \<noteq> data then remove_loop h list (l_next e) data
       else do { (h, list) \<leftarrow> remove_link h list tmp; h \<leftarrow> g_list_free_1 h tmp; Some (h, list) } })"

definition g_list_remove :: "lheap \<Rightarrow> gpointer \<Rightarrow> gpointer \<Rightarrow> (lheap \<times> gpointer) option" where
  "g_list_remove h list data = remove_loop h list list data"

partial_function (option) remove_all_loop :: "lheap \<Rightarrow> gpointer \<Rightarrow> gpointer \<Rightarrow> gpointer \<Rightarrow> (lheap \<times> gpointer) option" where
  [code]: "remove_all_loop h list tmp data =
    (if tmp = NULL then Some (h, list)
     else do {
       e \<leftarrow> h tmp;
       if l_data e \<noteq> data then remove_all_loop h list (l_next e) data
       else do {
         let next = l_next e;
         (h, list) \<leftarrow> (if l_prev e \<noteq> NULL then do { h \<leftarrow> set_next h (l_prev e) next; Some (h, list) } else Some (h, next));
         h \<leftarrow> (if next \<noteq> NULL then set_prev h next (l_prev e) else Some h);
         h \<leftarrow> g_list_free_1 h tmp;
         remove_all_loop h list next data } })"

definition g_list_remove_all :: "lheap \<Rightarrow> gpointer \<Rightarrow> gpointer \<Rightarrow> (lheap \<times> gpointer) option" where
  "g_list_remove_all h list data = remove_all_loop h list list data"

section \<open>Copying and reversing\<close>

text \<open>
  The function applied to an element, if there is one, is pure; \<open>None\<close> is also that the allocator's answers, the list
  of addresses, are used up.
\<close>

partial_function (option) copy_loop ::
    "lheap \<Rightarrow> gpointer list \<Rightarrow> gpointer \<Rightarrow> gpointer \<Rightarrow> (gpointer \<Rightarrow> gpointer) option \<Rightarrow> lheap option" where
  [code]: "copy_loop h addrs l list func =
    (if list = NULL then set_next h l NULL
     else case addrs of [] \<Rightarrow> None
     | addr # addrs \<Rightarrow> do {
         e \<leftarrow> h list;
         h \<leftarrow> set_next h l addr;
         let h = h(addr \<mapsto> \<lparr>l_data = (case func of Some f \<Rightarrow> f (l_data e) | None \<Rightarrow> l_data e), l_next = NULL, l_prev = l\<rparr>);
         copy_loop h addrs addr (l_next e) func })"

definition g_list_copy_deep ::
    "lheap \<Rightarrow> gpointer list \<Rightarrow> gpointer \<Rightarrow> (gpointer \<Rightarrow> gpointer) option \<Rightarrow> (lheap \<times> gpointer) option" where
  "g_list_copy_deep h addrs list func =
     (if list = NULL then Some (h, NULL)
      else case addrs of [] \<Rightarrow> None
      | addr # addrs \<Rightarrow> do {
          e \<leftarrow> h list;
          let h = h(addr \<mapsto> \<lparr>l_data = (case func of Some f \<Rightarrow> f (l_data e) | None \<Rightarrow> l_data e), l_next = NULL, l_prev = NULL\<rparr>);
          h \<leftarrow> copy_loop h addrs addr (l_next e) func;
          Some (h, addr) })"

definition g_list_copy :: "lheap \<Rightarrow> gpointer list \<Rightarrow> gpointer \<Rightarrow> (lheap \<times> gpointer) option" where
  "g_list_copy h addrs list = g_list_copy_deep h addrs list None"

partial_function (option) reverse_loop :: "lheap \<Rightarrow> gpointer \<Rightarrow> gpointer \<Rightarrow> (lheap \<times> gpointer) option" where
  [code]: "reverse_loop h l list =
    (if list = NULL then Some (h, l)
     else do {
       e \<leftarrow> h list;
       h \<leftarrow> set_next h list (l_prev e);
       h \<leftarrow> set_prev h list (l_next e);
       reverse_loop h list (l_next e) })"

definition g_list_reverse :: "lheap \<Rightarrow> gpointer \<Rightarrow> (lheap \<times> gpointer) option" where
  "g_list_reverse h list = reverse_loop h NULL list"

section \<open>Sorting\<close>

text \<open>
  The first half is sorted before the second; the language leaves the order of the two calls open.
  The merge appends to a list whose head is a local element; \<open>head\<close> is the \<open>next\<close> pointer of that element
  and \<open>l\<close> the last element appended, \<open>NULL\<close> for the local one. When a list is used up the rest of the other is
  appended; were nothing appended before, its \<open>prev\<close> would become a pointer to the local element (\<open>None\<close>).
\<close>

definition merge_append :: "lheap \<Rightarrow> gpointer \<Rightarrow> gpointer \<Rightarrow> gpointer \<Rightarrow> (lheap \<times> gpointer) option" where
  "merge_append h head l p = (if l = NULL then Some (h, p) else map_option (\<lambda>h. (h, head)) (set_next h l p))"

partial_function (option) merge_loop ::
    "lheap \<Rightarrow> gpointer \<Rightarrow> gpointer \<Rightarrow> gpointer \<Rightarrow> gpointer \<Rightarrow> (gpointer \<Rightarrow> gpointer \<Rightarrow> int) \<Rightarrow> (lheap \<times> gpointer) option" where
  [code]: "merge_loop h head l l1 l2 compare =
    (if l1 \<noteq> NULL \<and> l2 \<noteq> NULL then do {
       e1 \<leftarrow> h l1;
       e2 \<leftarrow> h l2;
       if compare (l_data e1) (l_data e2) \<le> 0 then do {
         (h, head) \<leftarrow> merge_append h head l l1;
         h \<leftarrow> set_prev h l1 l;
         merge_loop h head l1 (l_next e1) l2 compare }
       else do {
         (h, head) \<leftarrow> merge_append h head l l2;
         h \<leftarrow> set_prev h l2 l;
         merge_loop h head l2 l1 (l_next e2) compare } }
     else if l = NULL then None
     else do {
       let rest = (if l1 \<noteq> NULL then l1 else l2);
       (h, head) \<leftarrow> merge_append h head l rest;
       h \<leftarrow> set_prev h rest l;
       Some (h, head) })"

definition g_list_sort_merge ::
    "lheap \<Rightarrow> gpointer \<Rightarrow> gpointer \<Rightarrow> (gpointer \<Rightarrow> gpointer \<Rightarrow> int) \<Rightarrow> (lheap \<times> gpointer) option" where
  "g_list_sort_merge h l1 l2 compare = merge_loop h NULL NULL l1 l2 compare"

text \<open>The element after which the list is cut: \<open>l1\<close> makes a step for every two of \<open>l2\<close>.\<close>

partial_function (option) middle_loop :: "lheap \<Rightarrow> gpointer \<Rightarrow> gpointer \<Rightarrow> gpointer option" where
  [code]: "middle_loop h l1 l2 = do {
     e \<leftarrow> h l2;
     if l_next e = NULL then Some l1
     else do {
       e' \<leftarrow> h (l_next e);
       if l_next e' = NULL then Some l1
       else do { e1 \<leftarrow> h l1; middle_loop h (l_next e1) (l_next e') } } }"

partial_function (option) g_list_sort_real ::
    "lheap \<Rightarrow> gpointer \<Rightarrow> (gpointer \<Rightarrow> gpointer \<Rightarrow> int) \<Rightarrow> (lheap \<times> gpointer) option" where
  [code]: "g_list_sort_real h list compare =
    (if list = NULL then Some (h, NULL)
     else do {
       e \<leftarrow> h list;
       if l_next e = NULL then Some (h, list)
       else do {
         l1 \<leftarrow> middle_loop h list (l_next e);
         e1 \<leftarrow> h l1;
         let l2 = l_next e1;
         h \<leftarrow> set_next h l1 NULL;
         (h, s1) \<leftarrow> g_list_sort_real h list compare;
         (h, s2) \<leftarrow> g_list_sort_real h l2 compare;
         g_list_sort_merge h s1 s2 compare } })"

definition g_list_sort :: "lheap \<Rightarrow> gpointer \<Rightarrow> (gpointer \<Rightarrow> gpointer \<Rightarrow> int) \<Rightarrow> (lheap \<times> gpointer) option" where
  "g_list_sort h list compare = g_list_sort_real h list compare"

definition g_list_sort_with_data ::
    "lheap \<Rightarrow> gpointer \<Rightarrow> (gpointer \<Rightarrow> gpointer \<Rightarrow> 'u \<Rightarrow> int) \<Rightarrow> 'u \<Rightarrow> (lheap \<times> gpointer) option" where
  "g_list_sort_with_data h list compare user_data = g_list_sort_real h list (\<lambda>a b. compare a b user_data)"

text \<open>The comparison of the list's tests (\<open>tests/list.c\<close>): the pointers as 32-bit integers.\<close>

definition compare_ints :: "gpointer \<Rightarrow> gpointer \<Rightarrow> int" where
  "compare_ints p1 p2 =
     (let a = sint (ucast p1 :: u32); b = sint (ucast p2 :: u32)
      in if a > b then 1 else if a = b then 0 else -1)"

interpretation ints: key_order compare_ints
  by unfold_locales (auto simp: compare_ints_def Let_def split: if_splits)

end
