(* ===== verification/Glib_List_Laws.thy ===== *)
theory Glib_List_Laws
  imports Glib_List
begin

text \<open>
  What a list in the heap is: \<open>lrep h pv nx xs\<close> says that the elements \<open>xs\<close>, addresses with data, are linked one after the
  other in \<open>h\<close>, the first one back to \<open>pv\<close> and the last one on to \<open>nx\<close>. Two stores join two such segments, and
  the operations that insert and remove elements are such joins.
\<close>

type_synonym elem = "gpointer \<times> gpointer"

definition lfirst :: "gpointer \<Rightarrow> elem list \<Rightarrow> gpointer" where
  "lfirst nx xs = (case xs of [] \<Rightarrow> nx | x # _ \<Rightarrow> fst x)"

definition llast :: "gpointer \<Rightarrow> elem list \<Rightarrow> gpointer" where
  "llast pv xs = (if xs = [] then pv else fst (last xs))"

lemma lfirst_simps [simp]: "lfirst nx [] = nx" "lfirst nx (x # xs) = fst x"
  by (simp_all add: lfirst_def)

lemma llast_simps [simp]: "llast pv [] = pv" "llast pv (x # xs) = llast (fst x) xs" "llast pv (xs @ [x]) = fst x"
  by (simp_all add: llast_def)

lemma lfirst_append [simp]: "lfirst nx (xs @ ys) = lfirst (lfirst nx ys) xs"
  by (cases xs) simp_all

lemma llast_append [simp]: "llast pv (xs @ ys) = llast (llast pv xs) ys"
  by (simp add: llast_def)

lemma lfirst_snoc: "lfirst nx (xs @ [x]) = lfirst (fst x) xs"
  by simp

lemma lfirst_mem: "xs \<noteq> [] \<Longrightarrow> lfirst nx xs \<in> fst ` set xs"
  by (cases xs) simp_all

lemma llast_mem: "xs \<noteq> [] \<Longrightarrow> llast pv xs \<in> fst ` set xs"
  by (simp add: llast_def)

lemma lfirst_any: "xs \<noteq> [] \<Longrightarrow> lfirst nx xs = lfirst nx' xs"
  by (cases xs) simp_all

lemma llast_any: "xs \<noteq> [] \<Longrightarrow> llast pv xs = llast pv' xs"
  by (simp add: llast_def)

fun lrep :: "lheap \<Rightarrow> gpointer \<Rightarrow> gpointer \<Rightarrow> elem list \<Rightarrow> bool" where
  "lrep h pv nx [] \<longleftrightarrow> True"
| "lrep h pv nx ((a, d) # xs) \<longleftrightarrow> h a = Some \<lparr>l_data = d, l_next = lfirst nx xs, l_prev = pv\<rparr> \<and> lrep h a nx xs"

definition addrs_of :: "elem list \<Rightarrow> gpointer set" where
  "addrs_of xs = fst ` set xs"

lemma addrs_of_simps [simp]:
  "addrs_of [] = {}" "addrs_of (x # xs) = insert (fst x) (addrs_of xs)" "addrs_of (xs @ ys) = addrs_of xs \<union> addrs_of ys"
  "addrs_of (rev xs) = addrs_of xs"
  by (auto simp: addrs_of_def)

definition uniq :: "elem list \<Rightarrow> bool" where
  "uniq xs \<longleftrightarrow> distinct (map fst xs) \<and> NULL \<notin> addrs_of xs"

lemma uniq_simps [simp]:
  "uniq []" "uniq (x # xs) \<longleftrightarrow> fst x \<noteq> NULL \<and> fst x \<notin> addrs_of xs \<and> uniq xs"
  "uniq (xs @ ys) \<longleftrightarrow> uniq xs \<and> uniq ys \<and> addrs_of xs \<inter> addrs_of ys = {}"
  by (auto simp: uniq_def addrs_of_def)

lemma uniq_rev [simp]: "uniq (rev xs) \<longleftrightarrow> uniq xs"
  by (simp add: uniq_def distinct_rev flip: rev_map)

lemma lfirst_NULL: "uniq xs \<Longrightarrow> lfirst NULL xs = NULL \<longleftrightarrow> xs = []"
  by (cases xs) auto

lemma llast_NULL: "uniq xs \<Longrightarrow> llast NULL xs = NULL \<longleftrightarrow> xs = []"
  using llast_mem[of xs NULL] by (cases "xs = []") (simp_all add: uniq_def addrs_of_def, force)

lemma lrep_append: "lrep h pv nx (xs @ ys) \<longleftrightarrow> lrep h pv (lfirst nx ys) xs \<and> lrep h (llast pv xs) nx ys"
proof (induction xs arbitrary: pv)
  case (Cons x xs)
  then show ?case by (cases x) (simp add: Cons.IH)
qed simp

lemma lrep_cong: "(\<And>x. x \<in> addrs_of xs \<Longrightarrow> h x = h' x) \<Longrightarrow> lrep h pv nx xs \<longleftrightarrow> lrep h' pv nx xs"
  by (induction h pv nx xs rule: lrep.induct) auto

lemma lrep_upd: "a \<notin> addrs_of xs \<Longrightarrow> lrep (h(a := n)) pv nx xs \<longleftrightarrow> lrep h pv nx xs"
  by (rule lrep_cong) auto

lemma lrep_dom: "lrep h pv nx xs \<Longrightarrow> a \<in> addrs_of xs \<Longrightarrow> h a \<noteq> None"
  by (induction h pv nx xs rule: lrep.induct) auto

text \<open>Outside a set of addresses two heaps are the same.\<close>

definition same_but :: "gpointer set \<Rightarrow> lheap \<Rightarrow> lheap \<Rightarrow> bool" where
  "same_but A h h' \<longleftrightarrow> (\<forall>x. x \<notin> A \<longrightarrow> h' x = h x)"

lemma same_but_refl [simp]: "same_but A h h"
  by (simp add: same_but_def)

lemma same_but_upd [simp]: "a \<in> A \<Longrightarrow> same_but A h (h'(a := n)) \<longleftrightarrow> same_but A h h'"
  by (auto simp: same_but_def)

lemma same_but_trans: "same_but A h h' \<Longrightarrow> same_but B h' h'' \<Longrightarrow> A \<subseteq> C \<Longrightarrow> B \<subseteq> C \<Longrightarrow> same_but C h h''"
  unfolding same_but_def by (metis subsetD)

lemma same_but_mono: "same_but A h h' \<Longrightarrow> A \<subseteq> C \<Longrightarrow> same_but C h h'"
  unfolding same_but_def by blast

lemma lrep_same: "same_but A h h' \<Longrightarrow> A \<inter> addrs_of xs = {} \<Longrightarrow> lrep h' pv nx xs \<longleftrightarrow> lrep h pv nx xs"
  by (rule lrep_cong) (auto simp: same_but_def)

text \<open>A whole list, with the pointer to it.\<close>

definition glist :: "lheap \<Rightarrow> gpointer \<Rightarrow> elem list \<Rightarrow> bool" where
  "glist h p xs \<longleftrightarrow> p = lfirst NULL xs \<and> lrep h NULL NULL xs \<and> uniq xs"

lemma glist_Nil [simp]: "glist h p [] \<longleftrightarrow> p = NULL"
  by (simp add: glist_def)

lemma glist_NULL: "glist h p xs \<Longrightarrow> p = NULL \<longleftrightarrow> xs = []"
  by (simp add: glist_def lfirst_NULL)

section \<open>Links\<close>

text \<open>\<open>p\<close> is linked on to \<open>q\<close> and \<open>q\<close> back to \<open>p\<close>; of \<open>NULL\<close> there is nothing to set.\<close>

definition link :: "lheap \<Rightarrow> gpointer \<Rightarrow> gpointer \<Rightarrow> lheap" where
  "link h p q = (\<lambda>x. case h x of None \<Rightarrow> None | Some n \<Rightarrow>
     Some \<lparr>l_data = l_data n, l_next = (if x = p \<and> p \<noteq> NULL then q else l_next n),
           l_prev = (if x = q \<and> q \<noteq> NULL then p else l_prev n)\<rparr>)"

lemma link_other [simp]: "x \<noteq> p \<Longrightarrow> x \<noteq> q \<Longrightarrow> link h p q x = h x"
  by (simp add: link_def split: option.split)

lemma link_NULL [simp]: "link h NULL NULL = h"
  by (simp add: link_def fun_eq_iff split: option.split)

lemma link_None [simp]: "link h p q x = None \<longleftrightarrow> h x = None"
  by (simp add: link_def split: option.split)

lemma link_first: "h p = Some n \<Longrightarrow> p \<noteq> NULL \<Longrightarrow> p \<noteq> q \<Longrightarrow> link h p q p = Some (n\<lparr>l_next := q\<rparr>)"
  by (simp add: link_def)

lemma link_second: "h q = Some n \<Longrightarrow> q \<noteq> NULL \<Longrightarrow> p \<noteq> q \<Longrightarrow> link h p q q = Some (n\<lparr>l_prev := p\<rparr>)"
  by (simp add: link_def)

lemma same_but_link: "p \<in> A \<or> p = NULL \<Longrightarrow> q \<in> A \<or> q = NULL \<Longrightarrow> same_but A h (link h p q)"
  unfolding same_but_def by (auto simp: link_def split: option.split)

lemma lrep_next:
  assumes "lrep h pv nx us" and "uniq us"
    and "\<And>x. x \<in> addrs_of us \<Longrightarrow> h' x = (if x = llast pv us then map_option (l_next_update (\<lambda>_. q)) (h x) else h x)"
  shows "lrep h' pv q us"
proof (cases us rule: rev_cases)
  case (snoc ys x)
  obtain a d where x: "x = (a, d)" by (cases x)
  have r: "lrep h pv a ys" "h a = Some \<lparr>l_data = d, l_next = nx, l_prev = llast pv ys\<rparr>"
    using assms(1) snoc x by (simp_all add: lrep_append)
  have "lrep h' pv a ys \<longleftrightarrow> lrep h pv a ys"
    by (rule lrep_cong) (use assms(2,3) snoc x in \<open>auto simp: split: if_splits\<close>)
  then show ?thesis using r assms(3)[of a] snoc x by (simp add: lrep_append)
qed simp

lemma lrep_prev:
  assumes "lrep h pv nx us" and "uniq us"
    and "\<And>x. x \<in> addrs_of us \<Longrightarrow> h' x = (if x = lfirst nx us then map_option (l_prev_update (\<lambda>_. q)) (h x) else h x)"
  shows "lrep h' q nx us"
proof (cases us)
  case (Cons x ys)
  obtain a d where x: "x = (a, d)" by (cases x)
  have r: "lrep h a nx ys" "h a = Some \<lparr>l_data = d, l_next = lfirst nx ys, l_prev = pv\<rparr>"
    using assms(1) Cons x by simp_all
  have "lrep h' a nx ys \<longleftrightarrow> lrep h a nx ys"
    by (rule lrep_cong) (use assms(2,3) Cons x in \<open>auto simp: split: if_splits\<close>)
  then show ?thesis using r assms(3)[of a] Cons x by simp
qed simp

lemma NULL_uniq: "uniq xs \<Longrightarrow> NULL \<notin> addrs_of xs"
  by (simp add: uniq_def)

lemma link_next_rep:
  assumes "lrep h pv nx us" and "uniq us" and "q \<notin> addrs_of us"
  shows "lrep (link h (llast pv us) q) pv q us"
  using assms(1,2)
proof (rule lrep_next)
  fix x assume "x \<in> addrs_of us"
  then show "link h (llast pv us) q x = (if x = llast pv us then map_option (l_next_update (\<lambda>_. q)) (h x) else h x)"
    using assms(3) NULL_uniq[OF assms(2)] by (auto simp: link_def split: option.split)
qed

lemma link_prev_rep:
  assumes "lrep h pv nx vs" and "uniq vs" and "p \<notin> addrs_of vs"
  shows "lrep (link h p (lfirst nx vs)) p nx vs"
  using assms(1,2)
proof (rule lrep_prev)
  fix x assume "x \<in> addrs_of vs"
  then show "link h p (lfirst nx vs) x = (if x = lfirst nx vs then map_option (l_prev_update (\<lambda>_. p)) (h x) else h x)"
    using assms(3) NULL_uniq[OF assms(2)] by (auto simp: link_def split: option.split)
qed

text \<open>The single stores, at the ends of a segment.\<close>

lemma set_next_rep:
  assumes "lrep h pv nx us" and "uniq us" and "us \<noteq> []"
  obtains h' where "set_next h (llast pv us) q = Some h'" "lrep h' pv q us" "same_but {llast pv us} h h'"
proof -
  have "h (llast pv us) \<noteq> None" using lrep_dom[OF assms(1)] llast_mem[OF assms(3)] by (simp add: addrs_of_def)
  then obtain n where n: "h (llast pv us) = Some n" by blast
  define h' where "h' = h(llast pv us \<mapsto> n\<lparr>l_next := q\<rparr>)"
  have "lrep h' pv q us" by (rule lrep_next[OF assms(1,2)]) (simp add: h'_def n)
  then show thesis using that[of h'] n by (simp add: set_next_def set_elem_def h'_def)
qed

lemma set_prev_rep:
  assumes "lrep h pv nx us" and "uniq us" and "us \<noteq> []"
  obtains h' where "set_prev h (lfirst nx us) q = Some h'" "lrep h' q nx us" "same_but {lfirst nx us} h h'"
proof -
  have "h (lfirst nx us) \<noteq> None" using lrep_dom[OF assms(1)] lfirst_mem[OF assms(3)] by (simp add: addrs_of_def)
  then obtain n where n: "h (lfirst nx us) = Some n" by blast
  define h' where "h' = h(lfirst nx us \<mapsto> n\<lparr>l_prev := q\<rparr>)"
  have "lrep h' q nx us" by (rule lrep_prev[OF assms(1,2)]) (simp add: h'_def n)
  then show thesis using that[of h'] n by (simp add: set_prev_def set_elem_def h'_def)
qed

text \<open>Two segments are joined by a link.\<close>

lemma llast_notin: "uniq (us @ vs) \<Longrightarrow> pv \<notin> addrs_of vs \<Longrightarrow> llast pv us \<notin> addrs_of vs"
  using llast_mem[of us pv] by (cases "us = []") (auto simp: addrs_of_def)

lemma lfirst_notin: "uniq (us @ vs) \<Longrightarrow> nx \<notin> addrs_of us \<Longrightarrow> lfirst nx vs \<notin> addrs_of us"
  using lfirst_mem[of vs nx] by (cases "vs = []") (auto simp: addrs_of_def)

lemma link_rep:
  assumes "lrep h pv nx us" and "lrep h pv' nx' vs" and u: "uniq (us @ vs)" and "pv \<notin> addrs_of vs" "nx' \<notin> addrs_of us"
  shows "lrep (link h (llast pv us) (lfirst nx' vs)) pv nx' (us @ vs)"
  unfolding lrep_append
  using link_next_rep[OF assms(1) _ lfirst_notin[OF u assms(5)]] link_prev_rep[OF assms(2) _ llast_notin[OF u assms(4)]] u
  by simp

text \<open>The stores that make a link, in either order, or only one of them where the other would change nothing.\<close>

definition valid :: "lheap \<Rightarrow> gpointer \<Rightarrow> bool" where
  "valid h p \<longleftrightarrow> p = NULL \<or> h p \<noteq> None"

lemma valid_link [simp]: "valid (link h p q) x \<longleftrightarrow> valid h x"
  by (simp add: valid_def)

lemma valid_last: "lrep h pv nx us \<Longrightarrow> valid h pv \<Longrightarrow> valid h (llast pv us)"
  using llast_mem[of us pv] lrep_dom[of h pv nx us] by (cases "us = []") (auto simp: valid_def addrs_of_def)

lemma valid_first: "lrep h pv nx us \<Longrightarrow> valid h nx \<Longrightarrow> valid h (lfirst nx us)"
  using lfirst_mem[of us nx] lrep_dom[of h pv nx us] by (cases "us = []") (auto simp: valid_def addrs_of_def)

lemma valid_NULL [simp]: "valid h NULL"
  by (simp add: valid_def)

lemma set_both:
  assumes "valid h p" and "valid h q" and "p \<noteq> NULL" and "q \<noteq> NULL"
  obtains h' where "set_next h p q = Some h'" "set_prev h' q p = Some (link h p q)"
proof -
  obtain n where n: "h p = Some n" using assms by (auto simp: valid_def)
  then have "set_prev (h(p \<mapsto> n\<lparr>l_next := q\<rparr>)) q p = Some (link h p q)"
    using assms by (auto simp: valid_def set_prev_def set_elem_def link_def fun_eq_iff split: option.split)
  then show thesis using that n by (simp add: set_next_def set_elem_def)
qed

lemma set_both':
  assumes "valid h p" and "valid h q" and "p \<noteq> NULL" and "q \<noteq> NULL"
  obtains h' where "set_prev h q p = Some h'" "set_next h' p q = Some (link h p q)"
proof -
  obtain n where n: "h q = Some n" using assms by (auto simp: valid_def)
  then have "set_next (h(q \<mapsto> n\<lparr>l_prev := p\<rparr>)) p q = Some (link h p q)"
    using assms by (auto simp: valid_def set_next_def set_elem_def link_def fun_eq_iff split: option.split)
  then show thesis using that n by (simp add: set_prev_def set_elem_def)
qed

lemma link_noop:
  assumes "p = NULL \<or> map_option l_next (h p) = Some q" and "q = NULL \<or> map_option l_prev (h q) = Some p"
  shows "link h p q = h"
  using assms by (auto simp: link_def fun_eq_iff split: option.split)

lemma set_next_link:
  assumes "h p = Some n" and "p \<noteq> NULL" and "q = NULL \<or> map_option l_prev (h q) = Some p"
  shows "set_next h p q = Some (link h p q)"
  using assms by (auto simp: set_next_def set_elem_def link_def fun_eq_iff split: option.split)

lemma set_prev_link:
  assumes "h q = Some n" and "q \<noteq> NULL" and "p = NULL \<or> map_option l_next (h p) = Some q"
  shows "set_prev h q p = Some (link h p q)"
  using assms by (auto simp: set_prev_def set_elem_def link_def fun_eq_iff split: option.split)

section \<open>Reading\<close>

lemma last_loop_rep: "lrep h pv NULL xs \<Longrightarrow> uniq xs \<Longrightarrow> xs \<noteq> [] \<Longrightarrow> last_loop h (lfirst NULL xs) = Some (llast NULL xs)"
proof (induction xs arbitrary: pv)
  case (Cons x xs)
  obtain a d where x: "x = (a, d)" by (cases x)
  show ?case
  proof (cases "xs = []")
    case True
    with Cons.prems x show ?thesis by (subst last_loop.simps) simp
  next
    case False
    moreover have "last_loop h (lfirst NULL xs) = Some (llast NULL xs)" using Cons.IH[of a] Cons.prems False x by simp
    moreover have "llast a xs = llast NULL xs" using False by (rule llast_any)
    ultimately show ?thesis using Cons.prems x lfirst_NULL[of xs] by (subst last_loop.simps) simp
  qed
qed simp

lemma g_list_last_rep: "glist h p xs \<Longrightarrow> g_list_last h p = Some (llast NULL xs)"
  by (cases "xs = []") (auto simp: glist_def g_list_last_def last_loop_rep lfirst_NULL)

lemma first_loop_rep: "lrep h NULL nx xs \<Longrightarrow> uniq xs \<Longrightarrow> xs \<noteq> [] \<Longrightarrow> first_loop h (llast NULL xs) = Some (lfirst NULL xs)"
proof (induction xs arbitrary: nx rule: rev_induct)
  case (snoc x xs)
  obtain a d where x: "x = (a, d)" by (cases x)
  have h: "lrep h NULL a xs" "h a = Some \<lparr>l_data = d, l_next = nx, l_prev = llast NULL xs\<rparr>"
    using snoc.prems(1) x by (simp_all add: lrep_append)
  show ?case
  proof (cases "xs = []")
    case True
    with h x show ?thesis by (subst first_loop.simps) simp
  next
    case False
    moreover have "first_loop h (llast NULL xs) = Some (lfirst NULL xs)" using snoc False h by simp
    moreover have "lfirst a xs = lfirst NULL xs" using False by (rule lfirst_any)
    ultimately show ?thesis using h x snoc.prems(2) llast_NULL[of xs] by (subst first_loop.simps) simp
  qed
qed simp

lemma nth_rep:
  "lrep h pv NULL xs \<Longrightarrow> uniq xs \<Longrightarrow>
   g_list_nth h (lfirst NULL xs) n = Some (lfirst NULL (drop (unat n) xs))"
proof (induction xs arbitrary: pv n)
  case (Cons x xs)
  obtain a d where x: "x = (a, d)" by (cases x)
  show ?case
  proof (cases "n = 0")
    case False
    then have n: "0 < n" "unat n = Suc (unat (n - 1))" by (simp_all add: word_gt_0 unat_minus_one unat_gt_0)
    have "g_list_nth h (lfirst NULL xs) (n - 1) = Some (lfirst NULL (drop (unat (n - 1)) xs))"
      using Cons.IH[of a] Cons.prems x by simp
    then show ?thesis using Cons.prems x n by (subst g_list_nth.simps) simp
  qed (use Cons.prems x in \<open>subst g_list_nth.simps, simp\<close>)
qed (subst g_list_nth.simps, simp)

lemma nth_prev_rep:
  "lrep h NULL nx xs \<Longrightarrow> uniq xs \<Longrightarrow>
   g_list_nth_prev h (llast NULL xs) n = Some (llast NULL (take (length xs - unat n) xs))"
proof (induction xs arbitrary: nx n rule: rev_induct)
  case (snoc x xs)
  obtain a d where x: "x = (a, d)" by (cases x)
  show ?case
  proof (cases "n = 0")
    case False
    then have n: "0 < n" "unat n = Suc (unat (n - 1))" by (simp_all add: word_gt_0 unat_minus_one unat_gt_0)
    have "g_list_nth_prev h (llast NULL xs) (n - 1) = Some (llast NULL (take (length xs - unat (n - 1)) xs))"
      using snoc.IH[of a] snoc.prems x by (simp add: lrep_append)
    then show ?thesis using snoc.prems x n by (subst g_list_nth_prev.simps) (simp add: lrep_append)
  qed (use snoc.prems x in \<open>subst g_list_nth_prev.simps, simp\<close>)
qed (subst g_list_nth_prev.simps, simp)

lemma find_rep:
  "lrep h pv NULL xs \<Longrightarrow> uniq xs \<Longrightarrow> g_list_find h (lfirst NULL xs) data = Some (lfirst NULL (dropWhile (\<lambda>x. snd x \<noteq> data) xs))"
proof (induction xs arbitrary: pv)
  case (Cons x xs)
  obtain a d where x: "x = (a, d)" by (cases x)
  then show ?case using Cons by (subst g_list_find.simps) auto
qed (subst g_list_find.simps, simp)

lemma find_custom_rep:
  "lrep h pv NULL xs \<Longrightarrow> uniq xs \<Longrightarrow>
   g_list_find_custom h (lfirst NULL xs) data func = Some (lfirst NULL (dropWhile (\<lambda>x. func (snd x) data \<noteq> 0) xs))"
proof (induction xs arbitrary: pv)
  case (Cons x xs)
  obtain a d where x: "x = (a, d)" by (cases x)
  then show ?case using Cons by (subst g_list_find_custom.simps) auto
qed (subst g_list_find_custom.simps, simp)

text \<open>The number of the first element that has a property, or -1.\<close>

fun index_of :: "('a \<Rightarrow> bool) \<Rightarrow> 'a list \<Rightarrow> int \<Rightarrow> int" where
  "index_of P [] i = -1"
| "index_of P (x # xs) i = (if P x then i else index_of P xs (i + 1))"

lemma position_loop_rep:
  "lrep h pv NULL xs \<Longrightarrow> uniq xs \<Longrightarrow> i + int (length xs) \<le> 2147483647 \<Longrightarrow>
   position_loop h (lfirst NULL xs) llink i = Some (index_of (\<lambda>x. fst x = llink) xs i)"
proof (induction xs arbitrary: pv i)
  case (Cons x xs)
  obtain a d where x: "x = (a, d)" by (cases x)
  then show ?case using Cons by (subst position_loop.simps) (auto simp: next_gint_def)
qed (subst position_loop.simps, simp)

lemma index_loop_rep:
  "lrep h pv NULL xs \<Longrightarrow> uniq xs \<Longrightarrow> i + int (length xs) \<le> 2147483647 \<Longrightarrow>
   index_loop h (lfirst NULL xs) data i = Some (index_of (\<lambda>x. snd x = data) xs i)"
proof (induction xs arbitrary: pv i)
  case (Cons x xs)
  obtain a d where x: "x = (a, d)" by (cases x)
  then show ?case using Cons by (subst index_loop.simps) (auto simp: next_gint_def)
qed (subst index_loop.simps, simp)

lemma length_loop_rep:
  "lrep h pv NULL xs \<Longrightarrow> uniq xs \<Longrightarrow> length_loop h (lfirst NULL xs) n = Some (n + of_nat (length xs))"
proof (induction xs arbitrary: pv n)
  case (Cons x xs)
  obtain a d where x: "x = (a, d)" by (cases x)
  then show ?case using Cons by (subst length_loop.simps) (auto simp: algebra_simps)
qed (subst length_loop.simps, simp)

lemma foreach_list_rep:
  "lrep h pv NULL xs \<Longrightarrow> uniq xs \<Longrightarrow> g_list_foreach h (lfirst NULL xs) func s = Some (fold func (map snd xs) s)"
proof (induction xs arbitrary: pv s)
  case (Cons x xs)
  obtain a d where x: "x = (a, d)" by (cases x)
  then show ?case using Cons by (subst g_list_foreach.simps) auto
qed (subst g_list_foreach.simps, simp)

lemma free_rep:
  "lrep h pv NULL xs \<Longrightarrow> uniq xs \<Longrightarrow> g_list_free h (lfirst NULL xs) = Some (\<lambda>x. if x \<in> addrs_of xs then None else h x)"
proof (induction xs arbitrary: h pv)
  case (Cons x xs)
  obtain a d where x: "x = (a, d)" by (cases x)
  define h1 where "h1 = h(a := None)"
  have "lrep h1 a NULL xs" using Cons.prems x unfolding h1_def by (subst lrep_upd) simp_all
  then have "g_list_free h1 (lfirst NULL xs) = Some (\<lambda>x. if x \<in> addrs_of xs then None else h1 x)"
    using Cons.IH[of h1 a] Cons.prems(2) by simp
  moreover have "(\<lambda>x. if x \<in> addrs_of xs then None else h1 x) = (\<lambda>y. if y \<in> addrs_of (x # xs) then None else h y)"
    using x by (auto simp: fun_eq_iff h1_def)
  moreover have "g_list_free h (lfirst NULL (x # xs)) = g_list_free h1 (lfirst NULL xs)"
    using Cons.prems x unfolding h1_def by (subst g_list_free.simps) simp
  ultimately show ?case by simp
qed (subst g_list_free.simps, simp)

lemma nth_data_rep:
  assumes "lrep h pv NULL xs" and "uniq xs"
  shows "g_list_nth_data h (lfirst NULL xs) n = Some (if unat n < length xs then snd (xs ! unat n) else NULL)"
proof (cases "unat n < length xs")
  case True
  let ?us = "take (unat n) xs" and ?vs = "drop (Suc (unat n)) xs"
  obtain a d where ad: "xs ! unat n = (a, d)" by (cases "xs ! unat n")
  have e: "drop (unat n) xs = (a, d) # ?vs" using True ad by (metis Cons_nth_drop_Suc)
  have "lrep h pv NULL (?us @ (a, d) # ?vs)" "uniq (?us @ (a, d) # ?vs)" using assms by (simp_all flip: e)
  then have "h a = Some \<lparr>l_data = d, l_next = lfirst NULL ?vs, l_prev = llast pv ?us\<rparr>" "a \<noteq> NULL"
    by (simp_all add: lrep_append)
  then show ?thesis using nth_rep[OF assms, of n] e ad True by (simp add: g_list_nth_data_def)
next
  case False
  then show ?thesis using nth_rep[OF assms, of n] by (simp add: g_list_nth_data_def)
qed

end
