(* ===== verification/Glib_List_Update.thy ===== *)
theory Glib_List_Update
  imports Glib_List_Laws
begin

text \<open>
  Inserting into a list and removing from it. Each operation makes the links of the list operation that
  it stands for, and touches no element of another list.
\<close>

definition fresh :: "gpointer \<Rightarrow> elem list \<Rightarrow> bool" where
  "fresh a xs \<longleftrightarrow> a \<noteq> NULL \<and> a \<notin> addrs_of xs"

text \<open>An element of the list, and its neighbours.\<close>

lemma elem_at: "lrep h pv nx (us @ (a, d) # vs) \<Longrightarrow> h a = Some \<lparr>l_data = d, l_next = lfirst nx vs, l_prev = llast pv us\<rparr>"
  by (simp add: lrep_append)

text \<open>A new element between two segments; the links are made in either order.\<close>

lemma new_between:
  assumes "lrep h NULL NULL (us @ vs)" and "uniq (us @ vs)" and "fresh a (us @ vs)" and "l_data n = d"
  shows "lrep (link (link (h(a \<mapsto> n)) (llast NULL us) a) a (lfirst NULL vs)) NULL NULL (us @ (a, d) # vs)"
    and "lrep (link (link (h(a \<mapsto> n)) a (lfirst NULL vs)) (llast NULL us) a) NULL NULL (us @ (a, d) # vs)"
proof -
  define h1 where "h1 = h(a \<mapsto> n)"
  have f: "a \<noteq> NULL" "a \<notin> addrs_of us" "a \<notin> addrs_of vs" using assms(3) by (simp_all add: fresh_def)
  have u: "uniq us" "uniq vs" "addrs_of us \<inter> addrs_of vs = {}" using assms(2) by simp_all
  have N: "NULL \<notin> addrs_of us" "NULL \<notin> addrs_of vs" using u by (simp_all add: NULL_uniq)
  have us: "lrep h1 NULL (lfirst NULL vs) us" and vs: "lrep h1 (llast NULL us) NULL vs"
    using assms(1) f by (simp_all add: h1_def lrep_append lrep_upd)
  have new: "lrep h1 (l_prev n) (l_next n) [(a, d)]" using assms(4) by (cases n) (simp add: h1_def)
  have lp: "llast NULL us \<notin> addrs_of vs" and lq: "lfirst NULL vs \<notin> addrs_of us"
    using assms(2) N by (simp_all add: llast_notin lfirst_notin)
  have lq': "lfirst NULL vs \<noteq> a" and lp': "llast NULL us \<noteq> a"
    using f lfirst_mem[of vs NULL] llast_mem[of us NULL] by (cases "vs = []"; cases "us = []"; auto simp: addrs_of_def)+
  define h2 where "h2 = link h1 (llast NULL us) a"
  have l1: "lrep h2 NULL (l_next n) (us @ [(a, d)])"
  proof (cases "l_next n \<in> addrs_of us")
    case False
    then show ?thesis using link_rep[OF us new] u f by (simp add: h2_def)
  next
    case True
    have "lrep h2 NULL a us" unfolding h2_def by (rule link_next_rep[OF us u(1) f(2)])
    moreover have "lrep h2 (llast NULL us) (l_next n) [(a, d)]"
      unfolding h2_def using link_prev_rep[OF new, of "llast NULL us"] f lp' by simp
    ultimately show ?thesis by (simp add: lrep_append)
  qed
  have v2: "lrep h2 (llast NULL us) NULL vs"
    using vs f lp by (subst lrep_same[of "{llast NULL us, a}" h1]) (auto simp: h2_def intro: same_but_link)
  show "lrep (link (link (h(a \<mapsto> n)) (llast NULL us) a) a (lfirst NULL vs)) NULL NULL (us @ (a, d) # vs)"
    using link_rep[OF l1 v2] u f N by (simp add: h1_def h2_def)
  define h3 where "h3 = link h1 a (lfirst NULL vs)"
  have l3: "lrep h3 (l_prev n) NULL ([(a, d)] @ vs)"
  proof -
    have "lrep h3 (l_prev n) (lfirst NULL vs) [(a, d)]"
      unfolding h3_def using link_next_rep[OF new, of "lfirst NULL vs"] f lq' by simp
    moreover have "lrep h3 a NULL vs" unfolding h3_def by (rule link_prev_rep[OF vs u(2) f(3)])
    ultimately show ?thesis by (simp add: lrep_append)
  qed
  have u3: "lrep h3 NULL (lfirst NULL vs) us"
    using us f lq by (subst lrep_same[of "{a, lfirst NULL vs}" h1]) (auto simp: h3_def intro: same_but_link)
  show "lrep (link (link (h(a \<mapsto> n)) a (lfirst NULL vs)) (llast NULL us) a) NULL NULL (us @ (a, d) # vs)"
    using link_rep[OF u3 l3] u f N by (simp add: h1_def h3_def)
qed

text \<open>An element goes, and the segments around it are linked.\<close>

lemma old_gone:
  assumes "lrep h NULL NULL (us @ (a, d) # vs)" and "uniq (us @ (a, d) # vs)"
  shows "lrep (link h (llast NULL us) (lfirst NULL vs)) NULL NULL (us @ vs)"
proof (rule link_rep)
  show "lrep h NULL a us" "lrep h a NULL vs" using assms(1) by (simp_all add: lrep_append)
qed (use assms(2) in \<open>auto simp: NULL_uniq\<close>)

text \<open>The result of an operation: the list that it leaves, and the elements that it may touch.\<close>

definition yields :: "lheap \<Rightarrow> (lheap \<times> gpointer) option \<Rightarrow> gpointer set \<Rightarrow> elem list \<Rightarrow> bool" where
  "yields h r A ys \<longleftrightarrow> (\<exists>h' p'. r = Some (h', p') \<and> glist h' p' ys \<and> same_but A h h')"

lemma yieldsI:
  assumes "r = Some (h', p)" and "lrep h' NULL NULL ys" and "uniq ys" and "p = lfirst NULL ys" and "same_but A h h'"
  shows "yields h r A ys"
  using assms by (auto simp: yields_def glist_def)

lemma yieldsE:
  assumes "yields h r A ys"
  obtains h' p where "r = Some (h', p)" "glist h' p ys" "same_but A h h'"
  using assms by (auto simp: yields_def)

lemma uniq_put: "uniq (us @ vs) \<Longrightarrow> fresh a (us @ vs) \<Longrightarrow> uniq (us @ (a, d) # vs)"
  by (auto simp: fresh_def)

text \<open>The two neighbours of a place.\<close>

lemma place_dom:
  assumes "lrep h NULL NULL (us @ vs)" and "fresh a (us @ vs)"
  shows "valid h (llast NULL us)" "valid h (lfirst NULL vs)" "llast NULL us \<noteq> a" "lfirst NULL vs \<noteq> a"
    "llast NULL us \<in> insert NULL (addrs_of us)" "lfirst NULL vs \<in> insert NULL (addrs_of vs)"
proof -
  show 1: "llast NULL us \<in> insert NULL (addrs_of us)" "lfirst NULL vs \<in> insert NULL (addrs_of vs)"
    using llast_mem[of us NULL] lfirst_mem[of vs NULL] by (cases "us = []"; cases "vs = []"; simp add: addrs_of_def)+
  show "valid h (llast NULL us)" "valid h (lfirst NULL vs)"
    using assms(1) valid_last[of h NULL "lfirst NULL vs" us] valid_first[of h "llast NULL us" NULL vs]
    by (simp_all add: lrep_append)
  show "llast NULL us \<noteq> a" "lfirst NULL vs \<noteq> a" using 1 assms(2) by (auto simp: fresh_def)
qed

lemma frame_put:
  assumes "p \<in> insert NULL (addrs_of us)" and "q \<in> insert NULL (addrs_of vs)"
  shows "same_but (insert a (addrs_of (us @ vs))) h (link (link (h(a \<mapsto> n)) p a) a q)"
    "same_but (insert a (addrs_of (us @ vs))) h (link (link (h(a \<mapsto> n)) a q) p a)"
  using assms unfolding same_but_def by (auto simp: link_def split: option.split)

section \<open>Inserting\<close>

text \<open>The new element in the heap, and the places around it.\<close>

lemma new_facts:
  assumes rep: "lrep h NULL NULL (us @ vs)" and uniq: "uniq (us @ vs)" and fresh: "fresh a (us @ vs)"
    and p: "p = llast NULL us" and q: "q = lfirst NULL vs" and h1: "h1 = h(a \<mapsto> n)"
  shows "a \<noteq> NULL" "valid h1 p" "valid h1 q" "valid h1 a" "p \<noteq> a" "q \<noteq> a"
    "p = NULL \<longleftrightarrow> us = []" "q = NULL \<longleftrightarrow> vs = []" "p = q \<Longrightarrow> p = NULL"
    "p \<noteq> NULL \<Longrightarrow> \<exists>e. h1 p = Some e \<and> l_next e = q"
    "q \<noteq> NULL \<Longrightarrow> \<exists>e. h1 q = Some e \<and> h q = Some e \<and> l_prev e = p"
proof -
  note pl = place_dom[OF rep fresh]
  show pa: "p \<noteq> a" and qa: "q \<noteq> a" unfolding p q using pl(3,4) .
  show a: "a \<noteq> NULL" using fresh by (simp add: fresh_def)
  show "valid h1 p" "valid h1 q" "valid h1 a" using pl(1,2) unfolding p q h1 by (simp_all add: valid_def)
  show us: "p = NULL \<longleftrightarrow> us = []" and vs: "q = NULL \<longleftrightarrow> vs = []"
    using uniq llast_NULL[of us] lfirst_NULL[of vs] unfolding p q by simp_all
  have "addrs_of us \<inter> addrs_of vs = {}" using uniq by simp
  then show "p = q \<Longrightarrow> p = NULL" using pl(5,6)[folded p q] by (metis disjoint_iff insertE)
  show "\<exists>e. h1 p = Some e \<and> l_next e = q" if p0: "p \<noteq> NULL"
  proof -
    obtain us' b e where "us = us' @ [(b, e)]" using p0 us by (cases us rule: rev_cases) auto
    then have "h p = Some \<lparr>l_data = e, l_next = q, l_prev = llast NULL us'\<rparr>" using rep unfolding p q by (simp add: lrep_append)
    then show ?thesis using pa unfolding h1 by simp
  qed
  show "\<exists>e. h1 q = Some e \<and> h q = Some e \<and> l_prev e = p" if q0: "q \<noteq> NULL"
  proof -
    obtain b e vs' where "vs = (b, e) # vs'" using q0 vs by (cases vs) auto
    then have "h q = Some \<lparr>l_data = e, l_next = lfirst NULL vs', l_prev = p\<rparr>" using rep unfolding p q by (simp add: lrep_append)
    then show ?thesis using qa unfolding h1 by simp
  qed
qed

text \<open>What the insertions have to show: they make the two links, in one of the orders.\<close>

lemma yields_new:
  assumes rep: "lrep h NULL NULL (us @ vs)" and uniq: "uniq (us @ vs)" and fresh: "fresh a (us @ vs)" and n: "l_data n = d"
    and p: "p = llast NULL us" and q: "q = lfirst NULL vs"
    and r: "r = Some (link (link (h(a \<mapsto> n)) p a) a q, lfirst a us) \<or> r = Some (link (link (h(a \<mapsto> n)) a q) p a, lfirst a us)"
  shows "yields h r (insert a (addrs_of (us @ vs))) (us @ (a, d) # vs)"
proof -
  note pl = place_dom[OF rep fresh]
  note fr = frame_put[OF pl(5,6), of a h n]
  note nb = new_between[where n = n, OF rep uniq fresh n]
  have f: "lfirst a us = lfirst NULL (us @ (a, d) # vs)" by simp
  from r show ?thesis
  proof
    assume "r = Some (link (link (h(a \<mapsto> n)) p a) a q, lfirst a us)"
    then show ?thesis using nb(1) uniq_put[OF uniq fresh] f fr(1) unfolding p q by (rule yieldsI)
  next
    assume "r = Some (link (link (h(a \<mapsto> n)) a q) p a, lfirst a us)"
    then show ?thesis using nb(2) uniq_put[OF uniq fresh] f fr(2) unfolding p q by (rule yieldsI)
  qed
qed

section \<open>Inserting\<close>

lemma append_rep:
  assumes g: "glist h p xs" and f: "fresh a xs"
  shows "yields h (g_list_append h a p d) (insert a (addrs_of xs)) (xs @ [(a, d)])"
proof -
  define n where "n = \<lparr>l_data = d, l_next = NULL, l_prev = NULL\<rparr>"
  have r: "lrep h NULL NULL (xs @ [])" "uniq (xs @ [])" "fresh a (xs @ [])" and p: "p = lfirst NULL xs"
    using g f by (simp_all add: glist_def)
  define l where "l = llast NULL xs"
  define h1 where "h1 = h(a \<mapsto> n)"
  note nf = new_facts[OF r l_def refl h1_def]
  have no: "link (link h1 l a) a NULL = link h1 l a"
    by (rule link_noop) (use nf link_second[of h1 a n l] in \<open>simp_all add: n_def h1_def\<close>)
  have "g_list_append h a p d = Some (link h1 l a, lfirst a xs)"
  proof (cases "xs = []")
    case True
    then show ?thesis using p nf by (simp add: g_list_append_def link_noop l_def h1_def n_def)
  next
    case False
    obtain h' where "set_next h1 l a = Some h'" "set_prev h' a l = Some (link h1 l a)"
      by (rule set_both[of h1 l a]) (use nf False in auto)
    moreover have "g_list_last h1 p = Some l"
      unfolding l_def by (rule g_list_last_rep) (use g f in \<open>simp add: glist_def fresh_def lrep_upd h1_def\<close>)
    ultimately show ?thesis
      using False p glist_NULL[OF g] lfirst_any[OF False, of NULL a] by (simp add: g_list_append_def flip: n_def h1_def)
  qed
  then have "g_list_append h a p d = Some (link (link h1 l a) a NULL, lfirst a xs)" unfolding no .
  then show ?thesis unfolding h1_def using yields_new[OF r, of n d l NULL] by (simp add: n_def l_def)
qed

text \<open>\<open>g_list_prepend\<close> also works before an element that has a predecessor; the result is then a pointer into the list.\<close>

lemma prepend_rep:
  assumes rep: "lrep h NULL NULL (us @ vs)" and uniq: "uniq (us @ vs)" and fresh: "fresh a (us @ vs)" and e: "vs = [] \<Longrightarrow> us = []"
  obtains h' where "g_list_prepend h a (lfirst NULL vs) d = Some (h', a)"
    "yields h (Some (h', lfirst a us)) (insert a (addrs_of (us @ vs))) (us @ (a, d) # vs)"
proof -
  define q where "q = lfirst NULL vs"
  define p where "p = llast NULL us"
  define n where "n = \<lparr>l_data = d, l_next = q, l_prev = NULL\<rparr>"
  define h1 where "h1 = h(a \<mapsto> n)"
  note nf = new_facts[OF rep uniq fresh p_def q_def h1_def]
  have h1a: "h1 a = Some n" by (simp add: h1_def)
  have "g_list_prepend h a q d = Some (link (link h1 p a) a q, a)"
  proof (cases "q = NULL")
    case True
    then have "link (link h1 p a) a q = h1" using nf e h1a by (simp add: link_noop n_def)
    then show ?thesis using True by (simp add: g_list_prepend_def h1_def n_def)
  next
    case False
    obtain e where e: "h1 q = Some e" "l_prev e = p" using nf(11) False by blast
    have "link h1 p a a = Some (n\<lparr>l_prev := p\<rparr>)" using h1a nf by (simp add: link_second)
    moreover have "link h1 p a q = Some e" using e nf(5,6,9) False by (auto simp: link_def split: option.split)
    ultimately have 2: "set_prev (link h1 p a) q a = Some (link (link h1 p a) a q)"
      using False by (intro set_prev_link[of _ _ e]) (simp_all add: n_def)
    show ?thesis
    proof (cases "p = NULL")
      case True
      have "set_prev h1 a p = Some (link h1 p a)" using h1a nf True by (intro set_prev_link[of _ _ n]) simp_all
      then show ?thesis using 2 e True False by (simp add: g_list_prepend_def flip: n_def h1_def)
    next
      case p: False
      obtain h' where "set_prev h1 a p = Some h'" "set_next h' p a = Some (link h1 p a)"
        by (rule set_both'[of h1 p a]) (use nf p in auto)
      then show ?thesis using 2 e p False by (simp add: g_list_prepend_def flip: n_def h1_def)
    qed
  qed
  moreover have "yields h (Some (link (link h1 p a) a q, lfirst a us)) (insert a (addrs_of (us @ vs))) (us @ (a, d) # vs)"
    unfolding h1_def by (rule yields_new[OF rep uniq fresh _ p_def q_def, of n]) (simp_all add: n_def)
  ultimately show thesis using that by (simp add: q_def)
qed

lemma put_before_rep:
  assumes rep: "lrep h NULL NULL (us @ vs)" and uniq: "uniq (us @ vs)" and fresh: "fresh a (us @ vs)" and us: "us \<noteq> []" and vs: "vs \<noteq> []"
  obtains h' where "put_before h a d (lfirst NULL vs) = Some h'"
    "yields h (Some (h', lfirst NULL us)) (insert a (addrs_of (us @ vs))) (us @ (a, d) # vs)"
proof -
  define q where "q = lfirst NULL vs"
  define p where "p = llast NULL us"
  define n where "n = \<lparr>l_data = d, l_next = NULL, l_prev = p\<rparr>"
  define h1 where "h1 = h(a \<mapsto> n)"
  note nf = new_facts[OF rep uniq fresh p_def q_def h1_def]
  obtain e where e: "h q = Some e" "l_prev e = p" using nf(8,11) vs by blast
  have h1a: "h1 a = Some n" by (simp add: h1_def)
  obtain e' where "h1 p = Some e'" using nf(7,10) us by blast
  then have 1: "set_next h1 p a = Some (link h1 p a)"
    by (rule set_next_link) (use nf(7) us h1a in \<open>simp_all add: n_def\<close>)
  obtain h' where "set_next (link h1 p a) a q = Some h'" "set_prev h' q a = Some (link (link h1 p a) a q)"
    by (rule set_both[of "link h1 p a" a q]) (use nf vs in auto)
  then have "put_before h a d q = Some (link (link h1 p a) a q)"
    using e 1 by (simp add: put_before_def flip: n_def h1_def)
  moreover have "yields h (Some (link (link h1 p a) a q, lfirst a us)) (insert a (addrs_of (us @ vs))) (us @ (a, d) # vs)"
    unfolding h1_def by (rule yields_new[OF rep uniq fresh _ p_def q_def, of n]) (simp_all add: n_def)
  ultimately show thesis using that lfirst_any[OF us, of a NULL] by (simp add: q_def)
qed

lemma unat_gint: "0 \<le> i \<Longrightarrow> i < 2147483648 \<Longrightarrow> unat (of_int i :: u32) = nat i"
  by (simp add: unat_eq_nat_uint uint_word_of_int)

lemma insert_list_rep:
  assumes g: "glist h p xs" and f: "fresh a xs" and i: "i < 2147483648"
  defines "k \<equiv> if i < 0 then length xs else min (nat i) (length xs)"
  shows "yields h (g_list_insert h a p d i) (insert a (addrs_of xs)) (take k xs @ (a, d) # drop k xs)"
proof -
  have r: "lrep h NULL NULL xs" "uniq xs" and p: "p = lfirst NULL xs" using g by (simp_all add: glist_def)
  consider (append) "i < 0 \<or> 0 < i \<and> length xs \<le> nat i" | (prepend) "i = 0" | (middle) "0 < i" "nat i < length xs"
    by (metis not_less_iff_gr_or_eq not_le)
  then show ?thesis
  proof cases
    case append
    then have k: "k = length xs" by (auto simp: k_def)
    have "g_list_insert h a p d i = g_list_append h a p d"
    proof (cases "i < 0")
      case False
      then have n: "unat (of_int i :: u32) = nat i" using False i by (intro unat_gint) simp_all
      have "g_list_nth h p (of_int i) = Some NULL" using nth_rep[OF r, of "of_int i"] append False p n by simp
      then show ?thesis using append False by (simp add: g_list_insert_def)
    qed (simp add: g_list_insert_def)
    then show ?thesis using append_rep[OF g f, of d] k by simp
  next
    case prepend
    then have k: "k = 0" by (simp add: k_def)
    obtain h' where "g_list_prepend h a p d = Some (h', a)" "yields h (Some (h', a)) (insert a (addrs_of xs)) ((a, d) # xs)"
      using prepend_rep[of h "[]" xs a d] r f p by auto
    then show ?thesis using prepend k by (simp add: g_list_insert_def)
  next
    case middle
    then have k: "k = nat i" by (simp add: k_def)
    have n: "unat (of_int i :: u32) = nat i" using middle i by (intro unat_gint) simp_all
    define us vs where "us = take k xs" and "vs = drop k xs"
    have uv: "xs = us @ vs" "us \<noteq> []" "vs \<noteq> []" using middle k by (auto simp: us_def vs_def)
    obtain h' where h': "put_before h a d (lfirst NULL vs) = Some h'"
      "yields h (Some (h', lfirst NULL us)) (insert a (addrs_of (us @ vs))) (us @ (a, d) # vs)"
      by (rule put_before_rep[of h us vs a d]) (use r f uv in auto)
    have "g_list_nth h p (of_int i) = Some (lfirst NULL vs)" using nth_rep[OF r, of "of_int i"] p n k by (simp add: vs_def)
    moreover have "lfirst NULL vs \<noteq> NULL" using lfirst_NULL[of vs] uv r(2) by simp
    moreover have "p = lfirst NULL us" using p uv lfirst_any[OF uv(2)] by simp
    ultimately have "g_list_insert h a p d i = Some (h', lfirst NULL us)" using middle h'(1) by (simp add: g_list_insert_def)
    then show ?thesis using h'(2) unfolding uv(1)[symmetric] by (simp only: us_def vs_def)
  qed
qed

text \<open>Before a sibling, the first element of the second segment, or at the end where there is none.\<close>

lemma insert_before_rep:
  assumes g: "glist h p (us @ vs)" and fresh: "fresh a (us @ vs)"
  shows "yields h (g_list_insert_before h a p (lfirst NULL vs) d) (insert a (addrs_of (us @ vs))) (us @ (a, d) # vs)"
proof -
  have rep: "lrep h NULL NULL (us @ vs)" and uniq: "uniq (us @ vs)" and p: "p = lfirst NULL (us @ vs)"
    using g by (simp_all add: glist_def)
  define q where "q = lfirst NULL vs"
  define l where "l = llast NULL us"
  define n where "n = \<lparr>l_data = d, l_next = q, l_prev = l\<rparr>"
  define h1 where "h1 = h(a \<mapsto> n)"
  note nf = new_facts[OF rep uniq fresh l_def q_def h1_def]
  have h1a: "h1 a = Some n" by (simp add: h1_def)
  define h2 where "h2 = link h1 a q"
  have h2a: "h2 a = Some n" using link_first[of h1 a n q] h1a nf by (simp add: h2_def n_def)
  have nl: "set_next h2 l a = Some (link h2 l a)" if "l \<noteq> NULL"
  proof -
    obtain e where "h1 l = Some e" using nf(10) \<open>l \<noteq> NULL\<close> by blast
    moreover have "l \<noteq> q" using nf(9) that by blast
    ultimately have "h2 l = Some e" using nf(5) by (simp add: h2_def)
    then show ?thesis by (rule set_next_link) (use that h2a in \<open>simp_all add: n_def\<close>)
  qed
  have ll: "link h2 l a = h2" if "l = NULL" using that h2a by (intro link_noop) (simp_all add: n_def)
  have "g_list_insert_before h a p q d = Some (link h2 l a, lfirst a us)"
  proof (cases "q = NULL")
    case True
    then have vs: "vs = []" using nf by simp
    have h2: "h2 = h1" unfolding h2_def using True h1a by (intro link_noop) (simp_all add: n_def)
    show ?thesis
    proof (cases "us = []")
      case True
      then show ?thesis using vs p nf ll h2 \<open>q = NULL\<close>
        by (simp add: g_list_insert_before_def l_def) (simp add: h1_def n_def l_def)
    next
      case False
      have "last_loop h p = Some l" using last_loop_rep[of h NULL us] rep uniq vs False p by (simp add: l_def)
      moreover have "p \<noteq> NULL" using p vs False uniq lfirst_NULL[of us] by simp
      moreover have "l \<noteq> NULL" using nf False by simp
      moreover have "h1 = h(a \<mapsto> \<lparr>l_data = d, l_next = NULL, l_prev = l\<rparr>)" using \<open>q = NULL\<close> by (simp add: h1_def n_def)
      ultimately show ?thesis
        using nl h2 \<open>q = NULL\<close> p vs lfirst_any[OF False, of a NULL] by (simp add: g_list_insert_before_def)
    qed
  next
    case False
    obtain e where e: "h q = Some e" "h1 q = Some e" "l_prev e = l" using nf(11) False by blast
    have "set_prev h1 q a = Some h2" unfolding h2_def using e False h1a by (intro set_prev_link[of _ _ e]) (simp_all add: n_def)
    moreover have "p \<noteq> NULL" using g glist_NULL[of h p "us @ vs"] False nf by simp
    moreover have "p = lfirst a us" if "us \<noteq> []" using p lfirst_any[OF that] by simp
    moreover have "h(a \<mapsto> \<lparr>l_data = d, l_next = q, l_prev = l_prev e\<rparr>) = h1" using e by (simp add: h1_def n_def)
    ultimately show ?thesis using e(1) e(3)[symmetric] False nl ll nf(7)
      by (cases "us = []") (simp_all add: g_list_insert_before_def)
  qed
  then show ?thesis unfolding h2_def h1_def q_def
    by (intro yields_new[OF rep uniq fresh _ l_def refl, of n]) (simp_all add: n_def q_def)
qed

text \<open>The place in a sorted list: before the first element that the new one does not come after.\<close>

lemma sorted_place_rep:
  fixes func :: "gpointer \<Rightarrow> gpointer \<Rightarrow> int" and d :: gpointer
  assumes "lrep h pv NULL xs" and "uniq xs" and "xs \<noteq> []"
  defines "us \<equiv> takeWhile (\<lambda>x. 0 < func d (snd x)) xs"
  shows "\<exists>cmp. sorted_place h d (lfirst NULL xs) func =
      Some (if us = xs then llast NULL xs else lfirst NULL (drop (length us) xs), cmp) \<and> (0 < cmp \<longleftrightarrow> us = xs)"
  using assms(1-3) unfolding us_def
proof (induction xs arbitrary: pv)
  case (Cons x xs)
  obtain b e where x: "x = (b, e)" by (cases x)
  show ?case
  proof (cases "xs = [] \<or> \<not> 0 < func d e")
    case True
    then show ?thesis using Cons.prems x lfirst_NULL[of xs] by (subst sorted_place.simps) auto
  next
    case False
    then have ne: "xs \<noteq> []" by simp
    have "sorted_place h d b func = sorted_place h d (lfirst NULL xs) func"
      using Cons.prems x False lfirst_NULL[of xs] by (subst sorted_place.simps) simp
    then show ?thesis using Cons.IH[of b] Cons.prems x False llast_any[OF ne, of b NULL]
      by (auto simp del: takeWhile_eq_all_conv split: if_splits)
  qed
qed simp

lemma insert_sorted_rep:
  fixes func :: "gpointer \<Rightarrow> gpointer \<Rightarrow> int" and d :: gpointer
  assumes g: "glist h p xs" and f: "fresh a xs"
  defines "us \<equiv> takeWhile (\<lambda>x. 0 < func d (snd x)) xs" and "vs \<equiv> dropWhile (\<lambda>x. 0 < func d (snd x)) xs"
  shows "yields h (g_list_insert_sorted_real h a p d func) (insert a (addrs_of xs)) (us @ (a, d) # vs)"
proof -
  have xs: "xs = us @ vs" by (simp add: us_def vs_def)
  have rep: "lrep h NULL NULL (us @ vs)" and uniq: "uniq (us @ vs)" and fresh: "fresh a (us @ vs)" and p: "p = lfirst NULL xs"
    using g f by (simp_all add: glist_def xs)
  define q where "q = lfirst NULL vs"
  define l where "l = llast NULL us"
  define n where "n = \<lparr>l_data = d, l_next = NULL, l_prev = NULL\<rparr>"
  define h1 where "h1 = h(a \<mapsto> n)"
  note nf = new_facts[OF rep uniq fresh l_def q_def h1_def]
  have h1a: "h1 a = Some n" by (simp add: h1_def)
  have "g_list_insert_sorted_real h a p d func = Some (link (link h1 l a) a q, lfirst a us)"
  proof (cases "xs = []")
    case True
    have "link (link h1 l a) a q = h1" using nf True xs h1a by (simp add: link_noop n_def)
    then show ?thesis using True p xs by (simp add: g_list_insert_sorted_real_def h1_def n_def)
  next
    case False
    obtain cmp where cmp: "sorted_place h d p func =
      Some (if us = xs then llast NULL xs else lfirst NULL (drop (length us) xs), cmp)" "0 < cmp \<longleftrightarrow> us = xs"
      using sorted_place_rep[where pv = NULL and func = func and d = d and h = h and xs = xs] rep uniq False p xs unfolding us_def[symmetric] by auto
    have pn: "p \<noteq> NULL" using False glist_NULL[OF g] by simp
    show ?thesis
    proof (cases "vs = []")
      case True
      then have us: "us = xs" using xs by simp
      then have l0: "l \<noteq> NULL" using nf False by simp
      obtain e where e: "h l = Some e" "l_next e = q" using nf(10) l0 nf(5) unfolding h1_def by auto
      obtain h' where h': "set_next h1 l a = Some h'" "set_prev h' a l = Some (link h1 l a)"
        by (rule set_both[of h1 l a]) (use nf l0 in auto)
      have "link (link h1 l a) a q = link h1 l a"
        by (rule link_noop) (use True nf link_second[of h1 a n l] h1a l0 in \<open>simp_all add: n_def\<close>)
      moreover have "p = lfirst a us" using p us lfirst_any[OF False] by simp
      moreover have "llast NULL xs = l" using us by (simp add: l_def)
      moreover have "q = NULL" using True nf by simp
      ultimately show ?thesis using cmp us e h' pn
        by (simp add: g_list_insert_sorted_real_def flip: n_def h1_def)
    next
      case vs: False
      then have us: "us \<noteq> xs" using xs by simp
      have q0: "q \<noteq> NULL" using nf vs by simp
      obtain e where e: "h q = Some e" "l_prev e = l" using nf(11) q0 by blast
      have qp: "lfirst NULL (drop (length us) xs) = q" using xs by (simp add: q_def)
      obtain h' where h': "set_next (link h1 l a) a q = Some h'" "set_prev h' q a = Some (link (link h1 l a) a q)"
        by (rule set_both[of "link h1 l a" a q]) (use nf q0 in auto)
      show ?thesis
      proof (cases "us = []")
        case True
        then have l: "l = NULL" using nf by simp
        have "link h1 l a = h1" using l h1a by (intro link_noop) (simp_all add: n_def)
        moreover have "p = q" using p xs True by (simp add: q_def)
        ultimately show ?thesis using cmp us e h' vs qp pn q0 l True
          by (simp add: g_list_insert_sorted_real_def flip: n_def h1_def)
      next
        case False
        have l0: "l \<noteq> NULL" using nf False by simp
        obtain h'' where h'': "set_next h1 l a = Some h''" "set_prev h'' a l = Some (link h1 l a)"
          by (rule set_both[of h1 l a]) (use nf l0 in auto)
        have pf: "p = lfirst a us" using p xs lfirst_any[OF False] by simp
        have "p \<in> addrs_of us" using pf lfirst_mem[OF False] by (simp add: addrs_of_def)
        then have "q \<noteq> p" using lfirst_mem[OF vs, of NULL] uniq by (auto simp: q_def addrs_of_def)
        then show ?thesis using cmp us e h' h'' vs qp pn q0 l0 pf
          by (simp add: g_list_insert_sorted_real_def flip: n_def h1_def)
      qed
    qed
  qed
  then show ?thesis unfolding xs h1_def
    by (intro yields_new[OF rep uniq fresh _ l_def q_def, of n]) (simp_all add: n_def)
qed

section \<open>Joining\<close>

lemma concat_rep:
  assumes g: "glist h p xs" and k: "glist h q ys" and d: "addrs_of xs \<inter> addrs_of ys = {}"
  shows "yields h (g_list_concat h p q) (addrs_of xs \<union> addrs_of ys) (xs @ ys)"
proof (cases "ys = []")
  case True
  then show ?thesis using g k by (auto simp: g_list_concat_def glist_def intro: yieldsI)
next
  case False
  define l where "l = llast NULL xs"
  have u: "uniq (xs @ ys)" and rs: "lrep h NULL NULL xs" "lrep h NULL NULL ys" and p: "p = lfirst NULL xs" and q: "q = lfirst NULL ys"
    using g k d by (simp_all add: glist_def)
  have q0: "q \<noteq> NULL" using False glist_NULL[OF k] by simp
  have lq: "l \<in> insert NULL (addrs_of xs)" "q \<in> addrs_of ys"
    using llast_mem[of xs NULL] lfirst_mem[OF False, of NULL] by (cases "xs = []"; simp add: addrs_of_def l_def q)+
  have v: "valid h l" "valid h q" using valid_last[OF rs(1)] valid_first[OF rs(2)] by (simp_all add: l_def q)
  have "g_list_concat h p q = Some (link h l q, lfirst NULL (xs @ ys))"
  proof (cases "xs = []")
    case True
    obtain n where "h q = Some n" using v q0 by (auto simp: valid_def)
    then have "set_prev h q l = Some (link h l q)" using q0 True by (intro set_prev_link) (simp_all add: l_def)
    then show ?thesis using True q0 p q g_list_last_rep[OF g] by (simp add: g_list_concat_def l_def)
  next
    case xs: False
    then have l0: "l \<noteq> NULL" using u llast_NULL[of xs] by (simp add: l_def)
    obtain h' where "set_next h l q = Some h'" "set_prev h' q l = Some (link h l q)"
      by (rule set_both[OF v l0 q0])
    then show ?thesis using q0 l0 p lfirst_any[OF xs, of q NULL] g_list_last_rep[OF g]
      by (simp add: g_list_concat_def q flip: l_def)
  qed
  moreover have "lrep (link h l q) NULL NULL (xs @ ys)"
    unfolding l_def q using u by (intro link_rep[OF rs]) (auto simp: NULL_uniq)
  moreover have "same_but (addrs_of xs \<union> addrs_of ys) h (link h l q)" using lq by (auto intro: same_but_link)
  ultimately show ?thesis using u by (auto intro: yieldsI)
qed

end
