(* ===== verification/Glib_List_Remove.thy ===== *)
theory Glib_List_Remove
  imports Glib_List_Update
begin

text \<open>
  Removing elements from a list, reversing it in place and copying it.
\<close>

section \<open>Removing\<close>

lemma old_facts:
  assumes rep: "lrep h NULL NULL (us @ (a, d) # vs)" and uniq: "uniq (us @ (a, d) # vs)"
    and p: "p = llast NULL us" and q: "q = lfirst NULL vs"
  shows "h a = Some \<lparr>l_data = d, l_next = q, l_prev = p\<rparr>" "a \<noteq> NULL" "p \<noteq> a" "q \<noteq> a"
    "p = NULL \<longleftrightarrow> us = []" "q = NULL \<longleftrightarrow> vs = []" "p = q \<Longrightarrow> p = NULL"
    "p \<noteq> NULL \<Longrightarrow> \<exists>e. h p = Some e \<and> l_next e = a" "q \<noteq> NULL \<Longrightarrow> \<exists>e. h q = Some e \<and> l_prev e = a"
    "p \<in> insert NULL (addrs_of us)" "q \<in> insert NULL (addrs_of vs)"
proof -
  show ha: "h a = Some \<lparr>l_data = d, l_next = q, l_prev = p\<rparr>" using elem_at[OF rep] unfolding p q .
  show a: "a \<noteq> NULL" using uniq by simp
  show us: "p = NULL \<longleftrightarrow> us = []" and vs: "q = NULL \<longleftrightarrow> vs = []"
    using uniq llast_NULL[of us] lfirst_NULL[of vs] unfolding p q by simp_all
  show pin: "p \<in> insert NULL (addrs_of us)" and qin: "q \<in> insert NULL (addrs_of vs)"
    using llast_mem[of us NULL] lfirst_mem[of vs NULL] unfolding p q
    by (cases "us = []"; cases "vs = []"; simp add: addrs_of_def)+
  have d: "addrs_of us \<inter> addrs_of vs = {}" "a \<notin> addrs_of us" "a \<notin> addrs_of vs" using uniq by auto
  show "p \<noteq> a" "q \<noteq> a" using pin qin a d by auto
  show "p = q \<Longrightarrow> p = NULL" using pin qin d(1) by (metis disjoint_iff insertE)
  show "\<exists>e. h p = Some e \<and> l_next e = a" if p0: "p \<noteq> NULL"
  proof -
    obtain us' b e where "us = us' @ [(b, e)]" using p0 us by (cases us rule: rev_cases) auto
    then show ?thesis using rep unfolding p by (simp add: lrep_append)
  qed
  show "\<exists>e. h q = Some e \<and> l_prev e = a" if q0: "q \<noteq> NULL"
  proof -
    obtain b e vs' where "vs = (b, e) # vs'" using q0 vs by (cases vs) auto
    then show ?thesis using rep unfolding q by (simp add: lrep_append)
  qed
qed

lemma set_other:
  "set_next h p q = Some h' \<Longrightarrow> x \<noteq> p \<Longrightarrow> h' x = h x" "set_prev h p q = Some h' \<Longrightarrow> x \<noteq> p \<Longrightarrow> h' x = h x"
  by (auto simp: set_next_def set_prev_def set_elem_def)

text \<open>The neighbours of an element, which point back to it, are linked with each other.\<close>

lemma unlink_neighbours:
  assumes rep: "lrep h NULL NULL (us @ (a, d) # vs)" and uniq: "uniq (us @ (a, d) # vs)"
    and p: "p = llast NULL us" and q: "q = lfirst NULL vs"
  obtains h' where
    "(if p \<noteq> NULL then Option.bind (h p) (\<lambda>n. if l_next n = a then set_next h p q else Some h) else Some h) = Some h'"
    "(if q \<noteq> NULL then Option.bind (h' q) (\<lambda>n. if l_prev n = a then set_prev h' q p else Some h') else Some h') =
       Some (link h p q)"
    "(if p \<noteq> NULL then set_next h p q else Some h) = Some h'"
    "(if q \<noteq> NULL then set_prev h' q p else Some h') = Some (link h p q)"
proof (cases "p = NULL")
  note f = old_facts[OF rep uniq p q]
  case True
  have "set_prev h q p = Some (link h p q)" if "q \<noteq> NULL"
    using f(9)[OF that] that True by (auto intro: set_prev_link)
  then show thesis using that[of h] True f(9) by (cases "q = NULL") auto
next
  note f = old_facts[OF rep uniq p q]
  case False
  obtain e where e: "h p = Some e" "l_next e = a" using f(8) False by blast
  show thesis
  proof (cases "q = NULL")
    case True
    have "set_next h p q = Some (link h p q)" using e False True by (intro set_next_link) simp_all
    then show thesis using that[of "link h p q"] e False True by simp
  next
    case q0: False
    obtain e' where e': "h q = Some e'" "l_prev e' = a" using f(9) q0 by blast
    obtain h' where h': "set_next h p q = Some h'" "set_prev h' q p = Some (link h p q)"
      by (rule set_both[of h p q]) (use e e' False q0 in \<open>auto simp: valid_def\<close>)
    have "h' q = Some e'" using set_other(1)[OF h'(1), of q] f(7) False e' by auto
    then show thesis using that[of h'] e e' h' False q0 by simp
  qed
qed

text \<open>As \<open>yields\<close>, and what is no longer in the list is free.\<close>

definition frees :: "lheap \<Rightarrow> (lheap \<times> gpointer) option \<Rightarrow> gpointer set \<Rightarrow> elem list \<Rightarrow> bool" where
  "frees h r A ys \<longleftrightarrow> (\<exists>h' p'. r = Some (h', p') \<and> glist h' p' ys \<and> same_but A h h' \<and> (\<forall>x \<in> A - addrs_of ys. h' x = None))"

lemma remove_link_rep:
  assumes g: "glist h p (us @ (a, d) # vs)"
  obtains h' p' where "remove_link h p a = Some (h', p')" "glist h' p' (us @ vs)"
    "same_but (addrs_of (us @ (a, d) # vs)) h h'" "h' a = Some \<lparr>l_data = d, l_next = NULL, l_prev = NULL\<rparr>"
proof -
  have rep: "lrep h NULL NULL (us @ (a, d) # vs)" and uniq: "uniq (us @ (a, d) # vs)" and p: "p = lfirst NULL (us @ (a, d) # vs)"
    using g by (simp_all add: glist_def)
  define l where "l = llast NULL us"
  define q where "q = lfirst NULL vs"
  note f = old_facts[OF rep uniq l_def q_def]
  define h1 where "h1 = link h l q"
  define h2 where "h2 = h1(a \<mapsto> \<lparr>l_data = d, l_next = NULL, l_prev = NULL\<rparr>)"
  have h1a: "h1 a = Some \<lparr>l_data = d, l_next = q, l_prev = l\<rparr>" using f(1,3,4) by (simp add: h1_def)
  have s: "set_next h1 a NULL = Some (h1(a \<mapsto> \<lparr>l_data = d, l_next = NULL, l_prev = l\<rparr>))"
    "set_prev (h1(a \<mapsto> \<lparr>l_data = d, l_next = NULL, l_prev = l\<rparr>)) a NULL = Some h2"
    using h1a by (simp_all add: set_next_def set_prev_def set_elem_def h2_def)
  obtain h' where h': "(if l \<noteq> NULL then Option.bind (h l) (\<lambda>n. if l_next n = a then set_next h l q else Some h) else Some h) = Some h'"
    "(if q \<noteq> NULL then Option.bind (h' q) (\<lambda>n. if l_prev n = a then set_prev h' q l else Some h') else Some h') = Some h1"
    unfolding h1_def by (rule unlink_neighbours[OF rep uniq l_def q_def])
  have "remove_link h p a = Some (h2, if a = p then q else p)"
    unfolding remove_link_def by (simp only: f(1,2) h' s Option.bind.simps GList.select_convs if_False)
  moreover have "lrep h2 NULL NULL (us @ vs)"
    using old_gone[OF rep uniq] uniq unfolding h2_def h1_def l_def q_def by (subst lrep_upd) auto
  moreover have "(if a = p then q else p) = lfirst NULL (us @ vs)"
  proof (cases "us = []")
    case False
    then have "p \<in> addrs_of us" using lfirst_mem[OF False, of a] p by (simp add: addrs_of_def)
    then have "a \<noteq> p" using uniq by auto
    then show ?thesis using p lfirst_any[OF False, of a q] by (simp add: q_def)
  qed (use p in \<open>simp add: q_def\<close>)
  moreover have "same_but (addrs_of (us @ (a, d) # vs)) h h2"
    unfolding h2_def h1_def using f(10,11) by (subst same_but_upd) (auto intro: same_but_link)
  ultimately show thesis using that[of h2] uniq by (simp add: glist_def h2_def)
qed

lemma delete_link_rep:
  assumes g: "glist h p (us @ (a, d) # vs)"
  shows "frees h (g_list_delete_link h p a) (addrs_of (us @ (a, d) # vs)) (us @ vs)"
proof -
  obtain h' p' where r: "remove_link h p a = Some (h', p')" "glist h' p' (us @ vs)"
    "same_but (addrs_of (us @ (a, d) # vs)) h h'" "h' a \<noteq> None"
    by (rule remove_link_rep[OF g]) auto
  have "uniq (us @ (a, d) # vs)" using g by (simp add: glist_def)
  then have "glist (h'(a := None)) p' (us @ vs)" using r(2) by (simp add: glist_def lrep_upd)
  moreover have "same_but (addrs_of (us @ (a, d) # vs)) h (h'(a := None))" using r(3) by simp
  moreover have "a \<noteq> NULL" using g by (auto simp: glist_def)
  ultimately show ?thesis using r(1,4)
    unfolding frees_def by (intro exI[of _ "h'(a := None)"] exI[of _ p']) (auto simp: g_list_delete_link_def g_list_free_1_def)
qed

text \<open>The first element with the data, if there is one, or all of them.\<close>

definition remove_data :: "gpointer \<Rightarrow> elem list \<Rightarrow> elem list" where
  "remove_data d xs = takeWhile (\<lambda>x. snd x \<noteq> d) xs @ tl (dropWhile (\<lambda>x. snd x \<noteq> d) xs)"

lemma remove_loop_rep:
  assumes "glist h p (us @ vs)"
  shows "frees h (remove_loop h p (lfirst NULL vs) d) (addrs_of (us @ vs)) (us @ remove_data d vs)"
  using assms
proof (induction vs arbitrary: us)
  case Nil
  then show ?case by (subst remove_loop.simps) (simp add: frees_def remove_data_def)
next
  case (Cons x vs)
  obtain a e where x: "x = (a, e)" by (cases x)
  have u: "uniq (us @ (a, e) # vs)" and ha: "h a = Some \<lparr>l_data = e, l_next = lfirst NULL vs, l_prev = llast NULL us\<rparr>" and a: "a \<noteq> NULL"
    using Cons.prems x elem_at[of h NULL NULL us a e vs] by (simp_all add: glist_def)
  show ?case
  proof (cases "e = d")
    case True
    have "remove_loop h p a d = g_list_delete_link h p a"
      using True ha a by (subst remove_loop.simps) (simp add: g_list_delete_link_def)
    then show ?thesis using delete_link_rep[of h p us a e vs] Cons.prems True x by (simp add: remove_data_def)
  next
    case False
    have "remove_loop h p a d = remove_loop h p (lfirst NULL vs) d" using False ha a by (subst remove_loop.simps) simp
    then show ?thesis using Cons.IH[of "us @ [x]"] Cons.prems False x by (simp add: remove_data_def)
  qed
qed

lemma remove_rep:
  assumes "glist h p xs"
  shows "frees h (g_list_remove h p d) (addrs_of xs) (remove_data d xs)"
  using remove_loop_rep[of h p "[]" xs d] assms by (simp add: g_list_remove_def glist_def)

lemma frees_trans:
  assumes "frees h' r B ys" and "same_but A h h'" and "B \<subseteq> A" and "\<forall>x \<in> A - B. h' x = None"
  shows "frees h r A ys"
proof -
  obtain h'' p where r: "r = Some (h'', p)" "glist h'' p ys" "same_but B h' h''" "\<forall>x \<in> B - addrs_of ys. h'' x = None"
    using assms(1) by (auto simp: frees_def)
  have "same_but A h h''" using assms(2) r(3) by (rule same_but_trans) (use assms(3) in auto)
  moreover have "h'' x = None" if "x \<in> A - addrs_of ys" for x
    using r(3,4) assms(4) that by (cases "x \<in> B") (auto simp: same_but_def)
  ultimately show ?thesis using r(1,2) by (auto simp: frees_def)
qed

lemma remove_all_loop_rep:
  assumes "glist h p (us @ vs)"
  shows "frees h (remove_all_loop h p (lfirst NULL vs) d) (addrs_of (us @ vs)) (us @ filter (\<lambda>x. snd x \<noteq> d) vs)"
  using assms
proof (induction vs arbitrary: us h p)
  case Nil
  then show ?case by (subst remove_all_loop.simps) (simp add: frees_def)
next
  case (Cons x vs)
  obtain a e where x: "x = (a, e)" by (cases x)
  define l where "l = llast NULL us"
  define q where "q = lfirst NULL vs"
  have rep: "lrep h NULL NULL (us @ (a, e) # vs)" and uniq: "uniq (us @ (a, e) # vs)" and p: "p = lfirst NULL (us @ (a, e) # vs)"
    using Cons.prems x by (simp_all add: glist_def)
  note f = old_facts[OF rep uniq l_def q_def]
  show ?case
  proof (cases "e = d")
    case False
    have "remove_all_loop h p a d = remove_all_loop h p q d" using False f(1,2) by (subst remove_all_loop.simps) simp
    then show ?thesis using Cons.IH[of h p "us @ [x]"] Cons.prems False x by (simp add: q_def)
  next
    case True
    obtain h' where h': "(if l \<noteq> NULL then set_next h l q else Some h) = Some h'"
      "(if q \<noteq> NULL then set_prev h' q l else Some h') = Some (link h l q)"
      by (rule unlink_neighbours[OF rep uniq l_def q_def])
    define h1 where "h1 = (link h l q)(a := None)"
    define p1 where "p1 = (if l \<noteq> NULL then p else q)"
    obtain y where "link h l q a = Some y" using f(1,3,4) by simp
    then have free: "g_list_free_1 (link h l q) a = Some h1" using f(2) by (simp add: g_list_free_1_def h1_def)
    have 1: "(if l \<noteq> NULL then Option.bind (set_next h l q) (\<lambda>h. Some (h, p)) else Some (h, q)) = Some (h', p1)"
      using h'(1) by (simp add: p1_def split: if_splits)
    have "remove_all_loop h p a d = remove_all_loop h1 p1 q d"
      by (subst remove_all_loop.simps)
        (simp only: f(1,2) True simp_thms if_False Option.bind.simps GList.select_convs Let_def 1 prod.case h'(2) free)
    moreover have "lrep h1 NULL NULL (us @ vs)"
      using old_gone[OF rep uniq] uniq unfolding h1_def l_def q_def by (subst lrep_upd) auto
    moreover have "p1 = lfirst NULL (us @ vs)"
      using f(5) p lfirst_any[of us a q] by (cases "us = []") (simp_all add: p1_def q_def)
    ultimately have r: "remove_all_loop h p a d = remove_all_loop h1 p1 q d" and g: "glist h1 p1 (us @ vs)"
      using uniq by (simp_all add: glist_def)
    have A: "addrs_of (us @ x # vs) = insert a (addrs_of (us @ vs))" using x by simp
    have fr: "frees h (remove_all_loop h1 p1 q d) (insert a (addrs_of (us @ vs))) (us @ filter (\<lambda>x. snd x \<noteq> d) vs)"
    proof (rule frees_trans[OF Cons.IH[OF g, folded q_def]])
      show "same_but (insert a (addrs_of (us @ vs))) h h1"
        unfolding h1_def using f(10,11) by (subst same_but_upd) (auto intro: same_but_link)
    qed (auto simp: h1_def)
    then show ?thesis using r True x unfolding A by simp
  qed
qed

lemma list_remove_all_rep:
  assumes "glist h p xs"
  shows "frees h (g_list_remove_all h p d) (addrs_of xs) (filter (\<lambda>x. snd x \<noteq> d) xs)"
  using remove_all_loop_rep[of h p "[]" xs d] assms by (simp add: g_list_remove_all_def glist_def)

section \<open>Reversing\<close>

lemma reverse_loop_rep:
  assumes "lrep h (lfirst NULL xs) NULL ys" and "lrep h (lfirst NULL ys) NULL xs" and "uniq (ys @ xs)"
  shows "yields h (reverse_loop h (lfirst NULL ys) (lfirst NULL xs)) (addrs_of xs) (rev xs @ ys)"
  using assms
proof (induction xs arbitrary: ys h)
  case Nil
  then show ?case by (subst reverse_loop.simps) (auto intro: yieldsI)
next
  case (Cons x xs)
  obtain a d where x: "x = (a, d)" by (cases x)
  define l where "l = lfirst NULL ys"
  define q where "q = lfirst NULL xs"
  define h1 where "h1 = h(a \<mapsto> \<lparr>l_data = d, l_next = l, l_prev = l\<rparr>)"
  define h2 where "h2 = h(a \<mapsto> \<lparr>l_data = d, l_next = l, l_prev = q\<rparr>)"
  have ha: "h a = Some \<lparr>l_data = d, l_next = q, l_prev = l\<rparr>" and a: "a \<noteq> NULL" "a \<notin> addrs_of xs" "a \<notin> addrs_of ys"
    using Cons.prems x by (auto simp: l_def q_def)
  have s: "set_next h a l = Some h1" "set_prev h1 a q = Some h2"
    using ha by (simp_all add: set_next_def set_prev_def set_elem_def h1_def h2_def)
  have 1: "reverse_loop h l a = reverse_loop h2 a q" using ha a s by (subst reverse_loop.simps) simp
  have "lrep h2 a NULL ys" "lrep h2 a NULL xs" using Cons.prems(1,2) x a by (simp_all add: h2_def lrep_upd)
  moreover have "h2 a = Some \<lparr>l_data = d, l_next = l, l_prev = q\<rparr>" by (simp add: h2_def)
  moreover have "uniq (ys @ (a, d) # xs)" using Cons.prems(3) x by simp
  then have "uniq ((a, d) # ys @ xs)" by auto
  ultimately have "yields h2 (reverse_loop h2 a q) (addrs_of xs) (rev xs @ x # ys)"
    using Cons.IH[of h2 "x # ys"] x unfolding q_def l_def by simp
  then obtain h' p' where r: "reverse_loop h2 a q = Some (h', p')" "glist h' p' (rev xs @ x # ys)" "same_but (addrs_of xs) h2 h'"
    by (rule yieldsE)
  have "same_but {a} h h2" by (simp add: h2_def)
  then have "same_but (addrs_of (x # xs)) h h'" using r(3) by (rule same_but_trans) (auto simp: x)
  then show ?case using r(1,2) 1 x by (auto simp: yields_def l_def)
qed

lemma reverse_rep:
  assumes "glist h p xs"
  shows "yields h (g_list_reverse h p) (addrs_of xs) (rev xs)"
  using reverse_loop_rep[of h xs "[]"] assms by (simp add: g_list_reverse_def glist_def)

section \<open>Copying\<close>

definition copied :: "(gpointer \<Rightarrow> gpointer) option \<Rightarrow> elem \<Rightarrow> gpointer" where
  "copied func x = (case func of Some f \<Rightarrow> f (snd x) | None \<Rightarrow> snd x)"

lemma copy_loop_rep:
  assumes "lrep h NULL NULL ys" and "lrep h pv NULL xs" and "ys \<noteq> []" and "uniq (ys @ xs)"
    and "distinct as" and "NULL \<notin> set as" and "set as \<inter> addrs_of (ys @ xs) = {}" and "length xs \<le> length as"
  shows "\<exists>h'. copy_loop h as (llast NULL ys) (lfirst NULL xs) func = Some h' \<and>
    lrep h' NULL NULL (ys @ zip as (map (copied func) xs)) \<and> same_but (addrs_of ys \<union> set as) h h'"
  using assms
proof (induction xs arbitrary: ys as h pv)
  case Nil
  obtain h' where "set_next h (llast NULL ys) NULL = Some h'" "lrep h' NULL NULL ys" "same_but {llast NULL ys} h h'"
    by (rule set_next_rep[of h NULL NULL ys NULL]) (use Nil in auto)
  moreover have "{llast NULL ys} \<subseteq> addrs_of ys \<union> set as" using llast_mem[OF Nil.prems(3)] by (simp add: addrs_of_def)
  ultimately show ?case by (subst copy_loop.simps) (simp add: same_but_mono)
next
  case (Cons x xs)
  obtain a d where x: "x = (a, d)" by (cases x)
  obtain b bs where as: "as = b # bs" using Cons.prems(8) by (cases as) auto
  define d' where "d' = copied func x"
  define l where "l = llast NULL ys"
  have ly: "l \<in> addrs_of ys" using llast_mem[OF Cons.prems(3)] by (simp add: addrs_of_def l_def)
  obtain h1 where h1: "set_next h l b = Some h1" "lrep h1 NULL b ys" "same_but {l} h h1"
    unfolding l_def by (rule set_next_rep[of h NULL NULL ys b]) (use Cons.prems in auto)
  define h2 where "h2 = h1(b \<mapsto> \<lparr>l_data = d', l_next = NULL, l_prev = l\<rparr>)"
  have b: "b \<notin> addrs_of ys" "b \<notin> addrs_of xs" "b \<noteq> NULL" "b \<notin> set bs" using Cons.prems as by auto
  have ya: "a \<notin> addrs_of ys" "addrs_of ys \<inter> addrs_of xs = {}" using Cons.prems(4) x by auto
  have ha: "h a = Some \<lparr>l_data = d, l_next = lfirst NULL xs, l_prev = pv\<rparr>" "a \<noteq> NULL" using Cons.prems x by auto
  have "lrep h1 a NULL xs" using Cons.prems(2) x lrep_same[OF h1(3), of xs] ya ly by auto
  then have xs2: "lrep h2 a NULL xs" unfolding h2_def using b by (subst lrep_upd) simp_all
  have "lrep h2 NULL b ys" unfolding h2_def using h1(2) b by (subst lrep_upd) simp_all
  then have ys2: "lrep h2 NULL NULL (ys @ [(b, d')])" by (simp add: lrep_append h2_def l_def)
  have "\<exists>h'. copy_loop h2 bs b (lfirst NULL xs) func = Some h' \<and>
    lrep h' NULL NULL ((ys @ [(b, d')]) @ zip bs (map (copied func) xs)) \<and>
    same_but (addrs_of (ys @ [(b, d')]) \<union> set bs) h2 h'"
    using Cons.IH[OF ys2 xs2, of bs] Cons.prems b as by auto
  then obtain h' where h': "copy_loop h2 bs b (lfirst NULL xs) func = Some h'"
    "lrep h' NULL NULL (ys @ zip as (map (copied func) (x # xs)))"
    "same_but (addrs_of ys \<union> set as) h2 h'"
    by (auto simp: as d'_def insert_commute)
  have "copy_loop h as l a func = Some h'"
    using ha h1(1) h'(1) as by (subst copy_loop.simps, cases func) (simp_all add: h2_def d'_def copied_def x)
  moreover have "same_but (addrs_of ys \<union> set as) h h2"
    unfolding h2_def using h1(3) ly as by (subst same_but_upd) (auto elim: same_but_mono)
  then have "same_but (addrs_of ys \<union> set as) h h'" using h'(3) by (rule same_but_trans) auto
  ultimately show ?case using h'(2) x by (auto simp: l_def)
qed

lemma copy_rep:
  assumes g: "glist h p xs" and d: "distinct as" "NULL \<notin> set as" "set as \<inter> addrs_of xs = {}" "length xs \<le> length as"
  shows "yields h (g_list_copy_deep h as p func) (set as) (zip as (map (copied func) xs))"
proof (cases xs)
  case Nil
  then show ?thesis using g by (auto simp: g_list_copy_deep_def yields_def)
next
  case (Cons x xs')
  obtain a e where x: "x = (a, e)" by (cases x)
  obtain b bs where as: "as = b # bs" using d(4) Cons by (cases as) auto
  have p: "p = a" and r: "h a = Some \<lparr>l_data = e, l_next = lfirst NULL xs', l_prev = NULL\<rparr>" "lrep h a NULL xs'" "a \<noteq> NULL" "uniq xs'"
    using g Cons x by (simp_all add: glist_def)
  have b: "b \<notin> addrs_of xs'" "b \<noteq> NULL" "b \<notin> set bs" "b \<noteq> a" using d as Cons x by auto
  define e' where "e' = copied func x"
  define h1 where "h1 = h(b \<mapsto> \<lparr>l_data = e', l_next = NULL, l_prev = NULL\<rparr>)"
  have "lrep h1 NULL NULL [(b, e')]" by (simp add: h1_def)
  moreover have "lrep h1 a NULL xs'" unfolding h1_def using r(2) b by (subst lrep_upd) simp_all
  ultimately obtain h' where h': "copy_loop h1 bs b (lfirst NULL xs') func = Some h'"
    "lrep h' NULL NULL ((b, e') # zip bs (map (copied func) xs'))" "same_but (insert b (set bs)) h1 h'"
    using copy_loop_rep[of h1 "[(b, e')]" a xs' bs func] d as b r(4) Cons by auto
  have z: "(b, e') # zip bs (map (copied func) xs') = zip as (map (copied func) xs)"
    by (simp add: as Cons x e'_def)
  have "g_list_copy_deep h as p func = Some (h', b)"
    using p r(1,3) h'(1) as by (cases func) (simp_all add: g_list_copy_deep_def h1_def e'_def copied_def x)
  moreover have "uniq (zip as (map (copied func) xs))"
    using d by (auto simp: uniq_def addrs_of_def map_fst_zip_take dest: set_zip_leftD)
  moreover have "same_but (set as) h h1" by (simp add: h1_def as)
  then have "same_but (set as) h h'" using h'(3) by (rule same_but_trans) (auto simp: as)
  moreover have "b = lfirst NULL (zip as (map (copied func) xs))" by (simp flip: z)
  ultimately show ?thesis using h'(2) unfolding z by (intro yieldsI)
qed

end
