(* ===== verification/Glib_List_Sort.thy ===== *)
theory Glib_List_Sort
  imports Glib_List_Remove "HOL-Library.Multiset"
begin

text \<open>
  The merge sort of \<open>g_list_sort\<close>: it relinks the elements into the order that the merge sort of lists gives, which is
  sorted and stable when the comparison orders the data.
\<close>

section \<open>Merge sort of lists\<close>

fun lmerge :: "(gpointer \<Rightarrow> gpointer \<Rightarrow> int) \<Rightarrow> elem list \<Rightarrow> elem list \<Rightarrow> elem list" where
  "lmerge compare (x # xs) (y # ys) =
     (if compare (snd x) (snd y) \<le> 0 then x # lmerge compare xs (y # ys) else y # lmerge compare (x # xs) ys)"
| "lmerge compare [] ys = ys"
| "lmerge compare xs [] = xs"

lemma lmerge_Nil [simp]: "lmerge compare xs [] = xs"
  by (cases xs) simp_all

function lsort :: "(gpointer \<Rightarrow> gpointer \<Rightarrow> int) \<Rightarrow> elem list \<Rightarrow> elem list" where
  "lsort compare xs = (if length xs < 2 then xs
     else lmerge compare (lsort compare (take (length xs div 2) xs)) (lsort compare (drop (length xs div 2) xs)))"
  by pat_completeness auto
termination by (relation "measure (length \<circ> snd)") auto

declare lsort.simps [simp del]

lemma mset_lmerge [simp]: "mset (lmerge compare xs ys) = mset xs + mset ys"
  by (induction compare xs ys rule: lmerge.induct) simp_all

lemma mset_lsort [simp]: "mset (lsort compare xs) = mset xs"
proof (induction compare xs rule: lsort.induct)
  case (1 compare xs)
  then show ?case
    by (subst lsort.simps) (simp del: mset_append add: mset_append[symmetric])
qed

lemma uniq_mset: "mset xs = mset ys \<Longrightarrow> uniq xs \<longleftrightarrow> uniq ys"
  using mset_eq_imp_distinct_iff[of "map fst xs" "map fst ys"] mset_eq_setD[of xs ys] by (simp add: uniq_def addrs_of_def)

lemma addrs_mset: "mset xs = mset ys \<Longrightarrow> addrs_of xs = addrs_of ys"
  using mset_eq_setD[of xs ys] by (simp add: addrs_of_def)

lemma lsort_simps [simp]: "uniq (lsort compare xs) \<longleftrightarrow> uniq xs" "addrs_of (lsort compare xs) = addrs_of xs"
  "lsort compare xs = [] \<longleftrightarrow> xs = []"
proof -
  show "uniq (lsort compare xs) \<longleftrightarrow> uniq xs" "addrs_of (lsort compare xs) = addrs_of xs"
    by (rule uniq_mset, simp) (rule addrs_mset, simp)
  have "length (lsort compare xs) = length xs" by (metis mset_lsort size_mset)
  then show "lsort compare xs = [] \<longleftrightarrow> xs = []" by (metis length_0_conv)
qed

lemma lmerge_simps [simp]: "addrs_of (lmerge compare xs ys) = addrs_of xs \<union> addrs_of ys"
  "lmerge compare xs ys = [] \<longleftrightarrow> xs = [] \<and> ys = []"
proof -
  show "addrs_of (lmerge compare xs ys) = addrs_of xs \<union> addrs_of ys"
    using addrs_mset[of "lmerge compare xs ys" "xs @ ys"] by simp
  show "lmerge compare xs ys = [] \<longleftrightarrow> xs = [] \<and> ys = []"
    by (induction compare xs ys rule: lmerge.induct) simp_all
qed

lemma merge_induct [case_names Both Left Right]:
  assumes "\<And>x xs y ys. P xs (y # ys) \<Longrightarrow> P (x # xs) ys \<Longrightarrow> P (x # xs) (y # ys)" and "\<And>ys. P [] ys" and "\<And>xs. P xs []"
  shows "P xs ys"
proof (induction "length xs + length ys" arbitrary: xs ys rule: less_induct)
  case less
  then show ?case using assms by (cases xs; cases ys) auto
qed

definition in_order :: "(gpointer \<Rightarrow> gpointer \<Rightarrow> int) \<Rightarrow> elem list \<Rightarrow> bool" where
  "in_order compare xs \<longleftrightarrow> sorted_wrt (\<lambda>x y. compare (snd x) (snd y) \<le> 0) xs"

lemma in_order_simps [simp]:
  "in_order compare []" "in_order compare (x # xs) \<longleftrightarrow> (\<forall>y \<in> set xs. compare (snd x) (snd y) \<le> 0) \<and> in_order compare xs"
  "in_order compare (xs @ ys) \<longleftrightarrow> in_order compare xs \<and> in_order compare ys \<and> (\<forall>x \<in> set xs. \<forall>y \<in> set ys. compare (snd x) (snd y) \<le> 0)"
  by (auto simp: in_order_def sorted_wrt_append)

lemma set_lmerge [simp]: "set (lmerge compare xs ys) = set xs \<union> set ys"
  by (metis mset_lmerge set_mset_mset set_mset_union)

context key_order
begin

lemma le_of_greater: "\<not> compare a b \<le> 0 \<Longrightarrow> compare b a \<le> 0"
  using antisym[of b a] by linarith

lemma in_order_lmerge: "in_order compare xs \<Longrightarrow> in_order compare ys \<Longrightarrow> in_order compare (lmerge compare xs ys)"
proof (induction xs ys rule: merge_induct)
  case (Both x xs y ys)
  show ?case
  proof (cases "compare (snd x) (snd y) \<le> 0")
    case True
    then have "compare (snd x) (snd z) \<le> 0" if "z \<in> set ys" for z using trans Both.prems(2) that by auto
    then show ?thesis using True Both by auto
  next
    case False
    then have yx: "compare (snd y) (snd x) \<le> 0" by (rule le_of_greater)
    then have "compare (snd y) (snd z) \<le> 0" if "z \<in> set xs" for z using trans Both.prems(1) that by auto
    then show ?thesis using False yx Both by auto
  qed
qed simp_all

lemma in_order_lsort: "in_order compare (lsort compare xs)"
proof (induction xs rule: measure_induct_rule[where f = length])
  case (less xs)
  show ?case
  proof (cases "length xs < 2")
    case True
    then show ?thesis by (cases xs; cases "tl xs") (simp_all add: lsort.simps)
  next
    case False
    then show ?thesis using less by (subst lsort.simps) (simp add: in_order_lmerge)
  qed
qed

lemma lmerge_stable:
  "in_order compare xs \<Longrightarrow>
   filter (\<lambda>x. compare (snd x) k = 0) (lmerge compare xs ys) = filter (\<lambda>x. compare (snd x) k = 0) (xs @ ys)"
proof (induction xs ys rule: merge_induct)
  case (Both x xs y ys)
  show ?case
  proof (cases "compare (snd x) (snd y) \<le> 0")
    case True
    then show ?thesis using Both by simp
  next
    case False
    then have less: "compare (snd y) (snd x) < 0" using antisym[of "snd y" "snd x"] by linarith
    show ?thesis
    proof (cases "compare (snd y) k = 0")
      case k: True
      have "compare (snd z) k \<noteq> 0" if z: "z = x \<or> z \<in> set xs" for z
      proof
        assume "compare (snd z) k = 0"
        then have "compare (snd z) (snd y) \<le> 0" using trans[of "snd z" k "snd y"] k eq_sym[of k "snd y"] by simp
        moreover have "compare (snd x) (snd z) \<le> 0" using z Both.prems refl by auto
        ultimately have "compare (snd x) (snd y) \<le> 0" using trans by blast
        then show False using False by simp
      qed
      then have "compare (snd x) k \<noteq> 0" "filter (\<lambda>x. compare (snd x) k = 0) xs = []" by (simp_all add: filter_empty_conv)
      then show ?thesis using Both.IH(2)[OF Both.prems] False k by simp
    next
      case k: False
      then show ?thesis using Both.IH(2)[OF Both.prems] False by simp
    qed
  qed
qed simp_all

lemma lsort_stable: "filter (\<lambda>x. compare (snd x) k = 0) (lsort compare xs) = filter (\<lambda>x. compare (snd x) k = 0) xs"
proof (induction xs rule: measure_induct_rule[where f = length])
  case (less xs)
  show ?case
  proof (cases "length xs < 2")
    case True
    then show ?thesis by (simp add: lsort.simps)
  next
    case False
    let ?f = "filter (\<lambda>x. compare (snd x) k = 0)" and ?k = "length xs div 2"
    have "?f (lsort compare xs) = ?f (lsort compare (take ?k xs) @ lsort compare (drop ?k xs))"
      using False lmerge_stable[OF in_order_lsort] by (subst lsort.simps) simp
    also have "\<dots> = ?f (take ?k xs) @ ?f (drop ?k xs)" using less[of "take ?k xs"] less[of "drop ?k xs"] False by simp
    also have "\<dots> = ?f xs" by (metis append_take_drop_id filter_append)
    finally show ?thesis .
  qed
qed

text \<open>Insertion keeps the order.\<close>

lemma in_order_insert:
  assumes "in_order compare xs"
  shows "in_order compare (takeWhile (\<lambda>x. 0 < compare d (snd x)) xs @ (a, d) # dropWhile (\<lambda>x. 0 < compare d (snd x)) xs)"
  using assms
proof (induction xs)
  case (Cons x xs)
  show ?case
  proof (cases "0 < compare d (snd x)")
    case True
    then have "compare (snd x) d \<le> 0" using antisym[of "snd x" d] by linarith
    moreover have "compare (snd x) (snd z) \<le> 0" if "z \<in> set (takeWhile P xs) \<union> set (dropWhile P xs)" for z P
      using Cons.prems that by (metis Un_iff in_order_simps(2) set_dropWhileD set_takeWhileD)
    moreover have "in_order compare (takeWhile (\<lambda>x. 0 < compare d (snd x)) xs @ (a, d) # dropWhile (\<lambda>x. 0 < compare d (snd x)) xs)"
      using Cons by simp
    ultimately show ?thesis using True by simp
  next
    case False
    then have "compare d (snd x) \<le> 0" by simp
    then have "compare d (snd y) \<le> 0" if "y \<in> set xs" for y using trans Cons.prems that by auto
    then show ?thesis using Cons.prems False by auto
  qed
qed simp

end

section \<open>The sort in the heap\<close>

text \<open>An element, or all the rest, is appended to what is merged already.\<close>

lemma merge_step:
  assumes ms: "lrep h NULL nx ms" and xs: "lrep h pv NULL (x # xs)" and u: "uniq (ms @ x # xs)"
  obtains h1 h2 where "merge_append h (lfirst NULL ms) (llast NULL ms) (fst x) = Some (h1, lfirst (fst x) ms)"
    "set_prev h1 (fst x) (llast NULL ms) = Some h2" "lrep h2 NULL NULL (ms @ x # xs)" "same_but (insert (fst x) (addrs_of ms)) h h2"
proof -
  let ?a = "fst x"
  have d: "uniq ms" "uniq (x # xs)" "addrs_of ms \<inter> addrs_of (x # xs) = {}" using u by auto
  obtain h1 where h1: "merge_append h (lfirst NULL ms) (llast NULL ms) ?a = Some (h1, lfirst ?a ms)"
    "lrep h1 NULL ?a ms" "same_but (addrs_of ms) h h1"
  proof (cases "ms = []")
    case True
    then show thesis using that[of h] by (simp add: merge_append_def)
  next
    case False
    obtain h1 where h1: "set_next h (llast NULL ms) ?a = Some h1" "lrep h1 NULL ?a ms" "same_but {llast NULL ms} h h1"
      by (rule set_next_rep[OF ms d(1) False])
    have "{llast NULL ms} \<subseteq> addrs_of ms" using llast_mem[OF False] by (simp add: addrs_of_def)
    with h1(3) have "same_but (addrs_of ms) h h1" by (rule same_but_mono)
    then show thesis using that[of h1] h1 llast_NULL[OF d(1)] False lfirst_any[OF False, of NULL ?a] by (simp add: merge_append_def)
  qed
  have "lrep h1 pv NULL (x # xs)" using xs lrep_same[OF h1(3) d(3)] by simp
  then obtain h2 where h2: "set_prev h1 (lfirst NULL (x # xs)) (llast NULL ms) = Some h2" "lrep h2 (llast NULL ms) NULL (x # xs)"
    "same_but {lfirst NULL (x # xs)} h1 h2"
    by (rule set_prev_rep) (use d(2) in simp_all)
  have "lrep h2 NULL ?a ms" using h1(2) lrep_same[OF h2(3), of ms] d(3) by simp
  then have "lrep h2 NULL NULL (ms @ x # xs)" using h2(2) by (simp add: lrep_append)
  moreover have "same_but (insert ?a (addrs_of ms)) h h2" using h1(3) h2(3) by (rule same_but_trans) auto
  ultimately show thesis using that[of h1 h2] h1(1) h2(1) by simp
qed

lemma merge_loop_rep:
  assumes "lrep h NULL nx ms" and "lrep h p NULL xs" and "lrep h q NULL ys" and "uniq (ms @ xs @ ys)"
    and "xs \<noteq> [] \<or> ys \<noteq> []" and "ms = [] \<Longrightarrow> xs \<noteq> [] \<and> ys \<noteq> []"
  shows "\<exists>h'. merge_loop h (lfirst NULL ms) (llast NULL ms) (lfirst NULL xs) (lfirst NULL ys) compare =
      Some (h', lfirst NULL (ms @ lmerge compare xs ys)) \<and>
    lrep h' NULL NULL (ms @ lmerge compare xs ys) \<and> same_but (addrs_of (ms @ xs @ ys)) h h'"
  using assms
proof (induction xs ys arbitrary: h nx ms p q rule: merge_induct)
  case (Both x xs y ys)
  obtain a d b e where x: "x = (a, d)" and y: "y = (b, e)" by (cases x; cases y)
  have ha: "h a = Some \<lparr>l_data = d, l_next = lfirst NULL xs, l_prev = p\<rparr>" "a \<noteq> NULL"
    and hb: "h b = Some \<lparr>l_data = e, l_next = lfirst NULL ys, l_prev = q\<rparr>" "b \<noteq> NULL" using Both.prems x y by simp_all
  show ?case
  proof (cases "compare d e \<le> 0")
    case True
    have u: "uniq (ms @ x # xs)" using Both.prems(4) by auto
    obtain h1 h2 where s: "merge_append h (lfirst NULL ms) (llast NULL ms) a = Some (h1, lfirst a ms)"
      "set_prev h1 a (llast NULL ms) = Some h2" "lrep h2 NULL NULL (ms @ x # xs)" "same_but (insert a (addrs_of ms)) h h2"
      using merge_step[OF Both.prems(1,2) u] x by auto
    have m: "lrep h2 NULL (lfirst NULL xs) (ms @ [x])" "lrep h2 a NULL xs" using s(3) x by (simp_all add: lrep_append)
    have ys: "lrep h2 q NULL (y # ys)"
      using Both.prems(3,4) x lrep_same[OF s(4), of "y # ys" q NULL] by auto
    obtain h' where h': "merge_loop h2 (lfirst NULL (ms @ [x])) (llast NULL (ms @ [x])) (lfirst NULL xs) (lfirst NULL (y # ys)) compare =
        Some (h', lfirst NULL ((ms @ [x]) @ lmerge compare xs (y # ys)))"
      "lrep h' NULL NULL ((ms @ [x]) @ lmerge compare xs (y # ys))" "same_but (addrs_of ((ms @ [x]) @ xs @ y # ys)) h2 h'"
      using Both.IH(1)[OF m ys] Both.prems(4) by auto
    have "merge_loop h (lfirst NULL ms) (llast NULL ms) a b compare = merge_loop h2 (lfirst a ms) a (lfirst NULL xs) b compare"
      using ha hb True s by (subst merge_loop.simps) simp
    moreover have "same_but (addrs_of (ms @ (x # xs) @ y # ys)) h h'"
      using s(4) h'(3) by (rule same_but_trans) (auto simp: x)
    ultimately show ?thesis using h'(1,2) True x y by auto
  next
    case False
    have u: "uniq (ms @ y # ys)" using Both.prems(4) by auto
    obtain h1 h2 where s: "merge_append h (lfirst NULL ms) (llast NULL ms) b = Some (h1, lfirst b ms)"
      "set_prev h1 b (llast NULL ms) = Some h2" "lrep h2 NULL NULL (ms @ y # ys)" "same_but (insert b (addrs_of ms)) h h2"
      using merge_step[OF Both.prems(1,3) u] y by auto
    have m: "lrep h2 NULL (lfirst NULL ys) (ms @ [y])" "lrep h2 b NULL ys" using s(3) y by (simp_all add: lrep_append)
    have xs: "lrep h2 p NULL (x # xs)"
      using Both.prems(2,4) y lrep_same[OF s(4), of "x # xs" p NULL] by auto
    obtain h' where h': "merge_loop h2 (lfirst NULL (ms @ [y])) (llast NULL (ms @ [y])) (lfirst NULL (x # xs)) (lfirst NULL ys) compare =
        Some (h', lfirst NULL ((ms @ [y]) @ lmerge compare (x # xs) ys))"
      "lrep h' NULL NULL ((ms @ [y]) @ lmerge compare (x # xs) ys)" "same_but (addrs_of ((ms @ [y]) @ (x # xs) @ ys)) h2 h'"
      using Both.IH(2)[OF m(1) xs m(2)] Both.prems(4) by auto
    have "merge_loop h (lfirst NULL ms) (llast NULL ms) a b compare = merge_loop h2 (lfirst b ms) b a (lfirst NULL ys) compare"
      using ha hb False s by (subst merge_loop.simps) simp
    moreover have "same_but (addrs_of (ms @ (x # xs) @ y # ys)) h h'"
      using s(4) h'(3) by (rule same_but_trans) (auto simp: y)
    ultimately show ?thesis using h'(1,2) False x y by auto
  qed
next
  case (Left ys)
  then obtain y ys' where y: "ys = y # ys'" by (cases ys) auto
  have l: "llast NULL ms \<noteq> NULL" using Left llast_NULL[of ms] by auto
  obtain h1 h2 where "merge_append h (lfirst NULL ms) (llast NULL ms) (fst y) = Some (h1, lfirst (fst y) ms)"
      "set_prev h1 (fst y) (llast NULL ms) = Some h2" "lrep h2 NULL NULL (ms @ y # ys')" "same_but (insert (fst y) (addrs_of ms)) h h2"
    by (rule merge_step[of h nx ms q y ys']) (use Left.prems y in auto)
  then show ?case using l y by (subst merge_loop.simps) (auto elim: same_but_mono)
next
  case (Right xs)
  then obtain x xs' where x: "xs = x # xs'" by (cases xs) auto
  have l: "llast NULL ms \<noteq> NULL" "fst x \<noteq> NULL" using Right llast_NULL[of ms] x by auto
  obtain h1 h2 where "merge_append h (lfirst NULL ms) (llast NULL ms) (fst x) = Some (h1, lfirst (fst x) ms)"
      "set_prev h1 (fst x) (llast NULL ms) = Some h2" "lrep h2 NULL NULL (ms @ x # xs')" "same_but (insert (fst x) (addrs_of ms)) h h2"
    by (rule merge_step[of h nx ms p x xs']) (use Right.prems x in auto)
  then show ?case using l x by (subst merge_loop.simps) (auto elim: same_but_mono)
qed

lemma middle_rep:
  assumes "lrep h p NULL us" and "lrep h q NULL ws" and "uniq us" and "uniq ws" and "ws \<noteq> []" and "(length ws - 1) div 2 < length us"
  shows "middle_loop h (lfirst NULL us) (lfirst NULL ws) = Some (lfirst NULL (drop ((length ws - 1) div 2) us))"
  using assms
proof (induction ws arbitrary: us p q rule: measure_induct_rule[where f = length])
  case (less ws)
  obtain a d ws1 where ws: "ws = (a, d) # ws1" using less.prems(5) by (cases ws) auto
  show ?case
  proof (cases "length ws1 < 2")
    case True
    then consider "ws1 = []" | b e where "ws1 = [(b, e)]" by (cases ws1; cases "tl ws1") auto
    then show ?thesis
    proof cases
      case 1
      then show ?thesis using less.prems ws by (subst middle_loop.simps) simp
    next
      case 2
      then show ?thesis using less.prems ws by (subst middle_loop.simps) simp
    qed
  next
    case False
    then obtain b e c f ws2 where ws1: "ws1 = (b, e) # (c, f) # ws2" by (cases ws1; cases "tl ws1") auto
    obtain u v us' where us: "us = (u, v) # us'" using less.prems(6) by (cases us) auto
    have "middle_loop h u a = middle_loop h (lfirst NULL us') c" using less.prems ws ws1 us by (subst middle_loop.simps) simp
    moreover have "middle_loop h (lfirst NULL us') (lfirst NULL ((c, f) # ws2)) = Some (lfirst NULL (drop ((length ((c, f) # ws2) - 1) div 2) us'))"
      by (rule less.IH[of "(c, f) # ws2" u us' b]) (use less.prems ws ws1 us in simp_all)
    ultimately show ?thesis using ws ws1 us by simp
  qed
qed

text \<open>The list is cut after its first half.\<close>

lemma cut_rep:
  assumes r: "lrep h pv NULL xs" and u: "uniq xs" and n: "2 \<le> length xs"
  defines "k \<equiv> length xs div 2"
  obtains l h' where "middle_loop h (lfirst NULL xs) (lfirst NULL (tl xs)) = Some l"
    "map_option l_next (h l) = Some (lfirst NULL (drop k xs))" "set_next h l NULL = Some h'"
    "lrep h' pv NULL (take k xs)" "lrep h' l NULL (drop k xs)" "same_but (addrs_of (take k xs)) h h'"
proof -
  define us vs where "us = take k xs" and "vs = drop k xs"
  have k: "0 < k" "k < length xs" using n by (simp_all add: k_def)
  have xs: "xs = us @ vs" and us: "us \<noteq> []" and vs: "vs \<noteq> []" using k by (auto simp: us_def vs_def)
  have ru: "lrep h pv (lfirst NULL vs) us" and rv: "lrep h (llast pv us) NULL vs" and uu: "uniq us" "addrs_of us \<inter> addrs_of vs = {}"
    using r u unfolding xs by (simp_all add: lrep_append)
  define l where "l = llast pv us"
  obtain us' x where us': "us = us' @ [x]" using us by (cases us rule: rev_cases) auto
  have l: "l = fst x" by (simp add: l_def us')
  have k1: "(length (tl xs) - 1) div 2 = length us'"
  proof -
    have "length us = k" using k by (simp add: us_def)
    then show ?thesis using n us' unfolding k_def by simp
  qed
  obtain y ys where y: "xs = y # ys" using n by (cases xs) auto
  have "middle_loop h (lfirst NULL xs) (lfirst NULL (tl xs)) = Some (lfirst NULL (drop ((length (tl xs) - 1) div 2) xs))"
  proof (rule middle_rep[OF r _ u])
    show "lrep h (fst y) NULL (tl xs)" using r y by (cases y) simp
    show "uniq (tl xs)" "tl xs \<noteq> []" using u n y by auto
    show "(length (tl xs) - 1) div 2 < length xs" using n by simp
  qed
  also have "drop ((length (tl xs) - 1) div 2) xs = x # vs" unfolding k1 unfolding xs us' by simp
  finally have 1: "middle_loop h (lfirst NULL xs) (lfirst NULL (tl xs)) = Some l" by (simp add: l)
  have 2: "map_option l_next (h l) = Some (lfirst NULL vs)" using ru us' l by (cases x) (simp add: lrep_append)
  obtain h' where h': "set_next h l NULL = Some h'" "lrep h' pv NULL us" "same_but {l} h h'"
    unfolding l_def by (rule set_next_rep[OF ru uu(1) us])
  have lu: "l \<in> addrs_of us" using l us' by simp
  then have "lrep h' l NULL vs" using rv lrep_same[OF h'(3), of vs] uu(2) unfolding l_def by auto
  moreover have "same_but (addrs_of us) h h'" using h'(3) lu by (auto elim: same_but_mono)
  ultimately show thesis using that[OF 1, of h'] 2 h' by (simp add: us_def vs_def)
qed

lemma sort_real_rep:
  assumes "lrep h pv NULL xs" and "uniq xs"
  shows "\<exists>h' pv'. g_list_sort_real h (lfirst NULL xs) compare = Some (h', lfirst NULL (lsort compare xs)) \<and>
    lrep h' pv' NULL (lsort compare xs) \<and> same_but (addrs_of xs) h h' \<and> (pv = NULL \<longrightarrow> pv' = NULL)"
  using assms
proof (induction xs arbitrary: h pv rule: measure_induct_rule[where f = length])
  case (less xs)
  show ?case
  proof (cases "length xs < 2")
    case True
    then consider "xs = []" | a d where "xs = [(a, d)]" by (cases xs; cases "tl xs") auto
    then show ?thesis
      by cases (use less.prems in \<open>(subst g_list_sort_real.simps, simp add: lsort.simps; blast)+\<close>)
  next
    case False
    then have n: "2 \<le> length xs" by simp
    define us vs where "us = take (length xs div 2) xs" and "vs = drop (length xs div 2) xs"
    have len: "length us < length xs" "length vs < length xs" and ne: "us \<noteq> []" "vs \<noteq> []" using n by (auto simp: us_def vs_def)
    have A: "addrs_of xs = addrs_of us \<union> addrs_of vs" and u: "uniq us" "uniq vs" "addrs_of us \<inter> addrs_of vs = {}"
      using less.prems(2) addrs_of_simps(3)[of us vs] uniq_simps(3)[of us vs] by (simp_all add: us_def vs_def)
    obtain l h1 where c: "middle_loop h (lfirst NULL xs) (lfirst NULL (tl xs)) = Some l" "map_option l_next (h l) = Some (lfirst NULL vs)"
      "set_next h l NULL = Some h1" "lrep h1 pv NULL us" "lrep h1 l NULL vs" "same_but (addrs_of us) h h1"
      unfolding us_def vs_def by (rule cut_rep[OF less.prems n])
    obtain e where e: "h l = Some e" "l_next e = lfirst NULL vs" using c(2) by (auto simp: map_option_case split: option.splits)
    obtain h2 p2 where s1: "g_list_sort_real h1 (lfirst NULL us) compare = Some (h2, lfirst NULL (lsort compare us))"
      "lrep h2 p2 NULL (lsort compare us)" "same_but (addrs_of us) h1 h2"
      using less.IH[OF len(1) c(4) u(1)] by blast
    have "lrep h2 l NULL vs" using c(5) lrep_same[OF s1(3) u(3)] by simp
    then obtain h3 p3 where s2: "g_list_sort_real h2 (lfirst NULL vs) compare = Some (h3, lfirst NULL (lsort compare vs))"
      "lrep h3 p3 NULL (lsort compare vs)" "same_but (addrs_of vs) h2 h3"
      using less.IH[OF len(2) _ u(2)] by blast
    have m1: "lrep h3 p2 NULL (lsort compare us)" using s1(2) lrep_same[OF s2(3), of "lsort compare us"] u(3) by (simp add: Int_commute)
    obtain h4 where m: "merge_loop h3 NULL NULL (lfirst NULL (lsort compare us)) (lfirst NULL (lsort compare vs)) compare =
        Some (h4, lfirst NULL (lmerge compare (lsort compare us) (lsort compare vs)))"
      "lrep h4 NULL NULL (lmerge compare (lsort compare us) (lsort compare vs))" "same_but (addrs_of xs) h3 h4"
      using merge_loop_rep[OF _ m1 s2(2), of NULL "[]" compare] u ne A by auto
    have sx: "lsort compare xs = lmerge compare (lsort compare us) (lsort compare vs)"
      using False by (subst lsort.simps) (simp add: us_def vs_def)
    obtain a d ys where xs: "xs = (a, d) # ys" "ys \<noteq> []" using n by (cases xs; cases "tl xs") auto
    have h: "h a = Some \<lparr>l_data = d, l_next = lfirst NULL (tl xs), l_prev = pv\<rparr>" "a \<noteq> NULL" "lfirst NULL (tl xs) \<noteq> NULL"
      using less.prems xs lfirst_NULL[of ys] by simp_all
    have "lfirst NULL (us @ vs) = a" using xs(1) by (simp add: us_def vs_def)
    then have "lfirst NULL us = a" using lfirst_any[OF ne(1), of NULL "lfirst NULL vs"] by simp
    then have p: "lfirst NULL xs = a" "lfirst NULL us = a" using xs by simp_all
    have "g_list_sort_real h a compare = Some (h4, lfirst NULL (lsort compare xs))"
      using h c(1,3)[unfolded p] e s1(1)[unfolded p] s2(1) m(1)
      by (subst g_list_sort_real.simps) (simp add: g_list_sort_merge_def sx)
    moreover have "same_but (addrs_of xs) h h2" using c(6) s1(3) by (rule same_but_trans) (auto simp: A)
    then have "same_but (addrs_of xs) h h3" using s2(3) by (rule same_but_trans) (auto simp: A)
    then have "same_but (addrs_of xs) h h4" using m(3) by (rule same_but_trans) auto
    ultimately show ?thesis using m(2) unfolding p(1) sx by blast
  qed
qed

lemma sort_rep:
  assumes "glist h p xs"
  shows "yields h (g_list_sort_real h p compare) (addrs_of xs) (lsort compare xs)"
proof -
  have r: "lrep h NULL NULL xs" "uniq xs" and p: "p = lfirst NULL xs" using assms by (simp_all add: glist_def)
  obtain h' where "g_list_sort_real h p compare = Some (h', lfirst NULL (lsort compare xs))"
    "lrep h' NULL NULL (lsort compare xs)" "same_but (addrs_of xs) h h'"
    using sort_real_rep[OF r, of compare] p by auto
  then show ?thesis using r(2) by (auto intro: yieldsI)
qed

end
