(* ===== verification/Glib_List_Props.thy ===== *)
theory Glib_List_Props
  imports Glib_List_Sort
begin

text \<open>
  The properties of doubly linked lists. \<open>glist h p xs\<close> is a list in the heap: \<open>p\<close> points to the first of the elements
  \<open>xs\<close>, addresses with their data, which are linked forwards and backwards.
\<close>

text \<open>What the functions find that only read.\<close>

theorem list_reads:
  assumes "glist h p xs" and "length xs \<le> 2147483647"
  shows "g_list_length h p = Some (of_nat (length xs))" "g_list_last h p = Some (llast NULL xs)"
    "g_list_first h (llast NULL xs) = Some p"
    "g_list_nth h p n = Some (lfirst NULL (drop (unat n) xs))"
    "g_list_nth_prev h (llast NULL xs) n = Some (llast NULL (take (length xs - unat n) xs))"
    "g_list_nth_data h p n = Some (if unat n < length xs then snd (xs ! unat n) else NULL)"
    "g_list_find h p data = Some (lfirst NULL (dropWhile (\<lambda>x. snd x \<noteq> data) xs))"
    "g_list_find_custom h p data func = Some (lfirst NULL (dropWhile (\<lambda>x. func (snd x) data \<noteq> 0) xs))"
    "g_list_position h p llink = Some (index_of (\<lambda>x. fst x = llink) xs 0)"
    "g_list_index h p data = Some (index_of (\<lambda>x. snd x = data) xs 0)"
    "g_list_foreach h p f s = Some (fold f (map snd xs) s)"
proof -
  have r: "lrep h NULL NULL xs" "uniq xs" and p: "p = lfirst NULL xs" using assms(1) by (simp_all add: glist_def)
  show "g_list_length h p = Some (of_nat (length xs))" using length_loop_rep[OF r, of 0] by (simp add: g_list_length_def p)
  show "g_list_last h p = Some (llast NULL xs)" using assms(1) by (rule g_list_last_rep)
  show "g_list_first h (llast NULL xs) = Some p"
    using first_loop_rep[OF r] llast_NULL[OF r(2)] p by (cases "xs = []") (simp_all add: g_list_first_def)
  show "g_list_position h p llink = Some (index_of (\<lambda>x. fst x = llink) xs 0)"
    using position_loop_rep[OF r, of 0] assms(2) by (simp add: g_list_position_def p)
  show "g_list_index h p data = Some (index_of (\<lambda>x. snd x = data) xs 0)"
    using index_loop_rep[OF r, of 0] assms(2) by (simp add: g_list_index_def p)
qed (use assms(1) in \<open>auto simp: glist_def nth_data_rep intro: nth_rep nth_prev_rep find_rep find_custom_rep foreach_list_rep\<close>)

text \<open>A list of three elements.\<close>

definition three :: "elem list" where
  "three = [(16, 30), (48, 10), (32, 30)]"

definition three_heap :: lheap where
  "three_heap = [16 \<mapsto> \<lparr>l_data = 30, l_next = 48, l_prev = NULL\<rparr>, 48 \<mapsto> \<lparr>l_data = 10, l_next = 32, l_prev = 16\<rparr>,
     32 \<mapsto> \<lparr>l_data = 30, l_next = NULL, l_prev = 48\<rparr>]"

lemma glist_three: "glist three_heap 16 three"
  by (simp add: glist_def three_def three_heap_def)

section \<open>The properties\<close>

text \<open>C37: sorting a list relinks its elements and no others: they end up in order, none lost and none new, equal ones in
  the order they had, linked in both directions from \<open>NULL\<close> to \<open>NULL\<close>, also with user data.\<close>

theorem list_sort_stable:
  assumes "glist h p xs" and "key_order compare"
  shows "\<exists>h' p' ys. g_list_sort h p compare = Some (h', p') \<and> glist h' p' ys \<and> mset ys = mset xs \<and>
    in_order compare ys \<and> (\<forall>k. filter (\<lambda>x. compare (snd x) k = 0) ys = filter (\<lambda>x. compare (snd x) k = 0) xs) \<and>
    same_but (addrs_of xs) h h' \<and>
    (\<forall>compare' user_data. (\<lambda>a b. compare' a b user_data) = compare \<longrightarrow>
       g_list_sort_with_data h p compare' user_data = Some (h', p'))"
proof -
  obtain h' p' where "g_list_sort_real h p compare = Some (h', p')" "glist h' p' (lsort compare xs)" "same_but (addrs_of xs) h h'"
    by (rule yieldsE[OF sort_rep[OF assms(1), of compare]])
  moreover have "\<forall>k. filter (\<lambda>x. compare (snd x) k = 0) (lsort compare xs) = filter (\<lambda>x. compare (snd x) k = 0) xs"
    using key_order.lsort_stable[OF assms(2)] by blast
  ultimately show ?thesis using key_order.in_order_lsort[OF assms(2), of xs]
    by (intro exI[of _ h'] exI[of _ p'] exI[of _ "lsort compare xs"]) (auto simp: g_list_sort_def g_list_sort_with_data_def)
qed

theorem list_sort_stable_witness:
  "\<exists>h' p' ys. g_list_sort three_heap 16 compare_ints = Some (h', p') \<and> glist h' p' ys \<and> mset ys = mset three \<and>
     in_order compare_ints ys"
  using list_sort_stable[OF glist_three ints.key_order_axioms] by (elim exE conjE) (intro exI conjI)

text \<open>C38: inserting an element puts it where it belongs: at the end, in front, at a position (at the end if there is
  none such), before a sibling, or, in a sorted list, before the first element that it does not come
  after, which keeps the list sorted. Joining two lists appends the second. No element outside the lists changes.\<close>

theorem list_insert_refines:
  assumes "glist h p xs" and "fresh a xs"
  shows "yields h (g_list_append h a p d) (insert a (addrs_of xs)) (xs @ [(a, d)]) \<and>
    yields h (g_list_prepend h a p d) (insert a (addrs_of xs)) ((a, d) # xs) \<and>
    (i < 2147483648 \<longrightarrow> yields h (g_list_insert h a p d i) (insert a (addrs_of xs))
       (let k = if i < 0 then length xs else min (nat i) (length xs) in take k xs @ (a, d) # drop k xs)) \<and>
    (\<forall>us vs. xs = us @ vs \<longrightarrow>
       yields h (g_list_insert_before h a p (lfirst NULL vs) d) (insert a (addrs_of xs)) (us @ (a, d) # vs)) \<and>
    yields h (g_list_insert_sorted h a p d compare) (insert a (addrs_of xs))
      (takeWhile (\<lambda>x. 0 < compare d (snd x)) xs @ (a, d) # dropWhile (\<lambda>x. 0 < compare d (snd x)) xs) \<and>
    (key_order compare \<and> in_order compare xs \<longrightarrow>
       in_order compare (takeWhile (\<lambda>x. 0 < compare d (snd x)) xs @ (a, d) # dropWhile (\<lambda>x. 0 < compare d (snd x)) xs)) \<and>
    (\<forall>q ys. glist h q ys \<and> addrs_of xs \<inter> addrs_of ys = {} \<longrightarrow>
       yields h (g_list_concat h p q) (addrs_of xs \<union> addrs_of ys) (xs @ ys))"
proof (intro conjI allI impI; (elim conjE)?)
  show "yields h (g_list_append h a p d) (insert a (addrs_of xs)) (xs @ [(a, d)])" using assms by (rule append_rep)
  have r: "lrep h NULL NULL ([] @ xs)" "uniq ([] @ xs)" and p: "p = lfirst NULL xs" using assms(1) by (simp_all add: glist_def)
  obtain h' where "g_list_prepend h a (lfirst NULL xs) d = Some (h', a)"
    "yields h (Some (h', lfirst a [])) (insert a (addrs_of ([] @ xs))) ([] @ (a, d) # xs)"
    using prepend_rep[OF r, of a d] assms(2) by auto
  then show "yields h (g_list_prepend h a p d) (insert a (addrs_of xs)) ((a, d) # xs)" by (simp add: p)
  show "yields h (g_list_insert h a p d i) (insert a (addrs_of xs))
       (let k = if i < 0 then length xs else min (nat i) (length xs) in take k xs @ (a, d) # drop k xs)" if "i < 2147483648"
    using insert_list_rep[OF assms that] by (simp only: Let_def)
  show "yields h (g_list_insert_before h a p (lfirst NULL vs) d) (insert a (addrs_of xs)) (us @ (a, d) # vs)" if "xs = us @ vs" for us vs
    using insert_before_rep[of h p us vs a d] assms unfolding that by blast
  show "yields h (g_list_insert_sorted h a p d compare) (insert a (addrs_of xs))
      (takeWhile (\<lambda>x. 0 < compare d (snd x)) xs @ (a, d) # dropWhile (\<lambda>x. 0 < compare d (snd x)) xs)"
    using insert_sorted_rep[OF assms] by (simp only: g_list_insert_sorted_def)
  show "in_order compare (takeWhile (\<lambda>x. 0 < compare d (snd x)) xs @ (a, d) # dropWhile (\<lambda>x. 0 < compare d (snd x)) xs)"
    if "key_order compare" and "in_order compare xs"
    using that by (rule key_order.in_order_insert)
qed (rule concat_rep[OF assms(1)])

theorem list_insert_refines_witness:
  "yields three_heap (g_list_append three_heap 64 16 20) (insert 64 (addrs_of three)) (three @ [(64, 20)]) \<and>
   yields three_heap (g_list_insert three_heap 64 16 20 1) (insert 64 (addrs_of three)) [(16, 30), (64, 20), (48, 10), (32, 30)]"
  using list_insert_refines[OF glist_three, of 64 20 1 compare_ints] by (simp add: fresh_def three_def Let_def)

text \<open>C39: removing the first element with some data, or all of them, or a given element, leaves the others in their
  order and frees what is removed, once, as a second time would have no result; a removed link is not freed and points nowhere. Reversing relinks the
  elements in the opposite order. A copy has the same data, or what the given function makes of it, in new
  elements, and leaves the list as it is. Freeing frees every element, once the given function has been called on
  the data of each.\<close>

theorem list_remove_refines:
  assumes "glist h p xs"
  shows "frees h (g_list_remove h p d) (addrs_of xs) (remove_data d xs) \<and>
    frees h (g_list_remove_all h p d) (addrs_of xs) (filter (\<lambda>x. snd x \<noteq> d) xs) \<and>
    (\<forall>us a e vs. xs = us @ (a, e) # vs \<longrightarrow> frees h (g_list_delete_link h p a) (addrs_of xs) (us @ vs) \<and>
       (\<exists>h' p'. g_list_remove_link h p a = Some (h', p') \<and> glist h' p' (us @ vs) \<and> same_but (addrs_of xs) h h' \<and>
          h' a = Some \<lparr>l_data = e, l_next = NULL, l_prev = NULL\<rparr>)) \<and>
    yields h (g_list_reverse h p) (addrs_of xs) (rev xs) \<and>
    (distinct as \<and> NULL \<notin> set as \<and> set as \<inter> addrs_of xs = {} \<and> length xs \<le> length as \<longrightarrow>
       yields h (g_list_copy h as p) (set as) (zip as (map snd xs)) \<and>
       yields h (g_list_copy_deep h as p (Some f)) (set as) (zip as (map (f \<circ> snd) xs))) \<and>
    g_list_free_full h p = Some (\<lambda>x. if x \<in> addrs_of xs then None else h x, map (Value \<circ> snd) xs)"
proof (intro conjI allI impI; (elim conjE)?)
  have r: "lrep h NULL NULL xs" "uniq xs" and p: "p = lfirst NULL xs" using assms by (simp_all add: glist_def)
  show "frees h (g_list_remove h p d) (addrs_of xs) (remove_data d xs)" using assms by (rule remove_rep)
  show "frees h (g_list_remove_all h p d) (addrs_of xs) (filter (\<lambda>x. snd x \<noteq> d) xs)" using assms by (rule list_remove_all_rep)
  show "yields h (g_list_reverse h p) (addrs_of xs) (rev xs)" using assms by (rule reverse_rep)
  have "fold (\<lambda>d calls. calls @ [Value d]) ds cs = cs @ map Value ds" for ds cs by (induction ds arbitrary: cs) simp_all
  then show "g_list_free_full h p = Some (\<lambda>x. if x \<in> addrs_of xs then None else h x, map (Value \<circ> snd) xs)"
    using foreach_list_rep[OF r, of "\<lambda>d calls. calls @ [Value d]" "[]"] free_rep[OF r] by (simp add: g_list_free_full_def p)
next
  fix us a e vs assume xs: "xs = us @ (a, e) # vs"
  have g: "glist h p (us @ (a, e) # vs)" using assms xs by simp
  show "frees h (g_list_delete_link h p a) (addrs_of xs) (us @ vs)" using delete_link_rep[OF g] xs by simp
  show "\<exists>h' p'. g_list_remove_link h p a = Some (h', p') \<and> glist h' p' (us @ vs) \<and> same_but (addrs_of xs) h h' \<and>
          h' a = Some \<lparr>l_data = e, l_next = NULL, l_prev = NULL\<rparr>"
    using remove_link_rep[OF g] unfolding xs g_list_remove_link_def by metis
next
  assume a: "distinct as" "NULL \<notin> set as" "set as \<inter> addrs_of xs = {}" "length xs \<le> length as"
  have "copied None = snd" "copied (Some f) = f \<circ> snd" by (simp_all add: copied_def fun_eq_iff)
  then show "yields h (g_list_copy h as p) (set as) (zip as (map snd xs))"
    "yields h (g_list_copy_deep h as p (Some f)) (set as) (zip as (map (f \<circ> snd) xs))"
    using copy_rep[OF assms a, of None] copy_rep[OF assms a, of "Some f"] by (simp_all add: g_list_copy_def)
qed

theorem list_remove_refines_witness:
  "frees three_heap (g_list_remove three_heap 16 10) (addrs_of three) [(16, 30), (32, 30)] \<and>
   frees three_heap (g_list_remove_all three_heap 16 30) (addrs_of three) [(48, 10)] \<and>
   yields three_heap (g_list_reverse three_heap 16) (addrs_of three) [(32, 30), (48, 10), (16, 30)] \<and>
   yields three_heap (g_list_copy three_heap [64, 80, 96] 16) {64, 80, 96} [(64, 30), (80, 10), (96, 30)]"
  using list_remove_refines[OF glist_three, of 10 "[64, 80, 96]" id] list_remove_refines[OF glist_three, of 30 "[]" id]
  by (simp add: remove_data_def three_def)

end
