(* ===== verification/Glib_Queue.thy ===== *)
theory Glib_Queue
  imports Glib_List
begin

text \<open>
  Double-ended queues (\<open>gqueue.c\<close>): a list with a pointer to its last element and its length. The functions
  take the heap of the list elements and the queue and return both; the structure of the queue itself is
  a value. \<open>None\<close> stands for a dereference of a pointer to no element, or a failed assertion.
\<close>

record GQueue =
  q_head :: gpointer
  q_tail :: gpointer
  q_length :: u32

definition g_queue_init :: GQueue where
  "g_queue_init = \<lparr>q_head = NULL, q_tail = NULL, q_length = 0\<rparr>"

definition g_queue_new :: GQueue where
  "g_queue_new = \<lparr>q_head = NULL, q_tail = NULL, q_length = 0\<rparr>"

definition g_queue_clear :: "lheap \<Rightarrow> GQueue \<Rightarrow> (lheap \<times> GQueue) option" where
  "g_queue_clear h queue = do { h \<leftarrow> g_list_free h (q_head queue); Some (h, g_queue_init) }"

definition g_queue_free :: "lheap \<Rightarrow> GQueue \<Rightarrow> lheap option" where
  "g_queue_free h queue = g_list_free h (q_head queue)"

definition g_queue_is_empty :: "GQueue \<Rightarrow> bool" where
  "g_queue_is_empty queue \<longleftrightarrow> q_head queue = NULL"

definition g_queue_get_length :: "GQueue \<Rightarrow> u32" where
  "g_queue_get_length queue = q_length queue"

definition g_queue_reverse :: "lheap \<Rightarrow> GQueue \<Rightarrow> (lheap \<times> GQueue) option" where
  "g_queue_reverse h queue = do {
     let queue = queue\<lparr>q_tail := q_head queue\<rparr>;
     (h, head) \<leftarrow> g_list_reverse h (q_head queue);
     Some (h, queue\<lparr>q_head := head\<rparr>) }"

partial_function (option) queue_foreach_loop :: "lheap \<Rightarrow> gpointer \<Rightarrow> (gpointer \<Rightarrow> 's \<Rightarrow> 's) \<Rightarrow> 's \<Rightarrow> 's option" where
  [code]: "queue_foreach_loop h list func s =
    (if list = NULL then Some s else do { e \<leftarrow> h list; queue_foreach_loop h (l_next e) func (func (l_data e) s) })"

definition g_queue_foreach :: "lheap \<Rightarrow> GQueue \<Rightarrow> (gpointer \<Rightarrow> 's \<Rightarrow> 's) \<Rightarrow> 's \<Rightarrow> 's option" where
  "g_queue_foreach h queue func s = queue_foreach_loop h (q_head queue) func s"

definition g_queue_free_full :: "lheap \<Rightarrow> GQueue \<Rightarrow> (lheap \<times> destroyed list) option" where
  "g_queue_free_full h queue = do {
     calls \<leftarrow> g_queue_foreach h queue (\<lambda>d calls. calls @ [Value d]) [];
     h \<leftarrow> g_queue_free h queue;
     Some (h, calls) }"

definition g_queue_find :: "lheap \<Rightarrow> GQueue \<Rightarrow> gpointer \<Rightarrow> gpointer option" where
  "g_queue_find h queue data = g_list_find h (q_head queue) data"

definition g_queue_find_custom :: "lheap \<Rightarrow> GQueue \<Rightarrow> gpointer \<Rightarrow> (gpointer \<Rightarrow> gpointer \<Rightarrow> int) \<Rightarrow> gpointer option" where
  "g_queue_find_custom h queue data func = g_list_find_custom h (q_head queue) data func"

definition g_queue_sort :: "lheap \<Rightarrow> GQueue \<Rightarrow> (gpointer \<Rightarrow> gpointer \<Rightarrow> 'u \<Rightarrow> int) \<Rightarrow> 'u \<Rightarrow> (lheap \<times> GQueue) option" where
  "g_queue_sort h queue compare_func user_data = do {
     (h, head) \<leftarrow> g_list_sort_with_data h (q_head queue) compare_func user_data;
     tail \<leftarrow> g_list_last h head;
     Some (h, queue\<lparr>q_head := head, q_tail := tail\<rparr>) }"

section \<open>Looking\<close>

definition g_queue_peek_head_link :: "GQueue \<Rightarrow> gpointer" where
  "g_queue_peek_head_link queue = q_head queue"

definition g_queue_peek_tail_link :: "GQueue \<Rightarrow> gpointer" where
  "g_queue_peek_tail_link queue = q_tail queue"

text \<open>So many steps in one of the directions.\<close>

primrec steps :: "(GList \<Rightarrow> gpointer) \<Rightarrow> lheap \<Rightarrow> nat \<Rightarrow> gpointer \<Rightarrow> gpointer option" where
  "steps dir h 0 link = Some link"
| "steps dir h (Suc n) link = do { e \<leftarrow> h link; steps dir h n (dir e) }"

definition g_queue_peek_nth_link :: "lheap \<Rightarrow> GQueue \<Rightarrow> u32 \<Rightarrow> gpointer option" where
  "g_queue_peek_nth_link h queue n =
     (if n \<ge> q_length queue then Some NULL
      else if n > q_length queue div 2 then steps l_prev h (unat (q_length queue - n - 1)) (q_tail queue)
      else steps l_next h (unat n) (q_head queue))"

definition g_queue_link_index :: "lheap \<Rightarrow> GQueue \<Rightarrow> gpointer \<Rightarrow> int option" where
  "g_queue_link_index h queue link = g_list_position h (q_head queue) link"

definition link_data :: "lheap \<Rightarrow> gpointer \<Rightarrow> gpointer option" where
  "link_data h link = (if link \<noteq> NULL then map_option l_data (h link) else Some NULL)"

definition g_queue_peek_head :: "lheap \<Rightarrow> GQueue \<Rightarrow> gpointer option" where
  "g_queue_peek_head h queue = link_data h (q_head queue)"

definition g_queue_peek_tail :: "lheap \<Rightarrow> GQueue \<Rightarrow> gpointer option" where
  "g_queue_peek_tail h queue = link_data h (q_tail queue)"

definition g_queue_peek_nth :: "lheap \<Rightarrow> GQueue \<Rightarrow> u32 \<Rightarrow> gpointer option" where
  "g_queue_peek_nth h queue n = do { link \<leftarrow> g_queue_peek_nth_link h queue n; link_data h link }"

definition g_queue_index :: "lheap \<Rightarrow> GQueue \<Rightarrow> gpointer \<Rightarrow> int option" where
  "g_queue_index h queue data = g_list_index h (q_head queue) data"

section \<open>Putting in\<close>

definition g_queue_push_head :: "lheap \<Rightarrow> GQueue \<Rightarrow> gpointer \<Rightarrow> gpointer \<Rightarrow> (lheap \<times> GQueue) option" where
  "g_queue_push_head h queue addr data = do {
     (h, head) \<leftarrow> g_list_prepend h addr (q_head queue) data;
     Some (h, queue\<lparr>q_head := head, q_tail := (if q_tail queue = NULL then head else q_tail queue),
                    q_length := q_length queue + 1\<rparr>) }"

definition g_queue_push_tail :: "lheap \<Rightarrow> GQueue \<Rightarrow> gpointer \<Rightarrow> gpointer \<Rightarrow> (lheap \<times> GQueue) option" where
  "g_queue_push_tail h queue addr data = do {
     (h, tail) \<leftarrow> g_list_append h addr (q_tail queue) data;
     let queue = queue\<lparr>q_tail := tail\<rparr>;
     e \<leftarrow> h (q_tail queue);
     let queue = (if l_next e \<noteq> NULL then queue\<lparr>q_tail := l_next e\<rparr> else queue\<lparr>q_head := q_tail queue\<rparr>);
     Some (h, queue\<lparr>q_length := q_length queue + 1\<rparr>) }"

definition g_queue_insert_before :: "lheap \<Rightarrow> GQueue \<Rightarrow> gpointer \<Rightarrow> gpointer \<Rightarrow> gpointer \<Rightarrow> (lheap \<times> GQueue) option" where
  "g_queue_insert_before h queue addr sibling data =
     (if sibling = NULL then g_queue_push_tail h queue addr data
      else do {
        (h, head) \<leftarrow> g_list_insert_before h addr (q_head queue) sibling data;
        Some (h, queue\<lparr>q_head := head, q_length := q_length queue + 1\<rparr>) })"

definition g_queue_insert_after :: "lheap \<Rightarrow> GQueue \<Rightarrow> gpointer \<Rightarrow> gpointer \<Rightarrow> gpointer \<Rightarrow> (lheap \<times> GQueue) option" where
  "g_queue_insert_after h queue addr sibling data =
     (if sibling = NULL then g_queue_push_head h queue addr data
      else do { e \<leftarrow> h sibling; g_queue_insert_before h queue addr (l_next e) data })"

text \<open>The position is signed and compared with the length as an unsigned number.\<close>

definition g_queue_push_nth :: "lheap \<Rightarrow> GQueue \<Rightarrow> gpointer \<Rightarrow> gpointer \<Rightarrow> int \<Rightarrow> (lheap \<times> GQueue) option" where
  "g_queue_push_nth h queue addr data n =
     (if n < 0 \<or> of_int n \<ge> q_length queue then g_queue_push_tail h queue addr data
      else do {
        sibling \<leftarrow> g_queue_peek_nth_link h queue (of_int n);
        g_queue_insert_before h queue addr sibling data })"

partial_function (option) insert_place ::
    "lheap \<Rightarrow> gpointer \<Rightarrow> gpointer \<Rightarrow> (gpointer \<Rightarrow> gpointer \<Rightarrow> 'u \<Rightarrow> int) \<Rightarrow> 'u \<Rightarrow> gpointer option" where
  [code]: "insert_place h list data func user_data =
    (if list = NULL then Some NULL
     else do {
       e \<leftarrow> h list;
       if func (l_data e) data user_data < 0 then insert_place h (l_next e) data func user_data else Some list })"

definition g_queue_insert_sorted ::
    "lheap \<Rightarrow> GQueue \<Rightarrow> gpointer \<Rightarrow> gpointer \<Rightarrow> (gpointer \<Rightarrow> gpointer \<Rightarrow> 'u \<Rightarrow> int) \<Rightarrow> 'u \<Rightarrow> (lheap \<times> GQueue) option" where
  "g_queue_insert_sorted h queue addr data func user_data = do {
     list \<leftarrow> insert_place h (q_head queue) data func user_data;
     g_queue_insert_before h queue addr list data }"

text \<open>A link that is put in must not be linked already; otherwise there is a warning and nothing is done.\<close>

definition g_queue_push_head_link :: "lheap \<Rightarrow> GQueue \<Rightarrow> gpointer \<Rightarrow> (lheap \<times> GQueue) option" where
  "g_queue_push_head_link h queue link =
     (if link = NULL then Some (h, queue)
      else do {
        e \<leftarrow> h link;
        if l_prev e \<noteq> NULL \<or> l_next e \<noteq> NULL then Some (h, queue)
        else do {
          h \<leftarrow> set_next h link (q_head queue);
          (h, queue) \<leftarrow> (if q_head queue \<noteq> NULL then do { h \<leftarrow> set_prev h (q_head queue) link; Some (h, queue) }
                        else Some (h, queue\<lparr>q_tail := link\<rparr>));
          Some (h, queue\<lparr>q_head := link, q_length := q_length queue + 1\<rparr>) } })"

definition g_queue_push_tail_link :: "lheap \<Rightarrow> GQueue \<Rightarrow> gpointer \<Rightarrow> (lheap \<times> GQueue) option" where
  "g_queue_push_tail_link h queue link =
     (if link = NULL then Some (h, queue)
      else do {
        e \<leftarrow> h link;
        if l_prev e \<noteq> NULL \<or> l_next e \<noteq> NULL then Some (h, queue)
        else do {
          h \<leftarrow> set_prev h link (q_tail queue);
          (h, queue) \<leftarrow> (if q_tail queue \<noteq> NULL then do { h \<leftarrow> set_next h (q_tail queue) link; Some (h, queue) }
                        else Some (h, queue\<lparr>q_head := link\<rparr>));
          Some (h, queue\<lparr>q_tail := link, q_length := q_length queue + 1\<rparr>) } })"

definition g_queue_push_nth_link :: "lheap \<Rightarrow> GQueue \<Rightarrow> int \<Rightarrow> gpointer \<Rightarrow> (lheap \<times> GQueue) option" where
  "g_queue_push_nth_link h queue n link =
     (if link = NULL then Some (h, queue)
      else if n < 0 \<or> of_int n \<ge> q_length queue then g_queue_push_tail_link h queue link
      else if q_head queue = NULL \<or> q_tail queue = NULL then None
      else do {
        next \<leftarrow> g_queue_peek_nth_link h queue (of_int n);
        e \<leftarrow> h next;
        let prev = l_prev e;
        h \<leftarrow> (if prev \<noteq> NULL then set_next h prev link else Some h);
        h \<leftarrow> set_prev h next link;
        h \<leftarrow> set_next h link next;
        h \<leftarrow> set_prev h link prev;
        head \<leftarrow> h (q_head queue);
        let queue = (if l_prev head \<noteq> NULL then queue\<lparr>q_head := l_prev head\<rparr> else queue);
        tail \<leftarrow> h (q_tail queue);
        let queue = (if l_next tail \<noteq> NULL then queue\<lparr>q_tail := l_next tail\<rparr> else queue);
        Some (h, queue\<lparr>q_length := q_length queue + 1\<rparr>) })"

section \<open>Taking out\<close>

definition g_queue_unlink :: "lheap \<Rightarrow> GQueue \<Rightarrow> gpointer \<Rightarrow> (lheap \<times> GQueue) option" where
  "g_queue_unlink h queue link =
     (if link = NULL then Some (h, queue)
      else do {
        queue \<leftarrow> (if link = q_tail queue then do { e \<leftarrow> h (q_tail queue); Some (queue\<lparr>q_tail := l_prev e\<rparr>) } else Some queue);
        (h, head) \<leftarrow> g_list_remove_link h (q_head queue) link;
        Some (h, queue\<lparr>q_head := head, q_length := q_length queue - 1\<rparr>) })"

definition g_queue_delete_link :: "lheap \<Rightarrow> GQueue \<Rightarrow> gpointer \<Rightarrow> (lheap \<times> GQueue) option" where
  "g_queue_delete_link h queue link =
     (if link = NULL then Some (h, queue)
      else do {
        (h, queue) \<leftarrow> g_queue_unlink h queue link;
        h \<leftarrow> g_list_free h link;
        Some (h, queue) })"

definition g_queue_pop_head :: "lheap \<Rightarrow> GQueue \<Rightarrow> (lheap \<times> GQueue \<times> gpointer) option" where
  "g_queue_pop_head h queue =
     (if q_head queue \<noteq> NULL then do {
        let node = q_head queue;
        e \<leftarrow> h node;
        let queue = queue\<lparr>q_head := l_next e\<rparr>;
        (h, queue) \<leftarrow> (if q_head queue \<noteq> NULL then do { h \<leftarrow> set_prev h (q_head queue) NULL; Some (h, queue) }
                      else Some (h, queue\<lparr>q_tail := NULL\<rparr>));
        h \<leftarrow> g_list_free_1 h node;
        Some (h, queue\<lparr>q_length := q_length queue - 1\<rparr>, l_data e) }
      else Some (h, queue, NULL))"

definition g_queue_pop_head_link :: "lheap \<Rightarrow> GQueue \<Rightarrow> (lheap \<times> GQueue \<times> gpointer) option" where
  "g_queue_pop_head_link h queue =
     (if q_head queue \<noteq> NULL then do {
        let node = q_head queue;
        e \<leftarrow> h node;
        let queue = queue\<lparr>q_head := l_next e\<rparr>;
        (h, queue) \<leftarrow> (if q_head queue \<noteq> NULL
          then do { h \<leftarrow> set_prev h (q_head queue) NULL; h \<leftarrow> set_next h node NULL; Some (h, queue) }
          else Some (h, queue\<lparr>q_tail := NULL\<rparr>));
        Some (h, queue\<lparr>q_length := q_length queue - 1\<rparr>, node) }
      else Some (h, queue, NULL))"

definition g_queue_pop_tail :: "lheap \<Rightarrow> GQueue \<Rightarrow> (lheap \<times> GQueue \<times> gpointer) option" where
  "g_queue_pop_tail h queue =
     (if q_tail queue \<noteq> NULL then do {
        let node = q_tail queue;
        e \<leftarrow> h node;
        let queue = queue\<lparr>q_tail := l_prev e\<rparr>;
        (h, queue) \<leftarrow> (if q_tail queue \<noteq> NULL then do { h \<leftarrow> set_next h (q_tail queue) NULL; Some (h, queue) }
                      else Some (h, queue\<lparr>q_head := NULL\<rparr>));
        h \<leftarrow> g_list_free_1 h node;
        Some (h, queue\<lparr>q_length := q_length queue - 1\<rparr>, l_data e) }
      else Some (h, queue, NULL))"

definition g_queue_pop_tail_link :: "lheap \<Rightarrow> GQueue \<Rightarrow> (lheap \<times> GQueue \<times> gpointer) option" where
  "g_queue_pop_tail_link h queue =
     (if q_tail queue \<noteq> NULL then do {
        let node = q_tail queue;
        e \<leftarrow> h node;
        let queue = queue\<lparr>q_tail := l_prev e\<rparr>;
        (h, queue) \<leftarrow> (if q_tail queue \<noteq> NULL
          then do { h \<leftarrow> set_next h (q_tail queue) NULL; h \<leftarrow> set_prev h node NULL; Some (h, queue) }
          else Some (h, queue\<lparr>q_head := NULL\<rparr>));
        Some (h, queue\<lparr>q_length := q_length queue - 1\<rparr>, node) }
      else Some (h, queue, NULL))"

definition g_queue_pop_nth :: "lheap \<Rightarrow> GQueue \<Rightarrow> u32 \<Rightarrow> (lheap \<times> GQueue \<times> gpointer) option" where
  "g_queue_pop_nth h queue n =
     (if n \<ge> q_length queue then Some (h, queue, NULL)
      else do {
        nth_link \<leftarrow> g_queue_peek_nth_link h queue n;
        e \<leftarrow> h nth_link;
        (h, queue) \<leftarrow> g_queue_delete_link h queue nth_link;
        Some (h, queue, l_data e) })"

definition g_queue_pop_nth_link :: "lheap \<Rightarrow> GQueue \<Rightarrow> u32 \<Rightarrow> (lheap \<times> GQueue \<times> gpointer) option" where
  "g_queue_pop_nth_link h queue n =
     (if n \<ge> q_length queue then Some (h, queue, NULL)
      else do {
        link \<leftarrow> g_queue_peek_nth_link h queue n;
        (h, queue) \<leftarrow> g_queue_unlink h queue link;
        Some (h, queue, link) })"

definition g_queue_remove :: "lheap \<Rightarrow> GQueue \<Rightarrow> gpointer \<Rightarrow> (lheap \<times> GQueue \<times> bool) option" where
  "g_queue_remove h queue data = do {
     link \<leftarrow> g_list_find h (q_head queue) data;
     (h, queue) \<leftarrow> (if link \<noteq> NULL then g_queue_delete_link h queue link else Some (h, queue));
     Some (h, queue, link \<noteq> NULL) }"

partial_function (option) queue_remove_loop :: "lheap \<Rightarrow> GQueue \<Rightarrow> gpointer \<Rightarrow> gpointer \<Rightarrow> (lheap \<times> GQueue) option" where
  [code]: "queue_remove_loop h queue list data =
    (if list = NULL then Some (h, queue)
     else do {
       e \<leftarrow> h list;
       (h, queue) \<leftarrow> (if l_data e = data then g_queue_delete_link h queue list else Some (h, queue));
       queue_remove_loop h queue (l_next e) data })"

definition g_queue_remove_all :: "lheap \<Rightarrow> GQueue \<Rightarrow> gpointer \<Rightarrow> (lheap \<times> GQueue \<times> u32) option" where
  "g_queue_remove_all h queue data = do {
     let old_length = q_length queue;
     (h, queue) \<leftarrow> queue_remove_loop h queue (q_head queue) data;
     Some (h, queue, old_length - q_length queue) }"

section \<open>Copying\<close>

text \<open>The addresses of the new elements are an argument; the new queue grows in the same heap.\<close>

partial_function (option) queue_copy_loop :: "lheap \<Rightarrow> GQueue \<Rightarrow> gpointer list \<Rightarrow> gpointer \<Rightarrow> (lheap \<times> GQueue) option" where
  [code]: "queue_copy_loop h result addrs list =
    (if list = NULL then Some (h, result)
     else case addrs of [] \<Rightarrow> None
     | addr # addrs \<Rightarrow> do {
         e \<leftarrow> h list;
         (h, result) \<leftarrow> g_queue_push_tail h result addr (l_data e);
         e \<leftarrow> h list;
         queue_copy_loop h result addrs (l_next e) })"

definition g_queue_copy :: "lheap \<Rightarrow> gpointer list \<Rightarrow> GQueue \<Rightarrow> (lheap \<times> GQueue) option" where
  "g_queue_copy h addrs queue = queue_copy_loop h g_queue_new addrs (q_head queue)"

end
