(* ===== verification/Glib_Queue_Laws.thy ===== *)
theory Glib_Queue_Laws
  imports Glib_Queue Glib_List_Sort
begin

text \<open>
  A queue in the heap, \<open>queue_at\<close>, is a list with the pointer to its last element and its length. The operations are
  taken back to those of lists.
\<close>

definition queue_at :: "lheap \<Rightarrow> GQueue \<Rightarrow> elem list \<Rightarrow> bool" where
  "queue_at h q xs \<longleftrightarrow> glist h (q_head q) xs \<and> q_tail q = llast NULL xs \<and> q_length q = of_nat (length xs) \<and> length xs < 2 ^ 32"

lemma queue_atD:
  assumes "queue_at h q xs"
  shows "glist h (q_head q) xs" "q_head q = lfirst NULL xs" "q_tail q = llast NULL xs" "unat (q_length q) = length xs"
    "lrep h NULL NULL xs" "uniq xs" "q_head q = NULL \<longleftrightarrow> xs = []" "q_tail q = NULL \<longleftrightarrow> xs = []"
proof -
  show g: "glist h (q_head q) xs" and t: "q_tail q = llast NULL xs" using assms by (simp_all add: queue_at_def)
  show "q_head q = lfirst NULL xs" "lrep h NULL NULL xs" and u: "uniq xs" using g by (simp_all add: glist_def)
  show "unat (q_length q) = length xs" using assms by (simp add: queue_at_def unsigned_of_nat take_bit_nat_eq_self)
  show "q_head q = NULL \<longleftrightarrow> xs = []" using glist_NULL[OF g] .
  show "q_tail q = NULL \<longleftrightarrow> xs = []" using llast_NULL[OF u] t by simp
qed

text \<open>What an operation leaves: the queue, the elements that it may touch, and those that it has freed.\<close>

definition queued :: "lheap \<Rightarrow> (lheap \<times> GQueue) option \<Rightarrow> gpointer set \<Rightarrow> elem list \<Rightarrow> bool" where
  "queued h r A ys \<longleftrightarrow> (\<exists>h' q'. r = Some (h', q') \<and> queue_at h' q' ys \<and> same_but A h h' \<and> (\<forall>x \<in> A - addrs_of ys. h' x = None))"

definition queued_out :: "lheap \<Rightarrow> (lheap \<times> GQueue \<times> 'a) option \<Rightarrow> gpointer set \<Rightarrow> elem list \<Rightarrow> 'a \<Rightarrow> bool" where
  "queued_out h r A ys out \<longleftrightarrow>
     (\<exists>h' q'. r = Some (h', q', out) \<and> queue_at h' q' ys \<and> same_but A h h' \<and> (\<forall>x \<in> A - addrs_of ys. h' x = None))"

lemma queuedI:
  assumes "r = Some (h', q')" and "queue_at h' q' ys" and "same_but A h h'" and "\<And>x. x \<in> A - addrs_of ys \<Longrightarrow> h' x = None"
  shows "queued h r A ys"
  using assms by (auto simp: queued_def)

lemma queued_out_queued: "queued_out h r A ys out \<longleftrightarrow> (\<exists>h' q'. r = Some (h', q', out) \<and> queued h (Some (h', q')) A ys)"
  by (auto simp: queued_out_def queued_def)

lemma queue_atI:
  assumes "glist h (q_head q) xs" and "q_tail q = llast NULL xs" and "q_length q = of_nat (length xs)" and "length xs < 2 ^ 32"
  shows "queue_at h q xs"
  using assms by (simp add: queue_at_def)

section \<open>Looking\<close>

lemma steps_next: "lrep h pv NULL xs \<Longrightarrow> k \<le> length xs \<Longrightarrow> steps l_next h k (lfirst NULL xs) = Some (lfirst NULL (drop k xs))"
proof (induction k arbitrary: xs pv)
  case (Suc k)
  then obtain x ys where xs: "xs = x # ys" by (cases xs) auto
  then show ?case using Suc.IH[of "fst x" ys] Suc.prems by (cases x) simp
qed simp

lemma steps_prev:
  "lrep h NULL nx xs \<Longrightarrow> k \<le> length xs \<Longrightarrow> steps l_prev h k (llast NULL xs) = Some (llast NULL (take (length xs - k) xs))"
proof (induction k arbitrary: xs nx)
  case (Suc k)
  then obtain x ys where xs: "xs = ys @ [x]" by (cases xs rule: rev_cases) auto
  then show ?case using Suc.IH[of "fst x" ys] Suc.prems by (cases x) (simp add: lrep_append)
qed simp

lemma peek_nth_link_rep:
  assumes q: "queue_at h q xs"
  shows "g_queue_peek_nth_link h q n = Some (lfirst NULL (drop (unat n) xs))"
proof -
  note d = queue_atD[OF q]
  show ?thesis
  proof (cases "n < q_length q")
    case False
    then have "length xs \<le> unat n" using d(4) by (simp add: word_less_nat_alt)
    then show ?thesis using False by (simp add: g_queue_peek_nth_link_def not_less)
  next
    case True
    then have n: "unat n < length xs" using d(4) by (simp add: word_less_nat_alt)
    have "unat (q_length q - n) = length xs - unat n" using True d(4) by (simp add: unat_sub word_le_nat_alt word_less_nat_alt)
    moreover have "1 \<le> q_length q - n" using calculation n by (simp add: word_le_nat_alt)
    ultimately have k: "unat (q_length q - n - 1) = length xs - unat n - 1" by (simp add: unat_sub)
    have "length xs - (length xs - unat n - 1) = Suc (unat n)" using n by simp
    then have "llast NULL (take (length xs - (length xs - unat n - 1)) xs) = fst (xs ! unat n)" using n by (simp add: take_Suc_conv_app_nth)
    moreover have "lfirst NULL (drop (unat n) xs) = fst (xs ! unat n)" using n by (simp add: Cons_nth_drop_Suc[symmetric])
    moreover have "steps l_prev h (length xs - unat n - 1) (q_tail q) = Some (llast NULL (take (length xs - (length xs - unat n - 1)) xs))"
      unfolding d(3) using d(5) by (rule steps_prev) simp
    moreover have "steps l_next h (unat n) (q_head q) = Some (lfirst NULL (drop (unat n) xs))"
      unfolding d(2) using d(5) by (rule steps_next) (use n in simp)
    ultimately show ?thesis using True not_le[of "q_length q" n] unfolding g_queue_peek_nth_link_def k by simp
  qed
qed

lemma link_data_rep:
  assumes "lrep h pv NULL xs" and "uniq xs"
  shows "link_data h (lfirst NULL xs) = Some (case xs of [] \<Rightarrow> NULL | x # _ \<Rightarrow> snd x)"
  using assms by (cases xs) (auto simp: link_data_def)

lemma peek_rep:
  assumes q: "queue_at h q xs"
  shows "g_queue_peek_head h q = Some (if xs = [] then NULL else snd (hd xs))"
    "g_queue_peek_tail h q = Some (if xs = [] then NULL else snd (last xs))"
    "g_queue_peek_nth h q n = Some (if unat n < length xs then snd (xs ! unat n) else NULL)"
proof -
  note d = queue_atD[OF q]
  show "g_queue_peek_head h q = Some (if xs = [] then NULL else snd (hd xs))"
    using link_data_rep[OF d(5,6)] by (cases xs) (simp_all add: g_queue_peek_head_def d(2))
  show "g_queue_peek_tail h q = Some (if xs = [] then NULL else snd (last xs))"
  proof (cases xs rule: rev_cases)
    case (snoc ys x)
    obtain a e where x: "x = (a, e)" by (cases x)
    then have "h a = Some \<lparr>l_data = e, l_next = NULL, l_prev = llast NULL ys\<rparr>" "a \<noteq> NULL" using d(5,6) snoc by (simp_all add: lrep_append)
    then show ?thesis using snoc x by (simp add: g_queue_peek_tail_def d(3) link_data_def)
  qed (simp add: g_queue_peek_tail_def d(3) link_data_def)
  let ?us = "take (unat n) xs" and ?vs = "drop (unat n) xs"
  have "lrep h NULL NULL (?us @ ?vs)" "uniq (?us @ ?vs)" using d(5,6) by simp_all
  then have "lrep h (llast NULL ?us) NULL ?vs" "uniq ?vs" unfolding lrep_append uniq_simps by blast+
  then have "g_queue_peek_nth h q n = Some (case ?vs of [] \<Rightarrow> NULL | x # _ \<Rightarrow> snd x)"
    by (simp add: g_queue_peek_nth_def peek_nth_link_rep[OF q] link_data_rep)
  moreover have "(case ?vs of [] \<Rightarrow> NULL | x # _ \<Rightarrow> snd x) = (if unat n < length xs then snd (xs ! unat n) else NULL)"
    by (cases "unat n < length xs") (simp_all flip: Cons_nth_drop_Suc)
  ultimately show "g_queue_peek_nth h q n = Some (if unat n < length xs then snd (xs ! unat n) else NULL)" by simp
qed

lemma queue_foreach_rep:
  "lrep h pv NULL xs \<Longrightarrow> uniq xs \<Longrightarrow> queue_foreach_loop h (lfirst NULL xs) func s = Some (fold func (map snd xs) s)"
proof (induction xs arbitrary: pv s)
  case (Cons x xs)
  obtain a d where x: "x = (a, d)" by (cases x)
  then show ?case using Cons by (subst queue_foreach_loop.simps) auto
qed (subst queue_foreach_loop.simps, simp)

section \<open>Putting in\<close>

lemma push_head_rep:
  assumes q: "queue_at h q xs" and f: "fresh a xs" and n: "length xs < 2 ^ 32 - 1"
  shows "queued h (g_queue_push_head h q a d) (insert a (addrs_of xs)) ((a, d) # xs)"
proof -
  note D = queue_atD[OF q]
  obtain h' where h': "g_list_prepend h a (lfirst NULL xs) d = Some (h', a)"
    "yields h (Some (h', lfirst a [])) (insert a (addrs_of ([] @ xs))) ([] @ (a, d) # xs)"
    using prepend_rep[of h "[]" xs a d] D(5,6) f by auto
  then have g: "glist h' a ((a, d) # xs)" "same_but (insert a (addrs_of xs)) h h'" by (auto simp: yields_def)
  have "llast a xs = (if q_tail q = NULL then a else q_tail q)" using D(3,8) llast_any[of xs a NULL] by (cases "xs = []") simp_all
  then have "queue_at h' (q\<lparr>q_head := a, q_tail := (if q_tail q = NULL then a else q_tail q), q_length := q_length q + 1\<rparr>) ((a, d) # xs)"
    using q g(1) n by (intro queue_atI) (simp_all add: queue_at_def)
  then show ?thesis using h'(1) g(2) D(2) by (intro queuedI) (auto simp: g_queue_push_head_def)
qed

text \<open>\<open>g_list_append\<close> is given the last element, and returns it.\<close>

lemma append_at_last:
  assumes g: "glist h p xs" and ne: "xs \<noteq> []" and f: "fresh a xs"
  obtains h' where "g_list_append h a (llast NULL xs) d = Some (h', llast NULL xs)" "glist h' p (xs @ [(a, d)])"
    "same_but (insert a (addrs_of xs)) h h'"
proof -
  define l where "l = llast NULL xs"
  define h1 where "h1 = h(a \<mapsto> \<lparr>l_data = d, l_next = NULL, l_prev = NULL\<rparr>)"
  have u: "uniq xs" using g by (simp add: glist_def)
  have g1: "glist h1 p xs" using g f by (simp add: glist_def h1_def fresh_def lrep_upd)
  have l0: "l \<noteq> NULL" using llast_NULL[OF u] ne by (simp add: l_def)
  obtain ys b e where xs: "xs = ys @ [(b, e)]" using ne by (cases xs rule: rev_cases) auto
  then have "h1 l = Some \<lparr>l_data = e, l_next = NULL, l_prev = llast NULL ys\<rparr>" using g1 by (simp add: glist_def lrep_append l_def)
  then have "last_loop h1 l = Some l" by (subst last_loop.simps) simp
  then have 1: "g_list_last h1 l = Some l" using l0 by (simp add: g_list_last_def)
  obtain h' p' where r: "g_list_append h a p d = Some (h', p')" "glist h' p' (xs @ [(a, d)])" "same_but (insert a (addrs_of xs)) h h'"
    by (rule yieldsE[OF append_rep[OF g f, of d]])
  have p: "p \<noteq> NULL" using glist_NULL[OF g] ne by simp
  have "p' = p" using r(2) g lfirst_any[OF ne, of a NULL] by (simp add: glist_def)
  moreover have "g_list_append h a l d = map_option (\<lambda>(h, _). (h, l)) (g_list_append h a p d)"
    using 1 g_list_last_rep[OF g1] l0 p
    by (simp add: g_list_append_def Let_def flip: h1_def l_def) (auto split: bind_splits)
  ultimately show thesis using that r by (simp flip: l_def)
qed

lemma push_tail_rep:
  assumes q: "queue_at h q xs" and f: "fresh a xs" and n: "length xs < 2 ^ 32 - 1"
  shows "queued h (g_queue_push_tail h q a d) (insert a (addrs_of xs)) (xs @ [(a, d)])"
proof -
  note D = queue_atD[OF q]
  show ?thesis
  proof (cases "xs = []")
    case True
    then have t: "q_tail q = NULL" using D by simp
    let ?n = "\<lparr>l_data = d, l_next = NULL, l_prev = NULL\<rparr>"
    have "g_queue_push_tail h q a d = Some (h(a \<mapsto> ?n), q\<lparr>q_head := a, q_tail := a, q_length := q_length q + 1\<rparr>)"
      using t by (simp add: g_queue_push_tail_def g_list_append_def)
    moreover have "queue_at (h(a \<mapsto> ?n)) (q\<lparr>q_head := a, q_tail := a, q_length := q_length q + 1\<rparr>) [(a, d)]"
      using q True f by (intro queue_atI) (simp_all add: queue_at_def glist_def fresh_def)
    ultimately show ?thesis using True by (intro queuedI) auto
  next
    case False
    obtain h' where h': "g_list_append h a (llast NULL xs) d = Some (h', llast NULL xs)" "glist h' (q_head q) (xs @ [(a, d)])"
      "same_but (insert a (addrs_of xs)) h h'"
      by (rule append_at_last[OF D(1) False f])
    obtain ys b e where xs: "xs = ys @ [(b, e)]" using False by (cases xs rule: rev_cases) auto
    then have "h' (llast NULL xs) = Some \<lparr>l_data = e, l_next = a, l_prev = llast NULL ys\<rparr>" using h'(2) by (simp add: glist_def lrep_append)
    moreover have "a \<noteq> NULL" using f by (simp add: fresh_def)
    ultimately have "g_queue_push_tail h q a d = Some (h', q\<lparr>q_tail := a, q_length := q_length q + 1\<rparr>)"
      using h'(1) by (simp add: g_queue_push_tail_def D(3))
    moreover have "queue_at h' (q\<lparr>q_tail := a, q_length := q_length q + 1\<rparr>) (xs @ [(a, d)])"
      using q h'(2) n by (intro queue_atI) (simp_all add: queue_at_def)
    ultimately show ?thesis using h'(3) by (intro queuedI) auto
  qed
qed

lemma queue_insert_before_rep:
  assumes q: "queue_at h q (us @ vs)" and f: "fresh a (us @ vs)" and n: "length (us @ vs) < 2 ^ 32 - 1"
  shows "queued h (g_queue_insert_before h q a (lfirst NULL vs) d) (insert a (addrs_of (us @ vs))) (us @ (a, d) # vs)"
proof (cases "vs = []")
  case True
  then show ?thesis using push_tail_rep[OF q f n, of d] by (simp add: g_queue_insert_before_def)
next
  case False
  note D = queue_atD[OF q]
  have "lfirst NULL vs \<noteq> NULL" using D(6) False lfirst_NULL[of vs] by simp
  moreover obtain h' p' where r: "g_list_insert_before h a (q_head q) (lfirst NULL vs) d = Some (h', p')"
    "glist h' p' (us @ (a, d) # vs)" "same_but (insert a (addrs_of (us @ vs))) h h'"
    by (rule yieldsE[OF insert_before_rep[OF D(1) f, of d]])
  ultimately have "g_queue_insert_before h q a (lfirst NULL vs) d = Some (h', q\<lparr>q_head := p', q_length := q_length q + 1\<rparr>)"
    by (simp add: g_queue_insert_before_def)
  moreover have "llast a vs = llast (llast NULL us) vs" using False by (rule llast_any)
  then have "queue_at h' (q\<lparr>q_head := p', q_length := q_length q + 1\<rparr>) (us @ (a, d) # vs)"
    using q r(2) n by (intro queue_atI) (simp_all add: queue_at_def)
  ultimately show ?thesis using r(3) by (intro queuedI) auto
qed

lemma queue_insert_after_rep:
  assumes q: "queue_at h q (us @ (b, e) # vs)" and f: "fresh a (us @ (b, e) # vs)" and n: "length (us @ (b, e) # vs) < 2 ^ 32 - 1"
  shows "queued h (g_queue_insert_after h q a b d) (insert a (addrs_of (us @ (b, e) # vs))) (us @ (b, e) # (a, d) # vs)"
proof -
  have "h b = Some \<lparr>l_data = e, l_next = lfirst NULL vs, l_prev = llast NULL us\<rparr>" "b \<noteq> NULL"
    using queue_atD(5,6)[OF q] by (simp_all add: lrep_append)
  then show ?thesis using queue_insert_before_rep[of h q "us @ [(b, e)]" vs a d] q f n by (simp add: g_queue_insert_after_def)
qed

lemma push_nth_rep:
  assumes q: "queue_at h q xs" and f: "fresh a xs" and n: "length xs < 2 ^ 32 - 1" and i: "i < 2147483648"
  defines "k \<equiv> if i < 0 then length xs else min (nat i) (length xs)"
  shows "queued h (g_queue_push_nth h q a d i) (insert a (addrs_of xs)) (take k xs @ (a, d) # drop k xs)"
proof (cases "i < 0 \<or> of_int i \<ge> q_length q")
  case True
  have "k = length xs"
  proof (cases "i < 0")
    case False
    then have "length xs \<le> nat i" using True unat_gint[of i] i queue_atD(4)[OF q] by (simp add: word_le_nat_alt)
    then show ?thesis using False by (simp add: k_def)
  qed (simp add: k_def)
  then show ?thesis using push_tail_rep[OF q f n, of d] True by (simp add: g_queue_push_nth_def)
next
  case False
  then have "nat i < length xs" using unat_gint[of i] i queue_atD(4)[OF q] by (simp add: word_le_nat_alt)
  then have k: "k = nat i" "unat (of_int i :: u32) = k" using False unat_gint[of i] i by (simp_all add: k_def)
  define us vs where "us = take k xs" and "vs = drop k xs"
  have xs: "xs = us @ vs" by (simp add: us_def vs_def)
  have "g_queue_peek_nth_link h q (of_int i) = Some (lfirst NULL vs)" using peek_nth_link_rep[OF q] k(2) by (simp add: vs_def)
  then have r: "g_queue_push_nth h q a d i = g_queue_insert_before h q a (lfirst NULL vs) d"
    using False by (simp add: g_queue_push_nth_def)
  show ?thesis
    using queue_insert_before_rep[OF q[unfolded xs] f[unfolded xs] n[unfolded xs], of d]
    unfolding r xs[symmetric] by (simp only: us_def vs_def)
qed

lemma insert_place_rep:
  "lrep h pv NULL xs \<Longrightarrow> uniq xs \<Longrightarrow>
   insert_place h (lfirst NULL xs) d func user_data = Some (lfirst NULL (dropWhile (\<lambda>x. func (snd x) d user_data < 0) xs))"
proof (induction xs arbitrary: pv)
  case (Cons x xs)
  obtain a e where x: "x = (a, e)" by (cases x)
  then show ?case using Cons by (subst insert_place.simps) auto
qed (subst insert_place.simps, simp)

lemma queue_insert_sorted_rep:
  assumes q: "queue_at h q xs" and f: "fresh a xs" and n: "length xs < 2 ^ 32 - 1"
  shows "queued h (g_queue_insert_sorted h q a d func user_data) (insert a (addrs_of xs))
    (takeWhile (\<lambda>x. func (snd x) d user_data < 0) xs @ (a, d) # dropWhile (\<lambda>x. func (snd x) d user_data < 0) xs)"
proof -
  let ?us = "takeWhile (\<lambda>x. func (snd x) d user_data < 0) xs" and ?vs = "dropWhile (\<lambda>x. func (snd x) d user_data < 0) xs"
  note D = queue_atD[OF q]
  have "insert_place h (q_head q) d func user_data = Some (lfirst NULL ?vs)"
    unfolding D(2) using D(5,6) by (rule insert_place_rep)
  then have "g_queue_insert_sorted h q a d func user_data = g_queue_insert_before h q a (lfirst NULL ?vs) d"
    by (simp add: g_queue_insert_sorted_def)
  then show ?thesis using queue_insert_before_rep[of h q ?us ?vs a d] q f n by simp
qed

section \<open>Taking out\<close>

lemma tail_at_end:
  assumes q: "queue_at h q (us @ (a, d) # vs)"
  shows "a = q_tail q \<longleftrightarrow> vs = []"
proof -
  note D = queue_atD[OF q]
  show ?thesis
  proof (cases "vs = []")
    case False
    then have "q_tail q \<in> addrs_of vs" using D(3) llast_mem[OF False, of a] by (simp add: addrs_of_def)
    then show ?thesis using D(6) False by auto
  qed (use D(3) in simp)
qed

lemma length_minus: "(of_nat (length (us @ x # vs)) :: u32) - 1 = of_nat (length (us @ vs))"
  by simp

text \<open>An element is unlinked, and then stands alone.\<close>

lemma unlink_rep:
  assumes q: "queue_at h q (us @ (a, d) # vs)"
  obtains h' q' where "g_queue_unlink h q a = Some (h', q')" "queue_at h' q' (us @ vs)"
    "same_but (addrs_of (us @ (a, d) # vs)) h h'" "h' a = Some \<lparr>l_data = d, l_next = NULL, l_prev = NULL\<rparr>"
proof -
  note D = queue_atD[OF q]
  have ha: "h a = Some \<lparr>l_data = d, l_next = lfirst NULL vs, l_prev = llast NULL us\<rparr>" "a \<noteq> NULL"
    using elem_at[OF D(5)] D(6) by simp_all
  obtain h' p' where r: "remove_link h (q_head q) a = Some (h', p')" "glist h' p' (us @ vs)"
    "same_but (addrs_of (us @ (a, d) # vs)) h h'" "h' a = Some \<lparr>l_data = d, l_next = NULL, l_prev = NULL\<rparr>"
    by (rule remove_link_rep[OF D(1)])
  define t where "t = (if vs = [] then llast NULL us else q_tail q)"
  have 1: "(if a = q_tail q then Option.bind (h (q_tail q)) (\<lambda>e. Some (q\<lparr>q_tail := l_prev e\<rparr>)) else Some q) = Some (q\<lparr>q_tail := t\<rparr>)"
    using tail_at_end[OF q] ha by (auto simp: t_def)
  have "g_queue_unlink h q a = Some (h', q\<lparr>q_tail := t, q_head := p', q_length := q_length q - 1\<rparr>)"
    unfolding g_queue_unlink_def 1 using ha(2) r(1) by (simp add: g_list_remove_link_def)
  moreover have "t = llast NULL (us @ vs)" using D(3) llast_any[of vs a "llast NULL us"] by (simp add: t_def)
  then have "queue_at h' (q\<lparr>q_tail := t, q_head := p', q_length := q_length q - 1\<rparr>) (us @ vs)"
    using q r(2) by (intro queue_atI) (simp_all add: queue_at_def)
  ultimately show thesis using that r(3,4) by blast
qed

lemma queue_delete_link_rep:
  assumes q: "queue_at h q (us @ (a, d) # vs)"
  shows "queued h (g_queue_delete_link h q a) (addrs_of (us @ (a, d) # vs)) (us @ vs)"
proof -
  obtain h' q' where r: "g_queue_unlink h q a = Some (h', q')" "queue_at h' q' (us @ vs)"
    "same_but (addrs_of (us @ (a, d) # vs)) h h'" "h' a = Some \<lparr>l_data = d, l_next = NULL, l_prev = NULL\<rparr>"
    by (rule unlink_rep[OF q])
  have u: "uniq (us @ (a, d) # vs)" and a: "a \<noteq> NULL" using queue_atD(6)[OF q] by simp_all
  have "g_list_free h' a = Some (h'(a := None))"
    using r(4) a by (subst g_list_free.simps) (simp, subst g_list_free.simps, simp)
  then have "g_queue_delete_link h q a = Some (h'(a := None), q')" using r(1) a by (simp add: g_queue_delete_link_def)
  moreover have "queue_at (h'(a := None)) q' (us @ vs)" using r(2) u by (simp add: queue_at_def glist_def lrep_upd)
  moreover have "same_but (addrs_of (us @ (a, d) # vs)) h (h'(a := None))" using r(3) by simp
  ultimately show ?thesis by (rule queuedI) auto
qed

text \<open>The ends: the neighbour, if there is one, loses its link.\<close>

lemma first_gone:
  assumes g: "glist h a ((a, d) # xs)"
  obtains h' where "(if lfirst NULL xs \<noteq> NULL then set_prev h (lfirst NULL xs) NULL else Some h) = Some h'"
    "glist h' (lfirst NULL xs) xs" "h a = Some \<lparr>l_data = d, l_next = lfirst NULL xs, l_prev = NULL\<rparr>" "h' a = h a"
    "same_but (addrs_of xs) h h'"
proof -
  have r: "lrep h a NULL xs" "uniq xs" "a \<notin> addrs_of xs" and ha: "h a = Some \<lparr>l_data = d, l_next = lfirst NULL xs, l_prev = NULL\<rparr>"
    using g by (simp_all add: glist_def)
  show thesis
  proof (cases "xs = []")
    case True
    then show thesis using that[of h] ha by simp
  next
    case False
    obtain h' where h': "set_prev h (lfirst NULL xs) NULL = Some h'" "lrep h' NULL NULL xs" "same_but {lfirst NULL xs} h h'"
      by (rule set_prev_rep[OF r(1,2) False])
    have m: "lfirst NULL xs \<in> addrs_of xs" using lfirst_mem[OF False] by (simp add: addrs_of_def)
    then have "h' a = h a" using h'(3) r(3) unfolding same_but_def by (metis singletonD)
    moreover have "same_but (addrs_of xs) h h'" using h'(3) m by (auto elim: same_but_mono)
    ultimately show thesis using that[of h'] h' r(2) ha False lfirst_NULL[OF r(2)] by (simp add: glist_def)
  qed
qed

lemma last_gone:
  assumes g: "glist h p (xs @ [(a, d)])"
  obtains h' where "(if llast NULL xs \<noteq> NULL then set_next h (llast NULL xs) NULL else Some h) = Some h'"
    "glist h' (lfirst NULL xs) xs" "h a = Some \<lparr>l_data = d, l_next = NULL, l_prev = llast NULL xs\<rparr>" "h' a = h a"
    "same_but (addrs_of xs) h h'"
proof -
  have r: "lrep h NULL a xs" "uniq xs" "a \<notin> addrs_of xs" and ha: "h a = Some \<lparr>l_data = d, l_next = NULL, l_prev = llast NULL xs\<rparr>"
    using g by (simp_all add: glist_def lrep_append)
  show thesis
  proof (cases "xs = []")
    case True
    then show thesis using that[of h] ha by simp
  next
    case False
    obtain h' where h': "set_next h (llast NULL xs) NULL = Some h'" "lrep h' NULL NULL xs" "same_but {llast NULL xs} h h'"
      by (rule set_next_rep[OF r(1,2) False])
    have m: "llast NULL xs \<in> addrs_of xs" using llast_mem[OF False] by (simp add: addrs_of_def)
    then have "h' a = h a" using h'(3) r(3) unfolding same_but_def by (metis singletonD)
    moreover have "same_but (addrs_of xs) h h'" using h'(3) m by (auto elim: same_but_mono)
    ultimately show thesis using that[of h'] h' r(2) ha False llast_NULL[OF r(2)] by (simp add: glist_def)
  qed
qed

lemma glist_free_other: "glist h p xs \<Longrightarrow> a \<notin> addrs_of xs \<Longrightarrow> glist (h(a := n)) p xs"
  by (simp add: glist_def lrep_upd)

lemma pop_head_rep:
  assumes q: "queue_at h q xs"
  shows "queued_out h (g_queue_pop_head h q) (addrs_of xs) (tl xs) (if xs = [] then NULL else snd (hd xs))"
proof (cases xs)
  case Nil
  then show ?thesis using q queue_atD(7)[OF q] by (simp add: g_queue_pop_head_def queued_out_def)
next
  case (Cons x ys)
  obtain a d where xs: "xs = (a, d) # ys" using Cons by (cases x) auto
  note D = queue_atD[OF q, unfolded xs]
  have p: "q_head q = a" "a \<noteq> NULL" and a: "a \<notin> addrs_of ys" using D by simp_all
  obtain h' where h': "(if lfirst NULL ys \<noteq> NULL then set_prev h (lfirst NULL ys) NULL else Some h) = Some h'"
    "glist h' (lfirst NULL ys) ys" "h a = Some \<lparr>l_data = d, l_next = lfirst NULL ys, l_prev = NULL\<rparr>" "h' a = h a"
    "same_but (addrs_of ys) h h'"
    by (rule first_gone[of h a d ys]) (use D(1) p in simp)
  define q' where "q' = q\<lparr>q_head := lfirst NULL ys, q_tail := llast NULL ys, q_length := q_length q - 1\<rparr>"
  obtain e where e: "h' a = Some e" using h'(3,4) by simp
  have "g_queue_pop_head h q = Some (h'(a := None), q', d)"
  proof (cases "ys = []")
    case True
    then show ?thesis using h'(1,3) e p by (simp add: g_queue_pop_head_def q'_def g_list_free_1_def)
  next
    case False
    then have "lfirst NULL ys \<noteq> NULL" "q_tail q = llast NULL ys" using D(3,6) lfirst_NULL[of ys] llast_any[of ys a NULL] by simp_all
    then show ?thesis using h'(1,3) e p by (simp add: g_queue_pop_head_def q'_def g_list_free_1_def)
  qed
  moreover have "queue_at (h'(a := None)) q' ys"
    using q h'(2) a unfolding xs by (intro queue_atI) (simp_all add: q'_def queue_at_def glist_free_other)
  moreover have "same_but (addrs_of xs) h (h'(a := None))"
    using h'(5) by (subst same_but_upd) (auto simp: xs elim: same_but_mono)
  ultimately show ?thesis using a unfolding queued_out_def xs by (intro exI[of _ "h'(a := None)"] exI[of _ q']) auto
qed

lemma pop_tail_rep:
  assumes q: "queue_at h q xs"
  shows "queued_out h (g_queue_pop_tail h q) (addrs_of xs) (butlast xs) (if xs = [] then NULL else snd (last xs))"
proof (cases xs rule: rev_cases)
  case Nil
  then show ?thesis using q queue_atD(8)[OF q] by (simp add: g_queue_pop_tail_def queued_out_def)
next
  case (snoc ys x)
  obtain a d where xs: "xs = ys @ [(a, d)]" using snoc by (cases x) auto
  note D = queue_atD[OF q, unfolded xs]
  have t: "q_tail q = a" "a \<noteq> NULL" and a: "a \<notin> addrs_of ys" using D by simp_all
  obtain h' where h': "(if llast NULL ys \<noteq> NULL then set_next h (llast NULL ys) NULL else Some h) = Some h'"
    "glist h' (lfirst NULL ys) ys" "h a = Some \<lparr>l_data = d, l_next = NULL, l_prev = llast NULL ys\<rparr>" "h' a = h a"
    "same_but (addrs_of ys) h h'"
    by (rule last_gone[OF D(1)])
  define q' where "q' = q\<lparr>q_head := lfirst NULL ys, q_tail := llast NULL ys, q_length := q_length q - 1\<rparr>"
  obtain e where e: "h' a = Some e" using h'(3,4) by simp
  have "g_queue_pop_tail h q = Some (h'(a := None), q', d)"
  proof (cases "ys = []")
    case True
    then show ?thesis using h'(1,3) e t by (simp add: g_queue_pop_tail_def q'_def g_list_free_1_def)
  next
    case False
    then have "llast NULL ys \<noteq> NULL" "q_head q = lfirst NULL ys" using D(2,6) llast_NULL[of ys] lfirst_any[of ys a NULL] by simp_all
    then show ?thesis using h'(1,3) e t by (simp add: g_queue_pop_tail_def q'_def g_list_free_1_def)
  qed
  moreover have "queue_at (h'(a := None)) q' ys"
    using q h'(2) a unfolding xs by (intro queue_atI) (simp_all add: q'_def queue_at_def glist_free_other)
  moreover have "same_but (addrs_of xs) h (h'(a := None))"
    using h'(5) by (subst same_but_upd) (auto simp: xs elim: same_but_mono)
  ultimately show ?thesis using a unfolding queued_out_def xs by (intro exI[of _ "h'(a := None)"] exI[of _ q']) auto
qed

lemma pop_nth_rep:
  assumes q: "queue_at h q xs"
  shows "queued_out h (g_queue_pop_nth h q n) (addrs_of xs) (take (unat n) xs @ drop (Suc (unat n)) xs)
    (if unat n < length xs then snd (xs ! unat n) else NULL)"
proof (cases "unat n < length xs")
  case False
  then have "q_length q \<le> n" using queue_atD(4)[OF q] by (simp add: word_le_nat_alt)
  then show ?thesis using False q by (simp add: g_queue_pop_nth_def queued_out_def)
next
  case True
  then have n: "\<not> q_length q \<le> n" using queue_atD(4)[OF q] by (simp add: word_le_nat_alt)
  define us vs where "us = take (unat n) xs" and "vs = drop (Suc (unat n)) xs"
  obtain a d where ad: "xs ! unat n = (a, d)" by (cases "xs ! unat n")
  have xs: "xs = us @ (a, d) # vs" and dr: "drop (unat n) xs = (a, d) # vs"
    using True ad id_take_nth_drop[of "unat n" xs] Cons_nth_drop_Suc[OF True] by (simp_all add: us_def vs_def)
  obtain h' q' where r: "g_queue_delete_link h q a = Some (h', q')" "queue_at h' q' (us @ vs)"
    "same_but (addrs_of xs) h h'" "\<forall>x \<in> addrs_of xs - addrs_of (us @ vs). h' x = None"
    using queue_delete_link_rep[OF q[unfolded xs]] unfolding queued_def xs[symmetric] by blast
  have "h a = Some \<lparr>l_data = d, l_next = lfirst NULL vs, l_prev = llast NULL us\<rparr>"
    using elem_at[OF queue_atD(5)[OF q, unfolded xs]] .
  then have "g_queue_pop_nth h q n = Some (h', q', d)"
    using n r(1) peek_nth_link_rep[OF q, of n] by (simp add: g_queue_pop_nth_def dr)
  then show ?thesis using r(2-4) True ad unfolding queued_out_def us_def[symmetric] vs_def[symmetric] by simp
qed

lemma queue_remove_rep:
  assumes q: "queue_at h q xs"
  shows "queued_out h (g_queue_remove h q d) (addrs_of xs) (remove_data d xs) (\<exists>x \<in> set xs. snd x = d)"
proof -
  note D = queue_atD[OF q]
  define us vs where "us = takeWhile (\<lambda>x. snd x \<noteq> d) xs" and "vs = dropWhile (\<lambda>x. snd x \<noteq> d) xs"
  have xs: "xs = us @ vs" by (simp add: us_def vs_def)
  have f: "g_list_find h (q_head q) d = Some (lfirst NULL vs)" unfolding D(2) vs_def using D(5,6) by (rule find_rep)
  have ex: "(\<exists>x \<in> set xs. snd x = d) \<longleftrightarrow> vs \<noteq> []" by (auto simp: vs_def dropWhile_eq_Nil_conv)
  have rd: "remove_data d xs = us @ tl vs" by (simp add: remove_data_def us_def vs_def)
  show ?thesis
  proof (cases vs)
    case Nil
    then show ?thesis using f q xs unfolding ex rd by (simp add: g_queue_remove_def queued_out_def)
  next
    case (Cons x vs')
    obtain a e where x: "x = (a, e)" by (cases x)
    have a: "a \<noteq> NULL" using D(6) unfolding xs Cons x by simp
    obtain h' q' where r: "g_queue_delete_link h q a = Some (h', q')" "queued h (Some (h', q')) (addrs_of xs) (us @ vs')"
      using queue_delete_link_rep[of h q us a e vs'] q unfolding xs Cons x by (auto simp: queued_def)
    have "g_queue_remove h q d = Some (h', q', True)" using f r(1) a Cons x by (simp add: g_queue_remove_def)
    then show ?thesis using r(2) Cons unfolding ex rd queued_out_queued by simp
  qed
qed

end
