(* ===== verification/Glib_Queue_Ops.thy ===== *)
theory Glib_Queue_Ops
  imports Glib_Queue_Laws
begin

text \<open>
  The operations on a whole queue and on links.
\<close>

section \<open>Whole queues\<close>

lemma queued_trans:
  assumes "queued h' r B ys" and "same_but A h h'" and "B \<subseteq> A" and "\<forall>x \<in> A - B. h' x = None"
  shows "queued h r A ys"
proof -
  obtain h'' q where r: "r = Some (h'', q)" "queue_at h'' q ys" "same_but B h' h''" "\<forall>x \<in> B - addrs_of ys. h'' x = None"
    using assms(1) by (auto simp: queued_def)
  have "same_but A h h''" using assms(2) r(3) by (rule same_but_trans) (use assms(3) in auto)
  moreover have "h'' x = None" if "x \<in> A - addrs_of ys" for x
    using r(3,4) assms(4) that by (cases "x \<in> B") (auto simp: same_but_def)
  ultimately show ?thesis using r(1,2) by (auto simp: queued_def)
qed

lemma queue_remove_loop_rep:
  assumes "queue_at h q (us @ vs)"
  shows "queued h (queue_remove_loop h q (lfirst NULL vs) d) (addrs_of (us @ vs)) (us @ filter (\<lambda>x. snd x \<noteq> d) vs)"
  using assms
proof (induction vs arbitrary: us h q)
  case Nil
  then show ?case by (subst queue_remove_loop.simps) (simp add: queued_def)
next
  case (Cons x vs)
  obtain a e where x: "x = (a, e)" by (cases x)
  note D = queue_atD[OF Cons.prems, unfolded x]
  have ha: "h a = Some \<lparr>l_data = e, l_next = lfirst NULL vs, l_prev = llast NULL us\<rparr>" and a: "a \<noteq> NULL" "a \<notin> addrs_of (us @ vs)"
    using elem_at[OF D(5)] D(6) by auto
  show ?case
  proof (cases "e = d")
    case False
    have "queue_remove_loop h q a d = queue_remove_loop h q (lfirst NULL vs) d"
      using False ha a by (subst queue_remove_loop.simps) simp
    then show ?thesis using Cons.IH[of h q "us @ [x]"] Cons.prems False x by simp
  next
    case True
    obtain h' q' where r: "g_queue_delete_link h q a = Some (h', q')" "queue_at h' q' (us @ vs)"
      "same_but (addrs_of (us @ (a, e) # vs)) h h'" "\<forall>y \<in> addrs_of (us @ (a, e) # vs) - addrs_of (us @ vs). h' y = None"
      using queue_delete_link_rep[OF Cons.prems[unfolded x]] unfolding queued_def by blast
    have "queue_remove_loop h q a d = queue_remove_loop h' q' (lfirst NULL vs) d"
      using True ha a r(1) by (subst queue_remove_loop.simps) simp
    moreover have "queued h (queue_remove_loop h' q' (lfirst NULL vs) d) (addrs_of (us @ (a, e) # vs)) (us @ filter (\<lambda>x. snd x \<noteq> d) vs)"
      by (rule queued_trans[OF Cons.IH[OF r(2)] r(3) _ r(4)]) auto
    ultimately show ?thesis using True x by simp
  qed
qed

lemma queue_remove_all_rep:
  assumes q: "queue_at h q xs"
  shows "queued_out h (g_queue_remove_all h q d) (addrs_of xs) (filter (\<lambda>x. snd x \<noteq> d) xs)
    (of_nat (length (filter (\<lambda>x. snd x = d) xs)))"
proof -
  obtain h' q' where r: "queue_remove_loop h q (q_head q) d = Some (h', q')" "queue_at h' q' (filter (\<lambda>x. snd x \<noteq> d) xs)"
    "queued h (Some (h', q')) (addrs_of xs) (filter (\<lambda>x. snd x \<noteq> d) xs)"
    using queue_remove_loop_rep[of h q "[]" xs d] q by (auto simp: queued_def queue_atD(2)[OF q])
  have "length xs = length (filter (\<lambda>x. snd x = d) xs) + length (filter (\<lambda>x. snd x \<noteq> d) xs)"
    using sum_length_filter_compl[of "\<lambda>x. snd x = d" xs] by simp
  then have "q_length q - q_length q' = of_nat (length (filter (\<lambda>x. snd x = d) xs))"
    using q r(2) by (simp add: queue_at_def)
  then show ?thesis using r(1,3) by (simp add: g_queue_remove_all_def queued_out_queued)
qed

lemma queue_sort_rep:
  assumes q: "queue_at h q xs"
  shows "queued h (g_queue_sort h q func user_data) (addrs_of xs) (lsort (\<lambda>a b. func a b user_data) xs)"
proof -
  let ?ys = "lsort (\<lambda>a b. func a b user_data) xs"
  obtain h' p where r: "g_list_sort_real h (q_head q) (\<lambda>a b. func a b user_data) = Some (h', p)" "glist h' p ?ys" "same_but (addrs_of xs) h h'"
    by (rule yieldsE[OF sort_rep[OF queue_atD(1)[OF q]]])
  have "length ?ys = length xs" by (metis mset_lsort size_mset)
  then have "queue_at h' (q\<lparr>q_head := p, q_tail := llast NULL ?ys\<rparr>) ?ys" using q r(2) by (intro queue_atI) (simp_all add: queue_at_def)
  then show ?thesis using r(1,3) g_list_last_rep[OF r(2)]
    by (intro queuedI) (simp_all add: g_queue_sort_def g_list_sort_with_data_def)
qed

lemma queue_reverse_rep:
  assumes q: "queue_at h q xs"
  shows "queued h (g_queue_reverse h q) (addrs_of xs) (rev xs)"
proof -
  obtain h' p where r: "g_list_reverse h (q_head q) = Some (h', p)" "glist h' p (rev xs)" "same_but (addrs_of xs) h h'"
    by (rule yieldsE[OF reverse_rep[OF queue_atD(1)[OF q]]])
  have "lfirst NULL xs = llast NULL (rev xs)" by (cases xs) simp_all
  then have "queue_at h' (q\<lparr>q_tail := q_head q, q_head := p\<rparr>) (rev xs)"
    using q r(2) queue_atD(2)[OF q] by (intro queue_atI) (simp_all add: queue_at_def)
  then show ?thesis using r(1,3) by (intro queuedI) (simp_all add: g_queue_reverse_def)
qed

lemma queue_clear_rep:
  assumes q: "queue_at h q xs"
  shows "queued h (g_queue_clear h q) (addrs_of xs) []"
proof -
  note D = queue_atD[OF q]
  have "g_list_free h (q_head q) = Some (\<lambda>x. if x \<in> addrs_of xs then None else h x)" unfolding D(2) by (rule free_rep[OF D(5,6)])
  then show ?thesis
    by (intro queuedI[where h' = "\<lambda>x. if x \<in> addrs_of xs then None else h x" and q' = g_queue_init])
      (simp_all add: g_queue_clear_def g_queue_init_def queue_at_def same_but_def)
qed

lemma queue_free_full_rep:
  assumes q: "queue_at h q xs"
  shows "g_queue_free_full h q = Some (\<lambda>x. if x \<in> addrs_of xs then None else h x, map (Value \<circ> snd) xs)"
proof -
  note D = queue_atD[OF q]
  have "fold (\<lambda>d calls. calls @ [Value d]) ds cs = cs @ map Value ds" for ds cs by (induction ds arbitrary: cs) simp_all
  then show ?thesis
    using queue_foreach_rep[OF D(5,6), of "\<lambda>d calls. calls @ [Value d]" "[]"] free_rep[OF D(5,6)]
    by (simp add: g_queue_free_full_def g_queue_foreach_def g_queue_free_def D(2))
qed

lemma new_queue: "queue_at h g_queue_new []"
  by (simp add: queue_at_def g_queue_new_def)

lemma queue_copy_loop_rep:
  assumes "queue_at h r ys" and "lrep h pv NULL xs" and "uniq (ys @ xs)" and "length ys + length xs < 2 ^ 32"
    and "distinct as" and "NULL \<notin> set as" and "set as \<inter> addrs_of (ys @ xs) = {}" and "length xs \<le> length as"
  shows "\<exists>h' q'. queue_copy_loop h r as (lfirst NULL xs) = Some (h', q') \<and> queue_at h' q' (ys @ zip as (map snd xs)) \<and>
    same_but (addrs_of ys \<union> set as) h h'"
  using assms
proof (induction xs arbitrary: ys as h r pv)
  case Nil
  then show ?case by (subst queue_copy_loop.simps) simp
next
  case (Cons x xs)
  obtain a d where x: "x = (a, d)" by (cases x)
  obtain b bs where as: "as = b # bs" using Cons.prems(8) by (cases as) auto
  have f: "fresh b ys" using Cons.prems as by (auto simp: fresh_def)
  obtain h1 r1 where p: "g_queue_push_tail h r b d = Some (h1, r1)" "queue_at h1 r1 (ys @ [(b, d)])" "same_but (insert b (addrs_of ys)) h h1"
    using push_tail_rep[OF Cons.prems(1) f, of d] Cons.prems(4) by (auto simp: queued_def)
  have "lrep h1 pv NULL (x # xs)" using Cons.prems(2,3,7) as lrep_same[OF p(3), of "x # xs" pv NULL] by auto
  then have ha: "h a = Some \<lparr>l_data = d, l_next = lfirst NULL xs, l_prev = pv\<rparr>" "a \<noteq> NULL"
      "h1 a = Some \<lparr>l_data = d, l_next = lfirst NULL xs, l_prev = pv\<rparr>" and xs: "lrep h1 a NULL xs"
    using Cons.prems(2,3) x by simp_all
  have "\<exists>h' q'. queue_copy_loop h1 r1 bs (lfirst NULL xs) = Some (h', q') \<and> queue_at h' q' ((ys @ [(b, d)]) @ zip bs (map snd xs)) \<and>
    same_but (addrs_of (ys @ [(b, d)]) \<union> set bs) h1 h'"
    by (rule Cons.IH[OF p(2) xs]) (use Cons.prems(3-8) as x in auto)
  then obtain h' q' where r: "queue_copy_loop h1 r1 bs (lfirst NULL xs) = Some (h', q')"
    "queue_at h' q' ((ys @ [(b, d)]) @ zip bs (map snd xs))" "same_but (addrs_of (ys @ [(b, d)]) \<union> set bs) h1 h'"
    by blast
  have "queue_copy_loop h r as a = Some (h', q')" using ha p(1) r(1) as by (subst queue_copy_loop.simps) simp
  moreover have "same_but (addrs_of ys \<union> set as) h h'" using p(3) r(3) by (rule same_but_trans) (auto simp: as)
  ultimately show ?case using r(2) as x by auto
qed

lemma queue_copy_rep:
  assumes q: "queue_at h q xs" and "distinct as" "NULL \<notin> set as" "set as \<inter> addrs_of xs = {}" "length xs \<le> length as"
  shows "\<exists>h' q'. g_queue_copy h as q = Some (h', q') \<and> queue_at h' q' (zip as (map snd xs)) \<and> same_but (set as) h h'"
  using queue_copy_loop_rep[OF new_queue queue_atD(5)[OF q], of as] assms queue_atD(2,6)[OF q]
  by (simp add: g_queue_copy_def queue_at_def)

section \<open>Links\<close>

text \<open>A link on its own is put in.\<close>

lemma push_head_link_rep:
  assumes q: "queue_at h q xs" and f: "fresh a xs" and ha: "h a = Some \<lparr>l_data = d, l_next = NULL, l_prev = NULL\<rparr>"
    and n: "length xs < 2 ^ 32 - 1"
  shows "queued h (g_queue_push_head_link h q a) (insert a (addrs_of xs)) ((a, d) # xs)"
proof -
  note D = queue_atD[OF q]
  let ?n = "\<lparr>l_data = d, l_next = NULL, l_prev = NULL\<rparr>"
  define p where "p = lfirst NULL xs"
  have h: "h(a \<mapsto> ?n) = h" using ha by (simp add: fun_eq_iff)
  have "link h NULL a = h" using ha by (intro link_noop) simp_all
  then have "lrep (link h a p) NULL NULL ((a, d) # xs)"
    using new_between(1)[of h "[]" xs a ?n d] D(5,6) f h by (simp add: p_def)
  moreover have a: "a \<noteq> NULL" using f by (simp add: fresh_def)
  moreover have pm: "p \<in> insert NULL (addrs_of xs)" using lfirst_mem[of xs NULL] by (cases "xs = []") (simp_all add: p_def addrs_of_def)
  ultimately have l: "glist (link h a p) a ((a, d) # xs)" "same_but (insert a (addrs_of xs)) h (link h a p)"
    using D(6) f by (auto simp: glist_def fresh_def intro: same_but_link)
  define q' where "q' = q\<lparr>q_head := a, q_tail := (if xs = [] then a else q_tail q), q_length := q_length q + 1\<rparr>"
  have "g_queue_push_head_link h q a = Some (link h a p, q')"
  proof (cases "xs = []")
    case True
    then have "p = NULL" by (simp add: p_def)
    moreover have "set_next h a NULL = Some (link h a NULL)" using ha a by (intro set_next_link) simp_all
    ultimately show ?thesis using True ha a D(2) by (simp add: g_queue_push_head_link_def q'_def)
  next
    case False
    then have p0: "p \<noteq> NULL" using D(2,7) by (simp add: p_def)
    have "valid h p" unfolding p_def by (rule valid_first[OF D(5)]) simp
    then obtain h1 where "set_next h a p = Some h1" "set_prev h1 p a = Some (link h a p)"
      by (rule set_both[of h a p, rotated]) (use ha a p0 in \<open>auto simp: valid_def\<close>)
    then show ?thesis using False ha a p0 D(2) by (simp add: g_queue_push_head_link_def q'_def p_def)
  qed
  moreover have "queue_at (link h a p) q' ((a, d) # xs)"
    using q l(1) n D(3) llast_any[of xs a NULL] by (intro queue_atI) (auto simp: q'_def queue_at_def)
  ultimately show ?thesis using l(2) by (rule queuedI) auto
qed

lemma push_tail_link_rep:
  assumes q: "queue_at h q xs" and f: "fresh a xs" and ha: "h a = Some \<lparr>l_data = d, l_next = NULL, l_prev = NULL\<rparr>"
    and n: "length xs < 2 ^ 32 - 1"
  shows "queued h (g_queue_push_tail_link h q a) (insert a (addrs_of xs)) (xs @ [(a, d)])"
proof -
  note D = queue_atD[OF q]
  let ?n = "\<lparr>l_data = d, l_next = NULL, l_prev = NULL\<rparr>"
  define p where "p = llast NULL xs"
  have h: "h(a \<mapsto> ?n) = h" using ha by (simp add: fun_eq_iff)
  have "link h a NULL = h" using ha by (intro link_noop) simp_all
  then have "lrep (link h p a) NULL NULL (xs @ [(a, d)])"
    using new_between(2)[of h xs "[]" a ?n d] D(5,6) f h by (simp add: p_def)
  moreover have a: "a \<noteq> NULL" using f by (simp add: fresh_def)
  moreover have pm: "p \<in> insert NULL (addrs_of xs)" using llast_mem[of xs NULL] by (cases "xs = []") (simp_all add: p_def addrs_of_def)
  ultimately have l: "glist (link h p a) (lfirst a xs) (xs @ [(a, d)])" "same_but (insert a (addrs_of xs)) h (link h p a)"
    using D(6) f by (auto simp: glist_def fresh_def intro: same_but_link)
  define q' where "q' = q\<lparr>q_head := lfirst a xs, q_tail := a, q_length := q_length q + 1\<rparr>"
  have "g_queue_push_tail_link h q a = Some (link h p a, q')"
  proof (cases "xs = []")
    case True
    then have "p = NULL" by (simp add: p_def)
    moreover have "set_prev h a NULL = Some (link h NULL a)" using ha a by (intro set_prev_link) simp_all
    ultimately show ?thesis using True ha a D(3) by (simp add: g_queue_push_tail_link_def q'_def)
  next
    case False
    then have p0: "p \<noteq> NULL" using D(3,8) by (simp add: p_def)
    have "valid h p" unfolding p_def by (rule valid_last[OF D(5)]) simp
    then obtain h1 where "set_prev h a p = Some h1" "set_next h1 p a = Some (link h p a)"
      by (rule set_both'[of h p a]) (use ha a p0 in \<open>auto simp: valid_def\<close>)
    then show ?thesis using False ha a p0 D(2,3) lfirst_any[OF False, of a NULL]
      by (simp add: g_queue_push_tail_link_def q'_def p_def)
  qed
  moreover have "queue_at (link h p a) q' (xs @ [(a, d)])" using q l(1) n by (intro queue_atI) (auto simp: q'_def queue_at_def)
  ultimately show ?thesis using l(2) by (rule queuedI) auto
qed

text \<open>A link before another one.\<close>

lemma four_stores:
  assumes h: "h a = Some n" "h q = Some e" "valid h p" and d: "a \<noteq> NULL" "q \<noteq> NULL" "p \<noteq> a" "q \<noteq> a" "p \<noteq> q" and n: "l_prev n = NULL"
  shows "Option.bind (if p \<noteq> NULL then set_next h p a else Some h) (\<lambda>h. Option.bind (set_prev h q a) (\<lambda>h.
    Option.bind (set_next h a q) (\<lambda>h. set_prev h a p))) = Some (link (link h p a) a q)"
proof (cases "p = NULL")
  case True
  then show ?thesis using h d n
    by (auto simp: set_next_def set_prev_def set_elem_def link_def fun_eq_iff split: option.split)
next
  case False
  obtain m where "h p = Some m" using h(3) False by (auto simp: valid_def)
  then show ?thesis using h d False
    by (auto simp: set_next_def set_prev_def set_elem_def link_def fun_eq_iff split: option.split)
qed

lemma push_nth_link_rep:
  assumes q: "queue_at h q xs" and f: "fresh a xs" and ha: "h a = Some \<lparr>l_data = d, l_next = NULL, l_prev = NULL\<rparr>"
    and n: "length xs < 2 ^ 32 - 1" and i: "i < 2147483648"
  defines "k \<equiv> if i < 0 then length xs else min (nat i) (length xs)"
  shows "queued h (g_queue_push_nth_link h q i a) (insert a (addrs_of xs)) (take k xs @ (a, d) # drop k xs)"
proof (cases "i < 0 \<or> of_int i \<ge> q_length q")
  case True
  have "k = length xs"
  proof (cases "i < 0")
    case False
    then have "length xs \<le> nat i" using True unat_gint[of i] i queue_atD(4)[OF q] by (simp add: word_le_nat_alt)
    then show ?thesis using False by (simp add: k_def)
  qed (simp add: k_def)
  then show ?thesis using push_tail_link_rep[OF q f ha n] True f by (simp add: g_queue_push_nth_link_def fresh_def)
next
  case False
  then have "nat i < length xs" using unat_gint[of i] i queue_atD(4)[OF q] by (simp add: word_le_nat_alt)
  then have k: "k = nat i" "unat (of_int i :: u32) = k" "k < length xs" using False unat_gint[of i] i by (simp_all add: k_def)
  define us vs where "us = take k xs" and "vs = drop k xs"
  have xs: "xs = us @ vs" and vs: "vs \<noteq> []" using k by (simp_all add: us_def vs_def)
  note D = queue_atD[OF q, unfolded xs]
  define p where "p = llast NULL us"
  define r where "r = lfirst NULL vs"
  let ?n = "\<lparr>l_data = d, l_next = NULL, l_prev = NULL\<rparr>"
  have h: "h(a \<mapsto> ?n) = h" using ha by (simp add: fun_eq_iff)
  note nf = new_facts[OF D(5,6) f[unfolded xs] p_def r_def h[symmetric]]
  have r0: "r \<noteq> NULL" using nf(8) vs by simp
  obtain e where e: "h r = Some e" "l_prev e = p" using nf(11) r0 by blast
  define h1 where "h1 = link (link h p a) a r"
  have pr: "p \<noteq> r" using nf(9) r0 by blast
  have 4: "Option.bind (if p \<noteq> NULL then set_next h p a else Some h) (\<lambda>h. Option.bind (set_prev h r a) (\<lambda>h.
      Option.bind (set_next h a r) (\<lambda>h. set_prev h a p))) = Some h1"
    unfolding h1_def by (rule four_stores[OF ha e(1) nf(2) nf(1) r0 nf(5,6) pr]) simp
  have l1: "lrep h1 NULL NULL (us @ (a, d) # vs)"
    using new_between(1)[OF D(5,6) f[unfolded xs], of ?n d] unfolding h h1_def p_def r_def by simp
  have u1: "uniq (us @ (a, d) # vs)" using uniq_put[OF D(6) f[unfolded xs]] .
  have fr: "same_but (insert a (addrs_of xs)) h h1"
    using frame_put(1)[OF place_dom(5,6)[OF D(5) f[unfolded xs]], of a h ?n] unfolding h h1_def p_def r_def xs .
  have hd: "\<exists>m. h1 (q_head q) = Some m \<and> (if l_prev m \<noteq> NULL then l_prev m else q_head q) = lfirst a us"
  proof (cases us)
    case Nil
    then have "q_head q = r" using D(2) by (simp add: r_def)
    moreover have "h1 r = Some (e\<lparr>l_prev := a\<rparr>)"
    proof -
      have "link h p a r = Some e" using e(1) pr nf(6) by simp
      then show ?thesis unfolding h1_def using r0 nf(6) by (intro link_second) auto
    qed
    ultimately show ?thesis using nf(1) Nil by simp
  next
    case (Cons x us')
    then show ?thesis using l1 D(2) by (cases x) simp
  qed
  have tl: "\<exists>m. h1 (q_tail q) = Some m \<and> l_next m = NULL"
  proof -
    obtain vs' b g where "vs = vs' @ [(b, g)]" using vs by (cases vs rule: rev_cases) auto
    then show ?thesis using l1 D(3) by (simp add: lrep_append)
  qed
  have nz: "q_head q \<noteq> NULL" "q_tail q \<noteq> NULL" using D(7,8) vs by simp_all
  have pk: "g_queue_peek_nth_link h q (of_int i) = Some r" using peek_nth_link_rep[OF q] k(2) by (simp add: r_def vs_def)
  obtain m m' where m: "h1 (q_head q) = Some m" "(if l_prev m \<noteq> NULL then l_prev m else q_head q) = lfirst a us"
    "h1 (q_tail q) = Some m'" "l_next m' = NULL" using hd tl by blast
  have hd2: "(if l_prev m \<noteq> NULL then q\<lparr>q_head := l_prev m\<rparr> else q) = q\<lparr>q_head := lfirst a us\<rparr>" using m(2) by auto
  have "g_queue_push_nth_link h q i a = Option.bind (Some h1) (\<lambda>h. Option.bind (h (q_head q)) (\<lambda>head.
      let queue = (if l_prev head \<noteq> NULL then q\<lparr>q_head := l_prev head\<rparr> else q)
      in Option.bind (h (q_tail queue)) (\<lambda>tail.
        let queue = (if l_next tail \<noteq> NULL then queue\<lparr>q_tail := l_next tail\<rparr> else queue)
        in Some (h, queue\<lparr>q_length := q_length queue + 1\<rparr>))))"
    unfolding 4[symmetric] using False nf(1) nz pk e by (simp add: g_queue_push_nth_link_def Let_def)
  also have "\<dots> = Some (h1, q\<lparr>q_head := lfirst a us, q_length := q_length q + 1\<rparr>)"
    using m(1,3,4) hd2 by (simp add: Let_def)
  finally have r: "g_queue_push_nth_link h q i a = Some (h1, q\<lparr>q_head := lfirst a us, q_length := q_length q + 1\<rparr>)" .
  have "llast a vs = llast p vs" using vs by (rule llast_any)
  then have "queue_at h1 (q\<lparr>q_head := lfirst a us, q_length := q_length q + 1\<rparr>) (us @ (a, d) # vs)"
    using q n l1 u1 D(3) unfolding xs by (intro queue_atI) (simp_all add: queue_at_def glist_def p_def)
  then have "queued h (g_queue_push_nth_link h q i a) (insert a (addrs_of xs)) (us @ (a, d) # vs)"
    using fr unfolding r by (intro queuedI[OF refl]) (auto simp: xs)
  then show ?thesis by (simp only: us_def vs_def)
qed

text \<open>A link is taken out and stands alone.\<close>

definition alone :: "lheap \<Rightarrow> (lheap \<times> GQueue \<times> gpointer) option \<Rightarrow> gpointer set \<Rightarrow> elem list \<Rightarrow> elem \<Rightarrow> bool" where
  "alone h r A ys x \<longleftrightarrow> (\<exists>h' q'. r = Some (h', q', fst x) \<and> queue_at h' q' ys \<and> same_but A h h' \<and>
     h' (fst x) = Some \<lparr>l_data = snd x, l_next = NULL, l_prev = NULL\<rparr>)"

lemma pop_head_link_rep:
  assumes q: "queue_at h q ((a, d) # ys)"
  shows "alone h (g_queue_pop_head_link h q) (addrs_of ((a, d) # ys)) ys (a, d)"
proof -
  note D = queue_atD[OF q]
  have p: "q_head q = a" "a \<noteq> NULL" and a: "a \<notin> addrs_of ys" using D by simp_all
  obtain h' where h': "(if lfirst NULL ys \<noteq> NULL then set_prev h (lfirst NULL ys) NULL else Some h) = Some h'"
    "glist h' (lfirst NULL ys) ys" "h a = Some \<lparr>l_data = d, l_next = lfirst NULL ys, l_prev = NULL\<rparr>" "h' a = h a"
    "same_but (addrs_of ys) h h'"
    by (rule first_gone[of h a d ys]) (use D(1) p in simp)
  define q' where "q' = q\<lparr>q_head := lfirst NULL ys, q_tail := llast NULL ys, q_length := q_length q - 1\<rparr>"
  define h2 where "h2 = h'(a \<mapsto> \<lparr>l_data = d, l_next = NULL, l_prev = NULL\<rparr>)"
  have s: "set_next h' a NULL = Some h2" using h'(3,4) by (simp add: set_next_def set_elem_def h2_def)
  have "g_queue_pop_head_link h q = Some (h2, q', a)"
  proof (cases "ys = []")
    case True
    then have "h' = h" "h2 = h" using h'(1,3) by (auto simp: h2_def fun_eq_iff)
    then show ?thesis using True h'(3) p by (simp add: g_queue_pop_head_link_def q'_def)
  next
    case False
    then have "lfirst NULL ys \<noteq> NULL" "q_tail q = llast NULL ys" using D(3,6) lfirst_NULL[of ys] llast_any[of ys a NULL] by simp_all
    then show ?thesis using h'(1,3) s p by (simp add: g_queue_pop_head_link_def q'_def)
  qed
  moreover have "queue_at h2 q' ys"
    using q h'(2) a by (intro queue_atI) (simp_all add: q'_def h2_def queue_at_def glist_free_other)
  moreover have "same_but (addrs_of ((a, d) # ys)) h h2"
    unfolding h2_def using h'(5) by (subst same_but_upd) (auto elim: same_but_mono)
  moreover have "h2 a = Some \<lparr>l_data = d, l_next = NULL, l_prev = NULL\<rparr>" by (simp add: h2_def)
  ultimately show ?thesis unfolding alone_def by auto
qed

lemma pop_tail_link_rep:
  assumes q: "queue_at h q (ys @ [(a, d)])"
  shows "alone h (g_queue_pop_tail_link h q) (addrs_of (ys @ [(a, d)])) ys (a, d)"
proof -
  note D = queue_atD[OF q]
  have t: "q_tail q = a" "a \<noteq> NULL" and a: "a \<notin> addrs_of ys" using D by simp_all
  obtain h' where h': "(if llast NULL ys \<noteq> NULL then set_next h (llast NULL ys) NULL else Some h) = Some h'"
    "glist h' (lfirst NULL ys) ys" "h a = Some \<lparr>l_data = d, l_next = NULL, l_prev = llast NULL ys\<rparr>" "h' a = h a"
    "same_but (addrs_of ys) h h'"
    by (rule last_gone[OF D(1)])
  define q' where "q' = q\<lparr>q_head := lfirst NULL ys, q_tail := llast NULL ys, q_length := q_length q - 1\<rparr>"
  define h2 where "h2 = h'(a \<mapsto> \<lparr>l_data = d, l_next = NULL, l_prev = NULL\<rparr>)"
  have s: "set_prev h' a NULL = Some h2" using h'(3,4) by (simp add: set_prev_def set_elem_def h2_def)
  have "g_queue_pop_tail_link h q = Some (h2, q', a)"
  proof (cases "ys = []")
    case True
    then have "h' = h" "h2 = h" using h'(1,3) by (auto simp: h2_def fun_eq_iff)
    then show ?thesis using True h'(3) t by (simp add: g_queue_pop_tail_link_def q'_def)
  next
    case False
    then have "llast NULL ys \<noteq> NULL" "q_head q = lfirst NULL ys" using D(2,6) llast_NULL[of ys] lfirst_any[of ys a NULL] by simp_all
    then show ?thesis using h'(1,3) s t by (simp add: g_queue_pop_tail_link_def q'_def)
  qed
  moreover have "queue_at h2 q' ys"
    using q h'(2) a by (intro queue_atI) (simp_all add: q'_def h2_def queue_at_def glist_free_other)
  moreover have "same_but (addrs_of (ys @ [(a, d)])) h h2"
    unfolding h2_def using h'(5) by (subst same_but_upd) (auto elim: same_but_mono)
  moreover have "h2 a = Some \<lparr>l_data = d, l_next = NULL, l_prev = NULL\<rparr>" by (simp add: h2_def)
  ultimately show ?thesis unfolding alone_def by auto
qed

lemma pop_nth_link_rep:
  assumes q: "queue_at h q (us @ (a, d) # vs)" and n: "unat n = length us"
  shows "alone h (g_queue_pop_nth_link h q n) (addrs_of (us @ (a, d) # vs)) (us @ vs) (a, d)"
proof -
  obtain h' q' where r: "g_queue_unlink h q a = Some (h', q')" "queue_at h' q' (us @ vs)"
    "same_but (addrs_of (us @ (a, d) # vs)) h h'" "h' a = Some \<lparr>l_data = d, l_next = NULL, l_prev = NULL\<rparr>"
    by (rule unlink_rep[OF q])
  have "\<not> q_length q \<le> n" using queue_atD(4)[OF q] n by (simp add: word_le_nat_alt)
  then have "g_queue_pop_nth_link h q n = Some (h', q', a)"
    using r(1) peek_nth_link_rep[OF q, of n] n by (simp add: g_queue_pop_nth_link_def)
  then show ?thesis using r(2-4) unfolding alone_def by simp
qed

end
