(* ===== verification/Glib_Queue_Props.thy ===== *)
theory Glib_Queue_Props
  imports Glib_Queue_Ops
begin

text \<open>
  Sequences of operations on a queue against the same sequences on a list.
\<close>

datatype queue_op = Push_Head gpointer gpointer | Push_Tail gpointer gpointer | Push_Nth gpointer gpointer u32
  | Insert_Sorted gpointer gpointer | Pop_Head | Pop_Tail | Pop_Nth u32 | Remove_First gpointer | Remove_All gpointer
  | Reverse_Queue | Sort_Queue | Clear_Queue | Peek_Head | Peek_Tail | Peek_Nth u32 | Get_Length | Is_Empty

datatype queue_out = Data gpointer | Count u32 | Truth bool | Nothing

text \<open>What puts an element in comes with the address of the new element, which the allocator must have free.\<close>

fun new_addrs :: "queue_op \<Rightarrow> gpointer list" where
  "new_addrs (Push_Head a d) = [a]"
| "new_addrs (Push_Tail a d) = [a]"
| "new_addrs (Push_Nth a d i) = [a]"
| "new_addrs (Insert_Sorted a d) = [a]"
| "new_addrs _ = []"

abbreviation no_out :: "(lheap \<times> GQueue) option \<Rightarrow> (lheap \<times> GQueue \<times> queue_out) option" where
  "no_out r \<equiv> map_option (\<lambda>(h, q). (h, q, Nothing)) r"

abbreviation with_out :: "('a \<Rightarrow> queue_out) \<Rightarrow> (lheap \<times> GQueue \<times> 'a) option \<Rightarrow> (lheap \<times> GQueue \<times> queue_out) option" where
  "with_out f r \<equiv> map_option (\<lambda>(h, q, x). (h, q, f x)) r"

fun do_op :: "(gpointer \<Rightarrow> gpointer \<Rightarrow> int) \<Rightarrow> queue_op \<Rightarrow> lheap \<Rightarrow> GQueue \<Rightarrow> (lheap \<times> GQueue \<times> queue_out) option" where
  "do_op func (Push_Head a d) h q = no_out (g_queue_push_head h q a d)"
| "do_op func (Push_Tail a d) h q = no_out (g_queue_push_tail h q a d)"
| "do_op func (Push_Nth a d i) h q = no_out (g_queue_push_nth h q a d (sint i))"
| "do_op func (Insert_Sorted a d) h q = no_out (g_queue_insert_sorted h q a d (\<lambda>a b _. func a b) ())"
| "do_op func Pop_Head h q = with_out Data (g_queue_pop_head h q)"
| "do_op func Pop_Tail h q = with_out Data (g_queue_pop_tail h q)"
| "do_op func (Pop_Nth n) h q = with_out Data (g_queue_pop_nth h q n)"
| "do_op func (Remove_First d) h q = with_out Truth (g_queue_remove h q d)"
| "do_op func (Remove_All d) h q = with_out Count (g_queue_remove_all h q d)"
| "do_op func Reverse_Queue h q = no_out (g_queue_reverse h q)"
| "do_op func Sort_Queue h q = no_out (g_queue_sort h q (\<lambda>a b _. func a b) ())"
| "do_op func Clear_Queue h q = no_out (g_queue_clear h q)"
| "do_op func Peek_Head h q = map_option (\<lambda>d. (h, q, Data d)) (g_queue_peek_head h q)"
| "do_op func Peek_Tail h q = map_option (\<lambda>d. (h, q, Data d)) (g_queue_peek_tail h q)"
| "do_op func (Peek_Nth n) h q = map_option (\<lambda>d. (h, q, Data d)) (g_queue_peek_nth h q n)"
| "do_op func Get_Length h q = Some (h, q, Count (g_queue_get_length q))"
| "do_op func Is_Empty h q = Some (h, q, Truth (g_queue_is_empty q))"

fun do_ops :: "(gpointer \<Rightarrow> gpointer \<Rightarrow> int) \<Rightarrow> queue_op list \<Rightarrow> lheap \<Rightarrow> GQueue \<Rightarrow> (lheap \<times> GQueue \<times> queue_out list) option" where
  "do_ops func [] h q = Some (h, q, [])"
| "do_ops func (op # ops) h q = do {
     (h, q, out) \<leftarrow> do_op func op h q;
     (h, q, outs) \<leftarrow> do_ops func ops h q;
     Some (h, q, out # outs) }"

text \<open>The same on a list of elements.\<close>

definition put_at :: "int \<Rightarrow> elem \<Rightarrow> elem list \<Rightarrow> elem list" where
  "put_at i x xs = (let k = if i < 0 then length xs else min (nat i) (length xs) in take k xs @ x # drop k xs)"

definition data_at :: "elem list \<Rightarrow> nat \<Rightarrow> gpointer" where
  "data_at xs n = (if n < length xs then snd (xs ! n) else NULL)"

fun list_op :: "(gpointer \<Rightarrow> gpointer \<Rightarrow> int) \<Rightarrow> queue_op \<Rightarrow> elem list \<Rightarrow> elem list \<times> queue_out" where
  "list_op func (Push_Head a d) xs = ((a, d) # xs, Nothing)"
| "list_op func (Push_Tail a d) xs = (xs @ [(a, d)], Nothing)"
| "list_op func (Push_Nth a d i) xs = (put_at (sint i) (a, d) xs, Nothing)"
| "list_op func (Insert_Sorted a d) xs =
     (takeWhile (\<lambda>x. func (snd x) d < 0) xs @ (a, d) # dropWhile (\<lambda>x. func (snd x) d < 0) xs, Nothing)"
| "list_op func Pop_Head xs = (tl xs, Data (data_at xs 0))"
| "list_op func Pop_Tail xs = (butlast xs, Data (data_at xs (length xs - 1)))"
| "list_op func (Pop_Nth n) xs = (take (unat n) xs @ drop (Suc (unat n)) xs, Data (data_at xs (unat n)))"
| "list_op func (Remove_First d) xs = (remove_data d xs, Truth (\<exists>x \<in> set xs. snd x = d))"
| "list_op func (Remove_All d) xs = (filter (\<lambda>x. snd x \<noteq> d) xs, Count (of_nat (length (filter (\<lambda>x. snd x = d) xs))))"
| "list_op func Reverse_Queue xs = (rev xs, Nothing)"
| "list_op func Sort_Queue xs = (lsort func xs, Nothing)"
| "list_op func Clear_Queue xs = ([], Nothing)"
| "list_op func Peek_Head xs = (xs, Data (data_at xs 0))"
| "list_op func Peek_Tail xs = (xs, Data (data_at xs (length xs - 1)))"
| "list_op func (Peek_Nth n) xs = (xs, Data (data_at xs (unat n)))"
| "list_op func Get_Length xs = (xs, Count (of_nat (length xs)))"
| "list_op func Is_Empty xs = (xs, Truth (xs = []))"

fun list_ops :: "(gpointer \<Rightarrow> gpointer \<Rightarrow> int) \<Rightarrow> queue_op list \<Rightarrow> elem list \<Rightarrow> elem list \<times> queue_out list" where
  "list_ops func [] xs = (xs, [])"
| "list_ops func (op # ops) xs = (let (xs, out) = list_op func op xs; (xs, outs) = list_ops func ops xs in (xs, out # outs))"

lemma queued_same: "queue_at h q xs \<Longrightarrow> queued h (Some (h, q)) (addrs_of xs) xs"
  by (auto simp: queued_def)

text \<open>One operation.\<close>

lemma data_at_ends: "data_at xs 0 = (if xs = [] then NULL else snd (hd xs))"
  "data_at xs (length xs - 1) = (if xs = [] then NULL else snd (last xs))"
  by (simp_all add: data_at_def hd_conv_nth last_conv_nth)

definition op_ok :: "(gpointer \<Rightarrow> gpointer \<Rightarrow> int) \<Rightarrow> queue_op \<Rightarrow> lheap \<Rightarrow> GQueue \<Rightarrow> elem list \<Rightarrow> bool" where
  "op_ok func op h q xs \<longleftrightarrow> (\<exists>h' q'. do_op func op h q = Some (h', q', snd (list_op func op xs)) \<and>
     queued h (Some (h', q')) (set (new_addrs op) \<union> addrs_of xs) (fst (list_op func op xs)))"

lemma op_okI_queued:
  assumes "queued h r A ys" and "do_op func op h q = no_out r" and "list_op func op xs = (ys, Nothing)" and "A = set (new_addrs op) \<union> addrs_of xs"
  shows "op_ok func op h q xs"
  using assms by (auto simp: op_ok_def queued_def)

lemma op_okI_out:
  assumes "queued_out h r A ys x" and "do_op func op h q = with_out f r" and "list_op func op xs = (ys, f x)" and "A = set (new_addrs op) \<union> addrs_of xs"
  shows "op_ok func op h q xs"
  using assms by (auto simp: op_ok_def queued_out_queued)

lemma op_okI_read:
  assumes "queue_at h q xs" and "do_op func op h q = Some (h, q, out)" and "list_op func op xs = (xs, out)" and "new_addrs op = []"
  shows "op_ok func op h q xs"
  using assms queued_same[OF assms(1)] by (simp add: op_ok_def)

lemma op_step:
  assumes q: "queue_at h q xs" and f: "\<forall>a \<in> set (new_addrs op). fresh a xs" and n: "length xs < 2 ^ 32 - 1"
  shows "op_ok func op h q xs"
proof (cases op)
  case (Push_Head a d)
  then show ?thesis using push_head_rep[OF q _ n, of a d] f by (intro op_okI_queued) auto
next
  case (Push_Tail a d)
  then show ?thesis using push_tail_rep[OF q _ n, of a d] f by (intro op_okI_queued) auto
next
  case (Push_Nth a d i)
  have "sint i < 2147483648" using sint_lt[of i] by simp
  then show ?thesis using push_nth_rep[OF q _ n, of a "sint i" d] f Push_Nth
    by (intro op_okI_queued) (auto simp: put_at_def Let_def)
next
  case (Insert_Sorted a d)
  then show ?thesis using queue_insert_sorted_rep[OF q _ n, of a d "\<lambda>a b _. func a b" "()"] f by (intro op_okI_queued) auto
next
  case Pop_Head
  then show ?thesis by (intro op_okI_out[OF pop_head_rep[OF q], where f = Data]) (simp_all add: data_at_ends)
next
  case Pop_Tail
  then show ?thesis by (intro op_okI_out[OF pop_tail_rep[OF q], where f = Data]) (simp_all add: data_at_ends flip: One_nat_def)
next
  case (Pop_Nth n)
  then show ?thesis by (intro op_okI_out[OF pop_nth_rep[OF q, of n], where f = Data]) (simp_all add: data_at_def)
next
  case (Remove_First d)
  then show ?thesis by (intro op_okI_out[OF queue_remove_rep[OF q, of d], where f = Truth]) simp_all
next
  case (Remove_All d)
  then show ?thesis by (intro op_okI_out[OF queue_remove_all_rep[OF q, of d], where f = Count]) simp_all
next
  case Reverse_Queue
  then show ?thesis using queue_reverse_rep[OF q] by (intro op_okI_queued) auto
next
  case Sort_Queue
  then show ?thesis using queue_sort_rep[OF q, of "\<lambda>a b _. func a b" "()"] by (intro op_okI_queued) auto
next
  case Clear_Queue
  then show ?thesis using queue_clear_rep[OF q] by (intro op_okI_queued) auto
next
  case Get_Length
  then show ?thesis using q by (intro op_okI_read[OF q]) (simp_all add: g_queue_get_length_def queue_at_def)
next
  case Is_Empty
  then show ?thesis using queue_atD(7)[OF q] by (intro op_okI_read[OF q]) (simp_all add: g_queue_is_empty_def)
qed (use peek_rep[OF q] in \<open>auto intro!: op_okI_read[OF q] simp: data_at_def hd_conv_nth last_conv_nth\<close>)

lemma set_tlD: "x \<in> set (tl xs) \<Longrightarrow> x \<in> set xs"
  by (cases xs) simp_all

lemma set_lsort: "set (lsort compare xs) = set xs"
  by (metis mset_lsort set_mset_mset)

lemma list_op_addrs: "addrs_of (fst (list_op func op xs)) \<subseteq> set (new_addrs op) \<union> addrs_of xs"
proof -
  have "set (fst (list_op func op xs)) \<subseteq> (\<lambda>x. x) ` set xs \<union> {x. fst x \<in> set (new_addrs op)}"
    by (cases op) (auto simp: put_at_def Let_def remove_data_def set_lsort
        dest!: set_tlD dest: in_set_takeD in_set_dropD in_set_butlastD set_takeWhileD set_dropWhileD)
  then show ?thesis by (auto simp: addrs_of_def)
qed

lemma list_op_length: "length (fst (list_op func op xs)) \<le> Suc (length xs)"
proof (cases op)
  case (Insert_Sorted a d)
  let ?P = "\<lambda>x. func (snd x) d < 0"
  have "length (takeWhile ?P xs) + length (dropWhile ?P xs) = length xs" by (metis length_append takeWhile_dropWhile_id)
  then show ?thesis using Insert_Sorted by simp
next
  case (Remove_First d)
  let ?P = "\<lambda>x. snd x \<noteq> d"
  have "length (takeWhile ?P xs) + length (dropWhile ?P xs) = length xs" by (metis length_append takeWhile_dropWhile_id)
  then show ?thesis using Remove_First by (simp add: remove_data_def)
next
  case Sort_Queue
  have "length (lsort func xs) = length xs" by (metis mset_lsort size_mset)
  then show ?thesis using Sort_Queue by simp
next
  case (Remove_All d)
  then show ?thesis by (simp add: le_SucI)
qed (auto simp: put_at_def Let_def)

section \<open>The property\<close>

text \<open>The elements of the queue are those of a list that are in no other use; the rest of the heap is as it was.\<close>

lemma do_ops_ok:
  assumes "queue_at h q xs" and "\<forall>x. x \<notin> addrs_of xs \<longrightarrow> h x = hs x" and "\<forall>x \<in> addrs_of xs. hs x = None"
    and "distinct (concat (map new_addrs ops))" and "\<forall>a \<in> set (concat (map new_addrs ops)). a \<noteq> NULL \<and> a \<notin> addrs_of xs \<and> hs a = None"
    and "length xs + length ops < 2 ^ 32"
  shows "\<exists>h' q' outs. do_ops func ops h q = Some (h', q', outs) \<and> snd (list_ops func ops xs) = outs \<and>
    queue_at h' q' (fst (list_ops func ops xs)) \<and> (\<forall>x. x \<notin> addrs_of (fst (list_ops func ops xs)) \<longrightarrow> h' x = hs x)"
  using assms
proof (induction ops arbitrary: h q xs)
  case (Cons op ops)
  define ys where "ys = fst (list_op func op xs)"
  have fr: "\<forall>a \<in> set (new_addrs op). fresh a xs" using Cons.prems(5) by (auto simp: fresh_def)
  obtain h1 q1 where s: "do_op func op h q = Some (h1, q1, snd (list_op func op xs))"
    "queue_at h1 q1 ys" "same_but (set (new_addrs op) \<union> addrs_of xs) h h1"
    "\<forall>x \<in> set (new_addrs op) \<union> addrs_of xs - addrs_of ys. h1 x = None"
    using op_step[OF Cons.prems(1) fr, of func] Cons.prems(6) by (auto simp: op_ok_def queued_def ys_def)
  have sub: "addrs_of ys \<subseteq> set (new_addrs op) \<union> addrs_of xs" unfolding ys_def by (rule list_op_addrs)
  have n0: "hs x = None" if "x \<in> set (new_addrs op) \<union> addrs_of xs" for x using Cons.prems(3,5) that by auto
  have "h1 x = hs x" if "x \<notin> addrs_of ys" for x
  proof (cases "x \<in> set (new_addrs op) \<union> addrs_of xs")
    case True
    then show ?thesis using s(4) n0[OF True] that by simp
  next
    case False
    then show ?thesis using s(3) Cons.prems(2) by (simp add: same_but_def)
  qed
  moreover have "\<forall>x \<in> addrs_of ys. hs x = None" using n0 sub by blast
  moreover have "distinct (concat (map new_addrs ops))" using Cons.prems(4) by simp
  moreover have "\<forall>a \<in> set (concat (map new_addrs ops)). a \<noteq> NULL \<and> a \<notin> addrs_of ys \<and> hs a = None"
  proof
    fix a assume a: "a \<in> set (concat (map new_addrs ops))"
    then have "a \<notin> set (new_addrs op)" "a \<notin> addrs_of xs" "a \<noteq> NULL" "hs a = None" using Cons.prems(4,5) by auto
    then show "a \<noteq> NULL \<and> a \<notin> addrs_of ys \<and> hs a = None" using sub by blast
  qed
  moreover have "length ys + length ops < 2 ^ 32" using list_op_length[of func op xs] Cons.prems(6) by (simp add: ys_def)
  ultimately obtain h' q' outs where r: "do_ops func ops h1 q1 = Some (h', q', outs)" "snd (list_ops func ops ys) = outs"
    "queue_at h' q' (fst (list_ops func ops ys))" "\<forall>x. x \<notin> addrs_of (fst (list_ops func ops ys)) \<longrightarrow> h' x = hs x"
    using Cons.IH[OF s(2)] by blast
  have "do_ops func (op # ops) h q = Some (h', q', snd (list_op func op xs) # outs)" using s(1) r(1) by simp
  moreover have "list_ops func (op # ops) xs = (fst (list_ops func ops ys), snd (list_op func op xs) # outs)"
    using r(2) by (auto simp: ys_def split: prod.splits)
  ultimately show ?case using r(3,4) by simp
qed simp

text \<open>C40: a queue is a list: every sequence of fewer than 2^32 operations on a new queue, in which no address is
  given to two new elements, pushes and pops at both ends and at
  positions, sorted insertions, removals, reversals, sorts, clearings and readings, returns with the results that
  the same sequence has on a list; the queue then holds what the list holds, and whatever is not in it is free again
  or as it was before.\<close>

theorem queue_refines_list:
  assumes "distinct (concat (map new_addrs ops))" and "\<forall>a \<in> set (concat (map new_addrs ops)). a \<noteq> NULL \<and> h a = None"
    and "length ops < 2 ^ 32"
  shows "\<exists>h' q'. do_ops func ops h g_queue_new = Some (h', q', snd (list_ops func ops [])) \<and>
    queue_at h' q' (fst (list_ops func ops [])) \<and> (\<forall>x. x \<notin> addrs_of (fst (list_ops func ops [])) \<longrightarrow> h' x = h x)"
  using do_ops_ok[OF new_queue, where h = h and hs = h and ops = ops and func = func] assms by auto

theorem queue_refines_list_witness:
  "\<exists>h' q'. do_ops compare_ints [Push_Tail 16 1, Push_Head 32 2, Push_Nth 48 3 1, Pop_Tail, Insert_Sorted 64 1, Pop_Nth 1, Get_Length]
     Map.empty g_queue_new =
     Some (h', q', [Nothing, Nothing, Nothing, Data 1, Nothing, Data 2, Count 2]) \<and>
     queue_at h' q' [(64, 1), (48, 3)]"
proof -
  let ?ops = "[Push_Tail 16 1, Push_Head 32 2, Push_Nth 48 3 1, Pop_Tail, Insert_Sorted 64 1, Pop_Nth 1, Get_Length]"
  have "list_ops compare_ints ?ops [] = ([(64, 1), (48, 3)], [Nothing, Nothing, Nothing, Data 1, Nothing, Data 2, Count 2])"
    by (simp add: put_at_def data_at_def compare_ints_def)
  then show ?thesis using queue_refines_list[of ?ops Map.empty compare_ints] by auto
qed

end
