(* ===== verification/Spec2Isabelle.thy ===== *)
theory Spec2Isabelle
  imports Shop_Properties Glib_Base64 Glib_Utf8_Valid Glib_Checksum_Props Glib_Date_Props Glib_Pattern_Props
    Glib_HashTable_Props Glib_Tree_Props Glib_List_Props Glib_Queue_Props
begin

text \<open>
  Verification of the Online Shopping Center and of the GLib routines shipped with it.

  \<^bold>\<open>The program.\<close> The shop (\<open>OnlineShoppingCenter/\<close>) is a console program: a customer logs in, shows products,
  fills a cart, and orders. Users, products and orders are rows of three RocksDB databases, one column family for
  each row, the fields as texts. The repository carries the libraries the program is built with; of these GLib 2.49.6
  (\<open>externs/glib/glib-2.49.6/glib/\<close>) is the C code of the repository, and its self-contained routines are modelled
  here file by file. The shop and GLib meet in the parsing of the command line only, so that the two halves of the
  development share the prelude and nothing else.

  \<^bold>\<open>The shop.\<close>
  \<^item> \<open>OSC_Prelude\<close>: machine types, exceptions as a sum, operations on a state (\<open>('s, 'a) op\<close>: a value or an
    exception, and the state it leaves), \<open>std::map\<close> as a sorted list behind the interface \<open>ordered_map\<close>.
  \<^item> \<open>Cpp_Std\<close>, \<open>Cpp_Float\<close>, \<open>Cpp_Time\<close>: what the program uses of the standard library: \<open>to_string\<close>, \<open>stoul\<close>,
    \<open>stof\<close>, binary32 arithmetic with rounding, \<open>gmtime\<close>, and \<open>strftime\<close> and \<open>strptime\<close> for the one date format.
  \<^item> \<open>Rocks\<close>: databases as lists of column families, opening, writing and reading, with their laws as the interface
    \<open>column_store\<close>, discharged for these definitions.
  \<^item> \<open>Shop_Data\<close>: the classes of \<open>product.cpp\<close>, \<open>shippingaddress.cpp\<close>, \<open>paymentinfo.cpp\<close>, \<open>transaction.cpp\<close>,
    \<open>transactionhistory.cpp\<close>, \<open>user.cpp\<close> as records, with constructors and setters; members without an initialiser are options.
  \<^item> \<open>Storage\<close> (\<open>storagesystem.cpp\<close>): the store and get operations on the three databases; \<open>Storage_Laws\<close>, \<open>User_Laws\<close>:
    rows are read back as they were written and other rows stay. An order and a cart name their products by UPC, so
    that what is read has the products as they are stored at that time.
  \<^item> \<open>Shop_Ops\<close> (\<open>shoppingcart.cpp\<close>, \<open>chargeCreditCard\<close>): operations of the cart on the logged-in user, who is stored at
    each change, and placing the order; \<open>Checkout\<close>: their effect on stock, orders and the session, and that a placed
    order is in the order database.
  \<^item> \<open>Cli\<close> (\<open>main.cpp\<close>): the prompts as states and a step for each typed line; \<open>reach\<close> are the states reachable from
    a login; \<open>Cli_Laws\<close>: the invariant of the session by rule induction; \<open>Login\<close>: a stored user logs in again.
  \<^item> \<open>Shop_Properties\<close>: the properties C1 to C9.

  \<^bold>\<open>GLib.\<close>
  \<^item> \<open>Glib_Base64\<close> (\<open>gbase64.c\<close>): the incremental encoder and decoder with their saved state, against Base64 as digits
    to the base 64 of groups of three bytes, a reference that shares nothing with the code (C10 to C12).
  \<^item> \<open>Glib_Utf8\<close> (\<open>gutf8.c\<close>): characters and bytes, validation, conversions; \<open>Glib_Utf8_Laws\<close>, \<open>Glib_Utf8_Valid\<close>: encoding and
    decoding invert each other, and validation accepts the encodings of valid characters and nothing else (C13 to C15); \<open>repaired\<close> describes what
    \<open>_g_utf8_make_valid\<close> makes of a text.
  \<^item> \<open>Glib_Hash\<close>, \<open>Glib_Checksum\<close> (\<open>gchecksum.c\<close>): the compression functions of MD5, SHA-1, SHA-256 and SHA-512, the
    incremental states and the \<open>GChecksum\<close> functions; \<open>Glib_Hash_Laws\<close>, \<open>Glib_Checksum_Laws\<close>: the interfaces \<open>block_state\<close> and
    \<open>incremental_sum\<close>, interpreted for the hash functions, give that a message in pieces has the digest of the whole
    message; \<open>Glib_Checksum_Props\<close>: C16 to C20.
  \<^item> \<open>Glib_Date\<close>, \<open>Glib_Date_Parse\<close> (\<open>gdate.c\<close>): the two representations of a date, calendar arithmetic, and the parser
    with the locale as an argument; \<open>Glib_Date_Laws\<close>: the day numbers; \<open>Glib_Date_Written\<close>: texts in which a date is
    written, and what the parser learns and reads of them; \<open>Glib_Date_Props\<close>: C21 to C24.
  \<^item> \<open>Glib_Pattern\<close> (\<open>gpattern.c\<close>): compiling a glob pattern and matching; \<open>Glib_Pattern_Laws\<close> has glob matching on characters
    as the reference, \<open>Glib_Pattern_Props\<close> the canonical form and every match type against it (C25, C26).
  \<^item> \<open>Glib_HashTable\<close> (\<open>ghash.c\<close>): open addressing with tombstones, resizing, destroy functions, iterators;
    \<open>Glib_HashTable_Laws\<close>: quadratic probing visits every slot, the invariant of the slots, the interface \<open>hash_keys\<close> that
    the caller's functions keep, interpreted for those of the library; \<open>Glib_HashTable_Props\<close>: C27 to C30.
    \<open>Glib_Types\<close> has what the containers share: pointers, the calls of destroy functions, and the interface \<open>key_order\<close> of a
    comparison that orders the values.
  \<^item> \<open>Glib_Tree\<close> (\<open>gtree.c\<close>): AVL trees with threads as nodes in a heap, a map from addresses, with the array \<open>path\<close> and
    every store of the code; \<open>Glib_Tree_Laws\<close>: the representation \<open>rep\<close> of a tree in the heap and the rotations;
    \<open>Glib_Tree_Paths\<close>: the way to a node as frames, and the loops that restore the balance; \<open>Glib_Tree_Insert\<close>:
    \<open>key_order\<close> interpreted for the comparison of the tree's tests, the way down and insertion;
    \<open>Glib_Tree_Remove\<close>: removal; \<open>Glib_Tree_Visit\<close>: lookups, visits, destruction; \<open>Glib_Tree_Props\<close>: C31 to C36.
  \<^item> \<open>Glib_List\<close> (\<open>glist.c\<close>): doubly linked lists as elements in a heap; \<open>Glib_List_Laws\<close>: the representation \<open>glist\<close> of a list in
    the heap, links between segments, and the functions that read; \<open>Glib_List_Update\<close>: insertions; \<open>Glib_List_Remove\<close>:
    removals, reversal, copies; \<open>Glib_List_Sort\<close>: merge sort of lists, sorted and stable by \<open>key_order\<close>, and the sort in the
    heap against it; \<open>Glib_List_Props\<close>: C37 to C39.
  \<^item> \<open>Glib_Queue\<close> (\<open>gqueue.c\<close>): double-ended queues over these lists; \<open>Glib_Queue_Laws\<close>, \<open>Glib_Queue_Ops\<close>: each function, those on
    links included, on the elements that the queue holds; \<open>Glib_Queue_Props\<close>: sequences of operations against a list (C40).

  \<^bold>\<open>Conventions.\<close> C strings are the bytes before the NUL, and reading at the end gives the NUL. Integers are words of
  their width where they wrap; sizes the code keeps far from wrapping are numbers, and theorems carry the bound:
  fewer than 2^31 bytes where a length is kept in a \<open>gint\<close> (\<open>gint_of\<close>), as of the output of \<open>g_base64_encode\<close> and the
  name of \<open>_g_utf8_make_valid\<close>; fewer than 2^32 and 2^61 bytes for the counters of the checksums, years 1 to 65535 (day numbers to 23936166) for
  dates, 2^30 bytes for patterns and strings, fewer than 2^29 nodes for hash tables, where the code computes four
  times their number in a \<open>gint\<close>, fewer than 2^32 elements in a queue, fewer than 433494436 nodes for trees, the number from which an AVL tree can be higher
  than the 40 places of \<open>path\<close>. \<open>fast_long\<close> takes the three rounds that the mask of \<open>g_utf8_to_ucs4_fast\<close> lasts.
  Loops that have no bound of their own are \<open>partial_function (option)\<close>, where \<open>None\<close> is not returning, and C28, C31 to C34 and C36 to C40 show
  that they return. Failed assertions are \<open>None\<close> too, and so are accesses outside of an array, and freeing
  what is not allocated.

  \<^bold>\<open>Parameters.\<close> Code that is not in the repository is an argument: the text form of UUIDs (libuuid), the clock, the
  names a locale gives months and its order of day, month and year (\<open>localtime\<close>, \<open>strftime\<close>), Unicode
  normalisation and case folding in the date parser, the memory allocator's answer in the conversions, the functions
  a caller gives to a hash table, a tree, a list or a queue, the addresses that new nodes and elements get.

  \<^bold>\<open>Findings.\<close> Where the code departs from what it means to do, a theorem states what it does: C9, C11, C15, C20 and C35, and
  \<open>login_cv2_from_expiry\<close>, \<open>login_bad_zip_escapes\<close>, \<open>zero_quantity_entry_stays\<close>, \<open>base64_close_stale_byte\<close>,
  \<open>decode_inplace\<close>, \<open>date_year_zero\<close>, \<open>date_parse_iso_2049\<close>, \<open>date_learn_overrun\<close> and \<open>utf8_fast_five_bytes\<close>.

  \<^bold>\<open>Not modelled.\<close> Of the shop: \<open>initDB\<close>, which writes sample rows, the text that is printed, and the Windows
  parts. Of the modelled GLib files: releasing the memory of anything but tree nodes and list elements, checks for NULL arguments, negative offsets of
  \<open>g_utf8_offset_to_pointer\<close>, \<open>g_date_strftime\<close>, callbacks that change the container they are called from, the dump functions of the trees. The rest of
  GLib (main loop, threads, input and output, the object system, GIO, PCRE, the Unicode tables) and RocksDB itself
  are not modelled: the shop reaches of GLib the option parser only, and of RocksDB the calls described in \<open>Rocks\<close>.
\<close>

end
